(* ===== verification/Neb_Prelude.thy ===== *)
theory Neb_Prelude
  imports Main "HOL-Library.Word"
begin

text \<open>
  Shared vocabulary of the development: names for Rust's machine integers, little-endian byte
  strings as \<^verbatim>\<open>byteorder::LittleEndian\<close> produces them, the flat byte memory that
  \<^verbatim>\<open>unsafe\<close> code of \<^verbatim>\<open>src/src/ram\<close> reads and writes through raw
  pointers, and the generic lemmas on them. Addresses (\<^verbatim>\<open>usize\<close>) are natural
  numbers: every address the program forms lies inside a mapping the kernel handed out, so
  address arithmetic does not wrap. Counters and lengths that the code keeps in a fixed width
  stay words of that width.
\<close>

unbundle bit_operations_syntax

type_synonym u8 = "8 word"
type_synonym u16 = "16 word"
type_synonym u32 = "32 word"
type_synonym u64 = "64 word"
type_synonym addr = nat
type_synonym mem = "nat \<Rightarrow> u8"
type_synonym bytes = "u8 list"

named_theorems mem_simps
named_theorems codec_simps

section \<open>Little-endian byte strings\<close>

primrec le_bytes :: "nat \<Rightarrow> nat \<Rightarrow> bytes" where
  "le_bytes 0 x = []"
| "le_bytes (Suc n) x = of_nat (x mod 256) # le_bytes n (x div 256)"

primrec le_nat :: "bytes \<Rightarrow> nat" where
  "le_nat [] = 0"
| "le_nat (b # bs) = unat b + 256 * le_nat bs"

lemma length_le_bytes [simp, codec_simps]: "length (le_bytes n x) = n"
  by (induction n arbitrary: x) auto

lemma unat_less_pow: "unat (w :: 'a :: len word) < 2 ^ LENGTH('a)"
  by (rule unsigned_less)

lemma unat_u8_less [simp]: "unat (b :: u8) < 256"
  using unat_less_pow [of b] by simp

lemma unat_u32_less [simp]: "unat (w :: u32) < 4294967296"
  using unat_less_pow [of w] by simp

lemma unat_u64_less [simp]: "unat (w :: u64) < 18446744073709551616"
  using unat_less_pow [of w] by simp

lemma unat_of_nat_byte [simp]: "unat (of_nat (x mod 256) :: u8) = x mod 256"
  by (simp add: unat_of_nat)

lemma le_nat_le_bytes: "le_nat (le_bytes n x) = x mod 256 ^ n"
proof (induction n arbitrary: x)
  case (Suc n)
  have "le_nat (le_bytes (Suc n) x) = x mod 256 + 256 * (x div 256 mod 256 ^ n)"
    by (simp add: Suc unat_of_nat)
  also have "\<dots> = x mod 256 ^ Suc n"
    by (simp add: mod_mult2_eq)
  finally show ?case .
qed simp

lemma le_nat_bound: "le_nat bs < 256 ^ length bs"
proof (induction bs)
  case (Cons b bs)
  have "unat b < 256" by simp
  then have "unat b + 256 * le_nat bs < 256 * (le_nat bs + 1)" by simp
  also have "\<dots> \<le> 256 * 256 ^ length bs"
    using Cons.IH by (intro mult_le_mono) simp_all
  finally show ?case by simp
qed simp

lemma le_bytes_le_nat: "length bs = n \<Longrightarrow> le_bytes n (le_nat bs) = bs"
proof (induction n arbitrary: bs)
  case (Suc n)
  then obtain b bs' where bs: "bs = b # bs'" and l: "length bs' = n"
    by (cases bs) auto
  have b: "unat b < 256" by simp
  have "(unat b + 256 * le_nat bs') mod 256 = unat b" using b by simp
  moreover have "(unat b + 256 * le_nat bs') div 256 = le_nat bs'" using b by simp
  ultimately show ?case using Suc.IH [OF l] by (simp add: bs)
qed simp

text \<open>The encodings of the fixed-width integers the code writes.\<close>

definition bytes_u32 :: "u32 \<Rightarrow> bytes" where
  "bytes_u32 w = le_bytes 4 (unat w)"

definition bytes_u64 :: "u64 \<Rightarrow> bytes" where
  "bytes_u64 w = le_bytes 8 (unat w)"

lemma length_bytes_u32 [simp, codec_simps]: "length (bytes_u32 w) = 4"
  by (simp add: bytes_u32_def)

lemma length_bytes_u64 [simp, codec_simps]: "length (bytes_u64 w) = 8"
  by (simp add: bytes_u64_def)

lemma of_nat_le_nat_u32 [simp, codec_simps]: "of_nat (le_nat (bytes_u32 w)) = w"
proof -
  have "unat w < 256 ^ 4" using unat_less_pow [of w] by simp
  then show ?thesis by (simp add: bytes_u32_def le_nat_le_bytes)
qed

lemma of_nat_le_nat_u64 [simp, codec_simps]: "of_nat (le_nat (bytes_u64 w)) = w"
proof -
  have "unat w < 256 ^ 8" using unat_less_pow [of w] by simp
  then show ?thesis by (simp add: bytes_u64_def le_nat_le_bytes)
qed

section \<open>Flat byte memory\<close>

definition load_bytes :: "mem \<Rightarrow> addr \<Rightarrow> nat \<Rightarrow> bytes" where
  "load_bytes m a n = map m [a ..< a + n]"

definition store_bytes :: "mem \<Rightarrow> addr \<Rightarrow> bytes \<Rightarrow> mem" where
  "store_bytes m a bs = (\<lambda>x. if a \<le> x \<and> x < a + length bs then bs ! (x - a) else m x)"

text \<open>A block copy that reads its whole source before it writes: the specification of
  \<^verbatim>\<open>libc::memmove\<close>.\<close>

definition mem_move :: "mem \<Rightarrow> addr \<Rightarrow> addr \<Rightarrow> nat \<Rightarrow> mem" where
  "mem_move m dst src n = store_bytes m dst (load_bytes m src n)"

lemma length_load_bytes [simp, mem_simps]: "length (load_bytes m a n) = n"
  by (simp add: load_bytes_def)

lemma load_bytes_nth [mem_simps]: "i < n \<Longrightarrow> load_bytes m a n ! i = m (a + i)"
  by (simp add: load_bytes_def)

lemma load_bytes_0 [simp]: "load_bytes m a 0 = []"
  by (simp add: load_bytes_def)

lemma load_bytes_1 [simp]: "load_bytes m a (Suc 0) = [m a]"
  by (simp add: load_bytes_def)

lemma load_bytes_add: "load_bytes m a (n + k) = load_bytes m a n @ load_bytes m (a + n) k"
  by (rule nth_equalityI) (auto simp: load_bytes_nth nth_append)

lemma load_bytes_eqI:
  "(\<And>x. a \<le> x \<Longrightarrow> x < a + n \<Longrightarrow> m x = m' x) \<Longrightarrow> load_bytes m a n = load_bytes m' a n"
  by (simp add: load_bytes_def)

lemma load_bytes_eqD:
  assumes "load_bytes m a n = load_bytes m' b n" and "i < n"
  shows "m (a + i) = m' (b + i)"
  using assms by (metis load_bytes_nth)

lemma load_bytes_sub:
  "k + l \<le> n \<Longrightarrow> load_bytes m (a + k) l = take l (drop k (load_bytes m a n))"
  by (rule nth_equalityI) (auto simp: load_bytes_nth add.assoc)

lemma load_bytes_eq_sub:
  assumes "load_bytes m a n = load_bytes m' b n" and "k + l \<le> n"
  shows "load_bytes m (a + k) l = load_bytes m' (b + k) l"
  using assms by (simp add: load_bytes_sub)

lemma load_store_same [simp, mem_simps]:
  "length bs = n \<Longrightarrow> load_bytes (store_bytes m a bs) a n = bs"
  by (rule nth_equalityI) (auto simp: load_bytes_nth store_bytes_def)

lemma load_store_disjoint [mem_simps]:
  "a + n \<le> b \<or> b + length bs \<le> a \<Longrightarrow> load_bytes (store_bytes m b bs) a n = load_bytes m a n"
  by (rule load_bytes_eqI) (auto simp: store_bytes_def)

lemma store_bytes_other: "x < a \<or> a + length bs \<le> x \<Longrightarrow> store_bytes m a bs x = m x"
  by (auto simp: store_bytes_def)

lemma store_bytes_Nil [simp]: "store_bytes m a [] = m"
  by (auto simp: store_bytes_def fun_eq_iff)

lemma store_bytes_load [simp]: "store_bytes m a (load_bytes m a n) = m"
  by (auto simp: store_bytes_def fun_eq_iff load_bytes_nth)

lemma store_bytes_append:
  "store_bytes m a (bs @ cs) = store_bytes (store_bytes m a bs) (a + length bs) cs"
  by (auto simp: store_bytes_def fun_eq_iff nth_append)

lemma load_mem_move_same [simp]: "load_bytes (mem_move m dst src n) dst n = load_bytes m src n"
  by (simp add: mem_move_def)

lemma load_mem_move_other:
  "a + k \<le> dst \<or> dst + n \<le> a \<Longrightarrow> load_bytes (mem_move m dst src n) a k = load_bytes m a k"
  by (simp add: mem_move_def load_store_disjoint)

section \<open>Results\<close>

text \<open>What a Rust function that returns \<^verbatim>\<open>Result\<close> may do: return a value, return
  an error, or panic. \<open>res_bind\<close> is the \<^verbatim>\<open>?\<close> operator.\<close>

datatype ('e, 'a) result = Ok 'a | Err 'e | Panic

fun res_bind :: "('e, 'a) result \<Rightarrow> ('a \<Rightarrow> ('e, 'b) result) \<Rightarrow> ('e, 'b) result" where
  "res_bind (Ok x) f = f x"
| "res_bind (Err e) f = Err e"
| "res_bind Panic f = Panic"

definition unwrap :: "'a option \<Rightarrow> ('e, 'a) result" where
  "unwrap x = (case x of Some v \<Rightarrow> Ok v | None \<Rightarrow> Panic)"

lemma res_bind_Ok_iff: "res_bind r f = Ok y \<longleftrightarrow> (\<exists>x. r = Ok x \<and> f x = Ok y)"
  by (cases r) auto

lemma unwrap_Ok_iff [simp]: "unwrap x = Ok v \<longleftrightarrow> x = Some v" and unwrap_Some [simp]: "unwrap (Some v) = Ok v"
  by (auto simp: unwrap_def split: option.splits)

lemma res_bind_cong [fundef_cong]:
  "r = r' \<Longrightarrow> (\<And>x. r' = Ok x \<Longrightarrow> f x = g x) \<Longrightarrow> res_bind r f = res_bind r' g"
  by (cases r') auto

section \<open>Decimal strings\<close>

text \<open>\<^verbatim>\<open>format!("{}", n)\<close> of an unsigned integer.\<close>

fun show_nat :: "nat \<Rightarrow> string" where
  "show_nat n = (if n < 10 then [char_of (48 + n)]
                 else show_nat (n div 10) @ [char_of (48 + n mod 10)])"

declare show_nat.simps [simp del]

section \<open>Generic lemmas on lists and maps\<close>

lemma map_of_filter_key:
  "map_of (filter (\<lambda>p. P (fst p)) xs) k = (if P k then map_of xs k else None)"
  by (induction xs) auto

lemma map_of_rev_distinct: "distinct (map fst xs) \<Longrightarrow> map_of (rev xs) = map_of xs"
  by (subst map_of_inject_set) (simp_all add: rev_map [symmetric])

lemma map_of_snoc: "k \<notin> fst ` set xs \<Longrightarrow> map_of (xs @ [(k, v)]) = (map_of xs)(k \<mapsto> v)"
  by (induction xs) auto

lemma drop_bit_nat_div: "drop_bit n (x :: nat) = x div 2 ^ n"
  by (rule drop_bit_eq_div)

section \<open>Ordered association lists\<close>

text \<open>Insertion into a \<^verbatim>\<open>BTreeMap\<close>: the list is kept in the order of the keys.\<close>

fun bmap_insert :: "('k \<Rightarrow> 'k \<Rightarrow> bool) \<Rightarrow> 'k \<Rightarrow> 'v \<Rightarrow> ('k \<times> 'v) list \<Rightarrow> ('k \<times> 'v) list" where
  "bmap_insert lt k v [] = [(k, v)]"
| "bmap_insert lt k v ((k', v') # xs) =
     (if k = k' then (k, v) # xs
      else if lt k k' then (k, v) # (k', v') # xs
      else (k', v') # bmap_insert lt k v xs)"

lemma map_of_bmap_insert [simp]: "map_of (bmap_insert lt k v xs) = (map_of xs)(k \<mapsto> v)"
  by (induction lt k v xs rule: bmap_insert.induct) auto

lemma keys_bmap_insert [simp]: "fst ` set (bmap_insert lt k v xs) = insert k (fst ` set xs)"
  by (induction lt k v xs rule: bmap_insert.induct) auto

lemma bmap_insert_sorted:
  assumes "sorted_wrt lt (map fst xs)"
    and tr: "\<And>a b c. lt a b \<Longrightarrow> lt b c \<Longrightarrow> lt a c" and tot: "\<And>a b. a = b \<or> lt a b \<or> lt b a"
  shows "sorted_wrt lt (map fst (bmap_insert lt k v xs))"
  using assms(1)
proof (induction xs)
  case (Cons p xs)
  obtain k' v' where p: "p = (k', v')" by (cases p)
  have lt': "lt k' a" if "a \<in> fst ` set xs" for a using Cons.prems that by (auto simp: p)
  consider "k = k'" | "k \<noteq> k'" "lt k k'" | "k \<noteq> k'" "\<not> lt k k'" by blast
  then show ?case
  proof cases
    case 1
    then show ?thesis using Cons.prems by (simp add: p)
  next
    case 2
    then show ?thesis using Cons.prems tr [OF 2(2)] by (simp add: p)
  next
    case 3
    then have "lt k' a" if "a \<in> fst ` set (bmap_insert lt k v xs)" for a
      using that lt' tot [of k k'] by auto
    then show ?thesis using 3 Cons by (simp add: p)
  qed
qed simp

lemma sorted_wrt_distinct: "sorted_wrt lt xs \<Longrightarrow> \<forall>a. \<not> lt a a \<Longrightarrow> distinct xs"
  by (induction xs) auto

end
