(* ===== verification/Neb_Entry.thy ===== *)
theory Neb_Entry
  imports Neb_Prelude
begin

text \<open>
  The log entry format: \<^verbatim>\<open>src/src/ram/entry.rs\<close> (flag byte, variable-length
  content length, content), \<^verbatim>\<open>src/src/ram/tombstone.rs\<close> and the cell header of
  \<^verbatim>\<open>src/src/ram/cell.rs\<close>. The writers take the memory and return the new one; a
  panic of the readers (\<^verbatim>\<open>unwrap\<close> of unknown type bits, \<^verbatim>\<open>assert_eq\<close>
  on the entry type, a length field wider than the four-byte buffer it is copied to) is
  \<open>None\<close>. The theorems are the round trips of the three encodings and the bounds of
  \<open>count_len_bytes\<close>.
\<close>

section \<open>Entry headers\<close>

text \<open>\<^verbatim>\<open>bitflags!\<close> makes \<^verbatim>\<open>EntryType\<close> a byte whose set bits are among
  the declared ones; \<^verbatim>\<open>from_bits\<close> refuses other bytes.\<close>

datatype EntryType = EntryType (entry_type_bits: u8)

definition UNDECIDED :: EntryType where "UNDECIDED = EntryType 0"
definition CELL :: EntryType where "CELL = EntryType 0x10"
definition TOMBSTONE :: EntryType where "TOMBSTONE = EntryType 0x20"

definition from_bits :: "u8 \<Rightarrow> EntryType option" where
  "from_bits b = (if b AND NOT 0x30 = 0 then Some (EntryType b) else None)"

record EntryHeader =
  entry_type :: EntryType
  content_length :: u32

record EntryMeta =
  body_pos :: addr
  entry_pos :: addr
  entry_size :: nat
  entry_header :: EntryHeader

text \<open>\<^verbatim>\<open>Entry::count_len_bytes\<close>: the loop shifts the length right by eight bits
  until nothing is left.\<close>

function count_len_bytes_loop :: "u32 \<Rightarrow> u8 \<Rightarrow> u8" where
  "count_len_bytes_loop x n = (if x \<noteq> 0 then count_len_bytes_loop (drop_bit 8 x) (n + 1) else n)"
  by pat_completeness auto
termination
proof (relation "measure (\<lambda>(x, n). unat x)")
  fix x :: u32 and n :: u8
  assume "x \<noteq> 0"
  then have "0 < unat x" by (simp add: unat_gt_0)
  then show "((drop_bit 8 x, n + 1), (x, n)) \<in> measure (\<lambda>(x, n). unat x)"
    by (simp add: unat_drop_bit_eq drop_bit_nat_div)
qed simp

declare count_len_bytes_loop.simps [simp del]

definition count_len_bytes :: "u32 \<Rightarrow> u8" where
  "count_len_bytes len = count_len_bytes_loop len 0"

text \<open>\<^verbatim>\<open>Entry::size\<close>.\<close>

definition Entry_size :: "u8 \<Rightarrow> u32 \<Rightarrow> u32" where
  "Entry_size len_bytes_count sz = 1 + ucast len_bytes_count + sz"

text \<open>\<^verbatim>\<open>Entry::encode_to\<close>: flag byte, the low \<open>len_bytes_count\<close> bytes of the
  little-endian length, then the caller's content writer at the position behind them.\<close>

definition encode_to ::
  "mem \<Rightarrow> addr \<Rightarrow> EntryType \<Rightarrow> u32 \<Rightarrow> u8 \<Rightarrow> (addr \<Rightarrow> mem \<Rightarrow> mem) \<Rightarrow> mem" where
  "encode_to m pos ty content_len len_bytes_count write_content =
     (let flag_byte = len_bytes_count OR entry_type_bits ty;
          n = unat len_bytes_count;
          m1 = m(pos := flag_byte);
          m2 = store_bytes m1 (pos + 1) (take n (bytes_u32 content_len))
      in write_content (pos + 1 + n) m2)"

text \<open>\<^verbatim>\<open>Entry::decode_from\<close>. A length nibble above four would copy beyond the
  four-byte buffer.\<close>

definition decode_from ::
  "mem \<Rightarrow> addr \<Rightarrow> (addr \<Rightarrow> EntryHeader \<Rightarrow> 'r) \<Rightarrow> (EntryHeader \<times> 'r) option" where
  "decode_from m pos content_read =
     (let flag_byte = m pos
      in case from_bits (0xF0 AND flag_byte) of
           None \<Rightarrow> None
         | Some ty \<Rightarrow>
             (let n = unat (0x0F AND flag_byte)
              in if n > 4 then None
                 else let raw = load_bytes m (pos + 1) n @ replicate (4 - n) 0;
                          entry = \<lparr>entry_type = ty, content_length = of_nat (le_nat raw)\<rparr>
                      in Some (entry, content_read (pos + 1 + n) entry)))"

section \<open>Cell headers and tombstones\<close>

record Id =
  higher :: u64
  lower :: u64

record CellHeader =
  version :: u64
  timestamp :: u32
  schema :: u32
  partition :: u64
  hash :: u64

definition CELL_HEADER_SIZE :: nat where "CELL_HEADER_SIZE = 32"

text \<open>\<^verbatim>\<open>CellHeader::new\<close>, with the wall clock's reading as an argument.\<close>

definition CellHeader_new :: "u32 \<Rightarrow> u32 \<Rightarrow> Id \<Rightarrow> CellHeader" where
  "CellHeader_new now sch i =
     \<lparr>version = 1, timestamp = now, schema = sch, partition = higher i, hash = lower i\<rparr>"

definition header_id :: "CellHeader \<Rightarrow> Id" where
  "header_id h = \<lparr>higher = partition h, lower = hash h\<rparr>"

definition header_set_id :: "CellHeader \<Rightarrow> Id \<Rightarrow> CellHeader" where
  "header_set_id h i = h\<lparr>partition := higher i, hash := lower i\<rparr>"

text \<open>The header part of \<^verbatim>\<open>write_to_chunk_with_schema\<close>: five cursor writes in
  order.\<close>

definition header_bytes :: "CellHeader \<Rightarrow> bytes" where
  "header_bytes h = bytes_u64 (version h) @ bytes_u32 (timestamp h) @ bytes_u32 (schema h)
     @ bytes_u64 (partition h) @ bytes_u64 (hash h)"

definition write_cell_header :: "CellHeader \<Rightarrow> addr \<Rightarrow> mem \<Rightarrow> mem" where
  "write_cell_header h a m = store_bytes m a (header_bytes h)"

definition read_u32 :: "mem \<Rightarrow> addr \<Rightarrow> u32" where
  "read_u32 m a = of_nat (le_nat (load_bytes m a 4))"

definition read_u64 :: "mem \<Rightarrow> addr \<Rightarrow> u64" where
  "read_u64 m a = of_nat (le_nat (load_bytes m a 8))"

definition cell_header_from_entry_content_addr :: "mem \<Rightarrow> addr \<Rightarrow> CellHeader" where
  "cell_header_from_entry_content_addr m a =
     \<lparr>version = read_u64 m a, timestamp = read_u32 m (a + 8), schema = read_u32 m (a + 12),
      partition = read_u64 m (a + 16), hash = read_u64 m (a + 24)\<rparr>"

datatype ReadError =
    RE_SchemaDoesNotExisted u32
  | RE_CellDoesNotExisted
  | RE_NetworkingError
  | RE_CellTypeIsNotMapForSelect
  | RE_CellIdIsUnitId

text \<open>\<^verbatim>\<open>header_from_chunk_raw\<close>: address zero is an error value, a non-cell entry
  or an undecodable one is a panic (the outer \<open>None\<close>).\<close>

definition header_from_chunk_raw ::
  "mem \<Rightarrow> addr \<Rightarrow> (ReadError + (CellHeader \<times> addr \<times> EntryHeader)) option" where
  "header_from_chunk_raw m ptr =
     (if ptr = 0 then Some (Inl RE_CellIdIsUnitId)
      else case decode_from m ptr (\<lambda>a eh. (cell_header_from_entry_content_addr m a,
                                           a + CELL_HEADER_SIZE, eh)) of
             None \<Rightarrow> None
           | Some (eh, r) \<Rightarrow> if entry_type eh = CELL then Some (Inr r) else None)"

record Tombstone =
  ts_segment_id :: u64
  ts_version :: u64
  ts_partition :: u64
  ts_hash :: u64

definition TOMBSTONE_SIZE :: nat where "TOMBSTONE_SIZE = 32"
definition TOMBSTONE_SIZE_U32 :: u32 where "TOMBSTONE_SIZE_U32 = 32"
definition TOMBSTONE_LEN_BYTES_COUNT :: u8 where
  "TOMBSTONE_LEN_BYTES_COUNT = count_len_bytes TOMBSTONE_SIZE_U32"
definition TOMBSTONE_ENTRY_SIZE :: u32 where
  "TOMBSTONE_ENTRY_SIZE = Entry_size TOMBSTONE_LEN_BYTES_COUNT TOMBSTONE_SIZE_U32"

definition tombstone_bytes :: "Tombstone \<Rightarrow> bytes" where
  "tombstone_bytes t = bytes_u64 (ts_segment_id t) @ bytes_u64 (ts_version t)
     @ bytes_u64 (ts_partition t) @ bytes_u64 (ts_hash t)"

definition Tombstone_write :: "Tombstone \<Rightarrow> addr \<Rightarrow> mem \<Rightarrow> mem" where
  "Tombstone_write t a m =
     encode_to m a TOMBSTONE TOMBSTONE_SIZE_U32 TOMBSTONE_LEN_BYTES_COUNT
       (\<lambda>b m'. store_bytes m' b (tombstone_bytes t))"

definition read_from_entry_content_addr :: "mem \<Rightarrow> addr \<Rightarrow> Tombstone" where
  "read_from_entry_content_addr m a =
     \<lparr>ts_segment_id = read_u64 m a, ts_version = read_u64 m (a + 8),
      ts_partition = read_u64 m (a + 16), ts_hash = read_u64 m (a + 24)\<rparr>"

definition Tombstone_read :: "mem \<Rightarrow> addr \<Rightarrow> Tombstone option" where
  "Tombstone_read m a =
     (case decode_from m a (\<lambda>b eh. read_from_entry_content_addr m b) of
        None \<Rightarrow> None
      | Some (eh, t) \<Rightarrow> if entry_type eh = TOMBSTONE then Some t else None)"

definition Tombstone_put :: "addr \<Rightarrow> u64 \<Rightarrow> u64 \<Rightarrow> u64 \<Rightarrow> u64 \<Rightarrow> mem \<Rightarrow> mem" where
  "Tombstone_put a sid ver part h m =
     Tombstone_write \<lparr>ts_segment_id = sid, ts_version = ver, ts_partition = part, ts_hash = h\<rparr> a m"

section \<open>Lemmas: the length field\<close>

lemma count_len_bytes_loop_eq:
  assumes "unat x < 256 ^ k" and "k = 0 \<or> 256 ^ (k - 1) \<le> unat x"
  shows "count_len_bytes_loop x n = n + of_nat k"
  using assms
proof (induction k arbitrary: x n)
  case 0
  then show ?case by (simp add: count_len_bytes_loop.simps unat_eq_0)
next
  case (Suc k)
  have nz: "x \<noteq> 0"
    using Suc.prems(2) by (auto simp: unat_0)
  have sh: "unat (drop_bit 8 x) = unat x div 256"
    by (simp add: unat_drop_bit_eq drop_bit_nat_div)
  have "unat (drop_bit 8 x) < 256 ^ k"
    unfolding sh using Suc.prems(1) by (simp add: less_mult_imp_div_less mult.commute)
  moreover have "k = 0 \<or> 256 ^ (k - 1) \<le> unat (drop_bit 8 x)"
  proof (cases k)
    case (Suc j)
    then have "256 * 256 ^ j \<le> unat x" using Suc.prems(2) by simp
    then have "(256 * 256 ^ j) div 256 \<le> unat x div 256" by (rule div_le_mono)
    then show ?thesis unfolding sh using Suc by simp
  qed simp
  ultimately have "count_len_bytes_loop (drop_bit 8 x) (n + 1) = (n + 1) + of_nat k"
    by (rule Suc.IH)
  then show ?case using nz by (simp add: count_len_bytes_loop.simps [of x])
qed

lemma byte_length_exists:
  fixes x :: u32
  obtains k where "k \<le> 4" and "unat x < 256 ^ k" and "k = 0 \<or> 256 ^ (k - 1) \<le> unat x"
proof -
  define k where "k = (LEAST k. unat x < 256 ^ k)"
  have top: "unat x < 256 ^ (4::nat)" by simp
  have less: "unat x < 256 ^ k" unfolding k_def by (rule LeastI [of _ 4]) (rule top)
  have "k \<le> 4" unfolding k_def by (rule Least_le) (rule top)
  moreover have "k = 0 \<or> 256 ^ (k - 1) \<le> unat x"
  proof (cases k)
    case (Suc j)
    then have "\<not> unat x < 256 ^ j" unfolding k_def by (metis lessI not_less_Least)
    then show ?thesis using Suc by simp
  qed simp
  ultimately show ?thesis using that less by blast
qed

lemma count_len_bytes_spec:
  "unat (count_len_bytes len) \<le> 4 \<and> unat len < 256 ^ unat (count_len_bytes len) \<and>
   (count_len_bytes len = 0 \<or> 256 ^ (unat (count_len_bytes len) - 1) \<le> unat len)"
proof -
  obtain k where k: "k \<le> 4" "unat len < 256 ^ k" "k = 0 \<or> 256 ^ (k - 1) \<le> unat len"
    by (rule byte_length_exists)
  have c: "count_len_bytes len = of_nat k"
    using count_len_bytes_loop_eq [OF k(2,3), of 0] by (simp add: count_len_bytes_def)
  have u: "unat (of_nat k :: u8) = k" using k(1) by (simp add: unat_of_nat)
  show ?thesis using k by (auto simp: c u)
qed

lemmas count_len_bytes_le = count_len_bytes_spec [THEN conjunct1]
  and count_len_bytes_less = count_len_bytes_spec [THEN conjunct2, THEN conjunct1]

lemma take_le_bytes: "n \<le> k \<Longrightarrow> take n (le_bytes k x) = le_bytes n x"
proof (induction n arbitrary: k x)
  case (Suc n)
  then show ?case by (cases k) auto
qed simp

lemma le_bytes_0: "le_bytes k 0 = replicate k 0"
  by (induction k) auto

lemma le_bytes_pad: "x < 256 ^ n \<Longrightarrow> n \<le> k \<Longrightarrow> le_bytes k x = le_bytes n x @ replicate (k - n) 0"
proof (induction n arbitrary: k x)
  case 0
  then show ?case by (simp add: le_bytes_0)
next
  case (Suc n)
  then obtain k' where k: "k = Suc k'" by (cases k) auto
  have "x div 256 < 256 ^ n"
    using Suc.prems(1) by (simp add: less_mult_imp_div_less mult.commute)
  then have "le_bytes k' (x div 256) = le_bytes n (x div 256) @ replicate (k' - n) 0"
    by (rule Suc.IH) (use Suc.prems(2) k in simp)
  then show ?case by (simp add: k)
qed

section \<open>Lemmas: entry headers\<close>

text \<open>What the decoder says about an entry's header: its fields and where its content
  starts.\<close>

definition header_at :: "mem \<Rightarrow> addr \<Rightarrow> (EntryHeader \<times> addr) option" where
  "header_at m pos = decode_from m pos (\<lambda>b eh. b)"

lemma decode_from_header_at:
  "decode_from m pos f = map_option (\<lambda>(eh, b). (eh, f b eh)) (header_at m pos)"
  by (simp add: header_at_def decode_from_def Let_def split: option.splits)

lemma header_at_bounds:
  "header_at m pos = Some (eh, b) \<Longrightarrow> pos < b \<and> b \<le> pos + 5"
  by (auto simp: header_at_def decode_from_def Let_def split: option.splits if_splits)

text \<open>The header depends on the bytes from the entry's start to its content only, and not on
  where they lie.\<close>

lemma header_at_move:
  assumes h: "header_at m pos = Some (eh, b)"
    and eq: "load_bytes m' pos' (b - pos) = load_bytes m pos (b - pos)"
  shows "header_at m' pos' = Some (eh, pos' + (b - pos))"
proof -
  have pb: "pos < b" using header_at_bounds [OF h] by simp
  let ?n = "unat (0x0F AND m pos)"
  have b: "b = pos + 1 + ?n" and n4: "\<not> ?n > 4"
    using h by (auto simp: header_at_def decode_from_def Let_def split: option.splits if_splits)
  have flag: "m' pos' = m pos"
    using load_bytes_eqD [OF eq, of 0] pb by simp
  have len: "load_bytes m' (pos' + 1) ?n = load_bytes m (pos + 1) ?n"
    using load_bytes_eq_sub [OF eq, of 1 ?n] b by simp
  show ?thesis
    using h n4 flag len b
    by (auto simp: header_at_def decode_from_def Let_def split: option.splits)
qed

lemma small_byte_cases:
  assumes "unat (n :: u8) \<le> 4"
  shows "n = 0 \<or> n = 1 \<or> n = 2 \<or> n = 3 \<or> n = 4"
proof -
  have "unat n = 0 \<or> unat n = 1 \<or> unat n = 2 \<or> unat n = 3 \<or> unat n = 4"
    using assms by arith
  then show ?thesis by (auto simp: word_unat_eq_iff)
qed

lemma flag_byte_type:
  assumes "unat (n :: u8) \<le> 4" and "ty \<in> {UNDECIDED, CELL, TOMBSTONE}"
  shows "from_bits (0xF0 AND (n OR entry_type_bits ty)) = Some ty"
  using small_byte_cases [OF assms(1)] assms(2)
  by (auto simp: from_bits_def UNDECIDED_def CELL_def TOMBSTONE_def)

lemma flag_byte_length:
  assumes "unat (n :: u8) \<le> 4" and "ty \<in> {UNDECIDED, CELL, TOMBSTONE}"
  shows "0x0F AND (n OR entry_type_bits ty) = n"
  using small_byte_cases [OF assms(1)] assms(2)
  by (auto simp: UNDECIDED_def CELL_def TOMBSTONE_def)

lemma raw_length_roundtrip:
  assumes "unat len < 256 ^ n" and "n \<le> 4"
  shows "of_nat (le_nat (take n (bytes_u32 len) @ replicate (4 - n) 0)) = len"
proof -
  have "take n (bytes_u32 len) @ replicate (4 - n) 0 = bytes_u32 len"
    using le_bytes_pad [OF assms] assms(2) by (simp add: bytes_u32_def take_le_bytes)
  then show ?thesis by simp
qed

text \<open>A content writer keeps the bytes before its position.\<close>

definition writes_from :: "(addr \<Rightarrow> mem \<Rightarrow> mem) \<Rightarrow> bool" where
  "writes_from w = (\<forall>b m x. x < b \<longrightarrow> w b m x = m x)"

lemma writes_from_store [simp]: "writes_from (\<lambda>b m. store_bytes m b bs)"
  by (simp add: writes_from_def store_bytes_other)

lemma header_at_encode_to:
  assumes n: "unat len < 256 ^ unat n" "unat n \<le> 4"
    and ty: "ty \<in> {UNDECIDED, CELL, TOMBSTONE}" and w: "writes_from w"
  shows "header_at (encode_to m pos ty len n w) pos =
    Some (\<lparr>entry_type = ty, content_length = len\<rparr>, pos + 1 + unat n)"
proof -
  let ?m1 = "m(pos := n OR entry_type_bits ty)"
  let ?m2 = "store_bytes ?m1 (pos + 1) (take (unat n) (bytes_u32 len))"
  let ?m3 = "encode_to m pos ty len n w"
  have keep: "?m3 x = ?m2 x" if "x < pos + 1 + unat n" for x
    using w that by (simp add: encode_to_def Let_def writes_from_def)
  have flag: "?m3 pos = n OR entry_type_bits ty"
    by (simp add: keep store_bytes_other)
  have "load_bytes ?m3 (pos + 1) (unat n) = load_bytes ?m2 (pos + 1) (unat n)"
    by (rule load_bytes_eqI) (simp add: keep)
  also have "\<dots> = take (unat n) (bytes_u32 len)"
    using n(2) by (intro load_store_same) simp
  finally have raw: "load_bytes ?m3 (Suc pos) (unat n) = take (unat n) (bytes_u32 len)" by simp
  show ?thesis
    using n(2) flag_byte_type [OF n(2) ty] flag_byte_length [OF n(2) ty] raw_length_roundtrip [OF n]
    by (simp add: header_at_def decode_from_def flag raw)
qed

lemma encode_to_eq:
  "encode_to m pos ty len n w = w (pos + 1 + unat n)
     (store_bytes (m(pos := n OR entry_type_bits ty)) (pos + 1) (take (unat n) (bytes_u32 len)))"
  by (simp add: encode_to_def Let_def)

section \<open>Lemmas: cell headers and tombstones\<close>

lemma load_store_part:
  assumes "k + n \<le> length bs"
  shows "load_bytes (store_bytes m a bs) (a + k) n = take n (drop k bs)"
  using assms load_bytes_sub [OF assms, of "store_bytes m a bs" a] by simp

lemma read_u32_store [mem_simps]:
  "k + 4 \<le> length bs \<Longrightarrow>
     read_u32 (store_bytes m a bs) (a + k) = of_nat (le_nat (take 4 (drop k bs)))"
  by (simp add: read_u32_def load_store_part)

lemma read_u64_store [mem_simps]:
  "k + 8 \<le> length bs \<Longrightarrow>
     read_u64 (store_bytes m a bs) (a + k) = of_nat (le_nat (take 8 (drop k bs)))"
  by (simp add: read_u64_def load_store_part)

lemma read_u64_eqI: "load_bytes m a 8 = load_bytes m' a' 8 \<Longrightarrow> read_u64 m a = read_u64 m' a'"
  by (simp add: read_u64_def)

lemma read_u32_eqI: "load_bytes m a 4 = load_bytes m' a' 4 \<Longrightarrow> read_u32 m a = read_u32 m' a'"
  by (simp add: read_u32_def)

lemma length_header_bytes [simp]: "length (header_bytes h) = CELL_HEADER_SIZE"
  by (simp add: header_bytes_def CELL_HEADER_SIZE_def)

lemma length_tombstone_bytes [simp]: "length (tombstone_bytes t) = TOMBSTONE_SIZE"
  by (simp add: tombstone_bytes_def TOMBSTONE_SIZE_def)

lemma cell_header_write_read:
  "cell_header_from_entry_content_addr (write_cell_header h a m) a = h"
proof -
  let ?m = "store_bytes m a (header_bytes h)"
  have "read_u64 ?m (a + 0) = version h"
    by (subst read_u64_store) (auto simp: CELL_HEADER_SIZE_def, simp add: header_bytes_def)
  moreover have "read_u32 ?m (a + 8) = timestamp h"
    by (subst read_u32_store) (auto simp: CELL_HEADER_SIZE_def, simp add: header_bytes_def)
  moreover have "read_u32 ?m (a + 12) = schema h"
    by (subst read_u32_store) (auto simp: CELL_HEADER_SIZE_def, simp add: header_bytes_def)
  moreover have "read_u64 ?m (a + 16) = partition h"
    by (subst read_u64_store) (auto simp: CELL_HEADER_SIZE_def, simp add: header_bytes_def)
  moreover have "read_u64 ?m (a + 24) = hash h"
    by (subst read_u64_store) (auto simp: CELL_HEADER_SIZE_def, simp add: header_bytes_def)
  ultimately show ?thesis
    by (simp add: cell_header_from_entry_content_addr_def write_cell_header_def)
qed

lemma cell_header_eqI:
  assumes "load_bytes m a CELL_HEADER_SIZE = load_bytes m' a' CELL_HEADER_SIZE"
  shows "cell_header_from_entry_content_addr m a = cell_header_from_entry_content_addr m' a'"
proof -
  have part: "load_bytes m (a + k) l = load_bytes m' (a' + k) l" if "k + l \<le> 32" for k l
    using load_bytes_eq_sub [of m a 32 m' a' k l] assms that by (simp add: CELL_HEADER_SIZE_def)
  show ?thesis
    using part [of 0 8] part [of 8 4] part [of 12 4] part [of 16 8] part [of 24 8]
    by (simp add: cell_header_from_entry_content_addr_def read_u32_def read_u64_def)
qed

lemma tombstone_write_read_content:
  "read_from_entry_content_addr (store_bytes m a (tombstone_bytes t)) a = t"
proof -
  let ?m = "store_bytes m a (tombstone_bytes t)"
  have "read_u64 ?m (a + 0) = ts_segment_id t"
    by (subst read_u64_store) (auto simp: TOMBSTONE_SIZE_def, simp add: tombstone_bytes_def)
  moreover have "read_u64 ?m (a + 8) = ts_version t"
    by (subst read_u64_store) (auto simp: TOMBSTONE_SIZE_def, simp add: tombstone_bytes_def)
  moreover have "read_u64 ?m (a + 16) = ts_partition t"
    by (subst read_u64_store) (auto simp: TOMBSTONE_SIZE_def, simp add: tombstone_bytes_def)
  moreover have "read_u64 ?m (a + 24) = ts_hash t"
    by (subst read_u64_store) (auto simp: TOMBSTONE_SIZE_def, simp add: tombstone_bytes_def)
  ultimately show ?thesis by (simp add: read_from_entry_content_addr_def)
qed

lemma read_tombstone_eqI:
  assumes "load_bytes m a TOMBSTONE_SIZE = load_bytes m' a' TOMBSTONE_SIZE"
  shows "read_from_entry_content_addr m a = read_from_entry_content_addr m' a'"
proof -
  have part: "load_bytes m (a + k) 8 = load_bytes m' (a' + k) 8" if "k + 8 \<le> 32" for k
    using load_bytes_eq_sub [of m a 32 m' a' k 8] assms that by (simp add: TOMBSTONE_SIZE_def)
  show ?thesis
    using part [of 0] part [of 8] part [of 16] part [of 24]
    by (simp add: read_from_entry_content_addr_def read_u64_def)
qed

lemma tombstone_len_bytes [simp]: "TOMBSTONE_LEN_BYTES_COUNT = 1"
  using count_len_bytes_loop_eq [of 32 1 0]
  by (simp add: TOMBSTONE_LEN_BYTES_COUNT_def count_len_bytes_def TOMBSTONE_SIZE_U32_def)

lemma tombstone_entry_size [simp]: "TOMBSTONE_ENTRY_SIZE = 34"
  by (simp add: TOMBSTONE_ENTRY_SIZE_def Entry_size_def TOMBSTONE_SIZE_U32_def)

lemma header_at_tombstone:
  "header_at (Tombstone_write t a m) a =
     Some (\<lparr>entry_type = TOMBSTONE, content_length = 32\<rparr>, a + 2)"
  unfolding Tombstone_write_def
  by (subst header_at_encode_to) (auto simp: TOMBSTONE_SIZE_U32_def)

lemma header_at_tombstone_put:
  "header_at (Tombstone_put a sid ver part h m) a =
     Some (\<lparr>entry_type = TOMBSTONE, content_length = 32\<rparr>, a + 2)"
  by (simp add: Tombstone_put_def header_at_tombstone)

lemma Tombstone_put_frame:
  "\<not> (a \<le> x \<and> x < a + 34) \<Longrightarrow> Tombstone_put a sid ver part h m x = m x"
  by (auto simp: Tombstone_put_def Tombstone_write_def encode_to_eq store_bytes_def TOMBSTONE_SIZE_def)

section \<open>Properties\<close>

text \<open>C17: an entry that \<^verbatim>\<open>Entry::encode_to\<close> writes with the length width
  \<^verbatim>\<open>count_len_bytes\<close> computes for it is decoded by \<^verbatim>\<open>Entry::decode_from\<close>
  to the same type and content length, with the content reader called on the position the
  content writer was called on, for every content writer that writes from its position on.\<close>

theorem entry_encode_decode:
  assumes "ty \<in> {UNDECIDED, CELL, TOMBSTONE}" and "writes_from w"
  shows "decode_from (encode_to m pos ty len (count_len_bytes len) w) pos f =
    Some (\<lparr>entry_type = ty, content_length = len\<rparr>,
          f (pos + 1 + unat (count_len_bytes len)) \<lparr>entry_type = ty, content_length = len\<rparr>)"
  using header_at_encode_to [OF count_len_bytes_less count_len_bytes_le assms]
  by (simp add: decode_from_header_at)

theorem entry_encode_decode_witness:
  "decode_from (encode_to (\<lambda>_. 7) 100 CELL 300 (count_len_bytes 300)
      (\<lambda>b m. store_bytes m b [1, 2, 3])) 100 (\<lambda>b eh. b - 100) =
    Some (\<lparr>entry_type = CELL, content_length = 300\<rparr>, 1 + unat (count_len_bytes 300))"
  using entry_encode_decode [of CELL "\<lambda>b m. store_bytes m b [1, 2, 3]" "\<lambda>_. 7" 100 300
      "\<lambda>b eh. b - 100"]
  by simp

text \<open>C38: \<^verbatim>\<open>Entry::count_len_bytes\<close> returns the least number of bytes that
  hold the length, at most four, so it fits the low nibble of the flag byte and the four-byte
  buffer of the decoder.\<close>

theorem count_len_bytes_least:
  "unat (count_len_bytes len) = (LEAST k. unat len < 256 ^ k) \<and> unat (count_len_bytes len) \<le> 4"
proof -
  let ?k = "unat (count_len_bytes len)"
  have "(LEAST k. unat len < 256 ^ k) = ?k"
  proof (rule Least_equality)
    show "unat len < 256 ^ ?k" by (rule count_len_bytes_less)
  next
    fix j assume j: "unat len < 256 ^ j"
    show "?k \<le> j"
    proof (rule ccontr)
      assume "\<not> ?k \<le> j"
      then have "j \<le> ?k - 1" and "count_len_bytes len \<noteq> 0" by auto
      then have "256 ^ j \<le> (256 :: nat) ^ (?k - 1)" by (intro power_increasing) auto
      also have "\<dots> \<le> unat len"
        using count_len_bytes_spec [of len] \<open>count_len_bytes len \<noteq> 0\<close> by blast
      finally show False using j by simp
    qed
  qed
  then show ?thesis using count_len_bytes_le by simp
qed

text \<open>C3: \<^verbatim>\<open>Tombstone::read\<close> returns what \<^verbatim>\<open>Tombstone::put\<close> wrote,
  and putting a tombstone changes no byte outside the 34 bytes the chunk acquires for it.\<close>

theorem tombstone_put_read:
  "Tombstone_read (Tombstone_put a sid ver part h m) a =
     Some \<lparr>ts_segment_id = sid, ts_version = ver, ts_partition = part, ts_hash = h\<rparr> \<and>
   (\<forall>x. \<not> (a \<le> x \<and> x < a + unat TOMBSTONE_ENTRY_SIZE) \<longrightarrow>
        Tombstone_put a sid ver part h m x = m x)"
proof -
  let ?t = "\<lparr>ts_segment_id = sid, ts_version = ver, ts_partition = part, ts_hash = h\<rparr>"
  have "read_from_entry_content_addr (Tombstone_write ?t a m) (a + 2) = ?t"
    using tombstone_write_read_content [of _ "a + 2" ?t]
    by (simp add: Tombstone_write_def encode_to_eq)
  then have "Tombstone_read (Tombstone_put a sid ver part h m) a = Some ?t"
    by (simp add: Tombstone_read_def Tombstone_put_def decode_from_header_at header_at_tombstone)
  then show ?thesis by (simp add: Tombstone_put_frame)
qed

theorem tombstone_put_read_witness:
  "Tombstone_put 10 1 2 3 4 (\<lambda>_. 9) 44 = 9 \<and> Tombstone_put 10 1 2 3 4 (\<lambda>_. 9) 9 = 9"
  using tombstone_put_read [of 10 1 2 3 4 "\<lambda>_. 9"] by simp

end
