(* ===== verification/Neb_Segs.thy ===== *)
theory Neb_Segs
  imports Complex_Main Neb_Entry "HOL-Library.Multiset"
begin

text \<open>
  Segments and their allocator: \<^verbatim>\<open>src/src/ram/segs.rs\<close>. A segment is a record
  with the fields of the Rust struct (atomics become plain fields), the allocator hands out
  segment-sized blocks of one anonymous mapping, and the entry iterator walks the log of a
  segment through the memory. Files are a map from paths to contents with a set of paths that
  cannot be written. \<^verbatim>\<open>lightning::list::WordList\<close> is a bag of words; which word
  its \<^verbatim>\<open>pop\<close> takes is the argument \<open>pop\<close>. The compare-and-swap loop of
  \<^verbatim>\<open>try_acquire\<close> is modelled twice: as the effect of one undisturbed call, and as a
  step relation of any number of threads, whose every interleaving is shown equivalent to a
  sequence of undisturbed calls.
\<close>

section \<open>Files\<close>

record FileSystem =
  files :: "string \<Rightarrow> bytes option"
  denied :: "string \<Rightarrow> bool"

definition fs_create :: "FileSystem \<Rightarrow> string \<Rightarrow> FileSystem option" where
  "fs_create fs p = (if denied fs p then None else Some (fs\<lparr>files := (files fs)(p \<mapsto> [])\<rparr>))"

definition fs_append :: "FileSystem \<Rightarrow> string \<Rightarrow> bytes \<Rightarrow> FileSystem option" where
  "fs_append fs p bs =
     (if denied fs p then None
      else Some (case files fs p of
                   None \<Rightarrow> fs
                 | Some old \<Rightarrow> fs\<lparr>files := (files fs)(p \<mapsto> old @ bs)\<rparr>))"

definition fs_copy :: "FileSystem \<Rightarrow> string \<Rightarrow> string \<Rightarrow> FileSystem option" where
  "fs_copy fs src dst =
     (case files fs src of
        None \<Rightarrow> None
      | Some bs \<Rightarrow> if denied fs dst then None else Some (fs\<lparr>files := (files fs)(dst \<mapsto> bs)\<rparr>))"

definition fs_remove :: "FileSystem \<Rightarrow> string \<Rightarrow> FileSystem option" where
  "fs_remove fs p =
     (if files fs p = None \<or> denied fs p then None
      else Some (fs\<lparr>files := (files fs)(p := None)\<rparr>))"

section \<open>Segments\<close>

definition SEGMENT_SIZE :: nat where "SEGMENT_SIZE = 8 * 1024 * 1024"
definition SEGMENT_BITS_SHIFT :: nat where "SEGMENT_BITS_SHIFT = 23"
definition PAGE_SHIFT :: nat where "PAGE_SHIFT = 12"
definition PAGE_SIZE :: nat where "PAGE_SIZE = 4096"

text \<open>\<^verbatim>\<open>x & SEGMENT_MASK\<close>: the low \<open>SEGMENT_BITS_SHIFT\<close> bits cleared.\<close>

definition segment_mask :: "nat \<Rightarrow> nat" where
  "segment_mask x = push_bit SEGMENT_BITS_SHIFT (drop_bit SEGMENT_BITS_SHIFT x)"

record Segment =
  seg_id :: u64
  seg_addr :: addr
  seg_bound :: addr
  append_header :: addr
  dead_space :: u32
  tombstones :: u32
  dead_tombstones :: u32
  last_tombstones_scanned :: int
  references :: nat
  backup_file_name :: "string option"
  wal_file :: "string option"
  wal_file_name :: "string option"
  archived :: bool
  dropped :: bool

text \<open>\<^verbatim>\<open>Segment::new\<close>; \<open>None\<close> is the panic when the log file cannot be
  created. The open log file is represented by its path.\<close>

definition Segment_new ::
  "FileSystem \<Rightarrow> u64 \<Rightarrow> addr \<Rightarrow> string option \<Rightarrow> string option
     \<Rightarrow> (Segment \<times> FileSystem) option" where
  "Segment_new fs sid buffer_ptr backup_storage wal_storage =
     (let seg = \<lparr>seg_id = sid, seg_addr = buffer_ptr, seg_bound = buffer_ptr + SEGMENT_SIZE,
                 append_header = buffer_ptr, dead_space = 0, tombstones = 0,
                 dead_tombstones = 0, last_tombstones_scanned = 0, references = 0,
                 backup_file_name =
                   map_option (\<lambda>p. p @ ''/'' @ show_nat (unat sid) @ ''.backup'') backup_storage,
                 wal_file = None, wal_file_name = None, archived = False, dropped = False\<rparr>
      in case wal_storage of
           None \<Rightarrow> Some (seg, fs)
         | Some p \<Rightarrow>
             (let file_name = p @ ''/'' @ show_nat (unat sid) @ ''.log''
              in case fs_create fs file_name of
                   None \<Rightarrow> None
                 | Some fs' \<Rightarrow>
                     Some (seg\<lparr>wal_file := Some file_name, wal_file_name := Some file_name\<rparr>, fs')))"

text \<open>\<^verbatim>\<open>Segment::try_acquire\<close> without interference: the first
  compare-and-swap succeeds.\<close>

definition Segment_try_acquire :: "Segment \<Rightarrow> u32 \<Rightarrow> addr option \<times> Segment" where
  "Segment_try_acquire seg sz =
     (let curr_last = append_header seg;
          exp_last = curr_last + unat sz
      in if exp_last > seg_bound seg then (None, seg)
         else (Some curr_last, seg\<lparr>append_header := exp_last\<rparr>))"

text \<open>\<^verbatim>\<open>punch_hole\<close> and \<^verbatim>\<open>Segment::shrink\<close>. What
  \<^verbatim>\<open>madvise\<close> leaves in the released pages is the argument \<open>advise\<close>.\<close>

definition punch_hole :: "(mem \<Rightarrow> addr \<Rightarrow> nat \<Rightarrow> mem) \<Rightarrow> addr \<Rightarrow> nat \<Rightarrow> mem \<Rightarrow> mem" where
  "punch_hole advise a sz m =
     (let right_boundary = a + sz;
          aligned_addr = push_bit PAGE_SHIFT (drop_bit PAGE_SHIFT (right_boundary - 1) + 1);
          hole_length = (a + SEGMENT_SIZE) - aligned_addr
      in if hole_length > PAGE_SIZE then advise m aligned_addr hole_length else m)"

definition shrink :: "(mem \<Rightarrow> addr \<Rightarrow> nat \<Rightarrow> mem) \<Rightarrow> Segment \<Rightarrow> nat \<Rightarrow> mem \<Rightarrow> mem" where
  "shrink advise seg sz m = punch_hole advise (seg_addr seg) sz m"

definition total_dead_space :: "Segment \<Rightarrow> u32" where
  "total_dead_space seg = dead_tombstones seg * TOMBSTONE_SIZE_U32 + dead_space seg"

definition used_spaces :: "Segment \<Rightarrow> u32" where
  "used_spaces seg = of_nat (append_header seg - seg_addr seg)"

definition living_space :: "Segment \<Rightarrow> u32" where
  "living_space seg =
     (if total_dead_space seg \<le> used_spaces seg then used_spaces seg - total_dead_space seg else 0)"

definition valid_space :: "Segment \<Rightarrow> u32" where
  "valid_space seg = used_spaces seg - dead_space seg"

text \<open>The quotient of two integers below \<open>2 ^ 24\<close>, exact before the
  \<^verbatim>\<open>f32\<close> division rounds it.\<close>

definition living_rate :: "Segment \<Rightarrow> rat" where
  "living_rate seg =
     (if used_spaces seg = 0 then 1
      else of_nat (unat (living_space seg)) / of_nat (unat (used_spaces seg)))"

definition no_references :: "Segment \<Rightarrow> bool" where
  "no_references seg = (references seg = 0)"

text \<open>\<^verbatim>\<open>Segment::archive\<close>: \<open>None\<close> when the loop keeps waiting for references,
  otherwise the result (\<open>Inl\<close> is an I/O error) and the files.\<close>

definition archive ::
  "mem \<Rightarrow> Segment \<Rightarrow> FileSystem \<Rightarrow> ((unit + bool) \<times> FileSystem) option" where
  "archive m seg fs =
     (case backup_file_name seg of
        None \<Rightarrow> Some (Inr False, fs)
      | Some backup_file \<Rightarrow>
          if \<not> no_references seg then None
          else if files fs backup_file \<noteq> None then Some (Inr False, fs)
          else (case wal_file_name seg of
                  Some wal \<Rightarrow>
                    (case fs_copy fs wal backup_file of
                       None \<Rightarrow> Some (Inl (), fs)
                     | Some fs1 \<Rightarrow>
                         (case fs_remove fs1 wal of
                            None \<Rightarrow> Some (Inl (), fs1)
                          | Some fs2 \<Rightarrow> Some (Inr False, fs2)))
                | None \<Rightarrow>
                    (case fs_create fs backup_file of
                       None \<Rightarrow> Some (Inl (), fs)
                     | Some fs1 \<Rightarrow>
                         (case fs_append fs1 backup_file
                                 (load_bytes m (seg_addr seg) (append_header seg - seg_addr seg)) of
                            None \<Rightarrow> Some (Inl (), fs1)
                          | Some fs2 \<Rightarrow> Some (Inr True, fs2)))))"

definition write_wal ::
  "mem \<Rightarrow> Segment \<Rightarrow> addr \<Rightarrow> u32 \<Rightarrow> FileSystem \<Rightarrow> (unit + unit) \<times> FileSystem" where
  "write_wal m seg a sz fs =
     (case wal_file seg of
        None \<Rightarrow> (Inr (), fs)
      | Some f \<Rightarrow> (case fs_append fs f (load_bytes m a (unat sz)) of
                    None \<Rightarrow> (Inl (), fs)
                  | Some fs' \<Rightarrow> (Inr (), fs')))"

definition dispense :: "Segment \<Rightarrow> FileSystem \<Rightarrow> FileSystem" where
  "dispense seg fs =
     (case backup_file_name seg of
        None \<Rightarrow> fs
      | Some p \<Rightarrow> if files fs p \<noteq> None
                  then (case fs_remove fs p of None \<Rightarrow> fs | Some fs' \<Rightarrow> fs')
                  else fs)"

section \<open>The entry iterator\<close>

text \<open>\<^verbatim>\<open>SegmentEntryIter::next\<close>: the outer \<open>None\<close> is the decoder's
  panic, the inner one the end of the iteration.\<close>

definition SegmentEntryIter_next :: "mem \<Rightarrow> addr \<Rightarrow> addr \<Rightarrow> (EntryMeta \<times> addr) option option" where
  "SegmentEntryIter_next m bound cursor =
     (if cursor \<ge> bound then Some None
      else case decode_from m cursor
                  (\<lambda>bp header.
                     (let entry_header_size = bp - cursor
                      in \<lparr>body_pos = bp, entry_pos = cursor,
                          entry_size = entry_header_size + unat (content_length header),
                          entry_header = header\<rparr>)) of
             None \<Rightarrow> None
           | Some (_, meta) \<Rightarrow> Some (Some (meta, cursor + entry_size meta)))"

lemma SegmentEntryIter_next_advances:
  "SegmentEntryIter_next m b c = Some (Some (e, c')) \<Longrightarrow> c < c' \<and> c < b"
  using header_at_bounds
  by (fastforce simp: SegmentEntryIter_next_def decode_from_header_at Let_def
      split: if_splits option.splits)

text \<open>Driving the iterator to its end, as every \<^verbatim>\<open>for\<close> loop over
  \<^verbatim>\<open>Segment::entry_iter\<close> does.\<close>

function entries_from :: "mem \<Rightarrow> addr \<Rightarrow> addr \<Rightarrow> EntryMeta list option" where
  "entries_from m bound cursor =
     (case SegmentEntryIter_next m bound cursor of
        None \<Rightarrow> None
      | Some None \<Rightarrow> Some []
      | Some (Some (e, cursor')) \<Rightarrow> map_option ((#) e) (entries_from m bound cursor'))"
  by pat_completeness auto
termination
  by (relation "measure (\<lambda>(m, b, c). b - c)")
     (auto dest!: SegmentEntryIter_next_advances)

declare entries_from.simps [simp del]

definition entry_iter :: "mem \<Rightarrow> Segment \<Rightarrow> EntryMeta list option" where
  "entry_iter m seg = entries_from m (append_header seg) (seg_addr seg)"

section \<open>The allocator\<close>

record SegmentAllocator =
  base :: addr
  offset :: addr
  limit :: addr
  gc_threshold :: addr
  free_list :: "addr list"

text \<open>\<^verbatim>\<open>SegmentAllocator::new\<close> on the address \<^verbatim>\<open>mmap\<close> returned.
  The product with the \<^verbatim>\<open>f64\<close> constant 0.9 truncates to \<open>9 c div 10\<close> for
  every chunk sz below \<open>2 ^ 49\<close>.\<close>

definition SegmentAllocator_new :: "addr \<Rightarrow> nat \<Rightarrow> SegmentAllocator" where
  "SegmentAllocator_new mmap_addr chunk_size =
     (let overflow = SEGMENT_SIZE - PAGE_SIZE;
          start = mmap_addr + overflow;
          aligned_addr = segment_mask start
      in \<lparr>base = aligned_addr, offset = aligned_addr, limit = aligned_addr + chunk_size,
          gc_threshold = aligned_addr + chunk_size * 9 div 10 - SEGMENT_SIZE, free_list = []\<rparr>)"

definition meet_gc_threshold :: "SegmentAllocator \<Rightarrow> bool" where
  "meet_gc_threshold al = (offset al > gc_threshold al)"

definition id_by_addr :: "SegmentAllocator \<Rightarrow> addr \<Rightarrow> nat" where
  "id_by_addr al a = drop_bit SEGMENT_BITS_SHIFT (a - base al)"

type_synonym word_pop = "addr list \<Rightarrow> (addr \<times> addr list) option"

text \<open>The address part of \<^verbatim>\<open>alloc_seg\<close>: a freed segment first, the bump pointer
  otherwise.\<close>

definition alloc_addr :: "word_pop \<Rightarrow> SegmentAllocator \<Rightarrow> (addr \<times> SegmentAllocator) option" where
  "alloc_addr pop al =
     (case pop (free_list al) of
        Some (a, fl) \<Rightarrow> Some (a, al\<lparr>free_list := fl\<rparr>)
      | None \<Rightarrow>
          (let a = offset al; new_addr = a + SEGMENT_SIZE
           in if new_addr > limit al then None else Some (a, al\<lparr>offset := new_addr\<rparr>)))"

text \<open>\<^verbatim>\<open>SegmentAllocator::alloc_seg\<close>; the outer \<open>None\<close> is the panic of
  \<^verbatim>\<open>Segment::new\<close>.\<close>

definition alloc_seg ::
  "word_pop \<Rightarrow> FileSystem \<Rightarrow> SegmentAllocator \<Rightarrow> string option \<Rightarrow> string option
     \<Rightarrow> (Segment option \<times> SegmentAllocator \<times> FileSystem) option" where
  "alloc_seg pop fs al backup_storage wal_storage =
     (case alloc_addr pop al of
        None \<Rightarrow> Some (None, al, fs)
      | Some (a, al') \<Rightarrow>
          (case Segment_new fs (of_nat (id_by_addr al a)) a backup_storage wal_storage of
             None \<Rightarrow> None
           | Some (seg, fs') \<Rightarrow> Some (Some seg, al', fs')))"

definition free :: "SegmentAllocator \<Rightarrow> addr \<Rightarrow> SegmentAllocator" where
  "free al a = al\<lparr>free_list := a # free_list al\<rparr>"

definition mem_drop :: "Segment \<Rightarrow> SegmentAllocator \<Rightarrow> Segment \<times> SegmentAllocator" where
  "mem_drop seg al =
     (if dropped seg then (seg, al)
      else (seg\<lparr>dropped := True\<rparr>, free al (seg_addr seg)))"

section \<open>Lemmas: the log of a segment\<close>

lemma unat_Entry_size:
  assumes "unat len + 5 < 2 ^ 32" and "unat n \<le> 4"
  shows "unat (Entry_size n len) = 1 + unat n + unat len"
proof -
  have "unat (ucast n :: u32) = unat n" 
    using assms(2) by (simp add: unsigned_ucast_eq take_bit_eq_mod)
  then show ?thesis using assms by (simp add: Entry_size_def unat_word_ariths)
qed

text \<open>The entry that starts at an address, and the entries that exactly fill a range.\<close>

definition entry_at :: "mem \<Rightarrow> addr \<Rightarrow> EntryMeta option" where
  "entry_at m c = map_option (\<lambda>(h, b). \<lparr>body_pos = b, entry_pos = c,
     entry_size = b - c + unat (content_length h), entry_header = h\<rparr>) (header_at m c)"

primrec log_range :: "mem \<Rightarrow> addr \<Rightarrow> addr \<Rightarrow> EntryMeta list \<Rightarrow> bool" where
  "log_range m c b [] = (c = b)"
| "log_range m c b (e # es) = (entry_at m c = Some e \<and> log_range m (c + entry_size e) b es)"

lemma entry_at_simps:
  assumes "entry_at m c = Some e"
  shows "entry_pos e = c" "c < body_pos e" "body_pos e \<le> c + entry_size e" "0 < entry_size e"
    "header_at m c = Some (entry_header e, body_pos e)"
    "entry_size e = body_pos e - c + unat (content_length (entry_header e))"
  using assms header_at_bounds by (fastforce simp: entry_at_def)+

lemma SegmentEntryIter_next_entry_at:
  "SegmentEntryIter_next m b c =
     (if c \<ge> b then Some None
      else map_option (\<lambda>e. Some (e, c + entry_size e)) (entry_at m c))"
  by (auto simp: SegmentEntryIter_next_def entry_at_def decode_from_header_at Let_def
      split: option.splits)

lemma log_range_le: "log_range m c b es \<Longrightarrow> c \<le> b"
  by (induction es arbitrary: c) (auto dest: add_leD1)

lemma entries_from_log: "log_range m c b es \<Longrightarrow> entries_from m b c = Some es"
proof (induction es arbitrary: c)
  case Nil
  then show ?case by (simp add: entries_from.simps SegmentEntryIter_next_entry_at)
next
  case (Cons e es)
  then have e: "entry_at m c = Some e" and l: "log_range m (c + entry_size e) b es" by auto
  have "c < b" using log_range_le [OF l] entry_at_simps(4) [OF e] by simp
  then show ?case
    using e Cons.IH [OF l] by (simp add: entries_from.simps [of m b c] SegmentEntryIter_next_entry_at)
qed

lemma log_range_append:
  "log_range m a b es \<Longrightarrow> log_range m b c fs \<Longrightarrow> log_range m a c (es @ fs)"
  by (induction es arbitrary: a) auto

lemma log_range_append_iff:
  "log_range m a c (es @ fs) \<longleftrightarrow> (\<exists>b. log_range m a b es \<and> log_range m b c fs)"
  by (induction es arbitrary: a) auto

lemma entry_at_move:
  assumes e: "entry_at m c = Some e"
    and eq: "load_bytes m' c' (entry_size e) = load_bytes m c (entry_size e)"
  shows "entry_at m' c' = Some (e\<lparr>body_pos := c' + (body_pos e - c), entry_pos := c'\<rparr>)"
proof -
  note E = entry_at_simps [OF e]
  have "load_bytes m' c' (body_pos e - c) = load_bytes m c (body_pos e - c)"
    using load_bytes_eq_sub [OF eq, of 0 "body_pos e - c"] E by simp
  then have "header_at m' c' = Some (entry_header e, c' + (body_pos e - c))"
    by (rule header_at_move [OF E(5)])
  then show ?thesis using E(6) by (cases e) (simp add: entry_at_def)
qed

lemma entry_at_frame:
  assumes "entry_at m c = Some e" and "\<And>x. c \<le> x \<Longrightarrow> x < c + entry_size e \<Longrightarrow> m' x = m x"
  shows "entry_at m' c = Some e"
proof -
  have "load_bytes m' c (entry_size e) = load_bytes m c (entry_size e)"
    using assms(2) by (rule load_bytes_eqI)
  from entry_at_move [OF assms(1) this] show ?thesis
    using entry_at_simps(1,2) [OF assms(1)] by simp
qed

lemma log_range_frame:
  assumes "log_range m a b es" and "\<And>x. a \<le> x \<Longrightarrow> x < b \<Longrightarrow> m' x = m x"
  shows "log_range m' a b es"
  using assms
proof (induction es arbitrary: a)
  case (Cons e es)
  then have e: "entry_at m a = Some e" and l: "log_range m (a + entry_size e) b es" by auto
  have le: "a + entry_size e \<le> b" by (rule log_range_le [OF l])
  have "entry_at m' a = Some e"
    by (rule entry_at_frame [OF e]) (use Cons.prems(2) le in simp)
  moreover have "log_range m' (a + entry_size e) b es"
    by (rule Cons.IH [OF l]) (use Cons.prems(2) in simp)
  ultimately show ?case by simp
qed simp

lemma log_range_entry:
  assumes "log_range m a b es" and "e \<in> set es"
  shows "entry_at m (entry_pos e) = Some e" "a \<le> entry_pos e" "entry_pos e + entry_size e \<le> b"
  using assms
proof (induction es arbitrary: a)
  case (Cons f es)
  {
    case 1
    then show ?case using Cons.IH(1) entry_at_simps(1) by fastforce
  next
    case 2
    then show ?case using Cons.IH(2) entry_at_simps(1) by fastforce
  next
    case 3
    then show ?case using Cons.IH(3) entry_at_simps(1) log_range_le by fastforce
  }
qed auto

text \<open>Entries of one log do not overlap.\<close>

definition entries_apart :: "EntryMeta \<Rightarrow> EntryMeta \<Rightarrow> bool" where
  "entries_apart e f = (entry_pos e + entry_size e \<le> entry_pos f \<or>
                        entry_pos f + entry_size f \<le> entry_pos e)"

lemma log_range_sorted:
  "log_range m a b es \<Longrightarrow> sorted_wrt (\<lambda>e f. entry_pos e + entry_size e \<le> entry_pos f) es"
proof (induction es arbitrary: a)
  case (Cons e es)
  then have e: "entry_at m a = Some e" and l: "log_range m (a + entry_size e) b es" by auto
  then show ?case
    using Cons.IH [OF l] log_range_entry(2) [OF l] entry_at_simps(1) [OF e] by auto
qed simp

lemma log_range_distinct:
  assumes "log_range m a b es" shows "distinct (map entry_pos es)"
proof -
  have "sorted_wrt (\<lambda>e f. entry_pos e < entry_pos f) es"
    using assms
  proof (induction es arbitrary: a)
    case (Cons e es)
    then have e: "entry_at m a = Some e" and l: "log_range m (a + entry_size e) b es" by auto
    have "entry_pos e < entry_pos f" if "f \<in> set es" for f
      using log_range_entry(2) [OF l that] entry_at_simps(1,4) [OF e] by simp
    then show ?case using Cons.IH [OF l] by simp
  qed simp
  then show ?thesis by (induction es) auto
qed

lemma log_range_single:
  "entry_at m a = Some e \<Longrightarrow> b = a + entry_size e \<Longrightarrow> log_range m a b [e]"
  by simp

text \<open>A segment whose used part is a sequence of whole entries.\<close>

definition seg_log :: "mem \<Rightarrow> Segment \<Rightarrow> EntryMeta list \<Rightarrow> bool" where
  "seg_log m seg es = (log_range m (seg_addr seg) (append_header seg) es \<and>
     append_header seg \<le> seg_bound seg)"

lemma seg_log_iter: "seg_log m seg es \<Longrightarrow> entry_iter m seg = Some es"
  by (simp add: seg_log_def entry_iter_def entries_from_log)

lemma try_acquire_cases:
  obtains (full) "append_header seg + unat sz > seg_bound seg"
      "Segment_try_acquire seg sz = (None, seg)"
  | (got) "append_header seg + unat sz \<le> seg_bound seg"
      "Segment_try_acquire seg sz =
         (Some (append_header seg), seg\<lparr>append_header := append_header seg + unat sz\<rparr>)"
  by (cases "append_header seg + unat sz \<le> seg_bound seg")
     (auto simp: Segment_try_acquire_def Let_def)

lemma try_acquire_Some:
  assumes "Segment_try_acquire seg sz = (Some a, seg')"
  shows "a = append_header seg" "append_header seg + unat sz \<le> seg_bound seg"
    "seg' = seg\<lparr>append_header := append_header seg + unat sz\<rparr>"
  using assms by (auto simp: Segment_try_acquire_def Let_def split: if_splits)

lemma seg_log_append:
  assumes log: "seg_log m seg es" and acq: "Segment_try_acquire seg sz = (Some a, seg')"
    and same: "\<And>x. x < a \<Longrightarrow> m' x = m x"
    and e: "entry_at m' a = Some e" "entry_size e = unat sz"
  shows "seg_log m' seg' (es @ [e])"
proof -
  note A = try_acquire_Some [OF acq]
  have "log_range m' (seg_addr seg) a es"
    using log same by (auto simp: seg_log_def A intro: log_range_frame)
  moreover have "log_range m' a (a + unat sz) [e]" using e by simp
  ultimately show ?thesis using A by (simp add: seg_log_def log_range_append)
qed

section \<open>Concurrent acquisition\<close>

text \<open>Any number of threads inside \<^verbatim>\<open>Segment::try_acquire\<close>, one atomic access of
  \<^verbatim>\<open>append_header\<close> per step. A thread is outside the function, at the head of the loop,
  or between the load and the compare-and-swap with the value it loaded. The history records
  every call that took effect with its size and result, in the order of their effects: a
  successful call at its compare-and-swap, a refused one at its load.\<close>

datatype acquire_pc = Outside | LoopHead u32 | Loaded u32 addr

record acquire_state =
  acq_seg :: Segment
  acq_pc :: "nat \<Rightarrow> acquire_pc"
  acq_history :: "(nat \<times> u32 \<times> addr option) list"

inductive acquire_step :: "acquire_state \<Rightarrow> acquire_state \<Rightarrow> bool" where
  enter: "acq_pc s t = Outside \<Longrightarrow>
    acquire_step s (s\<lparr>acq_pc := (acq_pc s)(t := LoopHead sz)\<rparr>)"
| load_full: "acq_pc s t = LoopHead sz \<Longrightarrow>
    append_header (acq_seg s) + unat sz > seg_bound (acq_seg s) \<Longrightarrow>
    acquire_step s (s\<lparr>acq_pc := (acq_pc s)(t := Outside),
                      acq_history := acq_history s @ [(t, sz, None)]\<rparr>)"
| load_fits: "acq_pc s t = LoopHead sz \<Longrightarrow>
    append_header (acq_seg s) + unat sz \<le> seg_bound (acq_seg s) \<Longrightarrow>
    acquire_step s (s\<lparr>acq_pc := (acq_pc s)(t := Loaded sz (append_header (acq_seg s)))\<rparr>)"
| cas_ok: "acq_pc s t = Loaded sz curr_last \<Longrightarrow> append_header (acq_seg s) = curr_last \<Longrightarrow>
    acquire_step s (s\<lparr>acq_pc := (acq_pc s)(t := Outside),
                      acq_seg := (acq_seg s)\<lparr>append_header := curr_last + unat sz\<rparr>,
                      acq_history := acq_history s @ [(t, sz, Some curr_last)]\<rparr>)"
| cas_fail: "acq_pc s t = Loaded sz curr_last \<Longrightarrow> append_header (acq_seg s) \<noteq> curr_last \<Longrightarrow>
    acquire_step s (s\<lparr>acq_pc := (acq_pc s)(t := LoopHead sz)\<rparr>)"

inductive acquire_reachable :: "Segment \<Rightarrow> acquire_state \<Rightarrow> bool" for seg where
  start: "acquire_reachable seg \<lparr>acq_seg = seg, acq_pc = (\<lambda>_. Outside), acq_history = []\<rparr>"
| step: "acquire_reachable seg s \<Longrightarrow> acquire_step s s' \<Longrightarrow> acquire_reachable seg s'"

text \<open>The specification: the calls of a history performed one after the other.\<close>

primrec acquire_seq :: "Segment \<Rightarrow> u32 list \<Rightarrow> addr option list \<times> Segment" where
  "acquire_seq seg [] = ([], seg)"
| "acquire_seq seg (sz # szs) =
     (let (r, seg') = Segment_try_acquire seg sz; (rs, seg'') = acquire_seq seg' szs
      in (r # rs, seg''))"

lemma acquire_seq_snoc:
  "acquire_seq seg (szs @ [sz]) =
     (let (rs, seg') = acquire_seq seg szs; (r, seg'') = Segment_try_acquire seg' sz
      in (rs @ [r], seg''))"
  by (induction szs arbitrary: seg) (auto simp: Let_def split: prod.splits)

definition acquire_inv :: "Segment \<Rightarrow> acquire_state \<Rightarrow> bool" where
  "acquire_inv seg s =
     (acquire_seq seg (map (fst \<circ> snd) (acq_history s)) =
        (map (snd \<circ> snd) (acq_history s), acq_seg s) \<and>
      seg_bound (acq_seg s) = seg_bound seg \<and>
      (\<forall>t sz c. acq_pc s t = Loaded sz c \<longrightarrow> c + unat sz \<le> seg_bound seg))"

lemma acquire_inv_step: "acquire_step s s' \<Longrightarrow> acquire_inv seg s \<Longrightarrow> acquire_inv seg s'"
proof (induction rule: acquire_step.induct)
  case (cas_ok s t sz c)
  then have "c + unat sz \<le> seg_bound (acq_seg s)" by (auto simp: acquire_inv_def)
  then have "Segment_try_acquire (acq_seg s) sz =
      (Some c, (acq_seg s)\<lparr>append_header := c + unat sz\<rparr>)"
    using cas_ok by (simp add: Segment_try_acquire_def)
  then show ?case using cas_ok by (auto simp: acquire_inv_def acquire_seq_snoc)
next
  case (load_full s t sz)
  then show ?case
    by (auto simp: acquire_inv_def acquire_seq_snoc Segment_try_acquire_def)
qed (auto simp: acquire_inv_def split: if_splits)

lemma acquire_reachable_inv: "acquire_reachable seg s \<Longrightarrow> acquire_inv seg s"
proof (induction rule: acquire_reachable.induct)
  case start
  show ?case by (simp add: acquire_inv_def)
next
  case (step s s')
  then show ?case by (blast intro: acquire_inv_step)
qed

text \<open>What sequences of undisturbed calls hand out: consecutive ranges.\<close>

definition acquired :: "u32 list \<Rightarrow> addr option list \<Rightarrow> (addr \<times> nat) list" where
  "acquired szs rs = List.map_filter (\<lambda>(sz, r). map_option (\<lambda>a. (a, unat sz)) r) (zip szs rs)"

definition ranges_apart :: "addr \<times> nat \<Rightarrow> addr \<times> nat \<Rightarrow> bool" where
  "ranges_apart p q = (fst p + snd p \<le> fst q \<or> fst q + snd q \<le> fst p)"

lemma acquire_seq_ranges:
  assumes "acquire_seq seg szs = (rs, seg')" and "append_header seg \<le> seg_bound seg"
  shows "sorted_wrt ranges_apart (acquired szs rs) \<and>
    append_header seg \<le> append_header seg' \<and> append_header seg' \<le> seg_bound seg \<and>
    (\<forall>(a, n) \<in> set (acquired szs rs). append_header seg \<le> a \<and> a + n \<le> append_header seg')"
  using assms
proof (induction szs arbitrary: seg rs)
  case Nil
  then show ?case by (simp add: acquired_def map_filter_def)
next
  case (Cons sz szs)
  obtain rs' where rest: "acquire_seq (snd (Segment_try_acquire seg sz)) szs = (rs', seg')"
      and rs: "rs = fst (Segment_try_acquire seg sz) # rs'"
    using Cons.prems(1) by (auto simp: Let_def split: prod.splits)
  show ?case
  proof (cases rule: try_acquire_cases [of seg sz])
    case full
    then show ?thesis using Cons.IH [of seg rs'] rest rs Cons.prems(2)
      by (simp add: acquired_def map_filter_simps)
  next
    case got
    let ?seg1 = "seg\<lparr>append_header := append_header seg + unat sz\<rparr>"
    have IH: "sorted_wrt ranges_apart (acquired szs rs') \<and>
      append_header ?seg1 \<le> append_header seg' \<and> append_header seg' \<le> seg_bound seg \<and>
      (\<forall>(a, n) \<in> set (acquired szs rs'). append_header ?seg1 \<le> a \<and> a + n \<le> append_header seg')"
      using Cons.IH [of ?seg1 rs'] rest got by simp
    have "acquired (sz # szs) rs = (append_header seg, unat sz) # acquired szs rs'"
      using got rs by (simp add: acquired_def map_filter_simps)
    moreover have "ranges_apart (append_header seg, unat sz) q" if "q \<in> set (acquired szs rs')" for q
      using IH that by (auto simp: ranges_apart_def)
    ultimately show ?thesis using IH by auto
  qed
qed

section \<open>Lemmas: the allocator\<close>

text \<open>What the allocator relies on of \<^verbatim>\<open>WordList::pop\<close>: it removes one word
  of the bag, and fails on the empty bag only.\<close>

definition pops_bag :: "word_pop \<Rightarrow> bool" where
  "pops_bag pop = (\<forall>fl. case pop fl of
      None \<Rightarrow> fl = []
    | Some (a, fl') \<Rightarrow> mset fl = add_mset a (mset fl'))"

definition pop_head :: word_pop where
  "pop_head fl = (case fl of [] \<Rightarrow> None | a # fl' \<Rightarrow> Some (a, fl'))"

lemma pops_bagD:
  assumes "pops_bag pop"
  shows "pop fl = None \<Longrightarrow> fl = []"
    and "pop fl = Some (a, fl') \<Longrightarrow> mset fl = add_mset a (mset fl')"
  using spec [OF assms [unfolded pops_bag_def], of fl] by auto

lemma pop_head_bag [simp]: "pops_bag pop_head"
  by (auto simp: pops_bag_def pop_head_def split: list.splits)

lemma SEGMENT_SIZE_pow: "SEGMENT_SIZE = 2 ^ SEGMENT_BITS_SHIFT"
  by (simp add: SEGMENT_SIZE_def SEGMENT_BITS_SHIFT_def)

lemma SEGMENT_SIZE_pos [simp]: "0 < SEGMENT_SIZE" "SEGMENT_SIZE \<noteq> 0"
  by (simp_all add: SEGMENT_SIZE_def)

lemma segment_mask_eq: "segment_mask x = x div SEGMENT_SIZE * SEGMENT_SIZE"
  by (simp add: segment_mask_def push_bit_eq_mult drop_bit_nat_div SEGMENT_SIZE_pow)

lemma id_by_addr_div: "id_by_addr al a = (a - base al) div SEGMENT_SIZE"
  by (simp add: id_by_addr_def drop_bit_nat_div SEGMENT_SIZE_pow)

text \<open>The segments handed out and not yet freed, \<open>live\<close>, and the freed ones are together the
  blocks below the bump pointer, each once.\<close>

definition bumped :: "SegmentAllocator \<Rightarrow> nat \<Rightarrow> addr list" where
  "bumped al n = map (\<lambda>i. base al + i * SEGMENT_SIZE) [0 ..< n]"

definition alloc_inv :: "SegmentAllocator \<Rightarrow> addr list \<Rightarrow> bool" where
  "alloc_inv al live = (\<exists>n. offset al = base al + n * SEGMENT_SIZE \<and> offset al \<le> limit al \<and>
     base al mod SEGMENT_SIZE = 0 \<and> mset (live @ free_list al) = mset (bumped al n))"

lemma distinct_bumped: "distinct (bumped al n)"
  by (auto simp: bumped_def distinct_map inj_on_def)

lemma alloc_inv_distinct: "alloc_inv al live \<Longrightarrow> distinct (live @ free_list al)"
  unfolding alloc_inv_def by (metis distinct_bumped mset_eq_imp_distinct_iff)

lemma alloc_inv_member:
  assumes "alloc_inv al live" and "a \<in> set live \<union> set (free_list al)"
  obtains i where "a = base al + i * SEGMENT_SIZE" "a + SEGMENT_SIZE \<le> limit al"
proof -
  obtain n where n: "offset al = base al + n * SEGMENT_SIZE" "offset al \<le> limit al"
      "mset (live @ free_list al) = mset (bumped al n)"
    using assms(1) unfolding alloc_inv_def by blast
  have "set (live @ free_list al) = set (bumped al n)" using n(3) by (rule mset_eq_setD)
  then obtain i where i: "i < n" "a = base al + i * SEGMENT_SIZE"
    using assms(2) by (auto simp: bumped_def)
  have "Suc i * SEGMENT_SIZE \<le> n * SEGMENT_SIZE" using i(1) by (intro mult_le_mono) simp_all
  then have "a + SEGMENT_SIZE \<le> limit al" using i(2) n(1,2) by simp
  with i(2) show ?thesis by (rule that)
qed

lemma alloc_inv_cong:
  "alloc_inv al live \<Longrightarrow> mset live' = mset live \<Longrightarrow> alloc_inv al live'"
  by (simp add: alloc_inv_def)

lemma alloc_addr_inv:
  assumes inv: "alloc_inv al live" and pop: "pops_bag pop"
    and got: "alloc_addr pop al = Some (a, al')"
  shows "alloc_inv al' (a # live)"
proof (cases "pop (free_list al)")
  case None
  with pop have fl: "free_list al = []" by (rule pops_bagD)
  obtain n where n: "offset al = base al + n * SEGMENT_SIZE" "base al mod SEGMENT_SIZE = 0"
      "mset (live @ free_list al) = mset (bumped al n)"
    using inv by (auto simp: alloc_inv_def)
  have a: "a = offset al" "al' = al\<lparr>offset := offset al + SEGMENT_SIZE\<rparr>"
      "offset al + SEGMENT_SIZE \<le> limit al"
    using got None by (auto simp: alloc_addr_def Let_def split: if_splits)
  have "mset ((a # live) @ free_list al') = mset (bumped al' (Suc n))"
    using n fl by (simp add: a bumped_def)
  then show ?thesis
    unfolding alloc_inv_def using n a by (intro exI [of _ "Suc n"]) simp
next
  case (Some p)
  obtain b fl where p: "p = (b, fl)" by (cases p)
  have "mset (free_list al) = add_mset b (mset fl)"
    using pop Some unfolding p by (rule pops_bagD)
  moreover have "a = b" "al' = al\<lparr>free_list := fl\<rparr>"
    using got Some p by (auto simp: alloc_addr_def)
  ultimately show ?thesis using inv by (auto simp: alloc_inv_def bumped_def)
qed

lemma free_inv:
  "alloc_inv al live \<Longrightarrow> a \<in> set live \<Longrightarrow> alloc_inv (free al a) (remove1 a live)"
  by (auto simp: alloc_inv_def free_def bumped_def)

lemma alloc_inv_live_apart:
  assumes inv: "alloc_inv al live" and "a \<in> set live" "b \<in> set live" "a \<noteq> b"
  shows "ranges_apart (a, SEGMENT_SIZE) (b, SEGMENT_SIZE)"
proof -
  obtain i j where ij: "a = base al + i * SEGMENT_SIZE" "b = base al + j * SEGMENT_SIZE"
    using alloc_inv_member [OF inv] assms(2,3) by (metis UnCI)
  then consider "Suc i \<le> j" | "Suc j \<le> i" using assms(4) by (cases i j rule: linorder_cases) auto
  then show ?thesis
  proof cases
    case 1
    then have "Suc i * SEGMENT_SIZE \<le> j * SEGMENT_SIZE" by (rule mult_le_mono1)
    then show ?thesis by (simp add: ranges_apart_def ij)
  next
    case 2
    then have "Suc j * SEGMENT_SIZE \<le> i * SEGMENT_SIZE" by (rule mult_le_mono1)
    then show ?thesis by (simp add: ranges_apart_def ij)
  qed
qed

lemma SegmentAllocator_new_inv: "alloc_inv (SegmentAllocator_new ptr n) []"
  by (auto simp: alloc_inv_def SegmentAllocator_new_def Let_def bumped_def segment_mask_eq
      intro!: exI [of _ 0])

text \<open>The aligned area lies inside the mapping: this needs the page alignment of the address
  \<^verbatim>\<open>mmap\<close> returns.\<close>

lemma SegmentAllocator_new_inside:
  assumes "ptr mod PAGE_SIZE = 0"
  shows "ptr \<le> base (SegmentAllocator_new ptr n)"
    "limit (SegmentAllocator_new ptr n) \<le> ptr + (n + (SEGMENT_SIZE - PAGE_SIZE))"
proof -
  obtain k where k: "ptr = k * 4096" using assms by (auto simp: PAGE_SIZE_def mod_eq_0_iff_dvd dvd_def)
  have "(k * 4096 + 8384512) div 8388608 = (k + 2047) div 2048"
    using div_mult2_eq [of "k * 4096 + 8384512" 4096 2048] by simp
  moreover have "k \<le> (k + 2047) div 2048 * 2048"
    using div_mult_mod_eq [of "k + 2047" 2048] mod_less_divisor [of 2048 "k + 2047"] by linarith
  ultimately have "k * 4096 \<le> (k * 4096 + 8384512) div 8388608 * 8388608" by simp
  then show "ptr \<le> base (SegmentAllocator_new ptr n)"
    by (simp add: SegmentAllocator_new_def Let_def segment_mask_eq SEGMENT_SIZE_def PAGE_SIZE_def k)
  have "(ptr + 8384512) div 8388608 * 8388608 \<le> ptr + 8384512" by (rule div_times_less_eq_dividend)
  then show "limit (SegmentAllocator_new ptr n) \<le> ptr + (n + (SEGMENT_SIZE - PAGE_SIZE))"
    by (simp add: SegmentAllocator_new_def Let_def segment_mask_eq SEGMENT_SIZE_def PAGE_SIZE_def)
qed

section \<open>The interface of a block allocator\<close>

text \<open>What the chunk relies on: the invariant relates the allocator to the blocks its client
  holds, allocation adds one, release takes one back, and held blocks never overlap.\<close>

locale block_allocator =
  fixes alloc :: "'s \<Rightarrow> (addr \<times> 's) option"
    and release :: "'s \<Rightarrow> addr \<Rightarrow> 's"
    and inv :: "'s \<Rightarrow> addr list \<Rightarrow> bool"
    and block :: nat
  assumes alloc_keeps: "inv s live \<Longrightarrow> alloc s = Some (a, s') \<Longrightarrow> inv s' (a # live)"
    and release_keeps: "inv s live \<Longrightarrow> a \<in> set live \<Longrightarrow> inv (release s a) (remove1 a live)"
    and inv_distinct: "inv s live \<Longrightarrow> distinct live"
    and inv_apart: "inv s live \<Longrightarrow> a \<in> set live \<Longrightarrow> b \<in> set live \<Longrightarrow> a \<noteq> b \<Longrightarrow>
      ranges_apart (a, block) (b, block)"

text \<open>A client's trace: allocations, and releases of the \<open>i\<close>-th block it holds.\<close>

datatype block_op = Alloc | Release nat

primrec run_blocks ::
  "('s \<Rightarrow> (addr \<times> 's) option) \<Rightarrow> ('s \<Rightarrow> addr \<Rightarrow> 's) \<Rightarrow> block_op list \<Rightarrow> 's \<times> addr list
     \<Rightarrow> 's \<times> addr list" where
  "run_blocks alloc release [] st = st"
| "run_blocks alloc release (oper # ops) st = run_blocks alloc release ops
     (case oper of
        Alloc \<Rightarrow> (case alloc (fst st) of None \<Rightarrow> st | Some (a, s') \<Rightarrow> (s', a # snd st))
      | Release i \<Rightarrow> (if i < length (snd st)
                     then (release (fst st) (snd st ! i), remove1 (snd st ! i) (snd st))
                     else st))"

context block_allocator
begin

lemma run_inv:
  "inv (fst st) (snd st) \<Longrightarrow>
     inv (fst (run_blocks alloc release ops st)) (snd (run_blocks alloc release ops st))"
proof (induction ops arbitrary: st)
  case (Cons oper ops)
  have "inv (fst st') (snd st')" if "st' =
     (case oper of
        Alloc \<Rightarrow> (case alloc (fst st) of None \<Rightarrow> st | Some (a, s') \<Rightarrow> (s', a # snd st))
      | Release i \<Rightarrow> (if i < length (snd st)
                     then (release (fst st) (snd st ! i), remove1 (snd st ! i) (snd st))
                     else st))" for st'
    using that Cons.prems
    by (auto split: block_op.splits option.splits intro: alloc_keeps release_keeps)
  then show ?case using Cons.IH by simp
qed simp

lemma held_apart:
  assumes "inv s live" shows "sorted_wrt ranges_apart (map (\<lambda>a. (a, block)) live)"
proof -
  have "sorted_wrt (\<lambda>a b. ranges_apart (a, block) (b, block)) live"
    using inv_distinct [OF assms] inv_apart [OF assms] by (induction live) auto
  then show ?thesis by (simp add: sorted_wrt_map)
qed

end

lemma segment_block_allocator:
  "pops_bag pop \<Longrightarrow> block_allocator (alloc_addr pop) free alloc_inv SEGMENT_SIZE"
  by unfold_locales
     (use alloc_inv_distinct in \<open>auto intro: alloc_addr_inv free_inv alloc_inv_live_apart\<close>)

interpretation stack_blocks: block_allocator "alloc_addr pop_head" free alloc_inv SEGMENT_SIZE
  by (rule segment_block_allocator) simp

lemma alloc_seg_Some:
  assumes "alloc_seg pop fs al bs ws = Some (Some seg, al', fs')"
  shows "alloc_addr pop al = Some (seg_addr seg, al')"
    "seg_bound seg = seg_addr seg + SEGMENT_SIZE" "append_header seg = seg_addr seg"
    "seg_id seg = of_nat (id_by_addr al (seg_addr seg))" "dead_space seg = 0" "tombstones seg = 0"
    "dead_tombstones seg = 0" "dropped seg = False" "references seg = 0"
  using assms
  by (auto simp: alloc_seg_def Segment_new_def Let_def split: option.splits)

lemma alloc_addr_bounds:
  "alloc_addr pop al = Some (a, al') \<Longrightarrow> base al' = base al \<and> limit al' = limit al"
  by (auto simp: alloc_addr_def Let_def split: option.splits if_splits)

lemma free_bounds [simp]: "base (free al a) = base al" "limit (free al a) = limit al"
  by (simp_all add: free_def)

lemma run_blocks_bounds:
  "base (fst (run_blocks (alloc_addr pop) free ops st)) = base (fst st) \<and>
   limit (fst (run_blocks (alloc_addr pop) free ops st)) = limit (fst st)"
  by (induction ops arbitrary: st)
     (auto dest: alloc_addr_bounds split: block_op.splits option.splits)

lemma shrink_frame:
  assumes "\<And>m a n x. x < a \<or> a + n \<le> x \<Longrightarrow> advise m a n x = m x"
    and "x < seg_addr seg + sz \<or> seg_addr seg + SEGMENT_SIZE \<le> x"
  shows "shrink advise seg sz m x = m x"
proof -
  let ?r = "seg_addr seg + sz"
  let ?al = "push_bit PAGE_SHIFT (drop_bit PAGE_SHIFT (?r - 1) + 1)"
  have al: "?al = ((?r - 1) div 4096 + 1) * 4096"
    by (simp add: push_bit_eq_mult drop_bit_nat_div PAGE_SHIFT_def)
  have "?r - 1 < ((?r - 1) div 4096 + 1) * 4096"
    using div_mult_mod_eq [of "?r - 1" 4096] mod_less_divisor [of 4096 "?r - 1"]
    by (simp only: add_mult_distrib)
  then have le: "?r \<le> ?al" unfolding al by linarith
  show ?thesis
  proof (cases "(seg_addr seg + SEGMENT_SIZE) - ?al > PAGE_SIZE")
    case True
    have "x < ?al \<or> ?al + ((seg_addr seg + SEGMENT_SIZE) - ?al) \<le> x"
      using assms(2) le True by linarith
    then show ?thesis using True assms(1) by (simp add: shrink_def punch_hole_def Let_def)
  qed (simp add: shrink_def punch_hole_def Let_def)
qed

section \<open>Properties\<close>

text \<open>C18: every interleaving of threads in \<^verbatim>\<open>Segment::try_acquire\<close> is equivalent to
  performing the calls that took effect one after the other, and the ranges handed out are
  pairwise disjoint and inside the segment.\<close>

theorem concurrent_acquire_linearizable:
  assumes "acquire_reachable seg s" and "append_header seg \<le> seg_bound seg"
    and "szs = map (fst \<circ> snd) (acq_history s)" and "rs = map (snd \<circ> snd) (acq_history s)"
  shows "acquire_seq seg szs = (rs, acq_seg s) \<and> sorted_wrt ranges_apart (acquired szs rs) \<and>
    (\<forall>(a, n) \<in> set (acquired szs rs). append_header seg \<le> a \<and> a + n \<le> seg_bound seg)"
proof -
  have lin: "acquire_seq seg szs = (rs, acq_seg s)"
    using acquire_reachable_inv [OF assms(1)] assms(3,4) by (simp add: acquire_inv_def)
  from acquire_seq_ranges [OF this assms(2)] show ?thesis using lin by fastforce
qed

text \<open>A segment of two threads that raced for its last bytes.\<close>

definition seg_example :: Segment where
  "seg_example = \<lparr>seg_id = 0, seg_addr = SEGMENT_SIZE, seg_bound = 2 * SEGMENT_SIZE,
     append_header = SEGMENT_SIZE, dead_space = 0, tombstones = 0, dead_tombstones = 0,
     last_tombstones_scanned = 0, references = 0, backup_file_name = None, wal_file = None,
     wal_file_name = None, archived = False, dropped = False\<rparr>"

lemma race_reachable:
  "acquire_reachable seg_example
     \<lparr>acq_seg = seg_example\<lparr>append_header := SEGMENT_SIZE + 34\<rparr>,
      acq_pc = (\<lambda>_. Outside)(0 := LoopHead 34, 1 := Outside), acq_history = [(1, 34, Some SEGMENT_SIZE)]\<rparr>"
proof -
  let ?s0 = "\<lparr>acq_seg = seg_example, acq_pc = (\<lambda>_. Outside), acq_history = []\<rparr>"
  let ?pc1 = "((\<lambda>_. Outside) :: nat \<Rightarrow> acquire_pc)(0 := LoopHead 34)"
  let ?pc2 = "?pc1(1 := LoopHead 34)"
  let ?pc3 = "?pc2(0 := Loaded 34 SEGMENT_SIZE)"
  let ?pc4 = "?pc3(1 := Loaded 34 SEGMENT_SIZE)"
  let ?pc5 = "?pc4(1 := Outside)"
  let ?pc6 = "?pc5(0 := LoopHead 34)"
  let ?seg = "seg_example\<lparr>append_header := SEGMENT_SIZE + 34\<rparr>"
  let ?h = "[(1, 34, Some SEGMENT_SIZE)]"
  have fits: "SEGMENT_SIZE + unat (34 :: u32) \<le> 2 * SEGMENT_SIZE" by (simp add: SEGMENT_SIZE_def)
  have 0: "acquire_reachable seg_example ?s0" by (rule acquire_reachable.start)
  have 1: "acquire_reachable seg_example (?s0\<lparr>acq_pc := ?pc1\<rparr>)"
    using acquire_reachable.step [OF 0 acquire_step.enter [of ?s0 0 34]] by simp
  have 2: "acquire_reachable seg_example (?s0\<lparr>acq_pc := ?pc2\<rparr>)"
    using acquire_reachable.step [OF 1 acquire_step.enter [of _ 1 34]] by simp
  have 3: "acquire_reachable seg_example (?s0\<lparr>acq_pc := ?pc3\<rparr>)"
    using acquire_reachable.step [OF 2 acquire_step.load_fits [of _ 0 34]] fits
    by (simp add: seg_example_def)
  have 4: "acquire_reachable seg_example (?s0\<lparr>acq_pc := ?pc4\<rparr>)"
    using acquire_reachable.step [OF 3 acquire_step.load_fits [of _ 1 34]] fits
    by (simp add: seg_example_def)
  have 5: "acquire_reachable seg_example \<lparr>acq_seg = ?seg, acq_pc = ?pc5, acq_history = ?h\<rparr>"
    using acquire_reachable.step [OF 4 acquire_step.cas_ok [of _ 1 34 SEGMENT_SIZE]]
    by (simp add: seg_example_def)
  have 6: "acquire_reachable seg_example \<lparr>acq_seg = ?seg, acq_pc = ?pc6, acq_history = ?h\<rparr>"
    using acquire_reachable.step [OF 5 acquire_step.cas_fail [of _ 0 34 SEGMENT_SIZE]]
    by (simp add: seg_example_def)
  have "?pc6 = (\<lambda>_. Outside)(0 := LoopHead 34, 1 := Outside)" by (auto simp: fun_eq_iff)
  with 6 show ?thesis by simp
qed

theorem concurrent_acquire_linearizable_witness:
  "acquire_seq seg_example [34] =
     ([Some SEGMENT_SIZE], seg_example\<lparr>append_header := SEGMENT_SIZE + 34\<rparr>) \<and>
   sorted_wrt ranges_apart (acquired [34] [Some SEGMENT_SIZE])"
  using concurrent_acquire_linearizable [OF race_reachable, of "[34]" "[Some SEGMENT_SIZE]"]
  by (simp add: seg_example_def)

text \<open>C19: for every sequence of segment allocations and frees on a fresh allocator, the
  segments held at the end are pairwise disjoint, aligned to the segment size, and inside the
  mapping \<^verbatim>\<open>mmap\<close> returned, whichever freed segment \<^verbatim>\<open>WordList::pop\<close>
  takes.\<close>

theorem allocator_blocks_disjoint:
  assumes "pops_bag pop" and "ptr mod PAGE_SIZE = 0"
    and "run_blocks (alloc_addr pop) free ops (SegmentAllocator_new ptr n, []) = (al, live)"
  shows "sorted_wrt ranges_apart (map (\<lambda>a. (a, SEGMENT_SIZE)) live) \<and>
    (\<forall>a \<in> set live. a mod SEGMENT_SIZE = 0 \<and> ptr \<le> a \<and>
       a + SEGMENT_SIZE \<le> ptr + (n + (SEGMENT_SIZE - PAGE_SIZE)))"
proof -
  note B = segment_block_allocator [OF assms(1)]
  let ?st = "(SegmentAllocator_new ptr n, [])"
  have inv: "alloc_inv al live"
    using block_allocator.run_inv [OF B, of ?st ops] assms(3) SegmentAllocator_new_inv by simp
  have bl: "base al = base (SegmentAllocator_new ptr n)" "limit al = limit (SegmentAllocator_new ptr n)"
    using run_blocks_bounds [of pop ops ?st] assms(3) by simp_all
  have "a mod SEGMENT_SIZE = 0 \<and> ptr \<le> a \<and>
      a + SEGMENT_SIZE \<le> ptr + (n + (SEGMENT_SIZE - PAGE_SIZE))" if held: "a \<in> set live" for a
  proof -
    obtain i where "a = base al + i * SEGMENT_SIZE" "a + SEGMENT_SIZE \<le> limit al"
      using held by (elim alloc_inv_member [OF inv UnI1])
    moreover have "base al mod SEGMENT_SIZE = 0" using inv by (auto simp: alloc_inv_def)
    ultimately show ?thesis using SegmentAllocator_new_inside [OF assms(2), of n] bl by simp
  qed
  then show ?thesis using block_allocator.held_apart [OF B inv] by blast
qed

lemma allocator_run_example:
  "run_blocks (alloc_addr pop_head) free [Alloc, Alloc, Release 1, Alloc]
     (SegmentAllocator_new (4096 * 4096) (3 * SEGMENT_SIZE), []) =
   ((SegmentAllocator_new (4096 * 4096) (3 * SEGMENT_SIZE))
      \<lparr>offset := 4 * SEGMENT_SIZE, free_list := []\<rparr>,
    [2 * SEGMENT_SIZE, 3 * SEGMENT_SIZE])"
  by (simp add: SegmentAllocator_new_def Let_def segment_mask_eq SEGMENT_SIZE_def PAGE_SIZE_def
      alloc_addr_def pop_head_def free_def)

theorem allocator_blocks_disjoint_witness:
  "sorted_wrt ranges_apart (map (\<lambda>a. (a, SEGMENT_SIZE)) [2 * SEGMENT_SIZE, 3 * SEGMENT_SIZE])"
  using allocator_blocks_disjoint [OF pop_head_bag _ allocator_run_example]
  by (simp add: PAGE_SIZE_def)

text \<open>C37: acquiring the space of an entry and encoding it there appends exactly that entry to
  the log: the iterator then yields the old entries followed by the new one.\<close>

theorem segment_append_entry:
  assumes "seg_log m seg es" and "ty \<in> {UNDECIDED, CELL, TOMBSTONE}" and "writes_from w"
    and "unat len + 5 < 2 ^ 32"
    and "Segment_try_acquire seg (Entry_size (count_len_bytes len) len) = (Some a, seg')"
    and "m' = encode_to m a ty len (count_len_bytes len) w"
  shows "entry_iter m' seg' = Some (es @ [\<lparr>body_pos = a + 1 + unat (count_len_bytes len),
      entry_pos = a, entry_size = 1 + unat (count_len_bytes len) + unat len,
      entry_header = \<lparr>entry_type = ty, content_length = len\<rparr>\<rparr>])"
proof -
  let ?n = "count_len_bytes len"
  let ?e = "\<lparr>body_pos = a + 1 + unat ?n, entry_pos = a, entry_size = 1 + unat ?n + unat len,
      entry_header = \<lparr>entry_type = ty, content_length = len\<rparr>\<rparr>"
  have sz: "unat (Entry_size ?n len) = 1 + unat ?n + unat len"
    using assms(4) count_len_bytes_le [of len] by (rule unat_Entry_size)
  have "header_at m' a = Some (\<lparr>entry_type = ty, content_length = len\<rparr>, a + 1 + unat ?n)"
    unfolding assms(6) by (rule header_at_encode_to [OF count_len_bytes_less count_len_bytes_le assms(2,3)])
  then have "entry_at m' a = Some ?e" by (simp add: entry_at_def)
  moreover have "m' x = m x" if "x < a" for x
    using that assms(3) by (simp add: assms(6) encode_to_eq writes_from_def store_bytes_other)
  ultimately have "seg_log m' seg' (es @ [?e])"
    using seg_log_append [OF assms(1,5)] sz by simp
  then show ?thesis by (rule seg_log_iter)
qed

theorem segment_append_entry_witness:
  "entry_iter (encode_to (\<lambda>_. 0) SEGMENT_SIZE CELL 300 (count_len_bytes 300) (\<lambda>b m. m))
     (seg_example\<lparr>append_header := SEGMENT_SIZE + unat (Entry_size (count_len_bytes 300) 300)\<rparr>) =
   Some [\<lparr>body_pos = SEGMENT_SIZE + 1 + unat (count_len_bytes 300), entry_pos = SEGMENT_SIZE,
      entry_size = 1 + unat (count_len_bytes 300) + 300,
      entry_header = \<lparr>entry_type = CELL, content_length = 300\<rparr>\<rparr>]"
proof -
  have "unat (Entry_size (count_len_bytes 300) 300) \<le> SEGMENT_SIZE"
    using unat_Entry_size [OF _ count_len_bytes_le [of 300]] count_len_bytes_le [of 300]
    by (simp add: SEGMENT_SIZE_def)
  then have "Segment_try_acquire seg_example (Entry_size (count_len_bytes 300) 300) =
    (Some SEGMENT_SIZE,
     seg_example\<lparr>append_header := SEGMENT_SIZE + unat (Entry_size (count_len_bytes 300) 300)\<rparr>)"
    by (simp add: Segment_try_acquire_def seg_example_def)
  from segment_append_entry [OF _ _ _ _ this refl, of "\<lambda>_. 0" "[]" CELL "\<lambda>b m. m"] show ?thesis
    by (simp add: seg_log_def seg_example_def writes_from_def)
qed

text \<open>C7: \<^verbatim>\<open>Segment::shrink\<close> releases no byte of the first \<open>sz\<close> bytes of the segment
  and no byte outside the segment, given that \<^verbatim>\<open>madvise\<close> changes only the range it is
  called on.\<close>

theorem shrink_keeps_used:
  assumes "\<And>m a n x. x < a \<or> a + n \<le> x \<Longrightarrow> advise m a n x = m x"
    and "x < seg_addr seg + sz \<or> seg_addr seg + SEGMENT_SIZE \<le> x"
  shows "shrink advise seg sz m x = m x"
  using assms by (rule shrink_frame)

theorem shrink_keeps_used_witness:
  "shrink (\<lambda>m a n x. if x < a \<or> a + n \<le> x then m x else 0) seg_example 5000 (\<lambda>_. 9)
     (SEGMENT_SIZE + 4999) = 9"
  by (subst shrink_keeps_used) (auto simp: seg_example_def)

text \<open>C6: without a log file \<^verbatim>\<open>Segment::archive\<close> writes exactly the used bytes
  of the segment to the backup file and reports success; from a memory that holds those bytes
  the iterator yields the same entries; and a second call archives nothing.\<close>

theorem archive_writes_log:
  assumes "seg_log m seg es" and "backup_file_name seg = Some p" and "wal_file_name seg = None"
    and "no_references seg" and "files fs p = None" and "\<not> denied fs p"
  shows "\<exists>fs' bs. archive m seg fs = Some (Inr True, fs') \<and> files fs' p = Some bs \<and>
    (\<forall>q. q \<noteq> p \<longrightarrow> files fs' q = files fs q) \<and>
    archive m seg fs' = Some (Inr False, fs') \<and>
    entry_iter (store_bytes (\<lambda>_. 0) (seg_addr seg) bs) seg = Some es"
proof -
  let ?bs = "load_bytes m (seg_addr seg) (append_header seg - seg_addr seg)"
  let ?m = "store_bytes (\<lambda>_. 0) (seg_addr seg) ?bs"
  let ?fs = "fs\<lparr>files := (files fs)(p \<mapsto> ?bs)\<rparr>"
  have "seg_addr seg \<le> append_header seg"
    using assms(1) by (auto simp: seg_log_def dest: log_range_le)
  then have "log_range ?m (seg_addr seg) (append_header seg) es"
    using assms(1)
    by (auto simp: seg_log_def store_bytes_def load_bytes_nth intro!: log_range_frame [of m])
  then have "entry_iter ?m seg = Some es"
    using assms(1) by (intro seg_log_iter) (simp add: seg_log_def)
  then show ?thesis using assms(2-6)
    by (intro exI [of _ ?fs] exI [of _ ?bs])
       (simp add: archive_def fs_create_def fs_append_def)
qed

theorem archive_writes_log_witness:
  "\<exists>fs' bs. archive (\<lambda>_. 0) (seg_example\<lparr>backup_file_name := Some ''b''\<rparr>)
      \<lparr>files = Map.empty, denied = (\<lambda>_. False)\<rparr> = Some (Inr True, fs') \<and> files fs' ''b'' = Some bs"
  using archive_writes_log [of "\<lambda>_. 0" "seg_example\<lparr>backup_file_name := Some ''b''\<rparr>" "[]" "''b''"
      "\<lparr>files = Map.empty, denied = (\<lambda>_. False)\<rparr>"]
  by (auto simp: seg_log_def seg_example_def no_references_def)

end
