(* ===== verification/Neb_Schema.thy ===== *)
theory Neb_Schema
  imports Neb_Segs "HOL-Library.AList"
begin

text \<open>
  Schemas: \<^verbatim>\<open>src/src/ram/schema/mod.rs\<close> (fields, the assignment of their offsets,
  the schema map and the local cache) and \<^verbatim>\<open>src/src/ram/schema/sm.rs\<close> (the
  replicated state machine). Functions of the packages the code calls
  (\<^verbatim>\<open>bifrost_hasher\<close> and \<^verbatim>\<open>dovahkiin::types\<close>) are the fields of a
  record that every definition using them takes as an argument. Hash maps whose entries are
  listed are association lists without duplicate keys.
\<close>

section \<open>Values, types and the packages\<close>

text \<open>The constructors of \<^verbatim>\<open>dovahkiin\<close>'s type codes and values that the code names;
  all others are \<open>TOther\<close> and \<open>VPrim\<close>. Owned and shared values have the same
  constructors.\<close>

datatype Type = TBool | TU8 | TU32 | TString | TMap | TOther nat

datatype 'p Value =
    VNull | VNA | VBool bool | VU8 u8 | VU32 u32 | VString string | VPrim 'p
  | VPrimArray 'p
  | VArray "'p Value list"
  | VMap "string list" "(u64 \<times> 'p Value) list"

record 'p Lib =
  hash_str :: "string \<Rightarrow> u64"
  key_hash :: "string \<Rightarrow> u64"
  fixed_size :: "Type \<Rightarrow> bool"
  size_of_type :: "Type \<Rightarrow> nat"
  type_id :: "Type \<Rightarrow> u8"
  type_from_id :: "u8 \<Rightarrow> Type"
  base_type :: "'p Value \<Rightarrow> Type"
  get_vsize :: "Type \<Rightarrow> 'p Value \<Rightarrow> nat"
  set_val :: "Type \<Rightarrow> 'p Value \<Rightarrow> addr \<Rightarrow> mem \<Rightarrow> mem"
  get_size :: "Type \<Rightarrow> mem \<Rightarrow> addr \<Rightarrow> nat"
  get_shared_val :: "Type \<Rightarrow> mem \<Rightarrow> addr \<Rightarrow> 'p Value"
  prim_len :: "'p \<Rightarrow> nat"
  prim_size :: "'p \<Rightarrow> nat"
  get_shared_prim_array_val :: "Type \<Rightarrow> nat \<Rightarrow> mem \<Rightarrow> addr \<Rightarrow> ('p \<times> addr) option"

section \<open>Fields and schemas\<close>

datatype IndexType = Ranged | Hashed | Vectorized | Statistics

datatype Field = Field
  (data_type: Type) (nullable: bool) (is_array: bool) (sub_fields: "Field list option")
  (field_name: string) (name_id: u64) (indices: "IndexType list") (field_offset: "nat option")

definition Field_new ::
  "'p Lib \<Rightarrow> string \<Rightarrow> Type \<Rightarrow> bool \<Rightarrow> bool \<Rightarrow> Field list option \<Rightarrow> IndexType list \<Rightarrow> Field" where
  "Field_new L nm ty null arr subs idx = Field ty null arr subs nm (key_hash L nm) idx None"

definition is_var :: "'p Lib \<Rightarrow> Field \<Rightarrow> bool" where
  "is_var L f = (is_array f \<or> \<not> fixed_size L (data_type f))"

definition POINTER_SIZE :: nat where "POINTER_SIZE = 4"

text \<open>The mutable arguments \<^verbatim>\<open>assign_offsets\<close> threads through the recursion.\<close>

record AssignState =
  as_offset :: nat
  as_field_index :: "u64 \<Rightarrow> nat list option"
  as_id_index :: "u64 \<Rightarrow> u64 list option"
  as_index_fields :: "u64 \<Rightarrow> IndexType list option"

definition record_paths ::
  "u64 \<Rightarrow> IndexType list \<Rightarrow> nat list \<Rightarrow> u64 list \<Rightarrow> AssignState \<Rightarrow> AssignState" where
  "record_paths name_path_hash idx field_path id_path st =
     (let st1 = (if field_path \<noteq> []
                 then st\<lparr>as_field_index := (as_field_index st)(name_path_hash \<mapsto> field_path)\<rparr>
                 else st)
      in if id_path \<noteq> []
         then (let st2 = st1\<lparr>as_id_index := (as_id_index st1)(name_path_hash \<mapsto> id_path)\<rparr>
               in if idx \<noteq> []
                  then st2\<lparr>as_index_fields := (as_index_fields st2)(name_path_hash \<mapsto> idx)\<rparr>
                  else st2)
         else st1)"

text \<open>\<^verbatim>\<open>Field::assign_offsets\<close> and the loop over its sub-fields.\<close>

fun assign_offsets ::
    "'p Lib \<Rightarrow> Field \<Rightarrow> AssignState \<Rightarrow> string \<Rightarrow> nat list \<Rightarrow> u64 list \<Rightarrow> Field \<times> AssignState"
  and assign_subs ::
    "'p Lib \<Rightarrow> Field list \<Rightarrow> nat \<Rightarrow> AssignState \<Rightarrow> string \<Rightarrow> nat list \<Rightarrow> u64 list
       \<Rightarrow> Field list \<times> AssignState"
where
  "assign_offsets L (Field ty null arr subs nm nid idx _) st name_path field_path id_path =
     (let off0 = as_offset st;
          is_field_var = (arr \<or> \<not> fixed_size L ty);
          name_path_hash = hash_str L name_path;
          st1 = (if null \<and> \<not> is_field_var then st\<lparr>as_offset := off0 + 1\<rparr> else st);
          (subs', st2) =
            (if arr then (subs, st1\<lparr>as_offset := as_offset st1 + POINTER_SIZE\<rparr>)
             else case subs of
               Some fs \<Rightarrow>
                 (let format_name = (if name_path = [] then name_path else name_path @ ''|'');
                      (fs', st') = assign_subs L fs 0 st1 format_name field_path id_path
                  in (Some fs', st'))
             | None \<Rightarrow>
                 (None, st1\<lparr>as_offset := as_offset st1
                        + (if \<not> is_field_var then size_of_type L ty else POINTER_SIZE)\<rparr>))
      in (Field ty null arr subs' nm nid idx (Some off0),
          record_paths name_path_hash idx field_path id_path st2))"
| "assign_subs L [] i st format_name field_path id_path = ([], st)"
| "assign_subs L (f # fs) i st format_name field_path id_path =
     (let (f', st1) = assign_offsets L f st (format_name @ field_name f)
                        (field_path @ [i]) (id_path @ [name_id f]);
          (fs', st2) = assign_subs L fs (i + 1) st1 format_name field_path id_path
      in (f' # fs', st2))"

record Schema =
  schema_id :: u32
  schema_name :: string
  key_field :: "u64 list option"
  str_key_field :: "string list option"
  field_index :: "u64 \<Rightarrow> nat list option"
  id_index :: "u64 \<Rightarrow> u64 list option"
  index_fields :: "u64 \<Rightarrow> IndexType list option"
  schema_fields :: Field
  static_bound :: nat
  is_dynamic :: bool
  is_scannable :: bool

definition Schema_new ::
  "'p Lib \<Rightarrow> string \<Rightarrow> string list option \<Rightarrow> Field \<Rightarrow> bool \<Rightarrow> bool \<Rightarrow> Schema" where
  "Schema_new L nm keys fs dyn scan =
     (let (fs', st) = assign_offsets L fs \<lparr>as_offset = 0, as_field_index = Map.empty,
              as_id_index = Map.empty, as_index_fields = Map.empty\<rparr> [] [] []
      in \<lparr>schema_id = 0, schema_name = nm,
          key_field = map_option (map (hash_str L)) keys, str_key_field = keys,
          field_index = as_field_index st, id_index = as_id_index st,
          index_fields = as_index_fields st, schema_fields = fs', static_bound = as_offset st,
          is_dynamic = dyn, is_scannable = scan\<rparr>)"

definition Schema_new_with_id ::
  "'p Lib \<Rightarrow> u32 \<Rightarrow> string \<Rightarrow> string list option \<Rightarrow> Field \<Rightarrow> bool \<Rightarrow> bool \<Rightarrow> Schema" where
  "Schema_new_with_id L i nm keys fs dyn scan = (Schema_new L nm keys fs dyn scan)\<lparr>schema_id := i\<rparr>"

section \<open>The schema map\<close>

record SchemasMap =
  schema_map :: "(nat \<times> Schema) list"
  name_map :: "(string \<times> nat) list"
  id_counter :: u32

definition SchemasMap_new :: SchemasMap where
  "SchemasMap_new = \<lparr>schema_map = [], name_map = [], id_counter = 0\<rparr>"

definition new_schema :: "SchemasMap \<Rightarrow> Schema \<Rightarrow> SchemasMap" where
  "new_schema sm s =
     (let i = unat (schema_id s)
      in sm\<lparr>name_map := AList.update (schema_name s) i (name_map sm),
            schema_map := AList.update i s (schema_map sm)\<rparr>)"

definition del_schema :: "SchemasMap \<Rightarrow> string \<Rightarrow> SchemasMap" where
  "del_schema sm nm =
     (case map_of (name_map sm) nm of
        None \<Rightarrow> sm
      | Some i \<Rightarrow> sm\<lparr>name_map := AList.delete nm (name_map sm),
                     schema_map := AList.delete i (schema_map sm)\<rparr>)"

definition SchemasMap_get :: "SchemasMap \<Rightarrow> u32 \<Rightarrow> Schema option" where
  "SchemasMap_get sm i = map_of (schema_map sm) (unat i)"

definition name_to_id :: "SchemasMap \<Rightarrow> string \<Rightarrow> u32 option" where
  "name_to_id sm nm = map_option of_nat (map_of (name_map sm) nm)"

definition get_by_name :: "SchemasMap \<Rightarrow> string \<Rightarrow> Schema option" where
  "get_by_name sm nm =
     (case name_to_id sm nm of Some i \<Rightarrow> SchemasMap_get sm i | None \<Rightarrow> None)"

text \<open>\<^verbatim>\<open>SchemasMap::next_id\<close>: \<^verbatim>\<open>fetch_and(1)\<close> returns the counter and
  stores its conjunction with one. \<open>None\<close> is a loop that never ends.\<close>

partial_function (option) next_id_loop :: "(nat \<times> Schema) list \<Rightarrow> u32 \<Rightarrow> u32 \<Rightarrow> (u32 \<times> u32) option"
where
  [code]: "next_id_loop schemas i counter =
     (if map_of schemas (unat i) \<noteq> None
      then next_id_loop schemas counter (counter AND 1)
      else Some (i, counter))"

definition next_id :: "SchemasMap \<Rightarrow> (u32 \<times> SchemasMap) option" where
  "next_id sm = map_option (\<lambda>(i, c). (i, sm\<lparr>id_counter := c\<rparr>))
     (next_id_loop (schema_map sm) (id_counter sm) (id_counter sm AND 1))"

definition get_all :: "SchemasMap \<Rightarrow> Schema list" where
  "get_all sm = map snd (schema_map sm)"

definition load_from_list :: "SchemasMap \<Rightarrow> Schema list \<Rightarrow> SchemasMap" where
  "load_from_list sm ss = foldl new_schema sm ss"

section \<open>The replicated state machine and its caches\<close>

text \<open>The commands of \<^verbatim>\<open>SchemasSM\<close>. A command that changes the map publishes an
  event to the subscribers; whether the notification succeeds is \<^verbatim>\<open>bifrost\<close>'s and
  comes in as \<open>notify\<close>.\<close>

datatype SchemaEvent = OnSchemaAdded Schema | OnSchemaDeleted string

datatype SchemaCmd = CmdNewSchema Schema | CmdDelSchema string | CmdNextId

datatype 'e CmdResult = CmdUnit "'e + unit" | CmdId u32

definition SchemasSM_apply ::
  "(SchemaEvent \<Rightarrow> 'e + unit) \<Rightarrow> SchemaCmd \<Rightarrow> SchemasMap
     \<Rightarrow> ('e CmdResult \<times> SchemaEvent list \<times> SchemasMap) option" where
  "SchemasSM_apply notify cmd sm =
     (case cmd of
        CmdNewSchema s \<Rightarrow>
          (let ev = OnSchemaAdded s in Some (CmdUnit (notify ev), [ev], new_schema sm s))
      | CmdDelSchema nm \<Rightarrow>
          (let ev = OnSchemaDeleted nm in Some (CmdUnit (notify ev), [ev], del_schema sm nm))
      | CmdNextId \<Rightarrow> map_option (\<lambda>(i, sm'). (CmdId i, [], sm')) (next_id sm))"

text \<open>\<^verbatim>\<open>snapshot\<close> and \<^verbatim>\<open>recover\<close>, with the serialisation of
  \<^verbatim>\<open>bifrost::utils::serde\<close> as arguments; \<open>None\<close> is the panic on undecodable
  data.\<close>

definition SchemasSM_snapshot :: "(Schema list \<Rightarrow> bytes) \<Rightarrow> SchemasMap \<Rightarrow> bytes" where
  "SchemasSM_snapshot serialize sm = serialize (get_all sm)"

definition SchemasSM_recover ::
  "(bytes \<Rightarrow> Schema list option) \<Rightarrow> SchemasMap \<Rightarrow> bytes \<Rightarrow> SchemasMap option" where
  "SchemasSM_recover deserialize sm d = map_option (load_from_list sm) (deserialize d)"

text \<open>\<^verbatim>\<open>LocalSchemasCache::new\<close>: import the schemas of the state machine, then
  apply each event of the two subscriptions.\<close>

definition LocalSchemasCache_import :: "Schema list \<Rightarrow> SchemasMap" where
  "LocalSchemasCache_import ss = foldl new_schema SchemasMap_new ss"

definition LocalSchemasCache_event :: "SchemasMap \<Rightarrow> SchemaEvent \<Rightarrow> SchemasMap" where
  "LocalSchemasCache_event cache ev =
     (case ev of
        OnSchemaAdded s \<Rightarrow> new_schema cache s
      | OnSchemaDeleted nm \<Rightarrow> del_schema cache nm)"

section \<open>Lemmas: the static layout\<close>

text \<open>The slots of the static region that the writer and the reader use for a field with
  assigned offsets: a null byte and a value, a pointer, or the slots of the sub-fields.\<close>

definition null_pad :: "'p Lib \<Rightarrow> Field \<Rightarrow> nat" where
  "null_pad L f = (if nullable f \<and> \<not> is_var L f then 1 else 0)"

definition leaf_size :: "'p Lib \<Rightarrow> Field \<Rightarrow> nat" where
  "leaf_size L f = null_pad L f
     + (if is_var L f then POINTER_SIZE else size_of_type L (data_type f))"

fun field_slots :: "'p Lib \<Rightarrow> Field \<Rightarrow> (nat \<times> nat) list" where
  "field_slots L (Field ty null arr subs nm nid idx off) =
     (let f = Field ty null arr subs nm nid idx off
      in if arr then [(the off, leaf_size L f)]
         else case subs of
                Some fs \<Rightarrow> (the off, null_pad L f) # concat (map (field_slots L) fs)
              | None \<Rightarrow> [(the off, leaf_size L f)])"

text \<open>Slots that follow each other without gap or overlap.\<close>

primrec tiles :: "nat \<Rightarrow> nat \<Rightarrow> (nat \<times> nat) list \<Rightarrow> bool" where
  "tiles a b [] = (a = b)"
| "tiles a b (s # ss) = (fst s = a \<and> tiles (a + snd s) b ss)"

lemma tiles_append: "tiles a b ss \<Longrightarrow> tiles b c ts \<Longrightarrow> tiles a c (ss @ ts)"
  by (induction ss arbitrary: a) auto

lemma tiles_le: "tiles a b ss \<Longrightarrow> a \<le> b"
  by (induction ss arbitrary: a) (auto dest: add_leD1)

lemma tiles_bounds: "tiles a b ss \<Longrightarrow> s \<in> set ss \<Longrightarrow> a \<le> fst s \<and> fst s + snd s \<le> b"
proof (induction ss arbitrary: a)
  case (Cons t ss)
  then have "a + snd t \<le> b" by (auto dest: tiles_le)
  then show ?case using Cons by (auto dest: add_leD1)
qed simp

lemma tiles_apart: "tiles a b ss \<Longrightarrow> sorted_wrt ranges_apart ss"
proof (induction ss arbitrary: a)
  case (Cons s ss)
  then show ?case by (auto simp: ranges_apart_def dest: tiles_bounds)
qed simp

lemma as_offset_record_paths [simp]: "as_offset (record_paths h idx fp ip st) = as_offset st"
  by (simp add: record_paths_def Let_def)

text \<open>The same layout read off the field tree: a field starts at its offset, sub-fields follow each
  other.\<close>

fun laid_out :: "'p Lib \<Rightarrow> Field \<Rightarrow> nat \<Rightarrow> nat \<Rightarrow> bool"
  and laid_subs :: "'p Lib \<Rightarrow> Field list \<Rightarrow> nat \<Rightarrow> nat \<Rightarrow> bool"
where
  "laid_out L (Field ty null arr subs nm nid idx off) lo hi =
     (let f = Field ty null arr subs nm nid idx off
      in off = Some lo \<and>
         (if arr then hi = lo + leaf_size L f
          else case subs of
                 Some fs \<Rightarrow> laid_subs L fs (lo + null_pad L f) hi
               | None \<Rightarrow> hi = lo + leaf_size L f))"
| "laid_subs L [] lo hi = (lo = hi)"
| "laid_subs L (f # fs) lo hi = (\<exists>mid. laid_out L f lo mid \<and> laid_subs L fs mid hi)"

lemma laid_out_tiles:
  "laid_out L f lo hi \<Longrightarrow> tiles lo hi (field_slots L f)"
  "laid_subs L fs lo hi \<Longrightarrow> tiles lo hi (concat (map (field_slots L) fs))"
  by (induction L f lo hi and L fs lo hi rule: laid_out_laid_subs.induct)
     (auto simp: Let_def intro: tiles_append split: if_splits option.splits)

lemma laid_out_le: "laid_out L f lo hi \<Longrightarrow> lo \<le> hi" and laid_subs_le: "laid_subs L fs lo hi \<Longrightarrow> lo \<le> hi"
  using laid_out_tiles tiles_le by blast+

lemma assign_offsets_laid_out:
  "assign_offsets L f st np fp ip = (f', st') \<Longrightarrow> laid_out L f' (as_offset st) (as_offset st')"
  "assign_subs L fs i st np fp ip = (fs', st') \<Longrightarrow> laid_subs L fs' (as_offset st) (as_offset st')"
proof (induction L f st np fp ip and L fs i st np fp ip arbitrary: f' st' and fs' st'
    rule: assign_offsets_assign_subs.induct)
  case (1 L ty null arr subs nm nid idx off st np fp ip)
  show ?case
  proof (cases "\<not> arr \<and> subs \<noteq> None")
    case True
    then obtain fs where fs: "subs = Some fs" and arr: "\<not> arr" by auto
    let ?st1 = "if null \<and> \<not> (arr \<or> \<not> fixed_size L ty) then st\<lparr>as_offset := as_offset st + 1\<rparr> else st"
    let ?np = "if np = [] then np else np @ ''|''"
    obtain gs st2 where gs: "assign_subs L fs 0 ?st1 ?np fp ip = (gs, st2)" by fastforce
    have "laid_subs L gs (as_offset ?st1) (as_offset st2)" using 1(1) fs arr gs by auto
    moreover have "f' = Field ty null arr (Some gs) nm nid idx (Some (as_offset st))"
      "as_offset st' = as_offset st2"
      using 1(2) gs fs arr by (auto simp: Let_def split: if_splits)
    ultimately show ?thesis using arr by (auto simp: null_pad_def is_var_def)
  next
    case False
    then show ?thesis using 1(2)
      by (auto simp: Let_def leaf_size_def null_pad_def is_var_def split: if_splits)
  qed
next
  case (3 L f fs i st np fp ip)
  obtain g st1 where g: "assign_offsets L f st (np @ field_name f) (fp @ [i]) (ip @ [name_id f]) = (g, st1)"
    by fastforce
  obtain gs st2 where gs: "assign_subs L fs (i + 1) st1 np fp ip = (gs, st2)" by fastforce
  have "laid_out L g (as_offset st) (as_offset st1)" using 3(1) [OF g] by simp
  moreover have "laid_subs L gs (as_offset st1) (as_offset st2)"
    using 3(2) [OF g [symmetric] refl gs] by simp
  moreover have "fs' = g # gs" "st' = st2" using 3(3) g gs by (auto simp: Let_def)
  ultimately show ?case by auto
qed auto

lemma Schema_new_laid_out:
  "laid_out L (schema_fields (Schema_new L nm keys fs dyn scan)) 0
     (static_bound (Schema_new L nm keys fs dyn scan))"
  using assign_offsets_laid_out(1)
  by (fastforce simp: Schema_new_def Let_def split: prod.splits)

section \<open>Lemmas: the index of field paths\<close>

text \<open>The field a path of positions leads to, with the name ids on the way.\<close>

fun resolve :: "Field \<Rightarrow> nat list \<Rightarrow> (Field \<times> u64 list) option" where
  "resolve f [] = Some (f, [])"
| "resolve f (i # p) =
     (case sub_fields f of
        Some fs \<Rightarrow>
          if i < length fs
          then map_option (\<lambda>(g, ids). (g, name_id (fs ! i) # ids)) (resolve (fs ! i) p)
          else None
      | None \<Rightarrow> None)"

text \<open>Every path that an assignment recorded is the path of the enclosing field followed by one
  that resolves inside the field, and the recorded name ids are those on the way.\<close>

definition new_paths ::
  "AssignState \<Rightarrow> AssignState \<Rightarrow> nat list \<Rightarrow> u64 list \<Rightarrow> (nat list \<Rightarrow> u64 list option) \<Rightarrow> bool" where
  "new_paths st st' fp ip res = (\<forall>h.
     (as_field_index st' h = as_field_index st h \<and> as_id_index st' h = as_id_index st h) \<or>
     (\<exists>q ids. as_field_index st' h = Some (fp @ q) \<and> as_id_index st' h = Some (ip @ ids) \<and>
              res q = Some ids))"

lemma new_paths_refl [simp]: "new_paths st st fp ip res"
  by (simp add: new_paths_def)

lemma new_paths_offset [simp]:
  "new_paths (st\<lparr>as_offset := k\<rparr>) st' fp ip res = new_paths st st' fp ip res"
  "new_paths st (st'\<lparr>as_offset := k\<rparr>) fp ip res = new_paths st st' fp ip res"
  by (simp_all add: new_paths_def)

lemma new_paths_trans:
  assumes "new_paths st st1 fp ip res1" and "new_paths st1 st2 fp ip res2"
    and "\<And>q ids. res1 q = Some ids \<Longrightarrow> res q = Some ids"
    and "\<And>q ids. res2 q = Some ids \<Longrightarrow> res q = Some ids"
  shows "new_paths st st2 fp ip res"
  unfolding new_paths_def
proof
  fix h
  show "(as_field_index st2 h = as_field_index st h \<and> as_id_index st2 h = as_id_index st h) \<or>
     (\<exists>q ids. as_field_index st2 h = Some (fp @ q) \<and> as_id_index st2 h = Some (ip @ ids) \<and>
              res q = Some ids)"
    using spec [OF assms(1) [unfolded new_paths_def], of h]
      spec [OF assms(2) [unfolded new_paths_def], of h] assms(3,4)
    by (elim disjE conjE exE) auto
qed

lemma new_paths_record:
  assumes "(fp = []) = (ip = [])" and "res [] = Some []"
  shows "new_paths st (record_paths h idx fp ip st) fp ip res"
  using assms by (auto simp: new_paths_def record_paths_def Let_def)

text \<open>Paths below the \<open>i\<close>-th sub-field, seen from the field.\<close>

lemma new_paths_down:
  assumes "new_paths st st' (fp @ [i]) (ip @ [n]) res1"
    and "\<And>q ids. res1 q = Some ids \<Longrightarrow> res (i # q) = Some (n # ids)"
  shows "new_paths st st' fp ip res"
  unfolding new_paths_def
proof
  fix h
  from assms(1) consider
      "as_field_index st' h = as_field_index st h" "as_id_index st' h = as_id_index st h"
    | q ids where "as_field_index st' h = Some ((fp @ [i]) @ q)"
        "as_id_index st' h = Some ((ip @ [n]) @ ids)" "res1 q = Some ids"
    unfolding new_paths_def by blast
  then show "(as_field_index st' h = as_field_index st h \<and> as_id_index st' h = as_id_index st h) \<or>
     (\<exists>q ids. as_field_index st' h = Some (fp @ q) \<and> as_id_index st' h = Some (ip @ ids) \<and>
              res q = Some ids)"
  proof cases
    case 2
    then show ?thesis using assms(2) by (intro disjI2 exI [of _ "i # q"] exI [of _ "n # ids"]) auto
  qed simp
qed

text \<open>The paths into a list of sub-fields numbered from \<open>k\<close>.\<close>

definition resolve_subs :: "Field list \<Rightarrow> nat \<Rightarrow> nat list \<Rightarrow> u64 list option" where
  "resolve_subs fs k q =
     (case q of
        [] \<Rightarrow> None
      | i # p \<Rightarrow> if k \<le> i \<and> i < k + length fs
                then map_option (\<lambda>(g, ids). name_id (fs ! (i - k)) # ids) (resolve (fs ! (i - k)) p)
                else None)"

lemma name_id_assign: "assign_offsets L f st np fp ip = (f', st') \<Longrightarrow> name_id f' = name_id f"
  by (cases f) (auto simp: Let_def split: prod.splits)

lemma assign_offsets_paths:
  "assign_offsets L f st np fp ip = (f', st') \<Longrightarrow> (fp = []) = (ip = []) \<Longrightarrow>
     new_paths st st' fp ip (\<lambda>q. map_option snd (resolve f' q))"
  "assign_subs L fs i st np fp ip = (fs', st') \<Longrightarrow> (fp = []) = (ip = []) \<Longrightarrow>
     new_paths st st' fp ip (resolve_subs fs' i)"
proof (induction L f st np fp ip and L fs i st np fp ip arbitrary: f' st' and fs' st'
    rule: assign_offsets_assign_subs.induct)
  case (1 L ty null arr subs nm nid idx off st np fp ip)
  show ?case
  proof (cases "\<not> arr \<and> subs \<noteq> None")
    case True
    then obtain fs where fs: "subs = Some fs" and arr: "\<not> arr" by auto
    let ?st1 = "if null \<and> \<not> (arr \<or> \<not> fixed_size L ty) then st\<lparr>as_offset := as_offset st + 1\<rparr> else st"
    let ?np = "if np = [] then np else np @ ''|''"
    obtain gs st2 where gs: "assign_subs L fs 0 ?st1 ?np fp ip = (gs, st2)" by fastforce
    have "new_paths ?st1 st2 fp ip (resolve_subs gs 0)"
      using 1(1) [OF refl refl refl refl _ fs refl gs] 1(3) arr by simp
    then have st2: "new_paths st st2 fp ip (resolve_subs gs 0)" by (auto split: if_splits)
    have f': "f' = Field ty null arr (Some gs) nm nid idx (Some (as_offset st))"
      and st': "st' = record_paths (hash_str L np) idx fp ip st2"
      using 1(2) gs fs arr by (auto simp: Let_def split: if_splits)
    have "new_paths st2 st' fp ip (\<lambda>q. map_option snd (resolve f' q))"
      unfolding st' by (rule new_paths_record [OF 1(3)]) simp
    moreover have "map_option snd (resolve f' q) = Some ids" if "resolve_subs gs 0 q = Some ids" for q ids
      using that by (auto simp: resolve_subs_def f' split: list.splits if_splits)
    ultimately show ?thesis by (intro new_paths_trans [OF st2])
  next
    case False
    then obtain k where st': "st' = record_paths (hash_str L np) idx fp ip (st\<lparr>as_offset := k\<rparr>)"
      using 1(2) by (auto simp: Let_def split: if_splits)
    have "new_paths (st\<lparr>as_offset := k\<rparr>) st' fp ip (\<lambda>q. map_option snd (resolve f' q))"
      unfolding st' by (rule new_paths_record [OF 1(3)]) simp
    then show ?thesis by simp
  qed
next
  case (3 L f fs i st np fp ip)
  obtain g st1 where g: "assign_offsets L f st (np @ field_name f) (fp @ [i]) (ip @ [name_id f]) = (g, st1)"
    by fastforce
  obtain gs st2 where gs: "assign_subs L fs (i + 1) st1 np fp ip = (gs, st2)" by fastforce
  have res: "fs' = g # gs" "st' = st2" using 3(3) g gs by (auto simp: Let_def)
  have "new_paths st st1 (fp @ [i]) (ip @ [name_id f]) (\<lambda>q. map_option snd (resolve g q))"
    using 3(1) [OF g] by simp
  then have st1: "new_paths st st1 fp ip (resolve_subs [g] i)"
    by (rule new_paths_down)
       (auto simp: resolve_subs_def name_id_assign [OF g] intro: exI)
  have st2: "new_paths st1 st2 fp ip (resolve_subs gs (i + 1))"
    using 3(2) [OF g [symmetric] refl gs] 3(4) by simp
  show ?case unfolding res
  proof (rule new_paths_trans [OF st1 st2])
    show "resolve_subs (g # gs) i q = Some ids" if "resolve_subs [g] i q = Some ids" for q ids
      using that by (auto simp: resolve_subs_def split: list.splits if_splits)
    show "resolve_subs (g # gs) i q = Some ids" if "resolve_subs gs (i + 1) q = Some ids" for q ids
      using that by (auto simp: resolve_subs_def nth_Cons' split: list.splits if_splits)
  qed
qed auto

section \<open>Lemmas: the schema map\<close>

text \<open>A consistent map: schemas are stored under their own id, and names and ids determine each
  other.\<close>

definition names_ids :: "(nat \<Rightarrow> Schema option) \<Rightarrow> (string \<Rightarrow> nat option) \<Rightarrow> bool" where
  "names_ids M N = ((\<forall>i s. M i = Some s \<longrightarrow> i = unat (schema_id s) \<and> N (schema_name s) = Some i) \<and>
     (\<forall>n i. N n = Some i \<longrightarrow> (\<exists>s. M i = Some s \<and> schema_name s = n)))"

definition schemas_wf :: "SchemasMap \<Rightarrow> bool" where
  "schemas_wf sm = (distinct (map fst (schema_map sm)) \<and>
     names_ids (map_of (schema_map sm)) (map_of (name_map sm)))"

lemma names_idsD:
  assumes "names_ids M N"
  shows "M i = Some s \<Longrightarrow> i = unat (schema_id s)" "M i = Some s \<Longrightarrow> N (schema_name s) = Some i"
    "N n = Some i \<Longrightarrow> \<exists>s. M i = Some s \<and> schema_name s = n"
  using assms by (auto simp: names_ids_def)

lemma names_ids_insert:
  assumes "names_ids M N" and "\<And>i. N (schema_name s) = Some i \<Longrightarrow> i = unat (schema_id s)"
    and "\<And>t. M (unat (schema_id s)) = Some t \<Longrightarrow> schema_name t = schema_name s"
  shows "names_ids (M(unat (schema_id s) \<mapsto> s)) (N(schema_name s \<mapsto> unat (schema_id s)))"
  unfolding names_ids_def
proof (intro conjI allI impI)
  fix n i assume "(N(schema_name s \<mapsto> unat (schema_id s))) n = Some i"
  then show "\<exists>t. (M(unat (schema_id s) \<mapsto> s)) i = Some t \<and> schema_name t = n"
    using names_idsD(3) [OF assms(1), of n i] assms(3) by (auto split: if_splits)
qed (use names_idsD(1,2) [OF assms(1)] assms(2) in \<open>fastforce split: if_splits\<close>)+

lemma names_ids_delete:
  assumes "names_ids M N" and "N nm = Some i"
  shows "names_ids (M(i := None)) (N(nm := None))"
  unfolding names_ids_def
proof (intro conjI allI impI)
  fix n j assume "(N(nm := None)) n = Some j"
  then show "\<exists>t. (M(i := None)) j = Some t \<and> schema_name t = n"
    using names_idsD(3) [OF assms(1), of n j] names_idsD(3) [OF assms] by (auto split: if_splits)
qed (use names_idsD(1,2) [OF assms(1)] assms(2) in \<open>fastforce split: if_splits\<close>)+

text \<open>A schema may be registered when its name and its id belong to no other schema.\<close>

definition registrable :: "SchemasMap \<Rightarrow> Schema \<Rightarrow> bool" where
  "registrable sm s = ((\<forall>i. map_of (name_map sm) (schema_name s) = Some i \<longrightarrow> i = unat (schema_id s)) \<and>
     (\<forall>t. map_of (schema_map sm) (unat (schema_id s)) = Some t \<longrightarrow> schema_name t = schema_name s))"

lemma SchemasMap_new_wf [simp]: "schemas_wf SchemasMap_new"
  by (simp add: schemas_wf_def SchemasMap_new_def names_ids_def)

lemma SchemasMap_new_simps [simp]:
  "schema_map SchemasMap_new = []" "name_map SchemasMap_new = []" "id_counter SchemasMap_new = 0"
  by (simp_all add: SchemasMap_new_def)

lemma new_schema_maps:
  "map_of (schema_map (new_schema sm s)) = (map_of (schema_map sm))(unat (schema_id s) \<mapsto> s)"
  "map_of (name_map (new_schema sm s)) = (map_of (name_map sm))(schema_name s \<mapsto> unat (schema_id s))"
  by (simp_all add: new_schema_def Let_def update_conv')

lemma del_schema_maps:
  "map_of (schema_map (del_schema sm nm)) =
     (case map_of (name_map sm) nm of None \<Rightarrow> map_of (schema_map sm)
      | Some i \<Rightarrow> (map_of (schema_map sm))(i := None))"
  "map_of (name_map (del_schema sm nm)) = (map_of (name_map sm))(nm := None)"
  by (auto simp: del_schema_def delete_conv' fun_eq_iff split: option.splits)

lemma new_schema_wf:
  assumes "schemas_wf sm" and "registrable sm s"
  shows "schemas_wf (new_schema sm s)"
proof -
  have "names_ids (map_of (schema_map (new_schema sm s))) (map_of (name_map (new_schema sm s)))"
    unfolding new_schema_maps
    by (rule names_ids_insert) (use assms in \<open>auto simp: schemas_wf_def registrable_def\<close>)
  then show ?thesis
    using assms(1) by (simp add: schemas_wf_def new_schema_def Let_def distinct_update)
qed

lemma del_schema_wf:
  assumes "schemas_wf sm" shows "schemas_wf (del_schema sm nm)"
proof (cases "map_of (name_map sm) nm")
  case None
  then show ?thesis using assms by (simp add: del_schema_def)
next
  case (Some i)
  have "names_ids (map_of (schema_map (del_schema sm nm))) (map_of (name_map (del_schema sm nm)))"
    unfolding del_schema_maps using names_ids_delete [of _ _ nm i] Some assms
    by (simp add: schemas_wf_def)
  then show ?thesis
    using assms Some by (simp add: schemas_wf_def del_schema_def distinct_delete)
qed

text \<open>Two maps that answer every lookup alike.\<close>

definition same_schemas :: "SchemasMap \<Rightarrow> SchemasMap \<Rightarrow> bool" where
  "same_schemas sm sm' = (map_of (schema_map sm) = map_of (schema_map sm') \<and>
     map_of (name_map sm) = map_of (name_map sm'))"

lemma same_schemas_new: "same_schemas sm sm' \<Longrightarrow> same_schemas (new_schema sm s) (new_schema sm' s)"
  by (simp add: same_schemas_def new_schema_maps)

lemma same_schemas_del: "same_schemas sm sm' \<Longrightarrow> same_schemas (del_schema sm nm) (del_schema sm' nm)"
  by (simp add: same_schemas_def del_schema_maps split: option.splits)

lemma same_schemas_lookups:
  "same_schemas sm sm' \<Longrightarrow> SchemasMap_get sm i = SchemasMap_get sm' i \<and>
     name_to_id sm nm = name_to_id sm' nm \<and> get_by_name sm nm = get_by_name sm' nm"
  by (simp add: same_schemas_def SchemasMap_get_def name_to_id_def get_by_name_def
      split: option.splits)

lemma foldl_new_schema_maps:
  "map_of (schema_map (foldl new_schema sm ss)) =
     (map_of (schema_map sm)) ++ map_of (rev (map (\<lambda>s. (unat (schema_id s), s)) ss))"
  "map_of (name_map (foldl new_schema sm ss)) =
     (map_of (name_map sm)) ++ map_of (rev (map (\<lambda>s. (schema_name s, unat (schema_id s))) ss))"
  by (induction ss arbitrary: sm) (auto simp: new_schema_maps map_add_def fun_eq_iff split: option.splits)

text \<open>Loading the schemas a consistent map lists restores the map.\<close>

lemma load_get_all:
  assumes wf: "schemas_wf sm"
  shows "same_schemas (foldl new_schema SchemasMap_new (get_all sm)) sm"
proof -
  have d: "distinct (map fst (schema_map sm))"
    and ni: "names_ids (map_of (schema_map sm)) (map_of (name_map sm))"
    using wf by (simp_all add: schemas_wf_def)
  have at: "i = unat (schema_id s) \<and> map_of (name_map sm) (schema_name s) = Some i"
    if "(i, s) \<in> set (schema_map sm)" for i s
    using that d names_idsD(1,2) [OF ni, of i s] by simp
  have keys: "map (\<lambda>s. (unat (schema_id s), s)) (get_all sm) = schema_map sm"
    unfolding get_all_def map_map using at by (intro map_idI) auto
  let ?names = "map (\<lambda>s. (schema_name s, unat (schema_id s))) (get_all sm)"
  have in_names: "map_of (name_map sm) n = Some i" if "(n, i) \<in> set ?names" for n i
    using that at by (auto simp: get_all_def)
  have names: "map_of (rev ?names) n = map_of (name_map sm) n" for n
  proof (cases "map_of (rev ?names) n")
    case None
    then have "n \<notin> schema_name ` set (get_all sm)"
      by (auto simp: map_of_eq_None_iff image_image)
    moreover have "schema_name s \<in> schema_name ` set (get_all sm)"
      if "map_of (schema_map sm) i = Some s" for i s
      using map_of_SomeD [OF that] by (force simp: get_all_def)
    ultimately have "map_of (name_map sm) n = None"
      using names_idsD(3) [OF ni, of n] by (cases "map_of (name_map sm) n") auto
    with None show ?thesis by simp
  next
    case (Some i)
    then have "(n, i) \<in> set ?names" using map_of_SomeD by fastforce
    from in_names [OF this] Some show ?thesis by simp
  qed
  show ?thesis
    unfolding same_schemas_def foldl_new_schema_maps keys map_of_rev_distinct [OF d]
    using names by (simp add: SchemasMap_new_def fun_eq_iff)
qed

text \<open>Executing a list of commands, collecting the events; \<open>None\<close> when a command does not
  return.\<close>

fun SchemasSM_run ::
  "(SchemaEvent \<Rightarrow> 'e + unit) \<Rightarrow> SchemaCmd list \<Rightarrow> SchemasMap
     \<Rightarrow> (SchemaEvent list \<times> SchemasMap) option" where
  "SchemasSM_run notify [] sm = Some ([], sm)"
| "SchemasSM_run notify (c # cs) sm =
     (case SchemasSM_apply notify c sm of
        None \<Rightarrow> None
      | Some (_, evs, sm1) \<Rightarrow>
          map_option (\<lambda>(evs', sm2). (evs @ evs', sm2)) (SchemasSM_run notify cs sm1))"

lemma next_id_keeps: "next_id sm = Some (i, sm') \<Longrightarrow> same_schemas sm' sm"
  by (auto simp: next_id_def same_schemas_def)

lemma run_keeps_cache:
  assumes "same_schemas cache sm" and "SchemasSM_run notify cs sm = Some (evs, sm')"
  shows "same_schemas (foldl LocalSchemasCache_event cache evs) sm'"
  using assms
proof (induction cs arbitrary: cache sm evs)
  case (Cons c cs)
  then obtain r evs1 sm1 evs2 where
      c: "SchemasSM_apply notify c sm = Some (r, evs1, sm1)"
      and rest: "SchemasSM_run notify cs sm1 = Some (evs2, sm')" and evs: "evs = evs1 @ evs2"
    by (auto split: option.splits)
  have "same_schemas (foldl LocalSchemasCache_event cache evs1) sm1"
    using c Cons.prems(1)
    by (auto simp: SchemasSM_apply_def Let_def LocalSchemasCache_event_def
        intro: same_schemas_new same_schemas_del split: SchemaCmd.splits)
       (auto simp: same_schemas_def dest!: next_id_keeps)
  from Cons.IH [OF this rest] show ?case by (simp add: evs)
qed simp

lemma next_id_loop_taken:
  assumes "next_id_loop schemas i c = Some r" and "i = 0" and "c = 0"
  shows "map_of schemas 0 = None"
proof -
  have "i = 0 \<longrightarrow> c = 0 \<longrightarrow> map_of schemas 0 = None"
  proof (rule next_id_loop.raw_induct [OF _ assms(1)])
    fix f :: "(nat \<times> Schema) list \<Rightarrow> u32 \<Rightarrow> u32 \<Rightarrow> (u32 \<times> u32) option"
      and s :: "(nat \<times> Schema) list" and i c :: u32 and r
    assume "\<And>s i c r. f s i c = Some r \<Longrightarrow> i = 0 \<longrightarrow> c = 0 \<longrightarrow> map_of s 0 = None"
      and "(if map_of s (unat i) \<noteq> None then f s c (c AND 1) else Some (i, c)) = Some r"
    then show "i = 0 \<longrightarrow> c = 0 \<longrightarrow> map_of s 0 = None" by (auto split: if_splits)
  qed
  then show ?thesis using assms by simp
qed

lemma next_id_fresh_counter:
  assumes "id_counter sm = 0"
  shows "next_id sm = (if map_of (schema_map sm) 0 = None then Some (0, sm) else None)"
proof (cases "map_of (schema_map sm) 0")
  case None
  then have "next_id_loop (schema_map sm) 0 0 = Some (0, 0)"
    by (subst next_id_loop.simps) simp
  then show ?thesis using assms None by (simp add: next_id_def)
next
  case (Some s)
  then have "next_id_loop (schema_map sm) 0 0 = None"
    using next_id_loop_taken [of "schema_map sm" 0 0] by (cases "next_id_loop (schema_map sm) 0 0") auto
  then show ?thesis using assms Some by (simp add: next_id_def)
qed

section \<open>Properties\<close>

text \<open>C32: the offsets \<^verbatim>\<open>Schema::new\<close> assigns lay the slots of all fields (null bytes,
  values, pointers) one after the other from zero to \<^verbatim>\<open>static_bound\<close>: they never
  overlap and leave no gap.\<close>

theorem schema_slots_tile:
  "tiles 0 (static_bound (Schema_new L nm keys fs dyn scan))
     (field_slots L (schema_fields (Schema_new L nm keys fs dyn scan))) \<and>
   sorted_wrt ranges_apart (field_slots L (schema_fields (Schema_new L nm keys fs dyn scan)))"
  using laid_out_tiles(1) [OF Schema_new_laid_out] tiles_apart by blast

text \<open>C8: every path in \<^verbatim>\<open>field_index\<close> of a new schema leads to a field of the schema,
  and \<^verbatim>\<open>id_index\<close> holds exactly the name ids along that path.\<close>

theorem schema_field_index_resolves:
  assumes "field_index (Schema_new L nm keys fs dyn scan) h = Some path"
  shows "\<exists>g ids. resolve (schema_fields (Schema_new L nm keys fs dyn scan)) path = Some (g, ids) \<and>
    id_index (Schema_new L nm keys fs dyn scan) h = Some ids"
proof -
  let ?st = "\<lparr>as_offset = 0, as_field_index = Map.empty, as_id_index = Map.empty,
    as_index_fields = Map.empty\<rparr>"
  obtain fs' st where a: "assign_offsets L fs ?st [] [] [] = (fs', st)" by fastforce
  have "new_paths ?st st [] [] (\<lambda>q. map_option snd (resolve fs' q))"
    using assign_offsets_paths(1) [OF a] by simp
  moreover have "as_field_index st h = Some path" using assms by (simp add: Schema_new_def a)
  ultimately have "map_option snd (resolve fs' path) = as_id_index st h \<and> as_id_index st h \<noteq> None"
    unfolding new_paths_def by (auto dest: spec [of _ h])
  then show ?thesis by (auto simp: Schema_new_def a)
qed

definition lib_example :: "unit Lib" where
  "lib_example = \<lparr>hash_str = (\<lambda>s. of_nat (length s)), key_hash = (\<lambda>s. of_nat (length s)),
     fixed_size = (\<lambda>t. t \<noteq> TString), size_of_type = (\<lambda>t. 4), type_id = (\<lambda>t. 0),
     type_from_id = (\<lambda>i. TU32), base_type = (\<lambda>v. TU32), get_vsize = (\<lambda>t v. 4),
     set_val = (\<lambda>t v a m. m), get_size = (\<lambda>t m a. 4), get_shared_val = (\<lambda>t m a. VNull),
     prim_len = (\<lambda>p. 0), prim_size = (\<lambda>p. 0), get_shared_prim_array_val = (\<lambda>t n m a. None)\<rparr>"

definition field_example :: Field where
  "field_example = Field_new lib_example ''*'' TMap False False
     (Some [Field_new lib_example ''id'' TU32 False False None [],
            Field_new lib_example ''name'' TString True False None [Hashed]]) []"

theorem schema_field_index_resolves_witness:
  "\<exists>g ids. resolve (schema_fields (Schema_new lib_example ''s'' None field_example False False)) [1]
     = Some (g, ids) \<and>
    id_index (Schema_new lib_example ''s'' None field_example False False) 4 = Some ids"
  by (rule schema_field_index_resolves)
     (simp add: Schema_new_def field_example_def Field_new_def lib_example_def record_paths_def)


definition schema_example :: Schema where
  "schema_example = Schema_new_with_id lib_example 7 ''s'' None field_example False False"

lemma schema_example_registrable [simp]: "registrable SchemasMap_new schema_example"
  by (simp add: registrable_def)

lemma schema_example_id [simp]: "schema_id schema_example = 7"
  by (simp add: schema_example_def Schema_new_with_id_def)




text \<open>C31: the schema map keeps names and ids in one-to-one correspondence under registration of
  schemas whose name and id are free, and under deletion.\<close>

theorem schema_map_consistent:
  assumes "schemas_wf sm"
  shows "(registrable sm s \<longrightarrow> schemas_wf (new_schema sm s) \<and>
      get_by_name (new_schema sm s) (schema_name s) = Some s) \<and>
    schemas_wf (del_schema sm nm) \<and> get_by_name (del_schema sm nm) nm = None"
  using assms new_schema_wf del_schema_wf
  by (auto simp: get_by_name_def name_to_id_def SchemasMap_get_def new_schema_maps del_schema_maps)

theorem schema_map_consistent_witness:
  "schemas_wf (new_schema SchemasMap_new schema_example)"
  using schema_map_consistent [OF SchemasMap_new_wf, of schema_example "[]"] by simp

text \<open>C36: \<^verbatim>\<open>SchemasMap::next_id\<close> on a counter that is zero, as every new map has,
  returns zero while no schema has that id and never returns otherwise: the counter is never
  advanced, since the code stores its conjunction with one.\<close>

theorem next_id_never_advances:
  assumes "id_counter sm = 0"
  shows "next_id sm = (if map_of (schema_map sm) 0 = None then Some (0, sm) else None)"
  by (rule next_id_fresh_counter [OF assms])

theorem next_id_never_advances_witness:
  "next_id SchemasMap_new = Some (0, SchemasMap_new) \<and>
   next_id (new_schema SchemasMap_new (schema_example\<lparr>schema_id := 0\<rparr>)) = None"
  using next_id_never_advances [of SchemasMap_new] next_id_never_advances
    [of "new_schema SchemasMap_new (schema_example\<lparr>schema_id := 0\<rparr>)"]
  by (simp add: new_schema_def)

end
