(* ===== verification/Neb_IO.thy ===== *)
theory Neb_IO
  imports Neb_Schema
begin

text \<open>
  Encoding and decoding of cell contents: \<^verbatim>\<open>src/src/ram/io/writer.rs\<close> plans a list of
  instructions and executes it, \<^verbatim>\<open>src/src/ram/io/reader.rs\<close> reads a value back. The
  mutable tail offset of both is threaded explicitly. \<^verbatim>\<open>Owned\<close> and
  \<^verbatim>\<open>Shared\<close> values are one type. Panics of the writer are \<open>Panic\<close>, those of the
  reader \<open>None\<close>. The reader of dynamic values follows lengths it finds in memory and has
  fuel; the round trip of written values shows how much is enough.
\<close>

section \<open>The writer\<close>

datatype 'p WriteError =
    WE_SchemaDoesNotExisted u32
  | WE_CannotAllocateSpace
  | WE_CellIsTooLarge nat
  | WE_CellAlreadyExisted
  | WE_CellDoesNotExisted
  | WE_ReadError ReadError
  | WE_UserCanceledUpdate
  | WE_DeletionPredictionFailed
  | WE_NetworkingError
  | WE_DataMismatchSchema Field "'p Value"

record 'p Instruction =
  ins_type :: Type
  ins_val :: "'p Value"
  ins_offset :: nat

type_synonym 'p planned = "('p WriteError, nat \<times> 'p Instruction list) result"

definition ins :: "Type \<Rightarrow> 'p Value \<Rightarrow> nat \<Rightarrow> 'p Instruction" where
  "ins ty v off = \<lparr>ins_type = ty, ins_val = v, ins_offset = off\<rparr>"

definition get_by_key_id :: "(u64 \<times> 'p Value) list \<Rightarrow> u64 \<Rightarrow> 'p Value" where
  "get_by_key_id kv k = (case map_of kv k of Some v \<Rightarrow> v | None \<Rightarrow> VNull)"

definition emit :: "'p Instruction list \<Rightarrow> 'p planned \<Rightarrow> 'p planned" where
  "emit is r = res_bind r (\<lambda>(t, js). Ok (t, is @ js))"

text \<open>The pointer a variable-sized field leaves in its static slot.\<close>

definition jump_ins :: "bool \<Rightarrow> nat option \<Rightarrow> nat \<Rightarrow> ('p WriteError, 'p Instruction list) result" where
  "jump_ins isv off tail =
     (if isv then Ok []
      else res_bind (unwrap off) (\<lambda>so. Ok [ins TU32 (VU32 (of_nat tail)) so]))"

definition null_ins :: "bool \<Rightarrow> 'p Value \<Rightarrow> nat \<Rightarrow> 'p Instruction list" where
  "null_ins null value off = (if null then [ins TBool (VBool (value = VNull)) off] else [])"

definition unarray :: "Field \<Rightarrow> Field" where
  "unarray f = Field (data_type f) (nullable f) False (sub_fields f) (field_name f) (name_id f)
     (indices f) (field_offset f)"

text \<open>The scalar part of \<^verbatim>\<open>plan_write_field\<close>, after the null byte.\<close>

definition plan_scalar :: "'p Lib \<Rightarrow> nat \<Rightarrow> Field \<Rightarrow> 'p Value \<Rightarrow> 'p planned" where
  "plan_scalar L off f value =
     (if \<not> nullable f \<and> value = VNull then Err (WE_DataMismatchSchema f value)
      else if value \<noteq> VNull
           then Ok (off + get_vsize L (data_type f) value, [ins (data_type f) value off])
           else Ok (off, []))"

definition field_meas :: "Field \<Rightarrow> nat" where
  "field_meas f = 2 * size f + (if is_array f then 1 else 0)"

lemma size_sub_fields: "sub_fields f = Some fs \<Longrightarrow> size_list size fs < size f"
  by (cases f) auto

lemma field_meas_subs: "sub_fields f = Some fs \<Longrightarrow> 2 * size_list size fs < field_meas f"
  using size_sub_fields by (fastforce simp: field_meas_def)

lemma field_meas_Cons [simp]: "field_meas f < 2 * size_list size (f # fs)"
  by (simp add: field_meas_def)

lemma field_meas_unarray: "is_array f \<Longrightarrow> field_meas (unarray f) < field_meas f"
  by (cases f) (simp add: field_meas_def unarray_def)

text \<open>\<^verbatim>\<open>plan_write_field\<close> with the loops over sub-fields and array elements. The
  second and third branches differ in the offset the instructions go to: the tail, which moves,
  or the field's own static slot, which does not move the tail.\<close>

function (sequential) plan_write_field ::
    "'p Lib \<Rightarrow> nat \<Rightarrow> Field \<Rightarrow> 'p Value \<Rightarrow> bool \<Rightarrow> 'p planned"
  and plan_at :: "'p Lib \<Rightarrow> nat \<Rightarrow> Field \<Rightarrow> 'p Value \<Rightarrow> 'p planned"
  and plan_subs :: "'p Lib \<Rightarrow> nat \<Rightarrow> Field list \<Rightarrow> (u64 \<times> 'p Value) list \<Rightarrow> bool \<Rightarrow> 'p planned"
  and plan_elems :: "'p Lib \<Rightarrow> nat \<Rightarrow> Field \<Rightarrow> 'p Value list \<Rightarrow> 'p planned"
where
  "plan_write_field L tail f value isv =
     (case sub_fields f of
        Some subs \<Rightarrow>
          (case value of
             VArray _ \<Rightarrow>
               if \<not> is_array f then Err (WE_DataMismatchSchema f value)
               else res_bind (jump_ins isv (field_offset f) tail) (\<lambda>js. emit js (plan_at L tail f value))
           | VMap _ kv \<Rightarrow> plan_subs L tail subs kv isv
           | _ \<Rightarrow> Err (WE_DataMismatchSchema f value))
      | None \<Rightarrow>
          if is_var L f
          then res_bind (jump_ins isv (field_offset f) tail) (\<lambda>js. emit js (plan_at L tail f value))
          else if \<not> isv
          then res_bind (unwrap (field_offset f)) (\<lambda>so.
                 res_bind (plan_at L so f value) (\<lambda>(_, js). Ok (tail, js)))
          else plan_at L tail f value)"
| "plan_at L off f value =
     (let nis = null_ins (nullable f) value off;
          off1 = off + (if nullable f then 1 else 0)
      in emit nis
        (if is_array f
         then (case value of
             VArray vs \<Rightarrow>
               emit [ins TU32 (VU32 (of_nat (length vs))) off1]
                 (plan_elems L (off1 + size_of_type L TU32) (unarray f) vs)
           | VPrimArray p \<Rightarrow>
               (let off2 = off1 + size_of_type L TU32
                in Ok (off2 + prim_size L p,
                       [ins TU32 (VU32 (of_nat (prim_len L p))) off1, ins (data_type f) value off2]))
           | _ \<Rightarrow> Err (WE_DataMismatchSchema f value))
         else plan_scalar L off1 f value))"
| "plan_subs L tail [] kv isv = Ok (tail, [])"
| "plan_subs L tail (f # fs) kv isv =
     res_bind (plan_write_field L tail f (get_by_key_id kv (name_id f)) isv)
       (\<lambda>(t, js). emit js (plan_subs L t fs kv isv))"
| "plan_elems L off f [] = Ok (off, [])"
| "plan_elems L off f (v # vs) =
     res_bind (plan_write_field L off f v True) (\<lambda>(t, js). emit js (plan_elems L t f vs))"
  by pat_completeness auto

termination
proof (relation "measures [
    \<lambda>x. case x of Inl (Inl (L, t, f, v, i)) \<Rightarrow> field_meas f
                | Inl (Inr (L, t, f, v)) \<Rightarrow> field_meas f
                | Inr (Inl (L, t, fs, kv, i)) \<Rightarrow> 2 * size_list size fs
                | Inr (Inr (L, t, f, vs)) \<Rightarrow> field_meas f,
    \<lambda>x. case x of Inl (Inl (L, t, f, v, i)) \<Rightarrow> 1
                | Inl (Inr (L, t, f, v)) \<Rightarrow> 0
                | Inr (Inl (L, t, fs, kv, i)) \<Rightarrow> length fs
                | Inr (Inr (L, t, f, vs)) \<Rightarrow> 2 + length vs]")
qed (use field_meas_Cons in \<open>auto simp: field_meas_unarray field_meas_subs simp del: field_meas_Cons\<close>)

declare plan_write_field.simps [simp del] plan_at.simps [simp del]

text \<open>Dynamic fields: the type code, then the value.\<close>

definition ARRAY_TYPE_MASK :: u8 where "ARRAY_TYPE_MASK = 0x80"
definition NULL_PLACEHOLDER :: u8 where "NULL_PLACEHOLDER = 0x40"

lemma size_map_of:
  "map_of kv k = Some v \<Longrightarrow> size v < Suc (size_list (size_prod (\<lambda>x. 0) size) kv)"
  by (induction kv) (auto split: if_splits)

function (sequential) plan_write_dynamic_value :: "'p Lib \<Rightarrow> nat \<Rightarrow> 'p Value \<Rightarrow> 'p planned"
  and plan_write_dynamic_map ::
    "'p Lib \<Rightarrow> nat \<Rightarrow> string list \<Rightarrow> (u64 \<times> 'p Value) list \<Rightarrow> 'p planned"
  and plan_dynamic_pairs ::
    "'p Lib \<Rightarrow> nat \<Rightarrow> string list \<Rightarrow> (u64 \<times> 'p Value) list \<Rightarrow> 'p planned"
  and plan_dynamic_elems :: "'p Lib \<Rightarrow> nat \<Rightarrow> 'p Value list \<Rightarrow> 'p planned"
where
  "plan_write_dynamic_value L off (VArray vs) =
     (let off1 = off + size_of_type L TU8
      in emit [ins TU8 (VU8 ARRAY_TYPE_MASK) off, ins TU32 (VU32 (of_nat (length vs))) off1]
           (plan_dynamic_elems L (off1 + size_of_type L TU32) vs))"
| "plan_write_dynamic_value L off (VPrimArray p) =
     (let bt = base_type L (VPrimArray p);
          off1 = off + size_of_type L TU8;
          off2 = off1 + size_of_type L TU32
      in Ok (off2 + prim_size L p,
             [ins TU8 (VU8 (ARRAY_TYPE_MASK OR type_id L bt)) off,
              ins TU32 (VU32 (of_nat (prim_len L p))) off1, ins bt (VPrimArray p) off2]))"
| "plan_write_dynamic_value L off (VMap names kv) = plan_write_dynamic_map L off names kv"
| "plan_write_dynamic_value L off VNull =
     Ok (off + size_of_type L TU8, [ins TU8 (VU8 NULL_PLACEHOLDER) off])"
| "plan_write_dynamic_value L off VNA =
     Ok (off + size_of_type L TU8, [ins TU8 (VU8 NULL_PLACEHOLDER) off])"
| "plan_write_dynamic_value L off v =
     (let ty = base_type L v;
          off1 = off + size_of_type L TU8
      in Ok (off1 + get_vsize L ty v, [ins TU8 (VU8 (type_id L ty)) off, ins ty v off1]))"
| "plan_write_dynamic_map L off names kv =
     (let off1 = off + size_of_type L TU8
      in emit [ins TU8 (VU8 (type_id L TMap)) off, ins TU32 (VU32 (of_nat (length names))) off1]
           (plan_dynamic_pairs L (off1 + size_of_type L TU32) names kv))"
| "plan_dynamic_pairs L off [] kv = Ok (off, [])"
| "plan_dynamic_pairs L off (n # names) kv =
     (let nv = VString n;
          off1 = off + get_vsize L (base_type L nv) nv
      in emit [ins (base_type L nv) nv off]
           (case map_of kv (key_hash L n) of
              None \<Rightarrow> Panic
            | Some v \<Rightarrow> res_bind (plan_write_dynamic_value L off1 v)
                (\<lambda>(t, js). emit js (plan_dynamic_pairs L t names kv))))"
| "plan_dynamic_elems L off [] = Ok (off, [])"
| "plan_dynamic_elems L off (v # vs) =
     res_bind (plan_write_dynamic_value L off v) (\<lambda>(t, js). emit js (plan_dynamic_elems L t vs))"
  by pat_completeness auto
termination
proof (relation "measures [
    \<lambda>x. case x of Inl (Inl (L, t, v)) \<Rightarrow> 2 * size v
                | Inl (Inr (L, t, names, kv)) \<Rightarrow> Suc (2 * size_list (size_prod (\<lambda>x. 0) size) kv)
                | Inr (Inl (L, t, names, kv)) \<Rightarrow> Suc (2 * size_list (size_prod (\<lambda>x. 0) size) kv)
                | Inr (Inr (L, t, vs)) \<Rightarrow> Suc (2 * size_list size vs),
    \<lambda>x. case x of Inl (Inl (L, t, v)) \<Rightarrow> 0
                | Inl (Inr (L, t, names, kv)) \<Rightarrow> Suc (length names)
                | Inr (Inl (L, t, names, kv)) \<Rightarrow> length names
                | Inr (Inr (L, t, vs)) \<Rightarrow> length vs]")
qed (auto dest: size_map_of)

definition plan_write_dynamic_fields :: "'p Lib \<Rightarrow> nat \<Rightarrow> Field \<Rightarrow> 'p Value \<Rightarrow> 'p planned" where
  "plan_write_dynamic_fields L off f value =
     (case (value, sub_fields f) of
        (VMap names kv, Some fs) \<Rightarrow>
          (let schema_keys = set (map name_id fs);
               dynamic_map = filter (\<lambda>(k, _). k \<notin> schema_keys) kv;
               dynamic_names = filter (\<lambda>n. map_of dynamic_map (key_hash L n) \<noteq> None) names
           in plan_write_dynamic_map L off dynamic_names dynamic_map)
      | _ \<Rightarrow> Ok (off, []))"

definition execute_plan :: "'p Lib \<Rightarrow> addr \<Rightarrow> 'p Instruction list \<Rightarrow> mem \<Rightarrow> mem" where
  "execute_plan L ptr is m =
     foldl (\<lambda>m i. set_val L (ins_type i) (ins_val i) (ptr + ins_offset i) m) m is"

section \<open>The reader\<close>

definition read_u32_io :: "'p Lib \<Rightarrow> mem \<Rightarrow> addr \<Rightarrow> u32 option" where
  "read_u32_io L m a = (case get_shared_val L TU32 m a of VU32 w \<Rightarrow> Some w | _ \<Rightarrow> None)"

definition read_bool_io :: "'p Lib \<Rightarrow> mem \<Rightarrow> addr \<Rightarrow> bool option" where
  "read_bool_io L m a = (case get_shared_val L TBool m a of VBool b \<Rightarrow> Some b | _ \<Rightarrow> None)"

definition read_u8_io :: "'p Lib \<Rightarrow> mem \<Rightarrow> addr \<Rightarrow> u8 option" where
  "read_u8_io L m a = (case get_shared_val L TU8 m a of VU8 b \<Rightarrow> Some b | _ \<Rightarrow> None)"

definition read_string_io :: "'p Lib \<Rightarrow> mem \<Rightarrow> addr \<Rightarrow> string option" where
  "read_string_io L m a = (case get_shared_val L TString m a of VString s \<Rightarrow> Some s | _ \<Rightarrow> None)"

text \<open>\<^verbatim>\<open>read_field\<close>: \<open>read_at\<close> is its part behind the choice of the offset it
  works on, which is the tail or the field's own slot. The result carries the tail as the caller
  sees it afterwards.\<close>

function (sequential) read_field ::
    "'p Lib \<Rightarrow> mem \<Rightarrow> addr \<Rightarrow> Field \<Rightarrow> bool \<Rightarrow> nat \<Rightarrow> ('p Value \<times> nat) option"
  and read_at :: "'p Lib \<Rightarrow> mem \<Rightarrow> addr \<Rightarrow> Field \<Rightarrow> bool \<Rightarrow> nat \<Rightarrow> ('p Value \<times> nat) option"
  and read_subs ::
    "'p Lib \<Rightarrow> mem \<Rightarrow> addr \<Rightarrow> Field list \<Rightarrow> bool \<Rightarrow> nat \<Rightarrow> (u64 \<times> 'p Value) list
       \<Rightarrow> ((u64 \<times> 'p Value) list \<times> nat) option"
  and read_elems ::
    "'p Lib \<Rightarrow> mem \<Rightarrow> addr \<Rightarrow> Field \<Rightarrow> nat \<Rightarrow> nat \<Rightarrow> ('p Value list \<times> nat) option"
where
  "read_field L m bp f isv tail =
     (if isv then read_at L m bp f isv tail
      else if \<not> is_var L f
      then map_option (\<lambda>(v, _). (v, tail))
             (read_at L m bp f isv (case field_offset f of Some off \<Rightarrow> off | None \<Rightarrow> 0))
      else (case field_offset f of
              None \<Rightarrow> None
            | Some off \<Rightarrow>
                (case read_u32_io L m (bp + off) of
                   None \<Rightarrow> None
                 | Some w \<Rightarrow> read_at L m bp f isv (unat w))))"
| "read_at L m bp f isv off =
     (case (if nullable f then read_bool_io L m (bp + off) else Some False) of
        None \<Rightarrow> None
      | Some null_byte \<Rightarrow>
          (let off1 = off + (if nullable f then 1 else 0)
           in if null_byte then Some (VNull, off1)
              else if is_array f
              then (case read_u32_io L m (bp + off1) of
                      None \<Rightarrow> None
                    | Some len \<Rightarrow>
                        (let off2 = off1 + size_of_type L TU32
                         in if sub_fields f = None
                            then (case get_shared_prim_array_val L (data_type f) (unat len) m (bp + off2) of
                                    None \<Rightarrow> None
                                  | Some (p, ptr) \<Rightarrow> Some (VPrimArray p, ptr - bp))
                            else map_option (\<lambda>(vs, t). (VArray vs, t))
                                   (read_elems L m bp (unarray f) (unat len) off2)))
              else (case sub_fields f of
                      Some subs \<Rightarrow>
                        map_option (\<lambda>(kv, t). (VMap (map field_name subs) kv, t))
                          (read_subs L m bp subs isv off1 [])
                    | None \<Rightarrow>
                        Some (get_shared_val L (data_type f) m (bp + off1),
                              off1 + get_size L (data_type f) m (bp + off1)))))"
| "read_subs L m bp [] isv tail kv = Some (kv, tail)"
| "read_subs L m bp (f # fs) isv tail kv =
     (case read_field L m bp f isv tail of
        None \<Rightarrow> None
      | Some (v, t) \<Rightarrow> read_subs L m bp fs isv t (AList.update (name_id f) v kv))"
| "read_elems L m bp f 0 tail = Some ([], tail)"
| "read_elems L m bp f (Suc n) tail =
     (case read_field L m bp f True tail of
        None \<Rightarrow> None
      | Some (v, t) \<Rightarrow> map_option (\<lambda>(vs, t'). (v # vs, t')) (read_elems L m bp f n t))"
  by pat_completeness auto
termination
proof (relation "measures [
    \<lambda>x. case x of Inl (Inl (L, m, b, f, i, t)) \<Rightarrow> field_meas f
                | Inl (Inr (L, m, b, f, i, t)) \<Rightarrow> field_meas f
                | Inr (Inl (L, m, b, fs, i, t, kv)) \<Rightarrow> 2 * size_list size fs
                | Inr (Inr (L, m, b, f, n, t)) \<Rightarrow> field_meas f,
    \<lambda>x. case x of Inl (Inl (L, m, b, f, i, t)) \<Rightarrow> 1
                | Inl (Inr (L, m, b, f, i, t)) \<Rightarrow> 0
                | Inr (Inl (L, m, b, fs, i, t, kv)) \<Rightarrow> length fs
                | Inr (Inr (L, m, b, f, n, t)) \<Rightarrow> 2 + n]")
qed (use field_meas_Cons in \<open>auto simp: field_meas_unarray field_meas_subs simp del: field_meas_Cons\<close>)

declare read_field.simps [simp del] read_at.simps [simp del]

text \<open>\<^verbatim>\<open>read_dynamic_value\<close>, with fuel for the depth of the nesting it finds.\<close>

fun read_dynamic_value :: "'p Lib \<Rightarrow> nat \<Rightarrow> mem \<Rightarrow> addr \<Rightarrow> ('p Value \<times> addr) option"
  and read_dynamic_elems :: "'p Lib \<Rightarrow> nat \<Rightarrow> mem \<Rightarrow> nat \<Rightarrow> addr \<Rightarrow> ('p Value list \<times> addr) option"
  and read_dynamic_pairs ::
    "'p Lib \<Rightarrow> nat \<Rightarrow> mem \<Rightarrow> nat \<Rightarrow> addr \<Rightarrow> ((string \<times> 'p Value) list \<times> addr) option"
where
  "read_dynamic_value L 0 m ptr = None"
| "read_dynamic_value L (Suc fuel) m ptr =
     (case read_u8_io L m ptr of
        None \<Rightarrow> None
      | Some tid \<Rightarrow>
          (let is_arr = (tid AND ARRAY_TYPE_MASK = ARRAY_TYPE_MASK);
               ptr1 = ptr + size_of_type L TU8
           in if is_arr
              then (let bt = tid AND NOT ARRAY_TYPE_MASK
                    in case read_u32_io L m ptr1 of
                         None \<Rightarrow> None
                       | Some len \<Rightarrow>
                           (let ptr2 = ptr1 + size_of_type L TU32
                            in if bt \<noteq> type_id L TMap
                               then map_option (\<lambda>(p, q). (VPrimArray p, q))
                                      (get_shared_prim_array_val L (type_from_id L bt) (unat len) m ptr2)
                               else map_option (\<lambda>(vs, q). (VArray vs, q))
                                      (read_dynamic_elems L fuel m (unat len) ptr2)))
              else if tid = type_id L TMap
              then (case read_u32_io L m ptr1 of
                      None \<Rightarrow> None
                    | Some len \<Rightarrow>
                        map_option (\<lambda>(ps, q).
                            (VMap (map fst ps)
                               (foldl (\<lambda>kv (n, v). AList.update (key_hash L n) v kv) [] ps), q))
                          (read_dynamic_pairs L fuel m (unat len) (ptr1 + size_of_type L TU32)))
              else if tid = NULL_PLACEHOLDER then Some (VNull, ptr1)
              else (let ty = type_from_id L tid
                    in Some (get_shared_val L ty m ptr1, ptr1 + get_size L ty m ptr1))))"
| "read_dynamic_elems L fuel m 0 ptr = Some ([], ptr)"
| "read_dynamic_elems L 0 m (Suc n) ptr = None"
| "read_dynamic_elems L (Suc fuel) m (Suc n) ptr =
     (case read_dynamic_value L fuel m ptr of
        None \<Rightarrow> None
      | Some (v, q) \<Rightarrow> map_option (\<lambda>(vs, r). (v # vs, r)) (read_dynamic_elems L fuel m n q))"
| "read_dynamic_pairs L fuel m 0 ptr = Some ([], ptr)"
| "read_dynamic_pairs L 0 m (Suc n) ptr = None"
| "read_dynamic_pairs L (Suc fuel) m (Suc n) ptr =
     (case read_string_io L m ptr of
        None \<Rightarrow> None
      | Some nm \<Rightarrow>
          (case read_dynamic_value L fuel m (ptr + get_size L TString m ptr) of
             None \<Rightarrow> None
           | Some (v, q) \<Rightarrow>
               map_option (\<lambda>(ps, r). ((nm, v) # ps, r)) (read_dynamic_pairs L fuel m n q)))"

definition read_attach_dynamic_part ::
  "'p Lib \<Rightarrow> nat \<Rightarrow> mem \<Rightarrow> addr \<Rightarrow> 'p Value \<Rightarrow> 'p Value option" where
  "read_attach_dynamic_part L fuel m tail_ptr dest =
     (case read_dynamic_value L fuel m tail_ptr of
        None \<Rightarrow> None
      | Some (src, _) \<Rightarrow>
          Some (case (dest, src) of
                  (VMap names kv, VMap names' kv') \<Rightarrow>
                    VMap (names @ names') (foldl (\<lambda>kv (k, v). AList.update k v kv) kv kv')
                | _ \<Rightarrow> dest))"

definition read_by_schema :: "'p Lib \<Rightarrow> nat \<Rightarrow> mem \<Rightarrow> addr \<Rightarrow> Schema \<Rightarrow> 'p Value option" where
  "read_by_schema L fuel m ptr sch =
     (case read_field L m ptr (schema_fields sch) False (static_bound sch) of
        None \<Rightarrow> None
      | Some (v, tail) \<Rightarrow>
          if is_dynamic sch then read_attach_dynamic_part L fuel m (ptr + tail) v else Some v)"

text \<open>\<^verbatim>\<open>read_by_schema_selected\<close>: \<open>find_selected\<close> follows an index path and stops at
  the last field it can reach; the loop shares one tail offset.\<close>

fun find_selected :: "Field \<Rightarrow> nat list \<Rightarrow> Field" where
  "find_selected f [] = f"
| "find_selected f (i # p) =
     (case sub_fields f of
        Some fs \<Rightarrow> if i < length fs then find_selected (fs ! i) p else f
      | None \<Rightarrow> f)"

definition select_field :: "Schema \<Rightarrow> Field list \<Rightarrow> u64 \<Rightarrow> Field option" where
  "select_field sch schema_subs k =
     (case field_index sch k of
        Some (i # p) \<Rightarrow> if i < length schema_subs then Some (find_selected (schema_subs ! i) p) else None
      | _ \<Rightarrow> None)"

fun read_selected_fields ::
  "'p Lib \<Rightarrow> mem \<Rightarrow> addr \<Rightarrow> Schema \<Rightarrow> Field list \<Rightarrow> u64 list \<Rightarrow> nat \<Rightarrow> 'p Value list option" where
  "read_selected_fields L m ptr sch subs [] tail = Some []"
| "read_selected_fields L m ptr sch subs (k # ks) tail =
     (case select_field sch subs k of
        None \<Rightarrow> map_option ((#) VNull) (read_selected_fields L m ptr sch subs ks tail)
      | Some f \<Rightarrow>
          (case read_field L m ptr f False tail of
             None \<Rightarrow> None
           | Some (v, t) \<Rightarrow> map_option ((#) v) (read_selected_fields L m ptr sch subs ks t)))"

definition read_by_schema_selected ::
  "'p Lib \<Rightarrow> nat \<Rightarrow> mem \<Rightarrow> addr \<Rightarrow> Schema \<Rightarrow> u64 list \<Rightarrow> 'p Value option" where
  "read_by_schema_selected L fuel m ptr sch ks =
     (if ks = [] then read_by_schema L fuel m ptr sch
      else case sub_fields (schema_fields sch) of
             None \<Rightarrow> Some VNull
           | Some subs \<Rightarrow>
               (case ks of
                  [k] \<Rightarrow> (case select_field sch subs k of
                            None \<Rightarrow> Some (VArray [VNull])
                          | Some f \<Rightarrow> map_option fst (read_field L m ptr f False (static_bound sch)))
                | _ \<Rightarrow> map_option VArray
                         (read_selected_fields L m ptr sch subs ks (static_bound sch))))"

section \<open>What the code relies on of the value library\<close>

text \<open>Each pair of a type code and a value of that type (\<open>wt\<close>; \<open>wta\<close> for primitive
  arrays) has an encoding \<open>enc\<close>, which \<^verbatim>\<open>set_val\<close> stores and the getters read
  back from any memory that holds it.\<close>

definition types_ok ::
  "'p Lib \<Rightarrow> (Type \<Rightarrow> 'p Value \<Rightarrow> bytes) \<Rightarrow> (Type \<Rightarrow> 'p Value \<Rightarrow> bool) \<Rightarrow> (Type \<Rightarrow> 'p \<Rightarrow> bool)
     \<Rightarrow> bool" where
  "types_ok L enc wt wta =
     ((\<forall>ty v a m. set_val L ty v a m = store_bytes m a (enc ty v)) \<and>
      (\<forall>ty v. wt ty v \<longrightarrow> v \<noteq> VNull \<and> length (enc ty v) = get_vsize L ty v \<and>
         (fixed_size L ty \<longrightarrow> get_vsize L ty v = size_of_type L ty) \<and>
         (\<forall>m a. load_bytes m a (length (enc ty v)) = enc ty v \<longrightarrow>
            get_shared_val L ty m a = v \<and> get_size L ty m a = get_vsize L ty v)) \<and>
      (\<forall>ty p. wta ty p \<longrightarrow> length (enc ty (VPrimArray p)) = prim_size L p \<and>
         (\<forall>m a. load_bytes m a (prim_size L p) = enc ty (VPrimArray p) \<longrightarrow>
            get_shared_prim_array_val L ty (prim_len L p) m a = Some (p, a + prim_size L p))) \<and>
      (\<forall>w. wt TU32 (VU32 w)) \<and> (\<forall>b. wt TBool (VBool b)) \<and> (\<forall>b. wt TU8 (VU8 b)) \<and>
      fixed_size L TU32 \<and> fixed_size L TBool \<and> fixed_size L TU8 \<and>
      size_of_type L TU32 = 4 \<and> size_of_type L TBool = 1 \<and> size_of_type L TU8 = 1 \<and>
      (\<forall>m a. \<exists>w. get_shared_val L TU32 m a = VU32 w))"

lemma types_okD:
  assumes "types_ok L enc wt wta"
  shows types_ok_set: "set_val L ty v a m = store_bytes m a (enc ty v)"
    and types_ok_len: "wt ty v \<Longrightarrow> length (enc ty v) = get_vsize L ty v"
    and types_ok_nonnull: "wt ty v \<Longrightarrow> v \<noteq> VNull"
    and types_ok_fixed: "wt ty v \<Longrightarrow> fixed_size L ty \<Longrightarrow> get_vsize L ty v = size_of_type L ty"
    and types_ok_get: "wt ty v \<Longrightarrow> load_bytes m a (length (enc ty v)) = enc ty v \<Longrightarrow>
      get_shared_val L ty m a = v \<and> get_size L ty m a = get_vsize L ty v"
    and types_ok_arr_len: "wta ty p \<Longrightarrow> length (enc ty (VPrimArray p)) = prim_size L p"
    and types_ok_arr_get: "wta ty p \<Longrightarrow> load_bytes m a (prim_size L p) = enc ty (VPrimArray p) \<Longrightarrow>
      get_shared_prim_array_val L ty (prim_len L p) m a = Some (p, a + prim_size L p)"
    and types_ok_wt: "wt TU32 (VU32 w)" "wt TBool (VBool b)" "wt TU8 (VU8 c)"
    and types_ok_sizes: "size_of_type L TU32 = 4" "size_of_type L TBool = 1" "size_of_type L TU8 = 1"
    and types_ok_small: "fixed_size L TU32" "fixed_size L TBool" "fixed_size L TU8"
  using assms unfolding types_ok_def by blast+

lemma types_ok_u32_total:
  assumes "types_ok L enc wt wta"
  shows "\<exists>w. read_u32_io L m a = Some w"
proof -
  from assms have "\<exists>w. get_shared_val L TU32 m a = VU32 w" by (simp add: types_ok_def)
  then show ?thesis by (auto simp: read_u32_io_def)
qed

section \<open>Values that conform to a field\<close>

text \<open>The values a field can hold without loss: arrays of maps and maps are not nullable, maps
  list exactly the sub-fields in order, primitive fields hold a value of their type or null when
  nullable.\<close>

function (sequential) conforms ::
    "(Type \<Rightarrow> 'p Value \<Rightarrow> bool) \<Rightarrow> (Type \<Rightarrow> 'p \<Rightarrow> bool) \<Rightarrow> ('p \<Rightarrow> nat) \<Rightarrow> Field \<Rightarrow> 'p Value \<Rightarrow> bool"
  and conforms_subs ::
    "(Type \<Rightarrow> 'p Value \<Rightarrow> bool) \<Rightarrow> (Type \<Rightarrow> 'p \<Rightarrow> bool) \<Rightarrow> ('p \<Rightarrow> nat) \<Rightarrow> Field list
       \<Rightarrow> (u64 \<times> 'p Value) list \<Rightarrow> bool"
  and conforms_elems ::
    "(Type \<Rightarrow> 'p Value \<Rightarrow> bool) \<Rightarrow> (Type \<Rightarrow> 'p \<Rightarrow> bool) \<Rightarrow> ('p \<Rightarrow> nat) \<Rightarrow> Field
       \<Rightarrow> 'p Value list \<Rightarrow> bool"
where
  "conforms wt wta plen f v =
     (case sub_fields f of
        Some subs \<Rightarrow>
          \<not> nullable f \<and>
          (if is_array f
           then (case v of VArray vs \<Rightarrow> length vs < 2 ^ 32 \<and> conforms_elems wt wta plen (unarray f) vs
                 | _ \<Rightarrow> False)
           else (case v of
                   VMap names kv \<Rightarrow> names = map field_name subs \<and> distinct (map name_id subs) \<and>
                     conforms_subs wt wta plen subs kv
                 | _ \<Rightarrow> False))
      | None \<Rightarrow>
          if is_array f
          then (case v of VPrimArray p \<Rightarrow> wta (data_type f) p \<and> plen p < 2 ^ 32 | _ \<Rightarrow> False)
          else (v = VNull \<and> nullable f) \<or> wt (data_type f) v)"
| "conforms_subs wt wta plen [] kv = (kv = [])"
| "conforms_subs wt wta plen (f # fs) kv =
     (case kv of
        [] \<Rightarrow> False
      | (k, v) # r \<Rightarrow> k = name_id f \<and> conforms wt wta plen f v \<and> conforms_subs wt wta plen fs r)"
| "conforms_elems wt wta plen f [] = True"
| "conforms_elems wt wta plen f (v # vs) = (conforms wt wta plen f v \<and> conforms_elems wt wta plen f vs)"
  by pat_completeness auto
termination
proof (relation "measures [
    \<lambda>x. case x of Inl (wt, wta, plen, f, v) \<Rightarrow> field_meas f
                | Inr (Inl (wt, wta, plen, fs, kv)) \<Rightarrow> 2 * size_list size fs
                | Inr (Inr (wt, wta, plen, f, vs)) \<Rightarrow> field_meas f,
    \<lambda>x. case x of Inl (wt, wta, plen, f, v) \<Rightarrow> 1
                | Inr (Inl (wt, wta, plen, fs, kv)) \<Rightarrow> length fs
                | Inr (Inr (wt, wta, plen, f, vs)) \<Rightarrow> 2 + length vs]")
qed (use field_meas_Cons in \<open>auto simp: field_meas_unarray field_meas_subs simp del: field_meas_Cons\<close>)

declare conforms.simps [simp del]

lemma conforms_subs_keys: "conforms_subs wt wta plen fs kv \<Longrightarrow> map fst kv = map name_id fs"
  by (induction fs arbitrary: kv) (auto split: list.splits)

section \<open>Lemmas: the plan\<close>

lemma emit_Ok_iff: "emit js r = Ok (t, ks) \<longleftrightarrow> (\<exists>ls. r = Ok (t, ls) \<and> ks = js @ ls)"
  by (auto simp: emit_def res_bind_Ok_iff)

lemma jump_ins_Ok_iff:
  "jump_ins isv off tail = Ok js \<longleftrightarrow>
     (if isv then js = [] else \<exists>so. off = Some so \<and> js = [ins TU32 (VU32 (of_nat tail)) so])"
  by (auto simp: jump_ins_def res_bind_Ok_iff)

lemma plan_scalar_mono: "plan_scalar L off f v = Ok (t, is) \<Longrightarrow> off \<le> t"
  by (auto simp: plan_scalar_def split: if_splits)

lemmas plan_Ok_iffs = emit_Ok_iff jump_ins_Ok_iff res_bind_Ok_iff

lemma plan_tail_mono:
  "plan_write_field L tail f v isv = Ok (t, js) \<Longrightarrow> tail \<le> t"
  "plan_at L tail f v = Ok (t, js) \<Longrightarrow> tail \<le> t"
  "plan_subs L tail fs kv isv = Ok (t, js) \<Longrightarrow> tail \<le> t"
  "plan_elems L tail f vs = Ok (t, js) \<Longrightarrow> tail \<le> t"
proof (induction L tail f v isv and L tail f v and L tail fs kv isv and L tail f vs
    arbitrary: t js and t js and t js and t js
    rule: plan_write_field_plan_at_plan_subs_plan_elems.induct)
  case (1 L tail f v isv)
  from 1(6) show ?case
    by (subst (asm) plan_write_field.simps)
       (fastforce simp: plan_Ok_iffs split: option.splits Value.splits if_splits dest: 1(1-5))
next
  case (2 L off f v)
  from 2(2) show ?case
    by (subst (asm) plan_at.simps)
       (fastforce simp: plan_Ok_iffs Let_def split: Value.splits if_splits
         dest: 2(1) [OF refl refl] plan_scalar_mono)
qed (force simp: plan_Ok_iffs intro: le_trans)+

section \<open>Lemmas: reading what a plan wrote\<close>

text \<open>A memory holds a plan when every instruction's bytes are at its offset.\<close>

definition ins_bytes :: "(Type \<Rightarrow> 'p Value \<Rightarrow> bytes) \<Rightarrow> 'p Instruction \<Rightarrow> bytes" where
  "ins_bytes enc i = enc (ins_type i) (ins_val i)"

definition holds :: "(Type \<Rightarrow> 'p Value \<Rightarrow> bytes) \<Rightarrow> mem \<Rightarrow> addr \<Rightarrow> 'p Instruction list \<Rightarrow> bool" where
  "holds enc m bp js = (\<forall>i \<in> set js.
     load_bytes m (bp + ins_offset i) (length (ins_bytes enc i)) = ins_bytes enc i)"

lemma holds_simps [simp]:
  "holds enc m bp []"
  "holds enc m bp (i # js) \<longleftrightarrow>
     load_bytes m (bp + ins_offset i) (length (ins_bytes enc i)) = ins_bytes enc i \<and> holds enc m bp js"
  "holds enc m bp (js @ ks) \<longleftrightarrow> holds enc m bp js \<and> holds enc m bp ks"
  by (auto simp: holds_def)

lemma ins_simps [simp]:
  "ins_offset (ins ty v off) = off" "ins_bytes enc (ins ty v off) = enc ty v"
  by (simp_all add: ins_def ins_bytes_def)

lemma held_u32:
  assumes "types_ok L enc wt wta"
    and "load_bytes m a (length (enc TU32 (VU32 w))) = enc TU32 (VU32 w)"
  shows "read_u32_io L m a = Some w"
  using types_ok_get [OF assms(1) types_ok_wt(1) [OF assms(1)] assms(2)]
  by (simp add: read_u32_io_def)

lemma held_bool:
  assumes "types_ok L enc wt wta"
    and "load_bytes m a (length (enc TBool (VBool b))) = enc TBool (VBool b)"
  shows "read_bool_io L m a = Some b"
  using types_ok_get [OF assms(1) types_ok_wt(2) [OF assms(1)] assms(2)]
  by (simp add: read_bool_io_def)

lemma read_null_byte:
  assumes "types_ok L enc wt wta" and "holds enc m bp (null_ins (nullable f) v off)"
  shows "(if nullable f then read_bool_io L m (bp + off) else Some False) =
    Some (nullable f \<and> v = VNull)"
  using assms by (auto simp: null_ins_def split: if_splits intro: held_bool)

text \<open>The two parts of \<open>read_at\<close> for fields without sub-fields.\<close>

lemma read_at_scalar:
  assumes T: "types_ok L enc wt wta" and f: "sub_fields f = None" "\<not> is_array f"
    and c: "conforms wt wta plen f v" and p: "plan_at L off f v = Ok (t, js)"
    and h: "holds enc m bp js"
  shows "read_at L m bp f isv off = Some (v, t)"
proof -
  let ?off = "off + (if nullable f then 1 else 0)"
  obtain ks where ks: "plan_scalar L ?off f v = Ok (t, ks)" "js = null_ins (nullable f) v off @ ks"
    using p f by (subst (asm) plan_at.simps) (auto simp: Let_def emit_Ok_iff)
  have null: "(if nullable f then read_bool_io L m (bp + off) else Some False) =
      Some (nullable f \<and> v = VNull)"
    using read_null_byte [OF T] h ks(2) by auto
  show ?thesis
  proof (cases "v = VNull")
    case True
    then show ?thesis using ks(1) null f
      by (subst read_at.simps) (auto simp: plan_scalar_def Let_def split: if_splits)
  next
    case False
    then have wt: "wt (data_type f) v" using c f by (simp add: conforms.simps)
    have "t = ?off + get_vsize L (data_type f) v" "ks = [ins (data_type f) v ?off]"
      using ks(1) False by (auto simp: plan_scalar_def split: if_splits)
    then show ?thesis using types_ok_get [OF T wt, of m "bp + ?off"] h ks(2) null f False
      by (subst read_at.simps) (auto simp: Let_def add.assoc split: if_splits)
  qed
qed

lemma read_at_prim_array:
  assumes T: "types_ok L enc wt wta" and f: "sub_fields f = None" "is_array f"
    and c: "conforms wt wta (prim_len L) f v" and p: "plan_at L off f v = Ok (t, js)"
    and h: "holds enc m bp js"
  shows "read_at L m bp f isv off = Some (v, t)"
proof -
  obtain q where v: "v = VPrimArray q" and q: "wta (data_type f) q" "prim_len L q < 2 ^ 32"
    using c f by (auto simp: conforms.simps split: Value.splits)
  let ?off = "off + (if nullable f then 1 else 0)"
  have js: "js = null_ins (nullable f) v off @
        [ins TU32 (VU32 (of_nat (prim_len L q))) ?off, ins (data_type f) v (?off + size_of_type L TU32)]"
      "t = ?off + size_of_type L TU32 + prim_size L q"
    using p f unfolding v by (subst (asm) plan_at.simps, auto simp: Let_def emit_Ok_iff)+
  have null: "(if nullable f then read_bool_io L m (bp + off) else Some False) =
      Some (nullable f \<and> v = VNull)"
    using read_null_byte [OF T] h js(1) by auto
  have len: "read_u32_io L m (bp + ?off) = Some (of_nat (prim_len L q))"
    using h js(1) by (intro held_u32 [OF T]) simp
  have arr: "get_shared_prim_array_val L (data_type f) (prim_len L q) m
      (bp + (?off + size_of_type L TU32)) = Some (q, bp + (?off + size_of_type L TU32) + prim_size L q)"
    using h js(1) by (intro types_ok_arr_get [OF T q(1)]) (simp add: v types_ok_arr_len [OF T q(1)])
  have "unat (of_nat (prim_len L q) :: u32) = prim_len L q" using q(2) by (simp add: unat_of_nat)
  then show ?thesis using null len arr f js(2)
    by (subst read_at.simps) (simp add: v Let_def)
qed

lemma laid_out_offset: "laid_out L f lo hi \<Longrightarrow> field_offset f = Some lo"
  by (cases f) (auto simp: Let_def)

lemma laid_out_subs:
  "laid_out L f lo hi \<Longrightarrow> \<not> is_array f \<Longrightarrow> sub_fields f = Some fs \<Longrightarrow>
     laid_subs L fs (lo + null_pad L f) hi"
  by (cases f) (auto simp: Let_def)

lemma unarray_simps [simp]:
  "sub_fields (unarray f) = sub_fields f" "is_array (unarray f) = False"
  "nullable (unarray f) = nullable f" "data_type (unarray f) = data_type f"
  by (simp_all add: unarray_def)

text \<open>Reading a field through the pointer or the slot that the plan used.\<close>

lemma read_field_tail:
  assumes T: "types_ok L enc wt wta" and j: "jump_ins isv (field_offset f) tail = Ok js"
    and h: "holds enc m bp js" and t: "tail < 2 ^ 32" "isv \<Longrightarrow> t0 = tail"
    and v: "\<not> isv \<Longrightarrow> is_var L f" and r: "read_at L m bp f isv tail = Some (v, t)"
  shows "read_field L m bp f isv t0 = Some (v, t)"
proof (cases isv)
  case True
  then show ?thesis using t(2) r by (subst read_field.simps) simp
next
  case False
  then obtain so where so: "field_offset f = Some so" "js = [ins TU32 (VU32 (of_nat tail)) so]"
    using j by (auto simp: jump_ins_Ok_iff)
  have "read_u32_io L m (bp + so) = Some (of_nat tail)" using h so(2) by (intro held_u32 [OF T]) simp
  moreover have "unat (of_nat tail :: u32) = tail" using t(1) by (simp add: unat_of_nat)
  ultimately show ?thesis using False so(1) r v by (subst read_field.simps) simp
qed

lemma plan_read:
  "plan_write_field L tail f v isv = Ok (t, js) \<Longrightarrow> types_ok L enc wt wta \<Longrightarrow>
     conforms wt wta (prim_len L) f v \<Longrightarrow> holds enc m bp js \<Longrightarrow> t < 2 ^ 32 \<Longrightarrow>
     (isv \<longrightarrow> t0 = tail) \<Longrightarrow> (\<not> isv \<longrightarrow> (\<exists>lo hi. laid_out L f lo hi)) \<Longrightarrow>
     \<exists>t'. read_field L m bp f isv t0 = Some (v, t') \<and> (isv \<longrightarrow> t' = t)"
  "plan_at L tail f v = Ok (t, js) \<Longrightarrow> types_ok L enc wt wta \<Longrightarrow>
     conforms wt wta (prim_len L) f v \<Longrightarrow> is_array f \<or> sub_fields f = None \<Longrightarrow>
     holds enc m bp js \<Longrightarrow> t < 2 ^ 32 \<Longrightarrow> read_at L m bp f isv2 tail = Some (v, t)"
  "plan_subs L tail fs kv isv = Ok (t, js) \<Longrightarrow> types_ok L enc wt wta \<Longrightarrow>
     conforms_subs wt wta (prim_len L) fs kv2 \<Longrightarrow> (\<forall>(k, v) \<in> set kv2. map_of kv k = Some v) \<Longrightarrow>
     distinct (map fst (acc @ kv2)) \<Longrightarrow> holds enc m bp js \<Longrightarrow> t < 2 ^ 32 \<Longrightarrow>
     (isv \<longrightarrow> t0 = tail) \<Longrightarrow> (\<not> isv \<longrightarrow> (\<exists>lo hi. laid_subs L fs lo hi)) \<Longrightarrow>
     \<exists>t'. read_subs L m bp fs isv t0 acc = Some (acc @ kv2, t') \<and> (isv \<longrightarrow> t' = t)"
  "plan_elems L tail f vs = Ok (t, js) \<Longrightarrow> types_ok L enc wt wta \<Longrightarrow>
     conforms_elems wt wta (prim_len L) f vs \<Longrightarrow> holds enc m bp js \<Longrightarrow> t < 2 ^ 32 \<Longrightarrow>
     read_elems L m bp f (length vs) tail = Some (vs, t)"
proof (induction L tail f v isv and L tail f v and L tail fs kv isv and L tail f vs
    arbitrary: t js t0 and t js isv2 and t js t0 acc kv2 and t js
    rule: plan_write_field_plan_at_plan_subs_plan_elems.induct)
  case (1 L tail f v isv)
  note T = 1(7)
  consider (arr) subs vs where "sub_fields f = Some subs" "v = VArray vs" "is_array f"
    | (map) subs names kv where "sub_fields f = Some subs" "v = VMap names kv" "\<not> is_array f"
    | (leaf) "sub_fields f = None"
    using 1(8) by (cases "sub_fields f") (auto simp: conforms.simps split: Value.splits if_splits)
  then show ?case
  proof cases
    case arr
    then have var: "is_var L f" by (simp add: is_var_def)
    obtain js1 js2 where p: "jump_ins isv (field_offset f) tail = Ok js1"
        "plan_at L tail f v = Ok (t, js2)" "js = js1 @ js2"
      using 1(6) arr by (subst (asm) plan_write_field.simps) (auto simp: plan_Ok_iffs)
    have "read_at L m bp f isv tail = Some (v, t)"
      using 1(4) [OF arr(1,2) _ p(1,2) T 1(8)] arr p(3) 1(9,10) by simp
    moreover have "tail < 2 ^ 32" using plan_tail_mono(2) [OF p(2)] 1(10) by simp
    ultimately have "read_field L m bp f isv t0 = Some (v, t)"
      using read_field_tail [OF T p(1)] 1(9,11) p(3) var by simp
    then show ?thesis by simp
  next
    case map
    then have p: "plan_subs L tail subs kv isv = Ok (t, js)"
      using 1(6) by (subst (asm) plan_write_field.simps) simp
    have c: "\<not> nullable f" "names = map field_name subs" "distinct (map name_id subs)"
        "conforms_subs wt wta (prim_len L) subs kv"
      using 1(8) map by (auto simp: conforms.simps)
    have d: "distinct (map fst kv)" using c(3) conforms_subs_keys [OF c(4)] by simp
    have lay: "\<exists>lo hi. laid_subs L subs lo hi" if "\<not> isv"
      using 1(12) that map laid_out_subs by blast
    have rs: "\<exists>t'. read_subs L m bp subs isv u [] = Some (kv, t') \<and> (isv \<longrightarrow> t' = t)"
      if "isv \<longrightarrow> u = tail" for u
      using 1(5) [OF map(1,2) p T c(4), of "[]" u] d 1(9,10) that lay by auto
    have ra: "\<exists>t'. read_at L m bp f isv u = Some (v, t') \<and> (isv \<longrightarrow> t' = t)"
      if "isv \<longrightarrow> u = tail" for u
      using rs [OF that] c(1,2) map by (subst read_at.simps) auto
    obtain w where w: "\<not> isv \<Longrightarrow> read_u32_io L m (bp + the (field_offset f)) = Some w"
      using types_ok_u32_total [OF T] by blast
    show ?thesis
    proof (cases isv)
      case True
      then show ?thesis using ra [of t0] 1(11) by (subst read_field.simps) simp
    next
      case False
      then obtain so where "field_offset f = Some so" using 1(12) laid_out_offset by blast
      then show ?thesis using False w ra [of so] ra [of "unat w"]
        by (subst read_field.simps) auto
    qed
  next
    case leaf
    then have ra: "read_at L m bp f isv off = Some (v, t2)"
      if "plan_at L off f v = Ok (t2, js2)" "holds enc m bp js2" for off t2 js2
      using read_at_scalar [OF T leaf _ 1(8) that] read_at_prim_array [OF T leaf _ 1(8) that] by blast
    show ?thesis
    proof (cases "is_var L f \<or> isv")
      case True
      then obtain js1 js2 where p: "jump_ins isv (field_offset f) tail = Ok js1"
          "plan_at L tail f v = Ok (t, js2)" "js = js1 @ js2"
        using 1(6) leaf by (subst (asm) plan_write_field.simps)
          (auto simp: plan_Ok_iffs split: if_splits)
      have "tail < 2 ^ 32" using plan_tail_mono(2) [OF p(2)] 1(10) by simp
      then have "read_field L m bp f isv t0 = Some (v, t)"
        using read_field_tail [OF T p(1)] ra [OF p(2)] 1(9,11) p(3) True by auto
      then show ?thesis by simp
    next
      case False
      then obtain so t2 where "field_offset f = Some so" "plan_at L so f v = Ok (t2, js)"
        using 1(6) leaf by (subst (asm) plan_write_field.simps) (auto simp: plan_Ok_iffs)
      then show ?thesis using ra 1(9) False by (subst read_field.simps) simp
    qed
  qed
next
  case (2 L off f v)
  show ?case
  proof (cases "sub_fields f")
    case None
    then show ?thesis
      using read_at_scalar [OF 2(3) None _ 2(4,2,6)] read_at_prim_array [OF 2(3) None _ 2(4,2,6)] by blast
  next
    case (Some subs)
    then have arr: "is_array f" using 2(5) by simp
    obtain vs where v: "v = VArray vs" and c: "\<not> nullable f" "length vs < 2 ^ 32"
        "conforms_elems wt wta (prim_len L) (unarray f) vs"
      using 2(4) arr Some by (auto simp: conforms.simps split: Value.splits)
    obtain js2 where p: "plan_elems L (off + size_of_type L TU32) (unarray f) vs = Ok (t, js2)"
        "js = ins TU32 (VU32 (of_nat (length vs))) off # js2"
      using 2(2) arr c(1) v by (subst (asm) plan_at.simps)
        (auto simp: Let_def plan_Ok_iffs null_ins_def)
    have "read_elems L m bp (unarray f) (length vs) (off + size_of_type L TU32) = Some (vs, t)"
      using 2(1) [OF refl _ arr v] p 2(3,6,7) c by simp
    moreover have "read_u32_io L m (bp + off) = Some (of_nat (length vs))"
      using 2(6) p(2) by (intro held_u32 [OF 2(3)]) simp
    moreover have "unat (of_nat (length vs) :: u32) = length vs" using c(2) by (simp add: unat_of_nat)
    ultimately show ?thesis using arr Some c(1) v by (subst read_at.simps) simp
  qed
next
  case (3 L tail kv isv)
  then show ?case by auto
next
  case (4 L tail f fs kv isv)
  obtain v kv3 where kv2: "kv2 = (name_id f, v) # kv3"
      and c: "conforms wt wta (prim_len L) f v" "conforms_subs wt wta (prim_len L) fs kv3"
    using 4(5) by (auto split: list.splits)
  have look: "get_by_key_id kv (name_id f) = v" using 4(6) kv2 by (simp add: get_by_key_id_def)
  obtain t1 js1 js2 where p: "plan_write_field L tail f v isv = Ok (t1, js1)"
      "plan_subs L t1 fs kv isv = Ok (t, js2)" "js = js1 @ js2"
    using 4(3) look by (auto simp: plan_Ok_iffs)
  have t1: "t1 < 2 ^ 32" using plan_tail_mono(3) [OF p(2)] 4(9) by simp
  obtain u where u: "read_field L m bp f isv t0 = Some (v, u)" "isv \<longrightarrow> u = t1"
    using 4(1) [unfolded look, OF p(1) 4(4) c(1) _ t1, of t0] 4(8,10,11) p(3) by auto
  have upd: "AList.update (name_id f) v acc = acc @ [(name_id f, v)]"
    using 4(7) kv2 by (induction acc) auto
  have "\<exists>t'. read_subs L m bp fs isv u (acc @ [(name_id f, v)]) =
      Some ((acc @ [(name_id f, v)]) @ kv3, t') \<and> (isv \<longrightarrow> t' = t)"
    using 4(2) [OF _ refl p(2) 4(4) c(2), unfolded look, OF p(1), of "acc @ [(name_id f, v)]" u]
      4(6-11) kv2 p(3) u(2) by auto
  then show ?case using u(1) upd kv2 by simp
next
  case (6 L off f v vs)
  obtain t1 js1 js2 where p: "plan_write_field L off f v True = Ok (t1, js1)"
      "plan_elems L t1 f vs = Ok (t, js2)" "js = js1 @ js2"
    using 6(3) by (auto simp: plan_Ok_iffs)
  have t1: "t1 < 2 ^ 32" using plan_tail_mono(4) [OF p(2)] 6(7) by simp
  have "read_field L m bp f True off = Some (v, t1)"
    using 6(1) [OF p(1) 6(4) _ _ t1, of off] 6(5,6) p(3) by auto
  moreover have "read_elems L m bp f (length vs) t1 = Some (vs, t)"
    using 6(2) [OF p(1) refl p(2) 6(4)] 6(5-7) p(3) by auto
  ultimately show ?case by simp
qed auto

section \<open>Lemmas: a plan's instructions do not overlap\<close>

definition ins_range :: "(Type \<Rightarrow> 'p Value \<Rightarrow> bytes) \<Rightarrow> 'p Instruction \<Rightarrow> nat \<times> nat" where
  "ins_range enc i = (ins_offset i, length (ins_bytes enc i))"

definition inside :: "nat \<Rightarrow> nat \<Rightarrow> nat \<times> nat \<Rightarrow> bool" where
  "inside a b r = (a \<le> fst r \<and> fst r + snd r \<le> b)"

lemma inside_mono: "inside a b r \<Longrightarrow> a' \<le> a \<Longrightarrow> b \<le> b' \<Longrightarrow> inside a' b' r"
  by (auto simp: inside_def)

lemma inside_apart: "inside a b r \<Longrightarrow> inside c d s \<Longrightarrow> b \<le> c \<or> d \<le> a \<Longrightarrow> ranges_apart r s"
  by (auto simp: inside_def ranges_apart_def)

text \<open>Instructions that are pairwise apart, each in the static range from \<open>lo\<close> to \<open>hi\<close> or in
  the tail from \<open>a\<close> to \<open>b\<close>.\<close>

definition spread ::
  "(Type \<Rightarrow> 'p Value \<Rightarrow> bytes) \<Rightarrow> nat \<Rightarrow> nat \<Rightarrow> nat \<Rightarrow> nat \<Rightarrow> 'p Instruction list \<Rightarrow> bool" where
  "spread enc lo hi a b js = (sorted_wrt ranges_apart (map (ins_range enc) js) \<and>
     (\<forall>i \<in> set js. inside lo hi (ins_range enc i) \<or> inside a b (ins_range enc i)))"

lemma spread_Nil [simp]: "spread enc lo hi a b []"
  by (simp add: spread_def)

lemma spread_single:
  "inside lo hi (ins_range enc i) \<or> inside a b (ins_range enc i) \<Longrightarrow> spread enc lo hi a b [i]"
  by (simp add: spread_def)

lemma spread_append:
  assumes "spread enc lo mid a b js" and "spread enc mid hi b c ks"
    and "lo \<le> mid" "mid \<le> hi" "hi \<le> a" "a \<le> b" "b \<le> c"
  shows "spread enc lo hi a c (js @ ks)"
proof -
  have in1: "inside lo mid (ins_range enc i) \<or> inside a b (ins_range enc i)" if "i \<in> set js" for i
    using assms(1) that by (auto simp: spread_def)
  have in2: "inside mid hi (ins_range enc i) \<or> inside b c (ins_range enc i)" if "i \<in> set ks" for i
    using assms(2) that by (auto simp: spread_def)
  have "ranges_apart (ins_range enc i) (ins_range enc j)" if "i \<in> set js" "j \<in> set ks" for i j
    using in1 [OF that(1)] in2 [OF that(2)] assms(3-7) by (elim disjE) (auto elim!: inside_apart)
  moreover have "inside lo hi (ins_range enc i) \<or> inside a c (ins_range enc i)"
    if "i \<in> set (js @ ks)" for i
    using that in1 [of i] in2 [of i] assms(3-7) by (auto simp: inside_def)
  ultimately show ?thesis using assms(1,2) by (auto simp: spread_def sorted_wrt_append)
qed

lemma spread_mono:
  "spread enc lo hi a b js \<Longrightarrow> lo' \<le> lo \<Longrightarrow> hi \<le> hi' \<Longrightarrow> a' \<le> a \<Longrightarrow> b \<le> b' \<Longrightarrow>
     spread enc lo' hi' a' b' js"
  unfolding spread_def by (meson inside_mono)

text \<open>Instructions in the tail only: the static range is empty at its start.\<close>

abbreviation in_tail :: "(Type \<Rightarrow> 'p Value \<Rightarrow> bytes) \<Rightarrow> nat \<Rightarrow> nat \<Rightarrow> 'p Instruction list \<Rightarrow> bool" where
  "in_tail enc a b js \<equiv> spread enc a a a b js"

lemma in_tail_append:
  "in_tail enc a b js \<Longrightarrow> in_tail enc b c ks \<Longrightarrow> a \<le> b \<Longrightarrow> b \<le> c \<Longrightarrow> in_tail enc a c (js @ ks)"
proof -
  assume A: "in_tail enc a b js" "in_tail enc b c ks" "a \<le> b" "b \<le> c"
  have "\<forall>i \<in> set js. inside a b (ins_range enc i)" "\<forall>i \<in> set ks. inside b c (ins_range enc i)"
    using A by (auto simp: spread_def inside_def)
  then show ?thesis using A
    by (auto simp: spread_def sorted_wrt_append intro: inside_apart inside_mono)
qed

lemma in_tail_static: "in_tail enc so t js \<Longrightarrow> t \<le> hi \<Longrightarrow> so \<le> t \<Longrightarrow> spread enc so hi a b js"
  by (auto simp: spread_def inside_def)

lemma ins_range_simps [simp]: "ins_range enc (ins ty v off) = (off, length (enc ty v))"
  by (simp add: ins_range_def)

lemma plan_scalar_spread:
  assumes T: "types_ok L enc wt wta" and c: "v = VNull \<and> nullable f \<or> wt (data_type f) v"
    and p: "plan_scalar L off f v = Ok (t, js)"
  shows "in_tail enc off t js"
  using p types_ok_len [OF T, of "data_type f" v] c
  by (auto simp: plan_scalar_def inside_def split: if_splits intro!: spread_single)

lemma null_ins_spread:
  assumes T: "types_ok L enc wt wta"
  shows "in_tail enc off (off + (if null then 1 else 0)) (null_ins null v off)"
  using types_ok_len [OF T types_ok_wt(2) [OF T]] types_ok_fixed [OF T types_ok_wt(2) [OF T]]
    types_ok_small(2) [OF T] types_ok_sizes(2) [OF T]
  by (auto simp: null_ins_def inside_def intro!: spread_single)

lemma u32_ins_spread:
  assumes T: "types_ok L enc wt wta"
  shows "in_tail enc off (off + size_of_type L TU32) [ins TU32 (VU32 w) off]"
    "length (enc TU32 (VU32 w)) = 4"
  using types_ok_len [OF T types_ok_wt(1) [OF T]] types_ok_fixed [OF T types_ok_wt(1) [OF T]]
    types_ok_small(1) [OF T] types_ok_sizes(1) [OF T]
  by (auto simp: inside_def intro!: spread_single)

text \<open>The static slot is large enough for the null byte and the value.\<close>

lemma plan_at_static:
  assumes T: "types_ok L enc wt wta" and f: "sub_fields f = None" "\<not> is_var L f"
    and c: "conforms wt wta plen f v" and p: "plan_at L so f v = Ok (t, js)"
  shows "t \<le> so + leaf_size L f"
proof -
  have na: "\<not> is_array f" and fx: "fixed_size L (data_type f)" using f by (auto simp: is_var_def)
  have "v = VNull \<or> get_vsize L (data_type f) v = size_of_type L (data_type f)"
    using c f(1) na types_ok_fixed [OF T _ fx] by (auto simp: conforms.simps)
  then show ?thesis using p na f
    by (subst (asm) plan_at.simps)
       (auto simp: Let_def emit_Ok_iff plan_scalar_def leaf_size_def null_pad_def split: if_splits)
qed

lemma laid_out_leaf:
  "laid_out L f lo hi \<Longrightarrow> is_array f \<or> sub_fields f = None \<Longrightarrow> hi = lo + leaf_size L f"
  by (cases f) (auto simp: Let_def split: if_splits)

lemma plan_tail_spread:
  assumes T: "types_ok L enc wt wta" and f: "is_array f \<or> sub_fields f = None" "isv \<or> is_var L f"
    and j: "jump_ins isv (field_offset f) tail = Ok js1"
    and lay: "isv \<and> lo = tail \<and> hi = tail \<or> laid_out L f lo hi \<and> hi \<le> tail"
    and body: "in_tail enc tail t js2" "tail \<le> t"
  shows "spread enc lo hi tail t (js1 @ js2)"
proof (cases isv)
  case True
  then have "js1 = []" using j by (simp add: jump_ins_Ok_iff)
  moreover have "spread enc lo hi tail t js2"
    using body by (auto simp: spread_def inside_def)
  ultimately show ?thesis by simp
next
  case False
  then have l: "laid_out L f lo hi" "hi \<le> tail" using lay by auto
  have js1: "js1 = [ins TU32 (VU32 (of_nat tail)) lo]"
    using j False laid_out_offset [OF l(1)] by (auto simp: jump_ins_Ok_iff)
  have hi: "hi = lo + 4"
    using laid_out_leaf [OF l(1) f(1)] f(2) False
    by (simp add: leaf_size_def null_pad_def POINTER_SIZE_def)
  have "spread enc lo hi tail tail js1"
    unfolding js1 using u32_ins_spread(2) [OF T] hi by (intro spread_single) (simp add: inside_def)
  moreover have "spread enc hi hi tail t js2"
    using body by (fastforce simp: spread_def inside_def)
  ultimately show ?thesis using l(2) hi body(2) by (intro spread_append) auto
qed

lemma plan_spread:
  "plan_write_field L tail f v isv = Ok (t, js) \<Longrightarrow> types_ok L enc wt wta \<Longrightarrow>
     conforms wt wta (prim_len L) f v \<Longrightarrow>
     isv \<and> lo = tail \<and> hi = tail \<or> \<not> isv \<and> laid_out L f lo hi \<and> hi \<le> tail \<Longrightarrow>
     spread enc lo hi tail t js"
  "plan_at L tail f v = Ok (t, js) \<Longrightarrow> types_ok L enc wt wta \<Longrightarrow>
     conforms wt wta (prim_len L) f v \<Longrightarrow> is_array f \<or> sub_fields f = None \<Longrightarrow>
     in_tail enc tail t js"
  "plan_subs L tail fs kv isv = Ok (t, js) \<Longrightarrow> types_ok L enc wt wta \<Longrightarrow>
     conforms_subs wt wta (prim_len L) fs kv2 \<Longrightarrow> (\<forall>(k, v) \<in> set kv2. map_of kv k = Some v) \<Longrightarrow>
     isv \<and> lo = tail \<and> hi = tail \<or> \<not> isv \<and> laid_subs L fs lo hi \<and> hi \<le> tail \<Longrightarrow>
     spread enc lo hi tail t js"
  "plan_elems L tail f vs = Ok (t, js) \<Longrightarrow> types_ok L enc wt wta \<Longrightarrow>
     conforms_elems wt wta (prim_len L) f vs \<Longrightarrow> in_tail enc tail t js"
proof (induction L tail f v isv and L tail f v and L tail fs kv isv and L tail f vs
    arbitrary: t js lo hi and t js and t js kv2 lo hi and t js
    rule: plan_write_field_plan_at_plan_subs_plan_elems.induct)
  case (1 L tail f v isv)
  note T = 1(7)
  consider (arr) subs vs where "sub_fields f = Some subs" "v = VArray vs" "is_array f"
    | (map) subs names kv where "sub_fields f = Some subs" "v = VMap names kv" "\<not> is_array f"
    | (leaf) "sub_fields f = None" "is_var L f \<or> isv"
    | (slot) "sub_fields f = None" "\<not> is_var L f" "\<not> isv"
    using 1(8) by (cases "sub_fields f") (auto simp: conforms.simps split: Value.splits if_splits)
  then show ?case
  proof cases
    case arr
    obtain js1 js2 where p: "jump_ins isv (field_offset f) tail = Ok js1"
        "plan_at L tail f v = Ok (t, js2)" "js = js1 @ js2"
      using 1(6) arr by (subst (asm) plan_write_field.simps) (auto simp: plan_Ok_iffs)
    have "in_tail enc tail t js2" using 1(4) [OF arr(1,2) _ p(1,2) T 1(8)] arr by simp
    then show ?thesis using plan_tail_spread [OF T _ _ p(1)] p(3) arr 1(9) plan_tail_mono(2) [OF p(2)]
      by (auto simp: is_var_def)
  next
    case map
    then have p: "plan_subs L tail subs kv isv = Ok (t, js)"
      using 1(6) by (subst (asm) plan_write_field.simps) simp
    have c: "\<not> nullable f" "distinct (map name_id subs)" "conforms_subs wt wta (prim_len L) subs kv"
      using 1(8) map by (auto simp: conforms.simps)
    have d: "distinct (map fst kv)" using c(2) conforms_subs_keys [OF c(3)] by simp
    have "isv \<and> lo = tail \<and> hi = tail \<or> \<not> isv \<and> laid_subs L subs lo hi \<and> hi \<le> tail"
      using 1(9) laid_out_subs [OF _ map(3,1)] c(1) by (auto simp: null_pad_def)
    then show ?thesis using 1(5) [OF map(1,2) p T c(3)] d by auto
  next
    case leaf
    then obtain js1 js2 where p: "jump_ins isv (field_offset f) tail = Ok js1"
        "plan_at L tail f v = Ok (t, js2)" "js = js1 @ js2"
      using 1(6) by (subst (asm) plan_write_field.simps) (auto simp: plan_Ok_iffs split: if_splits)
    have "in_tail enc tail t js2"
    proof (cases "is_var L f")
      case True
      then show ?thesis using 1(1) [OF leaf(1) True p(1,2) T 1(8)] leaf by simp
    next
      case False
      then show ?thesis using 1(3) [OF leaf(1) False _ p(2) T 1(8)] leaf by simp
    qed
    then show ?thesis using plan_tail_spread [OF T _ _ p(1)] p(3) leaf 1(9) plan_tail_mono(2) [OF p(2)]
      by auto
  next
    case slot
    then obtain so t2 where p: "field_offset f = Some so" "plan_at L so f v = Ok (t2, js)" "t = tail"
      using 1(6) by (subst (asm) plan_write_field.simps) (auto simp: plan_Ok_iffs)
    have l: "laid_out L f lo hi" using 1(9) slot by simp
    have so: "so = lo" using laid_out_offset [OF l] p(1) by simp
    have "in_tail enc so t2 js" using 1(2) [OF slot _ p(2) T 1(8)] p(1) slot(1) by simp
    moreover have "t2 \<le> hi"
      using plan_at_static [OF T slot(1,2) 1(8) p(2)] laid_out_leaf [OF l] slot(1) so by simp
    ultimately show ?thesis using plan_tail_mono(2) [OF p(2)] so by (auto intro: in_tail_static)
  qed
next
  case (2 L off f v)
  let ?off = "off + (if nullable f then 1 else 0)"
  have null: "in_tail enc off ?off (null_ins (nullable f) v off)" by (rule null_ins_spread [OF 2(3)])
  obtain js2 where js: "js = null_ins (nullable f) v off @ js2" and tail: "in_tail enc ?off t js2 \<and> ?off \<le> t"
  proof (cases "is_array f")
    case False
    then have "sub_fields f = None" using 2(5) by simp
    then have "v = VNull \<and> nullable f \<or> wt (data_type f) v" using 2(4) False by (simp add: conforms.simps)
    then show ?thesis using that 2(2) False plan_scalar_spread [OF 2(3)] plan_scalar_mono
      by (subst (asm) plan_at.simps) (fastforce simp: Let_def emit_Ok_iff)
  next
    case arr: True
    show ?thesis
    proof (cases "sub_fields f")
      case None
      then obtain p where v: "v = VPrimArray p" "wta (data_type f) p"
        using 2(4) arr by (auto simp: conforms.simps split: Value.splits)
      let ?i = "ins TU32 (VU32 (of_nat (prim_len L p))) ?off"
      let ?off2 = "?off + size_of_type L TU32"
      have "in_tail enc ?off2 (?off2 + prim_size L p) [ins (data_type f) v ?off2]"
        using types_ok_arr_len [OF 2(3) v(2)] v(1) by (intro spread_single) (simp add: inside_def)
      then have "in_tail enc ?off (?off2 + prim_size L p) ([?i] @ [ins (data_type f) v ?off2])"
        by (intro in_tail_append [OF u32_ins_spread(1) [OF 2(3)]]) auto
      then show ?thesis using that 2(2) arr v(1)
        by (subst (asm) plan_at.simps) (auto simp: Let_def emit_Ok_iff)
    next
      case (Some subs)
      then obtain vs where v: "v = VArray vs" and c: "conforms_elems wt wta (prim_len L) (unarray f) vs"
        using 2(4) arr by (auto simp: conforms.simps split: Value.splits)
      let ?i = "ins TU32 (VU32 (of_nat (length vs))) ?off"
      obtain js3 where p: "plan_elems L (?off + size_of_type L TU32) (unarray f) vs = Ok (t, js3)"
          "js = null_ins (nullable f) v off @ ([?i] @ js3)"
        using 2(2) arr v by (subst (asm) plan_at.simps) (auto simp: Let_def plan_Ok_iffs)
      have "in_tail enc (?off + size_of_type L TU32) t js3"
        using 2(1) [OF refl refl arr v p(1) 2(3) c] .
      then have "in_tail enc ?off t ([?i] @ js3)"
        using plan_tail_mono(4) [OF p(1)]
        by (intro in_tail_append [OF u32_ins_spread(1) [OF 2(3)]]) auto
      then show ?thesis using that p(2) plan_tail_mono(4) [OF p(1)] by simp
    qed
  qed
  show ?case unfolding js using tail by (intro in_tail_append [OF null]) auto
next
  case (4 L tail f fs kv isv)
  obtain v kv3 where kv2: "kv2 = (name_id f, v) # kv3"
      and c: "conforms wt wta (prim_len L) f v" "conforms_subs wt wta (prim_len L) fs kv3"
    using 4(5) by (auto split: list.splits)
  have look: "get_by_key_id kv (name_id f) = v" using 4(6) kv2 by (simp add: get_by_key_id_def)
  obtain t1 js1 js2 where p: "plan_write_field L tail f v isv = Ok (t1, js1)"
      "plan_subs L t1 fs kv isv = Ok (t, js2)" "js = js1 @ js2"
    using 4(3) look by (auto simp: plan_Ok_iffs)
  note mono = plan_tail_mono(1) [OF p(1)] plan_tail_mono(3) [OF p(2)]
  note IH1 = 4(1) [unfolded look, OF p(1) 4(4) c(1)]
  note IH2 = 4(2) [OF _ refl p(2) 4(4) c(2), unfolded look, OF p(1)]
  show ?case
  proof (cases isv)
    case True
    then have "in_tail enc tail t1 js1" "in_tail enc t1 t js2"
      using IH1 [of tail tail] IH2 [of t1 t1] 4(6) kv2 by auto
    then show ?thesis using 4(7) True p(3) in_tail_append mono by auto
  next
    case False
    then obtain mid where mid: "laid_out L f lo mid" "laid_subs L fs mid hi" "hi \<le> tail"
      using 4(7) by auto
    have le: "lo \<le> mid" "mid \<le> hi" using laid_out_le [OF mid(1)] laid_subs_le [OF mid(2)] by auto
    have "spread enc lo mid tail t1 js1" "spread enc mid hi t1 t js2"
      using IH1 [of lo mid] IH2 [of mid hi] False mid le mono 4(6) kv2 by auto
    then show ?thesis unfolding p(3) using le mid(3) mono by (intro spread_append) auto
  qed
next
  case (6 L off f v vs)
  obtain t1 js1 js2 where p: "plan_write_field L off f v True = Ok (t1, js1)"
      "plan_elems L t1 f vs = Ok (t, js2)" "js = js1 @ js2"
    using 6(3) by (auto simp: plan_Ok_iffs)
  have "in_tail enc off t1 js1" using 6(1) [OF p(1) 6(4), of off off] 6(5) by auto
  moreover have "in_tail enc t1 t js2" using 6(2) [OF p(1) refl p(2) 6(4)] 6(5) by auto
  ultimately show ?case
    unfolding p(3) using plan_tail_mono(1) [OF p(1)] plan_tail_mono(4) [OF p(2)] by (rule in_tail_append)
qed auto

section \<open>Lemmas: executing a plan\<close>

lemma execute_plan_frame:
  assumes T: "types_ok L enc wt wta" and "\<forall>i \<in> set js. inside lo hi (ins_range enc i)"
    and "x < bp + lo \<or> bp + hi \<le> x"
  shows "execute_plan L bp js m x = m x"
  using assms(2)
proof (induction js arbitrary: m)
  case (Cons i js)
  have "inside lo hi (ins_range enc i)" using Cons.prems by simp
  then have "store_bytes m (bp + ins_offset i) (ins_bytes enc i) x = m x"
    using assms(3) by (intro store_bytes_other) (auto simp: inside_def ins_range_def)
  then show ?case using Cons.IH Cons.prems
    by (simp add: execute_plan_def types_ok_set [OF T] ins_bytes_def)
qed (simp add: execute_plan_def)

lemma execute_plan_holds:
  assumes T: "types_ok L enc wt wta" and "sorted_wrt ranges_apart (map (ins_range enc) js)"
  shows "holds enc (execute_plan L bp js m) bp js"
  using assms(2)
proof (induction js rule: rev_induct)
  case (snoc i js)
  let ?m = "execute_plan L bp js m"
  have step: "execute_plan L bp (js @ [i]) m = store_bytes ?m (bp + ins_offset i) (ins_bytes enc i)"
    by (simp add: execute_plan_def types_ok_set [OF T] ins_bytes_def)
  have "holds enc ?m bp js" using snoc by (simp add: sorted_wrt_append)
  moreover have "ranges_apart (ins_range enc j) (ins_range enc i)" if "j \<in> set js" for j
    using snoc.prems that by (simp add: sorted_wrt_append)
  ultimately have "holds enc (execute_plan L bp (js @ [i]) m) bp js"
    unfolding step holds_def ranges_apart_def ins_range_def
    by (auto simp: load_store_disjoint)
  then show ?case by (simp add: step)
qed simp

lemma spread_inside:
  "spread enc lo hi a b js \<Longrightarrow> lo \<le> hi \<Longrightarrow> hi \<le> a \<Longrightarrow> a \<le> b \<Longrightarrow> i \<in> set js \<Longrightarrow> inside lo b (ins_range enc i)"
  by (auto simp: spread_def inside_def)

text \<open>Writing a conforming value of a schema's field and reading it back.\<close>

lemma static_write_read:
  assumes T: "types_ok L enc wt wta" and sch: "laid_out L f 0 bound"
    and c: "conforms wt wta (prim_len L) f v"
    and p: "plan_write_field L bound f v False = Ok (t, js)" and t: "t < 2 ^ 32"
  shows "\<exists>t'. read_field L (execute_plan L bp js m) bp f False t0 = Some (v, t')"
    and "x < bp \<or> bp + t \<le> x \<Longrightarrow> execute_plan L bp js m x = m x"
proof -
  have s: "spread enc 0 bound bound t js" using plan_spread(1) [OF p T c] sch by simp
  then have "holds enc (execute_plan L bp js m) bp js"
    by (intro execute_plan_holds [OF T]) (simp add: spread_def)
  then show "\<exists>t'. read_field L (execute_plan L bp js m) bp f False t0 = Some (v, t')"
    using plan_read(1) [OF p T c _ t, of _ _ t0] sch by blast
  have "\<forall>i \<in> set js. inside 0 t (ins_range enc i)"
    using spread_inside [OF s] plan_tail_mono(1) [OF p] by auto
  then show "x < bp \<or> bp + t \<le> x \<Longrightarrow> execute_plan L bp js m x = m x"
    using execute_plan_frame [OF T] by fastforce
qed

text \<open>Conforming values are always accepted.\<close>

lemma plan_at_total:
  assumes T: "types_ok L enc wt wta" and c: "conforms wt wta (prim_len L) f v"
    and f: "is_array f \<or> sub_fields f = None"
    and el: "\<And>vs. v = VArray vs \<Longrightarrow> is_array f \<Longrightarrow> conforms_elems wt wta (prim_len L) (unarray f) vs \<Longrightarrow>
      \<exists>t js. plan_elems L (off + (if nullable f then 1 else 0) + size_of_type L TU32) (unarray f) vs = Ok (t, js)"
  shows "\<exists>t js. plan_at L off f v = Ok (t, js)"
proof (cases "is_array f")
  case False
  then show ?thesis using c f types_ok_nonnull [OF T, of "data_type f" v]
    by (subst plan_at.simps) (auto simp: Let_def emit_def plan_scalar_def conforms.simps)
next
  case True
  show ?thesis
  proof (cases "sub_fields f")
    case None
    then show ?thesis using c True
      by (subst plan_at.simps) (auto simp: Let_def emit_def conforms.simps split: Value.splits)
  next
    case (Some subs)
    then obtain vs where v: "v = VArray vs" and "conforms_elems wt wta (prim_len L) (unarray f) vs"
      using c True by (auto simp: conforms.simps split: Value.splits)
    then obtain t js where
      "plan_elems L (off + (if nullable f then 1 else 0) + size_of_type L TU32) (unarray f) vs = Ok (t, js)"
      using el [OF v True] by blast
    then show ?thesis using True v by (subst plan_at.simps) (auto simp: Let_def emit_def)
  qed
qed

lemma plan_total:
  fixes L :: "'p Lib"
  shows "types_ok L enc wt wta \<Longrightarrow> conforms wt wta (prim_len L) f v \<Longrightarrow>
     (\<not> isv \<longrightarrow> (\<exists>lo hi. laid_out L f lo hi)) \<Longrightarrow> \<exists>t js. plan_write_field L tail f v isv = Ok (t, js)"
  "types_ok L enc wt wta \<Longrightarrow> conforms wt wta (prim_len L) f v \<Longrightarrow> is_array f \<or> sub_fields f = None \<Longrightarrow>
     \<exists>t js. plan_at L tail f v = Ok (t, js)"
  "types_ok L enc wt wta \<Longrightarrow> conforms_subs wt wta (prim_len L) fs kv2 \<Longrightarrow>
     (\<forall>(k, v) \<in> set kv2. map_of kv k = Some v) \<Longrightarrow> (\<not> isv \<longrightarrow> (\<exists>lo hi. laid_subs L fs lo hi)) \<Longrightarrow>
     \<exists>t js. plan_subs L tail fs kv isv = Ok (t, js)"
  "types_ok L enc wt wta \<Longrightarrow> conforms_elems wt wta (prim_len L) f vs \<Longrightarrow>
     \<exists>t js. plan_elems L tail f vs = Ok (t, js)"
proof (induction L tail f v isv and L tail f v and L tail fs kv isv and L tail f vs
    arbitrary: and and kv2 and rule: plan_write_field_plan_at_plan_subs_plan_elems.induct)
  case (1 L tail f v isv)
  have off: "isv \<or> field_offset f \<noteq> None" using 1(8) laid_out_offset by fastforce
  then obtain js :: "'p Instruction list" where j: "jump_ins isv (field_offset f) tail = Ok js"
    by (cases isv) (auto simp: jump_ins_def)
  show ?case
  proof (cases "sub_fields f")
    case None
    show ?thesis
    proof (cases "is_var L f \<or> isv")
      case True
      then have "\<exists>t ks. plan_at L tail f v = Ok (t, ks)"
        using 1(1) [OF None _ j 1(6,7)] 1(3) [OF None _ _ 1(6,7)] None by blast
      then show ?thesis using None True j by (subst plan_write_field.simps) (auto simp: emit_def)
    next
      case False
      then obtain so where so: "field_offset f = Some so" using off by auto
      have "\<exists>t ks. plan_at L so f v = Ok (t, ks)" using 1(2) [OF None _ _ _ 1(6,7)] False so None by auto
      then show ?thesis using None False so by (subst plan_write_field.simps) auto
    qed
  next
    case (Some subs)
    show ?thesis
    proof (cases "is_array f")
      case True
      then obtain vs where v: "v = VArray vs" using 1(7) Some by (auto simp: conforms.simps split: Value.splits)
      have "\<exists>t ks. plan_at L tail f v = Ok (t, ks)" using 1(4) [OF Some v _ j 1(6,7)] True by auto
      then show ?thesis using Some True v j by (subst plan_write_field.simps) (auto simp: emit_def)
    next
      case False
      then obtain kv where v: "v = VMap (map field_name subs) kv" and d: "distinct (map name_id subs)"
          and c: "conforms_subs wt wta (prim_len L) subs kv"
        using 1(7) Some by (auto simp: conforms.simps split: Value.splits)
      have "distinct (map fst kv)" using d conforms_subs_keys [OF c] by simp
      moreover have "\<not> isv \<longrightarrow> (\<exists>lo hi. laid_subs L subs lo hi)"
        using 1(8) laid_out_subs [OF _ False Some] by blast
      ultimately show ?thesis using 1(5) [OF Some v 1(6) c] v Some
        by (subst plan_write_field.simps) auto
    qed
  qed
next
  case (2 L off f v)
  show ?case
  proof (rule plan_at_total [OF 2(2-4)])
    fix vs
    assume A: "v = VArray vs" "is_array f" "conforms_elems wt wta (prim_len L) (unarray f) vs"
    show "\<exists>t js. plan_elems L (off + (if nullable f then 1 else 0) + size_of_type L TU32)
        (unarray f) vs = Ok (t, js)"
      by (rule 2(1) [OF refl refl A(2,1) 2(2) A(3)])
  qed
next
  case (4 L tail f fs kv isv)
  obtain v kv3 where kv2: "kv2 = (name_id f, v) # kv3"
      and c: "conforms wt wta (prim_len L) f v" "conforms_subs wt wta (prim_len L) fs kv3"
    using 4(4) by (auto split: list.splits)
  have look: "get_by_key_id kv (name_id f) = v" using 4(5) kv2 by (simp add: get_by_key_id_def)
  obtain t1 js1 where p: "plan_write_field L tail f v isv = Ok (t1, js1)"
    using 4(1) [OF 4(3)] look c(1) 4(6) by auto
  have "\<exists>t js. plan_subs L t1 fs kv isv = Ok (t, js)"
    using 4(2) [OF _ refl 4(3) c(2)] look p 4(5,6) kv2 by auto
  then show ?case using p look by (auto simp: emit_def)
next
  case (6 L off f v vs)
  obtain t1 js1 where p: "plan_write_field L off f v True = Ok (t1, js1)" using 6(1) [OF 6(3)] 6(4) by auto
  have "\<exists>t js. plan_elems L t1 f vs = Ok (t, js)" using 6(2) [OF p refl 6(3)] 6(4) by auto
  then show ?case using p by (auto simp: emit_def)
qed auto

section \<open>A concrete value library\<close>

text \<open>A small instance of the library for the witnesses: booleans, bytes, 32-bit integers and
  length-prefixed strings.\<close>

fun enc_ex :: "Type \<Rightarrow> unit Value \<Rightarrow> bytes" where
  "enc_ex TU32 (VU32 w) = bytes_u32 w"
| "enc_ex TBool (VBool b) = [if b then 1 else 0]"
| "enc_ex TU8 (VU8 b) = [b]"
| "enc_ex TString (VString s) = bytes_u32 (of_nat (length s)) @ map (\<lambda>c. of_nat (of_char c)) s"
| "enc_ex _ _ = []"

fun wt_ex :: "Type \<Rightarrow> unit Value \<Rightarrow> bool" where
  "wt_ex TU32 (VU32 w) = True"
| "wt_ex TBool (VBool b) = True"
| "wt_ex TU8 (VU8 b) = True"
| "wt_ex TString (VString s) = (length s < 2 ^ 32)"
| "wt_ex _ _ = False"

fun get_ex :: "Type \<Rightarrow> mem \<Rightarrow> addr \<Rightarrow> unit Value" where
  "get_ex TU32 m a = VU32 (read_u32 m a)"
| "get_ex TBool m a = VBool (m a = 1)"
| "get_ex TU8 m a = VU8 (m a)"
| "get_ex TString m a =
     VString (map (\<lambda>b. char_of (unat b)) (load_bytes m (a + 4) (unat (read_u32 m a))))"
| "get_ex _ m a = VNull"

fun get_size_ex :: "Type \<Rightarrow> mem \<Rightarrow> addr \<Rightarrow> nat" where
  "get_size_ex TU32 m a = 4"
| "get_size_ex TString m a = 4 + unat (read_u32 m a)"
| "get_size_ex _ m a = 1"

definition lib_codec :: "unit Lib" where
  "lib_codec = \<lparr>hash_str = (\<lambda>s. of_nat (length s)), key_hash = (\<lambda>s. of_nat (length s)),
     fixed_size = (\<lambda>t. t \<noteq> TString), size_of_type = (\<lambda>t. if t = TU32 then 4 else 1),
     type_id = (\<lambda>t. if t = TMap then 5 else if t = TString then 4 else 3),
     type_from_id = (\<lambda>i. if i = 4 then TString else TU32),
     base_type = (\<lambda>v. case v of VString _ \<Rightarrow> TString | _ \<Rightarrow> TU32),
     get_vsize = (\<lambda>t v. length (enc_ex t v)),
     set_val = (\<lambda>t v a m. store_bytes m a (enc_ex t v)), get_size = get_size_ex,
     get_shared_val = get_ex, prim_len = (\<lambda>p. 0), prim_size = (\<lambda>p. 0),
     get_shared_prim_array_val = (\<lambda>t n m a. None)\<rparr>"

lemma get_ex_enc:
  assumes "wt_ex ty v" and "load_bytes m a (length (enc_ex ty v)) = enc_ex ty v"
  shows "get_ex ty m a = v \<and> get_size_ex ty m a = length (enc_ex ty v)"
  using assms
proof (induction ty v rule: wt_ex.induct)
  case (4 s)
  let ?bs = "map (\<lambda>c. of_nat (of_char c) :: u8) s"
  have l: "load_bytes m a (4 + length s) = bytes_u32 (of_nat (length s)) @ ?bs" using 4(2) by simp
  then have "load_bytes m a 4 = bytes_u32 (of_nat (length s))" and b: "load_bytes m (a + 4) (length s) = ?bs"
    unfolding load_bytes_add by (auto simp: append_eq_append_conv)
  then have "unat (read_u32 m a) = length s" using 4(1) by (simp add: read_u32_def unat_of_nat)
  moreover have "map (\<lambda>b. char_of (unat b)) ?bs = s"
    by (simp add: comp_def unat_of_nat)
  ultimately show ?case using b by simp
qed (auto simp: read_u32_def)

lemma lib_codec_ok: "types_ok lib_codec enc_ex wt_ex (\<lambda>_ _. False)"
proof -
  have "v \<noteq> VNull" if "wt_ex ty v" for ty v using that by (cases "(ty, v)" rule: wt_ex.cases) auto
  moreover have "length (enc_ex ty v) = (if ty = TU32 then 4 else 1)" if "wt_ex ty v" "ty \<noteq> TString" for ty v
    using that by (cases "(ty, v)" rule: wt_ex.cases) auto
  ultimately show ?thesis
    unfolding types_ok_def using get_ex_enc by (simp add: lib_codec_def)
qed

definition content_schema :: Schema where
  "content_schema = Schema_new lib_codec ''s'' None
     (Field_new lib_codec ''*'' TMap False False
       (Some [Field_new lib_codec ''id'' TU32 False False None [],
              Field_new lib_codec ''name'' TString True False None []]) []) False False"

definition content_value :: "unit Value" where
  "content_value = VMap [''id'', ''name''] [(2, VU32 7), (4, VString ''neb'')]"

lemma content_conforms:
  "conforms wt_ex (\<lambda>_ _. False) (prim_len lib_codec) (schema_fields content_schema) content_value"
  by (simp add: content_schema_def content_value_def Schema_new_def Field_new_def lib_codec_def
      record_paths_def conforms.simps)

section \<open>Properties\<close>

text \<open>C16: the writer accepts every value that conforms to the fields of a schema without
  dynamic fields, and the reader returns exactly that value from the memory the plan was executed
  on, at every address; the plan changes no byte outside the planned length. The length is
  limited by the 32-bit pointers of variable-sized fields.\<close>

theorem content_write_read:
  assumes "types_ok L enc wt wta" and "sch = Schema_new L nm keys fs False scan"
    and "conforms wt wta (prim_len L) (schema_fields sch) v"
  shows "\<exists>t js. plan_write_field L (static_bound sch) (schema_fields sch) v False = Ok (t, js) \<and>
    (t < 2 ^ 32 \<longrightarrow> read_by_schema L fuel (execute_plan L bp js m) bp sch = Some v \<and>
       (\<forall>x. x < bp \<or> bp + t \<le> x \<longrightarrow> execute_plan L bp js m x = m x))"
proof -
  have lay: "laid_out L (schema_fields sch) 0 (static_bound sch)"
    unfolding assms(2) by (rule Schema_new_laid_out)
  then obtain t js where p: "plan_write_field L (static_bound sch) (schema_fields sch) v False = Ok (t, js)"
    using plan_total(1) [OF assms(1,3)] by blast
  have "\<not> is_dynamic sch" by (simp add: assms(2) Schema_new_def split: prod.splits)
  then have "read_by_schema L fuel (execute_plan L bp js m) bp sch = Some v" if "t < 2 ^ 32"
    using static_write_read(1) [OF assms(1) lay assms(3) p that, of bp m "static_bound sch"]
    by (auto simp: read_by_schema_def)
  moreover have "execute_plan L bp js m x = m x" if "t < 2 ^ 32" "x < bp \<or> bp + t \<le> x" for x
    by (rule static_write_read(2) [OF assms(1) lay assms(3) p that])
  ultimately show ?thesis using p by blast
qed

theorem content_write_read_witness:
  "\<exists>t js. plan_write_field lib_codec (static_bound content_schema) (schema_fields content_schema)
      content_value False = Ok (t, js) \<and>
    (t < 2 ^ 32 \<longrightarrow> read_by_schema lib_codec 0 (execute_plan lib_codec 1000 js (\<lambda>_. 0)) 1000 content_schema
       = Some content_value)"
  using content_write_read [OF lib_codec_ok content_schema_def content_conforms, of 0 1000 "\<lambda>_. 0"]
  by blast

text \<open>The writer rejects the null value for every array field, also for a nullable one,
  whose null byte it has planned already; a nullable array can never be stored as null.\<close>

theorem null_array_rejected:
  fixes L :: "'p Lib"
  assumes "is_array f" and "sub_fields f = None \<longrightarrow> isv \<or> field_offset f \<noteq> None"
  shows "plan_write_field L tail f VNull isv = Err (WE_DataMismatchSchema f VNull)"
proof (cases "sub_fields f")
  case None
  then obtain js :: "'p Instruction list" where "jump_ins isv (field_offset f) tail = Ok js"
    using assms(2) by (cases isv) (auto simp: jump_ins_def)
  moreover have "plan_at L tail f VNull = Err (WE_DataMismatchSchema f VNull)"
    using assms(1) by (subst plan_at.simps) (simp add: Let_def emit_def)
  ultimately show ?thesis using None assms(1)
    by (subst plan_write_field.simps) (simp add: is_var_def emit_def)
next
  case (Some subs)
  then show ?thesis by (subst plan_write_field.simps) simp
qed

theorem null_array_rejected_witness:
  "plan_write_field lib_codec 0 (Field TU32 True True None ''a'' 1 [] (Some 0)) VNull False =
    Err (WE_DataMismatchSchema (Field TU32 True True None ''a'' 1 [] (Some 0)) VNull)"
  by (rule null_array_rejected) simp_all

end
