(* ===== verification/Neb_Chunk.thy ===== *)
theory Neb_Chunk
  imports Neb_IO
begin

text \<open>
  The chunk: \<^verbatim>\<open>src/src/ram/chunk.rs\<close> and the cell writer and readers of
  \<^verbatim>\<open>src/src/ram/cell.rs\<close>. The state of a chunk holds its segments, the index from
  cell hashes to addresses, its memory and its files. Operations return \<open>None\<close> when the code
  panics or never returns. The cleaner, which the chunk calls when it runs out of segments, is
  the argument \<open>clean\<close>, so that its contract can be stated here and discharged where the
  cleaner is defined. The set \<open>cell_locks\<close> holds the index entries whose guard the running
  operation holds: locking one of them again never returns.
\<close>

section \<open>State\<close>

record 'p OwnedCell =
  header :: CellHeader
  data :: "'p Value"

text \<open>What the chunk asks of the index builder.\<close>

datatype 'p IndexReq =
    EnsureIndices "'p OwnedCell" Schema "'p OwnedCell option"
  | RemoveIndices "'p OwnedCell" Schema

record 'p Chunk =
  chunk_id :: nat
  cell_index :: "u64 \<Rightarrow> addr option"
  segs :: "(nat \<times> Segment) list"
  head_seg_id :: u64
  schemas :: SchemasMap
  backup_storage :: "string option"
  wal_storage :: "string option"
  total_space :: u64
  capacity :: nat
  gc_lock :: bool
  allocator :: SegmentAllocator
  index_builder :: "'p IndexReq list option"
  cell_locks :: "u64 set"
  memory :: mem
  disk :: FileSystem

text \<open>What the operations take from the environment: the value library, the pop of
  \<^verbatim>\<open>WordList\<close>, the effect of \<^verbatim>\<open>madvise\<close>, \<^verbatim>\<open>memcpy\<close> and the clock.\<close>

record 'p Env =
  env_lib :: "'p Lib"
  env_pop :: word_pop
  env_advise :: "mem \<Rightarrow> addr \<Rightarrow> nat \<Rightarrow> mem"
  env_memcpy :: "mem \<Rightarrow> addr \<Rightarrow> addr \<Rightarrow> nat \<Rightarrow> mem"
  env_time :: int
  env_fuel :: nat

record PendingEntry =
  pe_seg :: nat
  pe_addr :: addr
  pe_size :: u32

definition MAX_CELL_SIZE :: u32 where "MAX_CELL_SIZE = 1 * 1024 * 1024"

type_synonym 'p cleaner = "bool \<Rightarrow> 'p Chunk \<Rightarrow> 'p Chunk option"

section \<open>Segments of a chunk\<close>

definition put_segment :: "Segment \<Rightarrow> 'p Chunk \<Rightarrow> 'p Chunk" where
  "put_segment seg ch = ch\<lparr>segs := AList.update (unat (seg_id seg)) seg (segs ch)\<rparr>"

definition remove_segment :: "u64 \<Rightarrow> 'p Chunk \<Rightarrow> 'p Chunk" where
  "remove_segment sid ch =
     (case map_of (segs ch) (unat sid) of
        None \<Rightarrow> ch
      | Some seg \<Rightarrow> ch\<lparr>segs := AList.delete (unat sid) (segs ch), disk := dispense seg (disk ch)\<rparr>)"

definition modify_segment :: "nat \<Rightarrow> (Segment \<Rightarrow> Segment) \<Rightarrow> 'p Chunk \<Rightarrow> 'p Chunk" where
  "modify_segment k f ch = ch\<lparr>segs := AList.map_entry k f (segs ch)\<rparr>"

definition contains_seg :: "'p Chunk \<Rightarrow> u64 \<Rightarrow> bool" where
  "contains_seg ch sid = (map_of (segs ch) (unat sid) \<noteq> None)"

definition segment_ids :: "'p Chunk \<Rightarrow> nat list" where
  "segment_ids ch = map fst (segs ch)"

definition segments :: "'p Chunk \<Rightarrow> Segment list" where
  "segments ch = map snd (segs ch)"

definition locate_segment :: "'p Chunk \<Rightarrow> addr \<Rightarrow> nat option" where
  "locate_segment ch a =
     (let k = id_by_addr (allocator ch) a in if map_of (segs ch) k = None then None else Some k)"

text \<open>\<^verbatim>\<open>Chunk::new\<close> on the address \<^verbatim>\<open>mmap\<close> returned.\<close>

definition Chunk_new ::
  "'p Env \<Rightarrow> nat \<Rightarrow> nat \<Rightarrow> SchemasMap \<Rightarrow> 'p IndexReq list option \<Rightarrow> string option \<Rightarrow> string option
     \<Rightarrow> addr \<Rightarrow> mem \<Rightarrow> FileSystem \<Rightarrow> 'p Chunk option" where
  "Chunk_new E cid sz meta ib bs ws mmap_addr m fs =
     (case alloc_seg (env_pop E) fs (SegmentAllocator_new mmap_addr sz) bs ws of
        Some (Some seg, al, fs') \<Rightarrow>
          Some (put_segment seg
            \<lparr>chunk_id = cid, cell_index = Map.empty, segs = [], head_seg_id = seg_id seg,
             schemas = meta, backup_storage = bs, wal_storage = ws, total_space = 0,
             capacity = sz, gc_lock = False, allocator = al, index_builder = ib,
             cell_locks = {}, memory = m, disk = fs'\<rparr>)
      | _ \<Rightarrow> None)"

text \<open>The head segment is replaced by a fresh one; \<open>None\<close> is the panic
  \<^verbatim>\<open>No space left after full GCs\<close>.\<close>

definition new_head_segment :: "'p Env \<Rightarrow> 'p Chunk \<Rightarrow> 'p Chunk option" where
  "new_head_segment E ch =
     (case alloc_seg (env_pop E) (disk ch) (allocator ch) (backup_storage ch) (wal_storage ch) of
        Some (Some seg, al, fs) \<Rightarrow>
          Some ((put_segment seg
            (ch\<lparr>allocator := al, disk := fs, total_space := total_space ch + of_nat SEGMENT_SIZE\<rparr>))
            \<lparr>head_seg_id := seg_id seg\<rparr>)
      | _ \<Rightarrow> None)"

text \<open>\<^verbatim>\<open>Chunk::try_acquire\<close>: one turn of the loop returns (\<open>Inl\<close>) or goes on with
  the flag \<^verbatim>\<open>tried_gc\<close> and the chunk as the turn left them.\<close>

definition try_acquire_turn ::
  "'p Env \<Rightarrow> 'p cleaner \<Rightarrow> u32 \<Rightarrow> bool \<Rightarrow> 'p Chunk
     \<Rightarrow> ((PendingEntry option \<times> 'p Chunk) + (bool \<times> 'p Chunk)) option" where
  "try_acquire_turn E clean sz tried_gc ch =
     (let hid = unat (head_seg_id ch)
      in case map_of (segs ch) hid of
           None \<Rightarrow> None
         | Some head \<Rightarrow>
             (case Segment_try_acquire head sz of
                (Some a, head') \<Rightarrow>
                  Some (Inl (Some \<lparr>pe_seg = hid, pe_addr = a, pe_size = sz\<rparr>,
                             modify_segment hid (\<lambda>_. head'\<lparr>references := references head' + 1\<rparr>) ch))
              | (None, _) \<Rightarrow>
                  if unat (total_space ch) \<ge> capacity ch - SEGMENT_SIZE
                  then if tried_gc then Some (Inl (None, ch))
                       else map_option (\<lambda>ch1. Inr (True, ch1)) (clean True ch)
                  else (case (if meet_gc_threshold (allocator ch) then clean False ch else Some ch) of
                          None \<Rightarrow> None
                        | Some ch1 \<Rightarrow>
                            if hid = unat (head_seg_id ch1)
                            then map_option (\<lambda>ch2. Inr (tried_gc, ch2)) (new_head_segment E ch1)
                            else Some (Inr (tried_gc, ch1)))))"

partial_function (option) try_acquire_loop ::
  "'p Env \<Rightarrow> 'p cleaner \<Rightarrow> u32 \<Rightarrow> bool \<Rightarrow> 'p Chunk \<Rightarrow> (PendingEntry option \<times> 'p Chunk) option"
where
  [code]: "try_acquire_loop E clean sz tried_gc ch =
     (case try_acquire_turn E clean sz tried_gc ch of
        None \<Rightarrow> None
      | Some (Inl r) \<Rightarrow> Some r
      | Some (Inr (tried_gc', ch')) \<Rightarrow> try_acquire_loop E clean sz tried_gc' ch')"

definition try_acquire ::
  "'p Env \<Rightarrow> 'p cleaner \<Rightarrow> u32 \<Rightarrow> 'p Chunk \<Rightarrow> (PendingEntry option \<times> 'p Chunk) option" where
  "try_acquire E clean sz ch = try_acquire_loop E clean sz False ch"

text \<open>\<^verbatim>\<open>PendingEntry::drop\<close>: write the log file (a failure panics), release the
  segment.\<close>

definition drop_pending :: "PendingEntry \<Rightarrow> 'p Chunk \<Rightarrow> 'p Chunk option" where
  "drop_pending pe ch =
     (case map_of (segs ch) (pe_seg pe) of
        None \<Rightarrow> None
      | Some seg \<Rightarrow>
          (case write_wal (memory ch) seg (pe_addr pe) (pe_size pe) (disk ch) of
             (Inl _, _) \<Rightarrow> None
           | (Inr _, fs) \<Rightarrow>
               Some (modify_segment (pe_seg pe) (\<lambda>s. s\<lparr>references := references s - 1\<rparr>)
                       (ch\<lparr>disk := fs\<rparr>))))"

section \<open>Reading\<close>

definition location_for_read :: "'p Chunk \<Rightarrow> u64 \<Rightarrow> ReadError + addr" where
  "location_for_read ch h =
     (case cell_index ch h of
        Some a \<Rightarrow> if a = 0 then Inl RE_CellDoesNotExisted else Inr a
      | None \<Rightarrow> if h = 0 then Inl RE_CellIdIsUnitId else Inl RE_CellDoesNotExisted)"

definition location_for_write :: "'p Chunk \<Rightarrow> u64 \<Rightarrow> addr option" where
  "location_for_write ch h =
     (case cell_index ch h of
        Some a \<Rightarrow> if a = 0 then None else Some a
      | None \<Rightarrow> None)"

text \<open>\<^verbatim>\<open>SharedCellData::from_chunk_raw\<close>, \<^verbatim>\<open>select_from_chunk_raw\<close>.\<close>

definition from_chunk_raw ::
  "'p Env \<Rightarrow> 'p Chunk \<Rightarrow> addr \<Rightarrow> (ReadError + ('p OwnedCell \<times> Schema)) option" where
  "from_chunk_raw E ch ptr =
     (case header_from_chunk_raw (memory ch) ptr of
        None \<Rightarrow> None
      | Some (Inl e) \<Rightarrow> Some (Inl e)
      | Some (Inr (chd, data_ptr, _)) \<Rightarrow>
          (case SchemasMap_get (schemas ch) (schema chd) of
             None \<Rightarrow> Some (Inl (RE_SchemaDoesNotExisted (schema chd)))
           | Some sch \<Rightarrow>
               (case read_by_schema (env_lib E) (env_fuel E) (memory ch) data_ptr sch of
                  None \<Rightarrow> None
                | Some v \<Rightarrow> Some (Inr (\<lparr>header = chd, data = v\<rparr>, sch)))))"

definition select_from_chunk_raw ::
  "'p Env \<Rightarrow> 'p Chunk \<Rightarrow> addr \<Rightarrow> u64 list \<Rightarrow> (ReadError + 'p Value) option" where
  "select_from_chunk_raw E ch ptr ks =
     (case header_from_chunk_raw (memory ch) ptr of
        None \<Rightarrow> None
      | Some (Inl e) \<Rightarrow> Some (Inl e)
      | Some (Inr (chd, data_ptr, _)) \<Rightarrow>
          (case SchemasMap_get (schemas ch) (schema chd) of
             None \<Rightarrow> Some (Inl (RE_SchemaDoesNotExisted (schema chd)))
           | Some sch \<Rightarrow>
               map_option Inr
                 (read_by_schema_selected (env_lib E) (env_fuel E) (memory ch) data_ptr sch ks)))"

definition head_cell :: "'p Chunk \<Rightarrow> u64 \<Rightarrow> (ReadError + CellHeader) option" where
  "head_cell ch h =
     (case location_for_read ch h of
        Inl e \<Rightarrow> Some (Inl e)
      | Inr a \<Rightarrow> map_option (map_sum id fst) (header_from_chunk_raw (memory ch) a))"

definition read_cell :: "'p Env \<Rightarrow> 'p Chunk \<Rightarrow> u64 \<Rightarrow> (ReadError + 'p OwnedCell) option" where
  "read_cell E ch h =
     (case location_for_read ch h of
        Inl e \<Rightarrow> Some (Inl e)
      | Inr a \<Rightarrow> map_option (map_sum id fst) (from_chunk_raw E ch a))"

definition read_selected ::
  "'p Env \<Rightarrow> 'p Chunk \<Rightarrow> u64 \<Rightarrow> u64 list \<Rightarrow> (ReadError + 'p Value) option" where
  "read_selected E ch h ks =
     (case location_for_read ch h of
        Inl e \<Rightarrow> Some (Inl e)
      | Inr a \<Rightarrow> select_from_chunk_raw E ch a ks)"

definition read_partial_raw :: "'p Chunk \<Rightarrow> u64 \<Rightarrow> nat \<Rightarrow> nat \<Rightarrow> ReadError + bytes" where
  "read_partial_raw ch h off len =
     (case location_for_read ch h of
        Inl e \<Rightarrow> Inl e
      | Inr a \<Rightarrow> Inr (load_bytes (memory ch) (a + off) len))"

section \<open>Writing\<close>

text \<open>\<^verbatim>\<open>OwnedCell::write_to_chunk_with_schema\<close>. The cell is a mutable argument: the
  result carries it with the version the call left in it.\<close>

definition plan_cell ::
  "'p Lib \<Rightarrow> Schema \<Rightarrow> 'p Value \<Rightarrow> ('p WriteError, nat \<times> 'p Instruction list) result" where
  "plan_cell L sch v =
     res_bind (plan_write_field L (static_bound sch) (schema_fields sch) v False) (\<lambda>(t, js).
       if is_dynamic sch then emit js (plan_write_dynamic_fields L t (schema_fields sch) v)
       else Ok (t, js))"

definition cell_content_writer ::
  "'p Lib \<Rightarrow> CellHeader \<Rightarrow> 'p Instruction list \<Rightarrow> addr \<Rightarrow> mem \<Rightarrow> mem" where
  "cell_content_writer L chd js a m =
     execute_plan L (a + CELL_HEADER_SIZE) js (write_cell_header chd a m)"

definition write_to_chunk_with_schema ::
  "'p Env \<Rightarrow> 'p cleaner \<Rightarrow> Schema \<Rightarrow> 'p OwnedCell \<Rightarrow> 'p Chunk
     \<Rightarrow> (('p WriteError + addr) \<times> 'p OwnedCell \<times> 'p Chunk) option" where
  "write_to_chunk_with_schema E clean sch cell ch =
     (case plan_cell (env_lib E) sch (data cell) of
        Panic \<Rightarrow> None
      | Err e \<Rightarrow> Some (Inl e, cell, ch)
      | Ok (tail, js) \<Rightarrow>
          (let entry_body_size = tail + CELL_HEADER_SIZE;
               len_bytes = count_len_bytes (of_nat entry_body_size);
               total_size = Entry_size len_bytes (of_nat entry_body_size)
           in if total_size > MAX_CELL_SIZE
              then Some (Inl (WE_CellIsTooLarge (unat total_size)), cell, ch)
              else case try_acquire E clean total_size ch of
                     None \<Rightarrow> None
                   | Some (pe_opt, ch1) \<Rightarrow>
                       (let cell1 = cell\<lparr>header := (header cell)\<lparr>version := version (header cell) + 1\<rparr>\<rparr>
                        in case pe_opt of
                             None \<Rightarrow> Some (Inl WE_CannotAllocateSpace, cell1, ch1)
                           | Some pe \<Rightarrow>
                               (let m = encode_to (memory ch1) (pe_addr pe) CELL (of_nat entry_body_size)
                                          len_bytes (cell_content_writer (env_lib E) (header cell1) js)
                                in map_option (\<lambda>ch2. (Inr (pe_addr pe), cell1, ch2))
                                     (drop_pending pe (ch1\<lparr>memory := m\<rparr>))))))"

definition write_cell_to_chunk ::
  "'p Env \<Rightarrow> 'p cleaner \<Rightarrow> 'p OwnedCell \<Rightarrow> 'p Chunk
     \<Rightarrow> (('p WriteError + (addr \<times> Schema)) \<times> 'p OwnedCell \<times> 'p Chunk) option" where
  "write_cell_to_chunk E clean cell ch =
     (let sid = schema (header cell)
      in case SchemasMap_get (schemas ch) sid of
           None \<Rightarrow> Some (Inl (WE_SchemaDoesNotExisted sid), cell, ch)
         | Some sch \<Rightarrow>
             map_option (\<lambda>(r, cell', ch'). (map_sum id (\<lambda>a. (a, sch)) r, cell', ch'))
               (write_to_chunk_with_schema E clean sch cell ch))"

definition request_index :: "'p IndexReq \<Rightarrow> 'p Chunk \<Rightarrow> 'p Chunk" where
  "request_index r ch = ch\<lparr>index_builder := map_option (\<lambda>rs. rs @ [r]) (index_builder ch)\<rparr>"

definition set_index :: "u64 \<Rightarrow> addr \<Rightarrow> 'p Chunk \<Rightarrow> 'p Chunk" where
  "set_index h a ch = ch\<lparr>cell_index := (cell_index ch)(h \<mapsto> a)\<rparr>"

text \<open>\<^verbatim>\<open>mark_dead_entry_with_seg\<close> on the segment with key \<open>k\<close>, and
  \<^verbatim>\<open>mark_dead_entry_with_cell\<close>, which looks the segment up or panics.\<close>

definition mark_dead_entry_with_seg :: "addr \<Rightarrow> nat \<Rightarrow> 'p Chunk \<Rightarrow> 'p Chunk option" where
  "mark_dead_entry_with_seg a k ch =
     (case decode_from (memory ch) a (\<lambda>_ _. ()) of
        None \<Rightarrow> None
      | Some (eh, _) \<Rightarrow>
          Some (modify_segment k (\<lambda>s. s\<lparr>dead_space := dead_space s + content_length eh\<rparr>) ch))"

definition mark_dead_entry_with_cell :: "addr \<Rightarrow> 'p Chunk \<Rightarrow> 'p Chunk option" where
  "mark_dead_entry_with_cell a ch =
     (case locate_segment ch a of
        None \<Rightarrow> None
      | Some k \<Rightarrow> mark_dead_entry_with_seg a k ch)"

definition write_cell ::
  "'p Env \<Rightarrow> 'p cleaner \<Rightarrow> 'p OwnedCell \<Rightarrow> 'p Chunk
     \<Rightarrow> (('p WriteError + CellHeader) \<times> 'p OwnedCell \<times> 'p Chunk) option" where
  "write_cell E clean cell ch =
     (case write_cell_to_chunk E clean cell ch of
        None \<Rightarrow> None
      | Some (Inl e, cell', ch') \<Rightarrow> Some (Inl e, cell', ch')
      | Some (Inr (a, sch), cell', ch') \<Rightarrow>
          (let h = hash (header cell')
           in if cell_index ch' h = None
              then Some (Inr (header cell'), cell',
                     request_index (EnsureIndices cell' sch None) (set_index h a ch'))
              else Some (Inl WE_CellAlreadyExisted, cell', ch')))"

text \<open>\<^verbatim>\<open>old_index_res\<close>: the old cell, read only when there is an index builder.\<close>

definition old_index_res ::
  "'p Env \<Rightarrow> 'p Chunk \<Rightarrow> addr \<Rightarrow> ('p WriteError + 'p OwnedCell option) option" where
  "old_index_res E ch a =
     (if index_builder ch \<noteq> None
      then map_option (map_sum WE_ReadError (\<lambda>(c, _). Some c)) (from_chunk_raw E ch a)
      else Some (Inr None))"

definition update_cell ::
  "'p Env \<Rightarrow> 'p cleaner \<Rightarrow> 'p OwnedCell \<Rightarrow> 'p Chunk
     \<Rightarrow> (('p WriteError + CellHeader) \<times> 'p OwnedCell \<times> 'p Chunk) option" where
  "update_cell E clean cell ch =
     (let h = hash (header cell)
      in case write_cell_to_chunk E clean cell ch of
           None \<Rightarrow> None
         | Some (Inl e, cell', ch') \<Rightarrow> Some (Inl e, cell', ch')
         | Some (Inr (new_loc, sch), cell', ch') \<Rightarrow>
             (case location_for_write ch' h of
                Some loc \<Rightarrow>
                  (case old_index_res E ch' loc of
                     None \<Rightarrow> None
                   | Some (Inl e) \<Rightarrow> Some (Inl e, cell', ch')
                   | Some (Inr old) \<Rightarrow>
                       map_option (\<lambda>ch2. (Inr (header cell'), cell', ch2))
                         (mark_dead_entry_with_cell loc
                           (set_index h new_loc (request_index (EnsureIndices cell' sch old) ch'))))
              | None \<Rightarrow>
                  map_option (\<lambda>ch2. (Inl WE_CellDoesNotExisted, cell', ch2))
                    (mark_dead_entry_with_cell new_loc ch')))"

text \<open>\<^verbatim>\<open>upsert_cell\<close>. The retry of its loop needs a concurrent insertion between the
  lookup and the reservation; here the reservation fails only for an entry with address zero,
  which no operation creates, and then the loop never ends.\<close>

definition upsert_cell ::
  "'p Env \<Rightarrow> 'p cleaner \<Rightarrow> 'p OwnedCell \<Rightarrow> 'p Chunk
     \<Rightarrow> (('p WriteError + CellHeader) \<times> 'p OwnedCell \<times> 'p Chunk) option" where
  "upsert_cell E clean cell ch =
     (let h = hash (header cell)
      in case write_cell_to_chunk E clean cell ch of
           None \<Rightarrow> None
         | Some (Inl e, cell', ch') \<Rightarrow> Some (Inl e, cell', ch')
         | Some (Inr (new_loc, sch), cell', ch') \<Rightarrow>
             (case location_for_write ch' h of
                Some loc \<Rightarrow>
                  (case old_index_res E ch' loc of
                     None \<Rightarrow> None
                   | Some (Inl e) \<Rightarrow> Some (Inl e, cell', ch')
                   | Some (Inr old) \<Rightarrow>
                       map_option (\<lambda>ch2. (Inr (header cell'), cell', ch2))
                         (mark_dead_entry_with_cell loc
                           (request_index (EnsureIndices cell' sch old) (set_index h new_loc ch'))))
              | None \<Rightarrow>
                  if cell_index ch' h = None
                  then Some (Inr (header cell'), cell',
                         request_index (EnsureIndices cell' sch None) (set_index h new_loc ch'))
                  else None))"

text \<open>\<^verbatim>\<open>update_cell_by\<close>: writing may run the cleaner, which may move the cell, so the
  location is checked again and the loop may repeat.\<close>

partial_function (option) update_cell_by ::
  "'p Env \<Rightarrow> 'p cleaner \<Rightarrow> u64 \<Rightarrow> ('p OwnedCell \<Rightarrow> 'p OwnedCell option) \<Rightarrow> 'p Chunk
     \<Rightarrow> (('p WriteError + 'p OwnedCell) \<times> 'p Chunk) option"
where
  [code]: "update_cell_by E clean h upd ch =
     (case location_for_write ch h of
        None \<Rightarrow> Some (Inl WE_CellDoesNotExisted, ch)
      | Some old_loc \<Rightarrow>
          (case from_chunk_raw E ch old_loc of
             None \<Rightarrow> None
           | Some (Inl e) \<Rightarrow> Some (Inl (WE_ReadError e), ch)
           | Some (Inr (cell, _)) \<Rightarrow>
               (case upd cell of
                  None \<Rightarrow> Some (Inl WE_UserCanceledUpdate, ch)
                | Some new_cell \<Rightarrow>
                    (case write_cell_to_chunk E clean new_cell ch of
                       None \<Rightarrow> None
                     | Some (Inl e, _, ch') \<Rightarrow> Some (Inl e, ch')
                     | Some (Inr (new_loc, sch), new_cell', ch') \<Rightarrow>
                         if location_for_write ch' h = Some old_loc
                         then map_option (\<lambda>ch2. (Inr new_cell', ch2))
                                (mark_dead_entry_with_cell old_loc
                                  (request_index (EnsureIndices new_cell' sch (Some cell))
                                    (set_index h new_loc ch')))
                         else Option.bind (mark_dead_entry_with_cell new_loc ch')
                                (update_cell_by E clean h upd)))))"

section \<open>Removing\<close>

text \<open>\<^verbatim>\<open>put_tombstone\<close> retries until it has space, running the cleaner each time.\<close>

partial_function (option) acquire_tombstone ::
  "'p Env \<Rightarrow> 'p cleaner \<Rightarrow> 'p Chunk \<Rightarrow> (PendingEntry \<times> 'p Chunk) option"
where
  [code]: "acquire_tombstone E clean ch =
     Option.bind (try_acquire E clean TOMBSTONE_ENTRY_SIZE ch)
       (\<lambda>(pe_opt, ch1). case pe_opt of
           Some pe \<Rightarrow> Some (pe, ch1)
         | None \<Rightarrow> acquire_tombstone E clean ch1)"

definition put_tombstone ::
  "'p Env \<Rightarrow> 'p cleaner \<Rightarrow> CellHeader \<Rightarrow> u64 \<Rightarrow> 'p Chunk \<Rightarrow> 'p Chunk option" where
  "put_tombstone E clean chd sid ch =
     (case acquire_tombstone E clean ch of
        None \<Rightarrow> None
      | Some (pe, ch1) \<Rightarrow>
          (let m = Tombstone_put (pe_addr pe) sid (version chd) (partition chd) (hash chd) (memory ch1);
               ch2 = modify_segment (pe_seg pe) (\<lambda>s. s\<lparr>tombstones := tombstones s + 1\<rparr>)
                       (ch1\<lparr>memory := m\<rparr>)
           in drop_pending pe ch2))"

definition put_tombstone_by_cell_loc ::
  "'p Env \<Rightarrow> 'p cleaner \<Rightarrow> addr \<Rightarrow> 'p Chunk \<Rightarrow> (('p WriteError + unit) \<times> 'p Chunk) option" where
  "put_tombstone_by_cell_loc E clean loc ch =
     (case header_from_chunk_raw (memory ch) loc of
        None \<Rightarrow> None
      | Some (Inl e) \<Rightarrow> Some (Inl (WE_ReadError e), ch)
      | Some (Inr (chd, _, _)) \<Rightarrow>
          (case locate_segment ch loc of
             None \<Rightarrow> None
           | Some k \<Rightarrow>
               (case map_of (segs ch) k of
                  None \<Rightarrow> None
                | Some seg \<Rightarrow>
                    (case put_tombstone E clean chd (seg_id seg) ch of
                       None \<Rightarrow> None
                     | Some ch1 \<Rightarrow>
                         map_option (\<lambda>ch2. (Inr (), ch2)) (mark_dead_entry_with_seg loc k ch1)))))"

definition lock_cell :: "u64 \<Rightarrow> 'p Chunk \<Rightarrow> 'p Chunk" where
  "lock_cell h ch = ch\<lparr>cell_locks := insert h (cell_locks ch)\<rparr>"

definition unlock_cell :: "u64 \<Rightarrow> 'p Chunk \<Rightarrow> 'p Chunk" where
  "unlock_cell h ch = ch\<lparr>cell_locks := cell_locks ch - {h}\<rparr>"

definition remove_index :: "u64 \<Rightarrow> 'p Chunk \<Rightarrow> 'p Chunk" where
  "remove_index h ch = ch\<lparr>cell_index := (cell_index ch)(h := None)\<rparr>"

text \<open>\<^verbatim>\<open>remove_cell\<close> holds the guard of the index entry until the end.\<close>

definition remove_cell ::
  "'p Env \<Rightarrow> 'p cleaner \<Rightarrow> u64 \<Rightarrow> 'p Chunk \<Rightarrow> (('p WriteError + unit) \<times> 'p Chunk) option" where
  "remove_cell E clean h ch =
     (case cell_index ch h of
        None \<Rightarrow> Some (Inl WE_CellDoesNotExisted, ch)
      | Some loc \<Rightarrow>
          (let ch0 = lock_cell h ch
           in case (if index_builder ch = None then Some (Inr ch0)
                    else map_option (map_sum WE_ReadError
                           (\<lambda>(cell, sch). request_index (RemoveIndices cell sch) ch0))
                           (from_chunk_raw E ch0 loc)) of
                None \<Rightarrow> None
              | Some (Inl e) \<Rightarrow> Some (Inl e, unlock_cell h ch0)
              | Some (Inr ch1) \<Rightarrow>
                  (case put_tombstone_by_cell_loc E clean loc ch1 of
                     None \<Rightarrow> None
                   | Some (Inl e, ch2) \<Rightarrow> Some (Inl e, unlock_cell h ch2)
                   | Some (Inr _, ch2) \<Rightarrow> Some (Inr (), unlock_cell h (remove_index h ch2)))))"

definition remove_cell_by ::
  "'p Env \<Rightarrow> 'p cleaner \<Rightarrow> u64 \<Rightarrow> ('p OwnedCell \<Rightarrow> bool) \<Rightarrow> 'p Chunk
     \<Rightarrow> (('p WriteError + unit) \<times> 'p Chunk) option" where
  "remove_cell_by E clean h predict ch =
     (case cell_index ch h of
        None \<Rightarrow> Some (Inl WE_CellDoesNotExisted, ch)
      | Some loc \<Rightarrow>
          (let ch0 = lock_cell h ch
           in case from_chunk_raw E ch0 loc of
                None \<Rightarrow> None
              | Some (Inl e) \<Rightarrow> Some (Inl (WE_ReadError e), unlock_cell h ch0)
              | Some (Inr (cell, sch)) \<Rightarrow>
                  if predict cell
                  then (case put_tombstone_by_cell_loc E clean loc ch0 of
                          None \<Rightarrow> None
                        | Some (Inl e, ch2) \<Rightarrow> Some (Inl e, unlock_cell h ch2)
                        | Some (Inr _, ch2) \<Rightarrow>
                            Some (Inr (), unlock_cell h (remove_index h
                              (request_index (RemoveIndices cell sch) ch2))))
                  else Some (Inl WE_CellDoesNotExisted, unlock_cell h ch0)))"

section \<open>Maintenance\<close>

text \<open>\<^verbatim>\<open>scan_tombstone_survival\<close> on one segment: skip it unless it is worth
  scanning, otherwise count the tombstones whose segment is gone. The two comparisons of floats
  are written over the integers they come from.\<close>

definition is_dead_tombstone :: "mem \<Rightarrow> 'p Chunk \<Rightarrow> EntryMeta \<Rightarrow> bool" where
  "is_dead_tombstone m ch e = (entry_type (entry_header e) = TOMBSTONE \<and>
     \<not> contains_seg ch (ts_segment_id (read_from_entry_content_addr m (body_pos e))))"

definition scan_tombstones_seg :: "'p Env \<Rightarrow> 'p Chunk \<Rightarrow> Segment \<Rightarrow> Segment option" where
  "scan_tombstones_seg E ch seg =
     (if unat (tombstones seg) * TOMBSTONE_SIZE * 5 < SEGMENT_SIZE
         \<or> unat (dead_tombstones seg) * 10 > unat (tombstones seg) * 8
         \<or> env_time E - last_tombstones_scanned seg < 5000
      then Some seg
      else map_option (\<lambda>es.
             seg\<lparr>dead_tombstones := of_nat (length (filter (is_dead_tombstone (memory ch) ch) es)),
                 last_tombstones_scanned := env_time E\<rparr>)
           (entry_iter (memory ch) seg))"

fun scan_tombstone_survival :: "'p Env \<Rightarrow> nat list \<Rightarrow> 'p Chunk \<Rightarrow> 'p Chunk option" where
  "scan_tombstone_survival E [] ch = Some ch"
| "scan_tombstone_survival E (k # ks) ch =
     (case map_of (segs ch) k of
        None \<Rightarrow> scan_tombstone_survival E ks ch
      | Some seg \<Rightarrow>
          (case scan_tombstones_seg E ch seg of
             None \<Rightarrow> None
           | Some seg' \<Rightarrow> scan_tombstone_survival E ks (modify_segment k (\<lambda>_. seg') ch)))"

text \<open>The candidates of the two cleaners. The rates are compared with the constants
  \<^verbatim>\<open>90f32\<close> and \<^verbatim>\<open>50f32\<close>, though they are fractions of one.\<close>

definition segs_for_compact_cleaner :: "'p Chunk \<Rightarrow> Segment list" where
  "segs_for_compact_cleaner ch =
     sort_key living_rate
       (filter (\<lambda>seg. living_rate seg < 90 \<and> seg_id seg \<noteq> head_seg_id ch \<and> no_references seg)
          (segments ch))"

definition segment_utilization :: "Segment \<Rightarrow> rat" where
  "segment_utilization seg = of_nat (unat (living_space seg)) / of_nat SEGMENT_SIZE"

definition segs_for_combine_cleaner :: "'p Chunk \<Rightarrow> Segment list" where
  "segs_for_combine_cleaner ch =
     sort_key segment_utilization
       (filter (\<lambda>seg. segment_utilization seg < 50 \<and> head_seg_id ch \<noteq> seg_id seg \<and> no_references seg)
          (segments ch))"

fun check_and_archive :: "nat list \<Rightarrow> 'p Chunk \<Rightarrow> 'p Chunk option" where
  "check_and_archive [] ch = Some ch"
| "check_and_archive (k # ks) ch =
     (if k = unat (head_seg_id ch) then check_and_archive ks ch
      else case map_of (segs ch) k of
             None \<Rightarrow> check_and_archive ks ch
           | Some seg \<Rightarrow>
               if archived seg then check_and_archive ks ch
               else (case archive (memory ch) seg (disk ch) of
                       None \<Rightarrow> None
                     | Some (_, fs) \<Rightarrow>
                         check_and_archive ks
                           (modify_segment k (\<lambda>s. s\<lparr>archived := True\<rparr>) (ch\<lparr>disk := fs\<rparr>))))"

definition check_and_archive_segments :: "'p Chunk \<Rightarrow> 'p Chunk option" where
  "check_and_archive_segments ch = check_and_archive (segment_ids ch) ch"

text \<open>\<^verbatim>\<open>live_entries\<close>: cells the index still points to and tombstones whose segment
  still exists. Another entry type panics.\<close>

datatype EntryContent = EC_Cell CellHeader | EC_Tombstone Tombstone | EC_Undecided

record Entry =
  entry_meta :: EntryMeta
  entry_content :: EntryContent

definition live_entry :: "'p Chunk \<Rightarrow> EntryMeta \<Rightarrow> Entry option option" where
  "live_entry ch e =
     (let ty = entry_type (entry_header e)
      in if ty = CELL
         then (let chd = cell_header_from_entry_content_addr (memory ch) (body_pos e)
               in Some (if cell_index ch (hash chd) = Some (entry_pos e)
                        then Some \<lparr>entry_meta = e, entry_content = EC_Cell chd\<rparr> else None))
         else if ty = TOMBSTONE
         then (let t = read_from_entry_content_addr (memory ch) (body_pos e)
               in Some (if contains_seg ch (ts_segment_id t)
                        then Some \<lparr>entry_meta = e, entry_content = EC_Tombstone t\<rparr> else None))
         else None)"

fun filter_live :: "'p Chunk \<Rightarrow> EntryMeta list \<Rightarrow> Entry list option" where
  "filter_live ch [] = Some []"
| "filter_live ch (e # es) =
     (case live_entry ch e of
        None \<Rightarrow> None
      | Some None \<Rightarrow> filter_live ch es
      | Some (Some le) \<Rightarrow> map_option ((#) le) (filter_live ch es))"

definition live_entries :: "'p Chunk \<Rightarrow> Segment \<Rightarrow> Entry list option" where
  "live_entries ch seg = Option.bind (entry_iter (memory ch) seg) (filter_live ch)"

section \<open>Chunks\<close>

text \<open>The list of chunks and the dispatch by partition. \<open>None\<close> also stands for the panic on an
  empty list.\<close>

type_synonym 'p Chunks = "'p Chunk list"

definition locate_chunk_by_partition :: "'p Chunks \<Rightarrow> u64 \<Rightarrow> nat option" where
  "locate_chunk_by_partition chs part =
     (if chs = [] then None else Some (unat part mod length chs))"

definition locate_chunk_by_key :: "'p Chunks \<Rightarrow> Id \<Rightarrow> (nat \<times> u64) option" where
  "locate_chunk_by_key chs key =
     map_option (\<lambda>i. (i, lower key)) (locate_chunk_by_partition chs (higher key))"

definition on_chunk ::
  "'p Chunks \<Rightarrow> nat \<Rightarrow> ('p Chunk \<Rightarrow> ('r \<times> 'p Chunk) option) \<Rightarrow> ('r \<times> 'p Chunks) option" where
  "on_chunk chs i f = map_option (\<lambda>(r, ch). (r, chs[i := ch])) (f (chs ! i))"

fun Chunks_new_loop ::
  "'p Env \<Rightarrow> nat list \<Rightarrow> nat \<Rightarrow> SchemasMap \<Rightarrow> 'p IndexReq list option \<Rightarrow> string option \<Rightarrow> string option
     \<Rightarrow> (nat \<Rightarrow> addr) \<Rightarrow> mem \<Rightarrow> FileSystem \<Rightarrow> 'p Chunks option" where
  "Chunks_new_loop E [] sz meta ib bs ws mmap_addr m fs = Some []"
| "Chunks_new_loop E (i # is) sz meta ib bs ws mmap_addr m fs =
     (case Chunk_new E i sz meta ib
              (map_option (\<lambda>d. d @ ''/chunk-bk-'' @ show_nat i) bs)
              (map_option (\<lambda>d. d @ ''/chunk-wal-'' @ show_nat i) ws) (mmap_addr i) m fs of
        None \<Rightarrow> None
      | Some ch \<Rightarrow>
          map_option ((#) ch) (Chunks_new_loop E is sz meta ib bs ws mmap_addr m (disk ch)))"

definition Chunks_new ::
  "'p Env \<Rightarrow> nat \<Rightarrow> nat \<Rightarrow> SchemasMap \<Rightarrow> 'p IndexReq list option \<Rightarrow> string option \<Rightarrow> string option
     \<Rightarrow> (nat \<Rightarrow> addr) \<Rightarrow> mem \<Rightarrow> FileSystem \<Rightarrow> 'p Chunks option" where
  "Chunks_new E cnt sz meta ib bs ws mmap_addr m fs =
     (if cnt = 0 \<or> sz < SEGMENT_SIZE then None
      else Chunks_new_loop E [0 ..< cnt] (sz div cnt) meta ib bs ws mmap_addr m fs)"

definition Chunks_read_cell :: "'p Env \<Rightarrow> 'p Chunks \<Rightarrow> Id \<Rightarrow> (ReadError + 'p OwnedCell) option" where
  "Chunks_read_cell E chs key =
     (case locate_chunk_by_key chs key of
        None \<Rightarrow> None
      | Some (i, h) \<Rightarrow> read_cell E (chs ! i) h)"

definition Chunks_head_cell :: "'p Chunks \<Rightarrow> Id \<Rightarrow> (ReadError + CellHeader) option" where
  "Chunks_head_cell chs key =
     (case locate_chunk_by_key chs key of
        None \<Rightarrow> None
      | Some (i, h) \<Rightarrow> head_cell (chs ! i) h)"

definition Chunks_read_selected ::
  "'p Env \<Rightarrow> 'p Chunks \<Rightarrow> Id \<Rightarrow> u64 list \<Rightarrow> (ReadError + 'p Value) option" where
  "Chunks_read_selected E chs key ks =
     (case locate_chunk_by_key chs key of
        None \<Rightarrow> None
      | Some (i, h) \<Rightarrow> read_selected E (chs ! i) h ks)"

definition Chunks_read_partial_raw ::
  "'p Chunks \<Rightarrow> Id \<Rightarrow> nat \<Rightarrow> nat \<Rightarrow> (ReadError + bytes) option" where
  "Chunks_read_partial_raw chs key off len =
     (case locate_chunk_by_key chs key of
        None \<Rightarrow> None
      | Some (i, h) \<Rightarrow> Some (read_partial_raw (chs ! i) h off len))"

definition Chunks_location_for_read :: "'p Chunks \<Rightarrow> Id \<Rightarrow> (ReadError + addr) option" where
  "Chunks_location_for_read chs key =
     (case locate_chunk_by_key chs key of
        None \<Rightarrow> None
      | Some (i, h) \<Rightarrow> Some (location_for_read (chs ! i) h))"

definition address_of :: "'p Chunks \<Rightarrow> Id \<Rightarrow> addr option" where
  "address_of chs key =
     (case Chunks_location_for_read chs key of Some (Inr a) \<Rightarrow> Some a | _ \<Rightarrow> None)"

definition Chunks_write_cell ::
  "'p Env \<Rightarrow> 'p cleaner \<Rightarrow> 'p OwnedCell \<Rightarrow> 'p Chunks
     \<Rightarrow> ((('p WriteError + CellHeader) \<times> 'p OwnedCell) \<times> 'p Chunks) option" where
  "Chunks_write_cell E clean cell chs =
     (case locate_chunk_by_partition chs (partition (header cell)) of
        None \<Rightarrow> None
      | Some i \<Rightarrow> on_chunk chs i (\<lambda>ch. map_option (\<lambda>(r, c, ch'). ((r, c), ch')) (write_cell E clean cell ch)))"

definition Chunks_update_cell ::
  "'p Env \<Rightarrow> 'p cleaner \<Rightarrow> 'p OwnedCell \<Rightarrow> 'p Chunks
     \<Rightarrow> ((('p WriteError + CellHeader) \<times> 'p OwnedCell) \<times> 'p Chunks) option" where
  "Chunks_update_cell E clean cell chs =
     (case locate_chunk_by_partition chs (partition (header cell)) of
        None \<Rightarrow> None
      | Some i \<Rightarrow> on_chunk chs i (\<lambda>ch. map_option (\<lambda>(r, c, ch'). ((r, c), ch')) (update_cell E clean cell ch)))"

definition Chunks_upsert_cell ::
  "'p Env \<Rightarrow> 'p cleaner \<Rightarrow> 'p OwnedCell \<Rightarrow> 'p Chunks
     \<Rightarrow> ((('p WriteError + CellHeader) \<times> 'p OwnedCell) \<times> 'p Chunks) option" where
  "Chunks_upsert_cell E clean cell chs =
     (case locate_chunk_by_partition chs (partition (header cell)) of
        None \<Rightarrow> None
      | Some i \<Rightarrow> on_chunk chs i (\<lambda>ch. map_option (\<lambda>(r, c, ch'). ((r, c), ch')) (upsert_cell E clean cell ch)))"

definition Chunks_remove_cell ::
  "'p Env \<Rightarrow> 'p cleaner \<Rightarrow> Id \<Rightarrow> 'p Chunks \<Rightarrow> (('p WriteError + unit) \<times> 'p Chunks) option" where
  "Chunks_remove_cell E clean key chs =
     (case locate_chunk_by_key chs key of
        None \<Rightarrow> None
      | Some (i, h) \<Rightarrow> on_chunk chs i (remove_cell E clean h))"

definition Chunks_remove_cell_by ::
  "'p Env \<Rightarrow> 'p cleaner \<Rightarrow> Id \<Rightarrow> ('p OwnedCell \<Rightarrow> bool) \<Rightarrow> 'p Chunks
     \<Rightarrow> (('p WriteError + unit) \<times> 'p Chunks) option" where
  "Chunks_remove_cell_by E clean key predict chs =
     (case locate_chunk_by_key chs key of
        None \<Rightarrow> None
      | Some (i, h) \<Rightarrow> on_chunk chs i (remove_cell_by E clean h predict))"

definition Chunks_update_cell_by ::
  "'p Env \<Rightarrow> 'p cleaner \<Rightarrow> Id \<Rightarrow> ('p OwnedCell \<Rightarrow> 'p OwnedCell option) \<Rightarrow> 'p Chunks
     \<Rightarrow> (('p WriteError + 'p OwnedCell) \<times> 'p Chunks) option" where
  "Chunks_update_cell_by E clean key upd chs =
     (case locate_chunk_by_key chs key of
        None \<Rightarrow> None
      | Some (i, h) \<Rightarrow> on_chunk chs i (update_cell_by E clean h upd))"

section \<open>The chunk invariant\<close>

text \<open>Entries are cells and tombstones and hold at least a header.\<close>

definition entry_ok :: "EntryMeta \<Rightarrow> bool" where
  "entry_ok e = (entry_type (entry_header e) \<in> {CELL, TOMBSTONE} \<and>
     32 \<le> unat (content_length (entry_header e)))"

definition seg_inv :: "mem \<Rightarrow> SegmentAllocator \<Rightarrow> nat \<Rightarrow> Segment \<Rightarrow> bool" where
  "seg_inv m al k seg = (k = unat (seg_id seg) \<and> k = id_by_addr al (seg_addr seg) \<and>
     seg_bound seg = seg_addr seg + SEGMENT_SIZE \<and> \<not> dropped seg \<and>
     (\<exists>es. seg_log m seg es \<and> (\<forall>e \<in> set es. entry_ok e)))"

text \<open>An address the index may hold for a hash: the position of a cell entry with that hash in the
  log of one of the segments.\<close>

definition indexed :: "mem \<Rightarrow> (nat \<Rightarrow> Segment option) \<Rightarrow> u64 \<Rightarrow> addr \<Rightarrow> bool" where
  "indexed m sgs h a = (\<exists>k seg es e. sgs k = Some seg \<and> seg_log m seg es \<and> e \<in> set es \<and>
     entry_pos e = a \<and> entry_type (entry_header e) = CELL \<and>
     hash (cell_header_from_entry_content_addr m (body_pos e)) = h)"

definition chunk_inv :: "'p Chunk \<Rightarrow> bool" where
  "chunk_inv ch = (distinct (map fst (segs ch)) \<and>
     (\<forall>k seg. map_of (segs ch) k = Some seg \<longrightarrow> seg_inv (memory ch) (allocator ch) k seg) \<and>
     alloc_inv (allocator ch) (map (seg_addr \<circ> snd) (segs ch)) \<and>
     0 < base (allocator ch) \<and> limit (allocator ch) < 2 ^ 64 \<and>
     map_of (segs ch) (unat (head_seg_id ch)) \<noteq> None \<and>
     (\<forall>h a. cell_index ch h = Some a \<longrightarrow> indexed (memory ch) (map_of (segs ch)) h a))"

text \<open>The same entry at another address or in another memory; and what the cleaner must keep: the
  schemas, and for every indexed hash its entry.\<close>

definition same_entry :: "mem \<Rightarrow> mem \<Rightarrow> addr \<Rightarrow> addr \<Rightarrow> bool" where
  "same_entry m m' a a' = (\<exists>e. entry_at m a = Some e \<and>
     load_bytes m' a' (entry_size e) = load_bytes m a (entry_size e))"

definition keeps :: "'p Chunk \<Rightarrow> 'p Chunk \<Rightarrow> bool" where
  "keeps ch ch' = (schemas ch' = schemas ch \<and>
     (\<forall>h. rel_option (same_entry (memory ch) (memory ch')) (cell_index ch h) (cell_index ch' h)))"

section \<open>Lemmas: the invariant\<close>

lemma chunk_invD:
  assumes "chunk_inv ch"
  shows inv_distinct: "distinct (map fst (segs ch))"
    and inv_seg: "map_of (segs ch) k = Some seg \<Longrightarrow> seg_inv (memory ch) (allocator ch) k seg"
    and inv_alloc: "alloc_inv (allocator ch) (map (seg_addr \<circ> snd) (segs ch))"
    and inv_base: "0 < base (allocator ch)"
    and inv_limit: "limit (allocator ch) < 2 ^ 64"
    and inv_head: "\<exists>seg. map_of (segs ch) (unat (head_seg_id ch)) = Some seg"
    and inv_index: "cell_index ch h = Some a \<Longrightarrow> indexed (memory ch) (map_of (segs ch)) h a"
  using assms by (auto simp: chunk_inv_def)

lemma seg_invD:
  assumes "seg_inv m al k seg"
  shows "k = unat (seg_id seg)" "k = id_by_addr al (seg_addr seg)"
    "seg_bound seg = seg_addr seg + SEGMENT_SIZE" "\<not> dropped seg"
    "\<exists>es. seg_log m seg es \<and> (\<forall>e \<in> set es. entry_ok e)"
  using assms by (auto simp: seg_inv_def)

lemma seg_log_unique: "seg_log m seg es \<Longrightarrow> seg_log m seg es' \<Longrightarrow> es = es'"
  by (drule seg_log_iter, drule seg_log_iter) simp

lemma same_entry_refl: "entry_at m a = Some e \<Longrightarrow> same_entry m m a a"
  by (auto simp: same_entry_def)

lemma same_entry_trans:
  assumes "same_entry m m' a a'" and "same_entry m' m'' a' a''"
  shows "same_entry m m'' a a''"
proof -
  obtain e where e: "entry_at m a = Some e" "load_bytes m' a' (entry_size e) = load_bytes m a (entry_size e)"
    using assms(1) by (auto simp: same_entry_def)
  have "entry_at m' a' = Some (e\<lparr>body_pos := a' + (body_pos e - a), entry_pos := a'\<rparr>)"
    by (rule entry_at_move [OF e])
  then show ?thesis using assms(2) e by (auto simp: same_entry_def)
qed

lemma inv_index_entry:
  assumes "chunk_inv ch" and "cell_index ch h = Some a"
  obtains k seg es e where "map_of (segs ch) k = Some seg" "seg_log (memory ch) seg es" "e \<in> set es"
    "entry_pos e = a" "entry_at (memory ch) a = Some e" "entry_type (entry_header e) = CELL"
    "hash (cell_header_from_entry_content_addr (memory ch) (body_pos e)) = h" "entry_ok e"
proof -
  obtain k seg es e where *: "map_of (segs ch) k = Some seg" "seg_log (memory ch) seg es" "e \<in> set es"
      "entry_pos e = a" "entry_type (entry_header e) = CELL"
      "hash (cell_header_from_entry_content_addr (memory ch) (body_pos e)) = h"
    using inv_index [OF assms] by (auto simp: indexed_def)
  have ent: "entry_at (memory ch) a = Some e"
    using log_range_entry(1) [of "memory ch" _ _ es e] * by (auto simp: seg_log_def)
  have ok: "entry_ok e"
    using seg_invD(5) [OF inv_seg [OF assms(1) *(1)]] seg_log_unique [OF *(2)] *(3) by blast
  show ?thesis by (rule that [OF *(1-4) ent *(5,6) ok])
qed

lemma keeps_refl:
  assumes "chunk_inv ch" shows "keeps ch ch"
proof -
  have "rel_option (same_entry (memory ch) (memory ch)) (cell_index ch h) (cell_index ch h)" for h
  proof (cases "cell_index ch h")
    case (Some a)
    then obtain e where "entry_at (memory ch) a = Some e" by (rule inv_index_entry [OF assms])
    with Some show ?thesis by (simp add: same_entry_refl)
  qed simp
  then show ?thesis by (simp add: keeps_def)
qed

lemma keeps_trans:
  assumes "keeps ch ch1" and "keeps ch1 ch2" shows "keeps ch ch2"
proof -
  have "rel_option (same_entry (memory ch) (memory ch2)) (cell_index ch h) (cell_index ch2 h)" for h
  proof -
    have "rel_option (same_entry (memory ch) (memory ch1)) (cell_index ch h) (cell_index ch1 h)"
      "rel_option (same_entry (memory ch1) (memory ch2)) (cell_index ch1 h) (cell_index ch2 h)"
      using assms by (auto simp: keeps_def)
    then show ?thesis
      by (cases "cell_index ch h"; cases "cell_index ch1 h"; cases "cell_index ch2 h")
         (auto intro: same_entry_trans)
  qed
  then show ?thesis using assms by (simp add: keeps_def)
qed

text \<open>Fields that the invariant does not mention.\<close>

lemma chunk_inv_simps [simp]:
  "chunk_inv (ch\<lparr>disk := d\<rparr>) = chunk_inv ch"
  "chunk_inv (ch\<lparr>total_space := ts\<rparr>) = chunk_inv ch"
  "chunk_inv (ch\<lparr>index_builder := ib\<rparr>) = chunk_inv ch"
  "chunk_inv (ch\<lparr>cell_locks := ls\<rparr>) = chunk_inv ch"
  "chunk_inv (ch\<lparr>gc_lock := g\<rparr>) = chunk_inv ch"
  by (simp_all add: chunk_inv_def)

lemma keeps_simps [simp]:
  "keeps ch (ch'\<lparr>disk := d\<rparr>) = keeps ch ch'"
  "keeps ch (ch'\<lparr>total_space := ts\<rparr>) = keeps ch ch'"
  "keeps ch (ch'\<lparr>index_builder := ib\<rparr>) = keeps ch ch'"
  "keeps ch (ch'\<lparr>cell_locks := ls\<rparr>) = keeps ch ch'"
  "keeps ch (ch'\<lparr>gc_lock := g\<rparr>) = keeps ch ch'"
  "keeps ch (ch'\<lparr>segs := sg\<rparr>) = keeps ch ch'"
  "keeps ch (ch'\<lparr>allocator := al\<rparr>) = keeps ch ch'"
  "keeps ch (ch'\<lparr>head_seg_id := hid\<rparr>) = keeps ch ch'"
  by (simp_all add: keeps_def)

text \<open>Changing counters of a segment.\<close>

definition seg_core :: "Segment \<Rightarrow> u64 \<times> addr \<times> addr \<times> addr \<times> bool" where
  "seg_core s = (seg_id s, seg_addr s, seg_bound s, append_header s, dropped s)"

lemma seg_core_eqD:
  "seg_core s = seg_core t \<Longrightarrow> seg_id s = seg_id t \<and> seg_addr s = seg_addr t \<and>
     seg_bound s = seg_bound t \<and> append_header s = append_header t \<and> dropped s = dropped t"
  by (simp add: seg_core_def)

lemma seg_log_core: "seg_core s = seg_core t \<Longrightarrow> seg_log m s es = seg_log m t es"
  by (auto simp: seg_log_def dest: seg_core_eqD)

lemma seg_inv_core: "seg_core s = seg_core t \<Longrightarrow> seg_inv m al k s = seg_inv m al k t"
  using seg_log_core [of s t] by (auto simp: seg_inv_def dest: seg_core_eqD)

lemma map_fst_map_entry: "map fst (AList.map_entry k f xs) = map fst xs"
  by (induction xs) auto

lemma map_of_modify [simp]:
  "map_of (segs (modify_segment k f ch)) j =
     (if j = k then map_option f (map_of (segs ch) k) else map_of (segs ch) j)"
  by (simp add: modify_segment_def map_of_map_entry split: option.splits)

lemma modify_simps [simp]:
  "memory (modify_segment k f ch) = memory ch" "allocator (modify_segment k f ch) = allocator ch"
  "head_seg_id (modify_segment k f ch) = head_seg_id ch" "cell_index (modify_segment k f ch) = cell_index ch"
  "schemas (modify_segment k f ch) = schemas ch" "disk (modify_segment k f ch) = disk ch"
  "index_builder (modify_segment k f ch) = index_builder ch" "cell_locks (modify_segment k f ch) = cell_locks ch"
  "map fst (segs (modify_segment k f ch)) = map fst (segs ch)"
  "backup_storage (modify_segment k f ch) = backup_storage ch"
  "wal_storage (modify_segment k f ch) = wal_storage ch" "capacity (modify_segment k f ch) = capacity ch"
  "total_space (modify_segment k f ch) = total_space ch"
  by (simp_all add: modify_segment_def map_fst_map_entry)

lemma map_entry_core:
  "(\<And>s. g (f s) = g s) \<Longrightarrow> map (g \<circ> snd) (AList.map_entry k f xs) = map (g \<circ> snd) xs"
  by (induction xs) auto

lemma map_entry_same:
  "map_of xs k = Some v \<Longrightarrow> g v' = g v \<Longrightarrow> map (g \<circ> snd) (AList.map_entry k (\<lambda>_. v') xs) = map (g \<circ> snd) xs"
  by (induction xs) (auto split: if_splits)

lemma map_entry_id: "AList.map_entry k (\<lambda>s. s) xs = xs"
  by (induction xs) auto

lemma map_entry_twice: "AList.map_entry k f (AList.map_entry k (\<lambda>_. v) xs) = AList.map_entry k (\<lambda>_. f v) xs"
  by (induction xs) auto

lemma indexed_core:
  assumes "\<And>k. rel_option (\<lambda>s t. seg_core s = seg_core t) (sgs k) (sgs' k)"
  shows "indexed m sgs h a \<Longrightarrow> indexed m sgs' h a"
  unfolding indexed_def
proof (elim exE conjE)
  fix k seg es e
  assume A: "sgs k = Some seg" "seg_log m seg es" "e \<in> set es" "entry_pos e = a"
    "entry_type (entry_header e) = CELL" "hash (cell_header_from_entry_content_addr m (body_pos e)) = h"
  obtain seg' where s: "sgs' k = Some seg'" "seg_core seg = seg_core seg'"
    using assms [of k] A(1) by (cases "sgs' k") auto
  then show "\<exists>k seg es e. sgs' k = Some seg \<and> seg_log m seg es \<and> e \<in> set es \<and> entry_pos e = a \<and>
      entry_type (entry_header e) = CELL \<and> hash (cell_header_from_entry_content_addr m (body_pos e)) = h"
    using A seg_log_core [OF s(2)] by blast
qed

lemma chunk_inv_modify:
  assumes inv: "chunk_inv ch" and f: "\<And>s. seg_core (f s) = seg_core s"
  shows "chunk_inv (modify_segment k f ch)"
proof -
  have addrs: "map (seg_addr \<circ> snd) (segs (modify_segment k f ch)) = map (seg_addr \<circ> snd) (segs ch)"
    unfolding modify_segment_def using seg_core_eqD [OF f] by (simp add: map_entry_core)
  have "indexed (memory ch) (map_of (segs (modify_segment k f ch))) h a"
    if "cell_index ch h = Some a" for h a
    using inv_index [OF inv that]
    by (rule indexed_core [rotated]) (auto simp: f option.rel_map intro!: option.rel_refl_strong)
  moreover have "seg_inv (memory ch) (allocator ch) j seg"
    if "map_of (segs (modify_segment k f ch)) j = Some seg" for j seg
    using that inv_seg [OF inv] seg_inv_core [OF f] by (auto split: if_splits)
  ultimately show ?thesis
    using inv addrs by (auto simp: chunk_inv_def)
qed

lemma keeps_modify [simp]: "keeps ch (modify_segment k f ch') = keeps ch ch'"
  by (simp add: keeps_def)

section \<open>Lemmas: memory outside the used ranges\<close>

text \<open>A memory that agrees with the chunk's on the used range of every segment.\<close>

definition same_used :: "'p Chunk \<Rightarrow> mem \<Rightarrow> bool" where
  "same_used ch m' = (\<forall>k seg x. map_of (segs ch) k = Some seg \<longrightarrow> seg_addr seg \<le> x \<longrightarrow>
     x < append_header seg \<longrightarrow> m' x = memory ch x)"

lemma same_used_log:
  "same_used ch m' \<Longrightarrow> map_of (segs ch) k = Some seg \<Longrightarrow> seg_log (memory ch) seg es \<Longrightarrow> seg_log m' seg es"
  by (auto simp: seg_log_def same_used_def intro: log_range_frame)

lemma same_used_entry:
  assumes "same_used ch m'" "map_of (segs ch) k = Some seg" "seg_log (memory ch) seg es" "e \<in> set es"
  shows "load_bytes m' (entry_pos e) (entry_size e) = load_bytes (memory ch) (entry_pos e) (entry_size e)"
proof -
  have "log_range (memory ch) (seg_addr seg) (append_header seg) es" using assms(3) by (simp add: seg_log_def)
  from log_range_entry(2,3) [OF this assms(4)] show ?thesis
    using assms(1,2) by (intro load_bytes_eqI) (auto simp: same_used_def)
qed

lemma entry_header_bytes:
  assumes "entry_at m a = Some e" and "entry_ok e"
    and eq: "load_bytes m' a' (entry_size e) = load_bytes m a (entry_size e)"
  shows "cell_header_from_entry_content_addr m' (a' + (body_pos e - a)) =
    cell_header_from_entry_content_addr m (body_pos e)"
proof -
  note E = entry_at_simps [OF assms(1)]
  have "body_pos e - a + CELL_HEADER_SIZE \<le> entry_size e"
    using E(2,6) assms(2) by (auto simp: entry_ok_def CELL_HEADER_SIZE_def)
  from load_bytes_eq_sub [OF eq this] show ?thesis
    using E(2) by (intro cell_header_eqI) simp
qed

lemma same_used_indexed:
  assumes inv: "chunk_inv ch" and same: "same_used ch m'" and ix: "cell_index ch h = Some a"
  shows "indexed m' (map_of (segs ch)) h a" and "same_entry (memory ch) m' a a"
proof -
  obtain k seg es e where *: "map_of (segs ch) k = Some seg" "seg_log (memory ch) seg es" "e \<in> set es"
      "entry_pos e = a" "entry_at (memory ch) a = Some e" "entry_type (entry_header e) = CELL"
      "hash (cell_header_from_entry_content_addr (memory ch) (body_pos e)) = h" "entry_ok e"
    by (rule inv_index_entry [OF inv ix])
  have bytes: "load_bytes m' a (entry_size e) = load_bytes (memory ch) a (entry_size e)"
    using same_used_entry [OF same *(1-3)] *(4) by simp
  have "hash (cell_header_from_entry_content_addr m' (body_pos e)) = h"
    using entry_header_bytes [OF *(5,8) bytes] *(7) entry_at_simps(2) [OF *(5)] by simp
  then show "indexed m' (map_of (segs ch)) h a"
    unfolding indexed_def using * same_used_log [OF same *(1,2)] by blast
  show "same_entry (memory ch) m' a a" using *(5) bytes by (auto simp: same_entry_def)
qed

lemma same_used_keeps:
  assumes "chunk_inv ch" and "same_used ch m'"
  shows "keeps ch (ch\<lparr>memory := m'\<rparr>)"
proof -
  have "rel_option (same_entry (memory ch) m') (cell_index ch h) (cell_index ch h)" for h
    using same_used_indexed(2) [OF assms] by (cases "cell_index ch h") auto
  then show ?thesis by (simp add: keeps_def)
qed

lemma same_used_seg_inv:
  assumes "chunk_inv ch" "same_used ch m'" "map_of (segs ch) k = Some seg"
  shows "seg_inv m' (allocator ch) k seg"
  using inv_seg [OF assms(1,3)] same_used_log [OF assms(2,3)] by (auto simp: seg_inv_def)

lemma same_used_inv:
  assumes "chunk_inv ch" and "same_used ch m'"
  shows "chunk_inv (ch\<lparr>memory := m'\<rparr>)"
  using assms(1) same_used_indexed(1) [OF assms] same_used_seg_inv [OF assms]
  by (auto simp: chunk_inv_def)

lemma segs_apart:
  assumes inv: "chunk_inv ch" and "map_of (segs ch) j = Some s" "map_of (segs ch) k = Some t" "j \<noteq> k"
  shows "ranges_apart (seg_addr s, SEGMENT_SIZE) (seg_addr t, SEGMENT_SIZE)"
proof -
  have "seg_addr s \<noteq> seg_addr t"
    using seg_invD(2) [OF inv_seg [OF inv assms(2)]] seg_invD(2) [OF inv_seg [OF inv assms(3)]] assms(4)
    by auto
  moreover have "seg_addr u \<in> set (map (seg_addr \<circ> snd) (segs ch))" if "map_of (segs ch) i = Some u" for i u
    using map_of_SomeD [OF that] by force
  ultimately show ?thesis
    using alloc_inv_live_apart [OF inv_alloc [OF inv]] assms(2,3) by blast
qed

lemma inv_seg_bounds:
  assumes "chunk_inv ch" and "map_of (segs ch) k = Some seg"
  shows "seg_addr seg \<le> append_header seg" "append_header seg \<le> seg_addr seg + SEGMENT_SIZE"
proof -
  note S = seg_invD [OF inv_seg [OF assms]]
  obtain es where "seg_log (memory ch) seg es" using S(5) by blast
  then show "seg_addr seg \<le> append_header seg" "append_header seg \<le> seg_addr seg + SEGMENT_SIZE"
    using S(3) by (auto simp: seg_log_def dest: log_range_le)
qed

lemma inv_seg_addr_pos:
  assumes "chunk_inv ch" and "map_of (segs ch) k = Some seg" shows "0 < seg_addr seg"
proof -
  have "seg_addr seg \<in> set (map (seg_addr \<circ> snd) (segs ch))" using map_of_SomeD [OF assms(2)] by force
  then obtain i where "seg_addr seg = base (allocator ch) + i * SEGMENT_SIZE"
    by (elim alloc_inv_member [OF inv_alloc [OF assms(1)] UnI1])
  then show ?thesis using inv_base [OF assms(1)] by simp
qed

text \<open>Memory changes inside the free part of one segment touch no used range.\<close>

lemma free_range_same_used:
  assumes inv: "chunk_inv ch" and seg: "map_of (segs ch) k = Some seg"
    and ch: "\<And>x. \<not> (append_header seg \<le> x \<and> x < seg_addr seg + SEGMENT_SIZE) \<Longrightarrow> m' x = memory ch x"
  shows "same_used ch m'"
  unfolding same_used_def
proof (intro allI impI)
  fix j t x assume t: "map_of (segs ch) j = Some t" and x: "seg_addr t \<le> x" "x < append_header t"
  show "m' x = memory ch x"
  proof (cases "j = k")
    case True
    then show ?thesis using t seg x by (intro ch) simp
  next
    case False
    then show ?thesis
      using segs_apart [OF inv t seg] x inv_seg_bounds [OF inv t] inv_seg_bounds [OF inv seg]
      by (intro ch) (auto simp: ranges_apart_def)
  qed
qed

text \<open>Appending an entry to the log of a segment.\<close>

lemma append_entry:
  assumes inv: "chunk_inv ch" and seg: "map_of (segs ch) k = Some seg"
    and acq: "Segment_try_acquire seg sz = (Some a, seg1)"
    and m': "\<And>x. \<not> (a \<le> x \<and> x < a + unat sz) \<Longrightarrow> m' x = memory ch x"
    and e: "entry_at m' a = Some e" "entry_size e = unat sz" "entry_ok e"
    and core: "seg_core seg' = seg_core seg1"
  shows "chunk_inv ((modify_segment k (\<lambda>_. seg') ch)\<lparr>memory := m'\<rparr>)"
    and "keeps ch ((modify_segment k (\<lambda>_. seg') ch)\<lparr>memory := m'\<rparr>)"
    and "entry_type (entry_header e) = CELL \<Longrightarrow>
      hash (cell_header_from_entry_content_addr m' (body_pos e)) = h \<Longrightarrow>
      indexed m' (map_of (segs (modify_segment k (\<lambda>_. seg') ch))) h a"
proof -
  note A = try_acquire_Some [OF acq]
  note S = seg_invD [OF inv_seg [OF inv seg]]
  have same: "same_used ch m'"
    by (rule free_range_same_used [OF inv seg]) (use m' A S(3) in auto)
  show "keeps ch ((modify_segment k (\<lambda>_. seg') ch)\<lparr>memory := m'\<rparr>)"
    using same_used_keeps [OF inv same] by (simp add: keeps_def)
  obtain es where es: "seg_log (memory ch) seg es" "\<forall>e \<in> set es. entry_ok e" using S(5) by blast
  have log': "seg_log m' seg' (es @ [e])"
    using seg_log_append [OF es(1) acq _ e(1,2)] m' seg_log_core [OF core] by simp
  have core': "seg_id seg' = seg_id seg" "seg_addr seg' = seg_addr seg" "seg_bound seg' = seg_bound seg"
      "dropped seg' = dropped seg"
    using seg_core_eqD [OF core] A(3) by simp_all
  have segs': "seg_inv m' (allocator ch) j t"
    if "map_of (segs (modify_segment k (\<lambda>_. seg') ch)) j = Some t" for j t
  proof (cases "j = k")
    case True
    then have "t = seg'" using that seg by simp
    moreover have "\<exists>es. seg_log m' seg' es \<and> (\<forall>e \<in> set es. entry_ok e)"
      using log' es(2) e(3) by (intro exI [of _ "es @ [e]"]) auto
    ultimately show ?thesis using S(1-4) core' True by (simp add: seg_inv_def)
  next
    case False
    then show ?thesis using that same_used_seg_inv [OF inv same] by simp
  qed
  have addrs: "map (seg_addr \<circ> snd) (segs (modify_segment k (\<lambda>_. seg') ch)) = map (seg_addr \<circ> snd) (segs ch)"
    using map_entry_same [OF seg, of seg_addr seg'] core'(2) by (simp add: modify_segment_def)
  have index': "indexed m' (map_of (segs (modify_segment k (\<lambda>_. seg') ch))) h b"
    if ix: "cell_index ch h = Some b" for h b
  proof -
    obtain j t fs f where *: "map_of (segs ch) j = Some t" "seg_log m' t fs" "f \<in> set fs"
        "entry_pos f = b" "entry_type (entry_header f) = CELL"
        "hash (cell_header_from_entry_content_addr m' (body_pos f)) = h"
      using same_used_indexed(1) [OF inv same ix] by (auto simp: indexed_def)
    show ?thesis
    proof (cases "j = k")
      case True
      then have "t = seg" using *(1) seg by simp
      then have "fs = es" using seg_log_unique [OF *(2)] same_used_log [OF same seg es(1)] by simp
      then have "f \<in> set (es @ [e])" using *(3) by simp
      then show ?thesis using * True seg log' unfolding indexed_def
        by (intro exI [of _ k] exI [of _ seg'] exI [of _ "es @ [e]"] exI [of _ f]) simp
    next
      case False
      then show ?thesis using * unfolding indexed_def
        by (intro exI [of _ j] exI [of _ t] exI [of _ fs] exI [of _ f]) simp
    qed
  qed
  show "chunk_inv ((modify_segment k (\<lambda>_. seg') ch)\<lparr>memory := m'\<rparr>)"
    unfolding chunk_inv_def using inv_distinct [OF inv] segs' index' addrs inv_alloc [OF inv]
      inv_base [OF inv] inv_limit [OF inv] inv_head [OF inv] seg by (auto simp del: map_of_eq_Some_iff)
  show "indexed m' (map_of (segs (modify_segment k (\<lambda>_. seg') ch))) h a"
    if "entry_type (entry_header e) = CELL" "hash (cell_header_from_entry_content_addr m' (body_pos e)) = h"
    unfolding indexed_def using that seg log' entry_at_simps(1) [OF e(1)]
    by (intro exI [of _ k] exI [of _ seg'] exI [of _ "es @ [e]"] exI [of _ e]) simp
qed

section \<open>Lemmas: a new head segment\<close>

lemma AList_update_new: "k \<notin> fst ` set xs \<Longrightarrow> AList.update k v xs = xs @ [(k, v)]"
  by (induction xs) auto

lemma alloc_inv_id_inj:
  assumes inv: "alloc_inv al live" and ab: "a \<in> set live" "b \<in> set live"
    and eq: "id_by_addr al a = id_by_addr al b"
  shows "a = b"
proof -
  obtain i where i: "a = base al + i * SEGMENT_SIZE" 
    by (rule alloc_inv_member [OF inv, of a]) (use ab in auto)
  obtain j where j: "b = base al + j * SEGMENT_SIZE" 
    by (rule alloc_inv_member [OF inv, of b]) (use ab in auto)
  show ?thesis using eq unfolding id_by_addr_div i j by simp
qed

lemma id_by_addr_base [simp]:
  "id_by_addr (al\<lparr>offset := x\<rparr>) a = id_by_addr al a" "id_by_addr (al\<lparr>free_list := fl\<rparr>) a = id_by_addr al a"
  by (simp_all add: id_by_addr_def)

lemma id_by_addr_cong: "base al' = base al \<Longrightarrow> id_by_addr al' a = id_by_addr al a"
  by (simp add: id_by_addr_def)

lemma seg_inv_base: "base al' = base al \<Longrightarrow> seg_inv m al' k seg = seg_inv m al k seg"
  by (simp add: seg_inv_def id_by_addr_def)

lemma chunk_inv_seg_addr_inj:
  assumes "alloc_inv al' (seg_addr seg # map (seg_addr \<circ> snd) (segs ch))" "base al' = base (allocator ch)"
    and inv: "chunk_inv ch" and k: "k = id_by_addr (allocator ch) (seg_addr seg)"
  shows "k \<notin> fst ` set (segs ch)"
proof
  assume "k \<in> fst ` set (segs ch)"
  then obtain s where s: "(k, s) \<in> set (segs ch)" by auto
  then have "map_of (segs ch) k = Some s" using inv_distinct [OF inv] by simp
  then have "id_by_addr (allocator ch) (seg_addr s) = k" using seg_invD(2) [OF inv_seg [OF inv]] by simp
  then have "seg_addr s = seg_addr seg"
    using alloc_inv_id_inj [OF assms(1), of "seg_addr s" "seg_addr seg"] s k id_by_addr_cong [OF assms(2)]
    by force
  then show False using alloc_inv_distinct [OF assms(1)] s by force
qed

lemma put_new_segment:
  assumes inv: "chunk_inv ch" and pop: "pops_bag pop"
    and al: "alloc_seg pop fs (allocator ch) bs ws = Some (Some seg, al, fs')"
  shows "chunk_inv (put_segment seg (ch\<lparr>allocator := al\<rparr>))"
    and "segs (put_segment seg (ch\<lparr>allocator := al\<rparr>)) = segs ch @ [(unat (seg_id seg), seg)]"
    and "unat (seg_id seg) \<notin> fst ` set (segs ch)"
proof -
  note S = alloc_seg_Some [OF al]
  have bl: "base al = base (allocator ch)" "limit al = limit (allocator ch)"
    using alloc_addr_bounds [OF S(1)] by auto
  have inv': "alloc_inv al (seg_addr seg # map (seg_addr \<circ> snd) (segs ch))"
    using alloc_addr_inv [OF inv_alloc [OF inv] pop S(1)] .
  have "id_by_addr (allocator ch) (seg_addr seg) < 2 ^ 64"
  proof -
    obtain i where "seg_addr seg = base al + i * SEGMENT_SIZE" "seg_addr seg + SEGMENT_SIZE \<le> limit al"
      by (rule alloc_inv_member [OF inv', of "seg_addr seg"]) auto
    then have "seg_addr seg - base (allocator ch) < 2 ^ 64" using inv_limit [OF inv] bl by simp
    then show ?thesis unfolding id_by_addr_div by (rule le_less_trans [OF div_le_dividend])
  qed
  then have k: "unat (seg_id seg) = id_by_addr (allocator ch) (seg_addr seg)"
    using S(4) by (simp add: unat_of_nat)
  show fresh: "unat (seg_id seg) \<notin> fst ` set (segs ch)"
    using chunk_inv_seg_addr_inj [OF inv' bl(1) inv k] .
  show segs': "segs (put_segment seg (ch\<lparr>allocator := al\<rparr>)) = segs ch @ [(unat (seg_id seg), seg)]"
    using fresh by (simp add: put_segment_def AList_update_new)
  have "seg_log (memory ch) seg []" using S(2,3) by (simp add: seg_log_def)
  then have new: "seg_inv (memory ch) (allocator ch) (unat (seg_id seg)) seg"
    using S k by (auto simp: seg_inv_def intro: exI [of _ "[]"])
  have look: "map_of (segs ch @ [(unat (seg_id seg), seg)]) j =
      (if j = unat (seg_id seg) then Some seg else map_of (segs ch) j)" for j
    using fresh by (simp add: map_of_snoc del: map_of_append)
  have "indexed (memory ch) (map_of (segs ch @ [(unat (seg_id seg), seg)])) h a"
    if "cell_index ch h = Some a" for h a
    using inv_index [OF inv that] fresh unfolding indexed_def look
    by (metis domI dom_map_of_conv_image_fst)
  moreover have "alloc_inv al (map (seg_addr \<circ> snd) (segs ch @ [(unat (seg_id seg), seg)]))"
    using inv' by (rule alloc_inv_cong) simp
  moreover have "distinct (map fst (segs ch @ [(unat (seg_id seg), seg)]))"
    using inv_distinct [OF inv] fresh by simp
  moreover have "seg_inv (memory ch) al j t" if "map_of (segs ch @ [(unat (seg_id seg), seg)]) j = Some t" for j t
    using that new inv_seg [OF inv] seg_inv_base [OF bl(1)] by (auto simp: look split: if_splits)
  ultimately show "chunk_inv (put_segment seg (ch\<lparr>allocator := al\<rparr>))"
    using inv segs' bl look unfolding chunk_inv_def put_segment_def by auto
qed

lemma new_head_segment_ok:
  assumes inv: "chunk_inv ch" and pop: "pops_bag (env_pop E)" and new: "new_head_segment E ch = Some ch'"
  shows "chunk_inv ch'" and "keeps ch ch'" and "cell_index ch' = cell_index ch"
    and "\<exists>seg. map_of (segs ch') (unat (head_seg_id ch')) = Some seg \<and>
      append_header seg = seg_addr seg \<and> seg_bound seg = seg_addr seg + SEGMENT_SIZE"
proof -
  obtain seg al fs where al: "alloc_seg (env_pop E) (disk ch) (allocator ch) (backup_storage ch)
        (wal_storage ch) = Some (Some seg, al, fs)"
      and ch': "ch' = (put_segment seg (ch\<lparr>allocator := al, disk := fs,
        total_space := total_space ch + of_nat SEGMENT_SIZE\<rparr>))\<lparr>head_seg_id := seg_id seg\<rparr>"
    using new by (auto simp: new_head_segment_def split: option.splits)
  note P = put_new_segment [OF inv pop al]
  have segs': "segs ch' = segs ch @ [(unat (seg_id seg), seg)]"
    using P(2) by (simp add: ch' put_segment_def)
  have look: "map_of (segs ch') (unat (seg_id seg)) = Some seg"
    using P(3) by (simp add: segs' map_of_snoc del: map_of_append)
  have eq: "ch' = (put_segment seg (ch\<lparr>allocator := al\<rparr>))\<lparr>disk := fs,
      total_space := total_space ch + of_nat SEGMENT_SIZE, head_seg_id := seg_id seg\<rparr>"
    by (simp add: ch' put_segment_def)
  show "chunk_inv ch'" using P(1) look segs' unfolding eq
    by (simp add: chunk_inv_def put_segment_def)
  show "keeps ch ch'" using keeps_refl [OF inv] unfolding eq by (simp add: keeps_def put_segment_def)
  show "cell_index ch' = cell_index ch" by (simp add: eq put_segment_def)
  have "head_seg_id ch' = seg_id seg" by (simp add: eq)
  then show "\<exists>seg. map_of (segs ch') (unat (head_seg_id ch')) = Some seg \<and>
      append_header seg = seg_addr seg \<and> seg_bound seg = seg_addr seg + SEGMENT_SIZE"
    using look alloc_seg_Some(2,3) [OF al] by simp
qed

section \<open>The interface of the cleaner\<close>

text \<open>What the chunk relies on of \<^verbatim>\<open>Cleaner::clean\<close>: it keeps the invariant, the
  schemas and every indexed entry.\<close>

locale chunk_cleaner =
  fixes clean :: "'p cleaner"
  assumes clean_inv: "chunk_inv ch \<Longrightarrow> clean full ch = Some ch' \<Longrightarrow> chunk_inv ch'"
    and clean_keeps: "chunk_inv ch \<Longrightarrow> clean full ch = Some ch' \<Longrightarrow> keeps ch ch'"

text \<open>What acquiring space yields: a chunk with the same cells whose head segment had room.\<close>

definition acquired_from :: "'p Chunk \<Rightarrow> u32 \<Rightarrow> PendingEntry \<Rightarrow> 'p Chunk \<Rightarrow> bool" where
  "acquired_from ch sz pe ch' = (\<exists>ch0 seg seg1. chunk_inv ch0 \<and> keeps ch ch0 \<and>
     map_of (segs ch0) (pe_seg pe) = Some seg \<and>
     Segment_try_acquire seg sz = (Some (pe_addr pe), seg1) \<and> pe_size pe = sz \<and>
     ch' = modify_segment (pe_seg pe) (\<lambda>_. seg1\<lparr>references := references seg1 + 1\<rparr>) ch0)"

lemma acquired_fromI:
  assumes "chunk_inv ch" and "map_of (segs ch) k = Some seg"
    and "Segment_try_acquire seg sz = (Some a, seg1)"
  shows "acquired_from ch sz \<lparr>pe_seg = k, pe_addr = a, pe_size = sz\<rparr>
    (modify_segment k (\<lambda>_. seg1\<lparr>references := references seg1 + 1\<rparr>) ch)"
  unfolding acquired_from_def using assms keeps_refl [OF assms(1)]
  by (intro exI [of _ ch] exI [of _ seg] exI [of _ seg1]) simp

lemma acquired_from_keeps:
  "keeps ch ch1 \<Longrightarrow> acquired_from ch1 sz pe ch' \<Longrightarrow> acquired_from ch sz pe ch'"
  unfolding acquired_from_def by (blast intro: keeps_trans)

context chunk_cleaner
begin

lemma try_acquire_turn_ok:
  assumes "try_acquire_turn E clean sz tried ch = Some r" and inv: "chunk_inv ch" and pop: "pops_bag (env_pop E)"
  shows "case r of
      Inl (Some pe, ch') \<Rightarrow> acquired_from ch sz pe ch'
    | Inl (None, ch') \<Rightarrow> chunk_inv ch' \<and> keeps ch ch'
    | Inr (_, ch') \<Rightarrow> chunk_inv ch' \<and> keeps ch ch'"
proof -
  let ?hid = "unat (head_seg_id ch)"
  obtain head where head: "map_of (segs ch) ?hid = Some head" using inv_head [OF inv] by blast
  note refl = keeps_refl [OF inv]
  show ?thesis
  proof (cases rule: try_acquire_cases [of head sz])
    case got
    then show ?thesis using assms(1) head acquired_fromI [OF inv head got(2)]
      by (auto simp: try_acquire_turn_def Let_def)
  next
    case full
    show ?thesis
    proof (cases "unat (total_space ch) \<ge> capacity ch - SEGMENT_SIZE")
      case True
      then show ?thesis using assms(1) head full(2) inv refl clean_inv [OF inv] clean_keeps [OF inv]
        by (auto simp: try_acquire_turn_def Let_def split: if_splits)
    next
      case False
      then obtain ch1 where ch1: "(if meet_gc_threshold (allocator ch) then clean False ch else Some ch) = Some ch1"
          and r: "r = Inr (tried, ch1) \<or> (\<exists>ch2. new_head_segment E ch1 = Some ch2 \<and> r = Inr (tried, ch2))"
        using assms(1) head full(2) by (auto simp: try_acquire_turn_def Let_def split: option.splits if_splits)
      have ok: "chunk_inv ch1" "keeps ch ch1"
        using ch1 inv refl clean_inv [OF inv] clean_keeps [OF inv] by (auto split: if_splits)
      show ?thesis using r ok new_head_segment_ok(1,2) [OF ok(1) pop] by (auto intro: keeps_trans)
    qed
  qed
qed

lemma try_acquire_loop_ok:
  assumes "try_acquire_loop E clean sz tried ch = Some (pe_opt, ch')" and "chunk_inv ch"
    and "pops_bag (env_pop E)"
  shows "case pe_opt of Some pe \<Rightarrow> acquired_from ch sz pe ch' | None \<Rightarrow> chunk_inv ch' \<and> keeps ch ch'"
proof -
  let ?Q = "\<lambda>ch sz r. case r of (Some pe, ch') \<Rightarrow> acquired_from ch sz pe ch'
    | (None, ch') \<Rightarrow> chunk_inv ch' \<and> keeps ch ch'"
  let ?P = "\<lambda>E c sz tried ch r. c = clean \<longrightarrow> pops_bag (env_pop E) \<longrightarrow> chunk_inv ch \<longrightarrow> ?Q ch sz r"
  have "?P E clean sz tried ch (pe_opt, ch')"
  proof (rule try_acquire_loop.raw_induct [OF _ assms(1), of ?P], intro impI)
    fix f :: "'p Env \<Rightarrow> 'p cleaner \<Rightarrow> u32 \<Rightarrow> bool \<Rightarrow> 'p Chunk \<Rightarrow> (PendingEntry option \<times> 'p Chunk) option"
      and E :: "'p Env" and c :: "'p cleaner" and sz :: u32 and tried :: bool and ch :: "'p Chunk"
      and r :: "PendingEntry option \<times> 'p Chunk"
    assume IH: "\<And>E c sz tried ch r. f E c sz tried ch = Some r \<Longrightarrow> ?P E c sz tried ch r"
      and c: "c = clean" and pop: "pops_bag (env_pop E)" and inv: "chunk_inv ch"
      and body: "(case try_acquire_turn E c sz tried ch of None \<Rightarrow> None | Some (Inl r) \<Rightarrow> Some r
        | Some (Inr (tried', ch1)) \<Rightarrow> f E c sz tried' ch1) = Some r"
    obtain s where s: "try_acquire_turn E clean sz tried ch = Some s"
      using body c by (auto split: option.splits)
    note T = try_acquire_turn_ok [OF s inv pop]
    show "?Q ch sz r"
    proof (cases s)
      case (Inl q)
      then show ?thesis using T body s c by (auto split: prod.splits option.splits)
    next
      case (Inr p)
      then obtain tried' ch1 where p: "s = Inr (tried', ch1)" by (cases p) auto
      then have "?Q ch1 sz r" using IH [of E clean sz tried' ch1 r] body s c pop T by simp
      then show ?thesis using T p
        by (auto split: prod.splits option.splits intro: acquired_from_keeps keeps_trans)
    qed
  qed
  then show ?thesis using assms by (auto split: option.splits)
qed

end

section \<open>Cells in memory\<close>

text \<open>The entry at \<open>a\<close> is the encoding of a cell under a schema: a cell entry of the right length
  with the cell's header, whose content holds the plan of the cell's data.\<close>

definition cell_at ::
  "'p Lib \<Rightarrow> (Type \<Rightarrow> 'p Value \<Rightarrow> bytes) \<Rightarrow> mem \<Rightarrow> addr \<Rightarrow> Schema \<Rightarrow> 'p OwnedCell \<Rightarrow> bool" where
  "cell_at L enc m a sch c = (\<exists>len b t js.
     header_at m a = Some (\<lparr>entry_type = CELL, content_length = len\<rparr>, b) \<and>
     cell_header_from_entry_content_addr m b = header c \<and>
     plan_cell L sch (data c) = Ok (t, js) \<and> unat len = t + CELL_HEADER_SIZE \<and>
     holds enc m (b + CELL_HEADER_SIZE) js \<and> (\<forall>i \<in> set js. inside 0 t (ins_range enc i)))"

definition stored ::
  "'p Lib \<Rightarrow> (Type \<Rightarrow> 'p Value \<Rightarrow> bytes) \<Rightarrow> 'p Chunk \<Rightarrow> u64 \<Rightarrow> 'p OwnedCell \<Rightarrow> bool" where
  "stored L enc ch h c = (\<exists>a sch. cell_index ch h = Some a \<and>
     SchemasMap_get (schemas ch) (schema (header c)) = Some sch \<and> cell_at L enc (memory ch) a sch c)"

lemma holds_move:
  assumes "load_bytes m' a' n = load_bytes m a n" and "holds enc m (a + k) js"
    and "\<forall>i \<in> set js. inside 0 t (ins_range enc i)" and "k + t \<le> n"
  shows "holds enc m' (a' + k) js"
  unfolding holds_def
proof
  fix i assume i: "i \<in> set js"
  then have "inside 0 t (ins_range enc i)" using assms(3) by blast
  then have "(k + ins_offset i) + length (ins_bytes enc i) \<le> n"
    using assms(4) by (simp add: inside_def ins_range_def)
  from load_bytes_eq_sub [OF assms(1) this] i assms(2)
  show "load_bytes m' (a' + k + ins_offset i) (length (ins_bytes enc i)) = ins_bytes enc i"
    by (simp add: holds_def add.assoc)
qed

lemma cell_at_move:
  assumes "cell_at L enc m a sch c" and "same_entry m m' a a'"
  shows "cell_at L enc m' a' sch c"
proof -
  obtain len b t js where c: "header_at m a = Some (\<lparr>entry_type = CELL, content_length = len\<rparr>, b)"
      "cell_header_from_entry_content_addr m b = header c" "plan_cell L sch (data c) = Ok (t, js)"
      "unat len = t + CELL_HEADER_SIZE" "holds enc m (b + CELL_HEADER_SIZE) js"
      "\<forall>i \<in> set js. inside 0 t (ins_range enc i)"
    using assms(1) by (auto simp: cell_at_def)
  obtain e where e: "entry_at m a = Some e" "load_bytes m' a' (entry_size e) = load_bytes m a (entry_size e)"
    using assms(2) by (auto simp: same_entry_def)
  note E = entry_at_simps [OF e(1)]
  have be: "body_pos e = b" "entry_header e = \<lparr>entry_type = CELL, content_length = len\<rparr>" using E(5) c(1) by auto
  have sz: "entry_size e = b - a + (t + CELL_HEADER_SIZE)" using E(6) be c(4) by simp
  let ?b = "a' + (b - a)"
  have "load_bytes m' a' (b - a) = load_bytes m a (b - a)"
    using load_bytes_eq_sub [OF e(2), of 0 "b - a"] sz by simp
  then have h: "header_at m' a' = Some (\<lparr>entry_type = CELL, content_length = len\<rparr>, ?b)"
    by (rule header_at_move [OF c(1)])
  have "load_bytes m' ?b CELL_HEADER_SIZE = load_bytes m b CELL_HEADER_SIZE"
    using load_bytes_eq_sub [OF e(2), of "b - a" CELL_HEADER_SIZE] sz E(2) be by simp
  then have "cell_header_from_entry_content_addr m' ?b = header c"
    using cell_header_eqI c(2) by metis
  moreover have "holds enc m' (a' + (b - a + CELL_HEADER_SIZE)) js"
    using c(5) E(2) be sz by (intro holds_move [OF e(2) _ c(6)]) (auto simp: add.assoc)
  ultimately show ?thesis using h c(3,4,6) by (auto simp: cell_at_def add.assoc)
qed

lemma keeps_stored:
  assumes "keeps ch ch'" and "stored L enc ch h c" shows "stored L enc ch' h c"
proof -
  obtain a sch where a: "cell_index ch h = Some a" "SchemasMap_get (schemas ch) (schema (header c)) = Some sch"
      "cell_at L enc (memory ch) a sch c"
    using assms(2) by (auto simp: stored_def)
  have "rel_option (same_entry (memory ch) (memory ch')) (Some a) (cell_index ch' h)"
    using assms(1) a(1) unfolding keeps_def by metis
  then obtain a' where "cell_index ch' h = Some a'" "same_entry (memory ch) (memory ch') a a'"
    by (cases "cell_index ch' h") auto
  then show ?thesis using a assms(1) cell_at_move by (auto simp: stored_def keeps_def)
qed

lemma keeps_index_None: "keeps ch ch' \<Longrightarrow> cell_index ch' h = None \<longleftrightarrow> cell_index ch h = None"
  unfolding keeps_def by (metis option.rel_distinct(1,2) not_None_eq)

text \<open>A schema laid out by \<^verbatim>\<open>Schema::new\<close> without dynamic fields, and a cell whose data
  conforms to it and is small enough for the 32-bit length field.\<close>

definition fits ::
  "'p Lib \<Rightarrow> (Type \<Rightarrow> 'p Value \<Rightarrow> bool) \<Rightarrow> (Type \<Rightarrow> 'p \<Rightarrow> bool) \<Rightarrow> Schema \<Rightarrow> 'p Value \<Rightarrow> bool" where
  "fits L wt wta sch v = (\<not> is_dynamic sch \<and> laid_out L (schema_fields sch) 0 (static_bound sch) \<and>
     conforms wt wta (prim_len L) (schema_fields sch) v \<and>
     (\<exists>t js. plan_cell L sch v = Ok (t, js) \<and> t + 64 < 2 ^ 32))"

lemma fitsD:
  assumes "fits L wt wta sch v"
  obtains t js where "\<not> is_dynamic sch" "laid_out L (schema_fields sch) 0 (static_bound sch)"
    "conforms wt wta (prim_len L) (schema_fields sch) v" "plan_cell L sch v = Ok (t, js)"
    "plan_write_field L (static_bound sch) (schema_fields sch) v False = Ok (t, js)" "t + 64 < 2 ^ 32"
  using assms by (auto simp: fits_def plan_cell_def res_bind_Ok_iff)

text \<open>Reading the cell at an address.\<close>

lemma cell_at_read:
  assumes T: "types_ok (env_lib E) enc wt wta" and c: "cell_at (env_lib E) enc (memory ch) a sch c"
    and f: "fits (env_lib E) wt wta sch (data c)" and a: "a \<noteq> 0"
    and s: "SchemasMap_get (schemas ch) (schema (header c)) = Some sch"
  shows "from_chunk_raw E ch a = Some (Inr (c, sch))"
proof -
  obtain len b t js where c: "header_at (memory ch) a = Some (\<lparr>entry_type = CELL, content_length = len\<rparr>, b)"
      "cell_header_from_entry_content_addr (memory ch) b = header c"
      "plan_cell (env_lib E) sch (data c) = Ok (t, js)"
      "holds enc (memory ch) (b + CELL_HEADER_SIZE) js"
    using c by (auto simp: cell_at_def)
  obtain dyn: "\<not> is_dynamic sch" and lay: "laid_out (env_lib E) (schema_fields sch) 0 (static_bound sch)"
      and cf: "conforms wt wta (prim_len (env_lib E)) (schema_fields sch) (data c)"
      and p: "plan_write_field (env_lib E) (static_bound sch) (schema_fields sch) (data c) False = Ok (t, js)"
      and t: "t + 64 < 2 ^ 32"
    using fitsD [OF f] c(3) by (metis Pair_inject result.inject(1))
  have "\<exists>t'. read_field (env_lib E) (memory ch) (b + CELL_HEADER_SIZE) (schema_fields sch) False
      (static_bound sch) = Some (data c, t')"
    using plan_read(1) [OF p T cf c(4), of "static_bound sch"] t lay by auto
  then have "read_by_schema (env_lib E) (env_fuel E) (memory ch) (b + CELL_HEADER_SIZE) sch = Some (data c)"
    using dyn by (auto simp: read_by_schema_def)
  moreover have "header_from_chunk_raw (memory ch) a =
      Some (Inr (header c, b + CELL_HEADER_SIZE, \<lparr>entry_type = CELL, content_length = len\<rparr>))"
    using a c(1,2) by (simp add: header_from_chunk_raw_def decode_from_header_at)
  ultimately show ?thesis using s by (simp add: from_chunk_raw_def)
qed

section \<open>Lemmas: writing a cell\<close>

lemma fits_plan_inside:
  assumes "types_ok L enc wt wta" and "fits L wt wta sch v" and "plan_cell L sch v = Ok (t, js)"
  shows "\<forall>i \<in> set js. inside 0 t (ins_range enc i)" and "sorted_wrt ranges_apart (map (ins_range enc) js)"
proof -
  obtain lay: "laid_out L (schema_fields sch) 0 (static_bound sch)"
      and cf: "conforms wt wta (prim_len L) (schema_fields sch) v"
      and p: "plan_write_field L (static_bound sch) (schema_fields sch) v False = Ok (t, js)"
    using fitsD [OF assms(2)] assms(3) by (metis Pair_inject result.inject(1))
  have s: "spread enc 0 (static_bound sch) (static_bound sch) t js"
    using plan_spread(1) [OF p assms(1) cf] lay by simp
  then show "\<forall>i \<in> set js. inside 0 t (ins_range enc i)"
    using spread_inside [OF s] plan_tail_mono(1) [OF p] by auto
  show "sorted_wrt ranges_apart (map (ins_range enc) js)" using s by (simp add: spread_def)
qed

lemma cell_writer_frame:
  assumes T: "types_ok L enc wt wta" and ins: "\<forall>i \<in> set js. inside 0 t (ins_range enc i)"
    and x: "x < b \<or> b + CELL_HEADER_SIZE + t \<le> x"
  shows "cell_content_writer L chd js b m x = m x"
proof -
  have "execute_plan L (b + CELL_HEADER_SIZE) js (write_cell_header chd b m) x = write_cell_header chd b m x"
    by (rule execute_plan_frame [OF T ins]) (use x in auto)
  also have "\<dots> = m x" unfolding write_cell_header_def by (rule store_bytes_other) (use x in auto)
  finally show ?thesis by (simp add: cell_content_writer_def)
qed

lemma cell_writer_content:
  assumes T: "types_ok L enc wt wta" and ins: "\<forall>i \<in> set js. inside 0 t (ins_range enc i)"
    and apart: "sorted_wrt ranges_apart (map (ins_range enc) js)"
  shows "cell_header_from_entry_content_addr (cell_content_writer L chd js b m) b = chd"
    and "holds enc (cell_content_writer L chd js b m) (b + CELL_HEADER_SIZE) js"
proof -
  let ?m = "write_cell_header chd b m"
  have "execute_plan L (b + CELL_HEADER_SIZE) js ?m x = ?m x" if "x < b + CELL_HEADER_SIZE" for x
    by (rule execute_plan_frame [OF T ins]) (use that in auto)
  then have "load_bytes (cell_content_writer L chd js b m) b CELL_HEADER_SIZE = load_bytes ?m b CELL_HEADER_SIZE"
    unfolding cell_content_writer_def by (intro load_bytes_eqI) auto
  then show "cell_header_from_entry_content_addr (cell_content_writer L chd js b m) b = chd"
    using cell_header_eqI cell_header_write_read by metis
  show "holds enc (cell_content_writer L chd js b m) (b + CELL_HEADER_SIZE) js"
    unfolding cell_content_writer_def by (rule execute_plan_holds [OF T apart])
qed

lemma encode_cell:
  fixes m :: mem and a :: addr
  assumes T: "types_ok L enc wt wta" and f: "fits L wt wta sch (data c)"
    and p: "plan_cell L sch (data c) = Ok (t, js)"
  defines "len \<equiv> (of_nat (t + CELL_HEADER_SIZE) :: u32)"
  defines "m' \<equiv> encode_to m a CELL len (count_len_bytes len) (cell_content_writer L (header c) js)"
  shows "cell_at L enc m' a sch c"
    and "\<exists>e. entry_at m' a = Some e \<and> entry_size e = unat (Entry_size (count_len_bytes len) len) \<and>
      entry_ok e \<and> entry_type (entry_header e) = CELL \<and>
      cell_header_from_entry_content_addr m' (body_pos e) = header c"
    and "\<not> (a \<le> x \<and> x < a + unat (Entry_size (count_len_bytes len) len)) \<Longrightarrow> m' x = m x"
proof -
  let ?n = "count_len_bytes len"
  let ?b = "a + 1 + unat ?n"
  note I = fits_plan_inside [OF T f p]
  have t: "t + 64 < 2 ^ 32" using fitsD [OF f] p by (metis Pair_inject result.inject(1))
  then have len: "unat len = t + CELL_HEADER_SIZE" 
    unfolding len_def by (subst unat_of_nat) (simp add: CELL_HEADER_SIZE_def)
  have sz: "unat (Entry_size ?n len) = 1 + unat ?n + unat len"
    using t len by (intro unat_Entry_size count_len_bytes_le) (simp add: CELL_HEADER_SIZE_def)
  have wf: "writes_from (cell_content_writer L (header c) js)"
    unfolding writes_from_def using cell_writer_frame [OF T I(1)] by simp
  have h: "header_at m' a = Some (\<lparr>entry_type = CELL, content_length = len\<rparr>, ?b)"
    unfolding m'_def by (rule header_at_encode_to [OF count_len_bytes_less count_len_bytes_le _ wf]) simp
  let ?m2 = "store_bytes (m(a := ?n OR entry_type_bits CELL)) (a + 1) (take (unat ?n) (bytes_u32 len))"
  have m': "m' = cell_content_writer L (header c) js ?b ?m2" by (simp add: m'_def encode_to_eq)
  note W = cell_writer_content [OF T I, of "header c" ?b ?m2, folded m']
  show "cell_at L enc m' a sch c" using h W p len I(1) by (auto simp: cell_at_def)
  let ?e = "\<lparr>body_pos = ?b, entry_pos = a, entry_size = ?b - a + unat len,
    entry_header = \<lparr>entry_type = CELL, content_length = len\<rparr>\<rparr>"
  have "entry_at m' a = Some ?e" using h by (simp add: entry_at_def)
  then show "\<exists>e. entry_at m' a = Some e \<and> entry_size e = unat (Entry_size ?n len) \<and>
      entry_ok e \<and> entry_type (entry_header e) = CELL \<and>
      cell_header_from_entry_content_addr m' (body_pos e) = header c"
    using sz len W(1) by (intro exI [of _ ?e]) (simp add: entry_ok_def CELL_HEADER_SIZE_def)
  show "m' x = m x" if "\<not> (a \<le> x \<and> x < a + unat (Entry_size ?n len))"
  proof -
    have "m' x = ?m2 x" unfolding m'
      by (rule cell_writer_frame [OF T I(1)]) (use that sz len in auto)
    also have "\<dots> = m x" using that sz count_len_bytes_le [of len]
      by (auto simp: store_bytes_def)
    finally show ?thesis .
  qed
qed

text \<open>Releasing a pending entry changes counters and files only.\<close>

lemma drop_pending_ok:
  assumes "drop_pending pe ch = Some ch'"
  shows "chunk_inv ch \<Longrightarrow> chunk_inv ch'" "keeps ch0 ch \<Longrightarrow> keeps ch0 ch'" "memory ch' = memory ch"
    "cell_index ch' = cell_index ch" "schemas ch' = schemas ch" "cell_locks ch' = cell_locks ch"
    "index_builder ch' = index_builder ch" "allocator ch' = allocator ch"
    "indexed m (map_of (segs ch)) h a \<Longrightarrow> indexed m (map_of (segs ch')) h a"
proof -
  obtain fs where ch': "ch' = modify_segment (pe_seg pe) (\<lambda>s. s\<lparr>references := references s - 1\<rparr>) (ch\<lparr>disk := fs\<rparr>)"
    using assms by (auto simp: drop_pending_def split: option.splits prod.splits sum.splits)
  show "chunk_inv ch \<Longrightarrow> chunk_inv ch'" unfolding ch'
    by (rule chunk_inv_modify) (simp_all add: seg_core_def)
  show "keeps ch0 ch \<Longrightarrow> keeps ch0 ch'" by (simp add: ch')
  show "indexed m (map_of (segs ch)) h a \<Longrightarrow> indexed m (map_of (segs ch')) h a" unfolding ch'
    by (rule indexed_core [rotated])
       (auto simp: option.rel_map seg_core_def intro!: option.rel_refl_strong)
qed (use assms in \<open>auto simp: drop_pending_def split: option.splits prod.splits sum.splits\<close>)

text \<open>An entry written into acquired space.\<close>

lemma write_acquired:
  assumes acq: "acquired_from ch sz pe ch1"
    and m': "\<And>x. \<not> (pe_addr pe \<le> x \<and> x < pe_addr pe + unat sz) \<Longrightarrow> m' x = memory ch1 x"
    and e: "entry_at m' (pe_addr pe) = Some e" "entry_size e = unat sz" "entry_ok e"
    and g: "\<And>s. seg_core (g s) = seg_core s"
    and drop: "drop_pending pe ((modify_segment (pe_seg pe) g ch1)\<lparr>memory := m'\<rparr>) = Some ch2"
  shows "chunk_inv ch2" "keeps ch ch2" "memory ch2 = m'" "pe_addr pe \<noteq> 0"
    "entry_type (entry_header e) = CELL \<Longrightarrow>
       hash (cell_header_from_entry_content_addr m' (body_pos e)) = h \<Longrightarrow>
       indexed m' (map_of (segs ch2)) h (pe_addr pe)"
proof -
  obtain ch0 seg seg1 where A: "chunk_inv ch0" "keeps ch ch0" "map_of (segs ch0) (pe_seg pe) = Some seg"
      "Segment_try_acquire seg sz = (Some (pe_addr pe), seg1)"
      "ch1 = modify_segment (pe_seg pe) (\<lambda>_. seg1\<lparr>references := references seg1 + 1\<rparr>) ch0"
    using acq by (auto simp: acquired_from_def)
  let ?seg' = "g (seg1\<lparr>references := references seg1 + 1\<rparr>)"
  let ?ch = "(modify_segment (pe_seg pe) (\<lambda>_. ?seg') ch0)\<lparr>memory := m'\<rparr>"
  have eq: "(modify_segment (pe_seg pe) g ch1)\<lparr>memory := m'\<rparr> = ?ch"
    using A(3) by (simp add: A(5) modify_segment_def map_entry_twice)
  have core: "seg_core ?seg' = seg_core seg1" by (simp add: g) (simp add: seg_core_def)
  have mem: "\<And>x. \<not> (pe_addr pe \<le> x \<and> x < pe_addr pe + unat sz) \<Longrightarrow> m' x = memory ch0 x"
    using m' by (simp add: A(5))
  note P = append_entry [OF A(1,3,4) mem e core]
  note D = drop_pending_ok [OF drop [unfolded eq]]
  show "chunk_inv ch2" by (rule D(1) [OF P(1)])
  show "keeps ch ch2" by (rule D(2) [OF keeps_trans [OF A(2) P(2)]])
  show "memory ch2 = m'" using D(3) by simp
  show "pe_addr pe \<noteq> 0"
    using try_acquire_Some(1) [OF A(4)] inv_seg_bounds(1) [OF A(1,3)] inv_seg_addr_pos [OF A(1,3)] by simp
  show "indexed m' (map_of (segs ch2)) h (pe_addr pe)"
    if "entry_type (entry_header e) = CELL" "hash (cell_header_from_entry_content_addr m' (body_pos e)) = h"
    using D(9) [of m'] P(3) that by simp
qed

section \<open>Lemmas: the index\<close>

text \<open>Every cell but one is kept.\<close>

definition keeps_other :: "u64 \<Rightarrow> 'p Chunk \<Rightarrow> 'p Chunk \<Rightarrow> bool" where
  "keeps_other h ch ch' = (schemas ch' = schemas ch \<and> (\<forall>g. g \<noteq> h \<longrightarrow>
     rel_option (same_entry (memory ch) (memory ch')) (cell_index ch g) (cell_index ch' g)))"

lemma keeps_other_stored:
  assumes "keeps_other h ch ch'" and "g \<noteq> h" and "stored L enc ch g c" shows "stored L enc ch' g c"
proof -
  obtain a sch where a: "cell_index ch g = Some a" "SchemasMap_get (schemas ch) (schema (header c)) = Some sch"
      "cell_at L enc (memory ch) a sch c"
    using assms(3) by (auto simp: stored_def)
  have "rel_option (same_entry (memory ch) (memory ch')) (Some a) (cell_index ch' g)"
    using assms(1,2) a(1) unfolding keeps_other_def by metis
  then obtain a' where "cell_index ch' g = Some a'" "same_entry (memory ch) (memory ch') a a'"
    by (cases "cell_index ch' g") auto
  then show ?thesis using a assms(1) cell_at_move by (auto simp: stored_def keeps_other_def)
qed

lemma index_simps [simp]:
  "memory (set_index h a ch) = memory ch" "segs (set_index h a ch) = segs ch"
  "cell_index (set_index h a ch) = (cell_index ch)(h \<mapsto> a)" "schemas (set_index h a ch) = schemas ch"
  "allocator (set_index h a ch) = allocator ch"
  "memory (remove_index h ch) = memory ch" "segs (remove_index h ch) = segs ch"
  "cell_index (remove_index h ch) = (cell_index ch)(h := None)" "schemas (remove_index h ch) = schemas ch"
  "memory (request_index r ch) = memory ch" "segs (request_index r ch) = segs ch"
  "cell_index (request_index r ch) = cell_index ch" "schemas (request_index r ch) = schemas ch"
  "allocator (request_index r ch) = allocator ch"
  "memory (lock_cell h ch) = memory ch" "cell_index (lock_cell h ch) = cell_index ch"
  "schemas (lock_cell h ch) = schemas ch" "segs (lock_cell h ch) = segs ch"
  "memory (unlock_cell h ch) = memory ch" "cell_index (unlock_cell h ch) = cell_index ch"
  "schemas (unlock_cell h ch) = schemas ch" "segs (unlock_cell h ch) = segs ch"
  "chunk_inv (request_index r ch) = chunk_inv ch" "chunk_inv (lock_cell h ch) = chunk_inv ch"
  "chunk_inv (unlock_cell h ch) = chunk_inv ch"
  by (simp_all add: set_index_def remove_index_def request_index_def lock_cell_def unlock_cell_def)

lemma set_index_inv:
  "chunk_inv ch \<Longrightarrow> indexed (memory ch) (map_of (segs ch)) h a \<Longrightarrow> chunk_inv (set_index h a ch)"
  by (auto simp: chunk_inv_def set_index_def simp del: map_of_eq_Some_iff)

lemma remove_index_inv: "chunk_inv ch \<Longrightarrow> chunk_inv (remove_index h ch)"
  by (auto simp: chunk_inv_def remove_index_def simp del: map_of_eq_Some_iff)

lemma set_index_keeps: "keeps ch ch' \<Longrightarrow> keeps_other h ch (set_index h a ch')"
  by (simp add: keeps_def keeps_other_def)

lemma remove_index_keeps: "keeps ch ch' \<Longrightarrow> keeps_other h ch (remove_index h ch')"
  by (simp add: keeps_def keeps_other_def)

lemma keeps_other_cong:
  "memory ch2 = memory ch1 \<Longrightarrow> cell_index ch2 = cell_index ch1 \<Longrightarrow> schemas ch2 = schemas ch1 \<Longrightarrow>
     keeps_other h ch ch1 \<Longrightarrow> keeps_other h ch ch2"
  by (simp add: keeps_other_def)

lemma keeps_cong:
  "memory ch2 = memory ch1 \<Longrightarrow> cell_index ch2 = cell_index ch1 \<Longrightarrow> schemas ch2 = schemas ch1 \<Longrightarrow>
     keeps ch ch1 \<Longrightarrow> keeps ch ch2"
  by (simp add: keeps_def)

lemma mark_dead_ok:
  assumes "mark_dead_entry_with_seg a k ch = Some ch'"
  shows "chunk_inv ch \<Longrightarrow> chunk_inv ch'" "memory ch' = memory ch" "cell_index ch' = cell_index ch"
    "schemas ch' = schemas ch"
  using assms by (auto simp: mark_dead_entry_with_seg_def seg_core_def split: option.splits
      intro!: chunk_inv_modify)

lemma mark_dead_cell_ok:
  assumes "mark_dead_entry_with_cell a ch = Some ch'"
  shows "chunk_inv ch \<Longrightarrow> chunk_inv ch'" "memory ch' = memory ch" "cell_index ch' = cell_index ch"
    "schemas ch' = schemas ch"
  using assms mark_dead_ok
  by (auto simp: mark_dead_entry_with_cell_def split: option.splits)

section \<open>Lemmas: cell operations\<close>

definition bump :: "'p OwnedCell \<Rightarrow> 'p OwnedCell" where
  "bump c = c\<lparr>header := (header c)\<lparr>version := version (header c) + 1\<rparr>\<rparr>"

lemma bump_simps [simp]:
  "hash (header (bump c)) = hash (header c)" "schema (header (bump c)) = schema (header c)"
  "data (bump c) = data c" "version (header (bump c)) = version (header c) + 1"
  by (simp_all add: bump_def)

text \<open>A cell is ready to be written when its schema is registered and its data fits it.\<close>

definition ready ::
  "'p Lib \<Rightarrow> (Type \<Rightarrow> 'p Value \<Rightarrow> bool) \<Rightarrow> (Type \<Rightarrow> 'p \<Rightarrow> bool) \<Rightarrow> 'p Chunk \<Rightarrow> 'p OwnedCell \<Rightarrow> bool" where
  "ready L wt wta ch c = (\<forall>sch. SchemasMap_get (schemas ch) (schema (header c)) = Some sch \<longrightarrow>
     fits L wt wta sch (data c))"

text \<open>What writing the bytes of a cell guarantees, whatever its result.\<close>

definition cell_written ::
  "'p Env \<Rightarrow> (Type \<Rightarrow> 'p Value \<Rightarrow> bytes) \<Rightarrow> 'p OwnedCell \<Rightarrow> 'p Chunk
     \<Rightarrow> ('p WriteError + (addr \<times> Schema)) \<Rightarrow> 'p OwnedCell \<Rightarrow> 'p Chunk \<Rightarrow> bool" where
  "cell_written E enc c ch r c' ch' = (chunk_inv ch' \<and> keeps ch ch' \<and>
     (case r of Inl _ \<Rightarrow> True
      | Inr (a, sch) \<Rightarrow> c' = bump c \<and> a \<noteq> 0 \<and>
          SchemasMap_get (schemas ch) (schema (header c)) = Some sch \<and>
          indexed (memory ch') (map_of (segs ch')) (hash (header c)) a \<and>
          cell_at (env_lib E) enc (memory ch') a sch (bump c)))"

context chunk_cleaner
begin

lemma write_to_chunk_ok:
  assumes inv: "chunk_inv ch" and pop: "pops_bag (env_pop E)" and T: "types_ok (env_lib E) enc wt wta"
    and f: "fits (env_lib E) wt wta sch (data c)"
    and w: "write_to_chunk_with_schema E clean sch c ch = Some (r, c', ch')"
    and s: "SchemasMap_get (schemas ch) (schema (header c)) = Some sch"
  shows "cell_written E enc c ch (map_sum id (\<lambda>a. (a, sch)) r) c' ch'"
proof -
  obtain t js where p: "plan_cell (env_lib E) sch (data c) = Ok (t, js)" using f by (auto simp: fits_def)
  let ?len = "of_nat (t + CELL_HEADER_SIZE) :: u32"
  let ?n = "count_len_bytes ?len"
  let ?total = "Entry_size ?n ?len"
  note same = keeps_refl [OF inv]
  show ?thesis
  proof (cases "?total > MAX_CELL_SIZE")
    case True
    then show ?thesis using w p inv same
      by (auto simp: write_to_chunk_with_schema_def cell_written_def Let_def)
  next
    case False
    then obtain pe_opt ch1 where acq: "try_acquire E clean ?total ch = Some (pe_opt, ch1)"
      using w p by (auto simp: write_to_chunk_with_schema_def Let_def split: option.splits)
    note A = try_acquire_loop_ok [OF acq [unfolded try_acquire_def] inv pop]
    show ?thesis
    proof (cases pe_opt)
      case None
      then show ?thesis using w p False acq A
        by (auto simp: write_to_chunk_with_schema_def cell_written_def Let_def)
    next
      case (Some pe)
      let ?m = "encode_to (memory ch1) (pe_addr pe) CELL ?len ?n
        (cell_content_writer (env_lib E) (header (bump c)) js)"
      have d: "drop_pending pe (ch1\<lparr>memory := ?m\<rparr>) = Some ch'" and r: "r = Inr (pe_addr pe)" "c' = bump c"
        using w p False acq Some
        by (auto simp: write_to_chunk_with_schema_def Let_def bump_def)
      have f': "fits (env_lib E) wt wta sch (data (bump c))"
          "plan_cell (env_lib E) sch (data (bump c)) = Ok (t, js)" using f p by simp_all
      note C = encode_cell [OF T f', where m = "memory ch1" and a = "pe_addr pe"]
      obtain e where e: "entry_at ?m (pe_addr pe) = Some e" "entry_size e = unat ?total" "entry_ok e"
          "entry_type (entry_header e) = CELL"
          "cell_header_from_entry_content_addr ?m (body_pos e) = header (bump c)"
        using C(2) by blast
      have id: "(modify_segment (pe_seg pe) (\<lambda>s. s) ch1)\<lparr>memory := ?m\<rparr> = ch1\<lparr>memory := ?m\<rparr>"
        by (simp add: modify_segment_def map_entry_id)
      note W = write_acquired [OF _ C(3) e(1-3) refl d [folded id]]
      have "chunk_inv ch'" "keeps ch ch'" "memory ch' = ?m" "pe_addr pe \<noteq> 0"
          "indexed ?m (map_of (segs ch')) (hash (header c)) (pe_addr pe)"
        using W [of ch] A Some e(4,5) by auto
      then show ?thesis using r s C(1) by (simp add: cell_written_def)
    qed
  qed
qed

lemma write_cell_to_chunk_ok:
  assumes inv: "chunk_inv ch" and pop: "pops_bag (env_pop E)" and T: "types_ok (env_lib E) enc wt wta"
    and f: "ready (env_lib E) wt wta ch c"
    and w: "write_cell_to_chunk E clean c ch = Some (r, c', ch')"
  shows "cell_written E enc c ch r c' ch'"
proof (cases "SchemasMap_get (schemas ch) (schema (header c))")
  case None
  then show ?thesis using w inv keeps_refl [OF inv]
    by (auto simp: write_cell_to_chunk_def Let_def cell_written_def)
next
  case (Some sch)
  then have "fits (env_lib E) wt wta sch (data c)" using f by (simp add: ready_def)
  then show ?thesis using write_to_chunk_ok [OF inv pop T _ _ Some] w Some
    by (auto simp: write_cell_to_chunk_def Let_def)
qed

lemma stored_set_index:
  "cell_at L enc (memory ch) a sch c \<Longrightarrow> SchemasMap_get (schemas ch) (schema (header c)) = Some sch \<Longrightarrow>
     stored L enc (set_index h a ch) h c"
  by (auto simp: stored_def)

lemma write_cell_ok:
  assumes inv: "chunk_inv ch" and pop: "pops_bag (env_pop E)" and T: "types_ok (env_lib E) enc wt wta"
    and f: "ready (env_lib E) wt wta ch c" and w: "write_cell E clean c ch = Some (r, c', ch')"
  shows "chunk_inv ch'" and "case r of
      Inr chd \<Rightarrow> chd = header (bump c) \<and> cell_index ch (hash (header c)) = None \<and>
        stored (env_lib E) enc ch' (hash (header c)) (bump c) \<and> keeps_other (hash (header c)) ch ch'
    | Inl _ \<Rightarrow> keeps ch ch'"
proof -
  obtain q c1 ch1 where q: "write_cell_to_chunk E clean c ch = Some (q, c1, ch1)"
    using w by (auto simp: write_cell_def split: option.splits prod.splits)
  note W = write_cell_to_chunk_ok [OF inv pop T f q]
  show "chunk_inv ch'" using W q w
    by (auto simp: write_cell_def cell_written_def Let_def split: sum.splits if_splits intro!: set_index_inv)
  show "case r of
      Inr chd \<Rightarrow> chd = header (bump c) \<and> cell_index ch (hash (header c)) = None \<and>
        stored (env_lib E) enc ch' (hash (header c)) (bump c) \<and> keeps_other (hash (header c)) ch ch'
    | Inl _ \<Rightarrow> keeps ch ch'"
  proof (cases q)
    case (Inl e)
    then show ?thesis using W q w by (auto simp: write_cell_def cell_written_def)
  next
    case (Inr p)
    obtain a sch where p: "p = (a, sch)" by (cases p)
    have k: "keeps ch ch1" and c1: "c1 = bump c"
      and s: "SchemasMap_get (schemas ch1) (schema (header (bump c))) = Some sch"
      and at: "cell_at (env_lib E) enc (memory ch1) a sch (bump c)"
      using W Inr p by (auto simp: cell_written_def keeps_def)
    show ?thesis
    proof (cases "cell_index ch1 (hash (header c))")
      case None
      let ?ch = "set_index (hash (header c)) a ch1"
      have "ch' = request_index (EnsureIndices (bump c) sch None) ?ch" "r = Inr (header (bump c))"
        using w q Inr p c1 None by (auto simp: write_cell_def Let_def)
      moreover have "stored (env_lib E) enc ?ch (hash (header c)) (bump c)"
        using at s by (rule stored_set_index)
      moreover have "keeps_other (hash (header c)) ch ?ch" using k by (rule set_index_keeps)
      ultimately show ?thesis using k None
        by (auto simp: stored_def keeps_other_def keeps_index_None)
    next
      case (Some b)
      then show ?thesis using w q Inr p c1 k by (auto simp: write_cell_def Let_def)
    qed
  qed
qed

lemma update_cell_ok:
  assumes inv: "chunk_inv ch" and pop: "pops_bag (env_pop E)" and T: "types_ok (env_lib E) enc wt wta"
    and f: "ready (env_lib E) wt wta ch c" and w: "update_cell E clean c ch = Some (r, c', ch')"
  shows "chunk_inv ch'" and "case r of
      Inr chd \<Rightarrow> chd = header (bump c) \<and> cell_index ch (hash (header c)) \<noteq> None \<and>
        stored (env_lib E) enc ch' (hash (header c)) (bump c) \<and> keeps_other (hash (header c)) ch ch'
    | Inl _ \<Rightarrow> keeps ch ch'"
proof -
  let ?h = "hash (header c)"
  obtain q c1 ch1 where q: "write_cell_to_chunk E clean c ch = Some (q, c1, ch1)"
    using w by (auto simp: update_cell_def Let_def split: option.splits prod.splits)
  note W = write_cell_to_chunk_ok [OF inv pop T f q]
  have "chunk_inv ch' \<and> (case r of
      Inr chd \<Rightarrow> chd = header (bump c) \<and> cell_index ch ?h \<noteq> None \<and>
        stored (env_lib E) enc ch' ?h (bump c) \<and> keeps_other ?h ch ch'
    | Inl _ \<Rightarrow> keeps ch ch')"
  proof (cases q)
    case (Inl e)
    then show ?thesis using W q w by (auto simp: update_cell_def Let_def cell_written_def)
  next
    case (Inr p)
    obtain a sch where p: "p = (a, sch)" by (cases p)
    have k: "keeps ch ch1" "chunk_inv ch1" and c1: "c1 = bump c"
      and s: "SchemasMap_get (schemas ch1) (schema (header (bump c))) = Some sch"
      and at: "cell_at (env_lib E) enc (memory ch1) a sch (bump c)"
      and ix: "indexed (memory ch1) (map_of (segs ch1)) ?h a"
      using W Inr p by (auto simp: cell_written_def keeps_def)
    show ?thesis
    proof (cases "location_for_write ch1 ?h")
      case None
      then obtain ch2 where "mark_dead_entry_with_cell a ch1 = Some ch2" "r = Inl WE_CellDoesNotExisted" "ch' = ch2"
        using w q Inr p by (auto simp: update_cell_def Let_def)
      then show ?thesis using mark_dead_cell_ok [of a ch1 ch2] k by (auto intro: keeps_cong)
    next
      case (Some loc)
      then have ex: "cell_index ch ?h \<noteq> None"
        using keeps_index_None [OF k(1), of ?h]
        by (cases "cell_index ch1 ?h") (auto simp: location_for_write_def simp del: not_None_eq)
      show ?thesis
      proof (cases "\<exists>e. old_index_res E ch1 loc = Some (Inl e)")
        case True
        then show ?thesis using w q Inr p Some k by (auto simp: update_cell_def Let_def)
      next
        case False
        then obtain old ch2 where
            ch2: "mark_dead_entry_with_cell loc (set_index ?h a (request_index (EnsureIndices c1 sch old) ch1)) = Some ch2"
            and r: "r = Inr (header c1)" "ch' = ch2"
          using w q Inr p Some by (auto simp: update_cell_def Let_def split: option.splits sum.splits)
        note M = mark_dead_cell_ok [OF ch2]
        have "chunk_inv ch2" using k(2) ix by (intro M(1) set_index_inv) simp_all
        moreover have "stored (env_lib E) enc ch2 ?h (bump c)"
          using stored_set_index [OF at s] M by (simp add: stored_def)
        moreover have "keeps_other ?h ch ch2"
          using set_index_keeps [OF k(1), of ?h a] M by (intro keeps_other_cong [of ch2 "set_index ?h a ch1"]) auto
        ultimately show ?thesis using r c1 ex by simp
      qed
    qed
  qed
  then show "chunk_inv ch'" and "case r of
      Inr chd \<Rightarrow> chd = header (bump c) \<and> cell_index ch ?h \<noteq> None \<and>
        stored (env_lib E) enc ch' ?h (bump c) \<and> keeps_other ?h ch ch'
    | Inl _ \<Rightarrow> keeps ch ch'"
    by auto
qed

lemma upsert_cell_ok:
  assumes inv: "chunk_inv ch" and pop: "pops_bag (env_pop E)" and T: "types_ok (env_lib E) enc wt wta"
    and f: "ready (env_lib E) wt wta ch c" and w: "upsert_cell E clean c ch = Some (r, c', ch')"
  shows "chunk_inv ch'" and "case r of
      Inr chd \<Rightarrow> chd = header (bump c) \<and>
        stored (env_lib E) enc ch' (hash (header c)) (bump c) \<and> keeps_other (hash (header c)) ch ch'
    | Inl _ \<Rightarrow> keeps ch ch'"
proof -
  let ?h = "hash (header c)"
  obtain q c1 ch1 where q: "write_cell_to_chunk E clean c ch = Some (q, c1, ch1)"
    using w by (auto simp: upsert_cell_def Let_def split: option.splits prod.splits)
  note W = write_cell_to_chunk_ok [OF inv pop T f q]
  have "chunk_inv ch' \<and> (case r of
      Inr chd \<Rightarrow> chd = header (bump c) \<and> stored (env_lib E) enc ch' ?h (bump c) \<and> keeps_other ?h ch ch'
    | Inl _ \<Rightarrow> keeps ch ch')"
  proof (cases q)
    case (Inl e)
    then show ?thesis using W q w by (auto simp: upsert_cell_def Let_def cell_written_def)
  next
    case (Inr p)
    obtain a sch where p: "p = (a, sch)" by (cases p)
    have k: "keeps ch ch1" "chunk_inv ch1" and c1: "c1 = bump c"
      and s: "SchemasMap_get (schemas ch1) (schema (header (bump c))) = Some sch"
      and at: "cell_at (env_lib E) enc (memory ch1) a sch (bump c)"
      and ix: "indexed (memory ch1) (map_of (segs ch1)) ?h a"
      using W Inr p by (auto simp: cell_written_def keeps_def)
    let ?ch = "set_index ?h a ch1"
    have base: "chunk_inv ?ch" "stored (env_lib E) enc ?ch ?h (bump c)" "keeps_other ?h ch ?ch"
      using set_index_inv [OF k(2) ix] stored_set_index [OF at s] set_index_keeps [OF k(1)] by auto
    show ?thesis
    proof (cases "location_for_write ch1 ?h")
      case None
      then show ?thesis using w q Inr p c1 base
        by (auto simp: upsert_cell_def Let_def stored_def keeps_other_def split: if_splits)
    next
      case (Some loc)
      show ?thesis
      proof (cases "\<exists>e. old_index_res E ch1 loc = Some (Inl e)")
        case True
        then show ?thesis using w q Inr p Some k by (auto simp: upsert_cell_def Let_def)
      next
        case False
        then obtain old ch2 where
            ch2: "mark_dead_entry_with_cell loc (request_index (EnsureIndices c1 sch old) ?ch) = Some ch2"
            and r: "r = Inr (header c1)" "ch' = ch2"
          using w q Inr p Some by (auto simp: upsert_cell_def Let_def split: option.splits sum.splits)
        note M = mark_dead_cell_ok [OF ch2]
        show ?thesis using base M r c1 by (auto simp: stored_def keeps_other_def)
      qed
    qed
  qed
  then show "chunk_inv ch'" and "case r of
      Inr chd \<Rightarrow> chd = header (bump c) \<and> stored (env_lib E) enc ch' ?h (bump c) \<and> keeps_other ?h ch ch'
    | Inl _ \<Rightarrow> keeps ch ch'"
    by auto
qed

lemma acquire_tombstone_ok:
  assumes "acquire_tombstone E clean ch = Some (pe, ch')" and "chunk_inv ch" and "pops_bag (env_pop E)"
  shows "acquired_from ch TOMBSTONE_ENTRY_SIZE pe ch'"
proof -
  let ?P = "\<lambda>E c ch r. c = clean \<longrightarrow> pops_bag (env_pop E) \<longrightarrow> chunk_inv ch \<longrightarrow>
    acquired_from ch TOMBSTONE_ENTRY_SIZE (fst r) (snd r)"
  have "?P E clean ch (pe, ch')"
  proof (rule acquire_tombstone.raw_induct [OF _ assms(1), of ?P], intro impI)
    fix f :: "'p Env \<Rightarrow> 'p cleaner \<Rightarrow> 'p Chunk \<Rightarrow> (PendingEntry \<times> 'p Chunk) option"
      and E :: "'p Env" and c :: "'p cleaner" and ch :: "'p Chunk" and r :: "PendingEntry \<times> 'p Chunk"
    assume IH: "\<And>E c ch r. f E c ch = Some r \<Longrightarrow> ?P E c ch r"
      and c: "c = clean" and pop: "pops_bag (env_pop E)" and inv: "chunk_inv ch"
      and body: "Option.bind (try_acquire E c TOMBSTONE_ENTRY_SIZE ch)
        (\<lambda>(pe_opt, ch1). case pe_opt of None \<Rightarrow> f E c ch1 | Some pe \<Rightarrow> Some (pe, ch1)) = Some r"
    obtain pe_opt ch1 where a: "try_acquire_loop E clean TOMBSTONE_ENTRY_SIZE False ch = Some (pe_opt, ch1)"
      using body c by (auto simp: try_acquire_def bind_eq_Some_conv)
    note A = try_acquire_loop_ok [OF a inv pop]
    show "acquired_from ch TOMBSTONE_ENTRY_SIZE (fst r) (snd r)"
    proof (cases pe_opt)
      case None
      then have "f E clean ch1 = Some r" using body a c by (simp add: try_acquire_def)
      then show ?thesis using IH pop A None by (auto intro: acquired_from_keeps)
    next
      case (Some pe)
      then show ?thesis using body a c A by (auto simp: try_acquire_def)
    qed
  qed
  then show ?thesis using assms by simp
qed

lemma put_tombstone_ok:
  assumes inv: "chunk_inv ch" and pop: "pops_bag (env_pop E)"
    and p: "put_tombstone E clean chd sid ch = Some ch'"
  shows "chunk_inv ch'" and "keeps ch ch'"
proof -
  obtain pe ch1 where a: "acquire_tombstone E clean ch = Some (pe, ch1)"
    using p by (auto simp: put_tombstone_def split: option.splits)
  let ?m = "Tombstone_put (pe_addr pe) sid (version chd) (partition chd) (hash chd) (memory ch1)"
  let ?g = "\<lambda>s. s\<lparr>tombstones := tombstones s + 1\<rparr>"
  let ?e = "\<lparr>body_pos = pe_addr pe + 2, entry_pos = pe_addr pe, entry_size = 34,
    entry_header = \<lparr>entry_type = TOMBSTONE, content_length = 32\<rparr>\<rparr>"
  have e: "entry_at ?m (pe_addr pe) = Some ?e"
    by (simp add: entry_at_def header_at_tombstone_put)
  have d: "drop_pending pe ((modify_segment (pe_seg pe) ?g ch1)\<lparr>memory := ?m\<rparr>) = Some ch'"
    using p a by (cases ch1) (simp add: put_tombstone_def modify_segment_def)
  note W = write_acquired [OF acquire_tombstone_ok [OF a inv pop] _ e _ _ _ d]
  show "chunk_inv ch'" "keeps ch ch'"
    by (rule W; simp add: Tombstone_put_frame entry_ok_def seg_core_def)+
qed

lemma put_tombstone_by_cell_loc_ok:
  assumes inv: "chunk_inv ch" and pop: "pops_bag (env_pop E)"
    and p: "put_tombstone_by_cell_loc E clean loc ch = Some (r, ch')"
  shows "chunk_inv ch'" and "keeps ch ch'"
proof -
  have "chunk_inv ch' \<and> keeps ch ch'"
  proof (cases "ch' = ch")
    case True
    then show ?thesis using inv keeps_refl [OF inv] by simp
  next
    case False
    then obtain chd sid k ch1 where t: "put_tombstone E clean chd sid ch = Some ch1"
        "mark_dead_entry_with_seg loc k ch1 = Some ch'"
      using p by (auto simp: put_tombstone_by_cell_loc_def split: option.splits sum.splits)
    note P = put_tombstone_ok [OF inv pop t(1)]
    note M = mark_dead_ok [OF t(2)]
    show ?thesis using M(1) [OF P(1)] keeps_cong [OF M(2-4) P(2)] by simp
  qed
  then show "chunk_inv ch'" and "keeps ch ch'" by auto
qed

lemma map_sum_eq_iff:
  "(map_sum f g z = Inl a) = (\<exists>b. z = Inl b \<and> f b = a)"
  "(map_sum f g z = Inr c) = (\<exists>d. z = Inr d \<and> g d = c)"
  by (cases z; auto)+

lemma keeps_from_lock: "keeps (lock_cell h ch) ch' = keeps ch ch'"
  by (simp add: keeps_def)

lemma remove_cell_ok:
  assumes inv: "chunk_inv ch" and pop: "pops_bag (env_pop E)"
    and w: "remove_cell E clean h ch = Some (r, ch')"
  shows "chunk_inv ch'" and "case r of
      Inr _ \<Rightarrow> cell_index ch h \<noteq> None \<and> cell_index ch' h = None \<and> keeps_other h ch ch'
    | Inl _ \<Rightarrow> keeps ch ch'"
proof -
  have "chunk_inv ch' \<and> (case r of
      Inr _ \<Rightarrow> cell_index ch h \<noteq> None \<and> cell_index ch' h = None \<and> keeps_other h ch ch'
    | Inl _ \<Rightarrow> keeps ch ch')"
  proof (cases "cell_index ch h")
    case None
    then show ?thesis using w inv keeps_refl [OF inv] by (auto simp: remove_cell_def)
  next
    case (Some loc)
    let ?ch0 = "lock_cell h ch"
    obtain ind where ind: "(if index_builder ch = None then Some (Inr ?ch0)
        else map_option (map_sum WE_ReadError (\<lambda>(cell, sch). request_index (RemoveIndices cell sch) ?ch0))
          (from_chunk_raw E ?ch0 loc)) = Some ind"
      using w Some by (auto simp: remove_cell_def Let_def split: option.splits if_splits)
    show ?thesis
    proof (cases ind)
      case (Inl e)
      then obtain e' where e: "from_chunk_raw E ?ch0 loc = Some (Inl e')" "index_builder ch \<noteq> None"
        using ind by (auto simp: map_sum_eq_iff split: if_splits)
      then show ?thesis using w Some inv keeps_refl [OF inv]
        by (auto simp: remove_cell_def Let_def keeps_def)
    next
      case (Inr ch1)
      have ch1: "chunk_inv ch1" "keeps ch ch1"
        using ind Inr inv keeps_refl [OF inv] by (auto simp: keeps_def map_sum_eq_iff split: if_splits)
      have w': "(case put_tombstone_by_cell_loc E clean loc ch1 of
            None \<Rightarrow> None
          | Some (Inl e, ch2) \<Rightarrow> Some (Inl e, unlock_cell h ch2)
          | Some (Inr _, ch2) \<Rightarrow> Some (Inr (), unlock_cell h (remove_index h ch2))) = Some (r, ch')"
        using w Some ind Inr
        by (cases "index_builder ch") (auto simp: remove_cell_def Let_def map_sum_eq_iff)
      then obtain q ch2 where q: "put_tombstone_by_cell_loc E clean loc ch1 = Some (q, ch2)"
        by (auto split: option.splits)
      note P = put_tombstone_by_cell_loc_ok [OF ch1(1) pop q]
      have k: "keeps ch ch2" using ch1(2) P(2) by (rule keeps_trans)
      have "r = map_sum id id q" "ch' = (case q of Inl _ \<Rightarrow> unlock_cell h ch2
          | Inr _ \<Rightarrow> unlock_cell h (remove_index h ch2))"
        using w' q by (auto split: sum.splits)
      then show ?thesis using P(1) k Some remove_index_inv [OF P(1)] remove_index_keeps [OF k, of h]
        by (cases q) (auto simp: keeps_def keeps_other_def)
    qed
  qed
  then show "chunk_inv ch'" and "case r of
      Inr _ \<Rightarrow> cell_index ch h \<noteq> None \<and> cell_index ch' h = None \<and> keeps_other h ch ch'
    | Inl _ \<Rightarrow> keeps ch ch'"
    by auto
qed

lemma remove_cell_by_ok:
  assumes inv: "chunk_inv ch" and pop: "pops_bag (env_pop E)"
    and w: "remove_cell_by E clean h pr ch = Some (r, ch')"
  shows "chunk_inv ch'" and "case r of
      Inr _ \<Rightarrow> cell_index ch h \<noteq> None \<and> cell_index ch' h = None \<and> keeps_other h ch ch'
    | Inl _ \<Rightarrow> keeps ch ch'"
proof -
  have "chunk_inv ch' \<and> (case r of
      Inr _ \<Rightarrow> cell_index ch h \<noteq> None \<and> cell_index ch' h = None \<and> keeps_other h ch ch'
    | Inl _ \<Rightarrow> keeps ch ch')"
  proof (cases "cell_index ch h")
    case None
    then show ?thesis using w inv keeps_refl [OF inv] by (auto simp: remove_cell_by_def)
  next
    case (Some loc)
    let ?ch0 = "lock_cell h ch"
    obtain raw where raw: "from_chunk_raw E ?ch0 loc = Some raw"
      using w Some by (auto simp: remove_cell_by_def Let_def split: option.splits)
    show ?thesis
    proof (cases "\<exists>cell sch. raw = Inr (cell, sch) \<and> pr cell")
      case False
      then show ?thesis using w Some raw inv keeps_refl [OF inv]
        by (cases raw) (auto simp: remove_cell_by_def Let_def keeps_def)
    next
      case True
      then obtain cell sch where cell: "raw = Inr (cell, sch)" "pr cell" by blast
      obtain q ch2 where q: "put_tombstone_by_cell_loc E clean loc ?ch0 = Some (q, ch2)"
        using w Some raw cell by (auto simp: remove_cell_by_def Let_def split: option.splits)
      have inv0: "chunk_inv ?ch0" using inv by simp
      note P = put_tombstone_by_cell_loc_ok [OF inv0 pop q]
      have k: "keeps ch ch2" using P(2) by (simp add: keeps_from_lock)
      have "r = map_sum id id q" "ch' = (case q of Inl _ \<Rightarrow> unlock_cell h ch2
          | Inr _ \<Rightarrow> unlock_cell h (remove_index h (request_index (RemoveIndices cell sch) ch2)))"
        using w Some raw cell q by (auto simp: remove_cell_by_def Let_def split: sum.splits)
      then show ?thesis using P(1) k Some remove_index_keeps [OF k, of h]
        by (cases q) (auto simp: keeps_def keeps_other_def intro!: remove_index_inv)
    qed
  qed
  then show "chunk_inv ch'" and "case r of
      Inr _ \<Rightarrow> cell_index ch h \<noteq> None \<and> cell_index ch' h = None \<and> keeps_other h ch ch'
    | Inl _ \<Rightarrow> keeps ch ch'"
    by auto
qed

end

section \<open>Lemmas: operations that have room\<close>

text \<open>The head segment has room for \<open>n\<close> more bytes and its log file can be written.\<close>

definition head_room :: "'p Chunk \<Rightarrow> nat \<Rightarrow> bool" where
  "head_room ch n = (case map_of (segs ch) (unat (head_seg_id ch)) of
      None \<Rightarrow> False
    | Some seg \<Rightarrow> append_header seg + n \<le> seg_bound seg \<and>
        (case wal_file seg of None \<Rightarrow> True | Some f \<Rightarrow> \<not> denied (disk ch) f))"

lemma head_room_index: "head_room (request_index r (set_index h a ch)) n = head_room ch n"
  by (simp add: head_room_def set_index_def request_index_def cong: option.case_cong)

lemma head_roomD:
  assumes "head_room ch n"
  obtains seg where "map_of (segs ch) (unat (head_seg_id ch)) = Some seg" "append_header seg + n \<le> seg_bound seg"
    "\<And>f. wal_file seg = Some f \<Longrightarrow> \<not> denied (disk ch) f"
  using assms by (auto simp: head_room_def split: option.splits)

lemma try_acquire_room:
  assumes "map_of (segs ch) (unat (head_seg_id ch)) = Some seg" "append_header seg + unat sz \<le> seg_bound seg"
  shows "try_acquire E clean sz ch = Some (Some \<lparr>pe_seg = unat (head_seg_id ch), pe_addr = append_header seg, pe_size = sz\<rparr>,
    modify_segment (unat (head_seg_id ch))
      (\<lambda>_. seg\<lparr>append_header := append_header seg + unat sz, references := references seg + 1\<rparr>) ch)"
  unfolding try_acquire_def
  by (subst try_acquire_loop.simps)
     (use assms in \<open>simp add: try_acquire_turn_def Let_def Segment_try_acquire_def\<close>)

lemma drop_pending_total:
  assumes "map_of (segs ch) (pe_seg pe) = Some seg" and "\<And>f. wal_file seg = Some f \<Longrightarrow> \<not> denied (disk ch) f"
  shows "\<exists>ch'. drop_pending pe ch = Some ch'"
  using assms by (auto simp: drop_pending_def write_wal_def fs_append_def split: option.splits)

lemma write_cell_to_chunk_room:
  assumes s: "SchemasMap_get (schemas ch) (schema (header c)) = Some sch"
    and p: "plan_cell (env_lib E) sch (data c) = Ok (t, js)"
    and sz: "t + CELL_HEADER_SIZE + 5 \<le> unat MAX_CELL_SIZE" and room: "head_room ch (t + CELL_HEADER_SIZE + 5)"
  shows "\<exists>a ch'. write_cell_to_chunk E clean c ch = Some (Inr (a, sch), bump c, ch') \<and>
    cell_index ch' = cell_index ch \<and> index_builder ch' = index_builder ch \<and>
    (\<exists>seg seg'. map_of (segs ch) (unat (head_seg_id ch)) = Some seg \<and>
       map_of (segs ch') (unat (head_seg_id ch)) = Some seg' \<and>
       append_header seg < append_header seg' \<and> total_dead_space seg' = total_dead_space seg) \<and>
    (\<forall>n. head_room ch (t + CELL_HEADER_SIZE + 5 + n) \<longrightarrow> head_room ch' n)"
proof -
  obtain seg where seg: "map_of (segs ch) (unat (head_seg_id ch)) = Some seg"
      "append_header seg + (t + CELL_HEADER_SIZE + 5) \<le> seg_bound seg"
      "\<And>f. wal_file seg = Some f \<Longrightarrow> \<not> denied (disk ch) f"
    using room by (rule head_roomD) blast
  let ?len = "of_nat (t + CELL_HEADER_SIZE) :: u32"
  let ?n = "count_len_bytes ?len"
  have bound: "t + CELL_HEADER_SIZE + 5 \<le> 1048576" using sz by (simp add: MAX_CELL_SIZE_def)
  then have len: "unat ?len = t + CELL_HEADER_SIZE" by (subst unat_of_nat) simp
  have total: "unat (Entry_size ?n ?len) = 1 + unat ?n + (t + CELL_HEADER_SIZE)"
    using unat_Entry_size [of ?len ?n] count_len_bytes_le [of ?len] bound len by simp
  have n: "unat ?n \<le> 4" by (rule count_len_bytes_le)
  have le: "\<not> Entry_size ?n ?len > MAX_CELL_SIZE"
    using total n sz by (simp add: word_less_nat_alt)
  note A = try_acquire_room [OF seg(1), of "Entry_size ?n ?len" E clean]
  let ?pe = "\<lparr>pe_seg = unat (head_seg_id ch), pe_addr = append_header seg, pe_size = Entry_size ?n ?len\<rparr>"
  let ?ch1 = "modify_segment (unat (head_seg_id ch)) (\<lambda>_. seg\<lparr>append_header := append_header seg +
    unat (Entry_size ?n ?len), references := references seg + 1\<rparr>) ch"
  let ?m = "encode_to (memory ch) (append_header seg) CELL ?len ?n (cell_content_writer (env_lib E) (header (bump c)) js)"
  have a: "try_acquire E clean (Entry_size ?n ?len) ch = Some (Some ?pe, ?ch1)"
    by (rule A) (use seg(2) total n in simp)
  obtain ch' where d: "drop_pending ?pe (?ch1\<lparr>memory := ?m\<rparr>) = Some ch'"
    using drop_pending_total [of "?ch1\<lparr>memory := ?m\<rparr>" ?pe] seg(1,3) by auto
  have "write_cell_to_chunk E clean c ch = Some (Inr (append_header seg, sch), bump c, ch')"
    using s p le a d by (simp add: write_cell_to_chunk_def write_to_chunk_with_schema_def Let_def bump_def)
  moreover have "cell_index ch' = cell_index ch \<and> index_builder ch' = index_builder ch"
    using drop_pending_ok(4,7) [OF d] by simp
  moreover have "\<exists>seg'. map_of (segs ch') (unat (head_seg_id ch)) = Some seg' \<and>
      append_header seg < append_header seg' \<and> total_dead_space seg' = total_dead_space seg"
    using d seg(1) total
    by (auto simp: drop_pending_def total_dead_space_def split: option.splits prod.splits sum.splits)
  moreover have "head_room ch' k" if "head_room ch (t + CELL_HEADER_SIZE + 5 + k)" for k
    using d seg(1) total n that
    by (auto simp: drop_pending_def head_room_def write_wal_def fs_append_def
        split: option.splits prod.splits sum.splits if_splits)
  ultimately show ?thesis using seg(1) by blast
qed

lemma write_cell_room:
  assumes "SchemasMap_get (schemas ch) (schema (header c)) = Some sch"
    and "plan_cell (env_lib E) sch (data c) = Ok (t, js)"
    and "t + CELL_HEADER_SIZE + 5 \<le> unat MAX_CELL_SIZE" and "head_room ch (t + CELL_HEADER_SIZE + 5)"
    and "cell_index ch (hash (header c)) = None"
  shows "\<exists>ch'. write_cell E clean c ch = Some (Inr (header (bump c)), bump c, ch') \<and>
    (\<forall>n. head_room ch (t + CELL_HEADER_SIZE + 5 + n) \<longrightarrow> head_room ch' n)"
proof -
  obtain a ch1 where w: "write_cell_to_chunk E clean c ch = Some (Inr (a, sch), bump c, ch1)"
      "cell_index ch1 = cell_index ch" "\<forall>n. head_room ch (t + CELL_HEADER_SIZE + 5 + n) \<longrightarrow> head_room ch1 n"
    using write_cell_to_chunk_room [OF assms(1-4), of clean] by blast
  then show ?thesis using assms(5)
    by (simp add: write_cell_def head_room_index)
qed

text \<open>A cell that exists already: the write fails after its entry was appended, and nothing counts
  the appended bytes as dead.\<close>

lemma write_cell_existing:
  assumes "SchemasMap_get (schemas ch) (schema (header c)) = Some sch"
    and "plan_cell (env_lib E) sch (data c) = Ok (t, js)"
    and "t + CELL_HEADER_SIZE + 5 \<le> unat MAX_CELL_SIZE" and "head_room ch (t + CELL_HEADER_SIZE + 5)"
    and "cell_index ch (hash (header c)) \<noteq> None"
  shows "\<exists>ch' seg seg'. write_cell E clean c ch = Some (Inl WE_CellAlreadyExisted, bump c, ch') \<and>
    map_of (segs ch) (unat (head_seg_id ch)) = Some seg \<and> map_of (segs ch') (unat (head_seg_id ch)) = Some seg' \<and>
    append_header seg < append_header seg' \<and> total_dead_space seg' = total_dead_space seg"
  using write_cell_to_chunk_room [OF assms(1-4), of clean] assms(5) by (auto simp: write_cell_def Let_def)

text \<open>The segment of an indexed address.\<close>

lemma indexed_segment:
  assumes inv: "chunk_inv ch" and ix: "indexed (memory ch) (map_of (segs ch)) h a"
  obtains k seg f where "map_of (segs ch) k = Some seg" "locate_segment ch a = Some k" "0 < a"
    "entry_at (memory ch) a = Some f" "entry_type (entry_header f) = CELL"
proof -
  obtain k seg es e where *: "map_of (segs ch) k = Some seg" "seg_log (memory ch) seg es" "e \<in> set es"
      "entry_pos e = a" "entry_type (entry_header e) = CELL"
    using ix by (auto simp: indexed_def)
  have "log_range (memory ch) (seg_addr seg) (append_header seg) es" using *(2) by (simp add: seg_log_def)
  note R = log_range_entry [OF this *(3)]
  have in_seg: "seg_addr seg \<le> a" "a < seg_addr seg + SEGMENT_SIZE"
    using R *(4) inv_seg_bounds(2) [OF inv *(1)] entry_at_simps(4) [OF R(1)] by auto
  have "seg_addr seg \<in> set (map (seg_addr \<circ> snd) (segs ch))" using map_of_SomeD [OF *(1)] by force
  then obtain i where i: "seg_addr seg = base (allocator ch) + i * SEGMENT_SIZE"
    by (elim alloc_inv_member [OF inv_alloc [OF inv] UnI1])
  have k: "k = i" using seg_invD(2) [OF inv_seg [OF inv *(1)]] i by (simp add: id_by_addr_div)
  have "(a - base (allocator ch)) div SEGMENT_SIZE = i"
    using in_seg i by (intro div_nat_eqI) (auto simp: mult.commute)
  then have "locate_segment ch a = Some k" using k *(1) by (simp add: locate_segment_def Let_def id_by_addr_div)
  moreover have "0 < a" using in_seg inv_seg_addr_pos [OF inv *(1)] by simp
  ultimately show ?thesis using that *(1,4,5) R(1) by blast
qed

lemma mark_dead_entry_total:
  assumes "entry_at (memory ch) a = Some f" shows "\<exists>ch'. mark_dead_entry_with_seg a k ch = Some ch'"
  using entry_at_simps(5) [OF assms] by (simp add: mark_dead_entry_with_seg_def decode_from_header_at)

lemma locate_segment_core:
  "map fst (segs ch') = map fst (segs ch) \<Longrightarrow> base (allocator ch') = base (allocator ch) \<Longrightarrow>
     locate_segment ch' a = locate_segment ch a"
  by (simp add: locate_segment_def Let_def id_by_addr_def map_of_eq_None_iff flip: set_map)

lemma mark_dead_cell_total:
  assumes "chunk_inv ch" and "indexed (memory ch) (map_of (segs ch)) h a"
  shows "\<exists>ch'. mark_dead_entry_with_cell a ch = Some ch'"
  by (rule indexed_segment [OF assms]) (auto simp: mark_dead_entry_with_cell_def dest: mark_dead_entry_total)

text \<open>Reading a stored cell back.\<close>

lemma read_stored:
  assumes inv: "chunk_inv ch" and T: "types_ok (env_lib E) enc wt wta"
    and c: "stored (env_lib E) enc ch h c" and r: "ready (env_lib E) wt wta ch c"
  shows "read_cell E ch h = Some (Inr c)"
proof -
  obtain a sch where a: "cell_index ch h = Some a" "SchemasMap_get (schemas ch) (schema (header c)) = Some sch"
      "cell_at (env_lib E) enc (memory ch) a sch c"
    using c by (auto simp: stored_def)
  have pos: "a \<noteq> 0" using inv_index [OF inv a(1)] by (rule indexed_segment [OF inv]) simp
  have "fits (env_lib E) wt wta sch (data c)" using r a(2) by (simp add: ready_def)
  from cell_at_read [OF T a(3) this pos a(2)] show ?thesis
    using a(1) pos by (simp add: read_cell_def location_for_read_def)
qed

lemma read_absent: "cell_index ch h = None \<Longrightarrow> h \<noteq> 0 \<Longrightarrow> read_cell E ch h = Some (Inl RE_CellDoesNotExisted)"
  by (simp add: read_cell_def location_for_read_def)

context chunk_cleaner
begin

lemma update_cell_room:
  assumes inv: "chunk_inv ch" and pop: "pops_bag (env_pop E)" and T: "types_ok (env_lib E) enc wt wta"
    and f: "ready (env_lib E) wt wta ch c"
    and s: "SchemasMap_get (schemas ch) (schema (header c)) = Some sch"
    and p: "plan_cell (env_lib E) sch (data c) = Ok (t, js)"
    and sz: "t + CELL_HEADER_SIZE + 5 \<le> unat MAX_CELL_SIZE" "head_room ch (t + CELL_HEADER_SIZE + 5)"
    and ix: "cell_index ch (hash (header c)) = Some loc" and ib: "index_builder ch = None"
  shows "\<exists>ch'. update_cell E clean c ch = Some (Inr (header (bump c)), bump c, ch')"
proof -
  let ?h = "hash (header c)"
  obtain a ch1 where w: "write_cell_to_chunk E clean c ch = Some (Inr (a, sch), bump c, ch1)"
      and ch1: "cell_index ch1 = cell_index ch" "index_builder ch1 = None"
    using write_cell_to_chunk_room [OF s p sz, of clean] ib by auto
  have inv1: "chunk_inv ch1" and ia: "indexed (memory ch1) (map_of (segs ch1)) ?h a"
    using write_cell_to_chunk_ok [OF inv pop T f w] by (auto simp: cell_written_def)
  have loc: "indexed (memory ch1) (map_of (segs ch1)) ?h loc" using inv_index [OF inv1] ix ch1(1) by simp
  have pos: "loc \<noteq> 0" by (rule indexed_segment [OF inv1 loc]) simp
  let ?ch = "set_index ?h a (request_index (EnsureIndices (bump c) sch None) ch1)"
  have "chunk_inv ?ch" using set_index_inv [of "request_index (EnsureIndices (bump c) sch None) ch1"] inv1 ia by simp
  then obtain ch2 where "mark_dead_entry_with_cell loc ?ch = Some ch2"
    using mark_dead_cell_total [of ?ch ?h loc] loc by auto
  then show ?thesis using w ch1 ix pos
    by (simp add: update_cell_def Let_def location_for_write_def old_index_res_def)
qed

end

end
