(* ===== verification/Neb_Txn.thy ===== *)
theory Neb_Txn
  imports Neb_Chunk
begin

text \<open>
  The data of the transaction protocol, \<^verbatim>\<open>src/src/server/transactions/mod.rs\<close>: results,
  states, errors and the operations of a commit. Transaction identifiers are vector clocks of the
  bifrost library; their comparison, creation, merge and increment and the order of a
  \<^verbatim>\<open>BTreeSet\<close> of them are the fields of \<open>Clocks\<close>.
\<close>

section \<open>Clocks\<close>

record 'tid Clocks =
  ck_less :: "'tid \<Rightarrow> 'tid \<Rightarrow> bool"
  ck_new :: 'tid
  ck_merge :: "'tid \<Rightarrow> 'tid \<Rightarrow> 'tid"
  ck_inc :: "'tid \<Rightarrow> 'tid"
  ck_first :: "'tid set \<Rightarrow> 'tid option"

text \<open>What is assumed of the comparison: it is a strict order with the new clock at the bottom, and
  total, as the contract of \<^verbatim>\<open>Ord\<close> demands of the keys of a \<^verbatim>\<open>BTreeSet\<close>, which
  transaction identifiers are.\<close>

definition clocks_ok :: "'tid Clocks \<Rightarrow> bool" where
  "clocks_ok K = ((\<forall>a. \<not> ck_less K a a) \<and> (\<forall>a b c. ck_less K a b \<longrightarrow> ck_less K b c \<longrightarrow> ck_less K a c) \<and>
     (\<forall>a b. a = b \<or> ck_less K a b \<or> ck_less K b a) \<and> (\<forall>a. \<not> ck_less K a (ck_new K)))"

section \<open>States and results\<close>

datatype TxnState = Started | Aborted | Prepared | Committed

datatype ('a, 'e) TxnExecResult =
    TER_Rejected
  | TER_Wait
  | TER_Accepted 'a
  | TER_Error 'e
  | TER_StateError TxnState

text \<open>\<^verbatim>\<open>TxnExecResult::unwrap\<close> panics unless the result is accepted.\<close>

definition TxnExecResult_unwrap :: "('a, 'e) TxnExecResult \<Rightarrow> 'a option" where
  "TxnExecResult_unwrap r = (case r of TER_Accepted d \<Rightarrow> Some d | _ \<Rightarrow> None)"

record ('a, 'tid) DataSiteResponse =
  payload :: 'a
  resp_clock :: 'tid

datatype CheckError =
    CE_CellNumberDoesNotMatch nat nat
  | CE_NotExisted
  | CE_NotCommitted
  | CE_AlreadyCommitted
  | CE_AlreadyAborted
  | CE_CannotEnd

datatype DMPrepareResult =
    DMP_Wait
  | DMP_Success
  | DMP_TransactionNotExisted
  | DMP_NotRealizable
  | DMP_StateError TxnState
  | DMP_NetworkError

datatype 'p DMCommitResult =
    DMC_Success
  | DMC_WriteError Id "'p WriteError"
  | DMC_CellChanged Id
  | DMC_CheckFailed CheckError

record 'p RollbackFailure =
  rf_id :: Id
  rf_error :: "'p WriteError"

datatype 'p AbortResult =
    AR_CheckFailed CheckError
  | AR_Success "'p RollbackFailure list option"

datatype EndResult =
    ER_CheckFailed CheckError
  | ER_SomeLocksNotReleased
  | ER_Success

datatype 'p CommitOp =
    CO_Write "'p OwnedCell"
  | CO_Update "'p OwnedCell"
  | CO_Remove Id
  | CO_Read Id u64
  | CO_None

datatype 'p TMPrepareResult =
    TMP_Success
  | TMP_DMPrepareError DMPrepareResult
  | TMP_DMCommitError "'p DMCommitResult"

datatype TMError =
    TM_TransactionNotFound
  | TM_TransactionIdExisted
  | TM_CannotLocateCellServer
  | TM_RPCErrorFromCellServer
  | TM_AssertionError
  | TM_InvalidTransactionState TxnState
  | TM_Other

text \<open>\<^verbatim>\<open>OwnedCell::id\<close>.\<close>

definition cell_id :: "'p OwnedCell \<Rightarrow> Id" where
  "cell_id c = header_id (header c)"

section \<open>The store behind a data site\<close>

text \<open>The operations of \<^verbatim>\<open>Chunks\<close> that a data site calls.\<close>

record ('st, 'p) StoreOps =
  so_read :: "'st \<Rightarrow> Id \<Rightarrow> (ReadError + 'p OwnedCell) option"
  so_read_selected :: "'st \<Rightarrow> Id \<Rightarrow> u64 list \<Rightarrow> (ReadError + 'p Value) option"
  so_read_partial_raw :: "'st \<Rightarrow> Id \<Rightarrow> nat \<Rightarrow> nat \<Rightarrow> (ReadError + bytes) option"
  so_head :: "'st \<Rightarrow> Id \<Rightarrow> (ReadError + CellHeader) option"
  so_write :: "'p OwnedCell \<Rightarrow> 'st \<Rightarrow> ((('p WriteError + CellHeader) \<times> 'p OwnedCell) \<times> 'st) option"
  so_update_by :: "Id \<Rightarrow> ('p OwnedCell \<Rightarrow> 'p OwnedCell option) \<Rightarrow> 'st \<Rightarrow> (('p WriteError + 'p OwnedCell) \<times> 'st) option"
  so_remove_by :: "Id \<Rightarrow> ('p OwnedCell \<Rightarrow> bool) \<Rightarrow> 'st \<Rightarrow> (('p WriteError + unit) \<times> 'st) option"

text \<open>What the transaction layer relies on: the store represents a finite map from keys to cells, a
  read returns what the map holds, and a write, conditional update or conditional removal changes
  only its key, or nothing when it fails. The new cell carries the next version. Several identifiers
  may share a key.\<close>

locale cell_store =
  fixes D :: "('st, 'p) StoreOps" and key :: "Id \<Rightarrow> 'k" and R :: "('k \<Rightarrow> 'p OwnedCell option) \<Rightarrow> 'st \<Rightarrow> bool"
    and fit :: "'p OwnedCell \<Rightarrow> bool"
  assumes stored_fit: "R S st \<Longrightarrow> S k = Some c \<Longrightarrow> fit c \<and> key (cell_id c) = k"
    and read_law: "R S st \<Longrightarrow> so_read D st i = Some rr \<Longrightarrow>
      (case S (key i) of Some c \<Rightarrow> rr = Inr c | None \<Rightarrow> \<exists>e. rr = Inl e)"
    and write_law: "R S st \<Longrightarrow> fit c \<Longrightarrow> so_write D c st = Some ((wr, c'), st') \<Longrightarrow> cell_id c' = cell_id c \<and>
      (case wr of Inl _ \<Rightarrow> R S st'
       | Inr chd \<Rightarrow> S (key (cell_id c)) = None \<and> chd = header (bump c) \<and> R (S(key (cell_id c) \<mapsto> bump c)) st')"
    and update_law: "R S st \<Longrightarrow> (\<forall>c n. upd c = Some n \<longrightarrow> fit n \<and> key (cell_id n) = key i) \<Longrightarrow>
      so_update_by D i upd st = Some (ur, st') \<Longrightarrow>
      (case ur of Inl _ \<Rightarrow> R S st'
       | Inr c' \<Rightarrow> \<exists>c n. S (key i) = Some c \<and> upd c = Some n \<and> c' = bump n \<and> R (S(key i \<mapsto> bump n)) st')"
    and remove_law: "R S st \<Longrightarrow> so_remove_by D i pr st = Some (r, st') \<Longrightarrow>
      (case r of Inl _ \<Rightarrow> R S st'
       | Inr _ \<Rightarrow> \<exists>c. S (key i) = Some c \<and> pr c \<and> R (S(key i := None)) st')"

end
