(* ===== verification/Neb_Txn_Site.thy ===== *)
theory Neb_Txn_Site
  imports Neb_Txn
begin

text \<open>
  The data site of the transaction protocol,
  \<^verbatim>\<open>src/src/server/transactions/data_site.rs\<close>: timestamp ordering of reads, the two
  phases of a commit, rollback, and the release of cells with the wake-up of waiting transactions.
  Each remote procedure runs under the lock of its transaction and of the cell metas it touches and
  is one function here; \<open>None\<close> is a panic, an operation of the store that does not return, or a
  second lock of a cell meta the call already holds. The operations of the store are the fields of
  \<open>StoreOps\<close>; the clock of the machine is the argument \<open>now\<close>.
\<close>

section \<open>State\<close>

record 'tid CellMeta =
  cm_read :: 'tid
  cm_write :: 'tid
  cm_owner :: "'tid option"
  cm_waiting :: "('tid \<times> u64) set"

record 'p CellHistory =
  ch_cell :: "'p OwnedCell option"
  ch_current_version :: u64

text \<open>\<^verbatim>\<open>BTreeMap<Id, CellHistory>\<close> as an association list; the order in which a rollback
  visits it is an argument there.\<close>

type_synonym 'p CommitHistory = "(Id \<times> 'p CellHistory) list"

record 'p SiteTxn =
  st_state :: TxnState
  st_affected_cells :: "Id list"
  st_last_activity :: int
  st_history :: "'p CommitHistory"

record ('tid, 'p, 'st) DataManager =
  dm_cells :: "Id \<Rightarrow> 'tid CellMeta option"
  dm_cell_lru :: "(Id \<times> int) list"
  dm_txns :: "'tid \<Rightarrow> 'p SiteTxn option"
  dm_txns_sorted :: "'tid set"
  dm_store :: 'st
  dm_clock :: 'tid
  dm_cleanup_signal :: bool

definition DataManager_new :: "'tid \<Rightarrow> 'st \<Rightarrow> ('tid, 'p, 'st) DataManager" where
  "DataManager_new clk st = \<lparr>dm_cells = Map.empty, dm_cell_lru = [], dm_txns = Map.empty,
     dm_txns_sorted = {}, dm_store = st, dm_clock = clk, dm_cleanup_signal = False\<rparr>"

section \<open>Helpers of the handlers\<close>

definition update_clock :: "'tid Clocks \<Rightarrow> 'tid \<Rightarrow> ('tid, 'p, 'st) DataManager \<Rightarrow> ('tid, 'p, 'st) DataManager" where
  "update_clock K clk dm = dm\<lparr>dm_clock := ck_merge K (dm_clock dm) clk\<rparr>"

definition respond :: "('tid, 'p, 'st) DataManager \<Rightarrow> 'a \<Rightarrow> ('a, 'tid) DataSiteResponse" where
  "respond dm x = \<lparr>payload = x, resp_clock = dm_clock dm\<rparr>"

definition get_transaction ::
  "int \<Rightarrow> 'tid \<Rightarrow> ('tid, 'p, 'st) DataManager \<Rightarrow> 'p SiteTxn \<times> ('tid, 'p, 'st) DataManager" where
  "get_transaction now tid dm =
     (case dm_txns dm tid of
        Some txn \<Rightarrow> (txn, dm)
      | None \<Rightarrow>
          (let txn = \<lparr>st_state = Started, st_affected_cells = [], st_last_activity = now, st_history = []\<rparr>
           in (txn, dm\<lparr>dm_txns := (dm_txns dm)(tid \<mapsto> txn),
                       dm_txns_sorted := insert tid (dm_txns_sorted dm)\<rparr>)))"

definition put_txn :: "'tid \<Rightarrow> 'p SiteTxn \<Rightarrow> ('tid, 'p, 'st) DataManager \<Rightarrow> ('tid, 'p, 'st) DataManager" where
  "put_txn tid txn dm = dm\<lparr>dm_txns := (dm_txns dm)(tid \<mapsto> txn)\<rparr>"

text \<open>The metas of a cell: the recency list moves the cell to its end, and a missing meta is
  created.\<close>

definition CellMeta_new :: "'tid Clocks \<Rightarrow> 'tid CellMeta" where
  "CellMeta_new K = \<lparr>cm_read = ck_new K, cm_write = ck_new K, cm_owner = None, cm_waiting = {}\<rparr>"

definition cell_meta_mutex ::
  "'tid Clocks \<Rightarrow> int \<Rightarrow> Id \<Rightarrow> ('tid, 'p, 'st) DataManager \<Rightarrow> 'tid CellMeta \<times> ('tid, 'p, 'st) DataManager" where
  "cell_meta_mutex K now cid dm =
     (let lru = filter (\<lambda>(i, _). i \<noteq> cid) (dm_cell_lru dm) @ [(cid, now)];
          meta = (case dm_cells dm cid of Some m \<Rightarrow> m | None \<Rightarrow> CellMeta_new K)
      in (meta, dm\<lparr>dm_cell_lru := lru, dm_cells := (dm_cells dm)(cid \<mapsto> meta)\<rparr>))"

definition put_meta :: "Id \<Rightarrow> 'tid CellMeta \<Rightarrow> ('tid, 'p, 'st) DataManager \<Rightarrow> ('tid, 'p, 'st) DataManager" where
  "put_meta cid meta dm = dm\<lparr>dm_cells := (dm_cells dm)(cid \<mapsto> meta)\<rparr>"

definition update_cell_write ::
  "'tid Clocks \<Rightarrow> int \<Rightarrow> Id \<Rightarrow> 'tid \<Rightarrow> ('tid, 'p, 'st) DataManager \<Rightarrow> ('tid, 'p, 'st) DataManager" where
  "update_cell_write K now cid tid dm =
     (let (meta, dm1) = cell_meta_mutex K now cid dm in put_meta cid (meta\<lparr>cm_write := tid\<rparr>) dm1)"

definition wipe_out_transaction :: "'tid \<Rightarrow> ('tid, 'p, 'st) DataManager \<Rightarrow> ('tid, 'p, 'st) DataManager" where
  "wipe_out_transaction tid dm =
     dm\<lparr>dm_txns := (dm_txns dm)(tid := None), dm_txns_sorted := dm_txns_sorted dm - {tid}\<rparr>"

text \<open>\<^verbatim>\<open>cell_meta_cleanup\<close>: from the oldest cell on, metas with stamps before every
  live transaction and idle for five minutes are evicted; the first one that is not ends the
  scan.\<close>

fun cells_to_evict ::
  "'tid Clocks \<Rightarrow> int \<Rightarrow> 'tid \<Rightarrow> (Id \<Rightarrow> 'tid CellMeta option) \<Rightarrow> (Id \<times> int) list \<Rightarrow> Id list" where
  "cells_to_evict K now oldest cells [] = []"
| "cells_to_evict K now oldest cells ((cid, t) # lru) =
     (case cells cid of
        Some meta \<Rightarrow>
          if ck_less K (cm_write meta) oldest \<and> ck_less K (cm_read meta) oldest \<and> now - t > 5 * 60 * 1000
          then cid # cells_to_evict K now oldest cells lru
          else []
      | None \<Rightarrow> cid # cells_to_evict K now oldest cells lru)"

definition cell_meta_cleanup ::
  "'tid Clocks \<Rightarrow> int \<Rightarrow> ('tid, 'p, 'st) DataManager \<Rightarrow> ('tid, 'p, 'st) DataManager" where
  "cell_meta_cleanup K now dm =
     (let oldest = (case ck_first K (dm_txns_sorted dm) of Some t \<Rightarrow> t | None \<Rightarrow> dm_clock dm);
          evict = set (cells_to_evict K now oldest (dm_cells dm) (dm_cell_lru dm))
      in dm\<lparr>dm_cells := (\<lambda>i. if i \<in> evict then None else dm_cells dm i),
            dm_cell_lru := filter (\<lambda>(i, _). i \<notin> evict) (dm_cell_lru dm)\<rparr>)"

text \<open>One turn of the task that \<^verbatim>\<open>DataManager::new\<close> spawns.\<close>

definition cleanup_turn :: "'tid Clocks \<Rightarrow> int \<Rightarrow> ('tid, 'p, 'st) DataManager \<Rightarrow> ('tid, 'p, 'st) DataManager" where
  "cleanup_turn K now dm =
     (if dm_cleanup_signal dm then (cell_meta_cleanup K now dm)\<lparr>dm_cleanup_signal := False\<rparr> else dm)"

section \<open>Reads\<close>

text \<open>\<^verbatim>\<open>prepare_read\<close>: \<open>Inl\<close> is the response that ends the call. The locks are
  released when it returns; the store is read afterwards.\<close>

definition prepare_read ::
  "'tid Clocks \<Rightarrow> int \<Rightarrow> u64 \<Rightarrow> 'tid \<Rightarrow> 'tid \<Rightarrow> Id \<Rightarrow> ('tid, 'p, 'st) DataManager
     \<Rightarrow> (('a, ReadError) TxnExecResult + unit) \<times> ('tid, 'p, 'st) DataManager" where
  "prepare_read K now server_id clk tid cid dm =
     (let dm0 = update_clock K clk dm;
          (txn, dm1) = get_transaction now tid dm0;
          (meta, dm2) = cell_meta_mutex K now cid dm1;
          committing = (cm_owner meta \<noteq> None);
          read_too_late = ck_less K tid (cm_write meta);
          dm3 = put_txn tid (txn\<lparr>st_last_activity := now\<rparr>) dm2
      in if st_state txn \<noteq> Started then (Inl (TER_StateError (st_state txn)), dm3)
         else if read_too_late then (Inl TER_Rejected, dm3)
         else if committing
         then (Inl TER_Wait, put_meta cid (meta\<lparr>cm_waiting := insert (tid, server_id) (cm_waiting meta)\<rparr>) dm3)
         else (Inr (), if ck_less K (cm_read meta) tid then put_meta cid (meta\<lparr>cm_read := tid\<rparr>) dm3 else dm3))"

definition exec_result :: "'e + 'a \<Rightarrow> ('a, 'e) TxnExecResult" where
  "exec_result r = (case r of Inr x \<Rightarrow> TER_Accepted x | Inl e \<Rightarrow> TER_Error e)"

definition guarded_read ::
  "(('a, ReadError) TxnExecResult + unit) \<times> ('tid, 'p, 'st) DataManager \<Rightarrow> ('st \<Rightarrow> (ReadError + 'a) option)
     \<Rightarrow> ((('a, ReadError) TxnExecResult, 'tid) DataSiteResponse \<times> ('tid, 'p, 'st) DataManager) option" where
  "guarded_read p rd =
     (case p of
        (Inl r, dm) \<Rightarrow> Some (respond dm r, dm)
      | (Inr _, dm) \<Rightarrow> map_option (\<lambda>r. (respond dm (exec_result r), dm)) (rd (dm_store dm)))"

definition site_read ::
  "'tid Clocks \<Rightarrow> ('st, 'p) StoreOps \<Rightarrow> int \<Rightarrow> u64 \<Rightarrow> 'tid \<Rightarrow> 'tid \<Rightarrow> Id \<Rightarrow> ('tid, 'p, 'st) DataManager
     \<Rightarrow> ((('p OwnedCell, ReadError) TxnExecResult, 'tid) DataSiteResponse \<times> ('tid, 'p, 'st) DataManager) option" where
  "site_read K D now server_id clk tid cid dm =
     guarded_read (prepare_read K now server_id clk tid cid dm) (\<lambda>st. so_read D st cid)"

definition site_read_selected ::
  "'tid Clocks \<Rightarrow> ('st, 'p) StoreOps \<Rightarrow> int \<Rightarrow> u64 \<Rightarrow> 'tid \<Rightarrow> 'tid \<Rightarrow> Id \<Rightarrow> u64 list \<Rightarrow> ('tid, 'p, 'st) DataManager
     \<Rightarrow> ((('p Value, ReadError) TxnExecResult, 'tid) DataSiteResponse \<times> ('tid, 'p, 'st) DataManager) option" where
  "site_read_selected K D now server_id clk tid cid ks dm =
     guarded_read (prepare_read K now server_id clk tid cid dm) (\<lambda>st. so_read_selected D st cid ks)"

definition site_head ::
  "'tid Clocks \<Rightarrow> ('st, 'p) StoreOps \<Rightarrow> int \<Rightarrow> u64 \<Rightarrow> 'tid \<Rightarrow> 'tid \<Rightarrow> Id \<Rightarrow> ('tid, 'p, 'st) DataManager
     \<Rightarrow> (((CellHeader, ReadError) TxnExecResult, 'tid) DataSiteResponse \<times> ('tid, 'p, 'st) DataManager) option" where
  "site_head K D now server_id clk tid cid dm =
     guarded_read (prepare_read K now server_id clk tid cid dm) (\<lambda>st. so_head D st cid)"

definition site_read_partial_raw ::
  "'tid Clocks \<Rightarrow> ('st, 'p) StoreOps \<Rightarrow> int \<Rightarrow> u64 \<Rightarrow> 'tid \<Rightarrow> 'tid \<Rightarrow> Id \<Rightarrow> nat \<Rightarrow> nat \<Rightarrow> ('tid, 'p, 'st) DataManager
     \<Rightarrow> (((bytes, ReadError) TxnExecResult, 'tid) DataSiteResponse \<times> ('tid, 'p, 'st) DataManager) option" where
  "site_read_partial_raw K D now server_id clk tid cid off len dm =
     guarded_read (prepare_read K now server_id clk tid cid dm) (\<lambda>st. so_read_partial_raw D st cid off len)"

section \<open>Prepare\<close>

fun touch_metas ::
  "'tid Clocks \<Rightarrow> int \<Rightarrow> Id list \<Rightarrow> ('tid, 'p, 'st) DataManager \<Rightarrow> ('tid, 'p, 'st) DataManager" where
  "touch_metas K now [] dm = dm"
| "touch_metas K now (cid # cids) dm = touch_metas K now cids (snd (cell_meta_mutex K now cid dm))"

text \<open>The guards that the loop of \<^verbatim>\<open>prepare\<close> collects before it breaks; locking a cell
  whose guard is held already never returns.\<close>

fun cell_guards ::
  "'tid Clocks \<Rightarrow> 'tid \<Rightarrow> (Id \<Rightarrow> 'tid CellMeta option) \<Rightarrow> Id list \<Rightarrow> Id list \<Rightarrow> Id list option" where
  "cell_guards K tid cells held [] = Some held"
| "cell_guards K tid cells held (cid # cids) =
     (if cid \<in> set held then None
      else case cells cid of
             None \<Rightarrow> None
           | Some meta \<Rightarrow>
               if ck_less K tid (cm_read meta) then Some held
               else if ck_less K tid (cm_write meta) then Some held
               else cell_guards K tid cells (held @ [cid]) cids)"

definition own_cells :: "'tid \<Rightarrow> Id list \<Rightarrow> ('tid, 'p, 'st) DataManager \<Rightarrow> ('tid, 'p, 'st) DataManager" where
  "own_cells tid cids dm =
     dm\<lparr>dm_cells := (\<lambda>i. if i \<in> set cids then map_option (\<lambda>m. m\<lparr>cm_owner := Some tid\<rparr>) (dm_cells dm i)
                        else dm_cells dm i)\<rparr>"

definition site_prepare ::
  "'tid Clocks \<Rightarrow> int \<Rightarrow> 'tid \<Rightarrow> 'tid \<Rightarrow> Id list \<Rightarrow> ('tid, 'p, 'st) DataManager
     \<Rightarrow> ((DMPrepareResult, 'tid) DataSiteResponse \<times> ('tid, 'p, 'st) DataManager) option" where
  "site_prepare K now clk tid cell_ids dm =
     (let dm0 = update_clock K clk dm;
          (txn, dm1) = get_transaction now tid dm0
      in if st_state txn \<noteq> Started \<and> st_state txn \<noteq> Prepared
         then Some (respond dm1 (DMP_StateError (st_state txn)), dm1)
         else let dm2 = touch_metas K now cell_ids dm1
              in case cell_guards K tid (dm_cells dm2) [] cell_ids of
                   None \<Rightarrow> None
                 | Some guards \<Rightarrow>
                     if length guards \<noteq> length cell_ids
                     then Some (respond dm2 DMP_NotRealizable, dm2)
                     else let dm3 = put_txn tid (txn\<lparr>st_state := Prepared, st_affected_cells := cell_ids,
                                                     st_last_activity := now\<rparr>) (own_cells tid guards dm2)
                          in Some (respond dm3 DMP_Success, dm3))"

section \<open>Commit\<close>

text \<open>One operation of the commit: the error that stops the loop, the history, the site.\<close>

definition commit_write ::
  "'tid Clocks \<Rightarrow> ('st, 'p) StoreOps \<Rightarrow> int \<Rightarrow> 'tid \<Rightarrow> 'p OwnedCell \<Rightarrow> 'p CommitHistory \<Rightarrow> ('tid, 'p, 'st) DataManager
     \<Rightarrow> ((Id \<times> 'p WriteError) option \<times> 'p CommitHistory \<times> ('tid, 'p, 'st) DataManager) option" where
  "commit_write K D now tid cell hist dm =
     (case so_write D cell (dm_store dm) of
        None \<Rightarrow> None
      | Some ((Inr chd, cell'), st) \<Rightarrow>
          Some (None, AList.update (cell_id cell') \<lparr>ch_cell = None, ch_current_version = version chd\<rparr> hist,
                update_cell_write K now (cell_id cell') tid (dm\<lparr>dm_store := st\<rparr>))
      | Some ((Inl e, cell'), st) \<Rightarrow> Some (Some (cell_id cell', e), hist, dm\<lparr>dm_store := st\<rparr>))"

definition commit_remove ::
  "'tid Clocks \<Rightarrow> ('st, 'p) StoreOps \<Rightarrow> int \<Rightarrow> 'tid \<Rightarrow> Id \<Rightarrow> 'p CommitHistory \<Rightarrow> ('tid, 'p, 'st) DataManager
     \<Rightarrow> ((Id \<times> 'p WriteError) option \<times> 'p CommitHistory \<times> ('tid, 'p, 'st) DataManager) option" where
  "commit_remove K D now tid cid hist dm =
     (case so_read D (dm_store dm) cid of
        None \<Rightarrow> None
      | Some (Inl re) \<Rightarrow> Some (Some (cid, WE_ReadError re), hist, dm)
      | Some (Inr original_cell) \<Rightarrow>
          (case so_remove_by D cid (\<lambda>c. version (header c) = version (header original_cell)) (dm_store dm) of
             None \<Rightarrow> None
           | Some (Inr _, st) \<Rightarrow>
               Some (None, AList.update cid \<lparr>ch_cell = Some original_cell, ch_current_version = 0\<rparr> hist,
                     update_cell_write K now cid tid (dm\<lparr>dm_store := st\<rparr>))
           | Some (Inl e, st) \<Rightarrow> Some (Some (cid, e), hist, dm\<lparr>dm_store := st\<rparr>)))"

definition commit_update ::
  "'tid Clocks \<Rightarrow> ('st, 'p) StoreOps \<Rightarrow> int \<Rightarrow> 'tid \<Rightarrow> 'p OwnedCell \<Rightarrow> 'p CommitHistory \<Rightarrow> ('tid, 'p, 'st) DataManager
     \<Rightarrow> ((Id \<times> 'p WriteError) option \<times> 'p CommitHistory \<times> ('tid, 'p, 'st) DataManager) option" where
  "commit_update K D now tid cell hist dm =
     (let cid = cell_id cell
      in case so_read D (dm_store dm) cid of
           None \<Rightarrow> None
         | Some (Inl re) \<Rightarrow> Some (Some (cid, WE_ReadError re), hist, dm)
         | Some (Inr original_cell) \<Rightarrow>
             (case so_update_by D cid (\<lambda>c. if version (header c) = version (header original_cell)
                                            then Some cell else None) (dm_store dm) of
                None \<Rightarrow> None
              | Some (Inr cell', st) \<Rightarrow>
                  Some (None, AList.update cid \<lparr>ch_cell = Some original_cell,
                                                ch_current_version = version (header cell')\<rparr> hist,
                        update_cell_write K now cid tid (dm\<lparr>dm_store := st\<rparr>))
              | Some (Inl e, st) \<Rightarrow> Some (Some (cid, e), hist, dm\<lparr>dm_store := st\<rparr>)))"

fun commit_op ::
  "'tid Clocks \<Rightarrow> ('st, 'p) StoreOps \<Rightarrow> int \<Rightarrow> 'tid \<Rightarrow> 'p CommitOp \<Rightarrow> 'p CommitHistory \<Rightarrow> ('tid, 'p, 'st) DataManager
     \<Rightarrow> ((Id \<times> 'p WriteError) option \<times> 'p CommitHistory \<times> ('tid, 'p, 'st) DataManager) option" where
  "commit_op K D now tid (CO_Read _ _) hist dm = Some (None, hist, dm)"
| "commit_op K D now tid (CO_Write cell) hist dm = commit_write K D now tid cell hist dm"
| "commit_op K D now tid (CO_Remove cid) hist dm = commit_remove K D now tid cid hist dm"
| "commit_op K D now tid (CO_Update cell) hist dm = commit_update K D now tid cell hist dm"
| "commit_op K D now tid CO_None hist dm = None"

fun commit_ops ::
  "'tid Clocks \<Rightarrow> ('st, 'p) StoreOps \<Rightarrow> int \<Rightarrow> 'tid \<Rightarrow> 'p CommitOp list \<Rightarrow> 'p CommitHistory \<Rightarrow> ('tid, 'p, 'st) DataManager
     \<Rightarrow> ((Id \<times> 'p WriteError) option \<times> 'p CommitHistory \<times> ('tid, 'p, 'st) DataManager) option" where
  "commit_ops K D now tid [] hist dm = Some (None, hist, dm)"
| "commit_ops K D now tid (op # ops) hist dm =
     (case commit_op K D now tid op hist dm of
        None \<Rightarrow> None
      | Some (Some e, hist', dm') \<Rightarrow> Some (Some e, hist', dm')
      | Some (None, hist', dm') \<Rightarrow> commit_ops K D now tid ops hist' dm')"

definition commit_error :: "Id \<times> 'p WriteError \<Rightarrow> 'p DMCommitResult" where
  "commit_error e = (case e of (cid, we) \<Rightarrow>
     if we = WE_DeletionPredictionFailed \<or> we = WE_UserCanceledUpdate then DMC_CellChanged cid
     else DMC_WriteError cid we)"

definition state_check :: "TxnState \<Rightarrow> CheckError option" where
  "state_check s = (case s of Started \<Rightarrow> Some CE_NotCommitted | Aborted \<Rightarrow> Some CE_AlreadyAborted
     | Committed \<Rightarrow> Some CE_AlreadyCommitted | Prepared \<Rightarrow> None)"

definition site_commit ::
  "'tid Clocks \<Rightarrow> ('st, 'p) StoreOps \<Rightarrow> int \<Rightarrow> 'tid \<Rightarrow> 'tid \<Rightarrow> 'p CommitOp list \<Rightarrow> ('tid, 'p, 'st) DataManager
     \<Rightarrow> (('p DMCommitResult, 'tid) DataSiteResponse \<times> ('tid, 'p, 'st) DataManager) option" where
  "site_commit K D now clk tid cells dm =
     (let dm0 = update_clock K clk dm;
          (txn0, dm1) = get_transaction now tid dm0;
          txn = txn0\<lparr>st_last_activity := now\<rparr>;
          dm2 = put_txn tid txn dm1
      in case state_check (st_state txn) of
           Some ce \<Rightarrow> Some (respond dm2 (DMC_CheckFailed ce), dm2)
         | None \<Rightarrow>
             if length (st_affected_cells txn) \<noteq> length cells
             then Some (respond dm2 (DMC_CheckFailed
                    (CE_CellNumberDoesNotMatch (length (st_affected_cells txn)) (length cells))), dm2)
             else case commit_ops K D now tid cells (st_history txn) dm2 of
                    None \<Rightarrow> None
                  | Some (Some e, hist, dm3) \<Rightarrow>
                      (let dm4 = put_txn tid (txn\<lparr>st_history := hist\<rparr>) dm3
                       in Some (respond dm4 (commit_error e), dm4))
                  | Some (None, hist, dm3) \<Rightarrow>
                      (let dm4 = put_txn tid (txn\<lparr>st_history := hist, st_state := Committed\<rparr>) dm3
                       in Some (respond dm4 DMC_Success, dm4)))"

section \<open>Abort\<close>

definition rollback_cell ::
  "('st, 'p) StoreOps \<Rightarrow> Id \<Rightarrow> 'p CellHistory \<Rightarrow> 'st \<Rightarrow> ('p WriteError option \<times> 'st) option" where
  "rollback_cell D cid h st =
     (case ch_cell h of
        None \<Rightarrow>
          map_option (\<lambda>(r, st'). (case r of Inl e \<Rightarrow> Some e | Inr _ \<Rightarrow> None, st'))
            (so_remove_by D cid (\<lambda>c. version (header c) = ch_current_version h) st)
      | Some cell \<Rightarrow>
          if ch_current_version h > 0
          then map_option (\<lambda>(r, st'). (case r of Inl e \<Rightarrow> Some e | Inr _ \<Rightarrow> None, st'))
                 (so_update_by D cid (\<lambda>c. if version (header c) = ch_current_version h then Some cell else None) st)
          else map_option (\<lambda>((r, _), st'). (case r of Inl e \<Rightarrow> Some e | Inr _ \<Rightarrow> None, st'))
                 (so_write D cell st))"

fun rollback ::
  "('st, 'p) StoreOps \<Rightarrow> 'p CommitHistory \<Rightarrow> 'st \<Rightarrow> ('p RollbackFailure list \<times> 'st) option" where
  "rollback D [] st = Some ([], st)"
| "rollback D ((cid, h) # hist) st =
     (case rollback_cell D cid h st of
        None \<Rightarrow> None
      | Some (err, st1) \<Rightarrow>
          map_option (\<lambda>(fs, st2).
              ((case err of Some e \<Rightarrow> [\<lparr>rf_id = cid, rf_error = e\<rparr>] | None \<Rightarrow> []) @ fs, st2))
            (rollback D hist st1))"

text \<open>The history is visited in the order of its keys, which \<open>order\<close> gives.\<close>

definition site_abort ::
  "'tid Clocks \<Rightarrow> ('st, 'p) StoreOps \<Rightarrow> ('p CommitHistory \<Rightarrow> 'p CommitHistory) \<Rightarrow> int \<Rightarrow> 'tid \<Rightarrow> 'tid
     \<Rightarrow> ('tid, 'p, 'st) DataManager \<Rightarrow> (('p AbortResult, 'tid) DataSiteResponse \<times> ('tid, 'p, 'st) DataManager) option" where
  "site_abort K D order now clk tid dm =
     (let dm0 = update_clock K clk dm;
          (txn, dm1) = get_transaction now tid dm0
      in if st_state txn = Aborted then Some (respond dm1 (AR_CheckFailed CE_AlreadyAborted), dm1)
         else case rollback D (order (st_history txn)) (dm_store dm1) of
                None \<Rightarrow> None
              | Some (failures, st) \<Rightarrow>
                  (let dm2 = put_txn tid (txn\<lparr>st_last_activity := now, st_state := Aborted\<rparr>) (dm1\<lparr>dm_store := st\<rparr>)
                   in Some (respond dm2 (AR_Success (if failures = [] then None else Some failures)), dm2)))"

section \<open>End\<close>

text \<open>The transactions that wait for the cells the ending transaction owns, by server; and the
  release of those cells.\<close>

definition owned_cells :: "'tid \<Rightarrow> Id list \<Rightarrow> (Id \<Rightarrow> 'tid CellMeta option) \<Rightarrow> Id list" where
  "owned_cells tid cids cells =
     filter (\<lambda>i. case cells i of Some m \<Rightarrow> cm_owner m = Some tid | None \<Rightarrow> False) cids"

definition waiting_list :: "(Id \<Rightarrow> 'tid CellMeta option) \<Rightarrow> Id list \<Rightarrow> (u64 \<times> 'tid) set" where
  "waiting_list cells cids =
     (\<Union>i \<in> set cids. case cells i of Some m \<Rightarrow> (\<lambda>(t, s). (s, t)) ` cm_waiting m | None \<Rightarrow> {})"

definition release_cells :: "Id list \<Rightarrow> ('tid, 'p, 'st) DataManager \<Rightarrow> ('tid, 'p, 'st) DataManager" where
  "release_cells cids dm =
     dm\<lparr>dm_cells := (\<lambda>i. if i \<in> set cids then map_option (\<lambda>m. m\<lparr>cm_owner := None, cm_waiting := {}\<rparr>) (dm_cells dm i)
                        else dm_cells dm i)\<rparr>"

text \<open>\<^verbatim>\<open>end\<close>: the response, the wake-ups sent to the transaction managers and the
  site.\<close>

definition site_end ::
  "'tid Clocks \<Rightarrow> int \<Rightarrow> 'tid \<Rightarrow> 'tid \<Rightarrow> ('tid, 'p, 'st) DataManager
     \<Rightarrow> ((EndResult, 'tid) DataSiteResponse \<times> (u64 \<times> 'tid) set \<times> ('tid, 'p, 'st) DataManager) option" where
  "site_end K now clk tid dm =
     (let dm0 = update_clock K clk dm;
          (txn, dm1) = get_transaction now tid dm0
      in if \<not> (st_state txn = Aborted \<or> st_state txn = Committed)
         then Some (respond dm1 (ER_CheckFailed CE_CannotEnd), {}, dm1)
         else let cell_mutices = filter (\<lambda>i. dm_cells dm1 i \<noteq> None) (st_affected_cells txn)
              in if \<not> distinct cell_mutices then None
                 else let owned = owned_cells tid cell_mutices (dm_cells dm1);
                          wake = waiting_list (dm_cells dm1) owned;
                          dm2 = (wipe_out_transaction tid (release_cells owned dm1))\<lparr>dm_cleanup_signal := True\<rparr>
                      in Some (respond dm2 (if length owned = length (st_affected_cells txn)
                                            then ER_Success else ER_SomeLocksNotReleased), wake, dm2))"

section \<open>Requests and their interleaving\<close>

datatype 'p site_req =
    SR_Read u64 Id
  | SR_ReadSelected u64 Id "u64 list"
  | SR_Head u64 Id
  | SR_ReadPartialRaw u64 Id nat nat
  | SR_Prepare "Id list"
  | SR_Commit "'p CommitOp list"
  | SR_Abort
  | SR_End

fun site_exec ::
  "'tid Clocks \<Rightarrow> ('st, 'p) StoreOps \<Rightarrow> ('p CommitHistory \<Rightarrow> 'p CommitHistory) \<Rightarrow> int \<Rightarrow> 'tid \<Rightarrow> 'tid \<Rightarrow> 'p site_req
     \<Rightarrow> ('tid, 'p, 'st) DataManager \<Rightarrow> ('tid, 'p, 'st) DataManager option" where
  "site_exec K D ord now clk tid (SR_Read sid cid) dm = map_option snd (site_read K D now sid clk tid cid dm)"
| "site_exec K D ord now clk tid (SR_ReadSelected sid cid ks) dm =
     map_option snd (site_read_selected K D now sid clk tid cid ks dm)"
| "site_exec K D ord now clk tid (SR_Head sid cid) dm = map_option snd (site_head K D now sid clk tid cid dm)"
| "site_exec K D ord now clk tid (SR_ReadPartialRaw sid cid off len) dm =
     map_option snd (site_read_partial_raw K D now sid clk tid cid off len dm)"
| "site_exec K D ord now clk tid (SR_Prepare cids) dm = map_option snd (site_prepare K now clk tid cids dm)"
| "site_exec K D ord now clk tid (SR_Commit ops) dm = map_option snd (site_commit K D now clk tid ops dm)"
| "site_exec K D ord now clk tid SR_Abort dm = map_option snd (site_abort K D ord now clk tid dm)"
| "site_exec K D ord now clk tid SR_End dm = map_option (snd \<circ> snd) (site_end K now clk tid dm)"

text \<open>Requests of any transactions in any order.\<close>

inductive site_step ::
  "'tid Clocks \<Rightarrow> ('st, 'p) StoreOps \<Rightarrow> ('p CommitHistory \<Rightarrow> 'p CommitHistory)
     \<Rightarrow> ('tid, 'p, 'st) DataManager \<Rightarrow> ('tid, 'p, 'st) DataManager \<Rightarrow> bool"
  for K D ord where
  request: "site_exec K D ord now clk tid req dm = Some dm' \<Longrightarrow> site_step K D ord dm dm'"

inductive_cases site_stepE: "site_step K D ord dm dm'"

section \<open>Lemmas: what the handlers leave alone\<close>

lemma clocks_okD:
  assumes "clocks_ok K"
  shows "\<not> ck_less K a a" "ck_less K a b \<Longrightarrow> ck_less K b c \<Longrightarrow> ck_less K a c" "\<not> ck_less K a (ck_new K)"
    "\<not> ck_less K a b \<Longrightarrow> a = b \<or> ck_less K b a"
  using assms unfolding clocks_ok_def by blast+

lemma dm_cells_simps [simp]:
  "dm_cells (update_clock K clk dm) = dm_cells dm" "dm_cells (snd (get_transaction now tid dm)) = dm_cells dm"
  "dm_cells (put_txn tid txn dm) = dm_cells dm"
  "dm_cells (wipe_out_transaction tid dm) = dm_cells dm"
  by (simp_all add: update_clock_def get_transaction_def put_txn_def wipe_out_transaction_def Let_def split: option.split)

lemma dm_txns_simps [simp]:
  "dm_txns (update_clock K clk dm) = dm_txns dm" "dm_txns (snd (cell_meta_mutex K now cid dm)) = dm_txns dm"
  "dm_txns (put_meta cid m dm) = dm_txns dm" "dm_txns (own_cells tid cids dm) = dm_txns dm"
  "dm_txns (release_cells cids dm) = dm_txns dm" "dm_txns (put_txn tid txn dm) = (dm_txns dm)(tid \<mapsto> txn)"
  "dm_txns (update_cell_write K now cid tid dm) = dm_txns dm"
  by (simp_all add: update_clock_def cell_meta_mutex_def put_meta_def own_cells_def release_cells_def put_txn_def
      update_cell_write_def Let_def split: prod.split)

lemma dm_store_simps [simp]:
  "dm_store (update_clock K clk dm) = dm_store dm" "dm_store (snd (cell_meta_mutex K now cid dm)) = dm_store dm"
  "dm_store (snd (get_transaction now tid dm)) = dm_store dm" "dm_store (put_txn tid txn dm) = dm_store dm"
  "dm_store (put_meta cid m dm) = dm_store dm" "dm_store (update_cell_write K now cid tid dm) = dm_store dm"
  by (simp_all add: update_clock_def cell_meta_mutex_def put_meta_def put_txn_def get_transaction_def
      update_cell_write_def Let_def split: prod.split option.split)

lemma cell_meta_mutex_simps [simp]:
  "fst (cell_meta_mutex K now cid dm) = (case dm_cells dm cid of Some m \<Rightarrow> m | None \<Rightarrow> CellMeta_new K)"
  "dm_cells (snd (cell_meta_mutex K now cid dm)) =
     (dm_cells dm)(cid \<mapsto> (case dm_cells dm cid of Some m \<Rightarrow> m | None \<Rightarrow> CellMeta_new K))"
  by (simp_all add: cell_meta_mutex_def Let_def)

lemma get_transaction_fst:
  "fst (get_transaction now tid dm) = (case dm_txns dm tid of Some t \<Rightarrow> t | None \<Rightarrow>
     \<lparr>st_state = Started, st_affected_cells = [], st_last_activity = now, st_history = []\<rparr>)"
  "dm_txns (snd (get_transaction now tid dm)) = (dm_txns dm)(tid \<mapsto> fst (get_transaction now tid dm))"
  by (auto simp: get_transaction_def Let_def split: option.split)

section \<open>Lemmas: read stamps only grow\<close>

definition stamps_grow :: "'tid Clocks \<Rightarrow> ('tid, 'p, 'st) DataManager \<Rightarrow> ('tid, 'p, 'st) DataManager \<Rightarrow> bool" where
  "stamps_grow K dm dm' = (\<forall>i m. dm_cells dm i = Some m \<longrightarrow>
     (\<exists>m'. dm_cells dm' i = Some m' \<and> (cm_read m' = cm_read m \<or> ck_less K (cm_read m) (cm_read m'))))"

lemma stamps_grow_refl: "dm_cells dm' = dm_cells dm \<Longrightarrow> stamps_grow K dm dm'"
  by (simp add: stamps_grow_def)

lemma stamps_grow_trans:
  assumes "clocks_ok K" and "stamps_grow K a b" and "stamps_grow K b c" shows "stamps_grow K a c"
  unfolding stamps_grow_def
proof (intro allI impI)
  fix i m assume "dm_cells a i = Some m"
  then obtain m1 where m1: "dm_cells b i = Some m1" "cm_read m1 = cm_read m \<or> ck_less K (cm_read m) (cm_read m1)"
    using assms(2) by (auto simp: stamps_grow_def)
  then obtain m2 where "dm_cells c i = Some m2" "cm_read m2 = cm_read m1 \<or> ck_less K (cm_read m1) (cm_read m2)"
    using assms(3) by (auto simp: stamps_grow_def)
  then show "\<exists>m'. dm_cells c i = Some m' \<and> (cm_read m' = cm_read m \<or> ck_less K (cm_read m) (cm_read m'))"
    using m1 clocks_okD(2) [OF assms(1)] by metis
qed

lemma stamps_grow_put:
  assumes "stamps_grow K dm dm1" "dm_cells dm1 cid = Some m \<Longrightarrow> cm_read m' = cm_read m \<or> ck_less K (cm_read m) (cm_read m')"
    and "dm_cells dm' = (dm_cells dm1)(cid \<mapsto> m')" and "clocks_ok K" and "dm_cells dm1 cid = Some m"
  shows "stamps_grow K dm dm'"
  by (rule stamps_grow_trans [OF assms(4,1)]) (use assms(2,3,5) in \<open>auto simp: stamps_grow_def\<close>)

lemma touch_grow: "stamps_grow K dm (snd (cell_meta_mutex K now cid dm))"
  by (auto simp: stamps_grow_def)

lemma touch_metas_grow: "clocks_ok K \<Longrightarrow> stamps_grow K dm (touch_metas K now cids dm)"
  by (induction cids arbitrary: dm) (auto intro: stamps_grow_refl stamps_grow_trans touch_grow)

lemma update_cell_write_cells:
  "dm_cells (update_cell_write K now cid tid dm) =
     (dm_cells dm)(cid \<mapsto> (case dm_cells dm cid of Some m \<Rightarrow> m | None \<Rightarrow> CellMeta_new K)\<lparr>cm_write := tid\<rparr>)"
  by (simp add: update_cell_write_def put_meta_def cell_meta_mutex_def Let_def)

lemma update_cell_write_grow: "stamps_grow K dm (update_cell_write K now cid tid dm)"
  by (auto simp: stamps_grow_def update_cell_write_cells)

lemma commit_op_grow:
  assumes "commit_op K D now tid op hist dm = Some (e, hist', dm')" shows "stamps_grow K dm dm'"
  using assms update_cell_write_grow [of K "dm\<lparr>dm_store := st\<rparr>" now cid tid for st cid]
  by (cases op)
     (auto simp: commit_write_def commit_remove_def commit_update_def Let_def stamps_grow_def
       split: option.splits sum.splits prod.splits)

lemma commit_ops_grow:
  assumes "clocks_ok K" and "commit_ops K D now tid ops hist dm = Some (e, hist', dm')" shows "stamps_grow K dm dm'"
  using assms(2)
proof (induction ops arbitrary: hist dm)
  case (Cons op ops)
  then obtain e1 h1 dm1 where 1: "commit_op K D now tid op hist dm = Some (e1, h1, dm1)"
    by (auto split: option.splits)
  show ?case
  proof (cases e1)
    case None
    then have "stamps_grow K dm1 dm'" using Cons 1 by auto
    then show ?thesis by (rule stamps_grow_trans [OF assms(1) commit_op_grow [OF 1]])
  next
    case (Some e2)
    then show ?thesis using Cons.prems 1 commit_op_grow [OF 1] by simp
  qed
qed (simp add: stamps_grow_refl)

lemma prepare_read_grow:
  assumes "clocks_ok K" shows "stamps_grow K dm (snd (prepare_read K now sid clk tid cid dm))"
  by (auto simp: prepare_read_def Let_def case_prod_beta stamps_grow_def put_meta_def split: option.splits)

lemma guarded_read_snd: "guarded_read p rd = Some (r, dm') \<Longrightarrow> dm' = snd p"
  by (auto simp: guarded_read_def split: prod.splits sum.splits)

lemma site_exec_grow:
  assumes K: "clocks_ok K" and x: "site_exec K D ord now clk tid req dm = Some dm'"
  shows "stamps_grow K dm dm'"
proof -
  have rd: "stamps_grow K dm (snd (prepare_read K now sid clk tid cid dm))" for sid cid
    by (rule prepare_read_grow [OF K])
  show ?thesis
  proof (cases req)
    case (SR_Prepare cids)
    let ?dm2 = "touch_metas K now cids (snd (get_transaction now tid (update_clock K clk dm)))"
    have "stamps_grow K dm ?dm2"
      by (rule stamps_grow_trans [OF K _ touch_metas_grow [OF K]]) (simp add: stamps_grow_def)
    moreover have "stamps_grow K ?dm2 (own_cells tid g ?dm2)" for g by (auto simp: stamps_grow_def own_cells_def)
    ultimately have "stamps_grow K dm ?dm2" "stamps_grow K dm (own_cells tid g ?dm2)" for g
      using stamps_grow_trans [OF K] by blast+
    moreover have "dm_cells dm' = dm_cells dm \<or> dm_cells dm' = dm_cells ?dm2 \<or>
        (\<exists>g. dm_cells dm' = dm_cells (own_cells tid g ?dm2))"
      using x SR_Prepare by (auto simp: site_prepare_def Let_def case_prod_beta split: option.splits if_splits)
    ultimately show ?thesis by (auto simp: stamps_grow_def)
  next
    case (SR_Commit ops)
    show ?thesis
      using x SR_Commit commit_ops_grow [OF K, of D now tid ops _ "put_txn tid _ (snd (get_transaction now tid (update_clock K clk dm)))"]
      by (auto simp: site_commit_def Let_def case_prod_beta stamps_grow_def split: option.splits if_splits)
  next
    case SR_End
    then show ?thesis using x
      by (auto simp: site_end_def Let_def case_prod_beta stamps_grow_def release_cells_def wipe_out_transaction_def
          split: if_splits)
  next
    case SR_Abort
    then show ?thesis using x
      by (auto simp: site_abort_def Let_def case_prod_beta stamps_grow_def split: option.splits if_splits)
  qed (use x rd in \<open>auto simp: site_read_def site_read_selected_def site_head_def site_read_partial_raw_def dest!: guarded_read_snd\<close>)
qed

lemma site_steps_grow:
  assumes "(site_step K D ord)\<^sup>*\<^sup>* dm dm'" and "clocks_ok K" shows "stamps_grow K dm dm'"
  using assms
  by (induction rule: rtranclp_induct)
     (auto intro: stamps_grow_refl stamps_grow_trans elim!: site_stepE dest: site_exec_grow)

section \<open>Lemmas: prepare\<close>

definition meta_of :: "'tid Clocks \<Rightarrow> ('tid, 'p, 'st) DataManager \<Rightarrow> Id \<Rightarrow> 'tid CellMeta" where
  "meta_of K dm i = (case dm_cells dm i of Some m \<Rightarrow> m | None \<Rightarrow> CellMeta_new K)"

definition realizable :: "'tid Clocks \<Rightarrow> 'tid \<Rightarrow> 'tid CellMeta \<Rightarrow> bool" where
  "realizable K tid m = (\<not> ck_less K tid (cm_read m) \<and> \<not> ck_less K tid (cm_write m))"

lemma touch_metas_cells:
  "dm_cells (touch_metas K now cids dm) i = (if i \<in> set cids then Some (meta_of K dm i) else dm_cells dm i)"
  by (induction cids arbitrary: dm) (auto simp: meta_of_def)

lemma touch_metas_simps [simp]:
  "dm_txns (touch_metas K now cids dm) = dm_txns dm" "dm_store (touch_metas K now cids dm) = dm_store dm"
  by (induction cids arbitrary: dm) simp_all

lemma cell_guards_distinct:
  assumes "distinct (held @ cids)" and "\<forall>i \<in> set cids. cells i = Some (f i)"
  shows "\<exists>g. cell_guards K tid cells held cids = Some g \<and> length g \<le> length held + length cids \<and>
    (length g = length held + length cids \<longleftrightarrow> (\<forall>i \<in> set cids. realizable K tid (f i))) \<and>
    ((\<forall>i \<in> set cids. realizable K tid (f i)) \<longrightarrow> g = held @ cids)"
  using assms
proof (induction cids arbitrary: held)
  case (Cons i cids)
  show ?case
  proof (cases "realizable K tid (f i)")
    case True
    have d: "distinct ((held @ [i]) @ cids)" using Cons.prems(1) by auto
    have c: "\<forall>j \<in> set cids. cells j = Some (f j)" using Cons.prems(2) by simp
    from Cons.IH [OF d c] show ?thesis using True Cons.prems
      by (auto simp: realizable_def)
  next
    case False
    then show ?thesis using Cons.prems by (auto simp: realizable_def)
  qed
qed simp

text \<open>The state a new or known transaction is in.\<close>

definition txn_state :: "('tid, 'p, 'st) DataManager \<Rightarrow> 'tid \<Rightarrow> TxnState" where
  "txn_state dm tid = (case dm_txns dm tid of Some t \<Rightarrow> st_state t | None \<Rightarrow> Started)"

lemma get_transaction_state [simp]:
  "st_state (fst (get_transaction now tid (update_clock K clk dm))) = txn_state dm tid"
  by (simp add: get_transaction_fst txn_state_def split: option.split)

lemma prepare_outcome:
  assumes d: "distinct cids" and st: "txn_state dm tid \<in> {Started, Prepared}"
  shows "\<exists>r dm'. site_prepare K now clk tid cids dm = Some (r, dm') \<and>
    (if \<forall>i \<in> set cids. realizable K tid (meta_of K dm i)
     then payload r = DMP_Success \<and> txn_state dm' tid = Prepared \<and>
       (\<forall>i. dm_cells dm' i = (if i \<in> set cids then Some ((meta_of K dm i)\<lparr>cm_owner := Some tid\<rparr>) else dm_cells dm i)) \<and>
       (\<exists>t. dm_txns dm' tid = Some t \<and> st_affected_cells t = cids \<and>
          st_history t = (case dm_txns dm tid of Some u \<Rightarrow> st_history u | None \<Rightarrow> [])) \<and>
       (\<forall>u. u \<noteq> tid \<longrightarrow> dm_txns dm' u = dm_txns dm u) \<and> dm_store dm' = dm_store dm
     else payload r = DMP_NotRealizable \<and> txn_state dm' tid = txn_state dm tid \<and>
       (\<forall>i. dm_cells dm' i = (if i \<in> set cids then Some (meta_of K dm i) else dm_cells dm i)))"
proof -
  let ?dm1 = "snd (get_transaction now tid (update_clock K clk dm))"
  let ?dm2 = "touch_metas K now cids ?dm1"
  have m: "meta_of K ?dm1 i = meta_of K dm i" for i by (simp add: meta_of_def)
  have c: "\<forall>i \<in> set cids. dm_cells ?dm2 i = Some (meta_of K dm i)" by (simp add: touch_metas_cells m)
  obtain g where g: "cell_guards K tid (dm_cells ?dm2) [] cids = Some g"
      "length g = length cids \<longleftrightarrow> (\<forall>i \<in> set cids. realizable K tid (meta_of K dm i))"
      "(\<forall>i \<in> set cids. realizable K tid (meta_of K dm i)) \<longrightarrow> g = cids"
    using cell_guards_distinct [of "[]" cids "dm_cells ?dm2" "meta_of K dm" K tid] d c by auto
  have s: "\<not> (txn_state dm tid \<noteq> Started \<and> txn_state dm tid \<noteq> Prepared)" using st by auto
  show ?thesis
  proof (cases "\<forall>i \<in> set cids. realizable K tid (meta_of K dm i)")
    case True
    then show ?thesis using g s
      by (auto simp: site_prepare_def Let_def case_prod_beta respond_def txn_state_def own_cells_def touch_metas_cells m
          get_transaction_fst put_txn_def split: option.splits)
  next
    case False
    then show ?thesis using g s
      by (auto simp: site_prepare_def Let_def case_prod_beta respond_def touch_metas_cells m
          txn_state_def get_transaction_fst split: option.splits)
  qed
qed

lemma cell_guards_realizable:
  assumes "cell_guards K tid cells held cids = Some g" and "length g = length held + length cids"
    and "i \<in> set cids" and "cells i = Some m"
  shows "realizable K tid m"
  using assms
proof (induction cids arbitrary: held)
  case (Cons j cids)
  then obtain m' where j: "cells j = Some m'" "realizable K tid m'"
      "cell_guards K tid cells (held @ [j]) cids = Some g"
    by (auto simp: realizable_def split: if_splits option.splits)
  then show ?case using Cons by (cases "i = j") auto
qed simp

lemma prepare_success:
  assumes "site_prepare K now clk tid cids dm = Some (r, dm')" and "payload r = DMP_Success" and "i \<in> set cids"
  shows "realizable K tid (meta_of K dm i)"
proof -
  let ?dm2 = "touch_metas K now cids (snd (get_transaction now tid (update_clock K clk dm)))"
  obtain g where "cell_guards K tid (dm_cells ?dm2) [] cids = Some g" "length g = length cids"
    using assms(1,2) by (auto simp: site_prepare_def Let_def case_prod_beta respond_def split: option.splits if_splits)
  moreover have "dm_cells ?dm2 i = Some (meta_of K dm i)"
    using assms(3) by (simp add: touch_metas_cells) (simp add: meta_of_def)
  ultimately show ?thesis using cell_guards_realizable assms(3) by fastforce
qed

lemma accepted_read_stamp:
  assumes K: "clocks_ok K" and r: "guarded_read (prepare_read K now sid clk tid cid dm) rd = Some (r, dm')"
    and acc: "payload r = TER_Accepted x"
  shows "\<exists>m. dm_cells dm' cid = Some m \<and> (cm_read m = tid \<or> ck_less K tid (cm_read m)) \<and>
    cm_owner m = None \<and> \<not> ck_less K tid (cm_write m)"
  using r acc clocks_okD(4) [OF K]
  by (auto simp: guarded_read_def prepare_read_def Let_def case_prod_beta respond_def put_meta_def
      split: sum.splits if_splits option.splits)

section \<open>Lemmas: end\<close>

lemma length_filter_all: "length (filter P xs) = length xs \<longleftrightarrow> (\<forall>x \<in> set xs. P x)"
proof
  assume eq: "length (filter P xs) = length xs"
  show "\<forall>x \<in> set xs. P x"
  proof (rule ballI, rule ccontr)
    fix x assume "x \<in> set xs" "\<not> P x"
    then have "length (filter P xs) < length xs" by (rule length_filter_less)
    with eq show False by simp
  qed
qed (simp add: filter_True)

lemma waiting_list_iff:
  "(s, u) \<in> waiting_list cells cids \<longleftrightarrow> (\<exists>i \<in> set cids. \<exists>m. cells i = Some m \<and> (u, s) \<in> cm_waiting m)"
proof -
  have "(s, u) \<in> (case cells i of Some m \<Rightarrow> (\<lambda>(t, s). (s, t)) ` cm_waiting m | None \<Rightarrow> {}) \<longleftrightarrow>
      (\<exists>m. cells i = Some m \<and> (u, s) \<in> cm_waiting m)" for i
    by (cases "cells i") force+
  then show ?thesis by (simp add: waiting_list_def)
qed

section \<open>Lemmas: commit and rollback\<close>

fun op_id :: "'p CommitOp \<Rightarrow> Id option" where
  "op_id (CO_Write c) = Some (cell_id c)"
| "op_id (CO_Update c) = Some (cell_id c)"
| "op_id (CO_Remove i) = Some i"
| "op_id _ = None"

fun op_fit :: "('p OwnedCell \<Rightarrow> bool) \<Rightarrow> 'p CommitOp \<Rightarrow> bool" where
  "op_fit fit (CO_Write c) = fit c"
| "op_fit fit (CO_Update c) = fit c"
| "op_fit fit _ = True"

definition op_ids :: "'p CommitOp list \<Rightarrow> Id list" where
  "op_ids ops = List.map_filter op_id ops"

lemma op_ids_simps [simp]:
  "op_ids [] = []" "op_ids (op # ops) = (case op_id op of Some i \<Rightarrow> i # op_ids ops | None \<Rightarrow> op_ids ops)"
  by (simp_all add: op_ids_def map_filter_simps split: option.split)

text \<open>The history of a commit: the cells before it under each key it changed.\<close>

definition hist_ok ::
  "(Id \<Rightarrow> 'k) \<Rightarrow> ('k \<Rightarrow> 'p OwnedCell option) \<Rightarrow> ('k \<Rightarrow> 'p OwnedCell option) \<Rightarrow> 'p CommitHistory \<Rightarrow> bool" where
  "hist_ok key S0 S hist = (distinct (map (\<lambda>p. key (fst p)) hist) \<and>
     (\<forall>(i, h) \<in> set hist. ch_cell h = S0 (key i)) \<and>
     (\<forall>k. k \<notin> (\<lambda>p. key (fst p)) ` set hist \<longrightarrow> S k = S0 k))"

lemma hist_ok_snoc:
  assumes "hist_ok key S0 S hist" and "key i \<notin> (\<lambda>p. key (fst p)) ` set hist" and "ch_cell h = S0 (key i)"
  shows "hist_ok key S0 (S(key i := x)) (AList.update i h hist)"
proof -
  have "i \<notin> fst ` set hist" using assms(2) by force
  then have "AList.update i h hist = hist @ [(i, h)]" by (rule AList_update_new)
  then show ?thesis using assms by (auto simp: hist_ok_def)
qed

lemma hist_keys_update: "(\<lambda>p. key (fst p)) ` set (AList.update i h hist) = insert (key i) ((\<lambda>p. key (fst p)) ` set hist)"
proof -
  have "fst ` set (AList.update i h hist) = insert i (fst ` set hist)"
    by (metis dom_map_of_conv_image_fst fun_upd_apply dom_fun_upd option.distinct(1) update_conv')
  then have "key ` fst ` set (AList.update i h hist) = insert (key i) (key ` fst ` set hist)" by simp
  then show ?thesis by (simp add: image_image)
qed

text \<open>The history of a transaction at a site, and that it describes how to get back to \<open>S\<close>.\<close>

definition txn_hist :: "('tid, 'p, 'st) DataManager \<Rightarrow> 'tid \<Rightarrow> 'p CommitHistory" where
  "txn_hist dm tid = (case dm_txns dm tid of Some t \<Rightarrow> st_history t | None \<Rightarrow> [])"

definition undoable ::
  "(Id \<Rightarrow> 'k) \<Rightarrow> (('k \<Rightarrow> 'p OwnedCell option) \<Rightarrow> 'st \<Rightarrow> bool) \<Rightarrow> ('k \<Rightarrow> 'p OwnedCell option) \<Rightarrow> 'tid
     \<Rightarrow> ('tid, 'p, 'st) DataManager \<Rightarrow> bool" where
  "undoable key R S tid dm = (\<exists>S1. R S1 (dm_store dm) \<and> hist_ok key S S1 (txn_hist dm tid))"

lemma undoableI: "R S (dm_store dm) \<Longrightarrow> txn_hist dm tid = [] \<Longrightarrow> undoable key R S tid dm"
  by (auto simp: undoable_def hist_ok_def)

text \<open>The effect of an operation on the map of cells.\<close>

fun apply_op :: "(Id \<Rightarrow> 'k) \<Rightarrow> 'p CommitOp \<Rightarrow> ('k \<Rightarrow> 'p OwnedCell option) \<Rightarrow> 'k \<Rightarrow> 'p OwnedCell option" where
  "apply_op key (CO_Write c) S = S(key (cell_id c) \<mapsto> bump c)"
| "apply_op key (CO_Update c) S = S(key (cell_id c) \<mapsto> bump c)"
| "apply_op key (CO_Remove i) S = S(key i := None)"
| "apply_op key _ S = S"

lemma no_error_iff: "(case r of Inl e \<Rightarrow> Some e | Inr _ \<Rightarrow> None) = None \<longleftrightarrow> (\<exists>x. r = Inr x)"
  by (cases r) auto

context cell_store
begin

lemma rollback_cell_ok:
  assumes "R S st" and "\<And>c. ch_cell h = Some c \<Longrightarrow> fit c \<and> key (cell_id c) = key i"
    and "rollback_cell D i h st = Some (None, st')"
  shows "R (S(key i := map_option bump (ch_cell h))) st'"
proof (cases "ch_cell h")
  case None
  then obtain u where "so_remove_by D i (\<lambda>c. version (header c) = ch_current_version h) st = Some (Inr u, st')"
    using assms(3) by (auto simp: rollback_cell_def no_error_iff)
  from remove_law [OF assms(1) this] None show ?thesis by auto
next
  case (Some c)
  note f = assms(2) [OF Some]
  show ?thesis
  proof (cases "ch_current_version h > 0")
    case True
    let ?u = "\<lambda>x :: 'b OwnedCell. if version (header x) = ch_current_version h then Some c else None"
    obtain c' where u: "so_update_by D i ?u st = Some (Inr c', st')"
      using assms(3) True Some by (auto simp: rollback_cell_def no_error_iff)
    have "\<forall>x n. ?u x = Some n \<longrightarrow> fit n \<and> key (cell_id n) = key i" using f by (auto split: if_splits)
    from update_law [OF assms(1) this u] Some show ?thesis by (auto split: if_splits)
  next
    case False
    then obtain chd c' where w: "so_write D c st = Some ((Inr chd, c'), st')"
      using assms(3) Some by (auto simp: rollback_cell_def no_error_iff)
    from write_law [OF assms(1) _ w] f Some show ?thesis by auto
  qed
qed

lemma rollback_ok:
  assumes "R S st" and "\<forall>(i, h) \<in> set hist. \<forall>c. ch_cell h = Some c \<longrightarrow> fit c \<and> key (cell_id c) = key i"
    and "rollback D hist st = Some ([], st')" and "distinct (map (\<lambda>p. key (fst p)) hist)"
  shows "\<exists>S'. R S' st' \<and> (\<forall>(i, h) \<in> set hist. S' (key i) = map_option bump (ch_cell h)) \<and>
    (\<forall>k. k \<notin> (\<lambda>p. key (fst p)) ` set hist \<longrightarrow> S' k = S k)"
  using assms
proof (induction hist arbitrary: S st)
  case (Cons p hist)
  obtain i h where p: "p = (i, h)" by (cases p)
  obtain st1 where st1: "rollback_cell D i h st = Some (None, st1)" "rollback D hist st1 = Some ([], st')"
    using Cons.prems(3) p by (auto split: option.splits)
  have "R (S(key i := map_option bump (ch_cell h))) st1"
    by (rule rollback_cell_ok [OF Cons.prems(1) _ st1(1)]) (use Cons.prems(2) p in auto)
  from Cons.IH [OF this _ st1(2)] Cons.prems(2,4) obtain S' where
      S': "R S' st'" "\<forall>(i, h) \<in> set hist. S' (key i) = map_option bump (ch_cell h)"
        "\<forall>k. k \<notin> (\<lambda>p. key (fst p)) ` set hist \<longrightarrow> S' k = (S(key i := map_option bump (ch_cell h))) k"
    by auto
  moreover have "S' (key i) = map_option bump (ch_cell h)" using S'(3) Cons.prems(4) p by auto
  ultimately show ?case by (intro exI [of _ S']) (auto simp: p)
qed auto

lemma commit_op_tracks:
  assumes S: "R S (dm_store dm)" and h: "hist_ok key S0 S hist" and f: "op_fit fit op"
    and fresh: "\<And>i. op_id op = Some i \<Longrightarrow> key i \<notin> (\<lambda>p. key (fst p)) ` set hist"
    and x: "commit_op K D now tid op hist dm = Some (e, hist', dm')"
  shows "\<exists>S'. R S' (dm_store dm') \<and> hist_ok key S0 S' hist' \<and>
    (\<lambda>p. key (fst p)) ` set hist' \<subseteq> (\<lambda>p. key (fst p)) ` set hist \<union> key ` set_option (op_id op)"
proof (cases op)
  case (CO_Write c)
  then have fresh': "key (cell_id c) \<notin> (\<lambda>p. key (fst p)) ` set hist" and fc: "fit c" using fresh f by auto
  obtain r c' st where w: "so_write D c (dm_store dm) = Some ((r, c'), st)"
    using x CO_Write by (auto simp: commit_write_def split: option.splits)
  note W = write_law [OF S fc w]
  have S0: "S (key (cell_id c)) = S0 (key (cell_id c))" using h fresh' by (simp add: hist_ok_def)
  show ?thesis
  proof (cases r)
    case (Inl e)
    then show ?thesis using x CO_Write w W S h by (auto simp: commit_write_def)
  next
    case (Inr chd)
    then have "hist_ok key S0 (S(key (cell_id c) \<mapsto> bump c))
        (AList.update (cell_id c) \<lparr>ch_cell = None, ch_current_version = version chd\<rparr> hist)"
      using W S0 by (intro hist_ok_snoc [OF h fresh']) simp
    then show ?thesis using x CO_Write w W Inr by (auto simp: commit_write_def hist_keys_update)
  qed
next
  case (CO_Remove i)
  then have fresh': "key i \<notin> (\<lambda>p. key (fst p)) ` set hist" using fresh by auto
  have S0: "S (key i) = S0 (key i)" using h fresh' by (simp add: hist_ok_def)
  obtain q where q: "so_read D (dm_store dm) i = Some q"
    using x CO_Remove by (auto simp: commit_remove_def split: option.splits)
  show ?thesis
  proof (cases q)
    case (Inl e)
    then show ?thesis using x CO_Remove q S h by (auto simp: commit_remove_def)
  next
    case (Inr c)
    then have c: "S (key i) = Some c" using read_law [OF S q] by (cases "S (key i)") auto
    obtain r st where r: "so_remove_by D i (\<lambda>x. version (header x) = version (header c)) (dm_store dm) = Some (r, st)"
      using x CO_Remove q Inr by (auto simp: commit_remove_def split: option.splits)
    note W = remove_law [OF S r]
    show ?thesis
    proof (cases r)
      case (Inl e)
      then show ?thesis using x CO_Remove q \<open>q = Inr c\<close> r W h by (auto simp: commit_remove_def)
    next
      case (Inr u)
      have "hist_ok key S0 (S(key i := None)) (AList.update i \<lparr>ch_cell = Some c, ch_current_version = 0\<rparr> hist)"
        using c S0 by (intro hist_ok_snoc [OF h fresh']) simp
      then show ?thesis using x CO_Remove q \<open>q = Inr c\<close> r W Inr by (auto simp: commit_remove_def hist_keys_update)
    qed
  qed
next
  case (CO_Update n)
  let ?i = "cell_id n"
  from CO_Update have fresh': "key ?i \<notin> (\<lambda>p. key (fst p)) ` set hist" and fn: "fit n" using fresh f by auto
  have S0: "S (key ?i) = S0 (key ?i)" using h fresh' by (simp add: hist_ok_def)
  obtain q where q: "so_read D (dm_store dm) ?i = Some q"
    using x CO_Update by (auto simp: commit_update_def Let_def split: option.splits)
  show ?thesis
  proof (cases q)
    case (Inl e)
    then show ?thesis using x CO_Update q S h by (auto simp: commit_update_def Let_def)
  next
    case (Inr c)
    then have c: "S (key ?i) = Some c" using read_law [OF S q] by (cases "S (key ?i)") auto
    let ?u = "\<lambda>x :: 'b OwnedCell. if version (header x) = version (header c) then Some n else None"
    obtain r st where r: "so_update_by D ?i ?u (dm_store dm) = Some (r, st)"
      using x CO_Update q Inr by (auto simp: commit_update_def Let_def split: option.splits)
    have "\<forall>x m. ?u x = Some m \<longrightarrow> fit m \<and> key (cell_id m) = key ?i" using fn by (auto split: if_splits)
    note W = update_law [OF S this r]
    show ?thesis
    proof (cases r)
      case (Inl e)
      then show ?thesis using x CO_Update q \<open>q = Inr c\<close> r W h by (auto simp: commit_update_def Let_def)
    next
      case (Inr c')
      then have c': "c' = bump n" "R (S(key ?i \<mapsto> bump n)) st" using W by (auto split: if_splits)
      have "hist_ok key S0 (S(key ?i \<mapsto> bump n))
          (AList.update ?i \<lparr>ch_cell = Some c, ch_current_version = version (header c')\<rparr> hist)"
        using c S0 by (intro hist_ok_snoc [OF h fresh']) simp
      then show ?thesis using x CO_Update q \<open>q = Inr c\<close> r c' Inr
        by (auto simp: commit_update_def Let_def hist_keys_update)
    qed
  qed
qed (use x S h in auto)

lemma commit_ops_track:
  assumes "R S (dm_store dm)" and "hist_ok key S0 S hist" and "\<forall>op \<in> set ops. op_fit fit op"
    and "distinct (map key (op_ids ops))" and "\<forall>i \<in> set (op_ids ops). key i \<notin> (\<lambda>p. key (fst p)) ` set hist"
    and "commit_ops K D now tid ops hist dm = Some (e, hist', dm')"
  shows "\<exists>S'. R S' (dm_store dm') \<and> hist_ok key S0 S' hist'"
  using assms
proof (induction ops arbitrary: S hist dm)
  case (Cons op ops)
  obtain e1 h1 dm1 where 1: "commit_op K D now tid op hist dm = Some (e1, h1, dm1)"
    using Cons.prems(6) by (auto split: option.splits)
  have fresh: "\<And>i. op_id op = Some i \<Longrightarrow> key i \<notin> (\<lambda>p. key (fst p)) ` set hist" using Cons.prems(5) by auto
  have f: "op_fit fit op" using Cons.prems(3) by simp
  obtain S1 where S1: "R S1 (dm_store dm1)" "hist_ok key S0 S1 h1"
      "(\<lambda>p. key (fst p)) ` set h1 \<subseteq> (\<lambda>p. key (fst p)) ` set hist \<union> key ` set_option (op_id op)"
    using commit_op_tracks [OF Cons.prems(1,2) f fresh 1] by blast
  show ?case
  proof (cases e1)
    case None
    then have "commit_ops K D now tid ops h1 dm1 = Some (e, hist', dm')" using Cons.prems(6) 1 by simp
    moreover have "distinct (map key (op_ids ops))" using Cons.prems(4) by (auto split: option.splits)
    moreover have "key i \<notin> (\<lambda>p. key (fst p)) ` set h1" if "i \<in> set (op_ids ops)" for i
    proof (cases "op_id op")
      case None
      then show ?thesis using S1(3) Cons.prems(5) that by auto
    next
      case (Some j)
      then have "key j \<notin> key ` set (op_ids ops)" "key i \<notin> (\<lambda>p. key (fst p)) ` set hist" using Cons.prems(4,5) that by auto
      moreover from this(1) have "key i \<noteq> key j" using that by (metis image_eqI)
      ultimately have "key i \<noteq> key j" "key i \<notin> (\<lambda>p. key (fst p)) ` set hist" by simp_all
      then show ?thesis using S1(3) Some by auto
    qed
    ultimately show ?thesis using Cons.IH [OF S1(1,2)] Cons.prems(3) by auto
  next
    case (Some e2)
    then show ?thesis using Cons.prems(6) 1 S1 by auto
  qed
qed auto

lemma site_commit_undoable:
  assumes S: "R S (dm_store dm)" and h: "txn_hist dm tid = []"
    and f: "\<forall>op \<in> set ops. op_fit fit op" and d: "distinct (map key (op_ids ops))"
    and c: "site_commit K D now clk tid ops dm = Some (r, dm1)"
  shows "undoable key R S tid dm1"
proof -
  let ?t = "fst (get_transaction now tid (update_clock K clk dm))"
  let ?dm0 = "put_txn tid (?t\<lparr>st_last_activity := now\<rparr>) (snd (get_transaction now tid (update_clock K clk dm)))"
  have ht: "st_history ?t = []" using h by (simp add: txn_hist_def get_transaction_fst split: option.splits)
  have S0: "R S (dm_store ?dm0)" "hist_ok key S S []" using S by (simp_all add: hist_ok_def)
  show ?thesis
  proof (cases "state_check (st_state ?t) = None \<and> length (st_affected_cells ?t) = length ops")
    case False
    then have "dm1 = ?dm0" using c by (auto simp: site_commit_def Let_def case_prod_beta split: option.splits if_splits)
    then show ?thesis using S0 ht by (auto simp: undoable_def txn_hist_def)
  next
    case True
    then obtain e hist dm3 where e: "commit_ops K D now tid ops [] ?dm0 = Some (e, hist, dm3)"
        "txn_hist dm1 tid = hist" "dm_store dm1 = dm_store dm3"
      using c ht by (auto simp: site_commit_def Let_def case_prod_beta txn_hist_def split: option.splits)
    from commit_ops_track [OF S0 f d _ e(1)] show ?thesis using e(2,3) by (auto simp: undoable_def)
  qed
qed

lemma site_abort_restores:
  assumes u: "undoable key R S tid dm" and fit: "\<And>k c. S k = Some c \<Longrightarrow> fit c \<and> key (cell_id c) = k"
    and ord: "\<forall>h. mset (ord h) = mset h"
    and a: "site_abort K D ord now clk tid dm = Some (r, dm')" "payload r = AR_Success None"
  shows "\<exists>S'. R S' (dm_store dm') \<and> (\<forall>k. S' k = S k \<or> S' k = map_option bump (S k))"
proof -
  let ?hist = "txn_hist dm tid"
  obtain S1 where 1: "R S1 (dm_store dm)" "hist_ok key S S1 ?hist" using u by (auto simp: undoable_def)
  have t1: "st_history (fst (get_transaction now tid (update_clock K clk dm))) = ?hist"
    by (simp add: get_transaction_fst txn_hist_def split: option.splits)
  have rb: "rollback D (ord ?hist) (dm_store dm) = Some ([], dm_store dm')"
    using a by (auto simp: site_abort_def Let_def case_prod_beta t1 respond_def split: if_splits option.splits)
  have set_ord: "set (ord ?hist) = set ?hist" using ord by (metis set_mset_mset)
  have "mset (map (\<lambda>p. key (fst p)) (ord ?hist)) = mset (map (\<lambda>p. key (fst p)) ?hist)" using ord by simp
  then have dist: "distinct (map (\<lambda>p. key (fst p)) (ord ?hist))"
    using 1(2) mset_eq_imp_distinct_iff unfolding hist_ok_def by blast
  have old: "ch_cell h = S (key i)" if "(i, h) \<in> set ?hist" for i h using 1(2) that by (auto simp: hist_ok_def)
  then have "\<forall>(i, h) \<in> set (ord ?hist). \<forall>c. ch_cell h = Some c \<longrightarrow> fit c \<and> key (cell_id c) = key i"
    using fit by (auto simp: set_ord)
  from rollback_ok [OF 1(1) this rb dist] obtain S' where
      S': "R S' (dm_store dm')" "\<forall>(i, h) \<in> set ?hist. S' (key i) = map_option bump (ch_cell h)"
      "\<forall>k. k \<notin> (\<lambda>p. key (fst p)) ` set ?hist \<longrightarrow> S' k = S1 k"
    unfolding set_ord by blast
  have "S' k = S k \<or> S' k = map_option bump (S k)" for k
  proof (cases "k \<in> (\<lambda>p. key (fst p)) ` set ?hist")
    case True
    then obtain i h where "(i, h) \<in> set ?hist" "k = key i" by force
    then show ?thesis using S'(2) old by auto
  next
    case False
    then show ?thesis using S'(3) 1(2) by (simp add: hist_ok_def)
  qed
  then show ?thesis using S'(1) by blast
qed

lemma commit_abort_ok:
  assumes S: "R S (dm_store dm)" and txn: "dm_txns dm tid = Some t" "st_state t = Prepared" "st_history t = []"
    and f: "\<forall>op \<in> set ops. op_fit fit op" and d: "distinct (map key (op_ids ops))"
    and c: "site_commit K D now clk tid ops dm = Some (r, dm1)"
    and ord: "\<forall>h. mset (ord h) = mset h"
    and a: "site_abort K D ord now' clk' tid dm1 = Some (r', dm2)" "payload r' = AR_Success None"
  shows "\<exists>S'. R S' (dm_store dm2) \<and> (\<forall>k. S' k = S k \<or> S' k = map_option bump (S k))"
proof -
  have "txn_hist dm tid = []" using txn(1,3) by (simp add: txn_hist_def)
  from site_commit_undoable [OF S this f d c] show ?thesis
    by (rule site_abort_restores [OF _ stored_fit [OF S] ord a])
qed

text \<open>A commit that succeeds has applied all its operations.\<close>

lemma commit_op_applies:
  assumes S: "R S (dm_store dm)" and f: "op_fit fit op"
    and x: "commit_op K D now tid op hist dm = Some (None, hist', dm')"
  shows "R (apply_op key op S) (dm_store dm')"
proof (cases op)
  case (CO_Write c)
  then obtain chd c' st where "so_write D c (dm_store dm) = Some ((Inr chd, c'), st)" "dm_store dm' = st"
    using x by (auto simp: commit_write_def split: option.splits sum.splits)
  then show ?thesis using write_law [OF S] f CO_Write by fastforce
next
  case (CO_Remove i)
  then obtain pr u st where "so_remove_by D i pr (dm_store dm) = Some (Inr u, st)" "dm_store dm' = st"
    using x by (auto simp: commit_remove_def split: option.splits sum.splits)
  then show ?thesis using remove_law [OF S] CO_Remove by fastforce
next
  case (CO_Update n)
  from x CO_Update obtain oc where oc: "so_read D (dm_store dm) (cell_id n) = Some (Inr oc)"
    by (auto simp: commit_update_def Let_def split: option.splits sum.splits)
  with x CO_Update obtain c' st where u: "so_update_by D (cell_id n) (\<lambda>c. if version (header c) = version (header oc) then Some n else None)
      (dm_store dm) = Some (Inr c', st)" "dm_store dm' = st"
    by (auto simp: commit_update_def Let_def split: option.splits sum.splits)
  have "\<forall>c m. (if version (header c) = version (header oc) then Some n else None) = Some m \<longrightarrow>
      fit m \<and> key (cell_id m) = key (cell_id n)" for oc :: "'b OwnedCell" using f CO_Update by auto
  from update_law [OF S this u(1)] show ?thesis using u(2) CO_Update by (auto split: if_splits)
qed (use x S in auto)

lemma commit_ops_apply:
  assumes "R S (dm_store dm)" and "\<forall>op \<in> set ops. op_fit fit op"
    and "commit_ops K D now tid ops hist dm = Some (None, hist', dm')"
  shows "R (fold (apply_op key) ops S) (dm_store dm')"
  using assms
proof (induction ops arbitrary: S hist dm)
  case (Cons op ops)
  then obtain h1 dm1 where 1: "commit_op K D now tid op hist dm = Some (None, h1, dm1)"
      "commit_ops K D now tid ops h1 dm1 = Some (None, hist', dm')" by (auto split: option.splits)
  then show ?case using Cons.IH [OF commit_op_applies [OF Cons.prems(1) _ 1(1)] _ 1(2)] Cons.prems(2) by simp
qed simp

lemma site_commit_applies:
  assumes S: "R S (dm_store dm)" and f: "\<forall>op \<in> set ops. op_fit fit op"
    and c: "site_commit K D now clk tid ops dm = Some (r, dm')" "payload r = DMC_Success"
  shows "R (fold (apply_op key) ops S) (dm_store dm') \<and> txn_state dm' tid = Committed"
proof -
  let ?t = "fst (get_transaction now tid (update_clock K clk dm))"
  let ?dm0 = "put_txn tid (?t\<lparr>st_last_activity := now\<rparr>) (snd (get_transaction now tid (update_clock K clk dm)))"
  obtain hist dm3 where e: "commit_ops K D now tid ops (st_history ?t) ?dm0 = Some (None, hist, dm3)"
      "dm_store dm' = dm_store dm3" "txn_state dm' tid = Committed"
    using c by (auto simp: site_commit_def Let_def case_prod_beta respond_def commit_error_def txn_state_def
        split: option.splits if_splits)
  have "R S (dm_store ?dm0)" using S by simp
  from commit_ops_apply [OF this f e(1)] show ?thesis using e(2,3) by simp
qed

end

section \<open>Lemmas: single updates\<close>

definition unchanged_since :: "'p OwnedCell \<Rightarrow> 'p OwnedCell \<Rightarrow> 'p OwnedCell \<Rightarrow> 'p OwnedCell option" where
  "unchanged_since o1 n c = (if version (header c) = version (header o1) then Some n else None)"

text \<open>A prepared transaction commits its update whatever owner and stamps the cell has by then.\<close>

lemma commit_update_one:
  assumes "dm_txns dm t = Some x" "st_state x = Prepared" "st_affected_cells x = [cell_id n]"
    and "so_read D (dm_store dm) (cell_id n) = Some (Inr c0)"
    and "so_update_by D (cell_id n) (unchanged_since c0 n) (dm_store dm) = Some (Inr n', st')"
  shows "\<exists>r dm'. site_commit K D now clk t [CO_Update n] dm = Some (r, dm') \<and> payload r = DMC_Success \<and>
    dm_store dm' = st' \<and> dm_cells dm' = (dm_cells dm)(cell_id n \<mapsto> (meta_of K dm (cell_id n))\<lparr>cm_write := t\<rparr>) \<and>
    (\<forall>u. u \<noteq> t \<longrightarrow> dm_txns dm' u = dm_txns dm u)"
proof -
  have t: "fst (get_transaction now t (update_clock K clk dm)) = x" by (simp add: get_transaction_fst assms(1))
  have u: "unchanged_since c0 n = (\<lambda>c. if version (header c) = version (header c0) then Some n else None)"
    by (rule ext) (simp add: unchanged_since_def)
  let ?dm0 = "put_txn t (x\<lparr>st_last_activity := now\<rparr>) (snd (get_transaction now t (update_clock K clk dm)))"
  let ?h = "AList.update (cell_id n) \<lparr>ch_cell = Some c0, ch_current_version = version (header n')\<rparr> (st_history x)"
  let ?dm3 = "update_cell_write K now (cell_id n) t (?dm0\<lparr>dm_store := st'\<rparr>)"
  let ?dm4 = "put_txn t (x\<lparr>st_last_activity := now, st_history := ?h, st_state := Committed\<rparr>) ?dm3"
  have "commit_ops K D now t [CO_Update n] (st_history x) ?dm0 = Some (None, ?h, ?dm3)"
    using assms(4,5) by (simp add: commit_update_def Let_def u)
  then have e: "site_commit K D now clk t [CO_Update n] dm = Some (respond ?dm4 DMC_Success, ?dm4)"
    using assms(2,3) by (simp add: site_commit_def Let_def case_prod_beta t state_check_def)
  have "dm_cells ?dm4 = (dm_cells dm)(cell_id n \<mapsto> (meta_of K dm (cell_id n))\<lparr>cm_write := t\<rparr>)"
    by (simp add: update_cell_write_cells meta_of_def)
  moreover have "dm_txns ?dm4 u = dm_txns dm u" if "u \<noteq> t" for u
    using that by (simp add: get_transaction_fst(2))
  ultimately show ?thesis using e by (auto simp: respond_def)
qed

text \<open>Preparing one cell of a site on which the stamps allow it.\<close>

lemma prepare_one:
  assumes "realizable K t (meta_of K dm i)" and "dm_txns dm t = None"
  shows "\<exists>r dm' x. site_prepare K now clk t [i] dm = Some (r, dm') \<and> payload r = DMP_Success \<and>
    dm_cells dm' = (dm_cells dm)(i \<mapsto> (meta_of K dm i)\<lparr>cm_owner := Some t\<rparr>) \<and>
    dm_txns dm' t = Some x \<and> st_state x = Prepared \<and> st_affected_cells x = [i] \<and>
    (\<forall>u. u \<noteq> t \<longrightarrow> dm_txns dm' u = dm_txns dm u) \<and> dm_store dm' = dm_store dm"
proof -
  have "txn_state dm t \<in> {Started, Prepared}" using assms(2) by (simp add: txn_state_def)
  from prepare_outcome [OF _ this, of "[i]" K now clk] assms(1) obtain r dm' x where
      "site_prepare K now clk t [i] dm = Some (r, dm')" "payload r = DMP_Success" "txn_state dm' t = Prepared"
      and c: "\<forall>j. dm_cells dm' j = (if j \<in> set [i] then Some ((meta_of K dm j)\<lparr>cm_owner := Some t\<rparr>) else dm_cells dm j)"
      and "dm_txns dm' t = Some x" "st_affected_cells x = [i]" "\<forall>u. u \<noteq> t \<longrightarrow> dm_txns dm' u = dm_txns dm u"
        "dm_store dm' = dm_store dm" by auto
  moreover have "dm_cells dm' = (dm_cells dm)(i \<mapsto> (meta_of K dm i)\<lparr>cm_owner := Some t\<rparr>)"
    by (rule ext) (simp add: c)
  ultimately show ?thesis by (auto simp: txn_state_def)
qed

section \<open>Concrete clocks and store\<close>

definition nat_clocks :: "nat Clocks" where
  "nat_clocks = \<lparr>ck_less = (<), ck_new = 0, ck_merge = max, ck_inc = Suc,
     ck_first = (\<lambda>s. if s = {} then None else Some (Min s))\<rparr>"

lemma nat_clocks_simps [simp]: "ck_less nat_clocks = (<)" "ck_new nat_clocks = 0" "ck_merge nat_clocks = max"
  by (simp_all add: nat_clocks_def)

lemma nat_clocks_ok: "clocks_ok nat_clocks"
  by (auto simp: clocks_ok_def)

definition map_ops :: "(Id \<Rightarrow> 'p OwnedCell option, 'p) StoreOps" where
  "map_ops = \<lparr>so_read = (\<lambda>st i. Some (case st i of Some c \<Rightarrow> Inr c | None \<Rightarrow> Inl RE_CellDoesNotExisted)),
     so_read_selected = (\<lambda>st i ks. None), so_read_partial_raw = (\<lambda>st i off len. None),
     so_head = (\<lambda>st i. Some (case st i of Some c \<Rightarrow> Inr (header c) | None \<Rightarrow> Inl RE_CellDoesNotExisted)),
     so_write = (\<lambda>c st. Some (if st (cell_id c) = None
       then ((Inr (header (bump c)), bump c), st(cell_id c \<mapsto> bump c)) else ((Inl WE_CellAlreadyExisted, bump c), st))),
     so_update_by = (\<lambda>i upd st. Some (case st i of None \<Rightarrow> (Inl WE_CellDoesNotExisted, st)
       | Some c \<Rightarrow> (case upd c of None \<Rightarrow> (Inl WE_UserCanceledUpdate, st) | Some n \<Rightarrow> (Inr (bump n), st(i \<mapsto> bump n))))),
     so_remove_by = (\<lambda>i pr st. Some (case st i of None \<Rightarrow> (Inl WE_CellDoesNotExisted, st)
       | Some c \<Rightarrow> if pr c then (Inr (), st(i := None)) else (Inl WE_CellDoesNotExisted, st)))\<rparr>"

definition ex_id :: Id where "ex_id = \<lparr>higher = 1, lower = 2\<rparr>"

definition ex_cell_v :: "u64 \<Rightarrow> 'p Value \<Rightarrow> 'p OwnedCell" where
  "ex_cell_v v x = \<lparr>header = \<lparr>version = v, timestamp = 0, schema = 0, partition = 1, hash = 2\<rparr>, data = x\<rparr>"

lemma ex_cell_v_simps [simp]: "cell_id (ex_cell_v v x) = ex_id" "version (header (ex_cell_v v x)) = v" "data (ex_cell_v v x) = x"
  by (simp_all add: ex_cell_v_def cell_id_def header_id_def ex_id_def)

section \<open>Properties\<close>

text \<open>C20: a data site prepares a transaction that is started or prepared exactly when no cell of its
  list was read or written by a later transaction. On success the site owns every cell of the list
  for it and changes no cell; otherwise it answers \<^verbatim>\<open>NotRealizable\<close> and no owner and no stamp
  changes.\<close>

theorem prepare_decides:
  assumes "distinct cids" and "txn_state dm tid \<in> {Started, Prepared}"
  shows "\<exists>r dm'. site_prepare K now clk tid cids dm = Some (r, dm') \<and>
    (payload r = DMP_Success \<longleftrightarrow> (\<forall>i \<in> set cids. realizable K tid (meta_of K dm i))) \<and>
    (payload r = DMP_Success \<longrightarrow> txn_state dm' tid = Prepared \<and> dm_store dm' = dm_store dm \<and>
       (\<forall>i \<in> set cids. meta_of K dm' i = (meta_of K dm i)\<lparr>cm_owner := Some tid\<rparr>)) \<and>
    (payload r \<noteq> DMP_Success \<longrightarrow> payload r = DMP_NotRealizable \<and> (\<forall>i. meta_of K dm' i = meta_of K dm i))"
proof -
  obtain r dm' where p: "site_prepare K now clk tid cids dm = Some (r, dm')"
    and o: "if \<forall>i \<in> set cids. realizable K tid (meta_of K dm i)
     then payload r = DMP_Success \<and> txn_state dm' tid = Prepared \<and>
       (\<forall>i. dm_cells dm' i = (if i \<in> set cids then Some ((meta_of K dm i)\<lparr>cm_owner := Some tid\<rparr>) else dm_cells dm i)) \<and>
       (\<exists>t. dm_txns dm' tid = Some t \<and> st_affected_cells t = cids \<and>
          st_history t = (case dm_txns dm tid of Some u \<Rightarrow> st_history u | None \<Rightarrow> [])) \<and>
       (\<forall>u. u \<noteq> tid \<longrightarrow> dm_txns dm' u = dm_txns dm u) \<and> dm_store dm' = dm_store dm
     else payload r = DMP_NotRealizable \<and> txn_state dm' tid = txn_state dm tid \<and>
       (\<forall>i. dm_cells dm' i = (if i \<in> set cids then Some (meta_of K dm i) else dm_cells dm i))"
    using prepare_outcome [OF assms, of K now clk] by blast
  show ?thesis
    by (intro exI conjI, rule p) (use o in \<open>auto simp: meta_of_def split: if_splits\<close>)
qed

theorem prepare_decides_witness:
  "\<exists>r dm'. site_prepare nat_clocks 0 0 7 [ex_id] (DataManager_new 0 (\<lambda>_. None) :: (nat, unit, Id \<Rightarrow> unit OwnedCell option) DataManager) =
    Some (r, dm') \<and> payload r = DMP_Success"
  using prepare_decides [of "[ex_id]" "DataManager_new 0 (\<lambda>_. None) :: (nat, unit, Id \<Rightarrow> unit OwnedCell option) DataManager" 7 nat_clocks 0 0]
  by (auto simp: DataManager_new_def txn_state_def realizable_def meta_of_def CellMeta_new_def)





text \<open>C39: preparing does not look at the owner of a cell. Two transactions prepare the same cell, the
  later one commits its update and then the earlier one commits its own: all four requests succeed,
  the older update overwrites the newer one and the write stamp of the cell moves back. The order of
  the transaction identifiers does not decide the outcome.\<close>

theorem commit_order_inverted:
  fixes K :: "'tid Clocks" and D :: "('st, 'p) StoreOps"
  assumes K: "clocks_ok K" and less: "ck_less K t1 t2" and i: "cell_id n1 = i" "cell_id n2 = i"
    and s2: "so_read D st i = Some (Inr c0)" "so_update_by D i (unchanged_since c0 n2) st = Some (Inr n2', st2)"
    and s1: "so_read D st2 i = Some (Inr n2')" "so_update_by D i (unchanged_since n2' n1) st2 = Some (Inr n1', st1)"
  shows "\<exists>p1 p2 q1 q2 dm1 dm2 dm3 dm4.
    site_prepare K now clk t1 [i] (DataManager_new clk0 st) = Some (p1, dm1) \<and> payload p1 = DMP_Success \<and>
    site_prepare K now clk t2 [i] dm1 = Some (p2, dm2) \<and> payload p2 = DMP_Success \<and>
    site_commit K D now clk t2 [CO_Update n2] dm2 = Some (q2, dm3) \<and> payload q2 = DMC_Success \<and> cm_write (meta_of K dm3 i) = t2 \<and>
    site_commit K D now clk t1 [CO_Update n1] dm3 = Some (q1, dm4) \<and> payload q1 = DMC_Success \<and>
    cm_write (meta_of K dm4 i) = t1 \<and> dm_store dm4 = st1"
proof -
  let ?dm = "DataManager_new clk0 st :: ('tid, 'p, 'st) DataManager"
  have ne: "t1 \<noteq> t2" using less clocks_okD(1) [OF K] by blast
  have r0: "realizable K t (meta_of K ?dm i)" for t
    using clocks_okD(3) [OF K] by (simp add: realizable_def meta_of_def DataManager_new_def CellMeta_new_def)
  obtain p1 dm1 x1 where 1: "site_prepare K now clk t1 [i] ?dm = Some (p1, dm1)" "payload p1 = DMP_Success"
      "dm_cells dm1 = (dm_cells ?dm)(i \<mapsto> (meta_of K ?dm i)\<lparr>cm_owner := Some t1\<rparr>)" "dm_txns dm1 t1 = Some x1"
      "st_state x1 = Prepared" "st_affected_cells x1 = [i]" "\<forall>u. u \<noteq> t1 \<longrightarrow> dm_txns dm1 u = dm_txns ?dm u" "dm_store dm1 = st"
    using prepare_one [OF r0, of t1 now clk] by (auto simp: DataManager_new_def)
  have "realizable K t2 (meta_of K dm1 i)" using r0 [of t2] 1(3) by (simp add: realizable_def meta_of_def)
  moreover have "dm_txns dm1 t2 = None" using 1(7) ne by (simp add: DataManager_new_def)
  ultimately obtain p2 dm2 x2 where 2: "site_prepare K now clk t2 [i] dm1 = Some (p2, dm2)" "payload p2 = DMP_Success"
      "dm_txns dm2 t2 = Some x2" "st_state x2 = Prepared" "st_affected_cells x2 = [i]"
      "\<forall>u. u \<noteq> t2 \<longrightarrow> dm_txns dm2 u = dm_txns dm1 u" "dm_store dm2 = st"
    using prepare_one [of K t2 dm1 i now clk] 1(8) by auto
  obtain q2 dm3 where 3: "site_commit K D now clk t2 [CO_Update n2] dm2 = Some (q2, dm3)" "payload q2 = DMC_Success"
      "dm_store dm3 = st2" "dm_cells dm3 = (dm_cells dm2)(i \<mapsto> (meta_of K dm2 i)\<lparr>cm_write := t2\<rparr>)"
      "\<forall>u. u \<noteq> t2 \<longrightarrow> dm_txns dm3 u = dm_txns dm2 u"
    using commit_update_one [OF 2(3,4), of n2 D c0 n2' st2 K now clk] 2(5,7) s2 i(2) by auto
  have "dm_txns dm3 t1 = Some x1" using 1(4) 2(6) 3(5) ne by simp
  from commit_update_one [OF this 1(5), of n1 D n2' n1' st1 K now clk] obtain q1 dm4 where
      4: "site_commit K D now clk t1 [CO_Update n1] dm3 = Some (q1, dm4)" "payload q1 = DMC_Success" "dm_store dm4 = st1"
      "dm_cells dm4 = (dm_cells dm3)(i \<mapsto> (meta_of K dm3 i)\<lparr>cm_write := t1\<rparr>)"
    using 1(6) 3(3) s1 i(1) by auto
  have "cm_write (meta_of K dm3 i) = t2" "cm_write (meta_of K dm4 i) = t1"
    by (simp_all add: 3(4) 4(4) meta_of_def)
  then show ?thesis using 1(1,2) 2(1,2) 3(1,2) 4(1-3) by blast
qed

theorem commit_order_inverted_witness:
  "\<exists>q1 dm3 dm4. site_commit nat_clocks map_ops 0 0 1 [CO_Update (ex_cell_v 1 (VBool True))] dm3 = Some (q1, dm4) \<and>
    cm_write (meta_of nat_clocks dm3 ex_id) = 2 \<and> cm_write (meta_of nat_clocks dm4 ex_id) = 1 \<and>
    dm_store dm4 = [ex_id \<mapsto> bump (ex_cell_v 1 (VBool True) :: unit OwnedCell)]"
proof -
  let ?st = "[ex_id \<mapsto> ex_cell_v 1 (VNull :: unit Value)]"
  let ?n1 = "ex_cell_v 1 (VBool True) :: unit OwnedCell" and ?n2 = "ex_cell_v 1 (VBool False) :: unit OwnedCell"
  have "so_read map_ops ?st ex_id = Some (Inr (ex_cell_v 1 VNull))"
    "so_update_by map_ops ex_id (unchanged_since (ex_cell_v 1 VNull) ?n2) ?st = Some (Inr (bump ?n2), [ex_id \<mapsto> bump ?n2])"
    "so_read map_ops [ex_id \<mapsto> bump ?n2] ex_id = Some (Inr (bump ?n2))"
    "so_update_by map_ops ex_id (unchanged_since (bump ?n2) ?n1) [ex_id \<mapsto> bump ?n2] = Some (Inr (bump ?n1), [ex_id \<mapsto> bump ?n1])"
    by (simp_all add: map_ops_def unchanged_since_def)
  from commit_order_inverted [OF nat_clocks_ok _ _ _ this, of 1 2 0 0 0] show ?thesis by auto
qed

text \<open>A read checks and stamps the cell first and reads the store after it has released the cell.
  A later transaction can prepare and commit an update in between; the read then returns the cell of
  the later transaction although its own check has passed.\<close>

theorem read_sees_later_commit:
  fixes K :: "'tid Clocks" and D :: "('st, 'p) StoreOps"
  assumes K: "clocks_ok K" and less: "ck_less K t2 t3" and i: "cell_id n = i"
    and s: "so_read D st i = Some (Inr c0)" "so_update_by D i (unchanged_since c0 n) st = Some (Inr n', st')"
      "so_read D st' i = Some (Inr n')"
    and p: "prepare_read K now sid clk t2 i (DataManager_new clk0 st) = (Inr (), dm1)"
  shows "\<exists>p3 q3 dm2 dm3. site_prepare K now clk t3 [i] dm1 = Some (p3, dm2) \<and> payload p3 = DMP_Success \<and>
    site_commit K D now clk t3 [CO_Update n] dm2 = Some (q3, dm3) \<and> payload q3 = DMC_Success \<and>
    guarded_read (Inr (), dm3) (\<lambda>st. so_read D st i) = Some (respond dm3 (TER_Accepted n'), dm3)"
proof -
  let ?dm = "DataManager_new clk0 st :: ('tid, 'p, 'st) DataManager"
  have ne: "t2 \<noteq> t3" using less clocks_okD(1) [OF K] by blast
  have m: "cm_read (meta_of K dm1 i) \<in> {t2, ck_new K}" "cm_write (meta_of K dm1 i) = ck_new K" "dm_store dm1 = st"
      "dm_txns dm1 t3 = None"
    using p ne by (auto simp: prepare_read_def Let_def case_prod_beta DataManager_new_def meta_of_def CellMeta_new_def
        put_meta_def update_clock_def get_transaction_def put_txn_def cell_meta_mutex_def split: if_splits)
  have "\<not> ck_less K t3 t2" using less clocks_okD(1,2) [OF K] by blast
  then have "realizable K t3 (meta_of K dm1 i)" using m(1,2) clocks_okD(3) [OF K] by (auto simp: realizable_def)
  from prepare_one [OF this m(4), of now clk] obtain p3 dm2 x where
      2: "site_prepare K now clk t3 [i] dm1 = Some (p3, dm2)" "payload p3 = DMP_Success" "dm_txns dm2 t3 = Some x"
      "st_state x = Prepared" "st_affected_cells x = [i]" "dm_store dm2 = st" using m(3) by auto
  obtain q3 dm3 where 3: "site_commit K D now clk t3 [CO_Update n] dm2 = Some (q3, dm3)" "payload q3 = DMC_Success"
      "dm_store dm3 = st'"
    using commit_update_one [OF 2(3,4), of n D c0 n' st' K now clk] 2(5,6) s(1,2) i by auto
  show ?thesis using 2 3 s(3) by (auto simp: guarded_read_def exec_result_def)
qed

theorem read_sees_later_commit_witness:
  "\<exists>(dm1 :: (nat, unit, Id \<Rightarrow> unit OwnedCell option) DataManager)
      (dm3 :: (nat, unit, Id \<Rightarrow> unit OwnedCell option) DataManager).
    prepare_read nat_clocks 0 4 0 2 ex_id (DataManager_new 0 [ex_id \<mapsto> ex_cell_v 1 (VNull :: unit Value)]) =
      (Inr () :: (unit OwnedCell, ReadError) TxnExecResult + unit, dm1) \<and>
    guarded_read (Inr (), dm3) (\<lambda>st. so_read map_ops st ex_id) =
      Some (respond dm3 (TER_Accepted (bump (ex_cell_v 1 (VBool True) :: unit OwnedCell))), dm3)"
proof -
  let ?st = "[ex_id \<mapsto> ex_cell_v 1 (VNull :: unit Value)]" and ?n = "ex_cell_v 1 (VBool True) :: unit OwnedCell"
  have s: "so_read map_ops ?st ex_id = Some (Inr (ex_cell_v 1 VNull))"
    "so_update_by map_ops ex_id (unchanged_since (ex_cell_v 1 VNull) ?n) ?st = Some (Inr (bump ?n), [ex_id \<mapsto> bump ?n])"
    "so_read map_ops [ex_id \<mapsto> bump ?n] ex_id = Some (Inr (bump ?n))"
    by (simp_all add: map_ops_def unchanged_since_def)
  obtain dm1 where p: "prepare_read nat_clocks 0 4 0 2 ex_id (DataManager_new 0 ?st :: (nat, unit, Id \<Rightarrow> unit OwnedCell option) DataManager) =
      (Inr () :: (unit OwnedCell, ReadError) TxnExecResult + unit, dm1)"
    by (simp add: prepare_read_def Let_def case_prod_beta DataManager_new_def update_clock_def get_transaction_def
        cell_meta_mutex_def CellMeta_new_def put_txn_def put_meta_def)
  from read_sees_later_commit [OF nat_clocks_ok _ _ s p, of 3] p show ?thesis by auto
qed

end
