(* ===== verification/Neb_Txn_Manager.thy ===== *)
theory Neb_Txn_Manager
  imports Neb_Txn_Site
begin

text \<open>
  The transaction manager, \<^verbatim>\<open>src/src/server/transactions/manager.rs\<close>, together with the data
  sites it coordinates. A transaction buffers its cells until it is prepared; preparing sends the
  affected cells to their sites and commits them there, committing ends the transaction at the sites,
  aborting rolls back and ends it. Requests to several sites run in the order of the map that lists
  them. A call that waits for a wake-up it has not received is \<open>Suspended\<close>; a panic is
  \<open>None\<close>. Which server holds a cell, whether a connection to it can be made and whether its
  answer arrives are the fields of \<open>Net\<close>.
\<close>

section \<open>State\<close>

record 'p DataObject =
  do_server :: u64
  do_cell :: "'p OwnedCell option"
  do_version :: "u64 option"
  do_changed :: bool
  do_new :: bool

type_synonym 'p AffectedObjs = "(u64 \<times> (Id \<times> 'p DataObject) list) list"

record 'p TMTxn =
  tt_data :: "(Id \<times> 'p DataObject) list"
  tt_affected_objects :: "'p AffectedObjs"
  tt_state :: TxnState

text \<open>The manager and the sites. The buffered wake-ups of each transaction and server are the tokens in
  the channel of \<^verbatim>\<open>AwaitingServer\<close>, which holds one.\<close>

record ('tid, 'p, 'st) Cluster =
  tm_server_id :: u64
  tm_clock :: 'tid
  tm_transactions :: "'tid \<Rightarrow> 'p TMTxn option"
  tm_awaits :: "'tid \<Rightarrow> u64 \<Rightarrow> nat"
  tm_sites :: "u64 \<Rightarrow> ('tid, 'p, 'st) DataManager option"

record Net =
  get_server_id_by_id :: "Id \<Rightarrow> u64 option"
  site_reachable :: "u64 \<Rightarrow> bool"
  site_answers :: "u64 \<Rightarrow> bool"

datatype 'a outcome = Done 'a | Suspended u64

type_synonym ('r, 'tid, 'p, 'st) tm_call = "((TMError + 'r) outcome \<times> ('tid, 'p, 'st) Cluster) option"

section \<open>Wake-ups\<close>

definition awaits_token :: "('tid, 'p, 'st) Cluster \<Rightarrow> 'tid \<Rightarrow> u64 \<Rightarrow> bool" where
  "awaits_token cl tid sid = (tm_awaits cl tid sid > 0)"

text \<open>\<^verbatim>\<open>AwaitingServer::wait\<close> when a token is there, and \<^verbatim>\<open>send\<close> when there is
  room.\<close>

definition awaits_take :: "'tid \<Rightarrow> u64 \<Rightarrow> ('tid, 'p, 'st) Cluster \<Rightarrow> ('tid, 'p, 'st) Cluster" where
  "awaits_take tid sid cl = cl\<lparr>tm_awaits := (tm_awaits cl)(tid := (tm_awaits cl tid)(sid := tm_awaits cl tid sid - 1))\<rparr>"

definition awaits_send :: "'tid \<Rightarrow> u64 \<Rightarrow> ('tid, 'p, 'st) Cluster \<Rightarrow> ('tid, 'p, 'st) Cluster option" where
  "awaits_send tid sid cl =
     (if tm_awaits cl tid sid < 1
      then Some (cl\<lparr>tm_awaits := (tm_awaits cl)(tid := (tm_awaits cl tid)(sid := tm_awaits cl tid sid + 1))\<rparr>)
      else None)"

text \<open>\<^verbatim>\<open>go_ahead\<close>: the sends run concurrently, so those with room happen even when another one
  waits.\<close>

fun go_ahead :: "'tid list \<Rightarrow> u64 \<Rightarrow> ('tid, 'p, 'st) Cluster \<Rightarrow> unit outcome \<times> ('tid, 'p, 'st) Cluster" where
  "go_ahead [] sid cl = (Done (), cl)"
| "go_ahead (tid # tids) sid cl =
     (case awaits_send tid sid cl of
        Some cl' \<Rightarrow> go_ahead tids sid cl'
      | None \<Rightarrow> (Suspended sid, snd (go_ahead tids sid cl)))"

section \<open>Calls to a site\<close>

definition merge_clock :: "'tid Clocks \<Rightarrow> 'tid \<Rightarrow> ('tid, 'p, 'st) Cluster \<Rightarrow> ('tid, 'p, 'st) Cluster" where
  "merge_clock K clk cl = cl\<lparr>tm_clock := ck_merge K (tm_clock cl) clk\<rparr>"

text \<open>A remote call of the handler \<open>f\<close> at a site: \<open>Inl ()\<close> when no answer arrives, and then the
  handler has not run.\<close>

definition call_site ::
  "Net \<Rightarrow> u64 \<Rightarrow> (('tid, 'p, 'st) DataManager \<Rightarrow> ('r \<times> ('tid, 'p, 'st) DataManager) option)
     \<Rightarrow> ('tid, 'p, 'st) Cluster \<Rightarrow> ((unit + 'r) \<times> ('tid, 'p, 'st) Cluster) option" where
  "call_site N sid f cl =
     (if \<not> site_answers N sid then Some (Inl (), cl)
      else case tm_sites cl sid of
             None \<Rightarrow> Some (Inl (), cl)
           | Some dm \<Rightarrow>
               map_option (\<lambda>(r, dm'). (Inr r, cl\<lparr>tm_sites := (tm_sites cl)(sid \<mapsto> dm')\<rparr>)) (f dm))"

text \<open>The loop of the reads and of \<^verbatim>\<open>site_prepare\<close>: on \<^verbatim>\<open>Wait\<close> it takes a wake-up and
  asks again. Each turn takes a token, so the number of tokens bounds the turns.\<close>

fun retry_loop ::
  "'tid Clocks \<Rightarrow> Net \<Rightarrow> nat \<Rightarrow> ('r \<Rightarrow> bool) \<Rightarrow> 'tid \<Rightarrow> u64
     \<Rightarrow> ('tid \<Rightarrow> ('tid, 'p, 'st) DataManager \<Rightarrow> (('r, 'tid) DataSiteResponse \<times> ('tid, 'p, 'st) DataManager) option)
     \<Rightarrow> ('tid, 'p, 'st) Cluster \<Rightarrow> ('r, 'tid, 'p, 'st) tm_call" where
  "retry_loop K N n is_wait tid sid f cl =
     (case call_site N sid (f (tm_clock cl)) cl of
        None \<Rightarrow> None
      | Some (Inl _, cl') \<Rightarrow> Some (Done (Inl TM_RPCErrorFromCellServer), cl')
      | Some (Inr dsr, cl') \<Rightarrow>
          (let cl1 = merge_clock K (resp_clock dsr) cl'
           in if is_wait (payload dsr)
              then (if awaits_token cl1 tid sid
                    then (case n of
                            0 \<Rightarrow> Some (Suspended sid, cl1)
                          | Suc m \<Rightarrow> retry_loop K N m is_wait tid sid f (awaits_take tid sid cl1))
                    else Some (Suspended sid, cl1))
              else Some (Done (Inr (payload dsr)), cl1)))"

definition from_site ::
  "'tid Clocks \<Rightarrow> Net \<Rightarrow> ('r \<Rightarrow> bool) \<Rightarrow> 'tid \<Rightarrow> u64
     \<Rightarrow> ('tid \<Rightarrow> ('tid, 'p, 'st) DataManager \<Rightarrow> (('r, 'tid) DataSiteResponse \<times> ('tid, 'p, 'st) DataManager) option)
     \<Rightarrow> ('tid, 'p, 'st) Cluster \<Rightarrow> ('r, 'tid, 'p, 'st) tm_call" where
  "from_site K N is_wait tid sid f cl = retry_loop K N (tm_awaits cl tid sid) is_wait tid sid f cl"

definition is_TER_Wait :: "('a, 'e) TxnExecResult \<Rightarrow> bool" where
  "is_TER_Wait r = (case r of TER_Wait \<Rightarrow> True | _ \<Rightarrow> False)"

section \<open>Transactions\<close>

definition tm_get_transaction :: "'tid \<Rightarrow> ('tid, 'p, 'st) Cluster \<Rightarrow> TMError + 'p TMTxn" where
  "tm_get_transaction tid cl = (case tm_transactions cl tid of Some t \<Rightarrow> Inr t | None \<Rightarrow> Inl TM_TransactionNotFound)"

definition ensure_txn_state :: "'p TMTxn \<Rightarrow> TxnState \<Rightarrow> TMError option" where
  "ensure_txn_state t s = (if tt_state t = s then None else Some (TM_InvalidTransactionState (tt_state t)))"

definition ensure_rw_state :: "'p TMTxn \<Rightarrow> TMError option" where
  "ensure_rw_state t = ensure_txn_state t Started"

definition put_tm_txn :: "'tid \<Rightarrow> 'p TMTxn \<Rightarrow> ('tid, 'p, 'st) Cluster \<Rightarrow> ('tid, 'p, 'st) Cluster" where
  "put_tm_txn tid t cl = cl\<lparr>tm_transactions := (tm_transactions cl)(tid \<mapsto> t)\<rparr>"

definition cleanup_transaction :: "'tid \<Rightarrow> ('tid, 'p, 'st) Cluster \<Rightarrow> ('tid, 'p, 'st) Cluster" where
  "cleanup_transaction tid cl = cl\<lparr>tm_transactions := (tm_transactions cl)(tid := None)\<rparr>"

text \<open>The transaction a call works on, in the state reads and writes need.\<close>

definition rw_txn :: "'tid \<Rightarrow> ('tid, 'p, 'st) Cluster \<Rightarrow> TMError + 'p TMTxn" where
  "rw_txn tid cl =
     (case tm_get_transaction tid cl of
        Inl e \<Rightarrow> Inl e
      | Inr t \<Rightarrow> (case ensure_rw_state t of Some e \<Rightarrow> Inl e | None \<Rightarrow> Inr t))"

definition get_data_site_by_id :: "Net \<Rightarrow> Id \<Rightarrow> u64 option" where
  "get_data_site_by_id N i =
     (case get_server_id_by_id N i of
        Some sid \<Rightarrow> if site_reachable N sid then Some sid else None
      | None \<Rightarrow> None)"

text \<open>\<^verbatim>\<open>begin\<close>: the new identifier; inserting replaces a transaction of the same identifier
  before the error is reported.\<close>

definition tm_begin :: "'tid Clocks \<Rightarrow> ('tid, 'p, 'st) Cluster \<Rightarrow> (TMError + 'tid) \<times> ('tid, 'p, 'st) Cluster" where
  "tm_begin K cl =
     (let tid = ck_inc K (tm_clock cl);
          cl1 = put_tm_txn tid \<lparr>tt_data = [], tt_affected_objects = [], tt_state = Started\<rparr> (cl\<lparr>tm_clock := tid\<rparr>)
      in (if tm_transactions cl tid \<noteq> None then Inl TM_TransactionIdExisted else Inr tid, cl1))"

section \<open>Reads\<close>

definition tm_read ::
  "'tid Clocks \<Rightarrow> Net \<Rightarrow> ('st, 'p) StoreOps \<Rightarrow> int \<Rightarrow> 'tid \<Rightarrow> Id \<Rightarrow> ('tid, 'p, 'st) Cluster
     \<Rightarrow> (('p OwnedCell, ReadError) TxnExecResult, 'tid, 'p, 'st) tm_call" where
  "tm_read K N D now tid i cl =
     (case rw_txn tid cl of
        Inl e \<Rightarrow> Some (Done (Inl e), cl)
      | Inr t \<Rightarrow>
          (case map_of (tt_data t) i of
             Some obj \<Rightarrow>
               (case do_cell obj of
                  Some c \<Rightarrow> Some (Done (Inr (TER_Accepted c)), cl)
                | None \<Rightarrow> Some (Done (Inr (TER_Error RE_CellDoesNotExisted)), cl))
           | None \<Rightarrow>
               (case get_data_site_by_id N i of
                  None \<Rightarrow> Some (Done (Inl TM_CannotLocateCellServer), cl)
                | Some sid \<Rightarrow>
                    (case from_site K N is_TER_Wait tid sid
                            (\<lambda>clk dm. site_read K D now (tm_server_id cl) clk tid i dm) cl of
                       None \<Rightarrow> None
                     | Some (Done (Inr (TER_Accepted c)), cl') \<Rightarrow>
                         Some (Done (Inr (TER_Accepted c)),
                           put_tm_txn tid (t\<lparr>tt_data := AList.update i
                               \<lparr>do_server = sid, do_cell = Some c, do_version = Some (version (header c)),
                                do_changed = False, do_new = False\<rparr> (tt_data t)\<rparr>) cl')
                     | Some r \<Rightarrow> Some r))))"

definition tm_head ::
  "'tid Clocks \<Rightarrow> Net \<Rightarrow> ('st, 'p) StoreOps \<Rightarrow> int \<Rightarrow> 'tid \<Rightarrow> Id \<Rightarrow> ('tid, 'p, 'st) Cluster
     \<Rightarrow> ((CellHeader, ReadError) TxnExecResult, 'tid, 'p, 'st) tm_call" where
  "tm_head K N D now tid i cl =
     (case rw_txn tid cl of
        Inl e \<Rightarrow> Some (Done (Inl e), cl)
      | Inr t \<Rightarrow>
          (case map_of (tt_data t) i of
             Some obj \<Rightarrow>
               (case do_cell obj of
                  Some c \<Rightarrow> Some (Done (Inr (TER_Accepted (header c))), cl)
                | None \<Rightarrow> Some (Done (Inr (TER_Error RE_CellDoesNotExisted)), cl))
           | None \<Rightarrow>
               (case get_data_site_by_id N i of
                  None \<Rightarrow> Some (Done (Inl TM_CannotLocateCellServer), cl)
                | Some sid \<Rightarrow>
                    from_site K N is_TER_Wait tid sid
                      (\<lambda>clk dm. site_head K D now (tm_server_id cl) clk tid i dm) cl)))"

text \<open>\<^verbatim>\<open>read_selected\<close> on a cell in the buffer: one selected field is returned alone, several as
  an array. \<^verbatim>\<open>get_in_by_ids\<close> of the value library is the argument \<open>get_in\<close>.\<close>

fun select_fields :: "('p Value \<Rightarrow> u64 list \<Rightarrow> 'p Value) \<Rightarrow> Schema \<Rightarrow> 'p Value \<Rightarrow> bool \<Rightarrow> u64 list \<Rightarrow> 'p Value list \<Rightarrow> 'p Value" where
  "select_fields get_in sch v single [] res = VArray res"
| "select_fields get_in sch v single (k # ks) res =
     (case id_index sch k of
        Some path \<Rightarrow>
          (if single then get_in v path
           else select_fields get_in sch v single ks (res @ [get_in v path]))
      | None \<Rightarrow> select_fields get_in sch v single ks (res @ [VNull]))"

definition select_buffered ::
  "('p Value \<Rightarrow> u64 list \<Rightarrow> 'p Value) \<Rightarrow> SchemasMap \<Rightarrow> 'p OwnedCell \<Rightarrow> u64 list \<Rightarrow> ('p Value, ReadError) TxnExecResult" where
  "select_buffered get_in sm c ks =
     (case SchemasMap_get sm (schema (header c)) of
        None \<Rightarrow> TER_Error (RE_SchemaDoesNotExisted (schema (header c)))
      | Some sch \<Rightarrow>
          (case data c of
             VMap _ _ \<Rightarrow> TER_Accepted (select_fields get_in sch (data c) (length ks = 1) ks [])
           | _ \<Rightarrow> TER_Error RE_CellTypeIsNotMapForSelect))"

definition tm_read_selected ::
  "'tid Clocks \<Rightarrow> Net \<Rightarrow> ('st, 'p) StoreOps \<Rightarrow> ('p Value \<Rightarrow> u64 list \<Rightarrow> 'p Value) \<Rightarrow> SchemasMap \<Rightarrow> int \<Rightarrow> 'tid \<Rightarrow> Id \<Rightarrow> u64 list
     \<Rightarrow> ('tid, 'p, 'st) Cluster \<Rightarrow> (('p Value, ReadError) TxnExecResult, 'tid, 'p, 'st) tm_call" where
  "tm_read_selected K N D get_in sm now tid i ks cl =
     (case rw_txn tid cl of
        Inl e \<Rightarrow> Some (Done (Inl e), cl)
      | Inr t \<Rightarrow>
          (case map_of (tt_data t) i of
             Some obj \<Rightarrow>
               (case do_cell obj of
                  Some c \<Rightarrow> Some (Done (Inr (select_buffered get_in sm c ks)), cl)
                | None \<Rightarrow> Some (Done (Inr (TER_Error RE_CellDoesNotExisted)), cl))
           | None \<Rightarrow>
               (case get_data_site_by_id N i of
                  None \<Rightarrow> Some (Done (Inl TM_CannotLocateCellServer), cl)
                | Some sid \<Rightarrow>
                    from_site K N is_TER_Wait tid sid
                      (\<lambda>clk dm. site_read_selected K D now (tm_server_id cl) clk tid i ks dm) cl)))"

section \<open>Buffered writes\<close>

definition tm_write ::
  "Net \<Rightarrow> 'tid \<Rightarrow> 'p OwnedCell \<Rightarrow> ('tid, 'p, 'st) Cluster
     \<Rightarrow> (TMError + (unit, 'p WriteError) TxnExecResult) \<times> ('tid, 'p, 'st) Cluster" where
  "tm_write N tid c cl =
     (case rw_txn tid cl of
        Inl e \<Rightarrow> (Inl e, cl)
      | Inr t \<Rightarrow>
          (case get_server_id_by_id N (cell_id c) of
             None \<Rightarrow> (Inl TM_CannotLocateCellServer, cl)
           | Some sid \<Rightarrow>
               (case map_of (tt_data t) (cell_id c) of
                  None \<Rightarrow>
                    (Inr (TER_Accepted ()), put_tm_txn tid (t\<lparr>tt_data := AList.update (cell_id c)
                        \<lparr>do_server = sid, do_cell = Some c, do_version = None, do_changed = True, do_new = True\<rparr> (tt_data t)\<rparr>) cl)
                | Some obj \<Rightarrow>
                    if do_cell obj \<noteq> None then (Inr (TER_Error WE_CellAlreadyExisted), cl)
                    else (Inr (TER_Accepted ()), put_tm_txn tid (t\<lparr>tt_data := AList.update (cell_id c)
                        (obj\<lparr>do_cell := Some c, do_changed := True\<rparr>) (tt_data t)\<rparr>) cl))))"

definition tm_update ::
  "Net \<Rightarrow> 'tid \<Rightarrow> 'p OwnedCell \<Rightarrow> ('tid, 'p, 'st) Cluster
     \<Rightarrow> (TMError + (unit, 'p WriteError) TxnExecResult) \<times> ('tid, 'p, 'st) Cluster" where
  "tm_update N tid c cl =
     (case rw_txn tid cl of
        Inl e \<Rightarrow> (Inl e, cl)
      | Inr t \<Rightarrow>
          (case get_server_id_by_id N (cell_id c) of
             None \<Rightarrow> (Inl TM_CannotLocateCellServer, cl)
           | Some sid \<Rightarrow>
               (let obj = (case map_of (tt_data t) (cell_id c) of
                             Some obj \<Rightarrow> obj\<lparr>do_cell := Some c, do_changed := True\<rparr>
                           | None \<Rightarrow> \<lparr>do_server = sid, do_cell = Some c, do_version = None, do_changed = True, do_new = False\<rparr>)
                in (Inr (TER_Accepted ()),
                    put_tm_txn tid (t\<lparr>tt_data := AList.update (cell_id c) obj (tt_data t)\<rparr>) cl))))"

definition tm_remove ::
  "Net \<Rightarrow> 'tid \<Rightarrow> Id \<Rightarrow> ('tid, 'p, 'st) Cluster
     \<Rightarrow> (TMError + (unit, 'p WriteError) TxnExecResult) \<times> ('tid, 'p, 'st) Cluster" where
  "tm_remove N tid i cl =
     (case rw_txn tid cl of
        Inl e \<Rightarrow> (Inl e, cl)
      | Inr t \<Rightarrow>
          (case get_server_id_by_id N i of
             None \<Rightarrow> (Inl TM_CannotLocateCellServer, cl)
           | Some sid \<Rightarrow>
               (case map_of (tt_data t) i of
                  Some obj \<Rightarrow>
                    if do_cell obj = None then (Inr (TER_Error WE_CellDoesNotExisted), cl)
                    else if do_new obj
                    then (Inr (TER_Accepted ()), put_tm_txn tid (t\<lparr>tt_data := AList.delete i (tt_data t)\<rparr>) cl)
                    else (Inr (TER_Accepted ()), put_tm_txn tid (t\<lparr>tt_data := AList.update i
                        (obj\<lparr>do_cell := None, do_changed := True\<rparr>) (tt_data t)\<rparr>) cl)
                | None \<Rightarrow>
                    (Inr (TER_Accepted ()), put_tm_txn tid (t\<lparr>tt_data := AList.update i
                        \<lparr>do_server = sid, do_cell = None, do_version = None, do_changed = True, do_new = False\<rparr> (tt_data t)\<rparr>) cl))))"

section \<open>Prepare\<close>

text \<open>\<^verbatim>\<open>generate_affected_objs\<close>: the buffered objects by server, and an empty buffer.\<close>

definition id_less :: "Id \<Rightarrow> Id \<Rightarrow> bool" where
  "id_less a b = (higher a < higher b \<or> higher a = higher b \<and> lower a < lower b)"

definition add_affected :: "Id \<times> 'p DataObject \<Rightarrow> 'p AffectedObjs \<Rightarrow> 'p AffectedObjs" where
  "add_affected p aff =
     (case p of (i, obj) \<Rightarrow>
        (let objs = (case map_of aff (do_server obj) of Some os \<Rightarrow> os | None \<Rightarrow> [])
         in bmap_insert (<) (do_server obj) (bmap_insert id_less i obj objs) aff))"

definition generate_affected_objs :: "'p TMTxn \<Rightarrow> 'p TMTxn" where
  "generate_affected_objs t = t\<lparr>tt_data := [], tt_affected_objects := fold add_affected (tt_data t) []\<rparr>"

definition data_sites_for_objs :: "Net \<Rightarrow> 'p AffectedObjs \<Rightarrow> TMError option" where
  "data_sites_for_objs N aff =
     (if \<forall>(sid, _) \<in> set aff. site_reachable N sid then None else Some TM_CannotLocateCellServer)"

definition is_DMP_Wait :: "DMPrepareResult \<Rightarrow> bool" where
  "is_DMP_Wait r = (r = DMP_Wait)"

definition tm_site_prepare ::
  "'tid Clocks \<Rightarrow> Net \<Rightarrow> int \<Rightarrow> 'tid \<Rightarrow> u64 \<Rightarrow> (Id \<times> 'p DataObject) list \<Rightarrow> ('tid, 'p, 'st) Cluster
     \<Rightarrow> (DMPrepareResult, 'tid, 'p, 'st) tm_call" where
  "tm_site_prepare K N now tid sid objs cl =
     from_site K N is_DMP_Wait tid sid (\<lambda>clk dm. site_prepare K now clk tid (map fst objs) dm) cl"

text \<open>All sites are asked. The result is an answer that is not a success, when there is one; a site
  that still waits does not hold it back.\<close>

definition join_prepare ::
  "(TMError + DMPrepareResult) outcome \<Rightarrow> (TMError + DMPrepareResult) outcome \<Rightarrow> (TMError + DMPrepareResult) outcome" where
  "join_prepare r r' =
     (if r = Done (Inr DMP_Success) then r'
      else case r of
             Done _ \<Rightarrow> r
           | Suspended _ \<Rightarrow> (case r' of Done x \<Rightarrow> if x = Inr DMP_Success then r else r' | Suspended _ \<Rightarrow> r))"

fun sites_prepare ::
  "'tid Clocks \<Rightarrow> Net \<Rightarrow> int \<Rightarrow> 'tid \<Rightarrow> 'p AffectedObjs \<Rightarrow> ('tid, 'p, 'st) Cluster
     \<Rightarrow> (DMPrepareResult, 'tid, 'p, 'st) tm_call" where
  "sites_prepare K N now tid [] cl = Some (Done (Inr DMP_Success), cl)"
| "sites_prepare K N now tid ((sid, objs) # aff) cl =
     (case tm_site_prepare K N now tid sid objs cl of
        None \<Rightarrow> None
      | Some (r, cl1) \<Rightarrow>
          (case sites_prepare K N now tid aff cl1 of
             None \<Rightarrow> None
           | Some (r', cl2) \<Rightarrow> Some (join_prepare r r', cl2)))"

text \<open>The operation sent for an object; \<open>None\<close> is the panic of the unwrap.\<close>

definition commit_op_of :: "Id \<Rightarrow> 'p DataObject \<Rightarrow> 'p CommitOp option" where
  "commit_op_of i obj =
     (if do_version obj \<noteq> None \<and> \<not> do_changed obj then Some (CO_Read i (the (do_version obj)))
      else if do_cell obj = None \<and> \<not> do_new obj then Some (CO_Remove i)
      else if do_new obj then map_option CO_Write (do_cell obj)
      else map_option CO_Update (do_cell obj))"

fun commit_ops_of :: "(Id \<times> 'p DataObject) list \<Rightarrow> 'p CommitOp list option" where
  "commit_ops_of [] = Some []"
| "commit_ops_of ((i, obj) # objs) =
     (case commit_op_of i obj of
        None \<Rightarrow> None
      | Some op \<Rightarrow> map_option ((#) op) (commit_ops_of objs))"

text \<open>The requests of a commit, an abort or an end go out to all sites with the clock of the manager;
  the answers are looked at when all have arrived.\<close>

fun call_sites ::
  "Net \<Rightarrow> (u64 \<times> (('tid, 'p, 'st) DataManager \<Rightarrow> ('r \<times> ('tid, 'p, 'st) DataManager) option)) list
     \<Rightarrow> ('tid, 'p, 'st) Cluster \<Rightarrow> ((unit + 'r) list \<times> ('tid, 'p, 'st) Cluster) option" where
  "call_sites N [] cl = Some ([], cl)"
| "call_sites N ((sid, f) # calls) cl =
     (case call_site N sid f cl of
        None \<Rightarrow> None
      | Some (r, cl1) \<Rightarrow> map_option (\<lambda>(rs, cl2). (r # rs, cl2)) (call_sites N calls cl1))"

fun commit_answers ::
  "'tid Clocks \<Rightarrow> (unit + ('p DMCommitResult, 'tid) DataSiteResponse) list \<Rightarrow> ('tid, 'p, 'st) Cluster
     \<Rightarrow> (TMError + 'p DMCommitResult) \<times> ('tid, 'p, 'st) Cluster" where
  "commit_answers K [] cl = (Inr DMC_Success, cl)"
| "commit_answers K (Inl _ # rs) cl = (Inl TM_RPCErrorFromCellServer, cl)"
| "commit_answers K (Inr dsr # rs) cl =
     (let cl1 = merge_clock K (resp_clock dsr) cl
      in if payload dsr = DMC_Success then commit_answers K rs cl1 else (Inr (payload dsr), cl1))"

fun sites_ops :: "'p AffectedObjs \<Rightarrow> (u64 \<times> 'p CommitOp list) list option" where
  "sites_ops [] = Some []"
| "sites_ops ((sid, objs) # aff) =
     (case commit_ops_of objs of
        None \<Rightarrow> None
      | Some ops \<Rightarrow> map_option ((#) (sid, ops)) (sites_ops aff))"

definition sites_commit ::
  "'tid Clocks \<Rightarrow> Net \<Rightarrow> ('st, 'p) StoreOps \<Rightarrow> int \<Rightarrow> 'tid \<Rightarrow> 'p AffectedObjs \<Rightarrow> ('tid, 'p, 'st) Cluster
     \<Rightarrow> ((TMError + 'p DMCommitResult) \<times> ('tid, 'p, 'st) Cluster) option" where
  "sites_commit K N D now tid aff cl =
     (case sites_ops aff of
        None \<Rightarrow> None
      | Some opss \<Rightarrow>
          map_option (\<lambda>(rs, cl'). commit_answers K rs cl')
            (call_sites N (map (\<lambda>(sid, ops). (sid, site_commit K D now (tm_clock cl) tid ops)) opss) cl))"

definition tm_prepare ::
  "'tid Clocks \<Rightarrow> Net \<Rightarrow> ('st, 'p) StoreOps \<Rightarrow> int \<Rightarrow> 'tid \<Rightarrow> ('tid, 'p, 'st) Cluster
     \<Rightarrow> ('p TMPrepareResult, 'tid, 'p, 'st) tm_call" where
  "tm_prepare K N D now tid cl =
     (case rw_txn tid cl of
        Inl e \<Rightarrow> Some (Done (Inl e), cl)
      | Inr t0 \<Rightarrow>
          (let t = generate_affected_objs t0;
               aff = tt_affected_objects t;
               cl0 = put_tm_txn tid t cl
           in case data_sites_for_objs N aff of
                Some e \<Rightarrow> Some (Done (Inl e), cl0)
              | None \<Rightarrow>
                  (case sites_prepare K N now tid aff cl0 of
                     None \<Rightarrow> None
                   | Some (Suspended s, cl1) \<Rightarrow> Some (Suspended s, cl1)
                   | Some (Done (Inl e), cl1) \<Rightarrow> Some (Done (Inl e), cl1)
                   | Some (Done (Inr pr), cl1) \<Rightarrow>
                       if pr \<noteq> DMP_Success then Some (Done (Inr (TMP_DMPrepareError pr)), cl1)
                       else (case sites_commit K N D now tid aff cl1 of
                               None \<Rightarrow> None
                             | Some (Inl e, cl2) \<Rightarrow> Some (Done (Inl e), cl2)
                             | Some (Inr cr, cl2) \<Rightarrow>
                                 if cr = DMC_Success
                                 then Some (Done (Inr TMP_Success), put_tm_txn tid (t\<lparr>tt_state := Prepared\<rparr>) cl2)
                                 else Some (Done (Inr (TMP_DMCommitError cr)), cl2)))))"

section \<open>End and abort\<close>

fun end_answers ::
  "'tid Clocks \<Rightarrow> (unit + (EndResult, 'tid) DataSiteResponse) list \<Rightarrow> ('tid, 'p, 'st) Cluster
     \<Rightarrow> (TMError + EndResult) \<times> ('tid, 'p, 'st) Cluster" where
  "end_answers K [] cl = (Inr ER_Success, cl)"
| "end_answers K (Inl _ # rs) cl = (Inl TM_RPCErrorFromCellServer, cl)"
| "end_answers K (Inr dsr # rs) cl =
     (let cl1 = merge_clock K (resp_clock dsr) cl
      in if payload dsr = ER_Success then end_answers K rs cl1 else (Inr (payload dsr), cl1))"

text \<open>The wake-ups a site sends when a transaction ends are calls of \<open>go_ahead\<close> of the managers
  concerned and not part of this call.\<close>

definition sites_end ::
  "'tid Clocks \<Rightarrow> Net \<Rightarrow> int \<Rightarrow> 'tid \<Rightarrow> 'p AffectedObjs \<Rightarrow> ('tid, 'p, 'st) Cluster
     \<Rightarrow> ((TMError + EndResult) \<times> ('tid, 'p, 'st) Cluster) option" where
  "sites_end K N now tid aff cl =
     map_option (\<lambda>(rs, cl'). end_answers K rs cl')
       (call_sites N (map (\<lambda>(sid, _).
            (sid, \<lambda>dm. map_option (\<lambda>(r, _, dm'). (r, dm')) (site_end K now (tm_clock cl) tid dm))) aff) cl)"

text \<open>The answers to the aborts: the failures, or the answer that ends the call without ending the
  transaction at the sites.\<close>

fun abort_answers ::
  "'tid Clocks \<Rightarrow> (unit + ('p AbortResult, 'tid) DataSiteResponse) list \<Rightarrow> 'p RollbackFailure list \<Rightarrow> ('tid, 'p, 'st) Cluster
     \<Rightarrow> ((TMError + 'p AbortResult) + 'p RollbackFailure list) \<times> ('tid, 'p, 'st) Cluster" where
  "abort_answers K [] fs cl = (Inr fs, cl)"
| "abort_answers K (Inl _ # rs) fs cl = (Inl (Inl TM_AssertionError), cl)"
| "abort_answers K (Inr asr # rs) fs cl =
     (let cl1 = merge_clock K (resp_clock asr) cl
      in case payload asr of
           AR_Success (Some failures) \<Rightarrow> abort_answers K rs (fs @ failures) cl1
         | AR_Success None \<Rightarrow> abort_answers K rs fs cl1
         | AR_CheckFailed ce \<Rightarrow> (Inl (Inr (AR_CheckFailed ce)), cl1))"

definition sites_abort ::
  "'tid Clocks \<Rightarrow> Net \<Rightarrow> ('st, 'p) StoreOps \<Rightarrow> ('p CommitHistory \<Rightarrow> 'p CommitHistory) \<Rightarrow> int \<Rightarrow> 'tid \<Rightarrow> 'p AffectedObjs
     \<Rightarrow> ('tid, 'p, 'st) Cluster \<Rightarrow> ((TMError + 'p AbortResult) \<times> ('tid, 'p, 'st) Cluster) option" where
  "sites_abort K N D ord now tid aff cl =
     (case map_option (\<lambda>(rs, cl'). abort_answers K rs [] cl')
             (call_sites N (map (\<lambda>(sid, _). (sid, site_abort K D ord now (tm_clock cl) tid)) aff) cl) of
        None \<Rightarrow> None
      | Some (Inl r, cl1) \<Rightarrow> Some (r, cl1)
      | Some (Inr failures, cl1) \<Rightarrow>
          (case sites_end K N now tid aff cl1 of
             None \<Rightarrow> None
           | Some (Inl e, cl2) \<Rightarrow> Some (Inl e, cl2)
           | Some (Inr _, cl2) \<Rightarrow> Some (Inr (AR_Success (if failures = [] then None else Some failures)), cl2)))"

definition tm_commit ::
  "'tid Clocks \<Rightarrow> Net \<Rightarrow> int \<Rightarrow> 'tid \<Rightarrow> ('tid, 'p, 'st) Cluster \<Rightarrow> ((TMError + EndResult) \<times> ('tid, 'p, 'st) Cluster) option" where
  "tm_commit K N now tid cl =
     (case tm_get_transaction tid cl of
        Inl e \<Rightarrow> Some (Inl e, cl)
      | Inr t \<Rightarrow>
          (case ensure_txn_state t Prepared of
             Some e \<Rightarrow> Some (Inl e, cl)
           | None \<Rightarrow>
               (case data_sites_for_objs N (tt_affected_objects t) of
                  Some e \<Rightarrow> Some (Inl e, cl)
                | None \<Rightarrow>
                    map_option (\<lambda>(r, cl'). (r, cleanup_transaction tid cl'))
                      (sites_end K N now tid (tt_affected_objects t) cl))))"

definition tm_abort ::
  "'tid Clocks \<Rightarrow> Net \<Rightarrow> ('st, 'p) StoreOps \<Rightarrow> ('p CommitHistory \<Rightarrow> 'p CommitHistory) \<Rightarrow> int \<Rightarrow> 'tid \<Rightarrow> ('tid, 'p, 'st) Cluster
     \<Rightarrow> ((TMError + 'p AbortResult) \<times> ('tid, 'p, 'st) Cluster) option" where
  "tm_abort K N D ord now tid cl =
     (case tm_get_transaction tid cl of
        Inl e \<Rightarrow> Some (Inl e, cl)
      | Inr t \<Rightarrow>
          if tt_state t \<noteq> Aborted
          then (case data_sites_for_objs N (tt_affected_objects t) of
                  Some e \<Rightarrow> Some (Inl e, cl)
                | None \<Rightarrow>
                    map_option (\<lambda>(r, cl'). (r, cleanup_transaction tid cl'))
                      (sites_abort K N D ord now tid (tt_affected_objects t) cl))
          else Some (Inr (AR_Success None), cleanup_transaction tid cl))"

section \<open>Requests to the manager\<close>

datatype ('tid, 'p) tm_req =
    TR_Begin
  | TR_Read 'tid Id
  | TR_Head 'tid Id
  | TR_ReadSelected 'tid Id "u64 list"
  | TR_Write 'tid "'p OwnedCell"
  | TR_Update 'tid "'p OwnedCell"
  | TR_Remove 'tid Id
  | TR_Prepare 'tid
  | TR_Commit 'tid
  | TR_Abort 'tid
  | TR_GoAhead "'tid list" u64

fun tm_exec ::
  "'tid Clocks \<Rightarrow> Net \<Rightarrow> ('st, 'p) StoreOps \<Rightarrow> ('p Value \<Rightarrow> u64 list \<Rightarrow> 'p Value) \<Rightarrow> SchemasMap
     \<Rightarrow> ('p CommitHistory \<Rightarrow> 'p CommitHistory) \<Rightarrow> int \<Rightarrow> ('tid, 'p) tm_req \<Rightarrow> ('tid, 'p, 'st) Cluster \<Rightarrow> ('tid, 'p, 'st) Cluster option" where
  "tm_exec K N D get_in sm ord now TR_Begin cl = Some (snd (tm_begin K cl))"
| "tm_exec K N D get_in sm ord now (TR_Read tid i) cl = map_option snd (tm_read K N D now tid i cl)"
| "tm_exec K N D get_in sm ord now (TR_Head tid i) cl = map_option snd (tm_head K N D now tid i cl)"
| "tm_exec K N D get_in sm ord now (TR_ReadSelected tid i ks) cl = map_option snd (tm_read_selected K N D get_in sm now tid i ks cl)"
| "tm_exec K N D get_in sm ord now (TR_Write tid c) cl = Some (snd (tm_write N tid c cl))"
| "tm_exec K N D get_in sm ord now (TR_Update tid c) cl = Some (snd (tm_update N tid c cl))"
| "tm_exec K N D get_in sm ord now (TR_Remove tid i) cl = Some (snd (tm_remove N tid i cl))"
| "tm_exec K N D get_in sm ord now (TR_Prepare tid) cl = map_option snd (tm_prepare K N D now tid cl)"
| "tm_exec K N D get_in sm ord now (TR_Commit tid) cl = map_option snd (tm_commit K N now tid cl)"
| "tm_exec K N D get_in sm ord now (TR_Abort tid) cl = map_option snd (tm_abort K N D ord now tid cl)"
| "tm_exec K N D get_in sm ord now (TR_GoAhead tids sid) cl = Some (snd (go_ahead tids sid cl))"

text \<open>A step of the system, as one manager sees it: one of its requests, or the sites and the clock
  change under it by the requests of others.\<close>

inductive tm_step ::
  "Net \<Rightarrow> ('tid, 'p, 'st) Cluster \<Rightarrow> ('tid, 'p, 'st) Cluster \<Rightarrow> bool" for N where
  request: "tm_exec K N D get_in sm ord now req cl = Some cl' \<Longrightarrow> tm_step N cl cl'"
| others: "tm_step N cl (cl\<lparr>tm_sites := sites', tm_clock := clk'\<rparr>)"

inductive_cases tm_stepE: "tm_step N cl cl'"

section \<open>Lemmas: what calls to sites leave alone\<close>

lemma call_site_txns: "call_site N sid f cl = Some (r, cl') \<Longrightarrow> tm_transactions cl' = tm_transactions cl"
  by (auto simp: call_site_def split: if_splits option.splits)

lemma merge_clock_simps [simp]:
  "tm_transactions (merge_clock K clk cl) = tm_transactions cl" "tm_sites (merge_clock K clk cl) = tm_sites cl"
  by (simp_all add: merge_clock_def)

lemma awaits_take_simps [simp]: "tm_transactions (awaits_take tid sid cl) = tm_transactions cl"
  by (simp add: awaits_take_def)

lemma put_tm_txn_simps [simp]:
  "tm_transactions (put_tm_txn tid t cl) = (tm_transactions cl)(tid \<mapsto> t)" "tm_sites (put_tm_txn tid t cl) = tm_sites cl"
  "tm_clock (put_tm_txn tid t cl) = tm_clock cl" "tm_awaits (put_tm_txn tid t cl) = tm_awaits cl"
  by (simp_all add: put_tm_txn_def)

lemma cleanup_simps [simp]:
  "tm_transactions (cleanup_transaction tid cl) = (tm_transactions cl)(tid := None)" "tm_sites (cleanup_transaction tid cl) = tm_sites cl"
  by (simp_all add: cleanup_transaction_def)

declare retry_loop.simps [simp del]

lemma retry_loop_txns:
  assumes "retry_loop K N n w tid sid f cl = Some (r, cl')" shows "tm_transactions cl' = tm_transactions cl"
  using assms
proof (induction n arbitrary: cl)
  case 0
  then show ?case
    by (subst (asm) retry_loop.simps)
       (auto simp: Let_def dest!: call_site_txns split: option.splits prod.splits sum.splits if_splits)
next
  case (Suc n)
  from Suc.prems show ?case
    by (subst (asm) retry_loop.simps)
       (auto simp: Let_def dest!: call_site_txns Suc.IH split: option.splits prod.splits sum.splits if_splits)
qed

lemma from_site_txns: "from_site K N w tid sid f cl = Some (r, cl') \<Longrightarrow> tm_transactions cl' = tm_transactions cl"
  by (auto simp: from_site_def dest: retry_loop_txns)

lemma sites_prepare_txns: "sites_prepare K N now tid aff cl = Some (r, cl') \<Longrightarrow> tm_transactions cl' = tm_transactions cl"
  by (induction aff arbitrary: cl r)
     (auto simp: tm_site_prepare_def dest!: from_site_txns split: option.splits)

lemma call_sites_txns: "call_sites N calls cl = Some (rs, cl') \<Longrightarrow> tm_transactions cl' = tm_transactions cl"
  by (induction calls arbitrary: cl rs) (auto dest!: call_site_txns split: option.splits)

lemma commit_answersD:
  "commit_answers K rs cl = (x, cl') \<Longrightarrow> tm_transactions cl' = tm_transactions cl \<and> tm_sites cl' = tm_sites cl \<and>
    (x = Inr DMC_Success \<longrightarrow> (\<forall>r \<in> set rs. \<exists>dsr. r = Inr dsr \<and> payload dsr = DMC_Success))"
  by (induction K rs cl rule: commit_answers.induct) (auto simp: Let_def split: if_splits)

lemma end_answersD:
  "end_answers K rs cl = (x, cl') \<Longrightarrow> tm_transactions cl' = tm_transactions cl \<and> tm_sites cl' = tm_sites cl"
  by (induction K rs cl rule: end_answers.induct) (auto simp: Let_def split: if_splits)

lemma abort_answersD:
  "abort_answers K rs fs cl = (x, cl') \<Longrightarrow> tm_transactions cl' = tm_transactions cl \<and> tm_sites cl' = tm_sites cl \<and>
    (x = Inr [] \<longrightarrow> fs = [] \<and> (\<forall>r \<in> set rs. \<exists>asr. r = Inr asr \<and> (payload asr = AR_Success None \<or> payload asr = AR_Success (Some []))))"
  by (induction K rs fs cl rule: abort_answers.induct) (auto simp: Let_def split: AbortResult.splits option.splits)

lemma sites_commit_txns: "sites_commit K N D now tid aff cl = Some (r, cl') \<Longrightarrow> tm_transactions cl' = tm_transactions cl"
  by (auto simp: sites_commit_def dest!: call_sites_txns commit_answersD split: option.splits)

lemma sites_end_txns: "sites_end K N now tid aff cl = Some (r, cl') \<Longrightarrow> tm_transactions cl' = tm_transactions cl"
  by (auto simp: sites_end_def dest!: call_sites_txns end_answersD)

text \<open>The calls of an abort: the aborts at the sites, and the ends unless a site refuses.\<close>

lemma sites_abortE:
  assumes "sites_abort K N D ord now tid aff cl = Some (r, cl')"
  obtains rs cl1 x cl2 where
    "call_sites N (map (\<lambda>(sid, _). (sid, site_abort K D ord now (tm_clock cl) tid)) aff) cl = Some (rs, cl1)"
    "abort_answers K rs [] cl1 = (x, cl2)"
    "case x of Inl y \<Rightarrow> r = y \<and> cl' = cl2
     | Inr fs \<Rightarrow> \<exists>e. sites_end K N now tid aff cl2 = Some (e, cl') \<and>
         r = (case e of Inl err \<Rightarrow> Inl err | Inr _ \<Rightarrow> Inr (AR_Success (if fs = [] then None else Some fs)))"
proof -
  obtain rs cl1 where c: "call_sites N (map (\<lambda>(sid, _). (sid, site_abort K D ord now (tm_clock cl) tid)) aff) cl = Some (rs, cl1)"
    using assms by (auto simp: sites_abort_def split: option.splits)
  obtain x cl2 where a: "abort_answers K rs [] cl1 = (x, cl2)" by fastforce
  show thesis
    by (rule that [OF c a]) (use assms c a in \<open>auto simp: sites_abort_def split: option.splits sum.splits\<close>)
qed

lemma sites_abort_txns:
  assumes "sites_abort K N D ord now tid aff cl = Some (r, cl')" shows "tm_transactions cl' = tm_transactions cl"
proof -
  obtain rs cl1 x cl2 where c: "call_sites N (map (\<lambda>(sid, _). (sid, site_abort K D ord now (tm_clock cl) tid)) aff) cl = Some (rs, cl1)"
      "abort_answers K rs [] cl1 = (x, cl2)" and x: "case x of Inl y \<Rightarrow> r = y \<and> cl' = cl2
     | Inr fs \<Rightarrow> \<exists>e. sites_end K N now tid aff cl2 = Some (e, cl') \<and>
         r = (case e of Inl err \<Rightarrow> Inl err | Inr _ \<Rightarrow> Inr (AR_Success (if fs = [] then None else Some fs)))"
    using assms by (rule sites_abortE)
  have "cl' = cl2 \<or> (\<exists>e. sites_end K N now tid aff cl2 = Some (e, cl'))" using x by (cases x) auto
  then show ?thesis using call_sites_txns [OF c(1)] abort_answersD [OF c(2)] sites_end_txns by metis
qed

section \<open>Lemmas: the buffer\<close>

text \<open>The buffer of a transaction: an object that has not changed has a version, a new object has a
  cell, and a changed cell stands under its own identifier.\<close>

definition obj_ok :: "Id \<Rightarrow> 'p DataObject \<Rightarrow> bool" where
  "obj_ok i obj = ((do_changed obj \<or> do_version obj \<noteq> None) \<and> (do_new obj \<longrightarrow> do_cell obj \<noteq> None) \<and>
     (\<forall>c. do_changed obj \<longrightarrow> do_cell obj = Some c \<longrightarrow> cell_id c = i))"

definition buffer_ok :: "(Id \<times> 'p DataObject) list \<Rightarrow> bool" where
  "buffer_ok buf = (distinct (map fst buf) \<and> (\<forall>i obj. map_of buf i = Some obj \<longrightarrow> obj_ok i obj))"

definition cluster_ok :: "('tid, 'p, 'st) Cluster \<Rightarrow> bool" where
  "cluster_ok cl = (\<forall>tid t. tm_transactions cl tid = Some t \<longrightarrow>
     buffer_ok (tt_data t) \<and> tt_state t \<in> {Started, Prepared} \<and> (tt_state t = Prepared \<longrightarrow> tt_data t = []))"

lemma buffer_ok_Nil [simp]: "buffer_ok []"
  by (simp add: buffer_ok_def)

lemma buffer_ok_update: "buffer_ok buf \<Longrightarrow> obj_ok i obj \<Longrightarrow> buffer_ok (AList.update i obj buf)"
  by (auto simp: buffer_ok_def update_conv' distinct_update)

lemma buffer_ok_delete: "buffer_ok buf \<Longrightarrow> buffer_ok (AList.delete i buf)"
  by (auto simp: buffer_ok_def delete_conv' distinct_delete split: if_splits)

lemma buffer_ok_obj: "buffer_ok buf \<Longrightarrow> map_of buf i = Some obj \<Longrightarrow> obj_ok i obj"
  by (simp add: buffer_ok_def)

lemma cluster_okD: "cluster_ok cl \<Longrightarrow> tm_transactions cl tid = Some t \<Longrightarrow> buffer_ok (tt_data t)"
  by (auto simp: cluster_ok_def)

lemma cluster_ok_upd:
  assumes "cluster_ok cl" and "tm_transactions cl' = (tm_transactions cl)(tid \<mapsto> t)"
    and "buffer_ok (tt_data t)" "tt_state t = Started \<or> tt_state t = Prepared \<and> tt_data t = []"
  shows "cluster_ok cl'"
  unfolding cluster_ok_def
proof (intro allI impI)
  fix u x assume "tm_transactions cl' u = Some x"
  then show "buffer_ok (tt_data x) \<and> tt_state x \<in> {Started, Prepared} \<and> (tt_state x = Prepared \<longrightarrow> tt_data x = [])"
    using assms by (cases "u = tid") (auto simp: cluster_ok_def)
qed

lemma cluster_ok_put:
  "cluster_ok cl \<Longrightarrow> buffer_ok (tt_data t) \<Longrightarrow> tt_state t = Started \<or> tt_state t = Prepared \<and> tt_data t = [] \<Longrightarrow>
    cluster_ok (put_tm_txn tid t cl)"
  by (rule cluster_ok_upd) simp_all

lemma cluster_ok_same: "cluster_ok cl \<Longrightarrow> tm_transactions cl' = tm_transactions cl \<Longrightarrow> cluster_ok cl'"
  by (simp add: cluster_ok_def)

lemma rw_txnD: "rw_txn tid cl = Inr t \<Longrightarrow> tm_transactions cl tid = Some t \<and> tt_state t = Started"
  by (auto simp: rw_txn_def tm_get_transaction_def ensure_rw_state_def ensure_txn_state_def split: option.splits if_splits)

lemma rw_txnI: "tm_transactions cl tid = Some t \<Longrightarrow> tt_state t = Started \<Longrightarrow> rw_txn tid cl = Inr t"
  by (simp add: rw_txn_def tm_get_transaction_def ensure_rw_state_def ensure_txn_state_def)

lemma cluster_ok_read:
  assumes ok: "cluster_ok cl" and x: "tm_read K N D now tid i cl = Some (r, cl')"
  shows "cluster_ok cl'"
proof (cases "tm_transactions cl' = tm_transactions cl")
  case True
  then show ?thesis using ok by (rule cluster_ok_same [rotated])
next
  case False
  then obtain t sid c cl1 where t: "rw_txn tid cl = Inr t" "tm_transactions cl1 = tm_transactions cl"
      "cl' = put_tm_txn tid (t\<lparr>tt_data := AList.update i \<lparr>do_server = sid, do_cell = Some c,
         do_version = Some (version (header c)), do_changed = False, do_new = False\<rparr> (tt_data t)\<rparr>) cl1"
    using x by (auto simp: tm_read_def dest!: from_site_txns
        split: sum.splits option.splits outcome.splits TxnExecResult.splits)
  note tD = rw_txnD [OF t(1)]
  show ?thesis unfolding t(3)
    by (rule cluster_ok_put [OF cluster_ok_same [OF ok t(2)]])
       (use tD cluster_okD [OF ok] in \<open>auto intro!: buffer_ok_update simp: obj_ok_def\<close>)
qed

lemma cluster_ok_write: "cluster_ok cl \<Longrightarrow> cluster_ok (snd (tm_write N tid c cl))"
  by (auto simp: tm_write_def obj_ok_def dest!: rw_txnD dest: cluster_okD buffer_ok_obj
      intro!: cluster_ok_put buffer_ok_update split: sum.splits option.splits if_splits)

lemma cluster_ok_update: "cluster_ok cl \<Longrightarrow> cluster_ok (snd (tm_update N tid c cl))"
  by (auto simp: tm_update_def Let_def obj_ok_def dest!: rw_txnD dest: cluster_okD buffer_ok_obj
      intro!: cluster_ok_put buffer_ok_update split: sum.splits option.splits)

lemma cluster_ok_remove: "cluster_ok cl \<Longrightarrow> cluster_ok (snd (tm_remove N tid i cl))"
  by (auto simp: tm_remove_def obj_ok_def dest!: rw_txnD dest: cluster_okD buffer_ok_obj
      intro!: cluster_ok_put buffer_ok_update buffer_ok_delete split: sum.splits option.splits if_splits)

lemma cluster_ok_prepare:
  assumes ok: "cluster_ok cl" and x: "tm_prepare K N D now tid cl = Some (r, cl')"
  shows "cluster_ok cl'"
proof (cases "rw_txn tid cl")
  case (Inl e)
  then show ?thesis using x ok by (simp add: tm_prepare_def)
next
  case (Inr t)
  let ?t = "generate_affected_objs t"
  have 0: "tt_data ?t = []" "tt_state ?t = Started" using rw_txnD [OF Inr] by (simp_all add: generate_affected_objs_def)
  have "tm_transactions cl' = (tm_transactions cl)(tid \<mapsto> ?t) \<or> tm_transactions cl' = (tm_transactions cl)(tid \<mapsto> ?t\<lparr>tt_state := Prepared\<rparr>)"
    using x Inr by (auto simp: tm_prepare_def Let_def dest!: sites_prepare_txns sites_commit_txns
        split: option.splits outcome.splits sum.splits if_splits)
  then show ?thesis using 0 by (auto intro: cluster_ok_upd [OF ok])
qed

lemma go_ahead_txns: "tm_transactions (snd (go_ahead tids sid cl)) = tm_transactions cl"
  by (induction tids arbitrary: cl) (auto simp: awaits_send_def split: option.splits if_splits)

lemma cluster_ok_cleanup: "cluster_ok cl \<Longrightarrow> tm_transactions cl' = (tm_transactions cl)(tid := None) \<Longrightarrow> cluster_ok cl'"
  by (auto simp: cluster_ok_def)

lemma cluster_ok_exec:
  assumes ok: "cluster_ok cl" and x: "tm_exec K N D get_in sm ord now req cl = Some cl'"
  shows "cluster_ok cl'"
proof (cases req)
  case TR_Begin
  then have "tm_transactions cl' = (tm_transactions cl)(ck_inc K (tm_clock cl) \<mapsto>
      \<lparr>tt_data = [], tt_affected_objects = [], tt_state = Started\<rparr>)" using x by (auto simp: tm_begin_def Let_def)
  then show ?thesis by (rule cluster_ok_upd [OF ok]) simp_all
next
  case (TR_Head tid i)
  then show ?thesis using x by (auto simp: tm_head_def dest!: from_site_txns intro!: cluster_ok_same [OF ok]
        split: sum.splits option.splits)
next
  case (TR_ReadSelected tid i ks)
  then show ?thesis using x by (auto simp: tm_read_selected_def dest!: from_site_txns intro!: cluster_ok_same [OF ok]
        split: sum.splits option.splits)
next
  case (TR_Commit tid)
  then have "tm_transactions cl' = tm_transactions cl \<or> tm_transactions cl' = (tm_transactions cl)(tid := None)"
    using x by (auto simp: tm_commit_def dest!: sites_end_txns split: sum.splits option.splits)
  then show ?thesis using cluster_ok_same [OF ok] cluster_ok_cleanup [OF ok] by auto
next
  case (TR_Abort tid)
  then have "tm_transactions cl' = tm_transactions cl \<or> tm_transactions cl' = (tm_transactions cl)(tid := None)"
    using x by (auto simp: tm_abort_def dest!: sites_abort_txns split: sum.splits option.splits if_splits)
  then show ?thesis using cluster_ok_same [OF ok] cluster_ok_cleanup [OF ok] by auto
next
  case (TR_GoAhead tids sid)
  then show ?thesis using x by (auto intro!: cluster_ok_same [OF ok] go_ahead_txns)
qed (use x ok in \<open>auto intro: cluster_ok_read cluster_ok_write cluster_ok_update cluster_ok_remove cluster_ok_prepare\<close>)

lemma cluster_ok_steps:
  assumes "(tm_step N)\<^sup>*\<^sup>* cl cl'" and "cluster_ok cl" shows "cluster_ok cl'"
  using assms
proof (induction rule: rtranclp_induct)
  case (step y z)
  from step.hyps(2) step.IH [OF step.prems] show ?case
    by (elim tm_stepE) (auto intro: cluster_ok_exec cluster_ok_same)
qed simp

section \<open>Lemmas: the affected objects\<close>

definition aff_lookup :: "'p AffectedObjs \<Rightarrow> u64 \<Rightarrow> Id \<Rightarrow> 'p DataObject option" where
  "aff_lookup aff sid i = (case map_of aff sid of None \<Rightarrow> None | Some objs \<Rightarrow> map_of objs i)"

definition aff_sorted :: "'p AffectedObjs \<Rightarrow> bool" where
  "aff_sorted aff = (sorted_wrt (<) (map fst aff) \<and> (\<forall>(sid, objs) \<in> set aff. sorted_wrt id_less (map fst objs)))"

lemma id_less_order:
  "id_less a b \<Longrightarrow> id_less b c \<Longrightarrow> id_less a c" "a = b \<or> id_less a b \<or> id_less b a" "\<not> id_less a a"
  by (auto simp: id_less_def not_less order.order_iff_strict intro: Id.equality)

lemma set_bmap_insert: "set (bmap_insert lt k v xs) \<subseteq> insert (k, v) (set xs)"
  by (induction lt k v xs rule: bmap_insert.induct) auto

lemma aff_lookup_add [simp]:
  "aff_lookup (add_affected (i, obj) aff) sid j = (if sid = do_server obj \<and> j = i then Some obj else aff_lookup aff sid j)"
  by (auto simp: aff_lookup_def add_affected_def Let_def split: option.splits)

lemma aff_sorted_add: "aff_sorted aff \<Longrightarrow> aff_sorted (add_affected p aff)"
proof -
  assume s: "aff_sorted aff"
  obtain i obj where p: "p = (i, obj)" by (cases p)
  let ?objs = "case map_of aff (do_server obj) of Some os \<Rightarrow> os | None \<Rightarrow> []"
  have "sorted_wrt id_less (map fst ?objs)"
    using s by (auto simp: aff_sorted_def split: option.splits dest!: map_of_SomeD)
  then have o: "sorted_wrt id_less (map fst (bmap_insert id_less i obj ?objs))"
    using id_less_order by (intro bmap_insert_sorted) blast+
  have "sorted_wrt (<) (map fst (bmap_insert (<) (do_server obj) (bmap_insert id_less i obj ?objs) aff))"
    using s by (intro bmap_insert_sorted) (auto simp: aff_sorted_def)
  then show ?thesis
    using s o set_bmap_insert [of "(<)" "do_server obj" "bmap_insert id_less i obj ?objs" aff]
    unfolding p add_affected_def Let_def aff_sorted_def by auto
qed

lemma aff_sorted_fold: "aff_sorted aff \<Longrightarrow> aff_sorted (fold add_affected buf aff)"
  by (induction buf arbitrary: aff) (auto intro: aff_sorted_add)

lemma aff_lookup_fold:
  "distinct (map fst buf) \<Longrightarrow> aff_lookup (fold add_affected buf aff) sid i =
    (case map_of buf i of Some obj \<Rightarrow> if do_server obj = sid then Some obj else aff_lookup aff sid i | None \<Rightarrow> aff_lookup aff sid i)"
proof (induction buf arbitrary: aff)
  case (Cons p buf)
  obtain j obj where p: "p = (j, obj)" by (cases p)
  have "map_of buf j = None" using Cons.prems p by (auto simp: map_of_eq_None_iff)
  then show ?case using Cons p by (auto split: option.splits)
qed simp

text \<open>The objects of each site are the objects of the buffer that belong there, in order.\<close>

lemma generate_affected:
  fixes t :: "'p TMTxn"
  assumes "buffer_ok (tt_data t)"
  defines "aff \<equiv> tt_affected_objects (generate_affected_objs t)"
  shows "aff_sorted aff" "distinct (map fst aff)"
    "(sid, objs) \<in> set aff \<Longrightarrow> distinct (map fst objs) \<and> (\<forall>i obj. (i, obj) \<in> set objs \<longleftrightarrow> map_of (tt_data t) i = Some obj \<and> do_server obj = sid)"
    "map_of (tt_data t) i = Some obj \<Longrightarrow> \<exists>objs. (do_server obj, objs) \<in> set aff \<and> (i, obj) \<in> set objs"
proof -
  have d: "distinct (map fst (tt_data t))" using assms(1) by (simp add: buffer_ok_def)
  have l: "aff_lookup aff sid i = (case map_of (tt_data t) i of Some obj \<Rightarrow> if do_server obj = sid then Some obj else None | None \<Rightarrow> None)" for sid i
    using aff_lookup_fold [OF d, of "[]" sid i] by (auto simp: aff_def generate_affected_objs_def aff_lookup_def split: option.splits)
  show s: "aff_sorted aff"
    using aff_sorted_fold [of "[]" "tt_data t"] by (simp add: aff_def generate_affected_objs_def) (simp add: aff_sorted_def)
  show da: "distinct (map fst aff)" using s by (intro sorted_wrt_distinct [of "(<)"]) (auto simp: aff_sorted_def)
  { assume m: "(sid, objs) \<in> set aff"
    then have ds: "distinct (map fst objs)"
      using s id_less_order(3) by (intro sorted_wrt_distinct [of id_less]) (auto simp: aff_sorted_def)
    have mo: "map_of aff sid = Some objs" using da m by simp
    have "(i, obj) \<in> set objs \<longleftrightarrow> map_of (tt_data t) i = Some obj \<and> do_server obj = sid" for i obj
    proof -
      have "(i, obj) \<in> set objs \<longleftrightarrow> map_of objs i = Some obj" using ds by simp
      also have "\<dots> \<longleftrightarrow> aff_lookup aff sid i = Some obj" by (simp add: aff_lookup_def mo)
      also have "\<dots> \<longleftrightarrow> map_of (tt_data t) i = Some obj \<and> do_server obj = sid" by (auto simp: l split: option.splits)
      finally show ?thesis .
    qed
    with ds show "distinct (map fst objs) \<and> (\<forall>i obj. (i, obj) \<in> set objs \<longleftrightarrow> map_of (tt_data t) i = Some obj \<and> do_server obj = sid)"
      by blast }
  { assume "map_of (tt_data t) i = Some obj"
    then have "aff_lookup aff (do_server obj) i = Some obj" using l by simp
    then show "\<exists>objs. (do_server obj, objs) \<in> set aff \<and> (i, obj) \<in> set objs"
      by (auto simp: aff_lookup_def dest!: map_of_SomeD split: option.splits) }
qed

lemma commit_op_of_ok: "obj_ok i obj \<Longrightarrow> \<exists>op. commit_op_of i obj = Some op"
  by (auto simp: commit_op_of_def obj_ok_def)

lemma commit_ops_of_ok:
  "\<forall>(i, obj) \<in> set objs. obj_ok i obj \<Longrightarrow> \<exists>ops. commit_ops_of objs = Some ops"
  by (induction objs rule: commit_ops_of.induct) (auto dest!: commit_op_of_ok)

lemma sites_ops_ok:
  "\<forall>(sid, objs) \<in> set aff. \<forall>(i, obj) \<in> set objs. obj_ok i obj \<Longrightarrow> \<exists>opss. sites_ops aff = Some opss"
  by (induction aff rule: sites_ops.induct) (auto dest!: commit_ops_of_ok)

section \<open>Lemmas: answers of one site\<close>

lemma call_site_Inr:
  "call_site N sid f cl = Some (Inr x, cl') \<Longrightarrow>
    \<exists>dm dm'. tm_sites cl sid = Some dm \<and> f dm = Some (x, dm') \<and> tm_sites cl' = (tm_sites cl)(sid \<mapsto> dm')"
  by (auto simp: call_site_def split: if_splits option.splits)

lemma awaits_take_sites [simp]: "tm_sites (awaits_take tid sid cl) = tm_sites cl"
  by (simp add: awaits_take_def)

text \<open>A loop that returns an answer has just received it from the site.\<close>

lemma retry_loop_answer:
  assumes "retry_loop K N n w tid sid f cl = Some (Done (Inr x), cl')"
  shows "\<exists>clk dm dsr dm'. f clk dm = Some (dsr, dm') \<and> payload dsr = x \<and> tm_sites cl' sid = Some dm'"
  using assms
proof (induction n arbitrary: cl)
  case 0
  then show ?case
    by (subst (asm) retry_loop.simps)
       (force simp: Let_def dest!: call_site_Inr split: option.splits prod.splits sum.splits if_splits)
next
  case (Suc n)
  from Suc.prems show ?case
    by (subst (asm) retry_loop.simps)
       (force simp: Let_def dest!: call_site_Inr dest: Suc.IH split: option.splits prod.splits sum.splits if_splits)
qed

lemma site_read_txn:
  assumes "site_read K D now sid clk tid i dm = Some (dsr, dm')" shows "dm_txns dm' tid \<noteq> None"
  using assms by (auto simp: site_read_def prepare_read_def Let_def case_prod_beta dest!: guarded_read_snd split: if_splits)

section \<open>Lemmas: buffered cells\<close>

text \<open>The call has replaced the object of one identifier in the buffer, or dropped it.\<close>

definition buffered :: "('tid, 'p, 'st) Cluster \<Rightarrow> 'tid \<Rightarrow> Id \<Rightarrow> 'p DataObject option \<Rightarrow> ('tid, 'p, 'st) Cluster \<Rightarrow> bool" where
  "buffered cl tid i obj cl' = (\<exists>t t'. rw_txn tid cl = Inr t \<and> rw_txn tid cl' = Inr t' \<and>
     map_of (tt_data t') i = obj \<and> (\<forall>j. j \<noteq> i \<longrightarrow> map_of (tt_data t') j = map_of (tt_data t) j))"

lemma rw_txn_put: "rw_txn tid cl = Inr t \<Longrightarrow> rw_txn tid (put_tm_txn tid (t\<lparr>tt_data := buf\<rparr>) cl) = Inr (t\<lparr>tt_data := buf\<rparr>)"
  by (drule rw_txnD) (auto intro: rw_txnI)

lemma buffered_put:
  "rw_txn tid cl = Inr t \<Longrightarrow> map_of buf = (map_of (tt_data t))(i := obj) \<Longrightarrow>
    buffered cl tid i obj (put_tm_txn tid (t\<lparr>tt_data := buf\<rparr>) cl)"
  by (auto simp: buffered_def rw_txn_put)

lemma write_buffered:
  assumes "tm_write N tid c cl = (Inr (TER_Accepted ()), cl')"
  shows "\<exists>obj. do_cell obj = Some c \<and> buffered cl tid (cell_id c) (Some obj) cl'"
proof -
  obtain t where t: "rw_txn tid cl = Inr t" using assms by (auto simp: tm_write_def split: sum.splits)
  have "\<exists>obj. cl' = put_tm_txn tid (t\<lparr>tt_data := AList.update (cell_id c) obj (tt_data t)\<rparr>) cl \<and> do_cell obj = Some c"
    using assms t by (auto simp: tm_write_def split: option.splits if_splits intro!: exI conjI refl)
  then obtain obj where "cl' = put_tm_txn tid (t\<lparr>tt_data := AList.update (cell_id c) obj (tt_data t)\<rparr>) cl" "do_cell obj = Some c"
    by blast
  then show ?thesis using buffered_put [OF t, of "AList.update (cell_id c) obj (tt_data t)"] by (auto simp: update_conv')
qed

lemma update_buffered:
  assumes "tm_update N tid c cl = (Inr (TER_Accepted ()), cl')"
  shows "\<exists>obj. do_cell obj = Some c \<and> buffered cl tid (cell_id c) (Some obj) cl'"
proof -
  obtain t where t: "rw_txn tid cl = Inr t" using assms by (auto simp: tm_update_def split: sum.splits)
  have "\<exists>obj. cl' = put_tm_txn tid (t\<lparr>tt_data := AList.update (cell_id c) obj (tt_data t)\<rparr>) cl \<and> do_cell obj = Some c"
    using assms t by (auto simp: tm_update_def Let_def split: option.splits intro!: exI conjI refl)
  then obtain obj where "cl' = put_tm_txn tid (t\<lparr>tt_data := AList.update (cell_id c) obj (tt_data t)\<rparr>) cl" "do_cell obj = Some c"
    by blast
  then show ?thesis using buffered_put [OF t, of "AList.update (cell_id c) obj (tt_data t)"] by (auto simp: update_conv')
qed

lemma remove_buffered:
  assumes "tm_remove N tid i cl = (Inr (TER_Accepted ()), cl')"
  shows "(\<exists>obj. do_cell obj = None \<and> buffered cl tid i (Some obj) cl') \<or>
    (buffered cl tid i None cl' \<and> (\<exists>t obj. tm_transactions cl tid = Some t \<and> map_of (tt_data t) i = Some obj \<and> do_new obj))"
proof -
  obtain t where t: "rw_txn tid cl = Inr t" using assms by (auto simp: tm_remove_def split: sum.splits)
  note upd = buffered_put [OF t, of "AList.update i _ (tt_data t)"] and del = buffered_put [OF t, of "AList.delete i (tt_data t)"]
  obtain sid where sid: "get_server_id_by_id N i = Some sid" using assms t by (auto simp: tm_remove_def split: option.splits)
  show ?thesis
  proof (cases "map_of (tt_data t) i")
    case None
    then show ?thesis using assms t sid by (auto simp: tm_remove_def update_conv' intro!: exI conjI upd)
  next
    case (Some obj)
    show ?thesis
    proof (cases "do_new obj")
      case True
      then show ?thesis using assms t sid Some rw_txnD [OF t]
        by (auto simp: tm_remove_def delete_conv' intro!: del split: if_splits)
    next
      case False
      then show ?thesis using assms t sid Some
        by (auto simp: tm_remove_def update_conv' intro!: exI conjI upd split: if_splits)
    qed
  qed
qed

lemma buffered_others:
  assumes "buffered cl tid i obj cl'" and "tm_transactions cl tid = Some t" and "tm_transactions cl' tid = Some t'" and "j \<noteq> i"
  shows "map_of (tt_data t') j = map_of (tt_data t) j"
  using assms by (auto simp: buffered_def dest!: rw_txnD)

lemma buffered_read:
  assumes "buffered cl tid i (Some obj) cl'"
  shows "tm_read K N D now tid i cl' = Some (Done (Inr (case do_cell obj of Some c \<Rightarrow> TER_Accepted c | None \<Rightarrow> TER_Error RE_CellDoesNotExisted)), cl')"
    "tm_head K N D now tid i cl' = Some (Done (Inr (case do_cell obj of Some c \<Rightarrow> TER_Accepted (header c) | None \<Rightarrow> TER_Error RE_CellDoesNotExisted)), cl')"
  using assms by (auto simp: buffered_def tm_read_def tm_head_def split: option.split)

section \<open>A concrete cluster\<close>

text \<open>One site, reached by every identifier; transaction 5 has written a cell.\<close>

definition ex_net :: Net where
  "ex_net = \<lparr>get_server_id_by_id = (\<lambda>_. Some 1), site_reachable = (\<lambda>_. True), site_answers = (\<lambda>_. True)\<rparr>"

definition ex_cluster ::
  "(nat, unit, Id \<Rightarrow> unit OwnedCell option) DataManager \<Rightarrow> (nat, unit, Id \<Rightarrow> unit OwnedCell option) Cluster" where
  "ex_cluster dm = \<lparr>tm_server_id = 7, tm_clock = 4, tm_transactions = Map.empty, tm_awaits = (\<lambda>_ _. 0), tm_sites = [1 \<mapsto> dm]\<rparr>"

lemma ex_net_simps [simp]:
  "get_server_id_by_id ex_net i = Some 1" "site_reachable ex_net sid" "site_answers ex_net sid" "get_data_site_by_id ex_net i = Some 1"
  by (simp_all add: ex_net_def get_data_site_by_id_def)

lemma ex_cluster_simps [simp]:
  "tm_transactions (ex_cluster dm) = Map.empty" "tm_sites (ex_cluster dm) = [1 \<mapsto> dm]" "tm_clock (ex_cluster dm) = 4"
  by (simp_all add: ex_cluster_def)

definition ex_begun :: "(nat, unit, Id \<Rightarrow> unit OwnedCell option) DataManager \<Rightarrow> (nat, unit, Id \<Rightarrow> unit OwnedCell option) Cluster" where
  "ex_begun dm = snd (tm_begin nat_clocks (ex_cluster dm))"

lemma ex_begun_simps [simp]:
  "tm_transactions (ex_begun dm) = [5 \<mapsto> \<lparr>tt_data = [], tt_affected_objects = [], tt_state = Started\<rparr>]"
  "tm_sites (ex_begun dm) = [1 \<mapsto> dm]" "tm_clock (ex_begun dm) = 5"
  by (simp_all add: ex_begun_def tm_begin_def Let_def nat_clocks_def)

section \<open>Properties\<close>

text \<open>C23: whatever requests the manager serves and whatever other managers do at the sites, the buffer
  of every transaction holds each cell once, an object without a change carries the version read, a
  new object carries a cell, and a changed cell stands under its own identifier. So the operations of
  a commit can always be computed: preparing does not panic on them.\<close>

theorem buffers_wellformed:
  assumes "tm_transactions cl0 = Map.empty" and "(tm_step N)\<^sup>*\<^sup>* cl0 cl" and "tm_transactions cl tid = Some t"
  shows "distinct (map fst (tt_data t)) \<and>
    (\<forall>i obj. map_of (tt_data t) i = Some obj \<longrightarrow> (do_changed obj \<or> do_version obj \<noteq> None) \<and> (do_new obj \<longrightarrow> do_cell obj \<noteq> None) \<and>
       (\<forall>c. do_changed obj \<longrightarrow> do_cell obj = Some c \<longrightarrow> cell_id c = i)) \<and>
    (\<exists>opss. sites_ops (tt_affected_objects (generate_affected_objs t)) = Some opss)"
proof -
  have "cluster_ok cl0" using assms(1) by (simp add: cluster_ok_def)
  then have "cluster_ok cl" by (rule cluster_ok_steps [OF assms(2)])
  then have ok: "buffer_ok (tt_data t)" using assms(3) by (rule cluster_okD)
  have "\<forall>(sid, objs) \<in> set (tt_affected_objects (generate_affected_objs t)). \<forall>(i, obj) \<in> set objs. obj_ok i obj"
    using generate_affected(3) [OF ok] ok by (auto simp: buffer_ok_def)
  from sites_ops_ok [OF this] show ?thesis using ok unfolding buffer_ok_def obj_ok_def by blast
qed

theorem buffers_wellformed_witness:
  "\<exists>opss. sites_ops (tt_affected_objects (generate_affected_objs (\<lparr>tt_data = [(ex_id, \<lparr>do_server = 1,
      do_cell = Some (ex_cell_v 1 VNull), do_version = None, do_changed = True, do_new = True\<rparr>)],
      tt_affected_objects = [], tt_state = Started\<rparr> :: unit TMTxn))) = Some opss"
proof -
  let ?dm = "DataManager_new 0 Map.empty :: (nat, unit, Id \<Rightarrow> unit OwnedCell option) DataManager"
  let ?cl = "snd (tm_write ex_net 5 (ex_cell_v 1 VNull) (ex_begun ?dm))"
  have "tm_step ex_net (ex_cluster ?dm) (ex_begun ?dm)"
    by (rule tm_step.request [where req = TR_Begin and K = nat_clocks]) (simp add: ex_begun_def)
  moreover have "tm_step ex_net (ex_begun ?dm) ?cl"
    by (rule tm_step.request [where req = "TR_Write 5 (ex_cell_v 1 VNull)"]) simp
  ultimately have s: "(tm_step ex_net)\<^sup>*\<^sup>* (ex_cluster ?dm) ?cl"
    by (rule converse_rtranclp_into_rtranclp [OF _ r_into_rtranclp])
  have "rw_txn 5 (ex_begun ?dm) = Inr \<lparr>tt_data = [], tt_affected_objects = [], tt_state = Started\<rparr>" by (rule rw_txnI) simp_all
  then have "tm_transactions ?cl 5 = Some \<lparr>tt_data = [(ex_id, \<lparr>do_server = 1, do_cell = Some (ex_cell_v 1 VNull),
      do_version = None, do_changed = True, do_new = True\<rparr>)], tt_affected_objects = [], tt_state = Started\<rparr>"
    by (simp add: tm_write_def)
  from buffers_wellformed [OF _ s this] show ?thesis by simp
qed

text \<open>C24: a transaction reads what it has written. After an accepted write or update it reads the
  written cell and its header without asking a site; after an accepted removal it finds the cell gone,
  unless the cell was new in this transaction, which then forgets it. Buffered cells with other
  identifiers stay as they are.\<close>

theorem read_your_writes:
  shows "(tm_write N tid c cl = (Inr (TER_Accepted ()), cl1) \<or> tm_update N tid c cl = (Inr (TER_Accepted ()), cl1) \<longrightarrow>
      tm_read K N D now tid (cell_id c) cl1 = Some (Done (Inr (TER_Accepted c)), cl1) \<and>
      tm_head K N D now tid (cell_id c) cl1 = Some (Done (Inr (TER_Accepted (header c))), cl1) \<and>
      (\<forall>t t1 j. tm_transactions cl tid = Some t \<longrightarrow> tm_transactions cl1 tid = Some t1 \<longrightarrow> j \<noteq> cell_id c \<longrightarrow>
         map_of (tt_data t1) j = map_of (tt_data t) j)) \<and>
    (tm_remove N tid i cl = (Inr (TER_Accepted ()), cl1) \<longrightarrow>
      (tm_read K N D now tid i cl1 = Some (Done (Inr (TER_Error RE_CellDoesNotExisted)), cl1) \<or>
       (\<exists>t obj t1. tm_transactions cl tid = Some t \<and> map_of (tt_data t) i = Some obj \<and> do_new obj \<and>
          tm_transactions cl1 tid = Some t1 \<and> map_of (tt_data t1) i = None)) \<and>
      (\<forall>t t1 j. tm_transactions cl tid = Some t \<longrightarrow> tm_transactions cl1 tid = Some t1 \<longrightarrow> j \<noteq> i \<longrightarrow>
         map_of (tt_data t1) j = map_of (tt_data t) j))"
proof (intro conjI impI)
  assume "tm_write N tid c cl = (Inr (TER_Accepted ()), cl1) \<or> tm_update N tid c cl = (Inr (TER_Accepted ()), cl1)"
  then obtain obj where obj: "do_cell obj = Some c" "buffered cl tid (cell_id c) (Some obj) cl1"
    using write_buffered [of N tid c cl cl1] update_buffered [of N tid c cl cl1] by auto
  then show "tm_read K N D now tid (cell_id c) cl1 = Some (Done (Inr (TER_Accepted c)), cl1)"
    "tm_head K N D now tid (cell_id c) cl1 = Some (Done (Inr (TER_Accepted (header c))), cl1)"
    "\<forall>t t1 j. tm_transactions cl tid = Some t \<longrightarrow> tm_transactions cl1 tid = Some t1 \<longrightarrow> j \<noteq> cell_id c \<longrightarrow>
       map_of (tt_data t1) j = map_of (tt_data t) j"
    by (simp_all add: buffered_read buffered_others [OF obj(2)])
next
  assume r: "tm_remove N tid i cl = (Inr (TER_Accepted ()), cl1)"
  from remove_buffered [OF r] show "tm_read K N D now tid i cl1 = Some (Done (Inr (TER_Error RE_CellDoesNotExisted)), cl1) \<or>
       (\<exists>t obj t1. tm_transactions cl tid = Some t \<and> map_of (tt_data t) i = Some obj \<and> do_new obj \<and>
          tm_transactions cl1 tid = Some t1 \<and> map_of (tt_data t1) i = None)"
    by (elim disjE exE conjE) (auto simp: buffered_read, auto simp: buffered_def dest!: rw_txnD)
  from remove_buffered [OF r] obtain obj where b: "buffered cl tid i obj cl1" by auto
  show "\<forall>t t1 j. tm_transactions cl tid = Some t \<longrightarrow> tm_transactions cl1 tid = Some t1 \<longrightarrow> j \<noteq> i \<longrightarrow>
       map_of (tt_data t1) j = map_of (tt_data t) j"
    by (simp add: buffered_others [OF b])
qed

theorem read_your_writes_witness:
  "\<exists>cl1. tm_write ex_net 5 (ex_cell_v 1 VNull) (ex_begun (DataManager_new 0 Map.empty)) = (Inr (TER_Accepted ()), cl1) \<and>
    tm_read nat_clocks ex_net map_ops 0 5 ex_id cl1 = Some (Done (Inr (TER_Accepted (ex_cell_v 1 VNull))), cl1)"
proof -
  let ?dm = "DataManager_new 0 Map.empty :: (nat, unit, Id \<Rightarrow> unit OwnedCell option) DataManager"
  have "rw_txn 5 (ex_begun ?dm) = Inr \<lparr>tt_data = [], tt_affected_objects = [], tt_state = Started\<rparr>" by (rule rw_txnI) simp_all
  then obtain cl1 where w: "tm_write ex_net 5 (ex_cell_v 1 VNull) (ex_begun ?dm) = (Inr (TER_Accepted ()), cl1)"
    by (simp add: tm_write_def)
  then show ?thesis
    using read_your_writes [of ex_net 5 "ex_cell_v 1 VNull" "ex_begun ?dm" cl1 nat_clocks map_ops 0] by auto
qed

text \<open>Preparing empties the buffer even when it fails, and leaves the transaction started. Preparing
  it again then succeeds without a request to any site: the manager reports success for a transaction
  whose writes are lost, and the cells stay owned at the sites that had prepared.\<close>

theorem retried_prepare_loses_writes:
  assumes "tm_prepare K N D now tid cl = Some (Done (Inr r), cl1)" and "r \<noteq> TMP_Success"
  shows "\<exists>cl2 t. tm_prepare K N D now' tid cl1 = Some (Done (Inr TMP_Success), cl2) \<and> tm_sites cl2 = tm_sites cl1 \<and>
    tm_transactions cl2 tid = Some t \<and> tt_state t = Prepared \<and> tt_data t = [] \<and> tt_affected_objects t = []"
proof -
  obtain t where t: "rw_txn tid cl = Inr t" using assms(1) by (auto simp: tm_prepare_def split: sum.splits)
  let ?t = "generate_affected_objs t"
  have 0: "tt_data ?t = []" "tt_state ?t = Started" using rw_txnD [OF t] by (simp_all add: generate_affected_objs_def)
  have "tm_transactions cl1 tid = Some ?t"
    using assms t by (auto simp: tm_prepare_def Let_def dest!: sites_prepare_txns sites_commit_txns
        split: option.splits outcome.splits sum.splits if_splits)
  then have "rw_txn tid cl1 = Inr ?t" using 0 by (intro rw_txnI)
  then show ?thesis using 0
    by (simp add: tm_prepare_def Let_def data_sites_for_objs_def sites_commit_def generate_affected_objs_def)
qed

theorem retried_prepare_loses_writes_witness:
  "\<exists>cl1 cl2. tm_prepare nat_clocks ex_net map_ops 0 5
      (snd (tm_write ex_net 5 (ex_cell_v 1 VNull) (ex_begun (put_meta ex_id
        \<lparr>cm_read = 9, cm_write = 0, cm_owner = None, cm_waiting = {}\<rparr> (DataManager_new 0 Map.empty))))) =
      Some (Done (Inr (TMP_DMPrepareError DMP_NotRealizable)), cl1) \<and>
    tm_prepare nat_clocks ex_net map_ops 0 5 cl1 = Some (Done (Inr TMP_Success), cl2)"
proof -
  let ?dm = "put_meta ex_id \<lparr>cm_read = 9, cm_write = 0, cm_owner = None, cm_waiting = {}\<rparr>
    (DataManager_new 0 Map.empty) :: (nat, unit, Id \<Rightarrow> unit OwnedCell option) DataManager"
  let ?cl = "snd (tm_write ex_net 5 (ex_cell_v 1 VNull) (ex_begun ?dm))"
  let ?obj = "\<lparr>do_server = 1, do_cell = Some (ex_cell_v 1 VNull), do_version = None, do_changed = True, do_new = True\<rparr>"
  let ?t = "\<lparr>tt_data = [(ex_id, ?obj)], tt_affected_objects = [], tt_state = Started\<rparr> :: unit TMTxn"
  have "rw_txn 5 (ex_begun ?dm) = Inr \<lparr>tt_data = [], tt_affected_objects = [], tt_state = Started\<rparr>" by (rule rw_txnI) simp_all
  then have cl: "?cl = put_tm_txn 5 ?t (ex_begun ?dm)" by (simp add: tm_write_def)
  have t: "rw_txn 5 ?cl = Inr ?t" unfolding cl by (rule rw_txnI) simp_all
  have "\<exists>cl1. tm_prepare nat_clocks ex_net map_ops 0 5 ?cl = Some (Done (Inr (TMP_DMPrepareError DMP_NotRealizable)), cl1)"
    unfolding tm_prepare_def t unfolding cl
    by (simp add: generate_affected_objs_def add_affected_def Let_def data_sites_for_objs_def tm_site_prepare_def from_site_def
        retry_loop.simps call_site_def site_prepare_def case_prod_beta touch_metas_cells meta_of_def put_meta_def
        respond_def is_DMP_Wait_def join_prepare_def txn_state_def DataManager_new_def)
  then obtain cl1 where 1: "tm_prepare nat_clocks ex_net map_ops 0 5 ?cl = Some (Done (Inr (TMP_DMPrepareError DMP_NotRealizable)), cl1)" ..
  from retried_prepare_loses_writes [OF this] 1 show ?thesis by auto
qed

text \<open>Aborting a transaction that was not prepared contacts no site. A transaction that reads a cell
  and is then aborted stays in the table of the site it has read from, where it holds back the
  eviction of cell metas.\<close>

theorem abort_leaves_reads:
  assumes "tm_transactions cl tid = Some t" and "tt_affected_objects t = []" and "map_of (tt_data t) i = None"
    and "tm_read K N D now tid i cl = Some (Done (Inr (TER_Accepted c)), cl1)"
  shows "\<exists>cl2 sid dm. tm_abort K N D ord now' tid cl1 = Some (Inr (AR_Success None), cl2) \<and> tm_transactions cl2 tid = None \<and>
    get_data_site_by_id N i = Some sid \<and> tm_sites cl2 sid = Some dm \<and> dm_txns dm tid \<noteq> None \<and> tm_sites cl2 = tm_sites cl1"
proof -
  have rw: "rw_txn tid cl = Inr t"
    using assms(1,4) by (auto simp: tm_read_def dest: rw_txnD split: sum.splits)
  obtain sid cl0 where sid: "get_data_site_by_id N i = Some sid"
      "from_site K N is_TER_Wait tid sid (\<lambda>clk dm. site_read K D now (tm_server_id cl) clk tid i dm) cl =
        Some (Done (Inr (TER_Accepted c)), cl0)"
      and cl1: "tm_sites cl1 = tm_sites cl0" "\<exists>t1. tm_transactions cl1 tid = Some t1 \<and> tt_affected_objects t1 = [] \<and> tt_state t1 = Started"
    using assms(2-4) rw rw_txnD [OF rw]
    by (auto simp: tm_read_def split: option.splits outcome.splits sum.splits TxnExecResult.splits)
  from retry_loop_answer [OF sid(2) [unfolded from_site_def]] obtain dm where dm: "tm_sites cl0 sid = Some dm" "dm_txns dm tid \<noteq> None"
    by (auto dest: site_read_txn)
  have "\<exists>cl2. tm_abort K N D ord now' tid cl1 = Some (Inr (AR_Success None), cl2) \<and> tm_transactions cl2 tid = None \<and> tm_sites cl2 = tm_sites cl1"
    using cl1(2) by (auto simp: tm_abort_def tm_get_transaction_def data_sites_for_objs_def sites_abort_def sites_end_def)
  then show ?thesis using sid(1) dm cl1(1) by auto
qed

theorem abort_leaves_reads_witness:
  "\<exists>cl1 cl2 dm. tm_read nat_clocks ex_net map_ops 0 5 ex_id (ex_begun (DataManager_new 0 [ex_id \<mapsto> ex_cell_v 1 VNull])) =
      Some (Done (Inr (TER_Accepted (ex_cell_v 1 VNull))), cl1) \<and>
    tm_abort nat_clocks ex_net map_ops id 0 5 cl1 = Some (Inr (AR_Success None), cl2) \<and>
    tm_sites cl2 1 = Some dm \<and> dm_txns dm 5 \<noteq> None"
proof -
  let ?dm = "DataManager_new 0 [ex_id \<mapsto> ex_cell_v 1 VNull] :: (nat, unit, Id \<Rightarrow> unit OwnedCell option) DataManager"
  have "rw_txn 5 (ex_begun ?dm) = Inr \<lparr>tt_data = [], tt_affected_objects = [], tt_state = Started\<rparr>" by (rule rw_txnI) simp_all
  then have "\<exists>cl1. tm_read nat_clocks ex_net map_ops 0 5 ex_id (ex_begun ?dm) = Some (Done (Inr (TER_Accepted (ex_cell_v 1 VNull))), cl1)"
    by (simp add: tm_read_def from_site_def retry_loop.simps call_site_def site_read_def guarded_read_def prepare_read_def Let_def
        DataManager_new_def update_clock_def get_transaction_def cell_meta_mutex_def CellMeta_new_def put_txn_def put_meta_def
        map_ops_def exec_result_def respond_def is_TER_Wait_def)
  then obtain cl1 where 1: "tm_read nat_clocks ex_net map_ops 0 5 ex_id (ex_begun ?dm) = Some (Done (Inr (TER_Accepted (ex_cell_v 1 VNull))), cl1)" ..
  from abort_leaves_reads [OF _ _ _ this, of "\<lparr>tt_data = [], tt_affected_objects = [], tt_state = Started\<rparr>" id 0] 1
  show ?thesis by auto
qed

end
