(* ===== verification/Neb_Cleaner.thy ===== *)
theory Neb_Cleaner
  imports Neb_Chunk
begin

text \<open>
  The two-level cleaner: \<^verbatim>\<open>src/src/ram/cleaner/mod.rs\<close>,
  \<^verbatim>\<open>compact.rs\<close> and \<^verbatim>\<open>combine.rs\<close>. The parallel iterators
  are run in list order. An index entry whose guard the running operation already holds
  (\<open>cell_locks\<close>) cannot be locked again, so reaching one is \<open>None\<close>, as is every panic and a
  packing loop that never ends. The cleaner holds \<open>gc_lock\<close>: a tombstone written from inside it
  reaches \<^verbatim>\<open>Cleaner::clean\<close> again with the lock taken, which is
  \<open>clean_locked\<close>.
\<close>

section \<open>Compaction\<close>

text \<open>\<^verbatim>\<open>Cleaner::clean\<close> while \<^verbatim>\<open>gc_lock\<close> is held by the caller: a
  full clean waits for the lock forever, the other one returns at once.\<close>

definition clean_locked :: "'p cleaner" where
  "clean_locked full ch = (if full then None else Some ch)"

text \<open>The segment behind a reference the cleaner collected.\<close>

definition current_seg :: "'p Chunk \<Rightarrow> Segment \<Rightarrow> Segment" where
  "current_seg ch seg = (case map_of (segs ch) (unat (seg_id seg)) of Some s \<Rightarrow> s | None \<Rightarrow> seg)"

text \<open>Moving the index entry of a copied cell from \<open>old\<close> to \<open>new\<close> under the guard of its hash,
  as both cleaners do: a cell that changed meanwhile leaves a dead copy, a removed one a
  tombstone.\<close>

definition relocate_index ::
  "'p Env \<Rightarrow> nat \<Rightarrow> u64 \<Rightarrow> addr \<Rightarrow> addr \<Rightarrow> 'p Chunk \<Rightarrow> 'p Chunk option" where
  "relocate_index E k h old new ch =
     (case cell_index ch h of
        Some actual \<Rightarrow>
          if actual = old then Some (set_index h new ch) else mark_dead_entry_with_seg new k ch
      | None \<Rightarrow> map_option snd (put_tombstone_by_cell_loc E clean_locked new ch))"

definition compact_entry ::
  "'p Env \<Rightarrow> nat \<Rightarrow> Entry \<Rightarrow> addr \<Rightarrow> 'p Chunk \<Rightarrow> 'p Chunk option" where
  "compact_entry E k e cursor ch =
     (let sz = entry_size (entry_meta e); pos = entry_pos (entry_meta e);
          ch1 = ch\<lparr>memory := env_memcpy E (memory ch) cursor pos sz\<rparr>
      in if cursor = pos then Some ch
         else if entry_type (entry_header (entry_meta e)) = CELL
         then (case entry_content e of
                 EC_Cell chd \<Rightarrow>
                   if hash chd \<in> cell_locks ch then None
                   else relocate_index E k (hash chd) pos cursor ch1
               | _ \<Rightarrow> None)
         else Some ch1)"

fun compact_entries ::
  "'p Env \<Rightarrow> nat \<Rightarrow> Entry list \<Rightarrow> addr \<Rightarrow> 'p Chunk \<Rightarrow> (addr \<times> 'p Chunk) option" where
  "compact_entries E k [] cursor ch = Some (cursor, ch)"
| "compact_entries E k (e # es) cursor ch =
     (case compact_entry E k e cursor ch of
        None \<Rightarrow> None
      | Some ch1 \<Rightarrow> compact_entries E k es (cursor + entry_size (entry_meta e)) ch1)"

text \<open>\<^verbatim>\<open>remove_segment\<close> followed by \<^verbatim>\<open>mem_drop\<close>.\<close>

definition drop_segment :: "Segment \<Rightarrow> 'p Chunk \<Rightarrow> 'p Chunk" where
  "drop_segment seg ch =
     (let s = current_seg ch seg; ch1 = remove_segment (seg_id seg) ch
      in ch1\<lparr>allocator := snd (mem_drop s (allocator ch1))\<rparr>)"

text \<open>\<^verbatim>\<open>CompactCleaner::clean_segment\<close>: the bytes it reports as cleaned and the chunk.
  They are computed from \<^verbatim>\<open>used_spaces\<close> after the append header was stored.\<close>

definition clean_segment :: "'p Env \<Rightarrow> Segment \<Rightarrow> 'p Chunk \<Rightarrow> (nat \<times> 'p Chunk) option" where
  "clean_segment E seg_ref ch =
     (let seg = current_seg ch seg_ref; k = unat (seg_id seg)
      in if total_dead_space seg = 0 then Some (0, ch)
         else case live_entries ch seg of
                None \<Rightarrow> None
              | Some entries \<Rightarrow>
                  if entries = [] then Some (SEGMENT_SIZE, drop_segment seg ch)
                  else let live_size = sum_list (map (entry_size \<circ> entry_meta) entries)
                       in (case compact_entries E k entries (seg_addr seg) ch of
                             None \<Rightarrow> None
                           | Some (cursor, ch1) \<Rightarrow>
                               (let ch2 = modify_segment k (\<lambda>s. s\<lparr>append_header := cursor\<rparr>) ch1;
                                    ch3 = ch2\<lparr>memory := shrink (env_advise E) seg (cursor - seg_addr seg)
                                                          (memory ch2)\<rparr>
                                in Some (unat (used_spaces (current_seg ch3 seg)) - live_size, ch3))))"

fun clean_segments :: "'p Env \<Rightarrow> Segment list \<Rightarrow> 'p Chunk \<Rightarrow> (nat \<times> 'p Chunk) option" where
  "clean_segments E [] ch = Some (0, ch)"
| "clean_segments E (s # ss) ch =
     (case clean_segment E s ch of
        None \<Rightarrow> None
      | Some (n, ch1) \<Rightarrow> map_option (\<lambda>(r, ch2). (n + r, ch2)) (clean_segments E ss ch1))"

section \<open>Combination\<close>

record DummyEntry =
  de_size :: nat
  de_addr :: addr
  de_cell_hash :: "u64 option"
  de_timestamp :: u32

record DummySegment =
  ds_head :: nat
  ds_entries :: "DummyEntry list"

definition DummySegment_new :: DummySegment where
  "DummySegment_new = \<lparr>ds_head = 0, ds_entries = []\<rparr>"

definition combine_filter :: "u64 list \<Rightarrow> Entry \<Rightarrow> bool" where
  "combine_filter ids e =
     (case entry_content e of EC_Tombstone t \<Rightarrow> ts_segment_id t \<notin> set ids | _ \<Rightarrow> True)"

definition dummy_entry :: "Entry \<Rightarrow> DummyEntry" where
  "dummy_entry e =
     (let cell_header = (case entry_content e of EC_Cell h \<Rightarrow> Some h | _ \<Rightarrow> None)
      in \<lparr>de_size = entry_size (entry_meta e), de_addr = entry_pos (entry_meta e),
          de_cell_hash = map_option hash cell_header,
          de_timestamp = (case cell_header of Some h \<Rightarrow> timestamp h | None \<Rightarrow> 0)\<rparr>)"

fun all_live_entries :: "'p Chunk \<Rightarrow> Segment list \<Rightarrow> Entry list option" where
  "all_live_entries ch [] = Some []"
| "all_live_entries ch (s # ss) =
     (case live_entries ch (current_seg ch s) of
        None \<Rightarrow> None
      | Some es \<Rightarrow> map_option ((@) es) (all_live_entries ch ss))"

text \<open>\<^verbatim>\<open>Itertools::group_by\<close> groups neighbours with the same key.\<close>

fun group_adjacent :: "('a \<Rightarrow> 'k) \<Rightarrow> 'a list \<Rightarrow> ('k \<times> 'a list) list" where
  "group_adjacent f [] = []"
| "group_adjacent f (x # xs) =
     (case group_adjacent f xs of
        [] \<Rightarrow> [(f x, [x])]
      | (k, g) # gs \<Rightarrow> if k = f x then (k, x # g) # gs else (f x, [x]) # (k, g) # gs)"

definition order_entries :: "DummyEntry list \<Rightarrow> DummyEntry list" where
  "order_entries ds =
     rev (concat (map snd (sort_key fst
       (map (\<lambda>(t, g). (t, sort_key de_size g))
          (group_adjacent (\<lambda>d. unat (de_timestamp d) div 10) ds)))))"

text \<open>One turn of the loop that packs the entries into dummy segments. The list of segments is
  kept with the last one first.\<close>

record PackState =
  pk_entries :: "(DummyEntry \<times> bool) list"
  pk_to_claim :: nat
  pk_cursor :: nat
  pk_last :: DummySegment
  pk_done :: "DummySegment list"

definition pack_turn :: "PackState \<Rightarrow> PackState" where
  "pack_turn s =
     (let entries_num = length (pk_entries s);
          segment_space_remains = SEGMENT_SIZE - ds_head (pk_last s);
          index = pk_cursor s mod entries_num;
          (entry, claimed) = pk_entries s ! index
      in if claimed then s\<lparr>pk_cursor := pk_cursor s + 1\<rparr>
         else if de_size entry > segment_space_remains
         then (if index = entries_num - 1
               then s\<lparr>pk_cursor := pk_cursor s + 1, pk_last := DummySegment_new,
                      pk_done := pk_last s # pk_done s\<rparr>
               else s\<lparr>pk_cursor := pk_cursor s + 1\<rparr>)
         else s\<lparr>pk_entries := (pk_entries s)[index := (entry, True)],
                pk_to_claim := pk_to_claim s - 1, pk_cursor := pk_cursor s + 1,
                pk_last := \<lparr>ds_head = ds_head (pk_last s) + de_size entry,
                            ds_entries = ds_entries (pk_last s) @ [entry]\<rparr>\<rparr>)"

partial_function (option) pack_loop :: "PackState \<Rightarrow> PackState option" where
  [code]: "pack_loop s = (if pk_to_claim s > 0 then pack_loop (pack_turn s) else Some s)"

definition pack_start :: "DummyEntry list \<Rightarrow> PackState" where
  "pack_start entries = \<lparr>pk_entries = map (\<lambda>e. (e, False)) entries, pk_to_claim = length entries,
     pk_cursor = 0, pk_last = DummySegment_new, pk_done = []\<rparr>"

definition pack_entries :: "DummyEntry list \<Rightarrow> DummySegment list option" where
  "pack_entries entries =
     map_option (\<lambda>s. rev (pk_last s # pk_done s)) (pack_loop (pack_start entries))"

text \<open>Copying the entries of one dummy segment, and the list of moved cells
  \<open>(new, old, hash)\<close>.\<close>

fun copy_entries ::
  "'p Env \<Rightarrow> DummyEntry list \<Rightarrow> addr \<Rightarrow> mem \<Rightarrow> mem \<times> addr \<times> (addr \<times> addr \<times> u64) list" where
  "copy_entries E [] cursor m = (m, cursor, [])"
| "copy_entries E (d # ds) cursor m =
     (let m1 = env_memcpy E m cursor (de_addr d) (de_size d);
          (m2, end_cursor, mapping) = copy_entries E ds (cursor + de_size d) m1
      in (m2, end_cursor,
          (case de_cell_hash d of Some h \<Rightarrow> [(cursor, de_addr d, h)] | None \<Rightarrow> []) @ mapping))"

fun relocate_cells :: "'p Env \<Rightarrow> nat \<Rightarrow> (addr \<times> addr \<times> u64) list \<Rightarrow> 'p Chunk \<Rightarrow> 'p Chunk option" where
  "relocate_cells E k [] ch = Some ch"
| "relocate_cells E k ((new, old, h) # cs) ch =
     (if h \<in> cell_locks ch then None
      else case relocate_index E k h old new ch of
             None \<Rightarrow> None
           | Some ch1 \<Rightarrow> relocate_cells E k cs ch1)"

definition combine_segment :: "'p Env \<Rightarrow> DummySegment \<Rightarrow> 'p Chunk \<Rightarrow> (nat \<times> 'p Chunk) option" where
  "combine_segment E dummy ch =
     (case alloc_seg (env_pop E) (disk ch) (allocator ch) (backup_storage ch) (wal_storage ch) of
        Some (Some new_seg, al, fs) \<Rightarrow>
          (let (m1, seg_cursor, mapping) = copy_entries E (ds_entries dummy) (seg_addr new_seg) (memory ch);
               seg1 = new_seg\<lparr>append_header := seg_cursor\<rparr>;
               m2 = shrink (env_advise E) seg1 (seg_cursor - seg_addr seg1) m1
           in case archive m2 seg1 fs of
                Some (Inr _, fs1) \<Rightarrow>
                  map_option (\<lambda>ch1. (unat (used_spaces seg1), ch1))
                    (relocate_cells E (unat (seg_id seg1)) mapping
                      (put_segment seg1 (ch\<lparr>allocator := al, memory := m2, disk := fs1\<rparr>)))
              | _ \<Rightarrow> None)
      | _ \<Rightarrow> None)"

fun combine_all :: "'p Env \<Rightarrow> DummySegment list \<Rightarrow> 'p Chunk \<Rightarrow> (nat \<times> 'p Chunk) option" where
  "combine_all E [] ch = Some (0, ch)"
| "combine_all E (d # ds) ch =
     (case combine_segment E d ch of
        None \<Rightarrow> None
      | Some (n, ch1) \<Rightarrow> map_option (\<lambda>(r, ch2). (n + r, ch2)) (combine_all E ds ch1))"

definition drop_segments :: "Segment list \<Rightarrow> 'p Chunk \<Rightarrow> 'p Chunk" where
  "drop_segments ss ch = fold drop_segment ss ch"

definition combine_segments :: "'p Env \<Rightarrow> Segment list \<Rightarrow> 'p Chunk \<Rightarrow> (nat \<times> 'p Chunk) option" where
  "combine_segments E ss ch =
     (if length ss < 2 then Some (0, ch)
      else let space_to_collect = sum_list (map (\<lambda>s. unat (used_spaces (current_seg ch s))) ss);
               ids = map seg_id ss
           in case all_live_entries ch ss of
                None \<Rightarrow> None
              | Some live \<Rightarrow>
                  (let entries = order_entries (map dummy_entry (filter (combine_filter ids) live))
                   in if entries = [] then Some (0, drop_segments ss ch)
                      else case pack_entries entries of
                             None \<Rightarrow> None
                           | Some pending_segments \<Rightarrow>
                               (case combine_all E pending_segments ch of
                                  None \<Rightarrow> None
                                | Some (live_space, ch1) \<Rightarrow>
                                    Some (space_to_collect - live_space, drop_segments ss ch1))))"

section \<open>The cleaner\<close>

definition clean :: "'p Env \<Rightarrow> 'p cleaner" where
  "clean E full ch =
     (if gc_lock ch then clean_locked full ch
      else let ch0 = ch\<lparr>gc_lock := True\<rparr>;
               num_segs = length (segs ch0);
               segments_compact_per_turn = (if full then num_segs else num_segs div 5 + 1);
               segments_combine_per_turn = (if full then num_segs else num_segs div 5 + 2)
           in case scan_tombstone_survival E (segment_ids ch0) ch0 of
                None \<Rightarrow> None
              | Some ch1 \<Rightarrow>
                  (case clean_segments E (take segments_compact_per_turn (segs_for_compact_cleaner ch1)) ch1 of
                     None \<Rightarrow> None
                   | Some (n1, ch2) \<Rightarrow>
                       (case combine_segments E
                               (take segments_combine_per_turn (segs_for_combine_cleaner ch2)) ch2 of
                          None \<Rightarrow> None
                        | Some (n2, ch3) \<Rightarrow>
                            map_option (\<lambda>ch4. ch4\<lparr>gc_lock := False\<rparr>)
                              (check_and_archive_segments
                                (ch3\<lparr>total_space := total_space ch3 - of_nat (n1 + n2)\<rparr>)))))"

section \<open>Lemmas: counters, archives and dropped segments\<close>

text \<open>What is assumed of the environment: \<^verbatim>\<open>WordList::pop\<close> takes an element of the bag,
  \<^verbatim>\<open>madvise\<close> changes only its range, and \<^verbatim>\<open>memcpy\<close> copies disjoint blocks and
  blocks that move to a lower address. The C standard leaves the second case of
  \<^verbatim>\<open>memcpy\<close> undefined when the blocks overlap; the compaction in place depends on it.\<close>

definition env_ok :: "'p Env \<Rightarrow> bool" where
  "env_ok E = (pops_bag (env_pop E) \<and>
     (\<forall>m a n x. x < a \<or> a + n \<le> x \<longrightarrow> env_advise E m a n x = m x) \<and>
     (\<forall>m dst src n. dst \<le> src \<or> src + n \<le> dst \<longrightarrow> env_memcpy E m dst src n = mem_move m dst src n))"

lemma env_okD:
  assumes "env_ok E"
  shows "pops_bag (env_pop E)" and "x < a \<or> a + n \<le> x \<Longrightarrow> env_advise E m a n x = m x"
    and "dst \<le> src \<or> src + n \<le> dst \<Longrightarrow> env_memcpy E m dst src n = mem_move m dst src n"
  using assms by (auto simp: env_ok_def)

interpretation locked: chunk_cleaner clean_locked
  by unfold_locales (auto simp: clean_locked_def keeps_refl split: if_splits)

lemma modify_const:
  "map_of (segs ch) k = Some seg \<Longrightarrow>
     modify_segment k (\<lambda>_. v) ch = modify_segment k (\<lambda>s. if s = seg then v else s) ch"
proof -
  have "map_of xs k = Some seg \<Longrightarrow>
      AList.map_entry k (\<lambda>_. v) xs = AList.map_entry k (\<lambda>s. if s = seg then v else s) xs" for xs
    by (induction xs) (auto split: if_splits)
  then show "map_of (segs ch) k = Some seg \<Longrightarrow> ?thesis" by (simp add: modify_segment_def)
qed

lemma chunk_inv_replace:
  assumes "chunk_inv ch" and "map_of (segs ch) k = Some seg" and "seg_core v = seg_core seg"
  shows "chunk_inv (modify_segment k (\<lambda>_. v) ch)"
  unfolding modify_const [OF assms(2)] using assms(1,3) by (intro chunk_inv_modify) auto

lemma scan_tombstones_seg_core: "scan_tombstones_seg E ch seg = Some seg' \<Longrightarrow> seg_core seg' = seg_core seg"
  by (auto simp: scan_tombstones_seg_def seg_core_def split: if_splits)

lemma keeps_left [simp]:
  "keeps (modify_segment k f ch) ch' = keeps ch ch'" "keeps (ch\<lparr>disk := d\<rparr>) ch' = keeps ch ch'"
  "keeps (ch\<lparr>gc_lock := g\<rparr>) ch' = keeps ch ch'" "keeps (ch\<lparr>total_space := t\<rparr>) ch' = keeps ch ch'"
  by (simp_all add: keeps_def)

text \<open>What the passes over all segments leave alone.\<close>

definition same_shape :: "'p Chunk \<Rightarrow> 'p Chunk \<Rightarrow> bool" where
  "same_shape ch ch' = (map fst (segs ch') = map fst (segs ch) \<and> head_seg_id ch' = head_seg_id ch \<and>
     cell_locks ch' = cell_locks ch \<and> gc_lock ch' = gc_lock ch \<and> cell_index ch' = cell_index ch)"

lemma same_shape_refl [simp]: "same_shape ch ch"
  by (simp add: same_shape_def)

lemma same_shape_modify: "same_shape (modify_segment k f ch) ch' = same_shape ch ch'"
  by (simp add: same_shape_def) (simp add: modify_segment_def)

lemma scan_tombstone_survival_ok:
  assumes "scan_tombstone_survival E ks ch = Some ch'" and "chunk_inv ch"
  shows "chunk_inv ch' \<and> keeps ch ch' \<and> same_shape ch ch'"
  using assms
proof (induction ks arbitrary: ch)
  case Nil
  then show ?case by (auto simp: keeps_refl)
next
  case (Cons k ks)
  show ?case
  proof (cases "map_of (segs ch) k")
    case None
    then show ?thesis using Cons by simp
  next
    case (Some seg)
    then obtain seg' where seg': "scan_tombstones_seg E ch seg = Some seg'"
        "scan_tombstone_survival E ks (modify_segment k (\<lambda>_. seg') ch) = Some ch'"
      using Cons.prems(1) by (auto split: option.splits)
    have inv: "chunk_inv (modify_segment k (\<lambda>_. seg') ch)"
      using chunk_inv_replace [OF Cons.prems(2) Some] scan_tombstones_seg_core [OF seg'(1)] by simp
    then show ?thesis using Cons.IH [OF seg'(2) inv] by (simp add: same_shape_modify)
  qed
qed

lemma check_and_archive_ok:
  assumes "check_and_archive ks ch = Some ch'" and "chunk_inv ch"
  shows "chunk_inv ch' \<and> keeps ch ch'"
  using assms
proof (induction ks arbitrary: ch)
  case Nil
  then show ?case by (auto simp: keeps_refl)
next
  case (Cons k ks)
  show ?case
  proof (cases "check_and_archive ks ch = Some ch'")
    case True
    then show ?thesis using Cons by simp
  next
    case False
    then obtain fs where fs: "check_and_archive ks
        (modify_segment k (\<lambda>s. s\<lparr>archived := True\<rparr>) (ch\<lparr>disk := fs\<rparr>)) = Some ch'"
      using Cons.prems(1) by (auto split: option.splits if_splits)
    let ?ch = "modify_segment k (\<lambda>s. s\<lparr>archived := True\<rparr>) (ch\<lparr>disk := fs\<rparr>)"
    have "chunk_inv ?ch" using Cons.prems(2) by (intro chunk_inv_modify) (simp_all add: seg_core_def)
    then show ?thesis using Cons.IH [OF fs] by simp
  qed
qed

text \<open>A segment that no index entry points into may be dropped.\<close>

definition in_seg :: "Segment \<Rightarrow> addr \<Rightarrow> bool" where
  "in_seg seg a = (seg_addr seg \<le> a \<and> a < seg_addr seg + SEGMENT_SIZE)"

lemma map_of_delete_if: "map_of (AList.delete k xs) j = (if j = k then None else map_of xs j)"
  by (simp add: delete_conv')

lemma mset_delete:
  assumes "distinct (map fst xs)" and "map_of xs k = Some v"
  shows "mset (map (f \<circ> snd) (AList.delete k xs)) = mset (remove1 (f v) (map (f \<circ> snd) xs))"
proof -
  have "mset (map (f \<circ> snd) xs) = add_mset (f v) (mset (map (f \<circ> snd) (AList.delete k xs)))"
    using assms
  proof (induction xs)
    case (Cons x xs)
    then show ?case by (cases x) (auto simp: delete_id split: if_splits)
  qed simp
  then show ?thesis by simp
qed

lemma drop_segment_ok:
  assumes inv: "chunk_inv ch" and seg: "map_of (segs ch) (unat (seg_id sr)) = Some seg"
    and head: "unat (seg_id sr) \<noteq> unat (head_seg_id ch)"
    and free: "\<forall>h a. cell_index ch h = Some a \<longrightarrow> \<not> in_seg seg a"
  shows "chunk_inv (drop_segment sr ch)" and "keeps ch (drop_segment sr ch)"
    and "map_of (segs (drop_segment sr ch)) k =
      (if k = unat (seg_id sr) then None else map_of (segs ch) k)"
    and "head_seg_id (drop_segment sr ch) = head_seg_id ch" "cell_locks (drop_segment sr ch) = cell_locks ch"
    "cell_index (drop_segment sr ch) = cell_index ch"
proof -
  let ?k = "unat (seg_id sr)"
  let ?al = "free (allocator ch) (seg_addr seg)"
  note S = seg_invD [OF inv_seg [OF inv seg]]
  have eq: "drop_segment sr ch = ch\<lparr>segs := AList.delete ?k (segs ch), disk := dispense seg (disk ch), allocator := ?al\<rparr>"
    using seg S(4) by (simp add: drop_segment_def Let_def remove_segment_def current_seg_def mem_drop_def)
  have look: "map_of (AList.delete ?k (segs ch)) j = (if j = ?k then None else map_of (segs ch) j)" for j
    by (simp add: map_of_delete_if)
  have "alloc_inv ?al (map (seg_addr \<circ> snd) (AList.delete ?k (segs ch)))"
  proof (rule alloc_inv_cong)
    have "seg_addr seg \<in> set (map (seg_addr \<circ> snd) (segs ch))" using map_of_SomeD [OF seg] by force
    then show "alloc_inv ?al (remove1 (seg_addr seg) (map (seg_addr \<circ> snd) (segs ch)))"
      by (rule free_inv [OF inv_alloc [OF inv]])
  qed (rule mset_delete [OF inv_distinct [OF inv] seg])
  moreover have "distinct (map fst (AList.delete ?k (segs ch)))" using inv_distinct [OF inv] by (simp add: distinct_delete)
  moreover have "seg_inv (memory ch) ?al j t" if "map_of (AList.delete ?k (segs ch)) j = Some t" for j t
    using that inv_seg [OF inv] seg_inv_base [of ?al "allocator ch"] by (auto simp: look split: if_splits)
  moreover have "indexed (memory ch) (map_of (AList.delete ?k (segs ch))) h a" if ix: "cell_index ch h = Some a" for h a
  proof -
    obtain k t es e where *: "map_of (segs ch) k = Some t" "seg_log (memory ch) t es" "e \<in> set es"
        "entry_pos e = a" "entry_type (entry_header e) = CELL"
        "hash (cell_header_from_entry_content_addr (memory ch) (body_pos e)) = h"
      by (rule inv_index_entry [OF inv ix])
    have "log_range (memory ch) (seg_addr t) (append_header t) es" using *(2) by (simp add: seg_log_def)
    from log_range_entry [OF this *(3)] have "in_seg t a"
      using inv_seg_bounds(2) [OF inv *(1)] *(4) entry_at_simps(4) by (fastforce simp: in_seg_def)
    then have "k \<noteq> ?k" using free ix seg *(1) by auto
    then show ?thesis unfolding indexed_def look using * by auto
  qed
  ultimately show "chunk_inv (drop_segment sr ch)"
    using head inv_head [OF inv] inv_base [OF inv] inv_limit [OF inv]
    unfolding chunk_inv_def eq by (simp add: look)
  show "keeps ch (drop_segment sr ch)" using keeps_refl [OF inv] by (simp add: eq keeps_def)
  show "map_of (segs (drop_segment sr ch)) k = (if k = ?k then None else map_of (segs ch) k)"
    by (simp add: eq look)
qed (simp_all add: drop_segment_def Let_def remove_segment_def split: option.splits)

section \<open>Lemmas: live entries\<close>

lemma live_entry_meta: "live_entry ch e = Some (Some l) \<Longrightarrow> entry_meta l = e"
  by (auto simp: live_entry_def Let_def split: if_splits)

lemma filter_live_Cons:
  assumes "filter_live ch (e # es) = Some les"
  obtains (dead) "live_entry ch e = Some None" "filter_live ch es = Some les"
  | (live) l ls where "live_entry ch e = Some (Some l)" "entry_meta l = e" "filter_live ch es = Some ls" "les = l # ls"
  using assms live_entry_meta [of ch e] by (auto split: option.splits)

lemma filter_live_in:
  assumes "filter_live ch es = Some les" and "le \<in> set les"
  shows "entry_meta le \<in> set es \<and> live_entry ch (entry_meta le) = Some (Some le)"
  using assms
proof (induction es arbitrary: les)
  case (Cons e es)
  from Cons.prems(1) show ?case
    by (cases rule: filter_live_Cons) (use Cons in auto)
qed simp

lemma filter_live_complete:
  assumes "filter_live ch es = Some les" and "e \<in> set es" and "live_entry ch e = Some (Some le)"
  shows "le \<in> set les"
  using assms by (induction es arbitrary: les) (auto split: option.splits)

lemma filter_live_sorted:
  assumes "filter_live ch es = Some les" and "sorted_wrt R es"
  shows "sorted_wrt R (map entry_meta les)"
  using assms
proof (induction es arbitrary: les)
  case (Cons e es)
  from Cons.prems(1) show ?case
  proof (cases rule: filter_live_Cons)
    case dead
    then show ?thesis using Cons by simp
  next
    case (live l ls)
    then have "\<forall>x \<in> set ls. R e (entry_meta x)" using Cons.prems(2) filter_live_in by fastforce
    then show ?thesis using live Cons by simp
  qed
qed simp

lemma filter_live_total:
  "\<forall>e \<in> set es. entry_ok e \<Longrightarrow> \<exists>les. filter_live ch es = Some les"
  by (induction es) (auto simp: entry_ok_def live_entry_def Let_def split: option.splits)

text \<open>What the cleaners learn of one live entry.\<close>

definition live_in :: "'p Chunk \<Rightarrow> Segment \<Rightarrow> Entry \<Rightarrow> bool" where
  "live_in ch seg e = (let f = entry_meta e in
     entry_at (memory ch) (entry_pos f) = Some f \<and> entry_ok f \<and> seg_addr seg \<le> entry_pos f \<and>
     entry_pos f + entry_size f \<le> append_header seg \<and>
     (if entry_type (entry_header f) = CELL
      then entry_content e = EC_Cell (cell_header_from_entry_content_addr (memory ch) (body_pos f)) \<and>
           cell_index ch (hash (cell_header_from_entry_content_addr (memory ch) (body_pos f))) = Some (entry_pos f)
      else \<forall>chd. entry_content e \<noteq> EC_Cell chd))"

lemma live_entries_ok:
  assumes inv: "chunk_inv ch" and seg: "map_of (segs ch) k = Some seg" and les: "live_entries ch seg = Some les"
  shows "\<forall>e \<in> set les. live_in ch seg e"
    and "sorted_wrt (\<lambda>e f. entry_pos e + entry_size e \<le> entry_pos f) (map entry_meta les)"
    and "cell_index ch h = Some a \<Longrightarrow> in_seg seg a \<Longrightarrow>
      \<exists>e \<in> set les. entry_pos (entry_meta e) = a \<and> (\<exists>chd. entry_content e = EC_Cell chd \<and> hash chd = h)"
proof -
  obtain es where es: "seg_log (memory ch) seg es" "\<forall>e \<in> set es. entry_ok e"
    using seg_invD(5) [OF inv_seg [OF inv seg]] by blast
  have fl: "filter_live ch es = Some les" using les seg_log_iter [OF es(1)] by (simp add: live_entries_def)
  have log: "log_range (memory ch) (seg_addr seg) (append_header seg) es" using es(1) by (simp add: seg_log_def)
  show "sorted_wrt (\<lambda>e f. entry_pos e + entry_size e \<le> entry_pos f) (map entry_meta les)"
    by (rule filter_live_sorted [OF fl log_range_sorted [OF log]])
  show "\<forall>e \<in> set les. live_in ch seg e"
  proof
    fix e assume "e \<in> set les"
    then have e: "entry_meta e \<in> set es" "live_entry ch (entry_meta e) = Some (Some e)"
      using filter_live_in [OF fl] by auto
    show "live_in ch seg e" using log_range_entry [OF log e(1)] es(2) e
      by (cases e) (auto simp: live_in_def live_entry_def Let_def split: if_splits)
  qed
  show "\<exists>e \<in> set les. entry_pos (entry_meta e) = a \<and> (\<exists>chd. entry_content e = EC_Cell chd \<and> hash chd = h)"
    if ix: "cell_index ch h = Some a" and a: "in_seg seg a"
  proof -
    obtain j t fs f where *: "map_of (segs ch) j = Some t" "seg_log (memory ch) t fs" "f \<in> set fs"
        "entry_pos f = a" "entry_type (entry_header f) = CELL"
        "hash (cell_header_from_entry_content_addr (memory ch) (body_pos f)) = h"
      by (rule inv_index_entry [OF inv ix])
    have "log_range (memory ch) (seg_addr t) (append_header t) fs" using *(2) by (simp add: seg_log_def)
    from log_range_entry [OF this *(3)] have "in_seg t a"
      using inv_seg_bounds(2) [OF inv *(1)] *(4) entry_at_simps(4) by (fastforce simp: in_seg_def)
    then have "j = k" using segs_apart [OF inv *(1) seg] a by (auto simp: in_seg_def ranges_apart_def)
    then have f: "f \<in> set es" using * seg seg_log_unique [OF es(1)] by auto
    have "\<lparr>entry_meta = f, entry_content = EC_Cell (cell_header_from_entry_content_addr (memory ch) (body_pos f))\<rparr>
        \<in> set les"
      by (rule filter_live_complete [OF fl f]) (use *(4-6) ix in \<open>auto simp: live_entry_def Let_def\<close>)
    then show ?thesis using *(4,6) by force
  qed
qed

section \<open>Lemmas: compaction\<close>

text \<open>The state of the chunk while a segment is compacted in place: the entries moved so far form
  a log up to the cursor, the others are untouched above it.\<close>

definition compacting :: "'p Chunk \<Rightarrow> Segment \<Rightarrow> Entry list \<Rightarrow> addr \<Rightarrow> 'p Chunk \<Rightarrow> bool" where
  "compacting ch0 seg es c ch = (
     ch0\<lparr>memory := memory ch, cell_index := cell_index ch\<rparr> = ch \<and> c \<le> append_header seg \<and>
     (\<forall>x. x < seg_addr seg \<or> c \<le> x \<longrightarrow> memory ch x = memory ch0 x) \<and>
     sorted_wrt (\<lambda>e f. entry_pos e + entry_size e \<le> entry_pos f) (map entry_meta es) \<and>
     (\<forall>e \<in> set es. live_in ch0 seg e \<and> c \<le> entry_pos (entry_meta e) \<and>
        (\<forall>chd. entry_content e = EC_Cell chd \<longrightarrow> cell_index ch (hash chd) = Some (entry_pos (entry_meta e)))) \<and>
     keeps ch0 ch \<and>
     (\<exists>mv. log_range (memory ch) (seg_addr seg) c mv \<and> (\<forall>e \<in> set mv. entry_ok e) \<and>
        (\<forall>h a. cell_index ch h = Some a \<longrightarrow>
           \<not> in_seg seg a \<and> cell_index ch0 h = Some a \<or>
           (\<exists>e \<in> set mv. entry_pos e = a \<and> entry_type (entry_header e) = CELL \<and>
              hash (cell_header_from_entry_content_addr (memory ch) (body_pos e)) = h) \<or>
           (\<exists>e \<in> set es. entry_pos (entry_meta e) = a \<and>
              (\<exists>chd. entry_content e = EC_Cell chd \<and> hash chd = h)))))"

lemma compactingI:
  assumes "ch0\<lparr>memory := memory ch, cell_index := cell_index ch\<rparr> = ch" and "c \<le> append_header seg"
    and "\<And>x. x < seg_addr seg \<or> c \<le> x \<Longrightarrow> memory ch x = memory ch0 x"
    and "sorted_wrt (\<lambda>e f. entry_pos e + entry_size e \<le> entry_pos f) (map entry_meta es)"
    and "\<And>e. e \<in> set es \<Longrightarrow> live_in ch0 seg e \<and> c \<le> entry_pos (entry_meta e)"
    and "\<And>e chd. e \<in> set es \<Longrightarrow> entry_content e = EC_Cell chd \<Longrightarrow>
      cell_index ch (hash chd) = Some (entry_pos (entry_meta e))"
    and "keeps ch0 ch" and "log_range (memory ch) (seg_addr seg) c mv" and "\<forall>e \<in> set mv. entry_ok e"
    and "\<And>h a. cell_index ch h = Some a \<Longrightarrow> \<not> in_seg seg a \<and> cell_index ch0 h = Some a \<or>
      (\<exists>e \<in> set mv. entry_pos e = a \<and> entry_type (entry_header e) = CELL \<and>
         hash (cell_header_from_entry_content_addr (memory ch) (body_pos e)) = h) \<or>
      (\<exists>e \<in> set es. entry_pos (entry_meta e) = a \<and> (\<exists>chd. entry_content e = EC_Cell chd \<and> hash chd = h))"
  shows "compacting ch0 seg es c ch"
  unfolding compacting_def using assms by blast

lemma compacting_start:
  assumes "chunk_inv ch" and "map_of (segs ch) k = Some seg" and "live_entries ch seg = Some les"
  shows "compacting ch seg les (seg_addr seg) ch"
proof -
  note L = live_entries_ok [OF assms]
  have "\<forall>chd. entry_content e = EC_Cell chd \<longrightarrow> cell_index ch (hash chd) = Some (entry_pos (entry_meta e))"
    if "e \<in> set les" for e
    using bspec [OF L(1) that] by (auto simp: live_in_def Let_def split: if_splits)
  moreover have "seg_addr seg \<le> entry_pos (entry_meta e)" if "e \<in> set les" for e
    using bspec [OF L(1) that] by (simp add: live_in_def Let_def)
  moreover have "\<forall>h a. cell_index ch h = Some a \<longrightarrow> \<not> in_seg seg a \<and> cell_index ch h = Some a \<or>
      (\<exists>e \<in> set les. entry_pos (entry_meta e) = a \<and> (\<exists>chd. entry_content e = EC_Cell chd \<and> hash chd = h))"
    using L(3) by blast
  ultimately show ?thesis
    using L(1,2) inv_seg_bounds(1) [OF assms(1,2)] keeps_refl [OF assms(1)]
    unfolding compacting_def by (intro conjI exI [of _ "[]"]) simp_all
qed

lemma compact_entry_Some:
  assumes E: "env_ok E" and st: "compacting ch0 seg (e # es) c ch" and w: "compact_entry E k e c ch = Some ch'"
  shows "memory ch' = mem_move (memory ch) c (entry_pos (entry_meta e)) (entry_size (entry_meta e))"
    and "cell_index ch' = (case entry_content e of
      EC_Cell chd \<Rightarrow> (cell_index ch)(hash chd \<mapsto> c) | _ \<Rightarrow> cell_index ch)"
    and "ch' = ch\<lparr>memory := memory ch', cell_index := cell_index ch'\<rparr>"
proof -
  let ?pos = "entry_pos (entry_meta e)"
  have le: "c \<le> ?pos" and lv: "live_in ch0 seg e"
      and ix: "\<And>chd. entry_content e = EC_Cell chd \<Longrightarrow> cell_index ch (hash chd) = Some ?pos"
    using st by (auto simp: compacting_def)
  note cp = env_okD(3) [OF E, of c ?pos "entry_size (entry_meta e)" "memory ch"]
  have "memory ch' = mem_move (memory ch) c ?pos (entry_size (entry_meta e)) \<and>
      cell_index ch' = (case entry_content e of EC_Cell chd \<Rightarrow> (cell_index ch)(hash chd \<mapsto> c) | _ \<Rightarrow> cell_index ch) \<and>
      ch' = ch\<lparr>memory := memory ch', cell_index := cell_index ch'\<rparr>"
  proof (cases "c = ?pos")
    case True
    then show ?thesis using w ix
      by (auto simp: compact_entry_def mem_move_def fun_upd_idem split: EntryContent.splits)
  next
    case False
    then show ?thesis using w ix lv le cp
      by (auto simp: compact_entry_def Let_def live_in_def relocate_index_def set_index_def
          split: if_splits EntryContent.splits)
  qed
  then show "memory ch' = mem_move (memory ch) c ?pos (entry_size (entry_meta e))"
    and "cell_index ch' = (case entry_content e of EC_Cell chd \<Rightarrow> (cell_index ch)(hash chd \<mapsto> c) | _ \<Rightarrow> cell_index ch)"
    and "ch' = ch\<lparr>memory := memory ch', cell_index := cell_index ch'\<rparr>"
    by auto
qed

lemma indexedI:
  "sgs k = Some seg \<Longrightarrow> seg_log m seg es \<Longrightarrow> e \<in> set es \<Longrightarrow> entry_pos e = a \<Longrightarrow>
     entry_type (entry_header e) = CELL \<Longrightarrow> hash (cell_header_from_entry_content_addr m (body_pos e)) = h \<Longrightarrow>
     indexed m sgs h a"
  unfolding indexed_def by blast

lemma index_outside:
  assumes inv: "chunk_inv ch" and seg: "map_of (segs ch) k = Some seg"
    and ix: "cell_index ch h = Some a" and out: "\<not> in_seg seg a"
  obtains j t fs f where "j \<noteq> k" "map_of (segs ch) j = Some t" "seg_log (memory ch) t fs" "f \<in> set fs"
    "entry_pos f = a" "entry_type (entry_header f) = CELL"
    "hash (cell_header_from_entry_content_addr (memory ch) (body_pos f)) = h" "entry_ok f"
    "entry_at (memory ch) a = Some f" "\<And>x. a \<le> x \<Longrightarrow> x < a + entry_size f \<Longrightarrow> \<not> in_seg seg x"
proof -
  obtain j t fs f where *: "map_of (segs ch) j = Some t" "seg_log (memory ch) t fs" "f \<in> set fs"
      "entry_pos f = a" "entry_at (memory ch) a = Some f" "entry_type (entry_header f) = CELL"
      "hash (cell_header_from_entry_content_addr (memory ch) (body_pos f)) = h" "entry_ok f"
    by (rule inv_index_entry [OF inv ix])
  have "log_range (memory ch) (seg_addr t) (append_header t) fs" using *(2) by (simp add: seg_log_def)
  note R = log_range_entry [OF this *(3)]
  have t: "in_seg t x" if "a \<le> x" "x < a + entry_size f" for x
    using R *(4) that inv_seg_bounds(2) [OF inv *(1)] by (simp add: in_seg_def)
  have "j \<noteq> k"
    using t [of a] entry_at_simps(4) [OF *(5)] out *(1) seg by auto
  moreover have "\<not> in_seg seg x" if "a \<le> x" "x < a + entry_size f" for x
    using t [OF that] segs_apart [OF inv *(1) seg \<open>j \<noteq> k\<close>] by (auto simp: in_seg_def ranges_apart_def)
  ultimately show ?thesis using that * by blast
qed

lemma same_entryI:
  "entry_at m a = Some f \<Longrightarrow> (\<And>x. a \<le> x \<Longrightarrow> x < a + entry_size f \<Longrightarrow> m' x = m x) \<Longrightarrow> same_entry m m' a a"
  unfolding same_entry_def by (auto intro!: load_bytes_eqI)

lemma entry_header_frame:
  assumes "entry_at m a = Some f" "entry_ok f" "\<And>x. a \<le> x \<Longrightarrow> x < a + entry_size f \<Longrightarrow> m' x = m x"
  shows "cell_header_from_entry_content_addr m' (body_pos f) = cell_header_from_entry_content_addr m (body_pos f)"
  using entry_header_bytes [OF assms(1,2), of m' a] load_bytes_eqI [of a _ m' m] assms(3)
    entry_at_simps(2) [OF assms(1)] by auto

text \<open>Where the index points while a segment is compacted, and that the copy of one entry leaves
  the other entries alone.\<close>

lemma compacting_index:
  assumes inv: "chunk_inv ch0" and seg: "map_of (segs ch0) k = Some seg"
    and st: "compacting ch0 seg es c ch" and ix: "cell_index ch h = Some a"
  shows "\<exists>f. entry_at (memory ch) a = Some f \<and>
    ((\<forall>x. a \<le> x \<longrightarrow> x < a + entry_size f \<longrightarrow> x < c \<or> \<not> in_seg seg x) \<or>
     (\<exists>e \<in> set es. entry_meta e = f \<and> entry_pos f = a \<and> (\<exists>chd. entry_content e = EC_Cell chd \<and> hash chd = h)))"
proof -
  obtain mv where mv: "log_range (memory ch) (seg_addr seg) c mv" "\<forall>e \<in> set mv. entry_ok e"
      and cases: "\<not> in_seg seg a \<and> cell_index ch0 h = Some a \<or> (\<exists>e \<in> set mv. entry_pos e = a) \<or>
        (\<exists>e \<in> set es. entry_pos (entry_meta e) = a \<and> (\<exists>chd. entry_content e = EC_Cell chd \<and> hash chd = h))"
    using st ix unfolding compacting_def by blast
  have mem: "\<And>x. x < seg_addr seg \<or> c \<le> x \<Longrightarrow> memory ch x = memory ch0 x"
    and c: "c \<le> append_header seg" using st by (auto simp: compacting_def)
  note B = inv_seg_bounds [OF inv seg]
  from cases consider (out) "\<not> in_seg seg a" "cell_index ch0 h = Some a"
    | (moved) e where "e \<in> set mv" "entry_pos e = a"
    | (todo) e chd where "e \<in> set es" "entry_pos (entry_meta e) = a" "entry_content e = EC_Cell chd" "hash chd = h"
    by blast
  then show ?thesis
  proof cases
    case out
    obtain f where f: "entry_at (memory ch0) a = Some f"
        "\<And>x. a \<le> x \<Longrightarrow> x < a + entry_size f \<Longrightarrow> \<not> in_seg seg x"
      by (rule index_outside [OF inv seg out(2,1)]) blast
    have "entry_at (memory ch) a = Some f"
    proof (rule entry_at_frame [OF f(1)], rule mem)
      fix x assume "a \<le> x" "x < a + entry_size f"
      from f(2) [OF this] show "x < seg_addr seg \<or> c \<le> x" using c B by (auto simp: in_seg_def)
    qed
    then show ?thesis using f(2) by auto
  next
    case moved
    then show ?thesis using log_range_entry [OF mv(1) moved(1)] by (intro exI [of _ e]) auto
  next
    case todo
    then have e: "live_in ch0 seg e" "c \<le> a" using st by (auto simp: compacting_def)
    then have "entry_at (memory ch0) a = Some (entry_meta e)" using todo by (simp add: live_in_def Let_def)
    then have "entry_at (memory ch) a = Some (entry_meta e)"
      by (rule entry_at_frame) (use mem e(2) in simp)
    then show ?thesis using todo by blast
  qed
qed

text \<open>One copied entry: the bytes and the index entries it moves.\<close>

lemma compact_entry_rel:
  assumes E: "env_ok E" and inv: "chunk_inv ch0" and seg: "map_of (segs ch0) k = Some seg"
    and st: "compacting ch0 seg (e # es) c ch" and w: "compact_entry E k e c ch = Some ch'"
  shows "rel_option (same_entry (memory ch) (memory ch')) (cell_index ch h) (cell_index ch' h)"
proof (cases "cell_index ch h")
  case None
  then show ?thesis using compact_entry_Some(2) [OF E st w] st
    by (auto simp: compacting_def split: EntryContent.splits)
next
  case (Some a)
  let ?f = "entry_meta e"
  let ?pos = "entry_pos ?f"
  note C = compact_entry_Some [OF E st w]
  have e: "live_in ch0 seg e" "c \<le> ?pos" "seg_addr seg \<le> ?pos" "?pos + entry_size ?f \<le> append_header seg"
      and rest: "\<And>e'. e' \<in> set es \<Longrightarrow> ?pos + entry_size ?f \<le> entry_pos (entry_meta e')"
      and ix: "\<And>e' chd. e' \<in> set (e # es) \<Longrightarrow> entry_content e' = EC_Cell chd \<Longrightarrow>
        cell_index ch (hash chd) = Some (entry_pos (entry_meta e'))"
      and mem: "\<And>x. c \<le> x \<Longrightarrow> memory ch x = memory ch0 x"
    using st by (auto simp: compacting_def live_in_def Let_def)
  have pos: "0 < entry_size ?f" using e(1) entry_at_simps(4) by (auto simp: live_in_def Let_def)
  note B = inv_seg_bounds [OF inv seg]
  have out: "memory ch' x = memory ch x" if "x < c \<or> c + entry_size ?f \<le> x" for x
    unfolding C(1) mem_move_def using that by (intro store_bytes_other) simp
  have ci: "cell_index ch' h = Some a" if "a \<noteq> ?pos"
    using C(2) Some ix [of e] that by (auto split: EntryContent.splits)
  obtain f where f: "entry_at (memory ch) a = Some f"
      and cases: "(\<forall>x. a \<le> x \<longrightarrow> x < a + entry_size f \<longrightarrow> x < c \<or> \<not> in_seg seg x) \<or>
        (\<exists>e' \<in> set (e # es). entry_meta e' = f \<and> entry_pos f = a \<and> (\<exists>chd. entry_content e' = EC_Cell chd \<and> hash chd = h))"
    using compacting_index [OF inv seg st Some] by blast
  consider (other) "\<forall>x. a \<le> x \<longrightarrow> x < a + entry_size f \<longrightarrow> x < c \<or> c + entry_size ?f \<le> x" "a \<noteq> ?pos"
    | (self) chd where "entry_content e = EC_Cell chd" "hash chd = h" "a = ?pos" "f = ?f"
  proof (cases "\<exists>chd. entry_content e = EC_Cell chd \<and> hash chd = h \<and> ?pos = a \<and> ?f = f")
    case True
    then show ?thesis using that(2) by blast
  next
    case False
    have sg: "in_seg seg ?pos" using e B pos by (simp add: in_seg_def)
    from cases show ?thesis
    proof
      assume A: "\<forall>x. a \<le> x \<longrightarrow> x < a + entry_size f \<longrightarrow> x < c \<or> \<not> in_seg seg x"
      have "a \<noteq> ?pos" using A entry_at_simps(4) [OF f] sg e(2) by auto
      moreover have "x < c \<or> c + entry_size ?f \<le> x" if "\<not> in_seg seg x" for x
      proof (cases "x < c")
        case False
        have "seg_addr seg \<le> c" using st by (auto simp: compacting_def dest: log_range_le)
        then show ?thesis using that False e B by (auto simp: in_seg_def)
      qed simp
      ultimately show ?thesis using that(1) A by blast
    next
      assume "\<exists>e' \<in> set (e # es). entry_meta e' = f \<and> entry_pos f = a \<and> (\<exists>chd. entry_content e' = EC_Cell chd \<and> hash chd = h)"
      then obtain e' where "e' \<in> set es" "entry_meta e' = f" "entry_pos f = a" using False by auto
      then show ?thesis using that(1) rest [of e'] pos e(2) by auto
    qed
  qed
  then show ?thesis
  proof cases
    case other
    then show ?thesis using ci Some out same_entryI [OF f, of "memory ch'"] by auto
  next
    case self
    then have "same_entry (memory ch) (memory ch') ?pos c" using f C(1) by (auto simp: same_entry_def)
    then show ?thesis using self C(2) Some by simp
  qed
qed

lemma compacting_step:
  assumes E: "env_ok E" and inv: "chunk_inv ch0" and seg: "map_of (segs ch0) k = Some seg"
    and st: "compacting ch0 seg (e # es) c ch" and w: "compact_entry E k e c ch = Some ch'"
  shows "compacting ch0 seg es (c + entry_size (entry_meta e)) ch'"
proof -
  let ?f = "entry_meta e"
  let ?pos = "entry_pos ?f" and ?sz = "entry_size ?f"
  let ?g = "?f\<lparr>body_pos := c + (body_pos ?f - ?pos), entry_pos := c\<rparr>"
  note C = compact_entry_Some [OF E st w]
  have eq: "ch = ch0\<lparr>memory := memory ch, cell_index := cell_index ch\<rparr>" using st by (simp add: compacting_def)
  have e: "entry_at (memory ch0) ?pos = Some ?f" "entry_ok ?f" "c \<le> ?pos" "?pos + ?sz \<le> append_header seg"
      "entry_type (entry_header ?f) = CELL \<longleftrightarrow> (\<exists>chd. entry_content e = EC_Cell chd)"
      "\<And>chd. entry_content e = EC_Cell chd \<Longrightarrow> chd = cell_header_from_entry_content_addr (memory ch0) (body_pos ?f)"
      and mem: "\<And>x. x < seg_addr seg \<or> c \<le> x \<Longrightarrow> memory ch x = memory ch0 x"
      and k0: "keeps ch0 ch"
    using st by (auto simp: compacting_def live_in_def Let_def split: if_splits)
  have rest: "live_in ch0 seg e' \<and> ?pos + ?sz \<le> entry_pos (entry_meta e') \<and> (\<forall>chd. entry_content e' = EC_Cell chd \<longrightarrow>
      cell_index ch (hash chd) = Some (entry_pos (entry_meta e')))" if "e' \<in> set es" for e'
    using st that by (auto simp: compacting_def)
  have ix: "cell_index ch (hash chd) = Some ?pos" if "entry_content e = EC_Cell chd" for chd
    using st that by (auto simp: compacting_def)
  have pos: "0 < ?sz" by (rule entry_at_simps(4) [OF e(1)])
  obtain mv where mv: "log_range (memory ch) (seg_addr seg) c mv" "\<forall>e \<in> set mv. entry_ok e"
      and at: "\<And>h a. cell_index ch h = Some a \<Longrightarrow> \<not> in_seg seg a \<and> cell_index ch0 h = Some a \<or>
        (\<exists>e \<in> set mv. entry_pos e = a \<and> entry_type (entry_header e) = CELL \<and>
           hash (cell_header_from_entry_content_addr (memory ch) (body_pos e)) = h) \<or>
        (\<exists>e \<in> set (e # es). entry_pos (entry_meta e) = a \<and> (\<exists>chd. entry_content e = EC_Cell chd \<and> hash chd = h))"
    using st unfolding compacting_def by blast
  have out: "memory ch' x = memory ch x" if "x < c \<or> c + ?sz \<le> x" for x
    unfolding C(1) mem_move_def using that by (intro store_bytes_other) simp
  have bytes: "load_bytes (memory ch') c ?sz = load_bytes (memory ch0) ?pos ?sz"
    unfolding C(1) load_mem_move_same using mem e(3) by (intro load_bytes_eqI) simp
  have g: "entry_at (memory ch') c = Some ?g" by (rule entry_at_move [OF e(1) bytes])
  have hdr: "cell_header_from_entry_content_addr (memory ch') (body_pos ?g) =
      cell_header_from_entry_content_addr (memory ch0) (body_pos ?f)"
    using entry_header_bytes [OF e(1,2) bytes] by simp
  have log: "log_range (memory ch') (seg_addr seg) (c + ?sz) (mv @ [?g])"
    using log_range_frame [OF mv(1), of "memory ch'"] out g
    by (intro log_range_append [of _ _ c]) (auto simp del: log_range.simps(2) intro!: log_range_single)
  have place: "\<not> in_seg seg a \<and> cell_index ch0 h = Some a \<or>
      (\<exists>e \<in> set (mv @ [?g]). entry_pos e = a \<and> entry_type (entry_header e) = CELL \<and>
         hash (cell_header_from_entry_content_addr (memory ch') (body_pos e)) = h) \<or>
      (\<exists>e \<in> set es. entry_pos (entry_meta e) = a \<and> (\<exists>chd. entry_content e = EC_Cell chd \<and> hash chd = h))"
    if ci: "cell_index ch' h = Some a" for h a
  proof (cases "\<exists>chd. entry_content e = EC_Cell chd \<and> hash chd = h")
    case True
    then show ?thesis using ci C(2) e(5,6) hdr by auto
  next
    case False
    then have "cell_index ch h = Some a" using ci C(2) by (auto split: EntryContent.splits if_splits)
    from at [OF this] show ?thesis
    proof (elim disjE)
      assume "\<exists>e \<in> set mv. entry_pos e = a \<and> entry_type (entry_header e) = CELL \<and>
           hash (cell_header_from_entry_content_addr (memory ch) (body_pos e)) = h"
      then obtain f where f: "f \<in> set mv" "entry_pos f = a" "entry_type (entry_header f) = CELL"
          "hash (cell_header_from_entry_content_addr (memory ch) (body_pos f)) = h" by blast
      have "cell_header_from_entry_content_addr (memory ch') (body_pos f) =
          cell_header_from_entry_content_addr (memory ch) (body_pos f)"
        using log_range_entry [OF mv(1) f(1)] mv(2) f(1) out by (intro entry_header_frame) auto
      then show ?thesis using f by auto
    qed (use False in auto)
  qed
  have "keeps ch ch'"
    using compact_entry_rel [OF E inv seg st w] arg_cong [OF C(3), of schemas] by (simp add: keeps_def)
  then have keep: "keeps ch0 ch'" using k0 by (rule keeps_trans [rotated])
  have idx: "cell_index ch' (hash chd) = Some (entry_pos (entry_meta e'))"
    if "e' \<in> set es" "entry_content e' = EC_Cell chd" for e' chd
    using rest [OF that(1)] that(2) C(2) ix pos by (auto split: EntryContent.splits)
  have rec: "ch0\<lparr>memory := memory ch', cell_index := cell_index ch'\<rparr> = ch'"
  proof -
    have "ch' = (ch0\<lparr>memory := memory ch, cell_index := cell_index ch\<rparr>)
        \<lparr>memory := memory ch', cell_index := cell_index ch'\<rparr>"
      using C(3) by (subst (asm) eq)
    then show ?thesis by simp
  qed
  have ok: "\<forall>e \<in> set (mv @ [?g]). entry_ok e" using e(2) mv(2) by (simp add: entry_ok_def)
  have memo: "memory ch' x = memory ch0 x" if "x < seg_addr seg \<or> c + ?sz \<le> x" for x
    using that out mem log_range_le [OF mv(1)] by auto
  have srt: "sorted_wrt (\<lambda>e f. entry_pos e + entry_size e \<le> entry_pos f) (map entry_meta es)"
    using st by (simp add: compacting_def)
  have above: "live_in ch0 seg e' \<and> c + ?sz \<le> entry_pos (entry_meta e')" if "e' \<in> set es" for e'
    using rest [OF that] e(3) by simp
  have "c + ?sz \<le> append_header seg" using e(3,4) by simp
  from compactingI [OF rec this memo srt above idx keep log ok place] show ?thesis .
qed

lemma compacting_loop:
  assumes "env_ok E" and "chunk_inv ch0" and "map_of (segs ch0) k = Some seg"
    and "compacting ch0 seg es c ch" and "compact_entries E k es c ch = Some (c', ch')"
  shows "compacting ch0 seg [] c' ch' \<and> c' = c + sum_list (map (entry_size \<circ> entry_meta) es)"
  using assms(4,5)
proof (induction es arbitrary: c ch)
  case (Cons e es)
  then obtain ch1 where ch1: "compact_entry E k e c ch = Some ch1"
      "compact_entries E k es (c + entry_size (entry_meta e)) ch1 = Some (c', ch')"
    by (auto split: option.splits)
  from Cons.IH [OF compacting_step [OF assms(1-3) Cons.prems(1) ch1(1)] ch1(2)] show ?case by auto
qed simp

text \<open>The compacted segment with its new append header and its tail released.\<close>

lemma compacting_finish:
  assumes E: "env_ok E" and inv: "chunk_inv ch0" and seg: "map_of (segs ch0) k = Some seg"
    and st: "compacting ch0 seg [] c ch"
    and ch': "ch' = (modify_segment k (\<lambda>s. s\<lparr>append_header := c\<rparr>) ch)
      \<lparr>memory := shrink (env_advise E) seg (c - seg_addr seg) (memory ch)\<rparr>"
  shows "chunk_inv ch'" and "keeps ch0 ch'"
proof -
  let ?seg = "seg\<lparr>append_header := c\<rparr>"
  have eq: "ch = ch0\<lparr>memory := memory ch, cell_index := cell_index ch\<rparr>" using st by (simp add: compacting_def)
  have segs: "segs ch = segs ch0" and al: "allocator ch = allocator ch0" "head_seg_id ch = head_seg_id ch0"
      "schemas ch = schemas ch0"
    using arg_cong [OF eq, of segs] arg_cong [OF eq, of allocator] arg_cong [OF eq, of head_seg_id]
      arg_cong [OF eq, of schemas] by simp_all
  note B = inv_seg_bounds [OF inv seg]
  note S = seg_invD [OF inv_seg [OF inv seg]]
  obtain mv where mv: "log_range (memory ch) (seg_addr seg) c mv" "\<forall>e \<in> set mv. entry_ok e"
      and at: "\<And>h a. cell_index ch h = Some a \<Longrightarrow> \<not> in_seg seg a \<and> cell_index ch0 h = Some a \<or>
        (\<exists>e \<in> set mv. entry_pos e = a \<and> entry_type (entry_header e) = CELL \<and>
           hash (cell_header_from_entry_content_addr (memory ch) (body_pos e)) = h)"
    using st unfolding compacting_def by auto
  have c: "seg_addr seg \<le> c" "c \<le> append_header seg" using log_range_le [OF mv(1)] st by (auto simp: compacting_def)
  have mem: "memory ch' x = memory ch x" if "x < c \<or> \<not> in_seg seg x" for x
  proof -
    have "shrink (env_advise E) seg (c - seg_addr seg) (memory ch) x = memory ch x"
      by (rule shrink_frame) (use that c env_okD(2) [OF E] in \<open>auto simp: in_seg_def\<close>)
    then show ?thesis by (simp add: ch')
  qed
  have mem0: "memory ch' x = memory ch0 x" if "\<not> in_seg seg x" for x
    using mem that st B c by (auto simp: compacting_def in_seg_def)
  have look: "map_of (segs ch') j = (if j = k then Some ?seg else map_of (segs ch0) j)" for j
    using seg by (simp add: ch' segs)
  have log: "log_range (memory ch') (seg_addr seg) c mv" by (rule log_range_frame [OF mv(1)]) (simp add: mem)
  have other: "seg_log (memory ch') t es" if "map_of (segs ch0) j = Some t" "j \<noteq> k" "seg_log (memory ch0) t es" for j t es
    using that(3) mem0 segs_apart [OF inv that(1) seg that(2)] inv_seg_bounds(2) [OF inv that(1)]
    by (auto simp: seg_log_def in_seg_def ranges_apart_def intro!: log_range_frame [of "memory ch0"])
  have "seg_inv (memory ch') (allocator ch0) j t" if "map_of (segs ch') j = Some t" for j t
  proof (cases "j = k")
    case True
    then have "t = ?seg" using that look by simp
    moreover have "seg_log (memory ch') ?seg mv" using log c(2) B S(3) by (simp add: seg_log_def)
    ultimately show ?thesis using S(1-4) mv(2) True by (auto simp: seg_inv_def)
  next
    case False
    then show ?thesis using that look inv_seg [OF inv] other unfolding seg_inv_def by metis
  qed
  moreover have "indexed (memory ch') (map_of (segs ch')) h a" if ix: "cell_index ch h = Some a" for h a
    using at [OF ix]
  proof
    assume "\<not> in_seg seg a \<and> cell_index ch0 h = Some a"
    then have ci: "cell_index ch0 h = Some a" and o: "\<not> in_seg seg a" by auto
    obtain j t fs f where *: "j \<noteq> k" "map_of (segs ch0) j = Some t" "seg_log (memory ch0) t fs" "f \<in> set fs"
        "entry_pos f = a" "entry_type (entry_header f) = CELL"
        "hash (cell_header_from_entry_content_addr (memory ch0) (body_pos f)) = h" "entry_ok f"
        "entry_at (memory ch0) a = Some f" "\<And>x. a \<le> x \<Longrightarrow> x < a + entry_size f \<Longrightarrow> \<not> in_seg seg x"
      by (rule index_outside [OF inv seg ci o]) blast
    have "cell_header_from_entry_content_addr (memory ch') (body_pos f) =
        cell_header_from_entry_content_addr (memory ch0) (body_pos f)"
      by (rule entry_header_frame [OF *(9,8)]) (use *(10) mem0 in blast)
    then show ?thesis using * look by (intro indexedI [OF _ other [OF *(2,1,3)] *(4)]) auto
  next
    assume "\<exists>e \<in> set mv. entry_pos e = a \<and> entry_type (entry_header e) = CELL \<and>
        hash (cell_header_from_entry_content_addr (memory ch) (body_pos e)) = h"
    then obtain f where f: "f \<in> set mv" "entry_pos f = a" "entry_type (entry_header f) = CELL"
        "hash (cell_header_from_entry_content_addr (memory ch) (body_pos f)) = h" by blast
    have "cell_header_from_entry_content_addr (memory ch') (body_pos f) =
        cell_header_from_entry_content_addr (memory ch) (body_pos f)"
      using log_range_entry [OF mv(1) f(1)] mv(2) f(1) mem by (intro entry_header_frame) auto
    moreover have "seg_log (memory ch') ?seg mv" using log c(2) B S(3) by (simp add: seg_log_def)
    ultimately show ?thesis using f look by (intro indexedI [of _ k ?seg _ mv f]) auto
  qed
  moreover have "map (seg_addr \<circ> snd) (segs ch') = map (seg_addr \<circ> snd) (segs ch0)"
    unfolding ch' modify_segment_def by (simp add: segs map_entry_core)
  ultimately show "chunk_inv ch'"
    using inv_distinct [OF inv] inv_alloc [OF inv] inv_base [OF inv] inv_limit [OF inv] inv_head [OF inv] al look
    unfolding chunk_inv_def by (simp add: ch' segs)
  have "rel_option (same_entry (memory ch) (memory ch')) (cell_index ch h) (cell_index ch h)" for h
  proof (cases "cell_index ch h")
    case (Some a)
    then obtain f where "entry_at (memory ch) a = Some f"
        "\<forall>x. a \<le> x \<longrightarrow> x < a + entry_size f \<longrightarrow> x < c \<or> \<not> in_seg seg x"
      using compacting_index [OF inv seg st Some] by auto
    then have "same_entry (memory ch) (memory ch') a a" using mem by (auto intro!: same_entryI)
    then show ?thesis using Some by simp
  qed simp
  then have "keeps ch ch'" by (simp add: keeps_def ch')
  moreover have "keeps ch0 ch" using st by (simp add: compacting_def)
  ultimately show "keeps ch0 ch'" by (rule keeps_trans [rotated])
qed

text \<open>What the cleaning of the segment with key \<open>k\<close> leaves alone.\<close>

definition same_but :: "nat \<Rightarrow> 'p Chunk \<Rightarrow> 'p Chunk \<Rightarrow> bool" where
  "same_but k ch ch' = ((\<forall>j. j \<noteq> k \<longrightarrow> map_of (segs ch') j = map_of (segs ch) j) \<and>
     head_seg_id ch' = head_seg_id ch \<and> cell_locks ch' = cell_locks ch)"

lemma current_seg_Some: "map_of (segs ch) (unat (seg_id sr)) = Some seg \<Longrightarrow> current_seg ch sr = seg"
  by (simp add: current_seg_def)

text \<open>The two outcomes of \<^verbatim>\<open>clean_segment\<close> on a segment with dead space.\<close>

lemma clean_segment_cases:
  assumes E: "env_ok E" and inv: "chunk_inv ch" and seg: "map_of (segs ch) (unat (seg_id sr)) = Some seg"
    and w: "clean_segment E sr ch = Some (n, ch')"
  obtains (skip) "total_dead_space seg = 0" "n = 0" "ch' = ch"
  | (empty) "live_entries ch seg = Some []" "n = SEGMENT_SIZE" "ch' = drop_segment seg ch"
  | (moved) es c ch1 where "live_entries ch seg = Some es" "es \<noteq> []" "compacting ch seg [] c ch1"
      "c = seg_addr seg + sum_list (map (entry_size \<circ> entry_meta) es)" "n = 0"
      "ch' = (modify_segment (unat (seg_id sr)) (\<lambda>s. s\<lparr>append_header := c\<rparr>) ch1)
        \<lparr>memory := shrink (env_advise E) seg (c - seg_addr seg) (memory ch1)\<rparr>"
proof -
  let ?k = "unat (seg_id sr)"
  have k: "unat (seg_id seg) = ?k" using seg_invD(1) [OF inv_seg [OF inv seg]] by simp
  have cur: "current_seg ch sr = seg" using seg by (rule current_seg_Some)
  show ?thesis
  proof (cases "total_dead_space seg = 0")
    case True
    then show ?thesis using w cur that(1) by (simp add: clean_segment_def)
  next
    case False
    then obtain es where es: "live_entries ch seg = Some es"
      using w cur by (auto simp: clean_segment_def Let_def split: option.splits)
    show ?thesis
    proof (cases "es = []")
      case True
      then show ?thesis using w cur es False that(2) by (simp add: clean_segment_def)
    next
      case ne: False
      obtain c ch1 where l: "compact_entries E ?k es (seg_addr seg) ch = Some (c, ch1)"
        using w cur es False ne k by (auto simp: clean_segment_def Let_def split: option.splits)
      note L = compacting_loop [OF E inv seg compacting_start [OF inv seg es] l]
      let ?ch' = "(modify_segment ?k (\<lambda>s. s\<lparr>append_header := c\<rparr>) ch1)
        \<lparr>memory := shrink (env_advise E) seg (c - seg_addr seg) (memory ch1)\<rparr>"
      have w': "ch' = ?ch'" and n: "n = unat (used_spaces (current_seg ?ch' seg)) -
          sum_list (map (entry_size \<circ> entry_meta) es)"
        using w cur es False ne k l by (auto simp: clean_segment_def Let_def)
      have rec: "ch\<lparr>memory := memory ch1, cell_index := cell_index ch1\<rparr> = ch1" and c: "c \<le> append_header seg"
        using L by (auto simp: compacting_def)
      have "segs ch1 = segs ch" using arg_cong [OF rec, of segs] by simp
      then have "current_seg ?ch' seg = seg\<lparr>append_header := c\<rparr>" using seg k by (simp add: current_seg_def)
      moreover have "c - seg_addr seg < 2 ^ 32"
        using c inv_seg_bounds(2) [OF inv seg] by (simp add: SEGMENT_SIZE_def)
      ultimately have "unat (used_spaces (current_seg ?ch' seg)) = c - seg_addr seg"
        by (simp add: used_spaces_def unat_of_nat)
      then have "n = 0" using n L by simp
      from that(3) [OF es ne conjunct1 [OF L] conjunct2 [OF L] this w'] show ?thesis .
    qed
  qed
qed

lemma compacting_rec:
  assumes "compacting ch0 seg es c ch"
  shows "segs ch = segs ch0" "head_seg_id ch = head_seg_id ch0" "cell_locks ch = cell_locks ch0"
proof -
  have rec: "ch0\<lparr>memory := memory ch, cell_index := cell_index ch\<rparr> = ch" using assms by (simp add: compacting_def)
  show "segs ch = segs ch0" "head_seg_id ch = head_seg_id ch0" "cell_locks ch = cell_locks ch0"
    using arg_cong [OF rec, of segs] arg_cong [OF rec, of head_seg_id] arg_cong [OF rec, of cell_locks] by simp_all
qed

lemma clean_segment_ok:
  assumes E: "env_ok E" and inv: "chunk_inv ch" and seg: "map_of (segs ch) (unat (seg_id sr)) = Some seg"
    and head: "unat (seg_id sr) \<noteq> unat (head_seg_id ch)" and w: "clean_segment E sr ch = Some (n, ch')"
  shows "chunk_inv ch'" and "keeps ch ch'" and "same_but (unat (seg_id sr)) ch ch'"
proof -
  have k: "unat (seg_id seg) = unat (seg_id sr)" using seg_invD(1) [OF inv_seg [OF inv seg]] by simp
  have "chunk_inv ch' \<and> keeps ch ch' \<and> same_but (unat (seg_id sr)) ch ch'"
  proof (cases rule: clean_segment_cases [OF E inv seg w])
    case 1
    then show ?thesis using inv keeps_refl [OF inv] by (simp add: same_but_def)
  next
    case 2
    have "\<forall>h a. cell_index ch h = Some a \<longrightarrow> \<not> in_seg seg a"
      using live_entries_ok(3) [OF inv seg 2(1)] by auto
    note D = drop_segment_ok [OF inv, of seg seg, unfolded k, OF seg head this]
    show ?thesis using D(1,2) D(3-5) unfolding 2(3) by (auto simp: same_but_def)
  next
    case (3 es c ch1)
    note R = compacting_rec [OF 3(3)]
    from compacting_finish [OF E inv seg 3(3,6)] show ?thesis
      by (simp add: 3(6) same_but_def R)
  qed
  then show "chunk_inv ch'" and "keeps ch ch'" and "same_but (unat (seg_id sr)) ch ch'" by auto
qed

text \<open>Compaction needs no guard that the caller holds when it holds none.\<close>

lemma compact_entries_total:
  assumes E: "env_ok E" and inv: "chunk_inv ch0" and seg: "map_of (segs ch0) k = Some seg" and l: "cell_locks ch0 = {}"
  shows "compacting ch0 seg es c ch \<Longrightarrow> \<exists>r. compact_entries E k es c ch = Some r"
proof (induction es arbitrary: c ch)
  case (Cons e es)
  have "live_in ch0 seg e" "\<And>chd. entry_content e = EC_Cell chd \<Longrightarrow> cell_index ch (hash chd) = Some (entry_pos (entry_meta e))"
    using Cons.prems by (auto simp: compacting_def)
  then obtain ch1 where ch1: "compact_entry E k e c ch = Some ch1"
    using l compacting_rec(3) [OF Cons.prems]
    by (fastforce simp: compact_entry_def Let_def live_in_def relocate_index_def split: if_splits)
  from Cons.IH [OF compacting_step [OF E inv seg Cons.prems ch1]] ch1 show ?case by simp
qed simp

lemma clean_segment_total:
  assumes E: "env_ok E" and inv: "chunk_inv ch" and seg: "map_of (segs ch) (unat (seg_id sr)) = Some seg"
    and l: "cell_locks ch = {}"
  shows "\<exists>n ch'. clean_segment E sr ch = Some (n, ch')"
proof -
  have k: "unat (seg_id seg) = unat (seg_id sr)" using seg_invD(1) [OF inv_seg [OF inv seg]] by simp
  obtain es where es: "seg_log (memory ch) seg es" "\<forall>e \<in> set es. entry_ok e"
    using seg_invD(5) [OF inv_seg [OF inv seg]] by blast
  obtain les where les: "live_entries ch seg = Some les"
    using filter_live_total [OF es(2)] seg_log_iter [OF es(1)] by (auto simp: live_entries_def)
  obtain c ch1 where "compact_entries E (unat (seg_id sr)) les (seg_addr seg) ch = Some (c, ch1)"
    using compact_entries_total [OF E inv seg l compacting_start [OF inv seg les]] by auto
  then show ?thesis using les k by (simp add: clean_segment_def Let_def current_seg_Some [OF seg])
qed

lemma clean_segments_ok:
  assumes E: "env_ok E" and "chunk_inv ch" and "distinct (map (unat \<circ> seg_id) ss)"
    and "\<forall>s \<in> set ss. map_of (segs ch) (unat (seg_id s)) \<noteq> None \<and> unat (seg_id s) \<noteq> unat (head_seg_id ch)"
    and "clean_segments E ss ch = Some (n, ch')"
  shows "chunk_inv ch' \<and> keeps ch ch' \<and> head_seg_id ch' = head_seg_id ch \<and> cell_locks ch' = cell_locks ch"
  using assms(2-5)
proof (induction ss arbitrary: ch n)
  case Nil
  then show ?case by (auto simp: keeps_refl)
next
  case (Cons s ss)
  obtain n1 ch1 n2 where c: "clean_segment E s ch = Some (n1, ch1)" "clean_segments E ss ch1 = Some (n2, ch')"
    using Cons.prems(4) by (auto split: option.splits)
  obtain seg where seg: "map_of (segs ch) (unat (seg_id s)) = Some seg" using Cons.prems(3) by auto
  have head: "unat (seg_id s) \<noteq> unat (head_seg_id ch)" using Cons.prems(3) by simp
  note C = clean_segment_ok [OF E Cons.prems(1) seg head c(1)]
  have "(unat \<circ> seg_id) t \<noteq> (unat \<circ> seg_id) s" if "t \<in> set ss" for t
    using Cons.prems(2) imageI [OF that, of "unat \<circ> seg_id"] by (simp only: list.map distinct.simps(2) set_map) metis
  then have "map_of (segs ch1) (unat (seg_id t)) = map_of (segs ch) (unat (seg_id t))" if "t \<in> set ss" for t
    using C(3) that by (simp add: same_but_def)
  then have "\<forall>t \<in> set ss. map_of (segs ch1) (unat (seg_id t)) \<noteq> None \<and> unat (seg_id t) \<noteq> unat (head_seg_id ch1)"
    using Cons.prems(3) C(3) by (simp add: same_but_def)
  from Cons.IH [OF C(1) _ this c(2)] show ?case
    using Cons.prems(2) C(2,3) keeps_trans by (auto simp: same_but_def)
qed

section \<open>Lemmas: packing\<close>

definition pack_inv :: "DummyEntry list \<Rightarrow> PackState \<Rightarrow> bool" where
  "pack_inv entries s = (entries \<noteq> [] \<and> map fst (pk_entries s) = entries \<and>
     pk_to_claim s = length (filter (Not \<circ> snd) (pk_entries s)) \<and>
     mset (map fst (filter snd (pk_entries s))) = mset (concat (map ds_entries (pk_last s # pk_done s))) \<and>
     (\<forall>d \<in> set (pk_last s # pk_done s). ds_head d = sum_list (map de_size (ds_entries d)) \<and>
        ds_head d \<le> SEGMENT_SIZE))"

lemma pack_claim:
  assumes "i < length xs" and "xs ! i = (e, False)"
  shows "length (filter (Not \<circ> snd) xs) = Suc (length (filter (Not \<circ> snd) (xs[i := (e, True)])))"
    and "mset (map fst (filter snd (xs[i := (e, True)]))) = add_mset e (mset (map fst (filter snd xs)))"
    and "map fst (xs[i := (e, True)]) = map fst xs"
  using assms by (induction xs arbitrary: i) (auto split: nat.splits)

lemma pack_turn_inv:
  assumes "pack_inv entries s" shows "pack_inv entries (pack_turn s)"
proof -
  let ?i = "pk_cursor s mod length (pk_entries s)"
  obtain e cl where e: "pk_entries s ! ?i = (e, cl)" by (cases "pk_entries s ! ?i")
  have "pk_entries s \<noteq> []" using assms by (auto simp: pack_inv_def)
  then have i: "?i < length (pk_entries s)" by simp
  show ?thesis
  proof (cases "cl \<or> de_size e > SEGMENT_SIZE - ds_head (pk_last s)")
    case True
    then show ?thesis using assms e by (auto simp: pack_turn_def pack_inv_def Let_def DummySegment_new_def)
  next
    case False
    then have cl: "cl = False" and fit: "de_size e \<le> SEGMENT_SIZE - ds_head (pk_last s)" by auto
    note P = pack_claim [OF i e [unfolded cl]]
    have "ds_head (pk_last s) \<le> SEGMENT_SIZE" using assms by (simp add: pack_inv_def)
    then have "ds_head (pk_last s) + de_size e \<le> SEGMENT_SIZE" using fit by linarith
    then show ?thesis using assms e cl fit P by (auto simp: pack_turn_def pack_inv_def Let_def)
  qed
qed

lemma pack_loop_inv:
  assumes "pack_loop s = Some r" and "pack_inv entries s"
  shows "pack_inv entries r \<and> pk_to_claim r = 0"
proof -
  let ?P = "\<lambda>s r. pack_inv entries s \<longrightarrow> pack_inv entries r \<and> pk_to_claim r = 0"
  have "?P s r"
    by (rule pack_loop.raw_induct [OF _ assms(1), of ?P]) (auto split: if_splits intro: pack_turn_inv)
  then show ?thesis using assms(2) by simp
qed

lemma pack_entries_ok:
  assumes "pack_entries entries = Some pss" and "entries \<noteq> []"
  shows "mset (concat (map ds_entries pss)) = mset entries"
    and "\<forall>d \<in> set pss. sum_list (map de_size (ds_entries d)) \<le> SEGMENT_SIZE"
proof -
  have start: "pack_inv entries (pack_start entries)"
    using assms(2) by (auto simp: pack_inv_def pack_start_def DummySegment_new_def filter_map comp_def)
  obtain r where r: "pack_loop (pack_start entries) = Some r" "pss = rev (pk_last r # pk_done r)"
    using assms(1) by (auto simp: pack_entries_def)
  note P = pack_loop_inv [OF r(1) start]
  have "length (filter (Not \<circ> snd) (pk_entries r)) = 0" using P unfolding pack_inv_def by metis
  then have "filter snd (pk_entries r) = pk_entries r" by (auto simp: filter_empty_conv intro!: filter_True)
  then have "mset entries = mset (concat (map ds_entries (pk_last r # pk_done r)))"
    using P unfolding pack_inv_def by metis
  then show "mset (concat (map ds_entries pss)) = mset entries"
    by (simp add: r(2) mset_concat rev_map [symmetric])
  show "\<forall>d \<in> set pss. sum_list (map de_size (ds_entries d)) \<le> SEGMENT_SIZE"
    using P by (auto simp: r(2) pack_inv_def)
qed

section \<open>Lemmas: combination\<close>

lemma concat_group_adjacent: "concat (map snd (group_adjacent f xs)) = xs"
  by (induction f xs rule: group_adjacent.induct) (auto split: list.splits)

lemma mset_concat_sort: "mset (concat (map snd (sort_key f gs))) = mset (concat (map snd gs))"
proof -
  have "mset (map (mset \<circ> snd) (sort_key f gs)) = mset (map (mset \<circ> snd) gs)" by simp
  then show ?thesis by (simp only: mset_concat map_map flip: sum_mset_sum_list)
qed

lemma mset_order_entries: "mset (order_entries ds) = mset ds"
proof -
  let ?gs = "group_adjacent (\<lambda>d. unat (de_timestamp d) div 10) ds"
  have "mset (concat (map snd (map (\<lambda>(t, g). (t, sort_key de_size g)) gs))) = mset (concat (map snd gs))"
    for gs :: "(nat \<times> DummyEntry list) list"
    by (induction gs) auto
  then have "mset (order_entries ds) = mset (concat (map snd ?gs))"
    unfolding order_entries_def by (simp only: mset_rev mset_concat_sort)
  then show ?thesis by (simp add: concat_group_adjacent)
qed

text \<open>A segment that the index does not point into gets a new log.\<close>

lemma rewrite_segment:
  assumes inv: "chunk_inv ch" and seg: "map_of (segs ch) k = Some seg"
    and mem: "\<And>x. \<not> in_seg seg x \<Longrightarrow> m' x = memory ch x"
    and core: "seg_id seg' = seg_id seg" "seg_addr seg' = seg_addr seg" "seg_bound seg' = seg_bound seg"
      "dropped seg' = dropped seg"
    and log: "seg_log m' seg' es" "\<forall>e \<in> set es. entry_ok e"
    and none: "\<And>h a. cell_index ch h = Some a \<Longrightarrow> \<not> in_seg seg a"
    and ch': "ch' = (modify_segment k (\<lambda>_. seg') ch)\<lparr>memory := m'\<rparr>"
  shows "chunk_inv ch'" and "keeps ch ch'"
proof -
  have look: "map_of (segs ch') j = (if j = k then Some seg' else map_of (segs ch) j)" for j
    using seg by (simp add: ch')
  have other: "seg_log m' t es" if "map_of (segs ch) j = Some t" "j \<noteq> k" "seg_log (memory ch) t es" for j t es
    using that(3) mem segs_apart [OF inv that(1) seg that(2)] inv_seg_bounds(2) [OF inv that(1)]
    by (auto simp: seg_log_def in_seg_def ranges_apart_def intro!: log_range_frame [of "memory ch"])
  have "seg_inv m' (allocator ch) j t" if "map_of (segs ch') j = Some t" for j t
  proof (cases "j = k")
    case True
    then show ?thesis using that look log core seg_invD(1-4) [OF inv_seg [OF inv seg]] by (auto simp: seg_inv_def)
  next
    case False
    then show ?thesis using that look inv_seg [OF inv] other unfolding seg_inv_def by metis
  qed
  moreover have ix: "indexed m' (map_of (segs ch')) h a \<and> same_entry (memory ch) m' a a" if ci: "cell_index ch h = Some a" for h a
  proof -
    obtain j t fs f where *: "j \<noteq> k" "map_of (segs ch) j = Some t" "seg_log (memory ch) t fs" "f \<in> set fs"
        "entry_pos f = a" "entry_type (entry_header f) = CELL"
        "hash (cell_header_from_entry_content_addr (memory ch) (body_pos f)) = h" "entry_ok f"
        "entry_at (memory ch) a = Some f" "\<And>x. a \<le> x \<Longrightarrow> x < a + entry_size f \<Longrightarrow> \<not> in_seg seg x"
      by (rule index_outside [OF inv seg ci none [OF ci]]) blast
    have "cell_header_from_entry_content_addr m' (body_pos f) =
        cell_header_from_entry_content_addr (memory ch) (body_pos f)"
      by (rule entry_header_frame [OF *(9,8)]) (use *(10) mem in blast)
    then have "indexed m' (map_of (segs ch')) h a"
      using * look by (intro indexedI [OF _ other [OF *(2,1,3)] *(4)]) auto
    moreover have "same_entry (memory ch) m' a a" by (rule same_entryI [OF *(9)]) (use *(10) mem in blast)
    ultimately show ?thesis ..
  qed
  moreover have "map (seg_addr \<circ> snd) (segs ch') = map (seg_addr \<circ> snd) (segs ch)"
    using map_entry_same [OF seg, of seg_addr] core(2) by (simp add: ch' modify_segment_def)
  ultimately show "chunk_inv ch'"
    using inv_distinct [OF inv] inv_alloc [OF inv] inv_base [OF inv] inv_limit [OF inv] inv_head [OF inv] look
    unfolding chunk_inv_def by (simp add: ch')
  have "rel_option (same_entry (memory ch) m') (cell_index ch h) (cell_index ch h)" for h
    using ix by (cases "cell_index ch h") auto
  then show "keeps ch ch'" by (simp add: keeps_def ch')
qed

text \<open>Copying entries into a fresh range: what the new range holds.\<close>

definition source_ok :: "mem \<Rightarrow> addr \<Rightarrow> addr \<Rightarrow> DummyEntry \<Rightarrow> bool" where
  "source_ok m lo hi d = (\<exists>f. entry_at m (de_addr d) = Some f \<and> entry_ok f \<and> de_size d = entry_size f \<and>
     (de_addr d + de_size d \<le> lo \<or> hi \<le> de_addr d) \<and>
     (\<forall>h. de_cell_hash d = Some h \<longrightarrow> entry_type (entry_header f) = CELL \<and>
        hash (cell_header_from_entry_content_addr m (body_pos f)) = h))"

lemma source_ok_frame:
  assumes "source_ok m lo hi d" and "\<And>x. x < lo \<or> hi \<le> x \<Longrightarrow> m' x = m x"
  shows "source_ok m' lo hi d" and "load_bytes m' (de_addr d) (de_size d) = load_bytes m (de_addr d) (de_size d)"
proof -
  obtain f where f: "entry_at m (de_addr d) = Some f" "entry_ok f" "de_size d = entry_size f"
      "de_addr d + de_size d \<le> lo \<or> hi \<le> de_addr d"
      "\<forall>h. de_cell_hash d = Some h \<longrightarrow> entry_type (entry_header f) = CELL \<and>
        hash (cell_header_from_entry_content_addr m (body_pos f)) = h"
    using assms(1) by (auto simp: source_ok_def)
  have eq: "m' x = m x" if "de_addr d \<le> x" "x < de_addr d + entry_size f" for x
    using assms(2) f(3,4) that by auto
  show "source_ok m' lo hi d" unfolding source_ok_def
    using f entry_at_frame [OF f(1) eq] entry_header_frame [OF f(1,2) eq] by auto
  show "load_bytes m' (de_addr d) (de_size d) = load_bytes m (de_addr d) (de_size d)"
    using eq f(3) by (intro load_bytes_eqI) auto
qed

definition dummy_cells :: "DummyEntry list \<Rightarrow> (addr \<times> u64) list" where
  "dummy_cells ds = concat (map (\<lambda>d. case de_cell_hash d of Some h \<Rightarrow> [(de_addr d, h)] | None \<Rightarrow> []) ds)"

lemma dummy_cells_simps [simp]:
  "dummy_cells [] = []"
  "dummy_cells (d # ds) = (case de_cell_hash d of Some h \<Rightarrow> [(de_addr d, h)] | None \<Rightarrow> []) @ dummy_cells ds"
  by (simp_all add: dummy_cells_def)

lemma dummy_cells_iff: "(a, h) \<in> set (dummy_cells ds) \<longleftrightarrow> (\<exists>d \<in> set ds. de_addr d = a \<and> de_cell_hash d = Some h)"
  by (induction ds) (auto split: option.splits)

lemma snd_dummy_cells: "h \<in> snd ` set (dummy_cells ds) \<longleftrightarrow> (\<exists>d \<in> set ds. de_cell_hash d = Some h)"
  by (induction ds) (auto split: option.splits)

definition cell_moved :: "mem \<Rightarrow> mem \<Rightarrow> EntryMeta list \<Rightarrow> addr \<times> addr \<times> u64 \<Rightarrow> bool" where
  "cell_moved m m' gs p = (case p of (new, old, h) \<Rightarrow> same_entry m m' old new \<and>
     (\<exists>g \<in> set gs. entry_pos g = new \<and> entry_type (entry_header g) = CELL \<and>
        hash (cell_header_from_entry_content_addr m' (body_pos g)) = h))"

lemma copy_entry:
  assumes E: "env_ok E" and lo: "lo \<le> c" and hi: "c + de_size d \<le> hi" and src: "source_ok m lo hi d"
    and m1: "m1 = env_memcpy E m c (de_addr d) (de_size d)"
  obtains g where "entry_at m1 c = Some g" "entry_ok g" "entry_size g = de_size d"
    "\<And>x. x < c \<or> c + de_size d \<le> x \<Longrightarrow> m1 x = m x" "same_entry m m1 (de_addr d) c"
    "\<And>h. de_cell_hash d = Some h \<Longrightarrow> entry_type (entry_header g) = CELL \<and>
       hash (cell_header_from_entry_content_addr m1 (body_pos g)) = h"
proof -
  obtain f where f: "entry_at m (de_addr d) = Some f" "entry_ok f" "de_size d = entry_size f"
      "de_addr d + de_size d \<le> lo \<or> hi \<le> de_addr d"
      "\<forall>h. de_cell_hash d = Some h \<longrightarrow> entry_type (entry_header f) = CELL \<and>
        hash (cell_header_from_entry_content_addr m (body_pos f)) = h"
    using src by (auto simp: source_ok_def)
  have eq: "m1 = mem_move m c (de_addr d) (de_size d)"
    unfolding m1 by (rule env_okD(3) [OF E]) (use f(4) lo hi in auto)
  have bytes: "load_bytes m1 c (entry_size f) = load_bytes m (de_addr d) (entry_size f)"
    unfolding eq by (simp add: f(3))
  let ?g = "f\<lparr>body_pos := c + (body_pos f - de_addr d), entry_pos := c\<rparr>"
  show ?thesis
  proof (rule that [of ?g])
    show "entry_at m1 c = Some ?g" by (rule entry_at_move [OF f(1) bytes])
    show "m1 x = m x" if "x < c \<or> c + de_size d \<le> x" for x
      unfolding eq mem_move_def using that by (intro store_bytes_other) simp
    show "same_entry m m1 (de_addr d) c" using f(1) bytes by (auto simp: same_entry_def)
    show "entry_type (entry_header ?g) = CELL \<and> hash (cell_header_from_entry_content_addr m1 (body_pos ?g)) = h"
      if "de_cell_hash d = Some h" for h
      using f(5) that entry_header_bytes [OF f(1,2) bytes] by simp
  qed (use f(2,3) in \<open>simp_all add: entry_ok_def\<close>)
qed

lemma copy_entries_ok:
  assumes E: "env_ok E" and "lo \<le> c" and "c + sum_list (map de_size ds) \<le> hi"
    and "\<forall>d \<in> set ds. source_ok m lo hi d" and "copy_entries E ds c m = (m', c', mp)"
  shows "c' = c + sum_list (map de_size ds) \<and> (\<forall>x. x < c \<or> c' \<le> x \<longrightarrow> m' x = m x) \<and>
    map snd mp = dummy_cells ds \<and>
    (\<exists>gs. log_range m' c c' gs \<and> (\<forall>g \<in> set gs. entry_ok g) \<and> (\<forall>p \<in> set mp. cell_moved m m' gs p))"
  using assms(2-5)
proof (induction ds arbitrary: c m mp)
  case Nil
  then show ?case by (auto intro: exI [of _ "[]"])
next
  case (Cons d ds)
  let ?c = "c + de_size d"
  define m1 where "m1 = env_memcpy E m c (de_addr d) (de_size d)"
  obtain mp1 where cp: "copy_entries E ds ?c m1 = (m', c', mp1)"
      and mp: "mp = (case de_cell_hash d of Some h \<Rightarrow> [(c, de_addr d, h)] | None \<Rightarrow> []) @ mp1"
    using Cons.prems(4) by (auto simp: Let_def m1_def split: prod.splits)
  obtain g where g: "entry_at m1 c = Some g" "entry_ok g" "entry_size g = de_size d"
      and out: "\<And>x. x < c \<or> ?c \<le> x \<Longrightarrow> m1 x = m x" and same: "same_entry m m1 (de_addr d) c"
      and cell: "\<And>h. de_cell_hash d = Some h \<Longrightarrow> entry_type (entry_header g) = CELL \<and>
        hash (cell_header_from_entry_content_addr m1 (body_pos g)) = h"
    by (rule copy_entry [OF E Cons.prems(1) _ _ m1_def, of hi]) (use Cons.prems in auto)
  have lohi: "m1 x = m x" if "x < lo \<or> hi \<le> x" for x using that out Cons.prems(1,2) by auto
  have src: "\<forall>d \<in> set ds. source_ok m1 lo hi d"
    using Cons.prems(3) source_ok_frame(1) lohi by (metis list.set_intros(2))
  have pre: "lo \<le> ?c" "?c + sum_list (map de_size ds) \<le> hi" using Cons.prems(1,2) by simp_all
  from Cons.IH [OF pre src cp] obtain gs where c': "c' = ?c + sum_list (map de_size ds)"
      and out1: "\<And>x. x < ?c \<or> c' \<le> x \<Longrightarrow> m' x = m1 x" and cells: "map snd mp1 = dummy_cells ds"
      and gs: "log_range m' ?c c' gs" "\<forall>g \<in> set gs. entry_ok g" "\<forall>p \<in> set mp1. cell_moved m1 m' gs p"
    by blast
  have g': "entry_at m' c = Some g" by (rule entry_at_frame [OF g(1)]) (use out1 g(3) in auto)
  have hdr: "cell_header_from_entry_content_addr m' (body_pos g) = cell_header_from_entry_content_addr m1 (body_pos g)"
    by (rule entry_header_frame [OF g(1,2)]) (use out1 g(3) in auto)
  have "same_entry m1 m' c c" by (rule same_entryI [OF g(1)]) (use out1 g(3) in auto)
  then have this_moved: "same_entry m m' (de_addr d) c" using same by (rule same_entry_trans [rotated])
  have later: "cell_moved m m' (g # gs) p" if p: "p \<in> set mp1" for p
  proof -
    obtain new old h where nh: "p = (new, old, h)" by (cases p) auto
    have "(old, h) \<in> set (dummy_cells ds)" using p nh unfolding cells [symmetric] by force
    then obtain d' where "d' \<in> set ds" "de_addr d' = old" by (auto simp: dummy_cells_iff)
    then have s: "source_ok m lo hi d'" "de_addr d' = old" using Cons.prems(3) by auto
    have "same_entry m m1 old old"
      using source_ok_frame(2) [OF s(1) lohi] s unfolding source_ok_def same_entry_def by metis
    then show ?thesis using gs(3) p nh by (auto simp: cell_moved_def intro: same_entry_trans)
  qed
  have "\<forall>p \<in> set mp. cell_moved m m' (g # gs) p"
    using later this_moved cell hdr entry_at_simps(1) [OF g(1)]
    by (cases "de_cell_hash d") (auto simp: mp cell_moved_def)
  moreover have "log_range m' c c' (g # gs)" using g' gs(1) g(3) by simp
  moreover have "\<forall>x. x < c \<or> c' \<le> x \<longrightarrow> m' x = m x" using out out1 c' by auto
  moreover have "map snd mp = dummy_cells (d # ds)" using cells by (auto simp: mp split: option.splits)
  ultimately show ?case using c' g(2) gs(2)
    by (intro conjI exI [of _ "g # gs"]) (simp_all only: list.map sum_list.Cons add.assoc list.set ball_simps simp_thms)
qed

text \<open>Moving the index entries: the hashes are distinct, so each is moved from the address it
  still has.\<close>

lemma relocate_cells_ok:
  assumes "relocate_cells E k mp ch = Some ch'" and "chunk_inv ch" and "distinct (map (snd \<circ> snd) mp)"
    and "\<And>new old h. (new, old, h) \<in> set mp \<Longrightarrow> cell_index ch h = Some old \<and>
      indexed (memory ch) (map_of (segs ch)) h new \<and> same_entry (memory ch) (memory ch) old new"
  shows "chunk_inv ch' \<and> keeps ch ch' \<and> ch\<lparr>cell_index := cell_index ch'\<rparr> = ch' \<and>
    (\<forall>h. cell_index ch' h = (case find (\<lambda>p. snd (snd p) = h) mp of
        Some (new, _, _) \<Rightarrow> Some new | None \<Rightarrow> cell_index ch h))"
  using assms
proof (induction mp arbitrary: ch)
  case Nil
  then show ?case by (auto simp: keeps_refl)
next
  case (Cons p mp)
  obtain new old h where p: "p = (new, old, h)" by (cases p) auto
  have h: "cell_index ch h = Some old" "indexed (memory ch) (map_of (segs ch)) h new"
      "same_entry (memory ch) (memory ch) old new"
    using Cons.prems(4) [of new old h] p by auto
  let ?ch = "set_index h new ch"
  have r: "relocate_cells E k mp ?ch = Some ch'"
    using Cons.prems(1) h(1) p by (simp add: relocate_index_def split: if_splits)
  have inv: "chunk_inv ?ch" by (rule set_index_inv [OF Cons.prems(2) h(2)])
  have keep: "keeps ch ?ch"
    using keeps_refl [OF Cons.prems(2)] h(1,3) by (auto simp: keeps_def)
  have rest: "cell_index ?ch h' = Some old' \<and> indexed (memory ?ch) (map_of (segs ?ch)) h' new' \<and>
      same_entry (memory ?ch) (memory ?ch) old' new'" if m: "(new', old', h') \<in> set mp" for new' old' h'
  proof -
    have "h' \<noteq> h" using Cons.prems(3) m p by force
    then show ?thesis using Cons.prems(4) [of new' old' h'] m by auto
  qed
  have IH: "chunk_inv ch' \<and> keeps ?ch ch' \<and> ?ch\<lparr>cell_index := cell_index ch'\<rparr> = ch' \<and>
      (\<forall>h. cell_index ch' h = (case find (\<lambda>p. snd (snd p) = h) mp of
        Some (new, _, _) \<Rightarrow> Some new | None \<Rightarrow> cell_index ?ch h))"
    using Cons.IH [OF r inv _ rest] Cons.prems(3) by simp
  have "h \<notin> (snd \<circ> snd) ` set mp" using Cons.prems(3) p by auto
  then have "find (\<lambda>p. snd (snd p) = h) mp = None" by (force simp: find_None_iff)
  then have "cell_index ch' g = (case find (\<lambda>p. snd (snd p) = g) (p # mp) of
        Some (new, _, _) \<Rightarrow> Some new | None \<Rightarrow> cell_index ch g)" for g
    using IH p by (auto split: option.splits)
  moreover have "ch\<lparr>cell_index := cell_index ch'\<rparr> = ch'" using IH by (simp add: set_index_def)
  ultimately show ?case using IH keep keeps_trans by blast
qed

text \<open>The entries still to be moved out of the segments with keys in \<open>K\<close>.\<close>

definition pending_in :: "'p Chunk \<Rightarrow> nat set \<Rightarrow> DummyEntry \<Rightarrow> bool" where
  "pending_in ch K d = (\<exists>k \<in> K. \<exists>seg f. map_of (segs ch) k = Some seg \<and> seg_addr seg \<le> de_addr d \<and>
     de_addr d + de_size d \<le> append_header seg \<and> entry_at (memory ch) (de_addr d) = Some f \<and> entry_ok f \<and>
     de_size d = entry_size f \<and>
     (\<forall>h. de_cell_hash d = Some h \<longrightarrow> entry_type (entry_header f) = CELL \<and>
        hash (cell_header_from_entry_content_addr (memory ch) (body_pos f)) = h))"

definition pending :: "'p Chunk \<Rightarrow> nat set \<Rightarrow> DummyEntry list \<Rightarrow> bool" where
  "pending ch K ds = (distinct (map de_addr ds) \<and> (\<forall>d \<in> set ds. pending_in ch K d) \<and>
     (\<forall>d \<in> set ds. \<forall>h. de_cell_hash d = Some h \<longrightarrow> cell_index ch h = Some (de_addr d)))"

lemma pending_in_frame:
  assumes "pending_in ch K d" and "\<And>k t. map_of (segs ch) k = Some t \<Longrightarrow> map_of (segs ch') k = Some t"
    and "\<And>k seg x. map_of (segs ch) k = Some seg \<Longrightarrow> seg_addr seg \<le> x \<Longrightarrow> x < append_header seg \<Longrightarrow>
      memory ch' x = memory ch x"
  shows "pending_in ch' K d"
proof -
  obtain k seg f where d: "k \<in> K" "map_of (segs ch) k = Some seg" "seg_addr seg \<le> de_addr d"
      "de_addr d + de_size d \<le> append_header seg" "entry_at (memory ch) (de_addr d) = Some f" "entry_ok f"
      "de_size d = entry_size f" "\<forall>h. de_cell_hash d = Some h \<longrightarrow> entry_type (entry_header f) = CELL \<and>
        hash (cell_header_from_entry_content_addr (memory ch) (body_pos f)) = h"
    using assms(1) by (auto simp: pending_in_def)
  have eq: "memory ch' x = memory ch x" if "de_addr d \<le> x" "x < de_addr d + entry_size f" for x
    using assms(3) [OF d(2)] d(3,4,7) that by simp
  show ?thesis unfolding pending_in_def
    using d assms(2) [OF d(2)] entry_at_frame [OF d(5) eq] entry_header_frame [OF d(5,6) eq]
    by (intro bexI [OF _ d(1)] exI [of _ seg] exI [of _ f]) auto
qed

lemma pending_source:
  assumes "chunk_inv ch" and "pending_in ch K d" and "\<And>j t. map_of (segs ch) j = Some t \<Longrightarrow>
      ranges_apart (seg_addr t, SEGMENT_SIZE) (lo, SEGMENT_SIZE)"
  shows "source_ok (memory ch) lo (lo + SEGMENT_SIZE) d"
proof -
  obtain k seg where "map_of (segs ch) k = Some seg" "seg_addr seg \<le> de_addr d"
      "de_addr d + de_size d \<le> append_header seg"
    using assms(2) by (auto simp: pending_in_def)
  then have "de_addr d + de_size d \<le> lo \<or> lo + SEGMENT_SIZE \<le> de_addr d"
    using assms(3) inv_seg_bounds(2) [OF assms(1)] by (fastforce simp: ranges_apart_def)
  then show ?thesis using assms(2) by (auto simp: pending_in_def source_ok_def)
qed

lemma pending_hashes_distinct:
  assumes "pending ch K ds" shows "distinct (map snd (dummy_cells ds))"
proof -
  have "distinct (map de_addr ds) \<Longrightarrow> \<forall>d \<in> set ds. \<forall>h. de_cell_hash d = Some h \<longrightarrow> cell_index ch h = Some (de_addr d) \<Longrightarrow>
      distinct (map snd (dummy_cells ds))"
  proof (induction ds)
    case (Cons d ds)
    have "h \<notin> snd ` set (dummy_cells ds)" if "de_cell_hash d = Some h" for h
    proof
      assume "h \<in> snd ` set (dummy_cells ds)"
      then obtain a where "(a, h) \<in> set (dummy_cells ds)" by auto
      then obtain d' where "d' \<in> set ds" "de_cell_hash d' = Some h" by (auto simp: dummy_cells_iff)
      moreover then have "de_addr d' = de_addr d" using Cons.prems(2) that by force
      ultimately show False using Cons.prems(1) by (simp add: image_iff) metis
    qed
    then show ?case using Cons by (cases "de_cell_hash d") auto
  qed simp
  then show ?thesis using assms by (simp add: pending_def)
qed

lemma cell_moved_frame:
  assumes log: "log_range m1 c c' gs" "\<forall>g \<in> set gs. entry_ok g" and eq: "\<And>x. x < c' \<Longrightarrow> m2 x = m1 x"
    and p: "cell_moved m m1 gs p"
  shows "cell_moved m m2 gs p"
proof -
  obtain new old h g where *: "p = (new, old, h)" "same_entry m m1 old new" "g \<in> set gs" "entry_pos g = new"
      "entry_type (entry_header g) = CELL" "hash (cell_header_from_entry_content_addr m1 (body_pos g)) = h"
    using p by (auto simp: cell_moved_def split: prod.splits)
  note G = log_range_entry [OF log(1) *(3)]
  have "cell_header_from_entry_content_addr m2 (body_pos g) = cell_header_from_entry_content_addr m1 (body_pos g)"
    by (rule entry_header_frame [OF G(1)]) (use log(2) *(3) eq G(3) in auto)
  moreover have "same_entry m1 m2 new new" using same_entryI [OF G(1), of m2] eq G(3) *(4) by auto
  ultimately show ?thesis using * same_entry_trans [OF *(2)] by (auto simp: cell_moved_def)
qed

lemma map_entry_snoc: "k \<notin> fst ` set xs \<Longrightarrow> AList.map_entry k f (xs @ [(k, s)]) = xs @ [(k, f s)]"
  by (induction xs) auto

text \<open>A fresh segment filled with copied entries.\<close>

lemma combine_copy:
  assumes E: "env_ok E" and inv: "chunk_inv ch" and pend: "pending ch K ds"
    and sz: "sum_list (map de_size ds) \<le> SEGMENT_SIZE"
    and al: "alloc_seg (env_pop E) fs (allocator ch) bs ws = Some (Some seg, al, fs')"
    and cp: "copy_entries E ds (seg_addr seg) (memory ch) = (m1, c, mp)"
    and seg1: "seg1 = seg\<lparr>append_header := c\<rparr>"
    and m2: "m2 = shrink (env_advise E) seg1 (c - seg_addr seg1) m1"
    and ch2: "ch2 = put_segment seg1 (ch\<lparr>allocator := al, memory := m2, disk := fs1\<rparr>)"
  shows "chunk_inv ch2" "keeps ch ch2" "map snd mp = dummy_cells ds" "unat (seg_id seg) \<notin> fst ` set (segs ch)"
    "segs ch2 = segs ch @ [(unat (seg_id seg), seg1)]"
    and "\<And>k t x. map_of (segs ch) k = Some t \<Longrightarrow> in_seg t x \<Longrightarrow> memory ch2 x = memory ch x \<and> \<not> in_seg seg1 x"
    and "\<And>new old h. (new, old, h) \<in> set mp \<Longrightarrow>
      indexed (memory ch2) (map_of (segs ch2)) h new \<and> same_entry (memory ch) (memory ch2) old new \<and> in_seg seg1 new"
proof -
  let ?A = "seg_addr seg" and ?k = "unat (seg_id seg)"
  let ?ch1 = "put_segment seg (ch\<lparr>allocator := al\<rparr>)"
  note P = put_new_segment [OF inv env_okD(1) [OF E] al]
  note S = alloc_seg_Some [OF al]
  have look1: "map_of (segs ?ch1) j = (if j = ?k then Some seg else map_of (segs ch) j)" for j
    using P(3) unfolding P(2) by (simp add: map_of_snoc del: map_of_append)
  have old: "map_of (segs ?ch1) j = Some t \<and> j \<noteq> ?k" if "map_of (segs ch) j = Some t" for j t
    using that P(3) by (auto simp: look1 dest: map_of_SomeD intro: rev_image_eqI)
  have apart: "ranges_apart (seg_addr t, SEGMENT_SIZE) (?A, SEGMENT_SIZE)" if "map_of (segs ch) j = Some t" for j t
    by (rule segs_apart [OF P(1), of j t ?k seg]) (use old [OF that] look1 in auto)
  have src: "\<forall>d \<in> set ds. source_ok (memory ch) ?A (?A + SEGMENT_SIZE) d"
    using pending_source [OF inv _ apart] pend by (auto simp: pending_def)
  obtain gs where c: "c = ?A + sum_list (map de_size ds)" and out: "\<And>x. x < ?A \<or> c \<le> x \<Longrightarrow> m1 x = memory ch x"
      and cells: "map snd mp = dummy_cells ds" and gs: "log_range m1 ?A c gs" "\<forall>g \<in> set gs. entry_ok g"
      and mv: "\<forall>p \<in> set mp. cell_moved (memory ch) m1 gs p"
    using copy_entries_ok [OF E order_refl _ src cp] sz by auto
  have tail: "m2 x = m1 x" if "x < c \<or> ?A + SEGMENT_SIZE \<le> x" for x
    unfolding m2 by (rule shrink_frame) (use that c env_okD(2) [OF E] in \<open>auto simp: seg1\<close>)
  have mem: "m2 x = memory ch x" if "\<not> in_seg seg x" for x
    using that tail out c sz by (auto simp: in_seg_def)
  have log: "seg_log m2 seg1 gs"
    using log_range_frame [OF gs(1), of m2] tail c sz S(2) by (simp add: seg_log_def seg1)
  show fresh: "?k \<notin> fst ` set (segs ch)" by (rule P(3))
  show segs2: "segs ch2 = segs ch @ [(?k, seg1)]"
    using fresh by (simp add: ch2 put_segment_def seg1 AList_update_new)
  have look2: "map_of (segs ch2) ?k = Some seg1"
    using fresh unfolding segs2 by (simp add: map_of_snoc del: map_of_append)
  have none: "\<not> in_seg seg a" if ci: "cell_index ?ch1 h = Some a" for h a
  proof -
    have ci': "cell_index ch h = Some a" using ci by (simp add: put_segment_def)
    obtain j t es e where *: "map_of (segs ch) j = Some t" "seg_log (memory ch) t es" "e \<in> set es"
        "entry_pos e = a" "entry_at (memory ch) a = Some e"
      by (rule inv_index_entry [OF inv ci'])
    have "log_range (memory ch) (seg_addr t) (append_header t) es" using *(2) by (simp add: seg_log_def)
    from log_range_entry [OF this *(3)] show ?thesis
      using *(4) apart [OF *(1)] inv_seg_bounds(2) [OF inv *(1)] entry_at_simps(4) [OF *(5)]
      by (auto simp: in_seg_def ranges_apart_def)
  qed
  let ?chx = "(modify_segment ?k (\<lambda>_. seg1) ?ch1)\<lparr>memory := m2\<rparr>"
  have entry: "AList.map_entry ?k f (segs ch @ [(?k, s)]) = segs ch @ [(?k, f s)]" for f s
    by (rule map_entry_snoc [OF fresh])
  have eq: "ch2 = ?chx\<lparr>disk := fs1\<rparr>"
    using fresh by (simp add: ch2 put_segment_def modify_segment_def AList_update_new entry seg1)
  have mem1: "\<And>x. \<not> in_seg seg x \<Longrightarrow> m2 x = memory ?ch1 x" using mem by (simp add: put_segment_def)
  have R: "chunk_inv ?chx" "keeps ?ch1 ?chx"
    using rewrite_segment [OF P(1) _ mem1 _ _ _ _ log gs(2) none refl, of ?k] look1 by (simp_all add: seg1)
  show "chunk_inv ch2" using R(1) by (simp add: eq)
  have "keeps ?ch1 x = keeps ch x" for x by (simp add: keeps_def put_segment_def)
  then show "keeps ch ch2" using R(2) by (simp add: eq)
  show "map snd mp = dummy_cells ds" by (rule cells)
  show "memory ch2 x = memory ch x \<and> \<not> in_seg seg1 x" if "map_of (segs ch) k = Some t" "in_seg t x" for k t x
    using mem [of x] apart [OF that(1)] that(2) by (auto simp: eq in_seg_def ranges_apart_def seg1)
  show "indexed (memory ch2) (map_of (segs ch2)) h new \<and> same_entry (memory ch) (memory ch2) old new \<and> in_seg seg1 new"
    if p: "(new, old, h) \<in> set mp" for new old h
  proof -
    have "cell_moved (memory ch) m2 gs (new, old, h)"
      by (rule cell_moved_frame [OF gs]) (use mv p tail in auto)
    then obtain g where g: "g \<in> set gs" "entry_pos g = new" "entry_type (entry_header g) = CELL"
        "hash (cell_header_from_entry_content_addr m2 (body_pos g)) = h" and same: "same_entry (memory ch) m2 old new"
      by (auto simp: cell_moved_def)
    have "in_seg seg1 new" using log_range_entry [OF gs(1) g(1)] g(2) c sz entry_at_simps(4)
      by (fastforce simp: in_seg_def seg1)
    then show ?thesis using same g by (auto simp: eq intro!: indexedI [OF _ log g(1)] look2 [unfolded eq, simplified])
  qed
qed

text \<open>One dummy segment: its cells leave the old segments, the others keep their index entries.\<close>

lemma combine_segment_ok:
  assumes E: "env_ok E" and inv: "chunk_inv ch" and pend: "pending ch K (ds_entries dummy @ rest)"
    and sz: "sum_list (map de_size (ds_entries dummy)) \<le> SEGMENT_SIZE"
    and w: "combine_segment E dummy ch = Some (n, ch')"
  shows "chunk_inv ch'" "keeps ch ch'" "pending ch' K rest"
    "\<And>k t. map_of (segs ch) k = Some t \<Longrightarrow> map_of (segs ch') k = Some t"
    "head_seg_id ch' = head_seg_id ch" "cell_locks ch' = cell_locks ch"
    "\<And>h a k t. cell_index ch' h = Some a \<Longrightarrow> map_of (segs ch) k = Some t \<Longrightarrow> in_seg t a \<Longrightarrow>
      cell_index ch h = Some a \<and> (\<forall>d \<in> set (ds_entries dummy). de_cell_hash d \<noteq> Some h)"
proof -
  let ?ds = "ds_entries dummy"
  obtain seg al fs where al: "alloc_seg (env_pop E) (disk ch) (allocator ch) (backup_storage ch) (wal_storage ch) =
      Some (Some seg, al, fs)"
    using w by (auto simp: combine_segment_def split: option.splits)
  obtain m1 c mp where cp: "copy_entries E ?ds (seg_addr seg) (memory ch) = (m1, c, mp)" by (metis prod_cases3)
  define seg1 where "seg1 = seg\<lparr>append_header := c\<rparr>"
  define m2 where "m2 = shrink (env_advise E) seg1 (c - seg_addr seg1) m1"
  obtain b fs1 where ar: "archive m2 seg1 fs = Some (Inr b, fs1)"
    using w al cp by (auto simp: combine_segment_def Let_def m2_def seg1_def split: option.splits sum.splits)
  define ch2 where "ch2 = put_segment seg1 (ch\<lparr>allocator := al, memory := m2, disk := fs1\<rparr>)"
  have rl: "relocate_cells E (unat (seg_id seg1)) mp ch2 = Some ch'"
    using w al cp ar by (auto simp: combine_segment_def Let_def ch2_def m2_def seg1_def)
  have pend1: "pending ch K ?ds" using pend by (auto simp: pending_def)
  note C = combine_copy [OF E inv pend1 sz al cp seg1_def m2_def ch2_def]
  have ci2: "cell_index ch2 = cell_index ch" by (simp add: ch2_def put_segment_def)
  have dist: "distinct (map (snd \<circ> snd) mp)"
    using pending_hashes_distinct [OF pend1] by (simp flip: C(3) map_map)
  have cells: "(old, h) \<in> set (dummy_cells ?ds)" if "(new, old, h) \<in> set mp" for new old h
    using that unfolding C(3) [symmetric] by force
  have pd: "pending_in ch K d" if "d \<in> set (?ds @ rest)" for d using pend that by (simp add: pending_def)
  have used: "memory ch2 x = memory ch x" if "map_of (segs ch) k = Some t" "seg_addr t \<le> x" "x < append_header t" for k t x
    using C(6) [OF that(1)] that inv_seg_bounds(2) [OF inv that(1)] by (auto simp: in_seg_def)
  have pre: "cell_index ch2 h = Some old \<and> indexed (memory ch2) (map_of (segs ch2)) h new \<and>
      same_entry (memory ch2) (memory ch2) old new" if p: "(new, old, h) \<in> set mp" for new old h
  proof -
    obtain d where d: "d \<in> set ?ds" "de_addr d = old" "de_cell_hash d = Some h"
      using cells [OF p] by (auto simp: dummy_cells_iff)
    obtain k t f where f: "map_of (segs ch) k = Some t" "seg_addr t \<le> old" "old + entry_size f \<le> append_header t"
        "entry_at (memory ch) old = Some f"
      using pd [of d] d by (auto simp: pending_in_def)
    have eq: "memory ch2 x = memory ch x" if "old \<le> x" "x < old + entry_size f" for x
      using used [OF f(1)] f(2,3) that by simp
    have "entry_at (memory ch2) old = Some f" by (rule entry_at_frame [OF f(4) eq])
    then have "same_entry (memory ch2) (memory ch) old old" by (rule same_entryI) (simp add: eq)
    then have "same_entry (memory ch2) (memory ch2) old new" using C(7) [OF p] by (blast intro: same_entry_trans)
    moreover have "cell_index ch h = Some old" using pend d by (auto simp: pending_def)
    ultimately show ?thesis using C(7) [OF p] ci2 by simp
  qed
  note R = relocate_cells_ok [OF rl C(1) dist pre]
  have rec: "ch2\<lparr>cell_index := cell_index ch'\<rparr> = ch'" using R by blast
  have flds: "segs ch' = segs ch2" "memory ch' = memory ch2" "head_seg_id ch' = head_seg_id ch2"
      "cell_locks ch' = cell_locks ch2"
    using arg_cong [OF rec, of segs] arg_cong [OF rec, of memory] arg_cong [OF rec, of head_seg_id]
      arg_cong [OF rec, of cell_locks] by simp_all
  show "chunk_inv ch'" using R by blast
  show "keeps ch ch'" using R C(2) keeps_trans by blast
  show sg: "map_of (segs ch') k = Some t" if "map_of (segs ch) k = Some t" for k t
    using that C(4) unfolding flds C(5) by (auto simp: map_of_snoc dest: map_of_SomeD intro: rev_image_eqI simp del: map_of_append)
  show "head_seg_id ch' = head_seg_id ch" "cell_locks ch' = cell_locks ch"
    by (simp_all add: flds ch2_def put_segment_def)
  have idx: "cell_index ch' h = (case find (\<lambda>p. snd (snd p) = h) mp of
      Some (new, _, _) \<Rightarrow> Some new | None \<Rightarrow> cell_index ch h)" for h
    using spec [OF conjunct2 [OF conjunct2 [OF conjunct2 [OF R]]], of h] by (simp only: ci2)
  have find: "find (\<lambda>p. snd (snd p) = h) mp = None \<longleftrightarrow> (\<forall>d \<in> set ?ds. de_cell_hash d \<noteq> Some h)" for h
  proof -
    have "find (\<lambda>p. snd (snd p) = h) mp = None \<longleftrightarrow> h \<notin> snd ` set (map snd mp)" by (force simp: find_None_iff)
    also have "\<dots> \<longleftrightarrow> (\<forall>d \<in> set ?ds. de_cell_hash d \<noteq> Some h)"
      unfolding C(3) by (auto simp: snd_dummy_cells)
    finally show ?thesis .
  qed
  show "cell_index ch h = Some a \<and> (\<forall>d \<in> set ?ds. de_cell_hash d \<noteq> Some h)"
    if "cell_index ch' h = Some a" "map_of (segs ch) k = Some t" "in_seg t a" for h a k t
  proof (cases "find (\<lambda>p. snd (snd p) = h) mp")
    case None
    then show ?thesis using idx [of h] that(1) iffD1 [OF find None] by simp
  next
    case (Some p)
    obtain new old g where p: "p = (new, old, g)" by (cases p) auto
    have "p \<in> set mp \<and> snd (snd p) = h" using Some by (auto simp: find_Some_iff)
    then have "p \<in> set mp" "g = h" using p by auto
    moreover have "new = a" using idx [of h] that(1) Some p by simp
    ultimately have "(a, old, h) \<in> set mp" using p by simp
    then show ?thesis using C(7) C(6) [OF that(2,3)] by blast
  qed
  have "cell_index ch' h = Some (de_addr d)" if d: "d \<in> set rest" "de_cell_hash d = Some h" for d h
  proof -
    have ci: "cell_index ch h = Some (de_addr d)" using pend d by (auto simp: pending_def)
    have "de_cell_hash d' \<noteq> Some h" if "d' \<in> set ?ds" for d'
    proof
      assume "de_cell_hash d' = Some h"
      moreover have "d' \<in> set (?ds @ rest)" using that by simp
      ultimately have "cell_index ch h = Some (de_addr d')" using pend unfolding pending_def by blast
      then have "de_addr d' = de_addr d" using ci by simp
      then show False using pend that d(1) by (auto simp: pending_def)
    qed
    then show ?thesis using idx [of h] find [of h] ci by simp
  qed
  moreover have "pending_in ch' K d" if "d \<in> set rest" for d
  proof (rule pending_in_frame [OF pd])
    show "d \<in> set (?ds @ rest)" using that by simp
  qed (use sg used flds in \<open>auto\<close>)
  ultimately show "pending ch' K rest" using pend by (auto simp: pending_def)
qed

text \<open>All dummy segments: at the end no index entry points into the old segments.\<close>

definition covered :: "'p Chunk \<Rightarrow> nat set \<Rightarrow> DummyEntry list \<Rightarrow> bool" where
  "covered ch K ds = (\<forall>h a k t. k \<in> K \<longrightarrow> map_of (segs ch) k = Some t \<longrightarrow> in_seg t a \<longrightarrow>
     cell_index ch h = Some a \<longrightarrow> (\<exists>d \<in> set ds. de_cell_hash d = Some h))"

lemma combine_all_ok:
  assumes E: "env_ok E" and "chunk_inv ch" and "pending ch K (concat (map ds_entries dss))"
    and "covered ch K (concat (map ds_entries dss))"
    and "\<forall>d \<in> set dss. sum_list (map de_size (ds_entries d)) \<le> SEGMENT_SIZE"
    and "\<forall>k \<in> K. map_of (segs ch) k \<noteq> None" and "combine_all E dss ch = Some (n, ch')"
  shows "chunk_inv ch' \<and> keeps ch ch' \<and> covered ch' K [] \<and>
    (\<forall>k \<in> K. map_of (segs ch') k = map_of (segs ch) k) \<and> head_seg_id ch' = head_seg_id ch"
  using assms(2-7)
proof (induction dss arbitrary: ch n)
  case Nil
  then show ?case by (auto simp: keeps_refl)
next
  case (Cons d dss)
  let ?R = "concat (map ds_entries dss)"
  obtain n1 ch1 n2 where c: "combine_segment E d ch = Some (n1, ch1)" "combine_all E dss ch1 = Some (n2, ch')"
    using Cons.prems(6) by (auto split: option.splits)
  have pend: "pending ch K (ds_entries d @ ?R)" and sz: "sum_list (map de_size (ds_entries d)) \<le> SEGMENT_SIZE"
    using Cons.prems(2,4) by simp_all
  note C = combine_segment_ok [OF E Cons.prems(1) pend sz c(1)]
  have same: "map_of (segs ch1) k = map_of (segs ch) k" if "k \<in> K" for k
    using C(4) Cons.prems(5) that by fastforce
  have cov: "covered ch1 K ?R"
    unfolding covered_def
  proof (intro allI impI)
    fix h a k t assume A: "k \<in> K" "map_of (segs ch1) k = Some t" "in_seg t a" "cell_index ch1 h = Some a"
    have t: "map_of (segs ch) k = Some t" using A(1,2) same by simp
    from C(7) [OF A(4) t A(3)] show "\<exists>d \<in> set ?R. de_cell_hash d = Some h"
      using Cons.prems(3) A(1,3) t unfolding covered_def by fastforce
  qed
  have dom: "\<forall>k \<in> K. map_of (segs ch1) k \<noteq> None" using same Cons.prems(5) by simp
  from Cons.IH [OF C(1,3) cov _ dom c(2)] Cons.prems(4) show ?case
    using C(2,5) same keeps_trans by auto
qed

lemma drop_segments_ok:
  assumes "chunk_inv ch" and "distinct (map (unat \<circ> seg_id) ss)" and "covered ch (unat ` seg_id ` set ss) []"
    and "\<forall>s \<in> set ss. map_of (segs ch) (unat (seg_id s)) \<noteq> None \<and> unat (seg_id s) \<noteq> unat (head_seg_id ch)"
  shows "chunk_inv (drop_segments ss ch) \<and> keeps ch (drop_segments ss ch)"
  using assms
proof (induction ss arbitrary: ch)
  case Nil
  then show ?case by (simp add: drop_segments_def keeps_refl)
next
  case (Cons s ss)
  obtain seg where seg: "map_of (segs ch) (unat (seg_id s)) = Some seg" using Cons.prems(4) by auto
  have head: "unat (seg_id s) \<noteq> unat (head_seg_id ch)" using Cons.prems(4) by simp
  have free: "\<forall>h a. cell_index ch h = Some a \<longrightarrow> \<not> in_seg seg a"
    using Cons.prems(3) seg by (auto simp: covered_def)
  note D = drop_segment_ok [OF Cons.prems(1) seg head free]
  have ne: "(unat \<circ> seg_id) t \<noteq> (unat \<circ> seg_id) s" if "t \<in> set ss" for t
    using Cons.prems(2) imageI [OF that, of "unat \<circ> seg_id"] by (simp only: list.map distinct.simps(2) set_map) metis
  have cov: "covered (drop_segment s ch) (unat ` seg_id ` set ss) []"
    using Cons.prems(3) D(3,6) by (auto simp: covered_def split: if_splits)
  have "\<forall>t \<in> set ss. map_of (segs (drop_segment s ch)) (unat (seg_id t)) \<noteq> None \<and>
      unat (seg_id t) \<noteq> unat (head_seg_id (drop_segment s ch))"
    using Cons.prems(4) ne D(3,4) by simp
  from Cons.IH [OF D(1) _ cov this] Cons.prems(2) show ?case
    using D(2) keeps_trans by (auto simp: drop_segments_def)
qed

text \<open>The live entries of all segments to combine.\<close>

lemma all_live_entries_ok:
  assumes inv: "chunk_inv ch" and "all_live_entries ch ss = Some live"
    and "\<forall>s \<in> set ss. map_of (segs ch) (unat (seg_id s)) \<noteq> None" and "distinct (map (unat \<circ> seg_id) ss)"
  shows "(\<forall>e \<in> set live. \<exists>s \<in> set ss. \<exists>seg. map_of (segs ch) (unat (seg_id s)) = Some seg \<and> live_in ch seg e) \<and>
    distinct (map (entry_pos \<circ> entry_meta) live) \<and>
    (\<forall>s \<in> set ss. \<forall>seg h a. map_of (segs ch) (unat (seg_id s)) = Some seg \<longrightarrow> cell_index ch h = Some a \<longrightarrow> in_seg seg a \<longrightarrow>
       (\<exists>e \<in> set live. \<exists>chd. entry_content e = EC_Cell chd \<and> hash chd = h))"
  using assms(2-4)
proof (induction ss arbitrary: live)
  case (Cons s ss)
  obtain seg where seg: "map_of (segs ch) (unat (seg_id s)) = Some seg" using Cons.prems(2) by auto
  obtain es ls where es: "live_entries ch seg = Some es" and ls: "all_live_entries ch ss = Some ls" and live: "live = es @ ls"
    using Cons.prems(1) by (auto simp: current_seg_Some [OF seg] split: option.splits)
  note L = live_entries_ok [OF inv seg es]
  have "\<forall>s \<in> set ss. map_of (segs ch) (unat (seg_id s)) \<noteq> None" "distinct (map (unat \<circ> seg_id) ss)"
    using Cons.prems(2,3) by (simp, simp only: list.map distinct.simps)
  note IH = Cons.IH [OF ls this]
  have ne: "(unat \<circ> seg_id) t \<noteq> (unat \<circ> seg_id) s" if "t \<in> set ss" for t
    using Cons.prems(3) imageI [OF that, of "unat \<circ> seg_id"] by (simp only: list.map distinct.simps(2) set_map) metis
  have pos: "in_seg t (entry_pos (entry_meta e))" if "live_in ch t e" "map_of (segs ch) j = Some t" for t e j
    using that inv_seg_bounds(2) [OF inv that(2)] entry_at_simps(4) by (fastforce simp: live_in_def Let_def in_seg_def)
  have "sorted_wrt (<) (map (entry_pos \<circ> entry_meta) es)"
  proof -
    have "0 < entry_size (entry_meta e)" if "e \<in> set es" for e
      using bspec [OF L(1) that] entry_at_simps(4) by (auto simp: live_in_def Let_def)
    then show ?thesis using L(2) unfolding sorted_wrt_map by (rule_tac sorted_wrt_mono_rel [rotated]) fastforce+
  qed
  then have d1: "distinct (map (entry_pos \<circ> entry_meta) es)" by (simp add: strict_sorted_iff)
  have "entry_pos (entry_meta e) \<noteq> entry_pos (entry_meta f)" if e: "e \<in> set es" and f: "f \<in> set ls" for e f
  proof -
    obtain t sg where t: "t \<in> set ss" "map_of (segs ch) (unat (seg_id t)) = Some sg" "live_in ch sg f" using IH f by blast
    have "in_seg seg (entry_pos (entry_meta e))" "in_seg sg (entry_pos (entry_meta f))"
      using pos [OF bspec [OF L(1) e] seg] pos [OF t(3,2)] by auto
    then show ?thesis using segs_apart [OF inv seg t(2)] ne [OF t(1)] by (auto simp: in_seg_def ranges_apart_def)
  qed
  moreover have d2: "distinct (map (entry_pos \<circ> entry_meta) ls)" using IH by blast
  ultimately have "distinct (map (entry_pos \<circ> entry_meta) live)" using d1
    unfolding live map_append distinct_append by (intro conjI) auto
  moreover have "\<forall>e \<in> set live. \<exists>s \<in> set (s # ss). \<exists>seg. map_of (segs ch) (unat (seg_id s)) = Some seg \<and> live_in ch seg e"
    using IH L(1) seg by (auto simp: live)
  moreover have "\<exists>e \<in> set live. \<exists>chd. entry_content e = EC_Cell chd \<and> hash chd = h"
    if "t \<in> set (s # ss)" "map_of (segs ch) (unat (seg_id t)) = Some sg" "cell_index ch h = Some a" "in_seg sg a" for t sg h a
  proof (cases "t = s")
    case True
    then show ?thesis using L(3) [OF that(3)] that seg by (auto simp: live)
  next
    case False
    then have "t \<in> set ss" using that(1) by simp
    then have "\<exists>e \<in> set ls. \<exists>chd. entry_content e = EC_Cell chd \<and> hash chd = h" using IH that(2-4) by blast
    then show ?thesis by (auto simp: live)
  qed
  ultimately show ?case by blast
qed simp

definition collected :: "'p Chunk \<Rightarrow> Segment list \<Rightarrow> bool" where
  "collected ch ss = (distinct (map (unat \<circ> seg_id) ss) \<and>
     (\<forall>s \<in> set ss. map_of (segs ch) (unat (seg_id s)) \<noteq> None \<and> unat (seg_id s) \<noteq> unat (head_seg_id ch)))"

lemma combine_segments_ok:
  assumes E: "env_ok E" and inv: "chunk_inv ch" and ss: "collected ch ss"
    and w: "combine_segments E ss ch = Some (n, ch')"
  shows "chunk_inv ch'" and "keeps ch ch'"
proof -
  let ?K = "unat ` seg_id ` set ss"
  have dist: "distinct (map (unat \<circ> seg_id) ss)" and dom: "\<forall>s \<in> set ss. map_of (segs ch) (unat (seg_id s)) \<noteq> None"
      and coll: "\<forall>s \<in> set ss. map_of (segs ch) (unat (seg_id s)) \<noteq> None \<and> unat (seg_id s) \<noteq> unat (head_seg_id ch)"
    using ss by (auto simp: collected_def)
  have "chunk_inv ch' \<and> keeps ch ch'"
  proof (cases "length ss < 2")
    case True
    then show ?thesis using w inv keeps_refl [OF inv] by (simp add: combine_segments_def)
  next
    case False
    obtain live where live: "all_live_entries ch ss = Some live"
      using w False by (auto simp: combine_segments_def Let_def split: option.splits)
    let ?ds = "map dummy_entry (filter (combine_filter (map seg_id ss)) live)"
    let ?es = "order_entries ?ds"
    note A = all_live_entries_ok [OF inv live dom dist]
    have pend: "pending ch ?K es" if m: "mset es = mset ?es" for es
    proof -
      have m': "mset es = mset ?ds" using m mset_order_entries by simp
      have es: "set es = set ?ds" by (rule mset_eq_setD [OF m'])
      have "mset (map de_addr es) = mset (map de_addr ?ds)" using m' by (simp only: mset_map)
      then have "distinct (map de_addr es) = distinct (map de_addr ?ds)" by (rule mset_eq_imp_distinct_iff)
      moreover have "distinct (map de_addr ?ds)"
        using A distinct_map_filter [of "entry_pos \<circ> entry_meta" live "combine_filter (map seg_id ss)"]
        by (simp add: comp_def dummy_entry_def Let_def)
      moreover have "pending_in ch ?K d \<and> (\<forall>h. de_cell_hash d = Some h \<longrightarrow> cell_index ch h = Some (de_addr d))"
        if "d \<in> set ?ds" for d
      proof -
        obtain e where e: "e \<in> set live" "d = dummy_entry e" using \<open>d \<in> set ?ds\<close> by auto
        then obtain s seg where "s \<in> set ss" "map_of (segs ch) (unat (seg_id s)) = Some seg" "live_in ch seg e"
          using A by blast
        then show ?thesis unfolding pending_in_def live_in_def e(2)
          by (auto simp: Let_def dummy_entry_def split: if_splits EntryContent.splits)
      qed
      ultimately show ?thesis unfolding pending_def es by blast
    qed
    have cov: "covered ch ?K es" if m: "mset es = mset ?es" for es
    proof -
      have es: "set es = set ?ds" using m mset_order_entries [of ?ds] by (metis mset_eq_setD)
      show ?thesis unfolding covered_def
      proof (intro allI impI)
        fix h a k t assume "k \<in> ?K" "map_of (segs ch) k = Some t" "in_seg t a" "cell_index ch h = Some a"
        then obtain e chd where e: "e \<in> set live" "entry_content e = EC_Cell chd" "hash chd = h" using A by blast
        then have "dummy_entry e \<in> set es" by (simp add: es combine_filter_def)
        then show "\<exists>d \<in> set es. de_cell_hash d = Some h"
          using e by (intro bexI [of _ "dummy_entry e"]) (simp_all add: dummy_entry_def)
      qed
    qed
    show ?thesis
    proof (cases "?es = []")
      case True
      have "ch' = drop_segments ss ch" using w False live True by (simp add: combine_segments_def Let_def)
      then show ?thesis using drop_segments_ok [OF inv dist _ coll] cov [of "[]"] True by simp
    next
      case ne: False
      obtain dss where dss: "pack_entries ?es = Some dss"
        using w False live ne by (auto simp: combine_segments_def Let_def split: option.splits)
      obtain n1 ch1 where ch1: "combine_all E dss ch = Some (n1, ch1)" "ch' = drop_segments ss ch1"
        using w False live ne dss by (auto simp: combine_segments_def Let_def split: option.splits)
      note P = pack_entries_ok [OF dss ne]
      note C = combine_all_ok [OF E inv pend [OF P(1)] cov [OF P(1)] P(2) _ ch1(1)]
      have ok: "chunk_inv ch1" "keeps ch ch1" "covered ch1 ?K []" "\<forall>k \<in> ?K. map_of (segs ch1) k = map_of (segs ch) k"
          "head_seg_id ch1 = head_seg_id ch"
        using C dom by auto
      have "\<forall>s \<in> set ss. map_of (segs ch1) (unat (seg_id s)) \<noteq> None \<and> unat (seg_id s) \<noteq> unat (head_seg_id ch1)"
        using ok(4,5) coll by simp
      from drop_segments_ok [OF ok(1) dist ok(3) this] show ?thesis using ok(2) ch1(2) keeps_trans by blast
    qed
  qed
  then show "chunk_inv ch'" and "keeps ch ch'" by auto
qed

section \<open>The cleaner keeps every cell\<close>

lemma collected_filter:
  assumes inv: "chunk_inv ch" and ss: "ss = take n (sort_key f (filter P (segments ch)))"
    and P: "\<And>s. P s \<Longrightarrow> seg_id s \<noteq> head_seg_id ch"
  shows "collected ch ss"
proof -
  have key: "unat (seg_id s) = k \<and> map_of (segs ch) k = Some s" if "(k, s) \<in> set (segs ch)" for k s
    using that inv_distinct [OF inv] seg_invD(1) [OF inv_seg [OF inv, of k s]] by auto
  have eq: "map (unat \<circ> seg_id) (segments ch) = map fst (segs ch)"
    using key by (auto simp: segments_def)
  have "distinct (map (unat \<circ> seg_id) (filter P (segments ch)))"
    using inv_distinct [OF inv] by (intro distinct_map_filter) (simp only: eq)
  moreover have "mset (map (unat \<circ> seg_id) (sort_key f (filter P (segments ch)))) =
      mset (map (unat \<circ> seg_id) (filter P (segments ch)))"
    by (simp only: mset_map mset_sort)
  ultimately have "distinct (map (unat \<circ> seg_id) (sort_key f (filter P (segments ch))))"
    using mset_eq_imp_distinct_iff by blast
  then have d: "distinct (map (unat \<circ> seg_id) ss)" unfolding ss take_map [symmetric] by (rule distinct_take)
  have "map_of (segs ch) (unat (seg_id s)) \<noteq> None \<and> unat (seg_id s) \<noteq> unat (head_seg_id ch)" if "s \<in> set ss" for s
  proof -
    have "s \<in> set (filter P (segments ch))" using that set_take_subset unfolding ss by fastforce
    then obtain k where "(k, s) \<in> set (segs ch)" "P s" by (auto simp: segments_def)
    then show ?thesis using key P by (auto simp: word_unat_eq_iff)
  qed
  with d show ?thesis by (simp add: collected_def)
qed

lemma clean_ok:
  assumes E: "env_ok E" and inv: "chunk_inv ch" and w: "clean E full ch = Some ch'"
  shows "chunk_inv ch' \<and> keeps ch ch'"
proof (cases "gc_lock ch")
  case True
  then show ?thesis using w inv keeps_refl [OF inv] by (auto simp: clean_def clean_locked_def split: if_splits)
next
  case False
  let ?ch0 = "ch\<lparr>gc_lock := True\<rparr>"
  obtain ch1 a n1 ch2 b n2 ch3 ch4 where
      1: "scan_tombstone_survival E (segment_ids ?ch0) ?ch0 = Some ch1"
      and 2: "clean_segments E (take a (segs_for_compact_cleaner ch1)) ch1 = Some (n1, ch2)"
      and 3: "combine_segments E (take b (segs_for_combine_cleaner ch2)) ch2 = Some (n2, ch3)"
      and 4: "check_and_archive (segment_ids ch3) (ch3\<lparr>total_space := total_space ch3 - of_nat (n1 + n2)\<rparr>) = Some ch4"
      and 5: "ch' = ch4\<lparr>gc_lock := False\<rparr>"
    using w False by (auto simp: clean_def Let_def check_and_archive_segments_def segment_ids_def split: option.splits prod.splits)
  have inv0: "chunk_inv ?ch0" using inv by simp
  have S1: "chunk_inv ch1" "keeps ?ch0 ch1" using scan_tombstone_survival_ok [OF 1 inv0] by auto
  have "collected ch1 (take a (segs_for_compact_cleaner ch1))"
    unfolding segs_for_compact_cleaner_def by (rule collected_filter [OF S1(1) refl]) simp
  then have S2: "chunk_inv ch2" "keeps ch1 ch2"
    using clean_segments_ok [OF E S1(1) _ _ 2] unfolding collected_def by blast+
  have "collected ch2 (take b (segs_for_combine_cleaner ch2))"
    unfolding segs_for_combine_cleaner_def by (rule collected_filter [OF S2(1) refl]) auto
  note S3 = combine_segments_ok [OF E S2(1) this 3]
  have "chunk_inv (ch3\<lparr>total_space := total_space ch3 - of_nat (n1 + n2)\<rparr>)" using S3(1) by simp
  from check_and_archive_ok [OF 4 this] have S4: "chunk_inv ch4" "keeps ch3 ch4" by auto
  have "keeps ch ch4" using S1(2) S2(2) S3(2) S4(2) keeps_trans by (metis keeps_left(3))
  then show ?thesis using S4(1) by (simp add: 5)
qed

end
