(* ===== verification/Neb_Store.thy ===== *)
theory Neb_Store
  imports Neb_Cleaner
begin

text \<open>
  The chunk together with its cleaner. The cleaner is shown to keep the contract
  \<open>chunk_cleaner\<close> the chunk relies on, a new chunk satisfies the invariant, and the
  operations on cells, with the cleaner running inside them, refine a finite map from hashes to
  cells.
\<close>

section \<open>The cleaner keeps its contract\<close>

lemma clean_chunk_cleaner: "env_ok E \<Longrightarrow> chunk_cleaner (clean E)"
  by unfold_locales (auto dest: clean_ok)

text \<open>An environment that meets the assumptions: the free list as a stack, \<^verbatim>\<open>madvise\<close>
  that releases nothing, a copy that behaves as \<^verbatim>\<open>memmove\<close>.\<close>

definition std_env :: "'p Lib \<Rightarrow> 'p Env" where
  "std_env L = \<lparr>env_lib = L, env_pop = pop_head, env_advise = (\<lambda>m a n. m), env_memcpy = mem_move,
     env_time = 0, env_fuel = 0\<rparr>"

lemma std_env_simps [simp]:
  "env_lib (std_env L) = L" "env_pop (std_env L) = pop_head" "env_fuel (std_env L) = 0"
  by (simp_all add: std_env_def)

lemma std_env_ok [simp]: "env_ok (std_env L)"
  by (simp add: env_ok_def std_env_def)

interpretation gc: chunk_cleaner "clean (std_env L)"
  by (rule clean_chunk_cleaner) simp

section \<open>A new chunk\<close>

lemma Chunk_new_Some:
  assumes "Chunk_new E cid sz meta ib bs ws p m fs = Some ch"
  obtains seg al fs' where
    "alloc_seg (env_pop E) fs (SegmentAllocator_new p sz) bs ws = Some (Some seg, al, fs')"
    "segs ch = [(unat (seg_id seg), seg)]" "head_seg_id ch = seg_id seg" "allocator ch = al"
    "memory ch = m" "cell_index ch = Map.empty" "schemas ch = meta" "disk ch = fs'"
  using assms by (auto simp: Chunk_new_def put_segment_def split: option.splits)

lemma Chunk_new_inv:
  assumes new: "Chunk_new E cid sz meta ib bs ws p m fs = Some ch" and pop: "pops_bag (env_pop E)"
    and p: "PAGE_SIZE \<le> p" "p + SEGMENT_SIZE + sz < 2 ^ 64"
  shows "chunk_inv ch"
proof -
  obtain seg al fs' where al: "alloc_seg (env_pop E) fs (SegmentAllocator_new p sz) bs ws = Some (Some seg, al, fs')"
      and ch: "segs ch = [(unat (seg_id seg), seg)]" "head_seg_id ch = seg_id seg" "allocator ch = al"
        "memory ch = m" "cell_index ch = Map.empty"
    using new by (rule Chunk_new_Some)
  note S = alloc_seg_Some [OF al]
  let ?al = "SegmentAllocator_new p sz"
  have bl: "base al = base ?al" "limit al = limit ?al" using alloc_addr_bounds [OF S(1)] by auto
  have inv: "alloc_inv al [seg_addr seg]"
    using alloc_addr_inv [OF SegmentAllocator_new_inv pop S(1)] .
  have base: "base ?al = (p + (SEGMENT_SIZE - PAGE_SIZE)) div SEGMENT_SIZE * SEGMENT_SIZE"
      "limit ?al = base ?al + sz"
    by (simp_all add: SegmentAllocator_new_def Let_def segment_mask_eq)
  have "SEGMENT_SIZE \<le> p + (SEGMENT_SIZE - PAGE_SIZE)"
    using p(1) by (simp add: SEGMENT_SIZE_def PAGE_SIZE_def)
  then have pos: "0 < base ?al" unfolding base by (simp add: div_greater_zero_iff)
  have "base ?al \<le> p + (SEGMENT_SIZE - PAGE_SIZE)" unfolding base by (rule div_times_less_eq_dividend)
  then have lim: "limit ?al < 2 ^ 64" using p(2) base(2) by simp
  have "seg_addr seg + SEGMENT_SIZE \<le> limit al"
    by (rule alloc_inv_member [OF inv, of "seg_addr seg"]) simp_all
  then have "id_by_addr al (seg_addr seg) < 2 ^ 64"
    using lim bl unfolding id_by_addr_div by (intro le_less_trans [OF div_le_dividend]) simp
  then have k: "unat (seg_id seg) = id_by_addr al (seg_addr seg)"
    using S(4) id_by_addr_cong [OF bl(1)] by (simp add: unat_of_nat)
  have "seg_log m seg []" using S(2,3) by (simp add: seg_log_def)
  then have "seg_inv m al (unat (seg_id seg)) seg"
    using S k by (auto simp: seg_inv_def intro: exI [of _ "[]"])
  then show ?thesis using inv pos lim bl by (simp add: chunk_inv_def ch)
qed

lemma Chunk_new_head_room:
  assumes new: "Chunk_new E cid sz meta ib bs None p m fs = Some ch" and n: "n \<le> SEGMENT_SIZE"
  shows "head_room ch n"
proof -
  obtain seg al fs' where al: "alloc_seg (env_pop E) fs (SegmentAllocator_new p sz) bs None = Some (Some seg, al, fs')"
      and ch: "segs ch = [(unat (seg_id seg), seg)]" "head_seg_id ch = seg_id seg"
    using new by (rule Chunk_new_Some)
  have "wal_file seg = None"
    using al by (auto simp: alloc_seg_def Segment_new_def Let_def split: option.splits)
  then show ?thesis using alloc_seg_Some(2,3) [OF al] n by (simp add: head_room_def ch)
qed

section \<open>Update with a function\<close>

lemma from_chunk_raw_stored:
  assumes inv: "chunk_inv ch" and T: "types_ok (env_lib E) enc wt wta"
    and c: "stored (env_lib E) enc ch h c" and r: "ready (env_lib E) wt wta ch c"
    and a: "cell_index ch h = Some a"
  shows "a \<noteq> 0 \<and> (\<exists>sch. from_chunk_raw E ch a = Some (Inr (c, sch)))"
proof -
  obtain sch where s: "SchemasMap_get (schemas ch) (schema (header c)) = Some sch"
      "cell_at (env_lib E) enc (memory ch) a sch c"
    using c a by (auto simp: stored_def)
  have "a \<noteq> 0" using inv_index [OF inv a] by (rule indexed_segment [OF inv]) simp
  moreover have "fits (env_lib E) wt wta sch (data c)" using r s(1) by (simp add: ready_def)
  ultimately show ?thesis using cell_at_read [OF T s(2)] s(1) by blast
qed

lemma ready_keeps: "keeps ch ch' \<Longrightarrow> ready L wt wta ch' c = ready L wt wta ch c"
  by (simp add: ready_def keeps_def)

lemma keeps_other_trans:
  assumes "keeps ch ch1" and "keeps_other h ch1 ch2" shows "keeps_other h ch ch2"
proof -
  have "rel_option (same_entry (memory ch) (memory ch2)) (cell_index ch g) (cell_index ch2 g)" if "g \<noteq> h" for g
  proof -
    have "rel_option (same_entry (memory ch) (memory ch1)) (cell_index ch g) (cell_index ch1 g)"
      "rel_option (same_entry (memory ch1) (memory ch2)) (cell_index ch1 g) (cell_index ch2 g)"
      using assms that by (auto simp: keeps_def keeps_other_def)
    then show ?thesis
      by (cases "cell_index ch g"; cases "cell_index ch1 g"; cases "cell_index ch2 g")
         (auto intro: same_entry_trans)
  qed
  then show ?thesis using assms by (simp add: keeps_def keeps_other_def)
qed

context chunk_cleaner
begin

lemma update_cell_by_ok:
  assumes w: "update_cell_by E clean h upd ch = Some (r, ch')" and inv: "chunk_inv ch"
    and pop: "pops_bag (env_pop E)" and T: "types_ok (env_lib E) enc wt wta"
    and c: "\<forall>a. cell_index ch h = Some a \<longrightarrow> stored (env_lib E) enc ch h c \<and> ready (env_lib E) wt wta ch c"
    and u: "\<forall>n. upd c = Some n \<longrightarrow> hash (header n) = h \<and> ready (env_lib E) wt wta ch n"
  shows "chunk_inv ch' \<and> (case r of
      Inr c' \<Rightarrow> cell_index ch h \<noteq> None \<and> (\<exists>n. upd c = Some n \<and> c' = bump n \<and>
        stored (env_lib E) enc ch' h c') \<and> keeps_other h ch ch'
    | Inl _ \<Rightarrow> keeps ch ch')"
proof -
  let ?pre = "\<lambda>E ch. chunk_inv ch \<and> pops_bag (env_pop E) \<and> types_ok (env_lib E) enc wt wta \<and>
    (\<forall>a. cell_index ch h = Some a \<longrightarrow> stored (env_lib E) enc ch h c \<and> ready (env_lib E) wt wta ch c) \<and>
    (\<forall>n. upd c = Some n \<longrightarrow> hash (header n) = h \<and> ready (env_lib E) wt wta ch n)"
  let ?post = "\<lambda>E ch x. chunk_inv (snd x) \<and> (case fst x of
      Inr c' \<Rightarrow> cell_index ch h \<noteq> None \<and> (\<exists>n. upd c = Some n \<and> c' = bump n \<and>
        stored (env_lib E) enc (snd x) h c') \<and> keeps_other h ch (snd x)
    | Inl _ \<Rightarrow> keeps ch (snd x))"
  let ?P = "\<lambda>E cl g u ch x. cl = clean \<longrightarrow> g = h \<longrightarrow> u = upd \<longrightarrow> ?pre E ch \<longrightarrow> ?post E ch x"
  have "?P E clean h upd ch (r, ch')"
  proof (rule update_cell_by.raw_induct [OF _ w, of ?P], intro impI, goal_cases)
    case (1 f E cl g u ch x)
    note IH = 1(1) and body = 1(2) and pre = 1(6)
    have inv: "chunk_inv ch" and pop: "pops_bag (env_pop E)" and T: "types_ok (env_lib E) enc wt wta"
      using pre by auto
    show ?case
    proof (cases "cell_index ch h")
      case None
      then show ?thesis using body 1(3-5) inv keeps_refl [OF inv] by (auto simp: location_for_write_def)
    next
      case (Some a)
      have "stored (env_lib E) enc ch h c" "ready (env_lib E) wt wta ch c" using pre Some by auto
      from from_chunk_raw_stored [OF inv T this Some] obtain sc where
          a: "a \<noteq> 0" "from_chunk_raw E ch a = Some (Inr (c, sc))" by auto
      have loc: "location_for_write ch h = Some a" using Some a by (simp add: location_for_write_def)
      show ?thesis
      proof (cases "upd c")
        case None
        then show ?thesis using body 1(3-5) inv keeps_refl [OF inv] loc a by auto
      next
        case (Some n)
        then have n: "hash (header n) = h" "ready (env_lib E) wt wta ch n" using pre by auto
        obtain q n' ch1 where q: "write_cell_to_chunk E clean n ch = Some (q, n', ch1)"
          using body 1(3-5) loc a Some by (auto split: option.splits)
        note W = write_cell_to_chunk_ok [OF inv pop T n(2) q]
        show ?thesis
        proof (cases q)
          case (Inl e)
          then show ?thesis using body 1(3-5) loc a Some q W by (auto simp: cell_written_def)
        next
          case (Inr p)
          obtain b sch where p: "p = (b, sch)" by (cases p)
          have k: "keeps ch ch1" "chunk_inv ch1" and n': "n' = bump n"
            and s: "SchemasMap_get (schemas ch1) (schema (header (bump n))) = Some sch"
            and at: "cell_at (env_lib E) enc (memory ch1) b sch (bump n)"
            and ix: "indexed (memory ch1) (map_of (segs ch1)) h b"
            using W Inr p n(1) by (auto simp: cell_written_def keeps_def)
          show ?thesis
          proof (cases "location_for_write ch1 h = Some a")
            case True
            then obtain ch2 where ch2: "mark_dead_entry_with_cell a
                (request_index (EnsureIndices n' sch (Some c)) (set_index h b ch1)) = Some ch2" "x = (Inr n', ch2)"
              using body 1(3-5) loc a Some q Inr p by auto
            note M = mark_dead_cell_ok [OF ch2(1)]
            have "chunk_inv ch2" using set_index_inv [OF k(2) ix] by (intro M(1)) simp
            moreover have "stored (env_lib E) enc ch2 h (bump n)"
              using stored_set_index [OF at s] M by (simp add: stored_def)
            moreover have "keeps_other h ch ch2"
              using set_index_keeps [OF k(1), of h b] M by (intro keeps_other_cong [of ch2 "set_index h b ch1"]) auto
            ultimately show ?thesis using ch2(2) n' \<open>cell_index ch h = Some a\<close> Some by auto
          next
            case False
            then obtain ch2 where ch2: "mark_dead_entry_with_cell b ch1 = Some ch2" "f E clean h upd ch2 = Some x"
              using body 1(3-5) loc a Some q Inr p by (auto simp: bind_eq_Some_conv)
            note M = mark_dead_cell_ok [OF ch2(1)]
            have k2: "keeps ch ch2" using k(1) M by (intro keeps_cong [of ch2 ch1]) auto
            have "?pre E ch2"
              using pre M(1) [OF k(2)] keeps_stored [OF k2] ready_keeps [OF k2] \<open>cell_index ch h = Some a\<close> by auto
            then have "?post E ch2 x" using IH [OF ch2(2)] by blast
            then show ?thesis
              using keeps_trans [OF k2] keeps_other_trans [OF k2] keeps_index_None [OF k2, of h]
              by (auto split: sum.splits)
          qed
        qed
      qed
    qed
  qed
  then show ?thesis using assms by (cases r) simp_all
qed

end

section \<open>Removal with room\<close>

lemma acquire_tombstone_room:
  assumes "head_room ch (unat TOMBSTONE_ENTRY_SIZE)"
  shows "\<exists>pe ch1 seg. acquire_tombstone E cln ch = Some (pe, ch1) \<and> cell_index ch1 = cell_index ch \<and> disk ch1 = disk ch \<and>
    map_of (segs ch1) (pe_seg pe) = Some seg \<and> (\<forall>f. wal_file seg = Some f \<longrightarrow> \<not> denied (disk ch) f)"
proof -
  obtain seg where seg: "map_of (segs ch) (unat (head_seg_id ch)) = Some seg"
      "append_header seg + unat TOMBSTONE_ENTRY_SIZE \<le> seg_bound seg" "\<And>f. wal_file seg = Some f \<Longrightarrow> \<not> denied (disk ch) f"
    using assms by (rule head_roomD) blast
  show ?thesis
    by (subst acquire_tombstone.simps) (use try_acquire_room [OF seg(1,2), of E cln] seg in auto)
qed

lemma put_tombstone_room:
  assumes "head_room ch (unat TOMBSTONE_ENTRY_SIZE)"
  shows "\<exists>ch'. put_tombstone E cln chd sid ch = Some ch' \<and> cell_index ch' = cell_index ch"
proof -
  obtain pe ch1 seg where a: "acquire_tombstone E cln ch = Some (pe, ch1)" "cell_index ch1 = cell_index ch" "disk ch1 = disk ch"
      "map_of (segs ch1) (pe_seg pe) = Some seg" "\<forall>f. wal_file seg = Some f \<longrightarrow> \<not> denied (disk ch) f"
    using acquire_tombstone_room [OF assms, of E cln] by blast
  let ?m = "Tombstone_put (pe_addr pe) sid (version chd) (partition chd) (hash chd) (memory ch1)"
  let ?ch2 = "modify_segment (pe_seg pe) (\<lambda>s. s\<lparr>tombstones := tombstones s + 1\<rparr>) (ch1\<lparr>memory := ?m\<rparr>)"
  obtain ch' where d: "drop_pending pe ?ch2 = Some ch'"
    using drop_pending_total [of ?ch2 pe] a(3-5) by auto
  then show ?thesis using a(1,2) drop_pending_ok(4) [OF d] by (auto simp: put_tombstone_def Let_def)
qed

context chunk_cleaner
begin

lemma remove_cell_by_room:
  assumes inv: "chunk_inv ch" and pop: "pops_bag (env_pop E)" and T: "types_ok (env_lib E) enc wt wta"
    and c: "stored (env_lib E) enc ch h c" "ready (env_lib E) wt wta ch c" and pr: "pr c"
    and room: "head_room ch (unat TOMBSTONE_ENTRY_SIZE)"
  shows "\<exists>ch'. remove_cell_by E clean h pr ch = Some (Inr (), ch')"
proof -
  let ?ch0 = "lock_cell h ch"
  obtain a where a: "cell_index ch h = Some a" using c(1) by (auto simp: stored_def)
  have inv0: "chunk_inv ?ch0" using inv by simp
  have "stored (env_lib E) enc ?ch0 h c" "ready (env_lib E) wt wta ?ch0 c" using c by (simp_all add: stored_def ready_def)
  from from_chunk_raw_stored [OF inv0 T this] a obtain sch where
    raw: "from_chunk_raw E ?ch0 a = Some (Inr (c, sch))" by auto
  then obtain chd dp eh where hd: "header_from_chunk_raw (memory ?ch0) a = Some (Inr (chd, dp, eh))"
    by (auto simp: from_chunk_raw_def split: option.splits sum.splits)
  obtain k seg where k: "map_of (segs ch) k = Some seg" "locate_segment ch a = Some k"
    using inv_index [OF inv a] by (rule indexed_segment [OF inv])
  have "head_room ?ch0 (unat TOMBSTONE_ENTRY_SIZE)"
    using room by (simp add: head_room_def lock_cell_def cong: option.case_cong)
  from put_tombstone_room [OF this, of E clean chd "seg_id seg"] obtain ch1 where
      t: "put_tombstone E clean chd (seg_id seg) ?ch0 = Some ch1" "cell_index ch1 = cell_index ch" by auto
  have inv1: "chunk_inv ch1" using put_tombstone_ok(1) [OF inv0 pop t(1)] .
  have "cell_index ch1 h = Some a" using t(2) a by simp
  then have ix: "indexed (memory ch1) (map_of (segs ch1)) h a" by (rule inv_index [OF inv1])
  obtain f where f: "entry_at (memory ch1) a = Some f" using ix by (rule indexed_segment [OF inv1])
  obtain ch2 where "mark_dead_entry_with_seg a k ch1 = Some ch2" using mark_dead_entry_total [OF f] by blast
  then have "put_tombstone_by_cell_loc E clean a ?ch0 = Some (Inr (), ch2)"
    using hd k t(1) by (simp add: put_tombstone_by_cell_loc_def locate_segment_def lock_cell_def Let_def split: if_splits)
  then show ?thesis using a raw pr by (simp add: remove_cell_by_def Let_def)
qed

end

section \<open>The abstract store\<close>

text \<open>What a chunk promises its clients: a finite map from hashes to cells. An operation reads it,
  changes one entry of it or leaves it alone; an error leaves it alone.\<close>

type_synonym 'p store = "u64 \<Rightarrow> 'p OwnedCell option"

datatype 'p store_op =
    Op_Read u64
  | Op_Write "'p OwnedCell"
  | Op_Update "'p OwnedCell"
  | Op_Upsert "'p OwnedCell"
  | Op_UpdateBy u64 "'p OwnedCell \<Rightarrow> 'p OwnedCell option"
  | Op_Remove u64
  | Op_RemoveBy u64 "'p OwnedCell \<Rightarrow> bool"
  | Op_Clean bool

datatype 'p op_result = R_Cell "'p OwnedCell" | R_Header CellHeader | R_Unit

type_synonym 'p op_outcome = "'p WriteError + 'p op_result"

definition absent_error :: "u64 \<Rightarrow> ReadError" where
  "absent_error h = (if h = 0 then RE_CellIdIsUnitId else RE_CellDoesNotExisted)"

fun spec_step :: "'p store_op \<Rightarrow> 'p store \<Rightarrow> 'p op_outcome \<Rightarrow> 'p store \<Rightarrow> bool" where
  "spec_step (Op_Read h) S r S' = (S' = S \<and>
     r = (case S h of Some c \<Rightarrow> Inr (R_Cell c) | None \<Rightarrow> Inl (WE_ReadError (absent_error h))))"
| "spec_step (Op_Write c) S r S' = (case r of Inl _ \<Rightarrow> S' = S
     | Inr x \<Rightarrow> x = R_Header (header (bump c)) \<and> S (hash (header c)) = None \<and> S' = S(hash (header c) \<mapsto> bump c))"
| "spec_step (Op_Update c) S r S' = (case r of Inl _ \<Rightarrow> S' = S
     | Inr x \<Rightarrow> x = R_Header (header (bump c)) \<and> S (hash (header c)) \<noteq> None \<and> S' = S(hash (header c) \<mapsto> bump c))"
| "spec_step (Op_Upsert c) S r S' = (case r of Inl _ \<Rightarrow> S' = S
     | Inr x \<Rightarrow> x = R_Header (header (bump c)) \<and> S' = S(hash (header c) \<mapsto> bump c))"
| "spec_step (Op_UpdateBy h upd) S r S' = (case r of Inl _ \<Rightarrow> S' = S
     | Inr x \<Rightarrow> (\<exists>c n. S h = Some c \<and> upd c = Some n \<and> x = R_Cell (bump n) \<and> S' = S(h \<mapsto> bump n)))"
| "spec_step (Op_Remove h) S r S' = (case r of Inl _ \<Rightarrow> S' = S
     | Inr x \<Rightarrow> x = R_Unit \<and> S h \<noteq> None \<and> S' = S(h := None))"
| "spec_step (Op_RemoveBy h pr) S r S' = (case r of Inl _ \<Rightarrow> S' = S
     | Inr x \<Rightarrow> x = R_Unit \<and> (\<exists>c. S h = Some c \<and> pr c) \<and> S' = S(h := None))"
| "spec_step (Op_Clean full) S r S' = (r = Inr R_Unit \<and> S' = S)"

fun spec_run :: "'p store_op list \<Rightarrow> 'p store \<Rightarrow> 'p op_outcome list \<Rightarrow> 'p store \<Rightarrow> bool" where
  "spec_run [] S [] S' = (S' = S)"
| "spec_run (op # ops) S (r # rs) S' = (\<exists>S1. spec_step op S r S1 \<and> spec_run ops S1 rs S')"
| "spec_run _ _ _ _ = False"

text \<open>The operations of the chunk under the same names.\<close>

fun exec_op :: "'p Env \<Rightarrow> 'p cleaner \<Rightarrow> 'p store_op \<Rightarrow> 'p Chunk \<Rightarrow> ('p op_outcome \<times> 'p Chunk) option" where
  "exec_op E cln (Op_Read h) ch = map_option (\<lambda>r. (map_sum WE_ReadError R_Cell r, ch)) (read_cell E ch h)"
| "exec_op E cln (Op_Write c) ch = map_option (\<lambda>(r, _, ch'). (map_sum id R_Header r, ch')) (write_cell E cln c ch)"
| "exec_op E cln (Op_Update c) ch = map_option (\<lambda>(r, _, ch'). (map_sum id R_Header r, ch')) (update_cell E cln c ch)"
| "exec_op E cln (Op_Upsert c) ch = map_option (\<lambda>(r, _, ch'). (map_sum id R_Header r, ch')) (upsert_cell E cln c ch)"
| "exec_op E cln (Op_UpdateBy h upd) ch = map_option (\<lambda>(r, ch'). (map_sum id R_Cell r, ch')) (update_cell_by E cln h upd ch)"
| "exec_op E cln (Op_Remove h) ch = map_option (\<lambda>(r, ch'). (map_sum id (\<lambda>_. R_Unit) r, ch')) (remove_cell E cln h ch)"
| "exec_op E cln (Op_RemoveBy h pr) ch =
     map_option (\<lambda>(r, ch'). (map_sum id (\<lambda>_. R_Unit) r, ch')) (remove_cell_by E cln h pr ch)"
| "exec_op E cln (Op_Clean full) ch = map_option (\<lambda>ch'. (Inr R_Unit, ch')) (cln full ch)"

fun exec_ops :: "'p Env \<Rightarrow> 'p cleaner \<Rightarrow> 'p store_op list \<Rightarrow> 'p Chunk \<Rightarrow> ('p op_outcome list \<times> 'p Chunk) option" where
  "exec_ops E cln [] ch = Some ([], ch)"
| "exec_ops E cln (op # ops) ch =
     (case exec_op E cln op ch of
        None \<Rightarrow> None
      | Some (r, ch1) \<Rightarrow> map_option (\<lambda>(rs, ch2). (r # rs, ch2)) (exec_ops E cln ops ch1))"

text \<open>The cells an operation writes have data that fits their schema.\<close>

fun op_ready ::
  "'p Lib \<Rightarrow> (Type \<Rightarrow> 'p Value \<Rightarrow> bool) \<Rightarrow> (Type \<Rightarrow> 'p \<Rightarrow> bool) \<Rightarrow> 'p Chunk \<Rightarrow> 'p store_op \<Rightarrow> bool" where
  "op_ready L wt wta ch (Op_Write c) = ready L wt wta ch c"
| "op_ready L wt wta ch (Op_Update c) = ready L wt wta ch c"
| "op_ready L wt wta ch (Op_Upsert c) = ready L wt wta ch c"
| "op_ready L wt wta ch (Op_UpdateBy h upd) =
     (\<forall>c n. upd c = Some n \<longrightarrow> hash (header n) = h \<and> ready L wt wta ch n)"
| "op_ready L wt wta ch _ = True"

definition store_rel ::
  "'p Lib \<Rightarrow> (Type \<Rightarrow> 'p Value \<Rightarrow> bytes) \<Rightarrow> (Type \<Rightarrow> 'p Value \<Rightarrow> bool) \<Rightarrow> (Type \<Rightarrow> 'p \<Rightarrow> bool)
     \<Rightarrow> 'p store \<Rightarrow> 'p Chunk \<Rightarrow> bool" where
  "store_rel L enc wt wta S ch = (chunk_inv ch \<and> (\<forall>h. case S h of
       None \<Rightarrow> cell_index ch h = None
     | Some c \<Rightarrow> stored L enc ch h c \<and> ready L wt wta ch c))"

lemma store_relD:
  assumes "store_rel L enc wt wta S ch"
  shows "chunk_inv ch" and "S h = None \<longleftrightarrow> cell_index ch h = None"
    and "S h = Some c \<Longrightarrow> stored L enc ch h c \<and> ready L wt wta ch c"
proof -
  have h: "case S h of None \<Rightarrow> cell_index ch h = None | Some c \<Rightarrow> stored L enc ch h c \<and> ready L wt wta ch c"
    using assms by (simp add: store_rel_def)
  show "S h = None \<longleftrightarrow> cell_index ch h = None" using h by (cases "S h") (auto simp: stored_def)
  show "S h = Some c \<Longrightarrow> stored L enc ch h c \<and> ready L wt wta ch c" using h by simp
qed (use assms in \<open>simp add: store_rel_def\<close>)

lemma ready_schemas: "schemas ch' = schemas ch \<Longrightarrow> ready L wt wta ch' c = ready L wt wta ch c"
  by (simp add: ready_def)

lemma ready_bump [simp]: "ready L wt wta ch (bump c) = ready L wt wta ch c"
  by (simp add: ready_def)

lemma store_rel_keeps:
  assumes "store_rel L enc wt wta S ch" and "chunk_inv ch'" and "keeps ch ch'"
  shows "store_rel L enc wt wta S ch'"
proof -
  have "case S h of None \<Rightarrow> cell_index ch' h = None | Some c \<Rightarrow> stored L enc ch' h c \<and> ready L wt wta ch' c" for h
    using store_relD(2,3) [OF assms(1), of h] keeps_stored [OF assms(3)] keeps_index_None [OF assms(3), of h]
      ready_keeps [OF assms(3)] by (cases "S h") auto
  then show ?thesis using assms(2) by (simp add: store_rel_def)
qed

lemma keeps_other_index:
  "keeps_other h ch ch' \<Longrightarrow> g \<noteq> h \<Longrightarrow> cell_index ch' g = None \<longleftrightarrow> cell_index ch g = None"
  unfolding keeps_other_def by (metis option.rel_distinct(1,2) not_None_eq)

lemma store_rel_other:
  assumes S: "store_rel L enc wt wta S ch" and inv: "chunk_inv ch'" and k: "keeps_other h ch ch'"
    and new: "case x of None \<Rightarrow> cell_index ch' h = None | Some c \<Rightarrow> stored L enc ch' h c \<and> ready L wt wta ch c"
  shows "store_rel L enc wt wta (S(h := x)) ch'"
proof -
  have sch: "schemas ch' = schemas ch" using k by (simp add: keeps_other_def)
  have "case (S(h := x)) g of None \<Rightarrow> cell_index ch' g = None
      | Some c \<Rightarrow> stored L enc ch' g c \<and> ready L wt wta ch' c" for g
  proof (cases "g = h")
    case True
    then show ?thesis using new ready_schemas [OF sch] by (auto split: option.splits)
  next
    case False
    then show ?thesis
      using store_relD(2,3) [OF S] keeps_other_index [OF k False] keeps_other_stored [OF k False] ready_schemas [OF sch]
      by (auto split: option.splits)
  qed
  then show ?thesis using inv by (simp add: store_rel_def)
qed

lemma read_refines:
  assumes S: "store_rel (env_lib E) enc wt wta S ch" and T: "types_ok (env_lib E) enc wt wta"
  shows "read_cell E ch h = Some (case S h of Some c \<Rightarrow> Inr c | None \<Rightarrow> Inl (absent_error h))"
proof (cases "S h")
  case None
  then have "cell_index ch h = None" using store_relD(2) [OF S] by blast
  with None show ?thesis by (simp add: read_cell_def location_for_read_def absent_error_def)
next
  case (Some c)
  then show ?thesis using read_stored [OF store_relD(1) [OF S] T] store_relD(3) [OF S] by auto
qed

lemma remove_cell_by_predicate:
  assumes "store_rel (env_lib E) enc wt wta S ch" and "types_ok (env_lib E) enc wt wta"
    and "remove_cell_by E cln h pr ch = Some (Inr u, ch')"
  shows "\<exists>c. S h = Some c \<and> pr c"
proof -
  obtain a where a: "cell_index ch h = Some a" using assms(3) by (auto simp: remove_cell_by_def split: option.splits)
  then obtain c where c: "S h = Some c" using store_relD(2) [OF assms(1), of h] by (cases "S h") auto
  have inv: "chunk_inv (lock_cell h ch)" using store_relD(1) [OF assms(1)] by simp
  have "stored (env_lib E) enc (lock_cell h ch) h c" "ready (env_lib E) wt wta (lock_cell h ch) c"
    using store_relD(3) [OF assms(1) c] by (simp_all add: stored_def ready_def)
  from from_chunk_raw_stored [OF inv assms(2) this] a obtain sch where
    "from_chunk_raw E (lock_cell h ch) a = Some (Inr (c, sch))" by auto
  then show ?thesis using assms(3) a c by (auto simp: remove_cell_by_def Let_def split: if_splits)
qed

text \<open>The result of an operation that changes at most the entry of one hash.\<close>

lemma outcome_refines:
  assumes S: "store_rel L enc wt wta S ch" and inv: "chunk_inv ch'"
    and q: "case q of Inl _ \<Rightarrow> keeps ch ch'
      | Inr y \<Rightarrow> P y \<and> keeps_other h ch ch' \<and> (case X y of None \<Rightarrow> cell_index ch' h = None
          | Some c \<Rightarrow> stored L enc ch' h c \<and> ready L wt wta ch c)"
  shows "schemas ch' = schemas ch \<and> (\<exists>S'. store_rel L enc wt wta S' ch' \<and>
    (case q of Inl _ \<Rightarrow> S' = S | Inr y \<Rightarrow> P y \<and> S' = S(h := X y)))"
proof (cases q)
  case (Inl e)
  then show ?thesis using q store_rel_keeps [OF S inv] by (auto simp: keeps_def)
next
  case (Inr y)
  then show ?thesis using q store_rel_other [OF S inv, of h "X y"] by (auto simp: keeps_other_def)
qed

lemmas write_outcome = outcome_refines [where X = "\<lambda>_. Some (bump c)" for c]
lemmas remove_outcome = outcome_refines [where X = "\<lambda>_. None"]

context chunk_cleaner
begin

lemma put_op_refines:
  assumes S: "store_rel (env_lib E) enc wt wta S ch" and pop: "pops_bag (env_pop E)"
    and T: "types_ok (env_lib E) enc wt wta" and r: "ready (env_lib E) wt wta ch c"
  shows "write_cell E clean c ch = Some (q, c', ch') \<Longrightarrow> schemas ch' = schemas ch \<and>
      (\<exists>S'. store_rel (env_lib E) enc wt wta S' ch' \<and> spec_step (Op_Write c) S (map_sum id R_Header q) S')"
    and "update_cell E clean c ch = Some (q, c', ch') \<Longrightarrow> schemas ch' = schemas ch \<and>
      (\<exists>S'. store_rel (env_lib E) enc wt wta S' ch' \<and> spec_step (Op_Update c) S (map_sum id R_Header q) S')"
    and "upsert_cell E clean c ch = Some (q, c', ch') \<Longrightarrow> schemas ch' = schemas ch \<and>
      (\<exists>S'. store_rel (env_lib E) enc wt wta S' ch' \<and> spec_step (Op_Upsert c) S (map_sum id R_Header q) S')"
proof -
  note inv = store_relD(1) [OF S] and ix = store_relD(2) [OF S, of "hash (header c)"]
  note out = write_outcome [OF S, where h = "hash (header c)" and c = c and q = q]
  show "schemas ch' = schemas ch \<and>
      (\<exists>S'. store_rel (env_lib E) enc wt wta S' ch' \<and> spec_step (Op_Write c) S (map_sum id R_Header q) S')"
    if "write_cell E clean c ch = Some (q, c', ch')"
    using write_cell_ok [OF inv pop T r that] ix r
      out [where P = "\<lambda>y. y = header (bump c) \<and> S (hash (header c)) = None" and ch' = ch']
    by (auto split: sum.splits)
  show "schemas ch' = schemas ch \<and>
      (\<exists>S'. store_rel (env_lib E) enc wt wta S' ch' \<and> spec_step (Op_Update c) S (map_sum id R_Header q) S')"
    if "update_cell E clean c ch = Some (q, c', ch')"
    using update_cell_ok [OF inv pop T r that] ix r
      out [where P = "\<lambda>y. y = header (bump c) \<and> S (hash (header c)) \<noteq> None" and ch' = ch']
    by (auto split: sum.splits)
  show "schemas ch' = schemas ch \<and>
      (\<exists>S'. store_rel (env_lib E) enc wt wta S' ch' \<and> spec_step (Op_Upsert c) S (map_sum id R_Header q) S')"
    if "upsert_cell E clean c ch = Some (q, c', ch')"
    using upsert_cell_ok [OF inv pop T r that] r
      out [where P = "\<lambda>y. y = header (bump c)" and ch' = ch']
    by (auto split: sum.splits)
qed

lemma update_by_refines:
  assumes S: "store_rel (env_lib E) enc wt wta S ch" and pop: "pops_bag (env_pop E)"
    and T: "types_ok (env_lib E) enc wt wta" and r: "op_ready (env_lib E) wt wta ch (Op_UpdateBy h upd)"
    and w: "update_cell_by E clean h upd ch = Some (q, ch')"
  shows "schemas ch' = schemas ch \<and> (\<exists>S'. store_rel (env_lib E) enc wt wta S' ch' \<and>
    spec_step (Op_UpdateBy h upd) S (map_sum id R_Cell q) S')"
proof -
  let ?c = "the (S h)"
  have "\<forall>a. cell_index ch h = Some a \<longrightarrow> stored (env_lib E) enc ch h ?c \<and> ready (env_lib E) wt wta ch ?c"
    using store_relD(2,3) [OF S, of h] by (cases "S h") auto
  moreover have u: "\<forall>n. upd ?c = Some n \<longrightarrow> hash (header n) = h \<and> ready (env_lib E) wt wta ch n"
    using r by auto
  ultimately have W: "chunk_inv ch' \<and> (case q of
      Inr c' \<Rightarrow> cell_index ch h \<noteq> None \<and> (\<exists>n. upd ?c = Some n \<and> c' = bump n \<and>
        stored (env_lib E) enc ch' h c') \<and> keeps_other h ch ch'
    | Inl _ \<Rightarrow> keeps ch ch')"
    by (rule update_cell_by_ok [OF w store_relD(1) [OF S] pop T])
  then have "case q of Inl _ \<Rightarrow> keeps ch ch'
      | Inr y \<Rightarrow> (\<exists>c n. S h = Some c \<and> upd c = Some n \<and> y = bump n) \<and> keeps_other h ch ch' \<and>
          stored (env_lib E) enc ch' h y \<and> ready (env_lib E) wt wta ch y"
    using u store_relD(2) [OF S, of h] by (cases q; cases "S h") auto
  then show ?thesis
    using outcome_refines [OF S, where ch' = ch' and q = q and h = h and X = Some and
        P = "\<lambda>y. \<exists>c n. S h = Some c \<and> upd c = Some n \<and> y = bump n"] W
    by (cases q) auto
qed

lemma remove_op_refines:
  assumes S: "store_rel (env_lib E) enc wt wta S ch" and pop: "pops_bag (env_pop E)"
    and T: "types_ok (env_lib E) enc wt wta"
  shows "remove_cell E clean h ch = Some (q, ch') \<Longrightarrow> schemas ch' = schemas ch \<and>
      (\<exists>S'. store_rel (env_lib E) enc wt wta S' ch' \<and> spec_step (Op_Remove h) S (map_sum id (\<lambda>_. R_Unit) q) S')"
    and "remove_cell_by E clean h pr ch = Some (q, ch') \<Longrightarrow> schemas ch' = schemas ch \<and>
      (\<exists>S'. store_rel (env_lib E) enc wt wta S' ch' \<and> spec_step (Op_RemoveBy h pr) S (map_sum id (\<lambda>_. R_Unit) q) S')"
proof -
  note inv = store_relD(1) [OF S] and ix = store_relD(2) [OF S, of h]
  note out = remove_outcome [OF S, where h = h and q = q and ch' = ch']
  show "schemas ch' = schemas ch \<and>
      (\<exists>S'. store_rel (env_lib E) enc wt wta S' ch' \<and> spec_step (Op_Remove h) S (map_sum id (\<lambda>_. R_Unit) q) S')"
    if "remove_cell E clean h ch = Some (q, ch')"
    using remove_cell_ok [OF inv pop that] ix out [where P = "\<lambda>y. S h \<noteq> None"] by (cases q) auto
  show "schemas ch' = schemas ch \<and>
      (\<exists>S'. store_rel (env_lib E) enc wt wta S' ch' \<and> spec_step (Op_RemoveBy h pr) S (map_sum id (\<lambda>_. R_Unit) q) S')"
    if w: "remove_cell_by E clean h pr ch = Some (q, ch')"
  proof -
    have "\<exists>c. S h = Some c \<and> pr c" if "q = Inr u" for u
      using remove_cell_by_predicate [OF S T w [unfolded that]] .
    then show ?thesis
      using remove_cell_by_ok [OF inv pop w] out [where P = "\<lambda>y. \<exists>c. S h = Some c \<and> pr c"] by (cases q) auto
  qed
qed

lemma exec_op_refines:
  assumes S: "store_rel (env_lib E) enc wt wta S ch" and pop: "pops_bag (env_pop E)"
    and T: "types_ok (env_lib E) enc wt wta" and r: "op_ready (env_lib E) wt wta ch op"
    and x: "exec_op E clean op ch = Some (res, ch')"
  shows "schemas ch' = schemas ch \<and> (\<exists>S'. store_rel (env_lib E) enc wt wta S' ch' \<and> spec_step op S res S')"
proof (cases op)
  case (Op_Read h)
  then show ?thesis using x S read_refines [OF S T, of h] by (auto split: option.splits)
next
  case (Op_Clean full)
  then have "clean full ch = Some ch'" "res = Inr R_Unit" using x by auto
  moreover from this have "store_rel (env_lib E) enc wt wta S ch'" "schemas ch' = schemas ch"
    using store_rel_keeps [OF S] clean_inv clean_keeps store_relD(1) [OF S] by (auto simp: keeps_def)
  ultimately show ?thesis using Op_Clean by auto
next
  case (Op_Write c)
  then show ?thesis using x r put_op_refines(1) [OF S pop T, of c] by auto
next
  case (Op_Update c)
  then show ?thesis using x r put_op_refines(2) [OF S pop T, of c] by auto
next
  case (Op_Upsert c)
  then show ?thesis using x r put_op_refines(3) [OF S pop T, of c] by auto
next
  case (Op_UpdateBy h upd)
  then show ?thesis using x r update_by_refines [OF S pop T, of h upd] by auto
next
  case (Op_Remove h)
  then show ?thesis using x remove_op_refines(1) [OF S pop T, of h] by auto
next
  case (Op_RemoveBy h pr)
  then show ?thesis using x remove_op_refines(2) [OF S pop T, of h pr] by auto
qed

lemma op_ready_schemas:
  "schemas ch' = schemas ch \<Longrightarrow> op_ready L wt wta ch' op = op_ready L wt wta ch op"
  by (cases op) (simp_all add: ready_def)

lemma exec_ops_refines:
  assumes "store_rel (env_lib E) enc wt wta S ch" and "pops_bag (env_pop E)"
    and "types_ok (env_lib E) enc wt wta" and "\<forall>op \<in> set ops. op_ready (env_lib E) wt wta ch op"
    and "exec_ops E clean ops ch = Some (rs, ch')"
  shows "\<exists>S'. spec_run ops S rs S' \<and> store_rel (env_lib E) enc wt wta S' ch'"
  using assms
proof (induction ops arbitrary: S ch rs)
  case (Cons op ops)
  obtain r ch1 rs1 where x: "exec_op E clean op ch = Some (r, ch1)" "exec_ops E clean ops ch1 = Some (rs1, ch')"
      "rs = r # rs1"
    using Cons.prems(5) by (auto split: option.splits)
  have "op_ready (env_lib E) wt wta ch op" using Cons.prems(4) by simp
  from exec_op_refines [OF Cons.prems(1-3) this x(1)] obtain S1 where
      S1: "schemas ch1 = schemas ch" "store_rel (env_lib E) enc wt wta S1 ch1" "spec_step op S r S1" by auto
  have "\<forall>op \<in> set ops. op_ready (env_lib E) wt wta ch1 op"
    using Cons.prems(4) op_ready_schemas [OF S1(1)] by simp
  from Cons.IH [OF S1(2) Cons.prems(2,3) this x(2)] S1(3) x(3) show ?case by auto
qed auto

end

section \<open>A concrete chunk\<close>

definition ex_cell :: "unit OwnedCell" where
  "ex_cell = \<lparr>header = \<lparr>version = 1, timestamp = 0, schema = 0, partition = 3, hash = 9\<rparr>, data = content_value\<rparr>"

definition ex_chunk :: "unit Chunk" where
  "ex_chunk = the (Chunk_new (std_env lib_codec) 0 (4 * SEGMENT_SIZE) (new_schema SchemasMap_new content_schema)
     None None None SEGMENT_SIZE (\<lambda>_. 0) \<lparr>files = Map.empty, denied = (\<lambda>_. False)\<rparr>)"

lemma ex_chunk_new:
  "Chunk_new (std_env lib_codec) 0 (4 * SEGMENT_SIZE) (new_schema SchemasMap_new content_schema)
     None None None SEGMENT_SIZE (\<lambda>_. 0) \<lparr>files = Map.empty, denied = (\<lambda>_. False)\<rparr> = Some ex_chunk"
  by (simp add: ex_chunk_def Chunk_new_def alloc_seg_def alloc_addr_def SegmentAllocator_new_def Let_def
      segment_mask_eq SEGMENT_SIZE_def PAGE_SIZE_def pop_head_def Segment_new_def)

lemma ex_plan:
  "plan_cell lib_codec content_schema content_value = Ok (16, [ins TU32 (VU32 7) 0, ins TU32 (VU32 8) 4,
     ins TBool (VBool False) 8, ins TString (VString ''neb'') 9])"
  by (simp add: plan_cell_def content_schema_def content_value_def Schema_new_def Field_new_def record_paths_def
      lib_codec_def POINTER_SIZE_def, subst plan_write_field.simps)
     (simp add: get_by_key_id_def plan_write_field.simps plan_at.simps is_var_def jump_ins_def null_ins_def
      plan_scalar_def emit_def Let_def)

lemma ex_schema [simp]: "SchemasMap_get (schemas ex_chunk) 0 = Some content_schema"
proof -
  have "schemas ex_chunk = new_schema SchemasMap_new content_schema"
    using ex_chunk_new by (rule Chunk_new_Some)
  moreover have "schema_id content_schema = 0"
    by (simp add: content_schema_def Schema_new_def Let_def split: prod.split)
  ultimately show ?thesis by (simp add: new_schema_def SchemasMap_get_def SchemasMap_new_def)
qed

lemma ex_fits: "fits lib_codec wt_ex (\<lambda>_ _. False) content_schema content_value"
proof -
  have "laid_out lib_codec (schema_fields content_schema) 0 (static_bound content_schema)"
    unfolding content_schema_def by (rule Schema_new_laid_out)
  moreover have "\<not> is_dynamic content_schema" by (simp add: content_schema_def Schema_new_def split: prod.splits)
  ultimately show ?thesis using content_conforms ex_plan by (auto simp: fits_def)
qed

lemma ex_cell_simps [simp]: "schema (header ex_cell) = 0" "data ex_cell = content_value" "hash (header ex_cell) = 9"
  by (simp_all add: ex_cell_def)

lemma ex_ready: "ready lib_codec wt_ex (\<lambda>_ _. False) ex_chunk ex_cell"
  using ex_fits by (simp add: ready_def)

lemma new_store_rel:
  assumes "Chunk_new E cid sz meta ib bs ws p m fs = Some ch" and "pops_bag (env_pop E)"
    and "PAGE_SIZE \<le> p" "p + SEGMENT_SIZE + sz < 2 ^ 64"
  shows "store_rel L enc wt wta Map.empty ch"
proof -
  have "cell_index ch = Map.empty" using assms(1) by (rule Chunk_new_Some)
  then show ?thesis using Chunk_new_inv [OF assms] by (simp add: store_rel_def)
qed

lemma ex_store: "store_rel lib_codec enc_ex wt_ex (\<lambda>_ _. False) Map.empty ex_chunk"
  by (rule new_store_rel [OF ex_chunk_new]) (simp_all add: SEGMENT_SIZE_def PAGE_SIZE_def)

lemma ex_room: "n \<le> SEGMENT_SIZE \<Longrightarrow> head_room ex_chunk n"
  by (rule Chunk_new_head_room [OF ex_chunk_new])

lemma ex_written:
  "\<exists>ch'. write_cell (std_env lib_codec) cln ex_cell ex_chunk = Some (Inr (header (bump ex_cell)), bump ex_cell, ch') \<and>
    (\<forall>n. head_room ex_chunk (16 + CELL_HEADER_SIZE + 5 + n) \<longrightarrow> head_room ch' n)"
proof (rule write_cell_room)
  show "plan_cell (env_lib (std_env lib_codec)) content_schema (data ex_cell) = Ok (16, [ins TU32 (VU32 7) 0,
      ins TU32 (VU32 8) 4, ins TBool (VBool False) 8, ins TString (VString ''neb'') 9])"
    using ex_plan by simp
  show "head_room ex_chunk (16 + CELL_HEADER_SIZE + 5)"
    by (rule ex_room) (simp add: SEGMENT_SIZE_def CELL_HEADER_SIZE_def)
  show "cell_index ex_chunk (hash (header ex_cell)) = None" using store_relD(2) [OF ex_store] by simp
qed (simp_all add: CELL_HEADER_SIZE_def MAX_CELL_SIZE_def)

lemma ex_write_read:
  "\<exists>ch'. exec_ops (std_env lib_codec) (clean (std_env lib_codec)) [Op_Write ex_cell, Op_Read 9] ex_chunk =
    Some ([Inr (R_Header (header (bump ex_cell))), Inr (R_Cell (bump ex_cell))], ch')"
proof -
  let ?E = "std_env lib_codec" and ?ns = "\<lambda>_ _. False"
  have T: "types_ok (env_lib ?E) enc_ex wt_ex ?ns" using lib_codec_ok by simp
  have S: "store_rel (env_lib ?E) enc_ex wt_ex ?ns Map.empty ex_chunk" using ex_store by simp
  obtain ch' where w: "write_cell ?E (clean ?E) ex_cell ex_chunk = Some (Inr (header (bump ex_cell)), bump ex_cell, ch')"
    using ex_written by blast
  obtain S' where S': "store_rel (env_lib ?E) enc_ex wt_ex ?ns S' ch'" "S' 9 = Some (bump ex_cell)"
    using gc.put_op_refines(1) [OF S _ T _ w] ex_ready by auto
  then show ?thesis using w read_refines [OF S'(1) T, of 9] by simp
qed

lemma ex_second:
  "\<exists>ch. store_rel lib_codec enc_ex wt_ex (\<lambda>_ _. False) [9 \<mapsto> bump ex_cell] ch \<and>
    schemas ch = schemas ex_chunk \<and> head_room ch (16 + CELL_HEADER_SIZE + 5)"
proof -
  let ?E = "std_env lib_codec" and ?ns = "\<lambda>_ _. False"
  have T: "types_ok (env_lib ?E) enc_ex wt_ex ?ns" using lib_codec_ok by simp
  have S: "store_rel (env_lib ?E) enc_ex wt_ex ?ns Map.empty ex_chunk" using ex_store by simp
  obtain ch' where w: "write_cell ?E (clean ?E) ex_cell ex_chunk = Some (Inr (header (bump ex_cell)), bump ex_cell, ch')"
      "\<forall>n. head_room ex_chunk (16 + CELL_HEADER_SIZE + 5 + n) \<longrightarrow> head_room ch' n"
    using ex_written by blast
  have "head_room ch' (16 + CELL_HEADER_SIZE + 5)"
    using w(2) ex_room by (simp add: CELL_HEADER_SIZE_def SEGMENT_SIZE_def)
  then show ?thesis using gc.put_op_refines(1) [OF S _ T _ w(1)] ex_ready by auto
qed

lemma ex_clean: "\<exists>ch'. clean (std_env lib_codec) full ex_chunk = Some ch'"
proof -
  obtain seg al fs' where al: "alloc_seg pop_head \<lparr>files = Map.empty, denied = (\<lambda>_. False)\<rparr>
        (SegmentAllocator_new SEGMENT_SIZE (4 * SEGMENT_SIZE)) None None = Some (Some seg, al, fs')"
      and ch: "segs ex_chunk = [(unat (seg_id seg), seg)]" "head_seg_id ex_chunk = seg_id seg"
    using ex_chunk_new unfolding std_env_def by (rule Chunk_new_Some) simp
  have "tombstones seg = 0" using alloc_seg_Some(6) [OF al] .
  moreover have "gc_lock ex_chunk = False"
    by (simp add: ex_chunk_def Chunk_new_def alloc_seg_def alloc_addr_def SegmentAllocator_new_def Let_def
        segment_mask_eq SEGMENT_SIZE_def PAGE_SIZE_def pop_head_def Segment_new_def put_segment_def)
  ultimately show ?thesis using ch
    by (simp add: clean_def Let_def segment_ids_def scan_tombstones_seg_def segs_for_compact_cleaner_def
        segs_for_combine_cleaner_def segments_def modify_segment_def combine_segments_def
        check_and_archive_segments_def)
qed

section \<open>Packing: when it returns\<close>

text \<open>Entries that fit into the rest of the segment are claimed one after another.\<close>

lemma pack_turn_claims:
  assumes "pk_entries s = map (\<lambda>e. (e, True)) xs @ (y, False) # zs" and "pk_cursor s = length xs"
    and "ds_head (pk_last s) + de_size y \<le> SEGMENT_SIZE"
  shows "pack_turn s = s\<lparr>pk_entries := map (\<lambda>e. (e, True)) (xs @ [y]) @ zs, pk_to_claim := pk_to_claim s - 1,
    pk_cursor := Suc (length xs), pk_last := \<lparr>ds_head = ds_head (pk_last s) + de_size y,
      ds_entries = ds_entries (pk_last s) @ [y]\<rparr>\<rparr>"
proof -
  have "\<not> de_size y > SEGMENT_SIZE - ds_head (pk_last s)" using assms(3) by simp
  then show ?thesis using assms(1,2) by (simp add: pack_turn_def Let_def nth_append list_update_append)
qed

lemma pack_loop_prefix:
  assumes "pk_entries s = map (\<lambda>e. (e, True)) xs @ map (\<lambda>e. (e, False)) ys @ zs" and "pk_cursor s = length xs"
    and "length ys \<le> pk_to_claim s" and "ds_head (pk_last s) + sum_list (map de_size ys) \<le> SEGMENT_SIZE"
  shows "pack_loop s = pack_loop (s\<lparr>pk_entries := map (\<lambda>e. (e, True)) (xs @ ys) @ zs,
    pk_to_claim := pk_to_claim s - length ys, pk_cursor := length (xs @ ys),
    pk_last := \<lparr>ds_head = ds_head (pk_last s) + sum_list (map de_size ys), ds_entries = ds_entries (pk_last s) @ ys\<rparr>\<rparr>)"
  using assms
proof (induction ys arbitrary: s xs)
  case Nil
  then have "s\<lparr>pk_entries := map (\<lambda>e. (e, True)) (xs @ []) @ zs, pk_to_claim := pk_to_claim s - length [],
    pk_cursor := length (xs @ []), pk_last := \<lparr>ds_head = ds_head (pk_last s) + sum_list (map de_size []),
      ds_entries = ds_entries (pk_last s) @ []\<rparr>\<rparr> = s"
    by (cases s) simp
  then show ?case by simp
next
  case (Cons y ys)
  have t: "pack_turn s = s\<lparr>pk_entries := map (\<lambda>e. (e, True)) (xs @ [y]) @ map (\<lambda>e. (e, False)) ys @ zs,
      pk_to_claim := pk_to_claim s - 1, pk_cursor := Suc (length xs),
      pk_last := \<lparr>ds_head = ds_head (pk_last s) + de_size y, ds_entries = ds_entries (pk_last s) @ [y]\<rparr>\<rparr>"
    by (rule pack_turn_claims) (use Cons.prems in auto)
  have "pack_loop s = pack_loop (pack_turn s)" using Cons.prems(3) by (subst pack_loop.simps) simp
  also have "\<dots> = pack_loop ((pack_turn s)\<lparr>pk_entries := map (\<lambda>e. (e, True)) ((xs @ [y]) @ ys) @ zs,
    pk_to_claim := pk_to_claim (pack_turn s) - length ys, pk_cursor := length ((xs @ [y]) @ ys),
    pk_last := \<lparr>ds_head = ds_head (pk_last (pack_turn s)) + sum_list (map de_size ys),
      ds_entries = ds_entries (pk_last (pack_turn s)) @ ys\<rparr>\<rparr>)"
    by (rule Cons.IH) (use Cons.prems t in auto)
  also have "\<dots> = pack_loop (s\<lparr>pk_entries := map (\<lambda>e. (e, True)) (xs @ y # ys) @ zs,
    pk_to_claim := pk_to_claim s - length (y # ys), pk_cursor := length (xs @ y # ys),
    pk_last := \<lparr>ds_head = ds_head (pk_last s) + sum_list (map de_size (y # ys)),
      ds_entries = ds_entries (pk_last s) @ y # ys\<rparr>\<rparr>)"
    by (simp add: t add.assoc)
  finally show ?case .
qed

lemma pack_entries_fits:
  assumes "sum_list (map de_size entries) \<le> SEGMENT_SIZE"
  shows "pack_entries entries = Some [\<lparr>ds_head = sum_list (map de_size entries), ds_entries = entries\<rparr>]"
proof -
  have "pack_loop (pack_start entries) = pack_loop \<lparr>pk_entries = map (\<lambda>e. (e, True)) entries, pk_to_claim = 0,
      pk_cursor = length entries, pk_last = \<lparr>ds_head = sum_list (map de_size entries), ds_entries = entries\<rparr>, pk_done = []\<rparr>"
    using pack_loop_prefix [of "pack_start entries" "[]" entries "[]"] assms
    by (simp add: pack_start_def DummySegment_new_def)
  then show ?thesis by (simp add: pack_entries_def pack_loop.simps)
qed

text \<open>The packing is stuck when the last entry is claimed and no other entry fits: only an
  unclaimed last entry opens a new segment.\<close>

definition pack_stuck :: "PackState \<Rightarrow> bool" where
  "pack_stuck s = (pk_to_claim s > 0 \<and> pk_entries s \<noteq> [] \<and> snd (last (pk_entries s)) \<and>
     (\<forall>(e, claimed) \<in> set (pk_entries s). claimed \<or> de_size e > SEGMENT_SIZE - ds_head (pk_last s)))"

lemma pack_stuck_turn:
  assumes "pack_stuck s" shows "pack_stuck (pack_turn s)"
proof -
  let ?i = "pk_cursor s mod length (pk_entries s)"
  obtain e cl where e: "pk_entries s ! ?i = (e, cl)" by (cases "pk_entries s ! ?i")
  have ne: "pk_entries s \<noteq> []" and l: "snd (last (pk_entries s))" using assms by (auto simp: pack_stuck_def)
  then have i: "?i < length (pk_entries s)" by simp
  then have "(e, cl) \<in> set (pk_entries s)" using e by (metis nth_mem)
  then have big: "cl \<or> de_size e > SEGMENT_SIZE - ds_head (pk_last s)" using assms by (auto simp: pack_stuck_def)
  have "cl" if "?i = length (pk_entries s) - 1" using l e that ne by (simp add: last_conv_nth)
  then have "pack_turn s = s\<lparr>pk_cursor := pk_cursor s + 1\<rparr>" using e big by (auto simp: pack_turn_def Let_def)
  then show ?thesis using assms by (simp add: pack_stuck_def)
qed

definition dummy_of :: "nat \<Rightarrow> DummyEntry" where
  "dummy_of n = \<lparr>de_size = n, de_addr = 0, de_cell_hash = None, de_timestamp = 0\<rparr>"

text \<open>Nine entries of a million bytes before one of a hundred: eight large ones fill the first
  segment up to the small one, which is the last.\<close>

definition ex_entries :: "DummyEntry list" where
  "ex_entries = replicate 8 (dummy_of 1000000) @ [dummy_of 1000000, dummy_of 100]"

definition ex_stuck :: PackState where
  "ex_stuck = \<lparr>pk_entries = replicate 8 (dummy_of 1000000, True) @ [(dummy_of 1000000, False), (dummy_of 100, True)],
     pk_to_claim = 1, pk_cursor = 10,
     pk_last = \<lparr>ds_head = 8000100, ds_entries = replicate 8 (dummy_of 1000000) @ [dummy_of 100]\<rparr>, pk_done = []\<rparr>"

lemma ex_entries_stuck: "pack_loop (pack_start ex_entries) = pack_loop ex_stuck" and ex_stuck: "pack_stuck ex_stuck"
proof -
  let ?s = "\<lparr>pk_entries = replicate 8 (dummy_of 1000000, True) @ [(dummy_of 1000000, False), (dummy_of 100, False)],
     pk_to_claim = 2, pk_cursor = 8,
     pk_last = \<lparr>ds_head = 8000000, ds_entries = replicate 8 (dummy_of 1000000)\<rparr>, pk_done = []\<rparr>"
  have "pack_loop (pack_start ex_entries) = pack_loop ?s"
    using pack_loop_prefix [of "pack_start ex_entries" "[]" "replicate 8 (dummy_of 1000000)"
        "[(dummy_of 1000000, False), (dummy_of 100, False)]"]
    by (simp add: pack_start_def ex_entries_def DummySegment_new_def dummy_of_def SEGMENT_SIZE_def sum_list_replicate)
  also have "\<dots> = pack_loop (pack_turn (pack_turn ?s))"
    by (subst pack_loop.simps, subst pack_loop.simps) (simp add: pack_turn_def Let_def nth_append dummy_of_def SEGMENT_SIZE_def)
  also have "pack_turn (pack_turn ?s) = ex_stuck"
    by (simp add: pack_turn_def Let_def nth_append list_update_append dummy_of_def SEGMENT_SIZE_def ex_stuck_def)
  finally show "pack_loop (pack_start ex_entries) = pack_loop ex_stuck" .
  show "pack_stuck ex_stuck" by (simp add: pack_stuck_def ex_stuck_def dummy_of_def SEGMENT_SIZE_def)
qed

section \<open>Two segments\<close>

definition ex_two :: "unit Chunk" where
  "ex_two = the (new_head_segment (std_env lib_codec) ex_chunk)"

lemma ex_two:
  "chunk_inv ex_two" "\<exists>seg. map_of (segs ex_two) 0 = Some seg \<and> seg_id seg = 0" "head_seg_id ex_two = 1" "cell_locks ex_two = {}"
proof -
  note defs = ex_chunk_def Chunk_new_def alloc_seg_def alloc_addr_def SegmentAllocator_new_def Let_def
    segment_mask_eq SEGMENT_SIZE_def PAGE_SIZE_def pop_head_def Segment_new_def put_segment_def new_head_segment_def
    id_by_addr_div
  have new: "new_head_segment (std_env lib_codec) ex_chunk = Some ex_two"
    by (simp add: ex_two_def) (simp add: defs)
  show "chunk_inv ex_two"
    using new_head_segment_ok(1) [OF store_relD(1) [OF ex_store] _ new] by simp
  show "\<exists>seg. map_of (segs ex_two) 0 = Some seg \<and> seg_id seg = 0" "head_seg_id ex_two = 1" "cell_locks ex_two = {}"
    by (simp_all add: ex_two_def defs)
qed

section \<open>Properties\<close>







text \<open>C18: writing a cell whose hash is taken fails with \<^verbatim>\<open>CellAlreadyExisted\<close> and changes
  the result of no read, but the head segment has grown by the rejected entry and its count of dead
  bytes has not: the space is lost to the cleaner's accounting.\<close>

theorem write_existing_leaks:
  assumes E: "env_ok E" and T: "types_ok (env_lib E) enc wt wta" and S: "store_rel (env_lib E) enc wt wta S ch"
    and r: "ready (env_lib E) wt wta ch c" and s: "SchemasMap_get (schemas ch) (schema (header c)) = Some sch"
    and p: "plan_cell (env_lib E) sch (data c) = Ok (t, js)"
    and room: "t + CELL_HEADER_SIZE + 5 \<le> unat MAX_CELL_SIZE" "head_room ch (t + CELL_HEADER_SIZE + 5)"
    and old: "S (hash (header c)) = Some c0"
  shows "\<exists>ch' seg seg'. write_cell E (clean E) c ch = Some (Inl WE_CellAlreadyExisted, bump c, ch') \<and>
    (\<forall>h. read_cell E ch' h = read_cell E ch h) \<and>
    map_of (segs ch) (unat (head_seg_id ch)) = Some seg \<and> map_of (segs ch') (unat (head_seg_id ch)) = Some seg' \<and>
    append_header seg < append_header seg' \<and> total_dead_space seg' = total_dead_space seg"
proof -
  have "cell_index ch (hash (header c)) \<noteq> None" using store_relD(2) [OF S, of "hash (header c)"] old by simp
  from write_cell_existing [OF s p room this, of "clean E"] obtain ch' seg seg' where
    w: "write_cell E (clean E) c ch = Some (Inl WE_CellAlreadyExisted, bump c, ch')"
      "map_of (segs ch) (unat (head_seg_id ch)) = Some seg" "map_of (segs ch') (unat (head_seg_id ch)) = Some seg'"
      "append_header seg < append_header seg'" "total_dead_space seg' = total_dead_space seg" by blast
  have "store_rel (env_lib E) enc wt wta S ch'"
    using chunk_cleaner.put_op_refines(1) [OF clean_chunk_cleaner [OF E] S env_okD(1) [OF E] T r w(1)] by auto
  then have "\<forall>h. read_cell E ch' h = read_cell E ch h" using read_refines [OF _ T] S by simp
  then show ?thesis using w by blast
qed

theorem write_existing_leaks_witness:
  "\<exists>ch ch'. write_cell (std_env lib_codec) (clean (std_env lib_codec)) ex_cell ch =
    Some (Inl WE_CellAlreadyExisted, bump ex_cell, ch')"
proof -
  obtain ch where ch: "store_rel lib_codec enc_ex wt_ex (\<lambda>_ _. False) [9 \<mapsto> bump ex_cell] ch"
      "schemas ch = schemas ex_chunk" "head_room ch (16 + CELL_HEADER_SIZE + 5)"
    using ex_second by blast
  let ?E = "std_env lib_codec" and ?ns = "\<lambda>_ _. False"
  have "types_ok (env_lib ?E) enc_ex wt_ex ?ns" "store_rel (env_lib ?E) enc_ex wt_ex ?ns [9 \<mapsto> bump ex_cell] ch"
      "ready (env_lib ?E) wt_ex ?ns ch ex_cell" "SchemasMap_get (schemas ch) (schema (header ex_cell)) = Some content_schema"
      "plan_cell (env_lib ?E) content_schema (data ex_cell) = Ok (16, [ins TU32 (VU32 7) 0, ins TU32 (VU32 8) 4,
        ins TBool (VBool False) 8, ins TString (VString ''neb'') 9])"
      "16 + CELL_HEADER_SIZE + 5 \<le> unat MAX_CELL_SIZE" "[9 \<mapsto> bump ex_cell] (hash (header ex_cell)) = Some (bump ex_cell)"
    using lib_codec_ok ch ex_plan ex_ready by (simp_all add: ready_def CELL_HEADER_SIZE_def MAX_CELL_SIZE_def)
  from write_existing_leaks [OF std_env_ok this(1-6) ch(3) this(7)] show ?thesis by blast
qed



text \<open>C35: the packing of live entries into new segments loses and duplicates nothing and overfills no
  segment whenever it returns, and it returns, with a single segment, when the entries fit into one.\<close>

theorem pack_partitions:
  assumes "entries \<noteq> []"
  shows "(\<forall>pss. pack_entries entries = Some pss \<longrightarrow> mset (concat (map ds_entries pss)) = mset entries \<and>
      (\<forall>d \<in> set pss. sum_list (map de_size (ds_entries d)) \<le> SEGMENT_SIZE)) \<and>
    (sum_list (map de_size entries) \<le> SEGMENT_SIZE \<longrightarrow> (\<exists>d. pack_entries entries = Some [d] \<and> ds_entries d = entries))"
  using pack_entries_ok [OF _ assms] pack_entries_fits by auto

theorem pack_partitions_witness:
  "\<exists>d. pack_entries [dummy_of 10, dummy_of 7] = Some [d] \<and> ds_entries d = [dummy_of 10, dummy_of 7]"
  using pack_partitions [of "[dummy_of 10, dummy_of 7]"] by (simp add: dummy_of_def SEGMENT_SIZE_def)

text \<open>The packing loop never ends once the last entry is claimed while no unclaimed entry fits
  into the open segment, because only an unclaimed last entry opens the next segment; nine entries of a
  million bytes followed by one of a hundred already reach that state. The cleaner then holds its lock
  for ever.\<close>

theorem pack_never_ends:
  assumes "pack_stuck s" shows "pack_loop s = None"
proof (rule ccontr)
  assume "pack_loop s \<noteq> None"
  then obtain r where r: "pack_loop s = Some r" by blast
  have "\<not> pack_stuck s"
  proof (rule pack_loop.raw_induct [OF _ r, of "\<lambda>s _. \<not> pack_stuck s"], rule notI)
    fix f s x
    assume IH: "\<And>s r. f s = Some r \<Longrightarrow> \<not> pack_stuck s" and st: "pack_stuck s"
      and body: "(if 0 < pk_to_claim s then f (pack_turn s) else Some s) = Some x"
    have "0 < pk_to_claim s" using st by (simp add: pack_stuck_def)
    then have "f (pack_turn s) = Some x" using body by simp
    from IH [OF this] pack_stuck_turn [OF st] show False by simp
  qed
  then show False using assms by simp
qed

theorem pack_never_ends_witness: "pack_entries ex_entries = None"
  using pack_never_ends [OF ex_stuck] ex_entries_stuck by (simp add: pack_entries_def)

end
