(* ===== verification/Neb_Txn_Store.thy ===== *)
theory Neb_Txn_Store
  imports Neb_Store Neb_Txn_Site
begin

text \<open>
  The chunks as the store of a data site: the operations of \<^verbatim>\<open>Chunks\<close> with the cleaner
  satisfy the contract \<open>cell_store\<close>, so that what was proved of commit and rollback holds of
  transactions on real chunks.
\<close>

section \<open>Chunks as a store\<close>

definition chunk_ops :: "'p Env \<Rightarrow> ('p Chunks, 'p) StoreOps" where
  "chunk_ops E = \<lparr>so_read = Chunks_read_cell E, so_read_selected = Chunks_read_selected E,
     so_read_partial_raw = Chunks_read_partial_raw, so_head = Chunks_head_cell,
     so_write = Chunks_write_cell E (clean E), so_update_by = Chunks_update_cell_by E (clean E),
     so_remove_by = Chunks_remove_cell_by E (clean E)\<rparr>"

text \<open>A cell is found by the chunk of its partition and by its hash.\<close>

definition chunk_key :: "nat \<Rightarrow> Id \<Rightarrow> nat \<times> u64" where
  "chunk_key n i = (unat (higher i) mod n, lower i)"

definition cell_fits ::
  "'p Lib \<Rightarrow> (Type \<Rightarrow> 'p Value \<Rightarrow> bool) \<Rightarrow> (Type \<Rightarrow> 'p \<Rightarrow> bool) \<Rightarrow> SchemasMap \<Rightarrow> 'p OwnedCell \<Rightarrow> bool" where
  "cell_fits L wt wta sm c = (\<forall>sch. SchemasMap_get sm (schema (header c)) = Some sch \<longrightarrow> fits L wt wta sch (data c))"

definition chunks_rel ::
  "'p Lib \<Rightarrow> (Type \<Rightarrow> 'p Value \<Rightarrow> bytes) \<Rightarrow> (Type \<Rightarrow> 'p Value \<Rightarrow> bool) \<Rightarrow> (Type \<Rightarrow> 'p \<Rightarrow> bool) \<Rightarrow> nat \<Rightarrow> SchemasMap
     \<Rightarrow> (nat \<times> u64 \<Rightarrow> 'p OwnedCell option) \<Rightarrow> 'p Chunks \<Rightarrow> bool" where
  "chunks_rel L enc wt wta n sm S chs = (length chs = n \<and> 0 < n \<and>
     (\<forall>i < n. store_rel L enc wt wta (\<lambda>h. S (i, h)) (chs ! i) \<and> schemas (chs ! i) = sm) \<and>
     (\<forall>k c. S k = Some c \<longrightarrow> chunk_key n (cell_id c) = k))"

lemma chunks_relD:
  assumes "chunks_rel L enc wt wta n sm S chs"
  shows "length chs = n" "0 < n" "chs \<noteq> []" "i < n \<Longrightarrow> store_rel L enc wt wta (\<lambda>h. S (i, h)) (chs ! i)"
    "i < n \<Longrightarrow> schemas (chs ! i) = sm" "S k = Some c \<Longrightarrow> chunk_key n (cell_id c) = k"
  using assms unfolding chunks_rel_def by (auto simp del: split_paired_All)

lemma ready_fits: "schemas ch = sm \<Longrightarrow> ready L wt wta ch c = cell_fits L wt wta sm c"
  by (simp add: ready_def cell_fits_def)

lemma cell_id_bump [simp]: "cell_id (bump c) = cell_id c" "partition (header (bump c)) = partition (header c)"
  by (simp_all add: cell_id_def header_id_def bump_def)

lemma chunk_key_cell: "chunk_key n (cell_id c) = (unat (partition (header c)) mod n, hash (header c))"
  by (simp add: chunk_key_def cell_id_def header_id_def)

text \<open>One chunk takes a step of the abstract store.\<close>

lemma chunks_rel_step:
  assumes R: "chunks_rel L enc wt wta n sm S chs" and i: "i < n"
    and ch': "store_rel L enc wt wta ((\<lambda>g. S (i, g))(h := x)) ch'" "schemas ch' = schemas (chs ! i)"
    and key: "\<And>c. x = Some c \<Longrightarrow> chunk_key n (cell_id c) = (i, h)"
  shows "chunks_rel L enc wt wta n sm (S((i, h) := x)) (chs[i := ch'])"
proof -
  note D = chunks_relD [OF R]
  have "store_rel L enc wt wta (\<lambda>g. (S((i, h) := x)) (j, g)) (chs[i := ch'] ! j) \<and> schemas (chs[i := ch'] ! j) = sm"
    if j: "j < n" for j
  proof (cases "j = i")
    case True
    have "(\<lambda>g. (S((i, h) := x)) (i, g)) = (\<lambda>g. S (i, g))(h := x)" by (rule ext) simp
    then show ?thesis using ch' D(1) D(5) [OF i] i True by simp
  next
    case False
    then show ?thesis using D(1,4,5) j by simp
  qed
  then show ?thesis using D(1,2,6) key unfolding chunks_rel_def by auto
qed

lemma chunks_rel_same:
  assumes R: "chunks_rel L enc wt wta n sm S chs" and i: "i < n"
    and ch': "store_rel L enc wt wta (\<lambda>g. S (i, g)) ch'" "schemas ch' = schemas (chs ! i)"
  shows "chunks_rel L enc wt wta n sm S (chs[i := ch'])"
proof -
  have "store_rel L enc wt wta (\<lambda>g. S (j, g)) (chs[i := ch'] ! j) \<and> schemas (chs[i := ch'] ! j) = sm" if "j < n" for j
    using chunks_relD(1,4,5) [OF R] i ch' that by (cases "j = i") auto
  then show ?thesis using chunks_relD(1,2,6) [OF R] unfolding chunks_rel_def by auto
qed

lemma locate_by_key:
  "chs \<noteq> [] \<Longrightarrow> locate_chunk_by_key chs i = Some (chunk_key (length chs) i)"
  by (simp add: locate_chunk_by_key_def locate_chunk_by_partition_def chunk_key_def)

lemma write_cell_version: "write_cell E cln c ch = Some (r, c', ch') \<Longrightarrow> c' = c \<or> c' = bump c"
  by (auto simp: write_cell_def write_cell_to_chunk_def write_to_chunk_with_schema_def Let_def bump_def
      split: option.splits result.splits sum.splits prod.splits if_splits)

lemma chunk_exec:
  assumes E: "env_ok E" and T: "types_ok (env_lib E) enc wt wta" and R: "chunks_rel (env_lib E) enc wt wta n sm S chs"
    and i: "i < n" and r: "op_ready (env_lib E) wt wta (chs ! i) op"
    and x: "exec_op E (clean E) op (chs ! i) = Some (res, ch')"
  obtains S' where "schemas ch' = schemas (chs ! i)" "store_rel (env_lib E) enc wt wta S' ch'"
    "spec_step op (\<lambda>g. S (i, g)) res S'"
  using chunk_cleaner.exec_op_refines [OF clean_chunk_cleaner [OF E] chunks_relD(4) [OF R i] env_okD(1) [OF E] T r x]
  by blast

lemma chunks_cell_store:
  assumes E: "env_ok E" and T: "types_ok (env_lib E) enc wt wta"
  shows "cell_store (chunk_ops E) (chunk_key n) (chunks_rel (env_lib E) enc wt wta n sm) (cell_fits (env_lib E) wt wta sm)"
proof
  fix S :: "nat \<times> u64 \<Rightarrow> 'a OwnedCell option" and st k c
  assume R: "chunks_rel (env_lib E) enc wt wta n sm S st" and c: "S k = Some c"
  have k: "chunk_key n (cell_id c) = k" using chunks_relD(6) [OF R c] .
  then have "fst k < n" using chunks_relD(2) [OF R] by (auto simp: chunk_key_def)
  then have "ready (env_lib E) wt wta (st ! fst k) c" "schemas (st ! fst k) = sm"
    using store_relD(3) [OF chunks_relD(4) [OF R], of "fst k" "snd k" c] chunks_relD(5) [OF R] c by auto
  then show "cell_fits (env_lib E) wt wta sm c \<and> chunk_key n (cell_id c) = k" using k by (simp add: ready_fits)
next
  fix S :: "nat \<times> u64 \<Rightarrow> 'a OwnedCell option" and st i rr
  assume R: "chunks_rel (env_lib E) enc wt wta n sm S st" and rd: "so_read (chunk_ops E) st i = Some rr"
  let ?j = "unat (higher i) mod n"
  have j: "?j < n" using chunks_relD(2) [OF R] by simp
  have "read_cell E (st ! ?j) (lower i) = Some rr"
    using rd chunks_relD(1,3) [OF R] by (simp add: chunk_ops_def Chunks_read_cell_def locate_by_key chunk_key_def)
  then show "case S (chunk_key n i) of Some c \<Rightarrow> rr = Inr c | None \<Rightarrow> \<exists>e. rr = Inl e"
    using read_refines [OF chunks_relD(4) [OF R j] T, of "lower i"] by (auto simp: chunk_key_def split: option.splits)
next
  fix S :: "nat \<times> u64 \<Rightarrow> 'a OwnedCell option" and st c wr c' st'
  assume R: "chunks_rel (env_lib E) enc wt wta n sm S st" and f: "cell_fits (env_lib E) wt wta sm c"
    and w: "so_write (chunk_ops E) c st = Some ((wr, c'), st')"
  let ?j = "unat (partition (header c)) mod n"
  have j: "?j < n" using chunks_relD(2) [OF R] by simp
  obtain ch' where w': "write_cell E (clean E) c (st ! ?j) = Some (wr, c', ch')" "st' = st[?j := ch']"
    using w chunks_relD(1,3) [OF R]
    by (auto simp: chunk_ops_def Chunks_write_cell_def locate_chunk_by_partition_def on_chunk_def)
  have r: "ready (env_lib E) wt wta (st ! ?j) c" using f ready_fits [OF chunks_relD(5) [OF R j]] by simp
  have "exec_op E (clean E) (Op_Write c) (st ! ?j) = Some (map_sum id R_Header wr, ch')" using w'(1) by simp
  from chunk_exec [OF E T R j _ this] r obtain S' where S': "schemas ch' = schemas (st ! ?j)"
      "store_rel (env_lib E) enc wt wta S' ch'" "spec_step (Op_Write c) (\<lambda>g. S (?j, g)) (map_sum id R_Header wr) S'" by auto
  have cid: "cell_id c' = cell_id c" using write_cell_version [OF w'(1)] by auto
  show "cell_id c' = cell_id c \<and> (case wr of Inl _ \<Rightarrow> chunks_rel (env_lib E) enc wt wta n sm S st'
       | Inr chd \<Rightarrow> S (chunk_key n (cell_id c)) = None \<and> chd = header (bump c) \<and>
           chunks_rel (env_lib E) enc wt wta n sm (S(chunk_key n (cell_id c) \<mapsto> bump c)) st')"
  proof (cases wr)
    case (Inl e)
    then show ?thesis using chunks_rel_same [OF R j] S' w'(2) cid by auto
  next
    case (Inr chd)
    then show ?thesis using chunks_rel_step [OF R j, of "hash (header c)" "Some (bump c)" ch'] S' w'(2) cid
      by (auto simp: chunk_key_cell)
  qed
next
  fix S :: "nat \<times> u64 \<Rightarrow> 'a OwnedCell option" and st upd i ur st'
  assume R: "chunks_rel (env_lib E) enc wt wta n sm S st"
    and u: "\<forall>c na. upd c = Some na \<longrightarrow> cell_fits (env_lib E) wt wta sm na \<and> chunk_key n (cell_id na) = chunk_key n i"
    and w: "so_update_by (chunk_ops E) i upd st = Some (ur, st')"
  let ?j = "unat (higher i) mod n"
  have j: "?j < n" using chunks_relD(2) [OF R] by simp
  obtain ch' where w': "update_cell_by E (clean E) (lower i) upd (st ! ?j) = Some (ur, ch')" "st' = st[?j := ch']"
    using w chunks_relD(1,3) [OF R]
    by (auto simp: chunk_ops_def Chunks_update_cell_by_def locate_by_key on_chunk_def chunk_key_def)
  have r: "op_ready (env_lib E) wt wta (st ! ?j) (Op_UpdateBy (lower i) upd)"
    using u ready_fits [OF chunks_relD(5) [OF R j]] by (auto simp: chunk_key_cell) (auto simp: chunk_key_def)
  have "exec_op E (clean E) (Op_UpdateBy (lower i) upd) (st ! ?j) = Some (map_sum id R_Cell ur, ch')" using w'(1) by simp
  from chunk_exec [OF E T R j r this] obtain S' where S': "schemas ch' = schemas (st ! ?j)"
      "store_rel (env_lib E) enc wt wta S' ch'" "spec_step (Op_UpdateBy (lower i) upd) (\<lambda>g. S (?j, g)) (map_sum id R_Cell ur) S'" .
  show "case ur of Inl _ \<Rightarrow> chunks_rel (env_lib E) enc wt wta n sm S st'
       | Inr c' \<Rightarrow> \<exists>c na. S (chunk_key n i) = Some c \<and> upd c = Some na \<and> c' = bump na \<and>
           chunks_rel (env_lib E) enc wt wta n sm (S(chunk_key n i \<mapsto> bump na)) st'"
  proof (cases ur)
    case (Inl e)
    then show ?thesis using chunks_rel_same [OF R j] S' w'(2) by auto
  next
    case (Inr c')
    then obtain c na where c: "S (?j, lower i) = Some c" "upd c = Some na" "c' = bump na" "S' = (\<lambda>g. S (?j, g))(lower i \<mapsto> bump na)"
      using S'(3) by auto
    have "chunks_rel (env_lib E) enc wt wta n sm (S((?j, lower i) \<mapsto> bump na)) (st[?j := ch'])"
      by (rule chunks_rel_step [OF R j]) (use S'(1,2) c u in \<open>auto simp: chunk_key_def\<close>)
    then show ?thesis using Inr c w'(2) by (auto simp: chunk_key_def)
  qed
next
  fix S :: "nat \<times> u64 \<Rightarrow> 'a OwnedCell option" and st i pr r st'
  assume R: "chunks_rel (env_lib E) enc wt wta n sm S st" and w: "so_remove_by (chunk_ops E) i pr st = Some (r, st')"
  let ?j = "unat (higher i) mod n"
  have j: "?j < n" using chunks_relD(2) [OF R] by simp
  obtain ch' where w': "remove_cell_by E (clean E) (lower i) pr (st ! ?j) = Some (r, ch')" "st' = st[?j := ch']"
    using w chunks_relD(1,3) [OF R]
    by (auto simp: chunk_ops_def Chunks_remove_cell_by_def locate_by_key on_chunk_def chunk_key_def)
  have "exec_op E (clean E) (Op_RemoveBy (lower i) pr) (st ! ?j) = Some (map_sum id (\<lambda>_. R_Unit) r, ch')" using w'(1) by simp
  from chunk_exec [OF E T R j _ this] obtain S' where S': "schemas ch' = schemas (st ! ?j)"
      "store_rel (env_lib E) enc wt wta S' ch'" "spec_step (Op_RemoveBy (lower i) pr) (\<lambda>g. S (?j, g)) (map_sum id (\<lambda>_. R_Unit) r) S'" by auto
  show "case r of Inl _ \<Rightarrow> chunks_rel (env_lib E) enc wt wta n sm S st'
       | Inr _ \<Rightarrow> \<exists>c. S (chunk_key n i) = Some c \<and> pr c \<and> chunks_rel (env_lib E) enc wt wta n sm (S(chunk_key n i := None)) st'"
  proof (cases r)
    case (Inl e)
    then show ?thesis using chunks_rel_same [OF R j] S' w'(2) by auto
  next
    case (Inr v)
    then show ?thesis using chunks_rel_step [OF R j, of "lower i" None ch'] S' w'(2) by (auto simp: chunk_key_def)
  qed
qed

interpretation chunks: cell_store "chunk_ops (std_env lib_codec)" "chunk_key n"
    "chunks_rel lib_codec enc_ex wt_ex (\<lambda>_ _. False) n sm" "cell_fits lib_codec wt_ex (\<lambda>_ _. False) sm"
  using chunks_cell_store [OF std_env_ok [of lib_codec], of enc_ex wt_ex "\<lambda>_ _. False" n sm] lib_codec_ok by simp

section \<open>A transaction on a concrete chunk\<close>

lemma ex_chunks: "chunks_rel lib_codec enc_ex wt_ex (\<lambda>_ _. False) 1 (schemas ex_chunk) Map.empty [ex_chunk]"
proof -
  have "(\<lambda>h. (Map.empty :: nat \<times> u64 \<Rightarrow> unit OwnedCell option) (i, h)) = Map.empty" for i by (rule ext) simp
  then show ?thesis using ex_store by (simp add: chunks_rel_def)
qed

definition ex_site :: "(nat, unit, unit Chunks) DataManager" where
  "ex_site = put_txn 5 \<lparr>st_state = Prepared, st_affected_cells = [cell_id ex_cell], st_last_activity = 0, st_history = []\<rparr>
     (DataManager_new 0 [ex_chunk])"

lemma ex_site_store [simp]: "dm_store ex_site = [ex_chunk]"
  "dm_txns ex_site 5 = Some \<lparr>st_state = Prepared, st_affected_cells = [cell_id ex_cell], st_last_activity = 0, st_history = []\<rparr>"
  by (simp_all add: ex_site_def DataManager_new_def)

lemma ex_site_run:
  "\<exists>r dm1 r' dm2. site_commit nat_clocks (chunk_ops (std_env lib_codec)) 0 0 5 [CO_Write ex_cell] ex_site = Some (r, dm1) \<and>
    payload r = DMC_Success \<and> dm_store dm1 \<noteq> dm_store ex_site \<and>
    site_abort nat_clocks (chunk_ops (std_env lib_codec)) id 0 0 5 dm1 = Some (r', dm2) \<and> payload r' = AR_Success None"
proof -
  let ?E = "std_env lib_codec" and ?ns = "\<lambda>_ _. False"
  have T: "types_ok (env_lib ?E) enc_ex wt_ex ?ns" using lib_codec_ok by simp
  have S: "store_rel (env_lib ?E) enc_ex wt_ex ?ns Map.empty ex_chunk" using ex_store by simp
  obtain ch' where w: "write_cell ?E (clean ?E) ex_cell ex_chunk = Some (Inr (header (bump ex_cell)), bump ex_cell, ch')"
      "\<forall>n. head_room ex_chunk (16 + CELL_HEADER_SIZE + 5 + n) \<longrightarrow> head_room ch' n"
    using ex_written by blast
  have S': "store_rel (env_lib ?E) enc_ex wt_ex ?ns [9 \<mapsto> bump ex_cell] ch'"
    using gc.put_op_refines(1) [OF S _ T _ w(1)] ex_ready by auto
  have "unat TOMBSTONE_ENTRY_SIZE \<le> 1000"
    by (simp add: TOMBSTONE_ENTRY_SIZE_def TOMBSTONE_LEN_BYTES_COUNT_def TOMBSTONE_SIZE_U32_def Entry_size_def
        count_len_bytes_def) 
  then have room: "head_room ch' (unat TOMBSTONE_ENTRY_SIZE)"
    using w(2) ex_room [of "16 + CELL_HEADER_SIZE + 5 + unat TOMBSTONE_ENTRY_SIZE"]
    by (simp add: CELL_HEADER_SIZE_def SEGMENT_SIZE_def)
  have c: "stored (env_lib ?E) enc_ex ch' 9 (bump ex_cell)" "ready (env_lib ?E) wt_ex ?ns ch' (bump ex_cell)"
    using store_relD(3) [OF S', of 9] by auto
  let ?v = "version (header (bump ex_cell))"
  obtain ch2 where rm: "remove_cell_by ?E (clean ?E) 9 (\<lambda>c. version (header c) = ?v) ch' = Some (Inr (), ch2)"
    using gc.remove_cell_by_room [OF store_relD(1) [OF S'] _ T c _ room, of "\<lambda>c. version (header c) = ?v"] by auto
  have ne: "ch' \<noteq> ex_chunk"
    using store_relD(2) [OF S', of 9] store_relD(2) [OF S, of 9] by auto
  have cid: "cell_id ex_cell = \<lparr>higher = 3, lower = 9\<rparr>" by (simp add: cell_id_def header_id_def ex_cell_def)
  have p: "partition (header ex_cell) = 3" by (simp add: ex_cell_def)
  let ?h = "[(cell_id ex_cell, \<lparr>ch_cell = None, ch_current_version = ?v\<rparr>)] :: unit CommitHistory"
  have "\<exists>r dm1 t1. site_commit nat_clocks (chunk_ops ?E) 0 0 5 [CO_Write ex_cell] ex_site = Some (r, dm1) \<and>
      payload r = DMC_Success \<and> dm_store dm1 = [ch'] \<and> dm_txns dm1 5 = Some t1 \<and> st_state t1 = Committed \<and> st_history t1 = ?h"
    using w(1) p
    by (auto simp: site_commit_def Let_def case_prod_beta get_transaction_fst state_check_def commit_write_def chunk_ops_def
        Chunks_write_cell_def locate_chunk_by_partition_def on_chunk_def respond_def)
  then obtain r dm1 t1 where 1: "site_commit nat_clocks (chunk_ops ?E) 0 0 5 [CO_Write ex_cell] ex_site = Some (r, dm1)"
      "payload r = DMC_Success" "dm_store dm1 = [ch']" "dm_txns dm1 5 = Some t1" "st_state t1 = Committed" "st_history t1 = ?h"
    by blast
  have "rollback (chunk_ops ?E) ?h [ch'] = Some ([], [ch2])"
    using rm by (simp add: rollback_cell_def chunk_ops_def Chunks_remove_cell_by_def locate_by_key chunk_key_def on_chunk_def cid)
  then have "\<exists>r' dm2. site_abort nat_clocks (chunk_ops ?E) id 0 0 5 dm1 = Some (r', dm2) \<and> payload r' = AR_Success None"
    using 1(3-6) by (auto simp: site_abort_def Let_def case_prod_beta get_transaction_fst respond_def)
  then show ?thesis using 1 ne by auto
qed

section \<open>Properties\<close>

text \<open>Aborting a transaction on a data site whose store are chunks, after its commit has succeeded
  or has stopped half way with an error, restores every cell when the rollback reports no failure:
  each key holds again what it held before the commit, where a cell that was updated or removed comes
  back with its old content under the next version number.\<close>

theorem abort_restores:
  assumes "env_ok E" and "types_ok (env_lib E) enc wt wta"
    and "chunks_rel (env_lib E) enc wt wta n sm S (dm_store dm)"
    and "dm_txns dm tid = Some t" "st_state t = Prepared" "st_history t = []"
    and "\<forall>op \<in> set ops. op_fit (cell_fits (env_lib E) wt wta sm) op" and "distinct (map (chunk_key n) (op_ids ops))"
    and "site_commit K (chunk_ops E) now clk tid ops dm = Some (r, dm1)"
    and "\<forall>h. mset (ord h) = mset h"
    and "site_abort K (chunk_ops E) ord now' clk' tid dm1 = Some (r', dm2)" "payload r' = AR_Success None"
  shows "\<exists>S'. chunks_rel (env_lib E) enc wt wta n sm S' (dm_store dm2) \<and>
    (\<forall>k. S' k = S k \<or> S' k = map_option bump (S k))"
  by (rule cell_store.commit_abort_ok [OF chunks_cell_store [OF assms(1,2)] assms(3-12)])

theorem abort_restores_witness:
  "\<exists>dm2 S'. chunks_rel lib_codec enc_ex wt_ex (\<lambda>_ _. False) 1 (schemas ex_chunk) S' (dm_store (dm2 :: (nat, unit, unit Chunks) DataManager)) \<and>
    (\<forall>k. S' k = None)"
proof -
  let ?E = "std_env lib_codec" and ?ns = "\<lambda>_ _. False"
  obtain r dm1 r' dm2 where c: "site_commit nat_clocks (chunk_ops ?E) 0 0 5 [CO_Write ex_cell] ex_site = Some (r, dm1)"
      and a: "site_abort nat_clocks (chunk_ops ?E) id 0 0 5 dm1 = Some (r', dm2)" "payload r' = AR_Success None"
    using ex_site_run by blast
  have T: "types_ok (env_lib ?E) enc_ex wt_ex ?ns" using lib_codec_ok by simp
  have R: "chunks_rel (env_lib ?E) enc_ex wt_ex ?ns 1 (schemas ex_chunk) Map.empty (dm_store ex_site)" using ex_chunks by simp
  have f: "\<forall>op \<in> set [CO_Write ex_cell]. op_fit (cell_fits (env_lib ?E) wt_ex ?ns (schemas ex_chunk)) op"
    using ex_ready by (simp add: ready_fits)
  show ?thesis
    using abort_restores [OF std_env_ok T R ex_site_store(2) _ _ f _ c _ a] by auto
qed

end
