(* ===== verification/Neb_Txn_Cluster.thy ===== *)
theory Neb_Txn_Cluster
  imports Neb_Txn_Manager Neb_Txn_Store
begin

text \<open>
  Transactions over several data sites: what the manager and the sites achieve together. A prepared
  transaction has been applied at every site; a transaction that is aborted has been undone at every
  site. The lemmas are proved for any store with the contract \<open>cell_store\<close> and used on chunks.
\<close>

section \<open>Lemmas: the sites during the first phase\<close>

definition same_cells :: "'tid \<Rightarrow> ('tid, 'p, 'st) DataManager \<Rightarrow> ('tid, 'p, 'st) DataManager \<Rightarrow> bool" where
  "same_cells tid dm dm' = (dm_store dm' = dm_store dm \<and> txn_hist dm' tid = txn_hist dm tid)"

definition sites_same :: "'tid \<Rightarrow> ('tid, 'p, 'st) Cluster \<Rightarrow> ('tid, 'p, 'st) Cluster \<Rightarrow> bool" where
  "sites_same tid cl cl' = (\<forall>s. rel_option (same_cells tid) (tm_sites cl s) (tm_sites cl' s))"

lemma same_cells_refl [simp]: "same_cells tid dm dm"
  by (simp add: same_cells_def)

lemma sites_same_eq: "tm_sites cl' = tm_sites cl \<Longrightarrow> sites_same tid cl cl'"
  by (auto simp: sites_same_def intro: option.rel_refl)

lemma sites_same_trans: "sites_same tid a b \<Longrightarrow> sites_same tid b c \<Longrightarrow> sites_same tid a c"
  unfolding sites_same_def
proof
  fix s
  assume "\<forall>s. rel_option (same_cells tid) (tm_sites a s) (tm_sites b s)" "\<forall>s. rel_option (same_cells tid) (tm_sites b s) (tm_sites c s)"
  then have "rel_option (same_cells tid) (tm_sites a s) (tm_sites b s)" "rel_option (same_cells tid) (tm_sites b s) (tm_sites c s)" by auto
  then show "rel_option (same_cells tid) (tm_sites a s) (tm_sites c s)"
    by (cases "tm_sites a s"; cases "tm_sites b s"; cases "tm_sites c s") (auto simp: same_cells_def)
qed

lemma sites_same_site:
  "sites_same tid cl cl' \<Longrightarrow> tm_sites cl' s = Some dm' \<Longrightarrow> \<exists>dm. tm_sites cl s = Some dm \<and> same_cells tid dm dm'"
  unfolding sites_same_def by (metis option_rel_Some2)

lemma call_site_same:
  assumes "call_site N sid f cl = Some (r, cl')" and "\<And>dm x dm'. f dm = Some (x, dm') \<Longrightarrow> same_cells tid dm dm'"
  shows "sites_same tid cl cl'"
  using assms by (auto simp: call_site_def sites_same_def intro!: option.rel_refl split: if_splits option.splits)

lemma retry_loop_same:
  assumes "retry_loop K N n w tid sid f cl = Some (r, cl')" and f: "\<And>clk dm x dm'. f clk dm = Some (x, dm') \<Longrightarrow> same_cells tid dm dm'"
  shows "sites_same tid cl cl'"
  using assms(1)
proof (induction n arbitrary: cl)
  case 0
  obtain q cl1 where q: "call_site N sid (f (tm_clock cl)) cl = Some (q, cl1)" and e: "tm_sites cl' = tm_sites cl1"
    using 0 [unfolded retry_loop.simps [of K N 0 w tid sid f cl]]
    by (auto simp: Let_def split: option.splits sum.splits if_splits)
  show ?case by (rule sites_same_trans [OF call_site_same [OF q f] sites_same_eq [OF e]])
next
  case (Suc n)
  obtain q cl1 where q: "call_site N sid (f (tm_clock cl)) cl = Some (q, cl1)"
      and e: "tm_sites cl' = tm_sites cl1 \<or> (\<exists>cl2. tm_sites cl2 = tm_sites cl1 \<and> retry_loop K N n w tid sid f cl2 = Some (r, cl'))"
    using Suc.prems [unfolded retry_loop.simps [of K N "Suc n" w tid sid f cl]]
    by (force simp: Let_def split: option.splits sum.splits if_splits)
  have "sites_same tid cl1 cl'" using e Suc.IH sites_same_eq sites_same_trans by metis
  with call_site_same [OF q f] show ?case by (rule sites_same_trans)
qed

lemma txn_hist_simps [simp]:
  "txn_hist (put_txn tid t dm) tid = st_history t" "txn_hist (update_clock K clk dm) tid = txn_hist dm tid"
  "st_history (fst (get_transaction now tid dm)) = txn_hist dm tid"
  "txn_hist (snd (get_transaction now tid dm)) tid = txn_hist dm tid"
  "txn_hist (touch_metas K now cids dm) tid = txn_hist dm tid"
  by (auto simp: txn_hist_def get_transaction_fst split: option.splits)

lemma own_cells_store [simp]: "dm_store (own_cells tid cids dm) = dm_store dm"
  by (simp add: own_cells_def)

lemma site_prepare_same: "site_prepare K now clk tid cids dm = Some (r, dm') \<Longrightarrow> same_cells tid dm dm'"
  by (auto simp: site_prepare_def Let_def case_prod_beta same_cells_def split: if_splits option.splits)

lemma sites_prepare_same: "sites_prepare K N now tid aff cl = Some (r, cl') \<Longrightarrow> sites_same tid cl cl'"
proof (induction aff arbitrary: cl r)
  case (Cons p aff)
  obtain sid objs where p: "p = (sid, objs)" by (cases p)
  obtain q cl1 q' where q: "tm_site_prepare K N now tid sid objs cl = Some (q, cl1)" "sites_prepare K N now tid aff cl1 = Some (q', cl')"
    using Cons.prems p by (auto split: option.splits)
  have "sites_same tid cl cl1"
    using q(1) unfolding tm_site_prepare_def from_site_def by (rule retry_loop_same) (rule site_prepare_same)
  from this Cons.IH [OF q(2)] show ?case by (rule sites_same_trans)
qed (auto intro: sites_same_eq)

section \<open>Lemmas: requests to all sites\<close>

lemma call_site_other: "call_site N sid f cl = Some (r, cl') \<Longrightarrow> s \<noteq> sid \<Longrightarrow> tm_sites cl' s = tm_sites cl s"
  by (auto simp: call_site_def split: if_splits option.splits)

lemma call_site_Inl: "call_site N sid f cl = Some (Inl u, cl') \<Longrightarrow> cl' = cl"
  by (auto simp: call_site_def split: if_splits option.splits)

definition site_called ::
  "('tid, 'p, 'st) Cluster \<Rightarrow> ('tid, 'p, 'st) Cluster \<Rightarrow> u64 \<times> (('tid, 'p, 'st) DataManager \<Rightarrow> ('r \<times> ('tid, 'p, 'st) DataManager) option)
     \<Rightarrow> unit + 'r \<Rightarrow> bool" where
  "site_called cl cl' call r = (case r of Inl _ \<Rightarrow> tm_sites cl' (fst call) = tm_sites cl (fst call)
     | Inr x \<Rightarrow> \<exists>dm dm'. tm_sites cl (fst call) = Some dm \<and> snd call dm = Some (x, dm') \<and> tm_sites cl' (fst call) = Some dm')"

lemma call_sites_outcome:
  assumes "call_sites N calls cl = Some (rs, cl')" and "distinct (map fst calls)"
  shows "list_all2 (site_called cl cl') calls rs \<and> (\<forall>s. s \<notin> fst ` set calls \<longrightarrow> tm_sites cl' s = tm_sites cl s)"
  using assms
proof (induction calls arbitrary: cl rs)
  case (Cons p calls)
  obtain sid f where p: "p = (sid, f)" by (cases p)
  obtain r cl1 rs1 where 1: "call_site N sid f cl = Some (r, cl1)" "call_sites N calls cl1 = Some (rs1, cl')" "rs = r # rs1"
    using Cons.prems(1) p by (auto split: option.splits)
  have IH: "list_all2 (site_called cl1 cl') calls rs1" "\<And>s. s \<notin> fst ` set calls \<Longrightarrow> tm_sites cl' s = tm_sites cl1 s"
    using Cons.IH [OF 1(2)] Cons.prems(2) by auto
  have sid: "sid \<notin> fst ` set calls" using Cons.prems(2) p by auto
  have "site_called cl cl' (sid, f) r"
    using 1(1) IH(2) [OF sid] by (cases r) (auto simp: site_called_def dest!: call_site_Inr call_site_Inl)
  moreover have "list_all2 (site_called cl cl') calls rs1"
    using IH(1)
  proof (rule list.rel_mono_strong)
    fix x y assume "x \<in> set calls" "site_called cl1 cl' x y"
    moreover from this(1) have "fst x \<noteq> sid" using sid by auto
    ultimately show "site_called cl cl' x y" using call_site_other [OF 1(1)] by (cases y) (auto simp: site_called_def)
  qed
  ultimately show ?case using IH(2) call_site_other [OF 1(1)] p 1(3) by auto
qed simp

section \<open>Lemmas: the operations of a site\<close>

lemma sites_ops_outcome:
  "sites_ops aff = Some opss \<Longrightarrow> list_all2 (\<lambda>(sid, objs) (sid', ops). sid' = sid \<and> commit_ops_of objs = Some ops) aff opss"
  by (induction aff arbitrary: opss rule: sites_ops.induct) (auto split: option.splits)

lemma commit_op_of_id:
  assumes "obj_ok i obj" and "commit_op_of i obj = Some op"
  shows "op_id op = (if do_changed obj then Some i else None)"
    and "do_changed obj \<Longrightarrow> apply_op key op S = S(key i := map_option bump (do_cell obj))"
    and "\<not> do_changed obj \<Longrightarrow> apply_op key op S = S"
  using assms by (auto simp: commit_op_of_def obj_ok_def split: if_splits)

lemma commit_ops_of_ids:
  assumes "\<forall>(i, obj) \<in> set objs. obj_ok i obj" and "commit_ops_of objs = Some ops"
  shows "op_ids ops = map fst (filter (\<lambda>p. do_changed (snd p)) objs)"
  using assms
proof (induction objs arbitrary: ops)
  case (Cons p objs)
  obtain i obj where p: "p = (i, obj)" by (cases p)
  then obtain op ops' where o: "commit_op_of i obj = Some op" "commit_ops_of objs = Some ops'" "ops = op # ops'"
    using Cons.prems(2) by (auto split: option.splits)
  have "op_id op = (if do_changed obj then Some i else None)"
    using commit_op_of_id(1) [OF _ o(1)] Cons.prems(1) p by simp
  then show ?case using Cons.IH [OF _ o(2)] Cons.prems(1) o(3) p by simp
qed simp

lemma commit_ops_of_fit:
  assumes "\<forall>(i, obj) \<in> set objs. \<forall>c. do_changed obj \<longrightarrow> do_cell obj = Some c \<longrightarrow> fit c"
    and "\<forall>(i, obj) \<in> set objs. obj_ok i obj" and "commit_ops_of objs = Some ops"
  shows "\<forall>op \<in> set ops. op_fit fit op"
  using assms
proof (induction objs arbitrary: ops)
  case (Cons p objs)
  obtain i obj where p: "p = (i, obj)" by (cases p)
  then obtain op ops' where o: "commit_op_of i obj = Some op" "commit_ops_of objs = Some ops'" "ops = op # ops'"
    using Cons.prems(3) by (auto split: option.splits)
  have "op_fit fit op" using Cons.prems(1,2) o(1) p by (auto simp: commit_op_of_def obj_ok_def split: if_splits)
  then show ?case using Cons.IH [OF _ _ o(2)] Cons.prems(1,2) o(3) by simp
qed simp

text \<open>Applying the operations of a list of objects puts the buffered cells over the map.\<close>

lemma commit_ops_of_apply:
  assumes "\<forall>(i, obj) \<in> set objs. obj_ok i obj" and "commit_ops_of objs = Some ops"
    and "distinct (map (\<lambda>p. key (fst p)) objs)"
  shows "(\<forall>(i, obj) \<in> set objs. do_changed obj \<longrightarrow> fold (apply_op key) ops S (key i) = map_option bump (do_cell obj)) \<and>
    (\<forall>k. (\<forall>(i, obj) \<in> set objs. do_changed obj \<longrightarrow> key i \<noteq> k) \<longrightarrow> fold (apply_op key) ops S k = S k)"
  using assms
proof (induction objs arbitrary: ops S)
  case (Cons p objs)
  obtain i obj where p: "p = (i, obj)" by (cases p)
  then obtain op ops' where o: "commit_op_of i obj = Some op" "commit_ops_of objs = Some ops'" "ops = op # ops'"
    using Cons.prems(2) by (auto split: option.splits)
  have ok: "obj_ok i obj" using Cons.prems(1) p by simp
  note a = commit_op_of_id(2,3) [OF ok o(1)]
  have IH: "(\<forall>(i, obj) \<in> set objs. do_changed obj \<longrightarrow> fold (apply_op key) ops' S' (key i) = map_option bump (do_cell obj)) \<and>
      (\<forall>k. (\<forall>(i, obj) \<in> set objs. do_changed obj \<longrightarrow> key i \<noteq> k) \<longrightarrow> fold (apply_op key) ops' S' k = S' k)" for S'
    using Cons.IH [OF _ o(2)] Cons.prems(1,3) by auto
  have fresh: "\<forall>(j, obj) \<in> set objs. key j \<noteq> key i" using Cons.prems(3) p by force
  show ?case
  proof (cases "do_changed obj")
    case True
    then show ?thesis using IH [of "S(key i := map_option bump (do_cell obj))"] fresh a(1) [OF True, of key S] p o(3) by auto
  next
    case False
    then show ?thesis using IH [of S] a(2) [OF False, of key S] p o(3) by auto
  qed
qed simp

section \<open>Lemmas: both phases\<close>

text \<open>What \<^verbatim>\<open>prepare\<close> does: both phases over the affected objects.\<close>

lemma tm_prepareE:
  assumes "rw_txn tid cl = Inr t" and "tm_prepare K N D now tid cl = Some (Done r, cl')"
  obtains (refused) "tm_sites cl' = tm_sites cl" "r = Inl TM_CannotLocateCellServer"
      "tm_transactions cl' tid = Some (generate_affected_objs t)"
    | (first) "sites_same tid cl cl'" "r \<noteq> Inr TMP_Success" "tm_transactions cl' tid = Some (generate_affected_objs t)"
    | (both) cl1 q cl2 t' where "sites_same tid cl cl1"
      "sites_commit K N D now tid (tt_affected_objects (generate_affected_objs t)) cl1 = Some (q, cl2)"
      "tm_sites cl' = tm_sites cl2" "r = Inr TMP_Success \<longleftrightarrow> q = Inr DMC_Success"
      "tm_transactions cl' tid = Some t'" "tt_affected_objects t' = tt_affected_objects (generate_affected_objs t)" "tt_state t' \<noteq> Aborted"
proof -
  let ?t = "generate_affected_objs t" and ?aff = "tt_affected_objects (generate_affected_objs t)"
  let ?cl0 = "put_tm_txn tid ?t cl"
  have st: "tt_state ?t = Started" using rw_txnD [OF assms(1)] by (simp add: generate_affected_objs_def)
  show thesis
  proof (cases "data_sites_for_objs N ?aff")
    case (Some e)
    then show ?thesis using assms by (intro refused) (auto simp: tm_prepare_def Let_def data_sites_for_objs_def split: if_splits)
  next
    case None
    obtain p cl1 where p: "sites_prepare K N now tid ?aff ?cl0 = Some (p, cl1)"
      using assms None by (auto simp: tm_prepare_def Let_def split: option.splits)
    have s1: "sites_same tid cl cl1" using sites_prepare_same [OF p] by (auto simp: sites_same_def)
    have t1: "tm_transactions cl1 tid = Some ?t" using sites_prepare_txns [OF p] by simp
    show ?thesis
    proof (cases "p = Done (Inr DMP_Success)")
      case False
      then show ?thesis using assms None p s1 t1
        by (intro first) (auto simp: tm_prepare_def Let_def split: outcome.splits sum.splits)
    next
      case True
      then obtain q cl2 where q: "sites_commit K N D now tid ?aff cl1 = Some (q, cl2)"
        using assms None p by (auto simp: tm_prepare_def Let_def split: option.splits)
      have t2: "tm_transactions cl2 tid = Some ?t" using sites_commit_txns [OF q] t1 by simp
      have "tm_sites cl' = tm_sites cl2 \<and> (r = Inr TMP_Success \<longleftrightarrow> q = Inr DMC_Success) \<and>
          (\<exists>t'. tm_transactions cl' tid = Some t' \<and> tt_affected_objects t' = ?aff \<and> tt_state t' \<noteq> Aborted)"
        using assms None p q True t2 st by (auto simp: tm_prepare_def Let_def split: sum.splits if_splits)
      then show ?thesis using both [OF s1 q] by blast
    qed
  qed
qed

lemma list_all2_set1:
  assumes "list_all2 P xs ys" and "x \<in> set xs" shows "\<exists>y \<in> set ys. P x y"
  using assms by (induction rule: list_all2_induct) auto

lemma sites_commit_site:
  assumes c: "sites_commit K N D now tid aff cl = Some (q, cl')" and d: "distinct (map fst aff)"
  shows "(sid, objs) \<in> set aff \<Longrightarrow> \<exists>ops. commit_ops_of objs = Some ops \<and>
      ((q \<noteq> Inr DMC_Success \<and> tm_sites cl' sid = tm_sites cl sid) \<or>
       (\<exists>dm dsr dm'. tm_sites cl sid = Some dm \<and> site_commit K D now (tm_clock cl) tid ops dm = Some (dsr, dm') \<and>
          tm_sites cl' sid = Some dm' \<and> (q = Inr DMC_Success \<longrightarrow> payload dsr = DMC_Success)))"
    and "s \<notin> fst ` set aff \<Longrightarrow> tm_sites cl' s = tm_sites cl s"
proof -
  let ?call = "\<lambda>(sid, ops). (sid, site_commit K D now (tm_clock cl) tid ops)"
  obtain opss rs cl1 where o: "sites_ops aff = Some opss" "call_sites N (map ?call opss) cl = Some (rs, cl1)"
      "commit_answers K rs cl1 = (q, cl')"
    using c by (auto simp: sites_commit_def split: option.splits)
  note A = commit_answersD [OF o(3)]
  note L = sites_ops_outcome [OF o(1)]
  have "map fst opss = map fst aff" using L by (induction rule: list_all2_induct) auto
  then have keys: "map fst (map ?call opss) = map fst aff" by (simp add: comp_def case_prod_beta)
  have keyset: "fst ` set (map ?call opss) = fst ` set aff" using keys by (metis set_map)
  have called: "list_all2 (site_called cl cl1) (map ?call opss) rs" "\<And>s. s \<notin> fst ` set aff \<Longrightarrow> tm_sites cl1 s = tm_sites cl s"
    using call_sites_outcome [OF o(2)] d unfolding keys keyset by auto
  show "tm_sites cl' s = tm_sites cl s" if "s \<notin> fst ` set aff" using that called(2) A by simp
  assume "(sid, objs) \<in> set aff"
  from list_all2_set1 [OF L this] obtain ops where ops: "(sid, ops) \<in> set opss" "commit_ops_of objs = Some ops" by auto
  then have "?call (sid, ops) \<in> set (map ?call opss)" by force
  from list_all2_set1 [OF called(1) this] obtain r where r: "r \<in> set rs"
      "site_called cl cl1 (sid, site_commit K D now (tm_clock cl) tid ops) r" by auto
  show "\<exists>ops. commit_ops_of objs = Some ops \<and>
      ((q \<noteq> Inr DMC_Success \<and> tm_sites cl' sid = tm_sites cl sid) \<or>
       (\<exists>dm dsr dm'. tm_sites cl sid = Some dm \<and> site_commit K D now (tm_clock cl) tid ops dm = Some (dsr, dm') \<and>
          tm_sites cl' sid = Some dm' \<and> (q = Inr DMC_Success \<longrightarrow> payload dsr = DMC_Success)))"
  proof (cases r)
    case (Inl u)
    then have "q \<noteq> Inr DMC_Success" "tm_sites cl' sid = tm_sites cl sid" using A r by (auto simp: site_called_def)
    then show ?thesis using ops(2) by blast
  next
    case (Inr dsr)
    then obtain dm dm' where "tm_sites cl sid = Some dm" "site_commit K D now (tm_clock cl) tid ops dm = Some (dsr, dm')"
        "tm_sites cl' sid = Some dm'" using A r(2) by (auto simp: site_called_def)
    moreover have "q = Inr DMC_Success \<longrightarrow> payload dsr = DMC_Success" using A r(1) Inr by auto
    ultimately show ?thesis using ops(2) by blast
  qed
qed

lemma sites_end_store:
  assumes "sites_end K N now tid aff cl = Some (q, cl')" and "distinct (map fst aff)" and "tm_sites cl' s = Some dm'"
  shows "\<exists>dm. tm_sites cl s = Some dm \<and> dm_store dm' = dm_store dm"
proof -
  let ?f = "\<lambda>dm. map_option (\<lambda>(r, _, dm'). (r, dm')) (site_end K now (tm_clock cl) tid dm)"
  obtain rs cl1 where o: "call_sites N (map (\<lambda>(sid, _). (sid, ?f)) aff) cl = Some (rs, cl1)" "end_answers K rs cl1 = (q, cl')"
    using assms(1) by (auto simp: sites_end_def)
  have keys: "map fst (map (\<lambda>(sid, _). (sid, ?f)) aff) = map fst aff" by (simp add: comp_def case_prod_beta)
  have s1: "tm_sites cl1 s = Some dm'" using end_answersD [OF o(2)] assms(3) by simp
  have f: "dm_store dm' = dm_store dm" if "?f dm = Some (x, dm')" for dm x dm'
    using that by (auto simp: site_end_def Let_def case_prod_beta wipe_out_transaction_def release_cells_def split: if_splits)
  have called: "list_all2 (site_called cl cl1) (map (\<lambda>(sid, _). (sid, ?f)) aff) rs"
      "s \<notin> fst ` set aff \<Longrightarrow> tm_sites cl1 s = tm_sites cl s"
    using call_sites_outcome [OF o(1)] assms(2) unfolding keys by (auto simp: image_image case_prod_beta)
  show ?thesis
  proof (cases "s \<in> fst ` set aff")
    case True
    then have "(s, ?f) \<in> set (map (\<lambda>(sid, _). (sid, ?f)) aff)" by force
    from list_all2_set1 [OF called(1) this] obtain r where "site_called cl cl1 (s, ?f) r" by auto
    then have "tm_sites cl s = Some dm' \<or> (\<exists>dm x. tm_sites cl s = Some dm \<and> ?f dm = Some (x, dm'))"
      using s1 by (cases r) (auto simp: site_called_def)
    then show ?thesis using f by blast
  next
    case False
    then have "tm_sites cl s = Some dm'" using called(2) s1 by simp
    then show ?thesis by simp
  qed
qed

lemma abort_answers_refused: "abort_answers K rs fs cl = (Inl y, cl') \<Longrightarrow> y \<noteq> Inr (AR_Success gs)"
  by (induction K rs fs cl rule: abort_answers.induct) (auto simp: Let_def split: AbortResult.splits option.splits)

lemma site_abort_payload: "site_abort K D ord now clk tid dm = Some (r, dm') \<Longrightarrow> payload r \<noteq> AR_Success (Some [])"
  by (auto simp: site_abort_def Let_def case_prod_beta respond_def split: if_splits option.splits)

lemma sites_abort_site:
  assumes a: "sites_abort K N D ord now tid aff cl = Some (Inr (AR_Success None), cl')" and d: "distinct (map fst aff)"
    and s: "tm_sites cl' s = Some dm'"
  shows "\<exists>dm. tm_sites cl s = Some dm \<and> (if s \<in> fst ` set aff
    then \<exists>dsr dm1. site_abort K D ord now (tm_clock cl) tid dm = Some (dsr, dm1) \<and> payload dsr = AR_Success None \<and> dm_store dm' = dm_store dm1
    else dm_store dm' = dm_store dm)"
proof -
  let ?f = "site_abort K D ord now (tm_clock cl) tid"
  obtain rs cl1 x cl2 where c: "call_sites N (map (\<lambda>(sid, _). (sid, ?f)) aff) cl = Some (rs, cl1)" "abort_answers K rs [] cl1 = (x, cl2)"
      and x: "case x of Inl y \<Rightarrow> Inr (AR_Success None) = y \<and> cl' = cl2
       | Inr fs \<Rightarrow> \<exists>e. sites_end K N now tid aff cl2 = Some (e, cl') \<and>
           Inr (AR_Success None) = (case e of Inl err \<Rightarrow> Inl err | Inr _ \<Rightarrow> Inr (AR_Success (if fs = [] then None else Some fs)))"
    using a by (rule sites_abortE)
  obtain fs where xs: "x = Inr fs" using x abort_answers_refused [of K rs "[]" cl1 _ cl2 None] c(2) by (cases x) auto
  with x obtain e where e2: "sites_end K N now tid aff cl2 = Some (e, cl')"
      "Inr (AR_Success None) = (case e of Inl err \<Rightarrow> Inl err | Inr _ \<Rightarrow> Inr (AR_Success (if fs = [] then None else Some fs)))" by auto
  then have e: "x = Inr []" using xs by (cases e) (auto split: if_splits)
  note A = abort_answersD [OF c(2)]
  obtain dm2 where dm2: "tm_sites cl2 s = Some dm2" "dm_store dm' = dm_store dm2" using sites_end_store [OF e2(1) d s] by blast
  have keys: "map fst (map (\<lambda>(sid, _). (sid, ?f)) aff) = map fst aff" by (simp add: comp_def case_prod_beta)
  have called: "list_all2 (site_called cl cl1) (map (\<lambda>(sid, _). (sid, ?f)) aff) rs"
      "s \<notin> fst ` set aff \<Longrightarrow> tm_sites cl1 s = tm_sites cl s"
    using call_sites_outcome [OF c(1)] d unfolding keys by (auto simp: image_image case_prod_beta)
  show ?thesis
  proof (cases "s \<in> fst ` set aff")
    case True
    then have "(s, ?f) \<in> set (map (\<lambda>(sid, _). (sid, ?f)) aff)" by force
    from list_all2_set1 [OF called(1) this] obtain r where r: "r \<in> set rs" "site_called cl cl1 (s, ?f) r" by auto
    from A e r(1) obtain dsr where dsr: "r = Inr dsr" "payload dsr = AR_Success None \<or> payload dsr = AR_Success (Some [])" by auto
    with r(2) obtain dm where dm: "tm_sites cl s = Some dm" "?f dm = Some (dsr, dm2)" using A dm2(1) by (auto simp: site_called_def)
    then show ?thesis using True dm2(2) dsr(2) site_abort_payload [OF dm(2)] by auto
  next
    case False
    then show ?thesis using called(2) dm2 A by auto
  qed
qed

section \<open>All or nothing, over any store\<close>

text \<open>The changed objects of a buffer at one site.\<close>

definition changes_at :: "(Id \<times> 'p DataObject) list \<Rightarrow> u64 \<Rightarrow> Id \<Rightarrow> 'p DataObject \<Rightarrow> bool" where
  "changes_at buf s i obj = (map_of buf i = Some obj \<and> do_server obj = s \<and> do_changed obj)"

lemma buffer_distinct_keys:
  assumes "buffer_ok (tt_data t)" and "inj_on key (fst ` set (tt_data t))"
    and "(sid, objs) \<in> set (tt_affected_objects (generate_affected_objs t))"
  shows "distinct (map (\<lambda>p. key (fst p)) objs)" "\<forall>(i, obj) \<in> set objs. obj_ok i obj"
proof -
  note G = generate_affected(3) [OF assms(1,3)]
  have "fst ` set objs \<subseteq> fst ` set (tt_data t)" using G by (force dest: map_of_SomeD)
  then have "inj_on key (set (map fst objs))" using inj_on_subset [OF assms(2)] by simp
  then have "distinct (map key (map fst objs))" using G unfolding distinct_map [of key] by blast
  then show "distinct (map (\<lambda>p. key (fst p)) objs)" by (simp add: comp_def)
  show "\<forall>(i, obj) \<in> set objs. obj_ok i obj" using G assms(1) by (auto simp: buffer_ok_def)
qed

context cell_store
begin

lemma prepare_applies:
  assumes rw: "rw_txn tid cl = Inr t" and buf: "buffer_ok (tt_data t)" and inj: "inj_on key (fst ` set (tt_data t))"
    and fits: "\<forall>i obj c. map_of (tt_data t) i = Some obj \<longrightarrow> do_changed obj \<longrightarrow> do_cell obj = Some c \<longrightarrow> fit c"
    and sites: "\<forall>s dm. tm_sites cl s = Some dm \<longrightarrow> R (S s) (dm_store dm)"
    and p: "tm_prepare K N D now tid cl = Some (Done (Inr TMP_Success), cl')" and s: "tm_sites cl' s = Some dm'"
  shows "\<exists>S'. R S' (dm_store dm') \<and> (\<forall>i obj. changes_at (tt_data t) s i obj \<longrightarrow> S' (key i) = map_option bump (do_cell obj)) \<and>
    (\<forall>k. (\<forall>i obj. changes_at (tt_data t) s i obj \<longrightarrow> key i \<noteq> k) \<longrightarrow> S' k = S s k) \<and>
    ((\<exists>i obj. map_of (tt_data t) i = Some obj \<and> do_server obj = s) \<longrightarrow> txn_state dm' tid = Committed)"
proof -
  let ?aff = "tt_affected_objects (generate_affected_objs t)"
  obtain cl1 cl2 where c: "sites_same tid cl cl1" "sites_commit K N D now tid ?aff cl1 = Some (Inr DMC_Success, cl2)"
      "tm_sites cl' = tm_sites cl2"
    using rw p by (rule tm_prepareE) auto
  note G = generate_affected [OF buf] and C = sites_commit_site [OF c(2) generate_affected(2) [OF buf]]
  have R1: "R (S s) (dm_store dm)" if dm: "tm_sites cl1 s = Some dm" for dm
    using sites_same_site [OF c(1) dm] sites by (auto simp: same_cells_def)
  show ?thesis
  proof (cases "\<exists>objs. (s, objs) \<in> set ?aff")
    case True
    then obtain objs where objs: "(s, objs) \<in> set ?aff" by blast
    note B = buffer_distinct_keys [OF buf inj objs]
    from C(1) [OF objs] obtain ops dm dsr where o: "commit_ops_of objs = Some ops" "tm_sites cl1 s = Some dm"
        "site_commit K D now (tm_clock cl1) tid ops dm = Some (dsr, dm')" "payload dsr = DMC_Success"
      using s c(3) by auto
    have "\<forall>op \<in> set ops. op_fit fit op"
      by (rule commit_ops_of_fit [OF _ B(2) o(1)]) (use fits G(3) [OF objs] in auto)
    from site_commit_applies [OF R1 [OF o(2)] this o(3,4)]
    have r: "R (fold (apply_op key) ops (S s)) (dm_store dm')" "txn_state dm' tid = Committed" by auto
    have ch: "changes_at (tt_data t) s i obj \<longleftrightarrow> (i, obj) \<in> set objs \<and> do_changed obj" for i obj
      using G(3) [OF objs] by (auto simp: changes_at_def)
    from r commit_ops_of_apply [OF B(2) o(1) B(1), of "S s"] show ?thesis
      unfolding ch by (intro exI [of _ "fold (apply_op key) ops (S s)"]) auto
  next
    case False
    then have "tm_sites cl1 s = Some dm'" using C(2) [of s] s c(3) by force
    moreover have "\<not> (map_of (tt_data t) i = Some obj \<and> do_server obj = s)" for i obj using G(4) [of i obj] False by auto
    ultimately show ?thesis using R1 by (auto simp: changes_at_def)
  qed
qed

lemma prepare_abort_undone:
  assumes rw: "rw_txn tid cl = Inr t" and buf: "buffer_ok (tt_data t)" and inj: "inj_on key (fst ` set (tt_data t))"
    and fits: "\<forall>i obj c. map_of (tt_data t) i = Some obj \<longrightarrow> do_changed obj \<longrightarrow> do_cell obj = Some c \<longrightarrow> fit c"
    and sites: "\<forall>s dm. tm_sites cl s = Some dm \<longrightarrow> R (S s) (dm_store dm) \<and> txn_hist dm tid = []"
    and p: "tm_prepare K N D now tid cl = Some (Done r, cl1)"
    and ord: "\<forall>h. mset (ord h) = mset h"
    and a: "tm_abort K N' D ord now' tid cl1 = Some (Inr (AR_Success None), cl2)" and s: "tm_sites cl2 s = Some dm2"
  shows "\<exists>S'. R S' (dm_store dm2) \<and> (\<forall>k. S' k = S s k \<or> S' k = map_option bump (S s k))"
proof -
  let ?aff = "tt_affected_objects (generate_affected_objs t)"
  have st: "tt_state (generate_affected_objs t) \<noteq> Aborted" using rw_txnD [OF rw] by (simp add: generate_affected_objs_def)
  have fresh: "undoable key R (S s) tid dm1 \<and> R (S s) (dm_store dm1)" if "sites_same tid cl cl0" "tm_sites cl0 s = Some dm1" for cl0 dm1
    using sites_same_site [OF that] sites by (auto simp: same_cells_def intro!: undoableI)
  have "(\<forall>dm1. tm_sites cl1 s = Some dm1 \<longrightarrow> undoable key R (S s) tid dm1 \<and> (\<exists>st. R (S s) st) \<and> (s \<notin> fst ` set ?aff \<longrightarrow> R (S s) (dm_store dm1))) \<and>
      (\<exists>t'. tm_transactions cl1 tid = Some t' \<and> tt_affected_objects t' = ?aff \<and> tt_state t' \<noteq> Aborted)"
    using rw p
  proof (cases rule: tm_prepareE)
    case refused
    then show ?thesis using fresh [OF sites_same_eq] st by auto
  next
    case first
    then show ?thesis using fresh st by auto
  next
    case (both cl0 q cl3 t')
    note C = sites_commit_site [OF both(2) generate_affected(2) [OF buf]]
    have "undoable key R (S s) tid dm1 \<and> (\<exists>st. R (S s) st) \<and> (s \<notin> fst ` set ?aff \<longrightarrow> R (S s) (dm_store dm1))" if dm1: "tm_sites cl1 s = Some dm1" for dm1
    proof (cases "\<exists>objs. (s, objs) \<in> set ?aff")
      case True
      then obtain objs where objs: "(s, objs) \<in> set ?aff" by blast
      note B = buffer_distinct_keys [OF buf inj objs]
      obtain ops where ops: "commit_ops_of objs = Some ops" "tm_sites cl3 s = tm_sites cl0 s \<or>
          (\<exists>dm dsr. tm_sites cl0 s = Some dm \<and> site_commit K D now (tm_clock cl0) tid ops dm = Some (dsr, dm1))"
        using C(1) [OF objs] dm1 both(3) by auto
      have f: "\<forall>op \<in> set ops. op_fit fit op"
        by (rule commit_ops_of_fit [OF _ B(2) ops(1)]) (use fits generate_affected(3) [OF buf objs] in auto)
      have "distinct (map (\<lambda>p. key (fst p)) (filter (\<lambda>p. do_changed (snd p)) objs))" using B(1) by (rule distinct_map_filter)
      then have d: "distinct (map key (op_ids ops))" by (simp add: commit_ops_of_ids [OF B(2) ops(1)] comp_def)
      have "undoable key R (S s) tid dm1 \<and> (\<exists>st. R (S s) st)" using ops(2)
      proof
        assume "tm_sites cl3 s = tm_sites cl0 s"
        then show ?thesis using fresh [OF both(1), of dm1] dm1 both(3) by auto
      next
        assume "\<exists>dm dsr. tm_sites cl0 s = Some dm \<and> site_commit K D now (tm_clock cl0) tid ops dm = Some (dsr, dm1)"
        then obtain dm dsr where dm: "tm_sites cl0 s = Some dm" "site_commit K D now (tm_clock cl0) tid ops dm = Some (dsr, dm1)" by blast
        have "R (S s) (dm_store dm)" "txn_hist dm tid = []"
          using sites_same_site [OF both(1) dm(1)] sites by (auto simp: same_cells_def)
        then show ?thesis using site_commit_undoable [OF _ _ f d dm(2)] by blast
      qed
      then show ?thesis using objs by force
    next
      case False
      then have "tm_sites cl0 s = Some dm1" using C(2) [of s] dm1 both(3) by force
      then show ?thesis using fresh [OF both(1), of dm1] by blast
    qed
    then show ?thesis using both(5-7) by blast
  qed
  then have U: "\<And>dm1. tm_sites cl1 s = Some dm1 \<Longrightarrow> undoable key R (S s) tid dm1 \<and> (\<exists>st. R (S s) st) \<and> (s \<notin> fst ` set ?aff \<longrightarrow> R (S s) (dm_store dm1))"
    and T: "\<exists>t'. tm_transactions cl1 tid = Some t' \<and> tt_affected_objects t' = ?aff \<and> tt_state t' \<noteq> Aborted"
    by blast+
  obtain cl3 where c: "sites_abort K N' D ord now' tid ?aff cl1 = Some (Inr (AR_Success None), cl3)" "tm_sites cl2 = tm_sites cl3"
    using a T by (auto simp: tm_abort_def tm_get_transaction_def split: option.splits)
  obtain dm1 where dm1: "tm_sites cl1 s = Some dm1" "if s \<in> fst ` set ?aff
    then \<exists>dsr dm3. site_abort K D ord now' (tm_clock cl1) tid dm1 = Some (dsr, dm3) \<and> payload dsr = AR_Success None \<and> dm_store dm2 = dm_store dm3
    else dm_store dm2 = dm_store dm1"
    using sites_abort_site [OF c(1) generate_affected(2) [OF buf]] s c(2) by auto
  show ?thesis
  proof (cases "s \<in> fst ` set ?aff")
    case True
    with dm1(2) obtain dsr dm3 where a3: "site_abort K D ord now' (tm_clock cl1) tid dm1 = Some (dsr, dm3)"
        "payload dsr = AR_Success None" "dm_store dm2 = dm_store dm3" by auto
    obtain st where "R (S s) st" using U [OF dm1(1)] by blast
    from site_abort_restores [OF _ stored_fit [OF this] ord a3(1,2)] show ?thesis using U [OF dm1(1)] a3(3) by simp
  next
    case False
    then show ?thesis using U [OF dm1(1)] dm1(2) by auto
  qed
qed

end

section \<open>A concrete cluster on chunks\<close>

definition ex_obj :: "unit DataObject" where
  "ex_obj = \<lparr>do_server = 1, do_cell = Some ex_cell, do_version = None, do_changed = True, do_new = True\<rparr>"

definition ex_txn :: "unit TMTxn" where
  "ex_txn = \<lparr>tt_data = [(cell_id ex_cell, ex_obj)], tt_affected_objects = [], tt_state = Started\<rparr>"

definition ex_sites :: "(nat, unit, unit Chunks) DataManager \<Rightarrow> (nat, unit, unit Chunks) Cluster" where
  "ex_sites dm = \<lparr>tm_server_id = 7, tm_clock = 5, tm_transactions = [5 \<mapsto> ex_txn], tm_awaits = (\<lambda>_ _. 0), tm_sites = [1 \<mapsto> dm]\<rparr>"

lemma ex_sites_simps [simp]:
  "tm_transactions (ex_sites dm) = [5 \<mapsto> ex_txn]" "tm_sites (ex_sites dm) = [1 \<mapsto> dm]" "tm_clock (ex_sites dm) = 5"
  by (simp_all add: ex_sites_def)

lemma ex_sites_txn [simp]: "rw_txn 5 (ex_sites dm) = Inr ex_txn"
  by (rule rw_txnI) (simp_all add: ex_txn_def)

lemma ex_txn_state [simp]: "tt_state ex_txn = Started"
  by (simp add: ex_txn_def)

lemma ex_buffer:
  "buffer_ok (tt_data ex_txn)" "inj_on key (fst ` set (tt_data ex_txn))"
  "\<forall>i obj c. map_of (tt_data ex_txn) i = Some obj \<longrightarrow> do_changed obj \<longrightarrow> do_cell obj = Some c \<longrightarrow>
     cell_fits lib_codec wt_ex (\<lambda>_ _. False) (schemas ex_chunk) c"
  using ex_ready by (auto simp: ex_txn_def ex_obj_def buffer_ok_def obj_ok_def ready_fits)

lemma ex_affected [simp]: "generate_affected_objs ex_txn = ex_txn\<lparr>tt_data := [], tt_affected_objects := [(1, [(cell_id ex_cell, ex_obj)])]\<rparr>"
  by (simp add: generate_affected_objs_def ex_txn_def add_affected_def ex_obj_def)

lemma ex_prepare_ok:
  "\<exists>cl' dm'. tm_prepare nat_clocks ex_net (chunk_ops (std_env lib_codec)) 0 5 (ex_sites (DataManager_new 0 [ex_chunk])) =
     Some (Done (Inr TMP_Success), cl') \<and> tm_sites cl' 1 = Some dm' \<and>
     (\<exists>x. dm_txns dm' 5 = Some x \<and> st_state x = Committed \<and> st_affected_cells x = [cell_id ex_cell]) \<and>
     (\<exists>t. tm_transactions cl' 5 = Some t \<and> tt_state t = Prepared \<and> tt_affected_objects t = [(1, [(cell_id ex_cell, ex_obj)])])"
proof -
  let ?E = "std_env lib_codec" and ?dm = "DataManager_new 0 [ex_chunk] :: (nat, unit, unit Chunks) DataManager"
  let ?cl0 = "put_tm_txn 5 (generate_affected_objs ex_txn) (ex_sites ?dm)"
  have rz: "realizable nat_clocks 5 (meta_of nat_clocks ?dm (cell_id ex_cell))"
    by (simp add: realizable_def meta_of_def DataManager_new_def CellMeta_new_def)
  have "dm_txns ?dm 5 = None" by (simp add: DataManager_new_def)
  from prepare_one [OF rz this, of 0 5] obtain r dm1 x where
      1: "site_prepare nat_clocks 0 5 5 [cell_id ex_cell] ?dm = Some (r, dm1)" "payload r = DMP_Success" "dm_txns dm1 5 = Some x"
      "st_state x = Prepared" "st_affected_cells x = [cell_id ex_cell]" "dm_store dm1 = [ex_chunk]"
    by (auto simp: DataManager_new_def)
  let ?cl1 = "merge_clock nat_clocks (resp_clock r) (?cl0\<lparr>tm_sites := [1 \<mapsto> dm1]\<rparr>)"
  have p: "sites_prepare nat_clocks ex_net 0 5 [(1, [(cell_id ex_cell, ex_obj)])] ?cl0 = Some (Done (Inr DMP_Success), ?cl1)"
    using 1 by (simp add: tm_site_prepare_def from_site_def retry_loop.simps call_site_def is_DMP_Wait_def join_prepare_def Let_def)
  obtain ch' where w: "write_cell ?E (clean ?E) ex_cell ex_chunk = Some (Inr (header (bump ex_cell)), bump ex_cell, ch')"
    using ex_written by blast
  have pt: "partition (header ex_cell) = 3" by (simp add: ex_cell_def)
  have "\<exists>r2 dm2. site_commit nat_clocks (chunk_ops ?E) 0 (tm_clock ?cl1) 5 [CO_Write ex_cell] dm1 = Some (r2, dm2) \<and> payload r2 = DMC_Success \<and>
      (\<exists>x. dm_txns dm2 5 = Some x \<and> st_state x = Committed \<and> st_affected_cells x = [cell_id ex_cell])"
    using w pt 1(3-6)
    by (auto simp: site_commit_def Let_def case_prod_beta get_transaction_fst state_check_def commit_write_def chunk_ops_def
        Chunks_write_cell_def locate_chunk_by_partition_def on_chunk_def respond_def)
  then obtain r2 dm2 where 2: "site_commit nat_clocks (chunk_ops ?E) 0 (tm_clock ?cl1) 5 [CO_Write ex_cell] dm1 = Some (r2, dm2)"
      "payload r2 = DMC_Success"
      "\<exists>x. dm_txns dm2 5 = Some x \<and> st_state x = Committed \<and> st_affected_cells x = [cell_id ex_cell]" by blast
  have ops: "sites_ops [(1, [(cell_id ex_cell, ex_obj)])] = Some [(1, [CO_Write ex_cell])]"
    by (simp add: commit_op_of_def ex_obj_def)
  have "\<exists>cl2. sites_commit nat_clocks ex_net (chunk_ops ?E) 0 5 [(1, [(cell_id ex_cell, ex_obj)])] ?cl1 = Some (Inr DMC_Success, cl2) \<and> tm_sites cl2 1 = Some dm2"
    unfolding sites_commit_def ops using 2(1,2) by (simp add: call_site_def Let_def)
  then show ?thesis using p 2(3) by (auto simp: tm_prepare_def Let_def data_sites_for_objs_def simp del: sites_prepare.simps)
qed


text \<open>A site where a later transaction has read the cell refuses; the abort has nothing to undo.\<close>

definition ex_read_site :: "(nat, unit, unit Chunks) DataManager" where
  "ex_read_site = put_meta (cell_id ex_cell) \<lparr>cm_read = 9, cm_write = 0, cm_owner = None, cm_waiting = {}\<rparr> (DataManager_new 0 [ex_chunk])"

lemma ex_prepare_refused:
  "\<exists>cl1 cl2 dm2. tm_prepare nat_clocks ex_net (chunk_ops (std_env lib_codec)) 0 5 (ex_sites ex_read_site) =
      Some (Done (Inr (TMP_DMPrepareError DMP_NotRealizable)), cl1) \<and>
    tm_abort nat_clocks ex_net (chunk_ops (std_env lib_codec)) id 0 5 cl1 = Some (Inr (AR_Success None), cl2) \<and>
    tm_sites cl2 1 = Some dm2"
proof -
  let ?ops = "chunk_ops (std_env lib_codec)" and ?aff = "[(1, [(cell_id ex_cell, ex_obj)])] :: unit AffectedObjs"
  let ?cl0 = "put_tm_txn 5 (generate_affected_objs ex_txn) (ex_sites ex_read_site)"
  define dm1 where "dm1 = touch_metas nat_clocks 0 [cell_id ex_cell] (snd (get_transaction 0 5 (update_clock nat_clocks 5 ex_read_site)))"
  have none: "dm_txns ex_read_site 5 = None" by (simp add: ex_read_site_def DataManager_new_def)
  then have t1: "dm_txns dm1 5 = Some \<lparr>st_state = Started, st_affected_cells = [], st_last_activity = 0, st_history = []\<rparr>"
    by (simp add: dm1_def get_transaction_fst)
  have m: "dm_cells dm1 (cell_id ex_cell) = Some \<lparr>cm_read = 9, cm_write = 0, cm_owner = None, cm_waiting = {}\<rparr>"
    by (simp add: dm1_def ex_read_site_def put_meta_def)
  have "site_prepare nat_clocks 0 5 5 [cell_id ex_cell] ex_read_site = Some (respond dm1 DMP_NotRealizable, dm1)"
    using m none by (simp add: site_prepare_def Let_def case_prod_beta dm1_def [symmetric] txn_state_def del: touch_metas.simps)
  then have p: "sites_prepare nat_clocks ex_net 0 5 ?aff ?cl0 =
      Some (Done (Inr DMP_NotRealizable), merge_clock nat_clocks (dm_clock dm1) (?cl0\<lparr>tm_sites := [1 \<mapsto> dm1]\<rparr>))"
    by (simp add: tm_site_prepare_def from_site_def retry_loop.simps call_site_def is_DMP_Wait_def join_prepare_def Let_def respond_def)
  let ?cl1 = "merge_clock nat_clocks (dm_clock dm1) (?cl0\<lparr>tm_sites := [1 \<mapsto> dm1]\<rparr>)"
  have 1: "tm_prepare nat_clocks ex_net ?ops 0 5 (ex_sites ex_read_site) = Some (Done (Inr (TMP_DMPrepareError DMP_NotRealizable)), ?cl1)"
    using p by (simp add: tm_prepare_def Let_def data_sites_for_objs_def del: sites_prepare.simps)
  obtain r2 dm2 where 2: "site_abort nat_clocks ?ops id 0 (tm_clock ?cl1) 5 dm1 = Some (r2, dm2)" "payload r2 = AR_Success None"
      "dm_txns dm2 5 = Some \<lparr>st_state = Aborted, st_affected_cells = [], st_last_activity = 0, st_history = []\<rparr>"
    using t1 by (auto simp: site_abort_def Let_def case_prod_beta get_transaction_fst respond_def)
  have "\<exists>r3 dm3. map_option (\<lambda>(r, _, dm'). (r, dm')) (site_end nat_clocks 0 clk 5 dm2) = Some (r3, dm3) \<and> payload r3 = ER_Success" for clk
    using 2(3) by (simp add: site_end_def Let_def case_prod_beta get_transaction_fst respond_def owned_cells_def)
  then obtain r3 dm3 where 3: "map_option (\<lambda>(r, _, dm'). (r, dm'))
      (site_end nat_clocks 0 (tm_clock (merge_clock nat_clocks (resp_clock r2) (?cl1\<lparr>tm_sites := [1 \<mapsto> dm2]\<rparr>))) 5 dm2) = Some (r3, dm3)"
      "payload r3 = ER_Success" by blast
  have "\<exists>cl2. sites_abort nat_clocks ex_net ?ops id 0 5 ?aff ?cl1 = Some (Inr (AR_Success None), cl2) \<and> tm_sites cl2 1 = Some dm3"
    unfolding sites_abort_def using 2(1,2) 3 by (simp add: call_site_def Let_def sites_end_def del: map_option_eq_Some)
  then show ?thesis using 1
    by (auto simp: tm_abort_def tm_get_transaction_def data_sites_for_objs_def)
qed

section \<open>Properties\<close>





end
