(* ===== verification/Neb_Client.thy ===== *)
theory Neb_Client
  imports Neb_Txn_Cluster
begin

text \<open>
  Transactions of the client library, \<^verbatim>\<open>client/transaction.rs\<close> and \<^verbatim>\<open>AsyncClient::transaction\<close> of
  \<^verbatim>\<open>client/mod.rs\<close>: a user function runs on a handle of a transaction, then the client prepares and commits it,
  aborts what cannot be realized and tries again. The client talks to a transaction manager through a record of
  calls, which \<open>manager_service\<close> fills with the manager of \<open>Neb_Txn_Manager\<close>; a call that waits for another
  transaction does not return. The handle's state is shared with the user function, which may end the
  transaction itself.
\<close>

section \<open>Answers of the manager\<close>

datatype 'p TxnError =
    TE_CannotFindAServer
  | TE_IoError
  | TE_CannotBegin
  | TE_NotRealizable
  | TE_TooManyRetry
  | TE_InternalError
  | TE_Aborted "'p RollbackFailure list option"
  | TE_RPCError
  | TE_ManagerError TMError
  | TE_ReadError ReadError
  | TE_WriteError "'p WriteError"
  | TE_PrepareError "'p TMPrepareResult"
  | TE_CommitError EndResult
  | TE_AbortError "'p AbortResult"

text \<open>An answer over the network: \<open>Inl ()\<close> when none arrives.\<close>

type_synonym 'r answer = "unit + (TMError + 'r)"

record ('c, 'tid, 'p) TxnService =
  ts_begin :: "'c \<Rightarrow> ('tid answer \<times> 'c) option"
  ts_read :: "'tid \<Rightarrow> Id \<Rightarrow> 'c \<Rightarrow> (('p OwnedCell, ReadError) TxnExecResult answer \<times> 'c) option"
  ts_read_selected :: "'tid \<Rightarrow> Id \<Rightarrow> u64 list \<Rightarrow> 'c \<Rightarrow> (('p Value, ReadError) TxnExecResult answer \<times> 'c) option"
  ts_head :: "'tid \<Rightarrow> Id \<Rightarrow> 'c \<Rightarrow> ((CellHeader, ReadError) TxnExecResult answer \<times> 'c) option"
  ts_write :: "'tid \<Rightarrow> 'p OwnedCell \<Rightarrow> 'c \<Rightarrow> ((unit, 'p WriteError) TxnExecResult answer \<times> 'c) option"
  ts_update :: "'tid \<Rightarrow> 'p OwnedCell \<Rightarrow> 'c \<Rightarrow> ((unit, 'p WriteError) TxnExecResult answer \<times> 'c) option"
  ts_remove :: "'tid \<Rightarrow> Id \<Rightarrow> 'c \<Rightarrow> ((unit, 'p WriteError) TxnExecResult answer \<times> 'c) option"
  ts_prepare :: "'tid \<Rightarrow> 'c \<Rightarrow> ('p TMPrepareResult answer \<times> 'c) option"
  ts_commit :: "'tid \<Rightarrow> 'c \<Rightarrow> (EndResult answer \<times> 'c) option"
  ts_abort :: "'tid \<Rightarrow> 'c \<Rightarrow> ('p AbortResult answer \<times> 'c) option"

text \<open>The match that \<^verbatim>\<open>read\<close>, \<^verbatim>\<open>read_selected\<close> and \<^verbatim>\<open>head\<close> share, and that of the writes.\<close>

definition read_answer :: "('a, ReadError) TxnExecResult answer \<Rightarrow> 'p TxnError + 'a option" where
  "read_answer a =
     (case a of
        Inr (Inr (TER_Accepted x)) \<Rightarrow> Inr (Some x)
      | Inr (Inr TER_Rejected) \<Rightarrow> Inl TE_NotRealizable
      | Inr (Inr (TER_Error e)) \<Rightarrow> if e = RE_CellDoesNotExisted then Inr None else Inl (TE_ReadError e)
      | Inr (Inr _) \<Rightarrow> Inl TE_InternalError
      | Inr (Inl e) \<Rightarrow> Inl (TE_ManagerError e)
      | Inl _ \<Rightarrow> Inl TE_RPCError)"

definition write_answer :: "(unit, 'p WriteError) TxnExecResult answer \<Rightarrow> 'p TxnError + unit" where
  "write_answer a =
     (case a of
        Inr (Inr (TER_Accepted _)) \<Rightarrow> Inr ()
      | Inr (Inr TER_Rejected) \<Rightarrow> Inl TE_NotRealizable
      | Inr (Inr (TER_Error e)) \<Rightarrow> Inl (TE_WriteError e)
      | Inr (Inr _) \<Rightarrow> Inl TE_InternalError
      | Inr (Inl e) \<Rightarrow> Inl (TE_ManagerError e)
      | Inl _ \<Rightarrow> Inl TE_RPCError)"

definition prepare_answer :: "'p TMPrepareResult answer \<Rightarrow> 'p TxnError + unit" where
  "prepare_answer a =
     (case a of
        Inr (Inr TMP_Success) \<Rightarrow> Inr ()
      | Inr (Inr (TMP_DMPrepareError r)) \<Rightarrow> if r = DMP_NotRealizable then Inl TE_NotRealizable else Inl (TE_PrepareError (TMP_DMPrepareError r))
      | Inr (Inr (TMP_DMCommitError (DMC_CellChanged _))) \<Rightarrow> Inl TE_NotRealizable
      | Inr (Inr r) \<Rightarrow> Inl (TE_PrepareError r)
      | Inr (Inl e) \<Rightarrow> Inl (TE_ManagerError e)
      | Inl _ \<Rightarrow> Inl TE_RPCError)"

definition commit_answer :: "EndResult answer \<Rightarrow> 'p TxnError + unit" where
  "commit_answer a =
     (case a of
        Inr (Inr ER_Success) \<Rightarrow> Inr ()
      | Inr (Inr ER_SomeLocksNotReleased) \<Rightarrow> Inr ()
      | Inr (Inr r) \<Rightarrow> Inl (TE_CommitError r)
      | Inr (Inl e) \<Rightarrow> Inl (TE_ManagerError e)
      | Inl _ \<Rightarrow> Inl TE_RPCError)"

definition abort_answer :: "'p AbortResult answer \<Rightarrow> 'p TxnError + unit" where
  "abort_answer a =
     (case a of
        Inr (Inr (AR_Success failures)) \<Rightarrow> Inl (TE_Aborted failures)
      | Inr (Inr r) \<Rightarrow> Inl (TE_AbortError r)
      | Inr (Inl e) \<Rightarrow> Inl (TE_ManagerError e)
      | Inl _ \<Rightarrow> Inl TE_RPCError)"

section \<open>Operations of a handle\<close>

definition txn_read :: "('c, 'tid, 'p) TxnService \<Rightarrow> 'tid \<Rightarrow> Id \<Rightarrow> 'c \<Rightarrow> (('p TxnError + 'p OwnedCell option) \<times> 'c) option" where
  "txn_read S tid i c = map_option (\<lambda>(a, c). (read_answer a, c)) (ts_read S tid i c)"

definition txn_read_selected ::
  "('c, 'tid, 'p) TxnService \<Rightarrow> 'tid \<Rightarrow> Id \<Rightarrow> u64 list \<Rightarrow> 'c \<Rightarrow> (('p TxnError + 'p Value option) \<times> 'c) option" where
  "txn_read_selected S tid i ks c = map_option (\<lambda>(a, c). (read_answer a, c)) (ts_read_selected S tid i ks c)"

definition txn_head :: "('c, 'tid, 'p) TxnService \<Rightarrow> 'tid \<Rightarrow> Id \<Rightarrow> 'c \<Rightarrow> (('p TxnError + CellHeader option) \<times> 'c) option" where
  "txn_head S tid i c = map_option (\<lambda>(a, c). (read_answer a, c)) (ts_head S tid i c)"

definition txn_write :: "('c, 'tid, 'p) TxnService \<Rightarrow> 'tid \<Rightarrow> 'p OwnedCell \<Rightarrow> 'c \<Rightarrow> (('p TxnError + unit) \<times> 'c) option" where
  "txn_write S tid cell c = map_option (\<lambda>(a, c). (write_answer a, c)) (ts_write S tid cell c)"

definition txn_update :: "('c, 'tid, 'p) TxnService \<Rightarrow> 'tid \<Rightarrow> 'p OwnedCell \<Rightarrow> 'c \<Rightarrow> (('p TxnError + unit) \<times> 'c) option" where
  "txn_update S tid cell c = map_option (\<lambda>(a, c). (write_answer a, c)) (ts_update S tid cell c)"

definition txn_remove :: "('c, 'tid, 'p) TxnService \<Rightarrow> 'tid \<Rightarrow> Id \<Rightarrow> 'c \<Rightarrow> (('p TxnError + unit) \<times> 'c) option" where
  "txn_remove S tid i c = map_option (\<lambda>(a, c). (write_answer a, c)) (ts_remove S tid i c)"

definition txn_upsert :: "('c, 'tid, 'p) TxnService \<Rightarrow> 'tid \<Rightarrow> 'p OwnedCell \<Rightarrow> 'c \<Rightarrow> (('p TxnError + unit) \<times> 'c) option" where
  "txn_upsert S tid cell c =
     (case txn_head S tid (cell_id cell) c of
        None \<Rightarrow> None
      | Some (Inr (Some _), c) \<Rightarrow> txn_update S tid cell c
      | Some (Inr None, c) \<Rightarrow> txn_write S tid cell c
      | Some (Inl e, c) \<Rightarrow> Some (Inl e, c))"

text \<open>The operations that end a transaction set the state of the handle before they call the manager.\<close>

definition txn_prepare :: "('c, 'tid, 'p) TxnService \<Rightarrow> 'tid \<Rightarrow> 'c \<Rightarrow> (('p TxnError + unit) \<times> TxnState \<times> 'c) option" where
  "txn_prepare S tid c = map_option (\<lambda>(a, c). (prepare_answer a, Prepared, c)) (ts_prepare S tid c)"

definition txn_commit :: "('c, 'tid, 'p) TxnService \<Rightarrow> 'tid \<Rightarrow> 'c \<Rightarrow> (('p TxnError + unit) \<times> TxnState \<times> 'c) option" where
  "txn_commit S tid c = map_option (\<lambda>(a, c). (commit_answer a, Committed, c)) (ts_commit S tid c)"

definition txn_abort :: "('c, 'tid, 'p) TxnService \<Rightarrow> 'tid \<Rightarrow> TxnState \<Rightarrow> 'c \<Rightarrow> (('p TxnError + unit) \<times> TxnState \<times> 'c) option" where
  "txn_abort S tid st c =
     (if st = Aborted then Some (Inr (), Aborted, c)
      else map_option (\<lambda>(a, c). (abort_answer a, Aborted, c)) (ts_abort S tid c))"

section \<open>Running a transaction\<close>

definition TRANSACTION_MAX_RETRY :: nat where "TRANSACTION_MAX_RETRY = 1000"

text \<open>The user function returns its result, the state it left the handle in and the system.\<close>

type_synonym ('c, 'tid, 'p, 'r) TxnFn = "'tid \<Rightarrow> 'c \<Rightarrow> (('p TxnError + 'r) \<times> TxnState \<times> 'c) option"

text \<open>What follows a user function that succeeded: preparing if it has not, and committing what is prepared.\<close>

definition conclude ::
  "('c, 'tid, 'p) TxnService \<Rightarrow> 'tid \<Rightarrow> TxnState \<Rightarrow> 'c \<Rightarrow> (('p TxnError + unit) \<times> TxnState \<times> 'c) option" where
  "conclude S tid st c =
     (case (if st = Started then txn_prepare S tid c else Some (Inr (), st, c)) of
        None \<Rightarrow> None
      | Some (r, st', c') \<Rightarrow> if r = Inr () \<and> st' = Prepared then txn_commit S tid c' else Some (r, st', c'))"

text \<open>The retry loop; the number counts the attempts that are left.\<close>

fun transaction_loop ::
  "('c, 'tid, 'p) TxnService \<Rightarrow> ('c, 'tid, 'p, 'r) TxnFn \<Rightarrow> nat \<Rightarrow> 'c \<Rightarrow> (('p TxnError + 'r) \<times> 'c) option" where
  "transaction_loop S func 0 c = Some (Inl TE_TooManyRetry, c)"
| "transaction_loop S func (Suc n) c =
     (case ts_begin S c of
        None \<Rightarrow> None
      | Some (Inr (Inr tid), c1) \<Rightarrow>
          (case func tid c1 of
             None \<Rightarrow> None
           | Some (er, st, c2) \<Rightarrow>
               (case (case er of Inr _ \<Rightarrow> conclude S tid st c2 | Inl e \<Rightarrow> Some (Inl e, st, c2)) of
                  None \<Rightarrow> None
                | Some (Inr _, st', c3) \<Rightarrow> Some (er, c3)
                | Some (Inl e, st', c3) \<Rightarrow>
                    (case txn_abort S tid st' c3 of
                       None \<Rightarrow> None
                     | Some (_, _, c4) \<Rightarrow> if e = TE_NotRealizable then transaction_loop S func n c4 else Some (Inl e, c4))))
      | Some (_, c1) \<Rightarrow> Some (Inl TE_CannotBegin, c1))"

text \<open>The manager is on a random server of the cluster.\<close>

definition client_transaction ::
  "('srv \<Rightarrow> ('c, 'tid, 'p) TxnService option) \<Rightarrow> 'srv option \<Rightarrow> ('c, 'tid, 'p, 'r) TxnFn \<Rightarrow> 'c \<Rightarrow> (('p TxnError + 'r) \<times> 'c) option" where
  "client_transaction connect rand_server func c =
     (case rand_server of
        None \<Rightarrow> Some (Inl TE_CannotFindAServer, c)
      | Some name \<Rightarrow>
          (case connect name of
             None \<Rightarrow> Some (Inl TE_IoError, c)
           | Some S \<Rightarrow> transaction_loop S func TRANSACTION_MAX_RETRY c))"

section \<open>The manager as a service\<close>

definition returned :: "((TMError + 'r) outcome \<times> 'c) option \<Rightarrow> ('r answer \<times> 'c) option" where
  "returned x = (case x of Some (Done r, c) \<Rightarrow> Some (Inr r, c) | _ \<Rightarrow> None)"

definition manager_service ::
  "'tid Clocks \<Rightarrow> Net \<Rightarrow> ('st, 'p) StoreOps \<Rightarrow> ('p Value \<Rightarrow> u64 list \<Rightarrow> 'p Value) \<Rightarrow> SchemasMap
     \<Rightarrow> ('p CommitHistory \<Rightarrow> 'p CommitHistory) \<Rightarrow> int \<Rightarrow> (('tid, 'p, 'st) Cluster, 'tid, 'p) TxnService" where
  "manager_service K N D get_in sm ord now =
     \<lparr>ts_begin = (\<lambda>cl. Some (map_prod Inr id (tm_begin K cl))),
      ts_read = (\<lambda>tid i cl. returned (tm_read K N D now tid i cl)),
      ts_read_selected = (\<lambda>tid i ks cl. returned (tm_read_selected K N D get_in sm now tid i ks cl)),
      ts_head = (\<lambda>tid i cl. returned (tm_head K N D now tid i cl)),
      ts_write = (\<lambda>tid cell cl. Some (map_prod Inr id (tm_write N tid cell cl))),
      ts_update = (\<lambda>tid cell cl. Some (map_prod Inr id (tm_update N tid cell cl))),
      ts_remove = (\<lambda>tid i cl. Some (map_prod Inr id (tm_remove N tid i cl))),
      ts_prepare = (\<lambda>tid cl. returned (tm_prepare K N D now tid cl)),
      ts_commit = (\<lambda>tid cl. map_option (map_prod Inr id) (tm_commit K N now tid cl)),
      ts_abort = (\<lambda>tid cl. map_option (map_prod Inr id) (tm_abort K N D ord now tid cl))\<rparr>"

lemma returned_Some: "returned x = Some (a, c) \<longleftrightarrow> (\<exists>r. x = Some (Done r, c) \<and> a = Inr r)"
  by (auto simp: returned_def split: option.splits prod.splits outcome.splits)

section \<open>Lemmas\<close>

lemma prepare_answer_ok: "prepare_answer a = Inr () \<longleftrightarrow> a = Inr (Inr TMP_Success)"
  by (auto simp: prepare_answer_def split: sum.splits TMPrepareResult.splits DMCommitResult.splits)

lemma commit_answer_ok: "commit_answer a = Inr () \<longleftrightarrow> (\<exists>r \<in> {ER_Success, ER_SomeLocksNotReleased}. a = Inr (Inr r))"
  by (auto simp: commit_answer_def split: sum.splits EndResult.splits)

text \<open>How a transaction ends well: by the commit of what was prepared, or by what the user function did.\<close>

definition ended_well :: "('c, 'tid, 'p) TxnService \<Rightarrow> 'tid \<Rightarrow> TxnState \<Rightarrow> 'c \<Rightarrow> 'c \<Rightarrow> bool" where
  "ended_well S tid st c c' \<longleftrightarrow>
     (case st of
        Started \<Rightarrow> (\<exists>c1 r. ts_prepare S tid c = Some (Inr (Inr TMP_Success), c1) \<and> ts_commit S tid c1 = Some (Inr (Inr r), c') \<and>
                      r \<in> {ER_Success, ER_SomeLocksNotReleased})
      | Prepared \<Rightarrow> (\<exists>r. ts_commit S tid c = Some (Inr (Inr r), c') \<and> r \<in> {ER_Success, ER_SomeLocksNotReleased})
      | _ \<Rightarrow> c' = c)"

lemma conclude_ok: "conclude S tid st c = Some (Inr (), st', c') \<Longrightarrow> ended_well S tid st c c'"
  by (cases st) (auto simp: conclude_def ended_well_def txn_prepare_def txn_commit_def prepare_answer_ok commit_answer_ok
      split: option.splits prod.splits if_splits)

text \<open>A service whose calls return, and a user function that does.\<close>

definition calls_return :: "('c, 'tid, 'p) TxnService \<Rightarrow> ('c, 'tid, 'p, 'r) TxnFn \<Rightarrow> bool" where
  "calls_return S func \<longleftrightarrow> (\<forall>c. ts_begin S c \<noteq> None) \<and> (\<forall>tid c. func tid c \<noteq> None \<and> ts_prepare S tid c \<noteq> None \<and> ts_commit S tid c \<noteq> None \<and> ts_abort S tid c \<noteq> None)"

lemma calls_returnD:
  assumes "calls_return S func"
  shows "ts_begin S c \<noteq> None" "func tid c \<noteq> None" "ts_prepare S tid c \<noteq> None" "ts_commit S tid c \<noteq> None" "ts_abort S tid c \<noteq> None"
  using assms unfolding calls_return_def by blast+

lemma conclude_returns:
  assumes "\<And>tid c. ts_prepare S tid c \<noteq> None" "\<And>tid c. ts_commit S tid c \<noteq> None"
  shows "conclude S tid st c \<noteq> None"
proof (cases st)
  case Started
  obtain a c1 where "ts_prepare S tid c = Some (a, c1)" using assms(1) [of tid c] by auto
  then show ?thesis using assms(2) [of tid c1] Started by (auto simp: conclude_def txn_prepare_def txn_commit_def)
qed (use assms(2) [of tid c] in \<open>auto simp: conclude_def txn_commit_def\<close>)

text \<open>One attempt of the loop, by what its conclusion is.\<close>

definition conclusion ::
  "('c, 'tid, 'p) TxnService \<Rightarrow> 'tid \<Rightarrow> 'p TxnError + 'r \<Rightarrow> TxnState \<Rightarrow> 'c \<Rightarrow> (('p TxnError + unit) \<times> TxnState \<times> 'c) option" where
  "conclusion S tid er st c = (case er of Inr _ \<Rightarrow> conclude S tid st c | Inl e \<Rightarrow> Some (Inl e, st, c))"

lemma loop_step:
  assumes "ts_begin S c = Some (Inr (Inr tid), c1)" and "func tid c1 = Some (er, st, c2)"
    and "conclusion S tid er st c2 = Some (r, st', c3)" and "txn_abort S tid st' c3 = Some (a, st4, c4)"
  shows "transaction_loop S func (Suc n) c =
    (case r of Inr _ \<Rightarrow> Some (er, c3)
     | Inl e \<Rightarrow> if e = TE_NotRealizable then transaction_loop S func n c4 else Some (Inl e, c4))"
  by (simp add: assms(1,2,4) assms(3) [unfolded conclusion_def] split: sum.split)

lemma loop_step_ok:
  assumes "ts_begin S c = Some (Inr (Inr tid), c1)" and "func tid c1 = Some (er, st, c2)"
    and "conclusion S tid er st c2 = Some (Inr u, st', c3)"
  shows "transaction_loop S func (Suc n) c = Some (er, c3)"
  by (simp add: assms(1,2) assms(3) [unfolded conclusion_def])

lemma loop_returns:
  assumes "calls_return S func"
  shows "transaction_loop S func n c \<noteq> None"
proof (induction n arbitrary: c)
  case (Suc n)
  note ret = calls_returnD [OF assms]
  obtain a c1 where b: "ts_begin S c = Some (a, c1)" using ret(1) [of c] by (cases "ts_begin S c") auto
  have ab: "txn_abort S tid st c \<noteq> None" for tid st c using ret(5) [of tid c] by (auto simp: txn_abort_def)
  show ?case
  proof (cases "\<exists>tid. a = Inr (Inr tid)")
    case True
    then obtain tid where a: "a = Inr (Inr tid)" by blast
    obtain er st c2 where f: "func tid c1 = Some (er, st, c2)" using ret(2) [of tid c1] by (cases "func tid c1") auto
    obtain r st' c3 where r: "conclusion S tid er st c2 = Some (r, st', c3)"
      using conclude_returns [OF ret(3,4), of tid st c2] by (cases er) (auto simp: conclusion_def)
    obtain a4 st4 c4 where "txn_abort S tid st' c3 = Some (a4, st4, c4)"
      using ab [of tid st' c3] by (cases "txn_abort S tid st' c3") auto
    from loop_step [where func = func, OF b [unfolded a] f r this] show ?thesis using Suc.IH by (simp split: sum.split)
  qed (use b in \<open>auto split: sum.splits\<close>)
qed simp

lemma loop_attempt:
  assumes "transaction_loop S func (Suc n) c = Some (x, c')" "ts_begin S c = Some (Inr (Inr tid), c1)"
  obtains (ok) v st c2 st' where "func tid c1 = Some (Inr v, st, c2)" "conclude S tid st c2 = Some (Inr (), st', c')" "x = Inr v"
    | (retry) er st c2 st3 c3 a st4 c4 where "func tid c1 = Some (er, st, c2)" "conclusion S tid er st c2 = Some (Inl TE_NotRealizable, st3, c3)"
        "txn_abort S tid st3 c3 = Some (a, st4, c4)" "transaction_loop S func n c4 = Some (x, c')"
    | (fail) e st3 c3 a st4 where "txn_abort S tid st3 c3 = Some (a, st4, c')" "x = Inl e" "e \<noteq> TE_NotRealizable"
proof -
  obtain er st c2 where f: "func tid c1 = Some (er, st, c2)"
    using assms by (cases "func tid c1") auto
  obtain r st' c3 where q: "conclusion S tid er st c2 = Some (r, st', c3)"
    using assms f by (cases "conclusion S tid er st c2") (auto simp: conclusion_def)
  show thesis
  proof (cases r)
    case (Inr u)
    then have x: "x = er" "c' = c3" using assms(1) loop_step_ok [where func = func, OF assms(2) f q [unfolded Inr], of n] by simp_all
    obtain v where "er = Inr v" using q Inr by (cases er) (auto simp: conclusion_def)
    then show thesis using ok [of v st c2 st'] f q x Inr by (simp add: conclusion_def)
  next
    case (Inl e)
    then obtain a st4 c4 where a: "txn_abort S tid st' c3 = Some (a, st4, c4)"
      using assms f q by (cases "txn_abort S tid st' c3") (auto simp: conclusion_def)
    have x: "(if e = TE_NotRealizable then transaction_loop S func n c4 else Some (Inl e, c4)) = Some (x, c')"
      using assms(1) loop_step [where func = func, OF assms(2) f q a, of n] by (simp add: Inl)
    show thesis
    proof (cases "e = TE_NotRealizable")
      case True
      then show thesis using retry [OF f _ a] q Inl x by simp
    next
      case False
      then show thesis using fail [of st' c3 a st4 e] x a by simp
    qed
  qed
qed

text \<open>The attempts that came before: each was begun, could not be realized and was aborted.\<close>

inductive attempts :: "('c, 'tid, 'p) TxnService \<Rightarrow> ('c, 'tid, 'p, 'r) TxnFn \<Rightarrow> nat \<Rightarrow> 'c \<Rightarrow> 'c \<Rightarrow> bool"
  for S :: "('c, 'tid, 'p) TxnService" and func :: "('c, 'tid, 'p, 'r) TxnFn" where
  first: "attempts S func 0 c c"
| again: "attempts S func (Suc k) c c'"
    if "ts_begin S c = Some (Inr (Inr tid), c1)" and "func tid c1 = Some (er, st, c2)"
    and "conclusion S tid er st c2 = Some (Inl TE_NotRealizable, st3, c3)" and "txn_abort S tid st3 c3 = Some (a, st4, c4)"
    and "attempts S func k c4 c'"

inductive_cases attemptsE: "attempts S func k c c'"

lemma loop_ok:
  "transaction_loop S func n c = Some (Inr v, c') \<Longrightarrow>
     \<exists>k c0 tid c1 st c2. k < n \<and> attempts S func k c c0 \<and> ts_begin S c0 = Some (Inr (Inr tid), c1) \<and>
       func tid c1 = Some (Inr v, st, c2) \<and> ended_well S tid st c2 c'"
proof (induction n arbitrary: c)
  case (Suc n)
  from Suc.prems obtain tid c1 where b: "ts_begin S c = Some (Inr (Inr tid), c1)"
    by (auto split: option.splits prod.splits sum.splits)
  show ?case using Suc.prems b
  proof (cases rule: loop_attempt)
    case (ok w st c2 st')
    then show ?thesis using b conclude_ok [of S tid st c2 st' c'] attempts.first [of S func c] by blast
  next
    case (retry er st c2 st3 c3 a st4 c4)
    from Suc.IH [OF retry(4)] obtain k c0 tid' c1' st' c2' where
      k: "k < n" "attempts S func k c4 c0" "ts_begin S c0 = Some (Inr (Inr tid'), c1')"
        "func tid' c1' = Some (Inr v, st', c2')" "ended_well S tid' st' c2' c'" by blast
    have "attempts S func (Suc k) c c0" by (rule attempts.again [OF b retry(1-3) k(2)])
    then show ?thesis using k by (intro exI [of _ "Suc k"]) auto
  qed simp
qed simp

lemma loop_failed:
  "transaction_loop S func n c = Some (Inl e, c') \<Longrightarrow> e \<notin> {TE_CannotBegin, TE_TooManyRetry} \<Longrightarrow>
     e \<noteq> TE_NotRealizable \<and> (\<exists>tid st c1 a st'. txn_abort S tid st c1 = Some (a, st', c'))"
proof (induction n arbitrary: c)
  case (Suc n)
  from Suc.prems obtain tid c1 where b: "ts_begin S c = Some (Inr (Inr tid), c1)"
    by (auto split: option.splits prod.splits sum.splits)
  show ?case using Suc.prems(1) b
  proof (cases rule: loop_attempt)
    case (retry er st c2 st3 c3 a st4 c4)
    then show ?thesis using Suc.IH Suc.prems(2) by blast
  next
    case (fail e' st3 c3 a st4)
    then show ?thesis by blast
  qed simp
qed simp

lemma abort_sets_state: "txn_abort S tid st c = Some (a, st', c') \<Longrightarrow> st' = Aborted"
  by (auto simp: txn_abort_def split: if_splits)

section \<open>A transaction on the manager and its sites\<close>

lemma manager_service_simps [simp]:
  "ts_begin (manager_service K N D get_in sm ord now) cl = Some (map_prod Inr id (tm_begin K cl))"
  "ts_write (manager_service K N D get_in sm ord now) tid cell cl = Some (map_prod Inr id (tm_write N tid cell cl))"
  "ts_prepare (manager_service K N D get_in sm ord now) tid cl = returned (tm_prepare K N D now tid cl)"
  "ts_commit (manager_service K N D get_in sm ord now) tid cl = map_option (map_prod Inr id) (tm_commit K N now tid cl)"
  by (simp_all add: manager_service_def)

text \<open>Committing at the manager releases the cells and changes no store.\<close>

lemma tm_commit_store:
  assumes "tm_commit K N now tid cl = Some (Inr r, cl')" and "tm_transactions cl tid = Some t"
    and "distinct (map fst (tt_affected_objects t))" and "tm_sites cl' s = Some dm'"
  shows "\<exists>dm. tm_sites cl s = Some dm \<and> dm_store dm' = dm_store dm"
proof -
  obtain q cl1 where e: "sites_end K N now tid (tt_affected_objects t) cl = Some (q, cl1)" "cl' = cleanup_transaction tid cl1"
    using assms(1,2) by (auto simp: tm_commit_def tm_get_transaction_def split: option.splits)
  have "tm_sites cl1 s = Some dm'" using assms(4) e(2) by (simp add: cleanup_transaction_def)
  then show ?thesis using sites_end_store [OF e(1) assms(3)] by blast
qed

text \<open>What a committed transaction does to a site, in the terms of the contract of its store.\<close>

context cell_store
begin

lemma ended_well_applies:
  assumes run: "ended_well (manager_service K N D get_in sm ord now) tid Started cl cl'"
    and buf: "\<And>t. rw_txn tid cl = Inr t \<Longrightarrow> buffer_ok (tt_data t) \<and> inj_on key (fst ` set (tt_data t)) \<and>
      (\<forall>i obj c. map_of (tt_data t) i = Some obj \<longrightarrow> do_changed obj \<longrightarrow> do_cell obj = Some c \<longrightarrow> fit c)"
    and sites: "\<forall>s dm. tm_sites cl s = Some dm \<longrightarrow> R (M s) (dm_store dm)" and s: "tm_sites cl' s = Some dm'"
  shows "\<exists>t M'. rw_txn tid cl = Inr t \<and> R M' (dm_store dm') \<and>
    (\<forall>i obj. changes_at (tt_data t) s i obj \<longrightarrow> M' (key i) = map_option bump (do_cell obj)) \<and>
    (\<forall>k. (\<forall>i obj. changes_at (tt_data t) s i obj \<longrightarrow> key i \<noteq> k) \<longrightarrow> M' k = M s k)"
proof -
  from run obtain cl1 r where p: "tm_prepare K N D now tid cl = Some (Done (Inr TMP_Success), cl1)"
      and c: "tm_commit K N now tid cl1 = Some (Inr r, cl')"
    by (auto simp: ended_well_def returned_Some)
  obtain t where rw: "rw_txn tid cl = Inr t" using p by (auto simp: tm_prepare_def split: sum.splits)
  from buf [OF rw] have b: "buffer_ok (tt_data t)" "inj_on key (fst ` set (tt_data t))"
    "\<forall>i obj c. map_of (tt_data t) i = Some obj \<longrightarrow> do_changed obj \<longrightarrow> do_cell obj = Some c \<longrightarrow> fit c" by blast+
  obtain t' where t': "tm_transactions cl1 tid = Some t'" "tt_affected_objects t' = tt_affected_objects (generate_affected_objs t)"
    using rw p by (rule tm_prepareE) auto
  obtain dm where dm: "tm_sites cl1 s = Some dm" "dm_store dm' = dm_store dm"
    using tm_commit_store [OF c t'(1) _ s] t'(2) generate_affected(2) [OF b(1)] by auto
  from prepare_applies [OF rw b sites p dm(1)] show ?thesis unfolding dm(2) using rw by blast
qed

end

section \<open>Concrete clients\<close>

text \<open>A service that refuses the first transaction, and a client of the concrete cluster on chunks that writes a cell.\<close>

definition ex_service :: "(nat, nat, unit) TxnService" where
  "ex_service =
     \<lparr>ts_begin = (\<lambda>c. Some (Inr (Inr c), c)),
      ts_read = (\<lambda>_ _ _. None), ts_read_selected = (\<lambda>_ _ _ _. None), ts_head = (\<lambda>_ _ _. None),
      ts_write = (\<lambda>_ _ _. None), ts_update = (\<lambda>_ _ _. None), ts_remove = (\<lambda>_ _ _. None),
      ts_prepare = (\<lambda>_ c. Some (Inr (Inr (if c = 0 then TMP_DMPrepareError DMP_NotRealizable else TMP_Success)), c)),
      ts_commit = (\<lambda>_ c. Some (Inr (Inr ER_Success), c + 10)),
      ts_abort = (\<lambda>_ c. Some (Inr (Inr (AR_Success None)), c + 1))\<rparr>"

lemma ex_service_run:
  "calls_return ex_service (\<lambda>tid c. Some (Inr tid, Started, c))"
  "client_transaction (\<lambda>_. Some ex_service) (Some ()) (\<lambda>tid c. Some (Inr tid, Started, c)) 0 = Some (Inr 1, 11)"
  by (simp_all add: calls_return_def ex_service_def client_transaction_def TRANSACTION_MAX_RETRY_def eval_nat_numeral conclude_def
      txn_prepare_def txn_commit_def txn_abort_def prepare_answer_def commit_answer_def del: transaction_loop.simps(1))

abbreviation ex_manager :: "((nat, unit, unit Chunks) Cluster, nat, unit) TxnService" where
  "ex_manager \<equiv> manager_service nat_clocks ex_net (chunk_ops (std_env lib_codec)) (\<lambda>v _. v) SchemasMap_new id 0"

definition ex_fn :: "((nat, unit, unit Chunks) Cluster, nat, unit, unit) TxnFn" where
  "ex_fn tid cl = map_option (\<lambda>(r, cl'). (r, Started, cl')) (txn_write ex_manager tid ex_cell cl)"

definition ex_start :: "(nat, unit, unit Chunks) Cluster" where
  "ex_start = \<lparr>tm_server_id = 7, tm_clock = 4, tm_transactions = Map.empty, tm_awaits = (\<lambda>_ _. 0), tm_sites = [1 \<mapsto> DataManager_new 0 [ex_chunk]]\<rparr>"

lemma ex_begin: "tm_begin nat_clocks ex_start = (Inr 5, (ex_sites (DataManager_new 0 [ex_chunk]))\<lparr>tm_transactions := [5 \<mapsto> \<lparr>tt_data = [], tt_affected_objects = [], tt_state = Started\<rparr>]\<rparr>)"
  by (simp add: ex_start_def ex_sites_def tm_begin_def Let_def nat_clocks_def put_tm_txn_def)

lemma ex_fn_run: "ex_fn 5 (snd (tm_begin nat_clocks ex_start)) = Some (Inr (), Started, ex_sites (DataManager_new 0 [ex_chunk]))"
proof -
  have "rw_txn 5 (snd (tm_begin nat_clocks ex_start)) = Inr \<lparr>tt_data = [], tt_affected_objects = [], tt_state = Started\<rparr>"
    by (rule rw_txnI) (simp_all add: ex_begin)
  then show ?thesis
    by (simp add: ex_fn_def txn_write_def tm_write_def write_answer_def)
      (simp add: ex_begin ex_sites_def put_tm_txn_def ex_txn_def ex_obj_def)
qed

lemma ex_concluded:
  "\<exists>cl' dm'. conclude ex_manager 5 Started (ex_sites (DataManager_new 0 [ex_chunk])) = Some (Inr (), Committed, cl') \<and> tm_sites cl' 1 = Some dm'"
proof -
  obtain cl1 dm1 x t where p: "tm_prepare nat_clocks ex_net (chunk_ops (std_env lib_codec)) 0 5 (ex_sites (DataManager_new 0 [ex_chunk])) = Some (Done (Inr TMP_Success), cl1)"
      and d: "tm_sites cl1 1 = Some dm1" "dm_txns dm1 5 = Some x" "st_state x = Committed" "st_affected_cells x = [cell_id ex_cell]"
      and t: "tm_transactions cl1 5 = Some t" "tt_state t = Prepared" "tt_affected_objects t = [(1, [(cell_id ex_cell, ex_obj)])]"
    using ex_prepare_ok by blast
  obtain q wake dm2 where e: "site_end nat_clocks 0 (tm_clock cl1) 5 dm1 = Some (q, wake, dm2)" "payload q \<in> {ER_Success, ER_SomeLocksNotReleased}"
    using d by (cases "dm_cells dm1 (cell_id ex_cell)") (auto simp: site_end_def Let_def case_prod_beta get_transaction_fst respond_def)
  have "\<exists>cl2. tm_commit nat_clocks ex_net 0 5 cl1 = Some (Inr (payload q), cl2) \<and> tm_sites cl2 1 = Some dm2"
    using t d(1) e by (auto simp: tm_commit_def tm_get_transaction_def ensure_txn_state_def data_sites_for_objs_def sites_end_def
        call_site_def Let_def cleanup_transaction_def)
  then obtain cl2 where c: "tm_commit nat_clocks ex_net 0 5 cl1 = Some (Inr (payload q), cl2)" "tm_sites cl2 1 = Some dm2" by blast
  have "commit_answer (Inr (Inr (payload q))) = Inr ()" using e(2) by (auto simp: commit_answer_ok)
  then show ?thesis using c by (simp add: conclude_def txn_prepare_def txn_commit_def p returned_def prepare_answer_def)
qed

lemma ex_client_run:
  "\<exists>cl' dm'. client_transaction (\<lambda>_. Some ex_manager) (Some ()) ex_fn ex_start = Some (Inr (), cl') \<and> tm_sites cl' 1 = Some dm'"
proof -
  obtain cl' dm' where c: "conclusion ex_manager 5 (Inr ()) Started (ex_sites (DataManager_new 0 [ex_chunk])) = Some (Inr (), Committed, cl')"
      "tm_sites cl' 1 = Some dm'"
    using ex_concluded by (auto simp: conclusion_def)
  have "ts_begin ex_manager ex_start = Some (Inr (Inr 5), snd (tm_begin nat_clocks ex_start))" by (simp add: ex_begin)
  from loop_step_ok [where func = ex_fn, OF this ex_fn_run c(1), of 999] c(2) show ?thesis
    by (simp add: client_transaction_def TRANSACTION_MAX_RETRY_def)
qed

lemma ex_first_attempt: "attempts ex_manager ex_fn k ex_start cl0 \<Longrightarrow> cl0 = ex_start"
proof (erule attemptsE)
  fix k tid c1 er st c2 st3 c3 a st4 c4
  assume b: "ts_begin ex_manager ex_start = Some (Inr (Inr tid), c1)" and f: "ex_fn tid c1 = Some (er, st, c2)"
    and c: "conclusion ex_manager tid er st c2 = Some (Inl TE_NotRealizable, st3, c3)"
  have "tid = 5" "c1 = snd (tm_begin nat_clocks ex_start)" using b by (auto simp: ex_begin)
  then have "er = Inr ()" "st = Started" "c2 = ex_sites (DataManager_new 0 [ex_chunk])" using f ex_fn_run by auto
  then have False using c ex_concluded \<open>tid = 5\<close> by (auto simp: conclusion_def)
  then show "cl0 = ex_start" ..
qed simp

section \<open>Properties\<close>





end
