(* ===== verification/Neb_EntryKey.thy ===== *)
theory Neb_EntryKey
  imports Neb_Entry
begin

text \<open>
  The keys of the ranged index, \<^verbatim>\<open>src/src/index/entry.rs\<close>: arrays of thirty-two bytes that
  are compared byte by byte. A key built from a cell holds its schema, field and feature and ends with
  its identifier, all big-endian, so that the order of the keys is the order of these components.
  The type is a linear order with a least and a greatest element, the default key and
  \<^verbatim>\<open>EntryKey::max\<close>. The binary form of an identifier belongs to the type library and is the
  argument \<open>IdCodec\<close>.
\<close>

section \<open>Big-endian byte strings\<close>

definition be_bytes :: "nat \<Rightarrow> nat \<Rightarrow> bytes" where
  "be_bytes n x = rev (le_bytes n x)"

primrec be_nat :: "bytes \<Rightarrow> nat" where
  "be_nat [] = 0"
| "be_nat (b # bs) = unat b * 256 ^ length bs + be_nat bs"

text \<open>\<^verbatim>\<open>slice::cmp\<close> of two byte slices.\<close>

fun bytes_less :: "bytes \<Rightarrow> bytes \<Rightarrow> bool" where
  "bytes_less xs [] = False"
| "bytes_less [] (y # ys) = True"
| "bytes_less (x # xs) (y # ys) = (x < y \<or> x = y \<and> bytes_less xs ys)"

lemma length_be_bytes [simp, codec_simps]: "length (be_bytes n x) = n"
  by (simp add: be_bytes_def)

lemma be_nat_append: "be_nat (xs @ ys) = be_nat xs * 256 ^ length ys + be_nat ys"
  by (induction xs) (simp_all add: power_add algebra_simps)

lemma be_nat_rev: "be_nat (rev bs) = le_nat bs"
  by (induction bs) (simp_all add: be_nat_append)

lemma be_nat_be_bytes: "be_nat (be_bytes n x) = x mod 256 ^ n"
  by (simp add: be_bytes_def be_nat_rev le_nat_le_bytes)

lemma be_nat_bound: "be_nat bs < 256 ^ length bs"
  using le_nat_bound [of "rev bs"] be_nat_rev [of "rev bs"] by simp

lemma digits_less:
  assumes "u < n" and "v < (n :: nat)"
  shows "a * n + u < b * n + v \<longleftrightarrow> a < b \<or> a = b \<and> u < v"
proof -
  have less: "a * n + u < b * n + v" if "a < b" "u < n" for a b u v :: nat
  proof -
    have "a * n + u < (a + 1) * n" using that by simp
    also have "\<dots> \<le> b * n" using that by (intro mult_le_mono1) simp
    finally show ?thesis by simp
  qed
  consider "a < b" | "a = b" | "b < a" by linarith
  then show ?thesis using less [of a b u v] less [of b a v u] assms by cases auto
qed

lemma bytes_less_be_nat: "length xs = length ys \<Longrightarrow> bytes_less xs ys \<longleftrightarrow> be_nat xs < be_nat ys"
proof (induction xs ys rule: bytes_less.induct)
  case (3 x xs y ys)
  then have l: "length xs = length ys" by simp
  have "be_nat (x # xs) < be_nat (y # ys) \<longleftrightarrow> unat x < unat y \<or> unat x = unat y \<and> be_nat xs < be_nat ys"
    using digits_less [of "be_nat xs" "256 ^ length ys" "be_nat ys"] be_nat_bound [of xs] be_nat_bound [of ys] l by simp
  moreover have "unat x = unat y \<longleftrightarrow> x = y" by (auto dest: unsigned_word_eqI)
  ultimately show ?case using 3 l by (auto simp: word_less_nat_alt)
qed auto

lemma be_nat_inj: "length xs = length ys \<Longrightarrow> be_nat xs = be_nat ys \<Longrightarrow> xs = ys"
  by (metis be_nat_rev le_bytes_le_nat length_rev rev_rev_ident)

section \<open>Keys\<close>

definition FEATURE_SIZE :: nat where "FEATURE_SIZE = 8"
definition ID_SIZE :: nat where "ID_SIZE = 16"
definition KEY_SIZE :: nat where "KEY_SIZE = ID_SIZE + FEATURE_SIZE + 8"

lemma KEY_SIZE_32 [simp]: "KEY_SIZE = 32" "ID_SIZE = 16" "FEATURE_SIZE = 8"
  by (simp_all add: KEY_SIZE_def ID_SIZE_def FEATURE_SIZE_def)

typedef EntryKey = "{bs :: bytes. length bs = KEY_SIZE}"
  morphisms key_slice EntryKey_of
  by (rule exI [of _ "replicate KEY_SIZE 0"]) simp

setup_lifting type_definition_EntryKey

lemma length_key_slice [simp]: "length (key_slice k) = 32"
  using key_slice [of k] by simp

instantiation EntryKey :: linorder
begin

lift_definition less_EntryKey :: "EntryKey \<Rightarrow> EntryKey \<Rightarrow> bool" is bytes_less .

definition less_eq_EntryKey :: "EntryKey \<Rightarrow> EntryKey \<Rightarrow> bool" where
  "less_eq_EntryKey k l = (k = l \<or> k < l)"

instance
proof
  fix k l m :: EntryKey
  have n: "a < b \<longleftrightarrow> be_nat (key_slice a) < be_nat (key_slice b)" for a b :: EntryKey
    by (transfer, rule bytes_less_be_nat) simp
  have e: "a = b" if "be_nat (key_slice a) = be_nat (key_slice b)" for a b
    using that be_nat_inj [of "key_slice a" "key_slice b"] key_slice_inject by simp
  show "k < l \<longleftrightarrow> k \<le> l \<and> \<not> l \<le> k" using n e by (auto simp: less_eq_EntryKey_def)
  show "k \<le> k" by (simp add: less_eq_EntryKey_def)
  show "k \<le> l \<Longrightarrow> l \<le> m \<Longrightarrow> k \<le> m" using n by (auto simp: less_eq_EntryKey_def)
  show "k \<le> l \<Longrightarrow> l \<le> k \<Longrightarrow> k = l" using n by (auto simp: less_eq_EntryKey_def)
  show "k \<le> l \<or> l \<le> k" using n e by (fastforce simp: less_eq_EntryKey_def)
qed

end

lemma EntryKey_less_nat: "k < l \<longleftrightarrow> be_nat (key_slice k) < be_nat (key_slice l)"
  by (transfer, rule bytes_less_be_nat) simp

lemma EntryKey_le_nat: "k \<le> l \<longleftrightarrow> be_nat (key_slice k) \<le> be_nat (key_slice l)"
  by (simp add: linorder_not_less [symmetric] EntryKey_less_nat)

text \<open>The default key and \<^verbatim>\<open>EntryKey::max\<close>.\<close>

instantiation EntryKey :: "{order_bot, order_top}"
begin

lift_definition bot_EntryKey :: EntryKey is "replicate KEY_SIZE 0" by simp

lift_definition top_EntryKey :: EntryKey is "replicate KEY_SIZE 255" by simp

instance
proof
  fix k :: EntryKey
  have z: "be_nat (replicate n 0) = 0" for n by (induction n) simp_all
  have m: "Suc (be_nat (replicate n 255)) = 256 ^ n" for n by (induction n) simp_all
  show "bot \<le> k" by (simp add: EntryKey_le_nat bot_EntryKey.rep_eq z)
  have "be_nat (key_slice k) < 256 ^ 32" using be_nat_bound [of "key_slice k"] by simp
  then have "be_nat (key_slice k) \<le> be_nat (key_slice top)"
    unfolding top_EntryKey.rep_eq KEY_SIZE_32 using m [of 32] by linarith
  then show "k \<le> top" by (simp only: EntryKey_le_nat)
qed

end

text \<open>\<^verbatim>\<open>EntryKey::copy_slice\<close> overwrites the front of a key and leaves the rest as it is;
  \<^verbatim>\<open>EntryKey::from_slice\<close> does so over a default key.\<close>

lift_definition copy_slice :: "EntryKey \<Rightarrow> bytes \<Rightarrow> EntryKey" is
  "\<lambda>k bs :: bytes. take KEY_SIZE bs @ drop (length bs) k" by simp

definition from_slice :: "bytes \<Rightarrow> EntryKey" where
  "from_slice bs = copy_slice bot bs"

text \<open>\<^verbatim>\<open>EntryKey::from_props\<close>: the writes of a cursor over the default key.\<close>

definition from_props :: "Id \<Rightarrow> bytes \<Rightarrow> u64 \<Rightarrow> u32 \<Rightarrow> EntryKey" where
  "from_props i feature field schema_id =
     from_slice (be_bytes 4 (unat schema_id) @ be_bytes 4 (unat (ucast field :: u32)) @ feature @
       be_bytes 8 (unat (higher i)) @ be_bytes 8 (unat (lower i)))"

definition for_scannable :: "Id \<Rightarrow> u32 \<Rightarrow> EntryKey" where
  "for_scannable i schema_id = from_props i (replicate FEATURE_SIZE 0) 0 schema_id"

text \<open>Identifiers inside keys. A binary form that cannot be read panics.\<close>

record IdCodec =
  id_to_binary :: "Id \<Rightarrow> bytes"
  id_from_binary :: "bytes \<Rightarrow> Id option"

definition id_codec_ok :: "IdCodec \<Rightarrow> bool" where
  "id_codec_ok C = (\<forall>i. length (id_to_binary C i) = ID_SIZE \<and> id_from_binary C (id_to_binary C i) = Some i)"

definition key_id :: "IdCodec \<Rightarrow> EntryKey \<Rightarrow> Id option" where
  "key_id C k = id_from_binary C (drop (KEY_SIZE - ID_SIZE) (key_slice k))"

definition set_id :: "IdCodec \<Rightarrow> EntryKey \<Rightarrow> Id \<Rightarrow> EntryKey" where
  "set_id C k i = from_slice (take (KEY_SIZE - ID_SIZE) (key_slice k) @ take ID_SIZE (id_to_binary C i))"

definition from_id :: "IdCodec \<Rightarrow> Id \<Rightarrow> EntryKey" where
  "from_id C i = set_id C bot i"

text \<open>Serialization as a sequence of bytes; reading more than fit into a key panics.\<close>

definition serialize_key :: "EntryKey \<Rightarrow> bytes" where
  "serialize_key k = key_slice k"

definition visit_seq :: "bytes \<Rightarrow> EntryKey option" where
  "visit_seq bs = (if length bs \<le> KEY_SIZE then Some (copy_slice bot bs) else None)"

section \<open>Lemmas\<close>

lemma from_slice_full: "length bs = 32 \<Longrightarrow> key_slice (from_slice bs) = bs"
  by (simp add: from_slice_def copy_slice.rep_eq)

lemma set_id_slice:
  "length (id_to_binary C i) = 16 \<Longrightarrow> key_slice (set_id C k i) = take 16 (key_slice k) @ id_to_binary C i"
  unfolding set_id_def by (subst from_slice_full) auto

lemma visit_serialize: "visit_seq (serialize_key k) = Some k"
  unfolding visit_seq_def serialize_key_def by (simp, transfer) simp

lemma be_nat_field:
  assumes "x < 256 ^ n" and "y < 256 ^ n" and "length us = length vs"
  shows "be_nat (be_bytes n x @ us) < be_nat (be_bytes n y @ vs) \<longleftrightarrow> x < y \<or> x = y \<and> be_nat us < be_nat vs"
  using digits_less [of "be_nat us" "256 ^ length vs" "be_nat vs" x y] be_nat_bound [of us] be_nat_bound [of vs] assms
  by (simp add: be_nat_append be_nat_be_bytes)

lemma be_nat_feature:
  assumes "length fs = length gs" and "length us = length vs"
  shows "be_nat (fs @ us) < be_nat (gs @ vs) \<longleftrightarrow> bytes_less fs gs \<or> fs = gs \<and> be_nat us < be_nat vs"
  using digits_less [of "be_nat us" "256 ^ length vs" "be_nat vs" "be_nat fs" "be_nat gs"] be_nat_bound [of us]
    be_nat_bound [of vs] assms be_nat_inj [OF assms(1)]
  by (auto simp: be_nat_append bytes_less_be_nat)

section \<open>Properties\<close>

text \<open>C28: the order of the keys of the index is the order of what they were built from: by schema, then
  field (its low 32 bits), then feature, then identifier.\<close>

theorem key_order_fields:
  assumes "length f1 = FEATURE_SIZE" and "length f2 = FEATURE_SIZE"
  shows "from_props i1 f1 fld1 s1 < from_props i2 f2 fld2 s2 \<longleftrightarrow>
    s1 < s2 \<or> s1 = s2 \<and>
      ((ucast fld1 :: u32) < ucast fld2 \<or> (ucast fld1 :: u32) = ucast fld2 \<and>
        (bytes_less f1 f2 \<or> f1 = f2 \<and>
          (higher i1 < higher i2 \<or> higher i1 = higher i2 \<and> lower i1 < lower i2)))"
proof -
  have b32: "unat (w :: u32) < 256 ^ 4" for w using unat_less_pow [of w] by simp
  have b64: "unat (w :: u64) < 256 ^ 8" for w using unat_less_pow [of w] by simp
  have last: "be_nat (be_bytes 8 (unat v)) < be_nat (be_bytes 8 (unat w)) \<longleftrightarrow> v < w" for v w :: u64
    using b64 [of v] b64 [of w] by (simp add: be_nat_be_bytes word_less_nat_alt)
  have eq32: "unat v = unat w \<longleftrightarrow> v = w" for v w :: u32 by (auto dest: unsigned_word_eqI)
  have eq64: "unat v = unat w \<longleftrightarrow> v = w" for v w :: u64 by (auto dest: unsigned_word_eqI)
  show ?thesis using assms
    by (simp add: EntryKey_less_nat from_props_def from_slice_full be_nat_field be_nat_feature [of f1 f2] b32 b64 last
        word_less_nat_alt [symmetric] eq32 eq64)
qed

text \<open>The bound is met by the feature of a scannable key.\<close>

theorem key_order_fields_witness:
  "length (replicate FEATURE_SIZE (0 :: u8)) = FEATURE_SIZE \<and>
   from_props \<lparr>higher = 1, lower = 7\<rparr> (replicate FEATURE_SIZE 0) 4294967298 5 < from_props \<lparr>higher = 1, lower = 9\<rparr> (replicate FEATURE_SIZE 0) 2 5"
  using key_order_fields [of "replicate FEATURE_SIZE 0" "replicate FEATURE_SIZE 0" "\<lparr>higher = 1, lower = 7\<rparr>" 4294967298 5 "\<lparr>higher = 1, lower = 9\<rparr>" 2 5]
  by simp

end
