(* ===== verification/Neb_Slice.thy ===== *)
theory Neb_Slice
  imports Neb_Prelude
begin

text \<open>
  The arrays of the pages of the ranged index, \<^verbatim>\<open>src/src/index/ranged/trees.rs\<close> and
  \<^verbatim>\<open>src/src/index/macros.rs\<close>. A page holds arrays of a fixed length whose first slots are in use; the
  trait \<^verbatim>\<open>Slice\<close> inserts, removes and splits by swapping slots in loops. An access out of range panics,
  here \<open>None\<close>. The lemmas show that the loops do on the used slots what the functions of lists do.
\<close>

section \<open>Loops and slots\<close>

text \<open>\<^verbatim>\<open>for x in iter\<close> over a state, stopped by a panic.\<close>

primrec for_each :: "'a list \<Rightarrow> ('a \<Rightarrow> 's \<Rightarrow> 's option) \<Rightarrow> 's \<Rightarrow> 's option" where
  "for_each [] f s = Some s"
| "for_each (x # xs) f s = (case f x s of None \<Rightarrow> None | Some t \<Rightarrow> for_each xs f t)"

definition slot :: "'a list \<Rightarrow> nat \<Rightarrow> 'a option" where
  "slot xs i = (if i < length xs then Some (xs ! i) else None)"

definition set_slot :: "nat \<Rightarrow> 'a \<Rightarrow> 'a list \<Rightarrow> 'a list option" where
  "set_slot i x xs = (if i < length xs then Some (xs[i := x]) else None)"

text \<open>\<^verbatim>\<open>slice.swap(i, j)\<close> and \<^verbatim>\<open>mem::swap\<close> of slots of two arrays.\<close>

definition swap_slots :: "nat \<Rightarrow> nat \<Rightarrow> 'a list \<Rightarrow> 'a list option" where
  "swap_slots i j xs =
     (if i < length xs \<and> j < length xs then Some (xs[i := xs ! j, j := xs ! i]) else None)"

definition swap_across :: "nat \<Rightarrow> nat \<Rightarrow> 'a list \<times> 'a list \<Rightarrow> ('a list \<times> 'a list) option" where
  "swap_across i j p =
     (if i < length (fst p) \<and> j < length (snd p)
      then Some ((fst p)[i := snd p ! j], (snd p)[j := fst p ! i]) else None)"

lemma slot_Some [simp]: "i < length xs \<Longrightarrow> slot xs i = Some (xs ! i)"
  by (simp add: slot_def)

lemma set_slot_Some [simp]: "i < length xs \<Longrightarrow> set_slot i x xs = Some (xs[i := x])"
  by (simp add: set_slot_def)

lemma for_each_append:
  "for_each (xs @ ys) f s = (case for_each xs f s of None \<Rightarrow> None | Some t \<Rightarrow> for_each ys f t)"
  by (induction xs arbitrary: s) (auto split: option.splits)

section \<open>The trait Slice\<close>

definition slice_init :: "'a \<Rightarrow> nat \<Rightarrow> 'a list" where
  "slice_init d n = replicate n d"

text \<open>The new right array and what is left in the old one.\<close>

definition split_at_pivot :: "'a \<Rightarrow> nat \<Rightarrow> nat \<Rightarrow> 'a list \<Rightarrow> ('a list \<times> 'a list) option" where
  "split_at_pivot d pivot len xs =
     for_each [pivot ..< len] (\<lambda>i. swap_across i (i - pivot)) (xs, slice_init d (length xs))"

definition insert_at :: "'a \<Rightarrow> 'a \<Rightarrow> nat \<Rightarrow> nat \<Rightarrow> 'a list \<Rightarrow> ('a list \<times> nat) option" where
  "insert_at d item pos len xs =
     Option.bind (if 0 < len
        then Option.bind (set_slot len d xs) (for_each (rev [pos ..< len]) (\<lambda>i. swap_slots i (i + 1)))
        else Some xs)
     (\<lambda>ys. map_option (\<lambda>zs. (zs, len + 1)) (set_slot pos item ys))"

definition remove_at :: "'a \<Rightarrow> nat \<Rightarrow> nat \<Rightarrow> 'a list \<Rightarrow> ('a list \<times> nat) option" where
  "remove_at d pos len xs =
     (if len = 0 then None
      else Option.bind
        (if pos < len - 1 then for_each [pos ..< len - 1] (\<lambda>i. swap_slots i (i + 1)) xs else Some xs)
        (\<lambda>ys. map_option (\<lambda>zs. (zs, len - 1)) (set_slot (len - 1) d ys)))"

text \<open>\<^verbatim>\<open>insert_into_split\<close> of \<^verbatim>\<open>btree/node.rs\<close>: insertion at a position of an array that has
  been split in two.\<close>

definition insert_into_split ::
  "'a \<Rightarrow> 'a \<Rightarrow> 'a list \<Rightarrow> 'a list \<Rightarrow> nat \<Rightarrow> nat \<Rightarrow> nat \<Rightarrow> ('a list \<times> 'a list \<times> nat \<times> nat) option" where
  "insert_into_split d item x y xlen ylen pos =
     (if pos < xlen
      then map_option (\<lambda>(x', xlen'). (x', y, xlen', ylen)) (insert_at d item pos xlen x)
      else map_option (\<lambda>(y', ylen'). (x, y', xlen, ylen')) (insert_at d item (pos - xlen) ylen y))"

section \<open>The loops as list operations\<close>

lemma swap_up_loop:
  assumes "pos \<le> len" and "len < length xs"
  shows "for_each (rev [pos ..< len]) (\<lambda>i. swap_slots i (i + 1)) xs =
    Some (take pos xs @ xs ! len # drop pos (take len xs) @ drop (Suc len) xs)"
  using assms
proof (induction "len - pos" arbitrary: len xs)
  case 0
  then show ?case by (simp add: id_take_nth_drop [symmetric])
next
  case (Suc k)
  then obtain l where len: "len = Suc l" and pl: "pos \<le> l" and k: "k = l - pos" by (cases len) auto
  let ?ys = "xs[l := xs ! len, len := xs ! l]"
  have ys: "?ys ! l = xs ! len" "take pos ?ys = take pos xs" "drop pos (take l ?ys) = drop pos (take l xs)"
    "drop (Suc l) ?ys = xs ! l # drop (Suc len) xs"
    using Suc.prems pl by (simp_all add: len Cons_nth_drop_Suc [symmetric] take_update_cancel)
  have tl: "drop pos (take len xs) = drop pos (take l xs) @ [xs ! l]"
    using Suc.prems pl by (simp add: len take_Suc_conv_app_nth)
  have "for_each (rev [pos ..< l]) (\<lambda>i. swap_slots i (i + 1)) ?ys =
      Some (take pos ?ys @ ?ys ! l # drop pos (take l ?ys) @ drop (Suc l) ?ys)"
    using Suc.hyps(1) [OF k pl, of ?ys] Suc.prems len by simp
  then show ?case using Suc.prems pl tl ys by (simp add: len swap_slots_def)
qed

lemma insert_at_list:
  assumes "pos \<le> len" and "len < length xs"
  shows "insert_at d item pos len xs =
    Some (take pos xs @ item # drop pos (take len xs) @ drop (Suc len) xs, Suc len)"
proof (cases "len = 0")
  case True
  then show ?thesis using assms by (cases xs) (simp_all add: insert_at_def)
next
  case False
  have "for_each (rev [pos ..< len]) (\<lambda>i. swap_slots i (i + 1)) (xs[len := d]) =
      Some (take pos xs @ d # drop pos (take len xs) @ drop (Suc len) xs)"
    using swap_up_loop [of pos len "xs[len := d]"] assms by simp
  then show ?thesis using False assms by (simp add: insert_at_def list_update_append)
qed

lemma swap_down_loop:
  assumes "pos \<le> bound" and "bound < length xs"
  shows "for_each [pos ..< bound] (\<lambda>i. swap_slots i (i + 1)) xs =
    Some (take pos xs @ drop (Suc pos) (take (Suc bound) xs) @ xs ! pos # drop (Suc bound) xs)"
  using assms
proof (induction "bound - pos" arbitrary: pos xs)
  case 0
  then show ?case by (simp add: id_take_nth_drop [symmetric])
next
  case (Suc k)
  then have lt: "pos < bound" and k: "k = bound - Suc pos" by auto
  let ?ys = "xs[pos := xs ! Suc pos, Suc pos := xs ! pos]"
  have ys: "take (Suc pos) ?ys = take pos xs @ [xs ! Suc pos]" "?ys ! Suc pos = xs ! pos"
    "drop (Suc bound) ?ys = drop (Suc bound) xs"
    using Suc.prems lt by (simp_all add: take_Suc_conv_app_nth)
  have mid: "drop (Suc (Suc pos)) (take (Suc bound) ?ys) = drop (Suc (Suc pos)) (take (Suc bound) xs)"
    using Suc.prems lt by (intro nth_equalityI) simp_all
  have tl: "drop (Suc pos) (take (Suc bound) xs) = xs ! Suc pos # drop (Suc (Suc pos)) (take (Suc bound) xs)"
    using Suc.prems lt by (subst Cons_nth_drop_Suc [symmetric]) simp_all
  have "for_each [Suc pos ..< bound] (\<lambda>i. swap_slots i (i + 1)) ?ys =
      Some (take (Suc pos) ?ys @ drop (Suc (Suc pos)) (take (Suc bound) ?ys) @ ?ys ! Suc pos # drop (Suc bound) ?ys)"
    using Suc.hyps(1) [OF k, of ?ys] Suc.prems lt by simp
  then show ?case using Suc.prems lt tl ys mid by (simp add: swap_slots_def upt_rec [of pos])
qed

lemma remove_at_list:
  assumes "pos < len" and "len \<le> length xs"
  shows "remove_at d pos len xs =
    Some (take pos xs @ drop (Suc pos) (take len xs) @ d # drop len xs, len - 1)"
proof -
  obtain b where len: "len = Suc b" using assms by (cases len) auto
  have "(if pos < b then for_each [pos ..< b] (\<lambda>i. swap_slots i (i + 1)) xs else Some xs) =
      Some (take pos xs @ drop (Suc pos) (take (Suc b) xs) @ xs ! pos # drop (Suc b) xs)"
    using swap_down_loop [of pos b xs] assms by (auto simp: len id_take_nth_drop [symmetric])
  then show ?thesis using assms unfolding remove_at_def len diff_Suc_1 by (simp add: list_update_append del: One_nat_def)
qed

lemma swap_out_loop:
  assumes "pivot + n \<le> length xs" and "n \<le> length ys"
  shows "for_each [pivot ..< pivot + n] (\<lambda>i. swap_across i (i - pivot)) (xs, ys) =
    Some (take pivot xs @ take n ys @ drop (pivot + n) xs, take n (drop pivot xs) @ drop n ys)"
  using assms
proof (induction n)
  case (Suc n)
  then have "drop (pivot + n) xs = xs ! (pivot + n) # drop (Suc (pivot + n)) xs" "drop n ys = ys ! n # drop (Suc n) ys"
    by (simp_all add: Cons_nth_drop_Suc)
  then show ?case using Suc
    by (simp add: for_each_append swap_across_def list_update_append nth_append take_Suc_conv_app_nth) arith
qed (simp add: drop_take)

lemma split_at_pivot_list:
  assumes "pivot \<le> len" and "len \<le> length xs"
  shows "split_at_pivot d pivot len xs =
    Some (take pivot xs @ replicate (len - pivot) d @ drop len xs,
      drop pivot (take len xs) @ replicate (length xs - (len - pivot)) d)"
proof -
  obtain n where "len = pivot + n" using assms by (metis le_Suc_ex)
  then show ?thesis using swap_out_loop [of pivot n xs "slice_init d (length xs)"] assms
    by (simp add: split_at_pivot_def slice_init_def min_def take_drop add.commute)
qed

text \<open>The same with the used slots in front.\<close>

lemma insert_at_used:
  assumes "pos \<le> length us" and "rest \<noteq> []"
  shows "insert_at d item pos (length us) (us @ rest) =
    Some (take pos us @ item # drop pos us @ tl rest, Suc (length us))"
  using insert_at_list [of pos "length us" "us @ rest" d item] assms by (cases rest) simp_all

lemma remove_at_used:
  assumes "pos < length us"
  shows "remove_at d pos (length us) (us @ rest) =
    Some (take pos us @ drop (Suc pos) us @ d # rest, length us - 1)"
  using remove_at_list [of pos "length us" "us @ rest" d] assms by simp

lemma split_at_pivot_used:
  assumes "pivot \<le> length us"
  shows "split_at_pivot d pivot (length us) (us @ rest) =
    Some (take pivot us @ replicate (length us - pivot) d @ rest,
      drop pivot us @ replicate (length rest + pivot) d)"
  using split_at_pivot_list [of pivot "length us" "us @ rest" d] assms by simp

lemma insert_into_split_used:
  assumes "pos \<le> length us + length vs" and "r1 \<noteq> []" and "r2 \<noteq> []"
  shows "insert_into_split d item (us @ r1) (vs @ r2) (length us) (length vs) pos =
    Some (if pos < length us
      then (take pos us @ item # drop pos us @ tl r1, vs @ r2, Suc (length us), length vs)
      else (us @ r1, take (pos - length us) vs @ item # drop (pos - length us) vs @ tl r2, length us, Suc (length vs)))"
  using assms insert_at_used [of pos us r1 d item] insert_at_used [of "pos - length us" vs r2 d item]
  by (simp add: insert_into_split_def)

lemma take_item_split:
  assumes "pos \<le> length us" and "pivot \<le> length us"
  shows "take pos us @ item # drop pos us =
    (if pos < pivot then take pos (take pivot us) @ item # drop pos (take pivot us) @ drop pivot us
     else take pivot us @ take (pos - pivot) (drop pivot us) @ item # drop (pos - pivot) (drop pivot us))"
proof (cases "pos < pivot")
  case True
  have "drop pos us = drop pos (take pivot us @ drop pivot us)" by (simp only: append_take_drop_id)
  also have "\<dots> = drop pos (take pivot us) @ drop pivot us" using True assms by (simp only: drop_append) simp
  finally show ?thesis using True by (simp add: min_def)
next
  case False
  then show ?thesis using take_add [of pivot "pos - pivot" us] by simp
qed

lemma split_insert_used:
  assumes "pos \<le> length us" and "0 < pivot" and "pivot < length us"
  shows "\<exists>x y us1 us2 r1 r2.
    split_at_pivot d pivot (length us) (us @ rest) = Some (x, y) \<and>
    insert_into_split d item x y pivot (length us - pivot) pos = Some (us1 @ r1, us2 @ r2, length us1, length us2) \<and>
    us1 @ us2 = take pos us @ item # drop pos us \<and> us1 \<noteq> [] \<and> us2 \<noteq> [] \<and>
    length us1 = (if pos < pivot then Suc pivot else pivot) \<and>
    length us1 + length r1 = length us + length rest \<and> length us2 + length r2 = length us + length rest"
proof -
  let ?l = "take pivot us" and ?r = "drop pivot us"
  let ?r1 = "replicate (length us - pivot) d @ rest" and ?r2 = "replicate (length rest + pivot) d"
  have ne: "?r1 \<noteq> []" "?r2 \<noteq> []" "?l \<noteq> []" "?r \<noteq> []" using assms by auto
  have l: "length ?l = pivot" "length ?r = length us - pivot" using assms by simp_all
  have ins: "insert_into_split d item (?l @ ?r1) (?r @ ?r2) pivot (length us - pivot) pos =
    Some (if pos < pivot then (take pos ?l @ item # drop pos ?l @ tl ?r1, ?r @ ?r2, Suc pivot, length us - pivot)
      else (?l @ ?r1, take (pos - pivot) ?r @ item # drop (pos - pivot) ?r @ tl ?r2, pivot, Suc (length us - pivot)))"
    using insert_into_split_used [of pos ?l ?r ?r1 ?r2 d item] ne l assms by simp
  have sp: "split_at_pivot d pivot (length us) (us @ rest) = Some (?l @ ?r1, ?r @ ?r2)"
    using split_at_pivot_used [of pivot us d rest] assms by simp
  show ?thesis
  proof (cases "pos < pivot")
    case True
    let ?u = "take pos ?l @ item # drop pos ?l"
    have "insert_into_split d item (?l @ ?r1) (?r @ ?r2) pivot (length us - pivot) pos =
        Some (?u @ tl ?r1, ?r @ ?r2, length ?u, length ?r)"
      using ins True assms by simp
    moreover have "?u @ ?r = take pos us @ item # drop pos us"
      using take_item_split [of pos us pivot item] True assms(1) less_imp_le [OF assms(3)] by (simp only: if_True) simp
    moreover have "length ?u + length (tl ?r1) = length us + length rest" "length ?r + length ?r2 = length us + length rest"
      using True assms by simp_all
    moreover have "?u \<noteq> []" "length ?u = (if pos < pivot then Suc pivot else pivot)" using True assms by simp_all
    ultimately show ?thesis using sp ne(4) by blast
  next
    case False
    let ?u = "take (pos - pivot) ?r @ item # drop (pos - pivot) ?r"
    have "insert_into_split d item (?l @ ?r1) (?r @ ?r2) pivot (length us - pivot) pos =
        Some (?l @ ?r1, ?u @ tl ?r2, length ?l, length ?u)"
      using ins False assms by simp
    moreover have "?l @ ?u = take pos us @ item # drop pos us"
      using take_item_split [of pos us pivot item] False assms(1) less_imp_le [OF assms(3)] by (simp only: if_False)
    moreover have "length ?l + length ?r1 = length us + length rest" "length ?u + length (tl ?r2) = length us + length rest"
      using False assms by simp_all
    moreover have "?u \<noteq> []" "length ?l = (if pos < pivot then Suc pivot else pivot)" using False assms by simp_all
    ultimately show ?thesis using sp ne(3) by blast
  qed
qed

section \<open>Properties\<close>

text \<open>Splitting an array at a pivot and inserting an item at a position of the old array leaves in the
  used slots of the two halves, one after the other, the old items with the new one inserted. The lengths
  that are returned count the used slots and neither array grows.\<close>

theorem split_insert_equivalence:
  assumes "pos \<le> length us" and "0 < pivot" and "pivot < length us"
  shows "\<exists>x y x' y' xlen ylen.
    split_at_pivot d pivot (length us) (us @ rest) = Some (x, y) \<and>
    insert_into_split d item x y pivot (length us - pivot) pos = Some (x', y', xlen, ylen) \<and>
    take xlen x' @ take ylen y' = take pos us @ item # drop pos us \<and>
    xlen + ylen = Suc (length us) \<and> length x' = length (us @ rest) \<and> length y' = length (us @ rest)"
proof -
  obtain x y us1 us2 r1 r2 where s: "split_at_pivot d pivot (length us) (us @ rest) = Some (x, y)"
    "insert_into_split d item x y pivot (length us - pivot) pos = Some (us1 @ r1, us2 @ r2, length us1, length us2)"
    and u: "us1 @ us2 = take pos us @ item # drop pos us"
    and l: "length us1 + length r1 = length us + length rest" "length us2 + length r2 = length us + length rest"
    using split_insert_used [OF assms, of d rest item] by blast
  have "length us1 + length us2 = Suc (length us)" using arg_cong [OF u, of length] assms by simp
  then show ?thesis using s u l by simp
qed

theorem split_insert_equivalence_witness:
  "\<exists>x y x' y' xlen ylen.
    split_at_pivot (0 :: u8) 2 4 [1, 2, 3, 5] = Some (x, y) \<and>
    insert_into_split 0 4 x y 2 (4 - 2) 3 = Some (x', y', xlen, ylen) \<and>
    take xlen x' @ take ylen y' = [1, 2, 3, 4, 5] \<and>
    xlen + ylen = 5 \<and> length x' = length y'"
  using split_insert_equivalence [of 3 "[1, 2, 3, 5]" 2 "0 :: u8" "[]" 4] by (simp add: numeral_eq_Suc) metis

end
