(* ===== verification/Neb_BTree.thy ===== *)
theory Neb_BTree
  imports Neb_EntryKey Neb_Slice "HOL-Library.Monad_Syntax"
begin

text \<open>
  The concurrent B+ tree of the ranged index, \<^verbatim>\<open>src/src/index/ranged/lsm/btree\<close>: nodes, search,
  insertion and cursors. Nodes live on a heap that maps addresses to node data, as references are
  counted pointers in the code; a reference that is \<^verbatim>\<open>NodeCellRef::default()\<close> is \<open>None\<close> here and
  reads as a node without data. Keys are of any type with a linear order that has a least and a greatest
  element, as \<open>EntryKey\<close> has; the number of keys in a page is the argument \<open>cap\<close>. Latches are not
  part of the state: an operation runs alone. A panic and a search that never ends are \<open>None\<close>.
\<close>

section \<open>Nodes\<close>

type_synonym NodeCellRef = "nat option"

record 'k ExtNode =
  ext_page_id :: Id
  ext_keys :: "'k list"
  ext_next :: NodeCellRef
  ext_prev :: NodeCellRef
  ext_len :: nat
  ext_right_bound :: 'k

record 'k InNode =
  in_keys :: "'k list"
  in_ptrs :: "NodeCellRef list"
  in_len :: nat
  in_right :: NodeCellRef
  in_right_bound :: 'k

record EmptyNode =
  empty_left :: "NodeCellRef option"
  empty_right :: NodeCellRef

datatype 'k NodeData =
    External "'k ExtNode"
  | Internal "'k InNode"
  | Empty EmptyNode
  | NoneNode

definition EmptyNode_default :: EmptyNode where
  "EmptyNode_default = \<lparr>empty_left = None, empty_right = None\<rparr>"

definition ExtNode_new :: "nat \<Rightarrow> Id \<Rightarrow> 'k \<Rightarrow> ('k :: order_bot) ExtNode" where
  "ExtNode_new cap i rb =
     \<lparr>ext_page_id = i, ext_keys = slice_init bot cap, ext_next = None, ext_prev = None, ext_len = 0,
      ext_right_bound = rb\<rparr>"

definition InNode_new :: "nat \<Rightarrow> nat \<Rightarrow> 'k \<Rightarrow> ('k :: order_bot) InNode" where
  "InNode_new cap n rb =
     \<lparr>in_keys = slice_init bot cap, in_ptrs = slice_init None (cap + 1), in_len = n, in_right = None,
      in_right_bound = rb\<rparr>"

fun is_none :: "'k NodeData \<Rightarrow> bool" where
  "is_none NoneNode = True"
| "is_none _ = False"

fun is_empty :: "'k NodeData \<Rightarrow> bool option" where
  "is_empty (Empty e) = Some True"
| "is_empty (External n) = Some (ext_len n = 0)"
| "is_empty (Internal n) = Some (in_len n = 0)"
| "is_empty NoneNode = None"

fun is_empty_node :: "'k NodeData \<Rightarrow> bool" where
  "is_empty_node (Empty e) = True"
| "is_empty_node _ = False"

fun is_ext :: "'k NodeData \<Rightarrow> bool option" where
  "is_ext (External n) = Some True"
| "is_ext (Internal n) = Some False"
| "is_ext _ = None"

fun is_internal :: "'k NodeData \<Rightarrow> bool option" where
  "is_internal (Internal n) = Some True"
| "is_internal NoneNode = None"
| "is_internal _ = Some False"

fun node_len :: "'k NodeData \<Rightarrow> nat option" where
  "node_len (Internal n) = Some (in_len n)"
| "node_len (External n) = Some (ext_len n)"
| "node_len (Empty e) = Some 0"
| "node_len NoneNode = None"

text \<open>A slice of the first slots, \<^verbatim>\<open>[..len]\<close>.\<close>

definition front :: "nat \<Rightarrow> 'a list \<Rightarrow> 'a list option" where
  "front n xs = (if n \<le> length xs then Some (take n xs) else None)"

fun node_keys :: "'k NodeData \<Rightarrow> 'k list option" where
  "node_keys (External n) = front (ext_len n) (ext_keys n)"
| "node_keys (Internal n) = front (in_len n) (in_keys n)"
| "node_keys _ = None"

fun node_ptrs :: "'k NodeData \<Rightarrow> NodeCellRef list option" where
  "node_ptrs (Internal n) = front (in_len n + 1) (in_ptrs n)"
| "node_ptrs _ = None"

definition first_key :: "'k NodeData \<Rightarrow> ('k :: order_bot) option" where
  "first_key d = do {
     e \<leftarrow> is_empty d;
     if e \<and> \<not> is_empty_node d then Some bot
     else do { ks \<leftarrow> node_keys d; slot ks 0 } }"

definition last_key :: "'k NodeData \<Rightarrow> ('k :: order_bot) option" where
  "last_key d = do {
     e \<leftarrow> is_empty d;
     if e \<and> \<not> is_empty_node d then Some bot
     else do { ks \<leftarrow> node_keys d; if ks = [] then None else slot ks (length ks - 1) } }"

definition is_half_full :: "nat \<Rightarrow> 'k NodeData \<Rightarrow> bool option" where
  "is_half_full cap d =
     (if is_none d then Some True else map_option (\<lambda>l. l \<noteq> 0 \<and> cap div 2 \<le> l \<and> 1 < l) (node_len d))"

definition cannot_merge :: "nat \<Rightarrow> 'k NodeData \<Rightarrow> bool option" where
  "cannot_merge cap d = map_option (\<lambda>l. cap div 2 < l) (node_len d)"

fun left_ref :: "'k NodeData \<Rightarrow> NodeCellRef option" where
  "left_ref (External n) = Some (ext_prev n)"
| "left_ref (Empty e) = empty_left e"
| "left_ref _ = None"

fun right_ref :: "'k NodeData \<Rightarrow> NodeCellRef option" where
  "right_ref (External n) = Some (ext_next n)"
| "right_ref (Internal n) = Some (in_right n)"
| "right_ref (Empty e) = Some (empty_right e)"
| "right_ref NoneNode = None"

text \<open>\<^verbatim>\<open>*left_ref_mut() = r\<close> and \<^verbatim>\<open>*right_ref_mut() = r\<close>, where there is such a reference.\<close>

fun set_left_ref :: "NodeCellRef \<Rightarrow> 'k NodeData \<Rightarrow> 'k NodeData" where
  "set_left_ref r (External n) = External (n\<lparr>ext_prev := r\<rparr>)"
| "set_left_ref r (Empty e) = Empty (e\<lparr>empty_left := map_option (\<lambda>_. r) (empty_left e)\<rparr>)"
| "set_left_ref r d = d"

fun set_right_ref :: "NodeCellRef \<Rightarrow> 'k NodeData \<Rightarrow> 'k NodeData" where
  "set_right_ref r (External n) = External (n\<lparr>ext_next := r\<rparr>)"
| "set_right_ref r (Internal n) = Internal (n\<lparr>in_right := r\<rparr>)"
| "set_right_ref r (Empty e) = Empty (e\<lparr>empty_right := r\<rparr>)"
| "set_right_ref r NoneNode = NoneNode"

definition has_vaild_right_node :: "'k NodeData \<Rightarrow> bool" where
  "has_vaild_right_node d = (right_ref d \<noteq> None)"

fun right_bound :: "'k NodeData \<Rightarrow> 'k option" where
  "right_bound (External n) = Some (ext_right_bound n)"
| "right_bound (Internal n) = Some (in_right_bound n)"
| "right_bound _ = None"

section \<open>The tree and its heap\<close>

text \<open>The queue of pages to be written back keeps everything that was ever pushed, so the number that a
  change gets is its position.\<close>

datatype ChangingNode = Deleted Id | Modified NodeCellRef

record 'k BPlusTree =
  heap :: "nat \<Rightarrow> 'k NodeData"
  brk :: nat
  root :: NodeCellRef
  root_versioning :: NodeCellRef
  head_page_id :: Id
  tree_len :: u64
  deletion :: "'k set"
  changed :: "ChangingNode list"
  rand_ids :: "nat \<Rightarrow> Id"

definition LEVEL_M :: nat where "LEVEL_M = 8"
definition LEVEL_0 :: nat where "LEVEL_0 = LEVEL_M * LEVEL_M"
definition LEVEL_1 :: nat where "LEVEL_1 = LEVEL_0 * LEVEL_M"

fun deref :: "'k BPlusTree \<Rightarrow> NodeCellRef \<Rightarrow> 'k NodeData" where
  "deref t None = NoneNode"
| "deref t (Some a) = heap t a"

text \<open>Writing through a guard of a default reference panics.\<close>

fun store :: "NodeCellRef \<Rightarrow> 'k NodeData \<Rightarrow> 'k BPlusTree \<Rightarrow> 'k BPlusTree option" where
  "store None d t = None"
| "store (Some a) d t = Some (t\<lparr>heap := (heap t)(a := d)\<rparr>)"

definition alloc_node :: "'k NodeData \<Rightarrow> 'k BPlusTree \<Rightarrow> NodeCellRef \<times> 'k BPlusTree" where
  "alloc_node d t = (Some (brk t), t\<lparr>heap := (heap t)(brk t := d), brk := brk t + 1\<rparr>)"

text \<open>\<^verbatim>\<open>Id::rand()\<close>: the next of a stream of identifiers.\<close>

definition new_page_id :: "'k BPlusTree \<Rightarrow> Id \<times> 'k BPlusTree" where
  "new_page_id t = (rand_ids t 0, t\<lparr>rand_ids := \<lambda>n. rand_ids t (Suc n)\<rparr>)"

definition make_changed :: "nat \<Rightarrow> NodeCellRef \<Rightarrow> 'k BPlusTree \<Rightarrow> 'k BPlusTree" where
  "make_changed cap r t = (if LEVEL_M < cap then t\<lparr>changed := changed t @ [Modified r]\<rparr> else t)"

definition make_deleted :: "nat \<Rightarrow> Id \<Rightarrow> 'k BPlusTree \<Rightarrow> 'k BPlusTree" where
  "make_deleted cap i t = (if LEVEL_M < cap then t\<lparr>changed := changed t @ [Deleted i]\<rparr> else t)"

fun extnode :: "'k NodeData \<Rightarrow> 'k ExtNode option" where
  "extnode (External n) = Some n"
| "extnode _ = None"

fun innode :: "'k NodeData \<Rightarrow> 'k InNode option" where
  "innode (Internal n) = Some n"
| "innode _ = None"

fun ext_id :: "'k NodeData \<Rightarrow> Id option" where
  "ext_id (External n) = Some (ext_page_id n)"
| "ext_id (Internal n) = None"
| "ext_id _ = Some \<lparr>higher = 0, lower = 0\<rparr>"

section \<open>Search\<close>

text \<open>\<^verbatim>\<open>slice::binary_search\<close> of a sorted slice: the position of the key, or where it belongs.\<close>

definition binary_search :: "'k list \<Rightarrow> ('k :: linorder) \<Rightarrow> nat + nat" where
  "binary_search ks k =
     (let i = length (takeWhile (\<lambda>x. x < k) ks)
      in if i < length ks \<and> ks ! i = k then Inr i else Inl i)"

definition ext_search :: "('k :: linorder) ExtNode \<Rightarrow> 'k \<Rightarrow> nat option" where
  "ext_search n k = do {
     ks \<leftarrow> front (ext_len n) (ext_keys n);
     Some (case binary_search ks k of Inr i \<Rightarrow> i | Inl i \<Rightarrow> i) }"

definition in_search :: "('k :: linorder) InNode \<Rightarrow> 'k \<Rightarrow> nat option" where
  "in_search n k = do {
     ks \<leftarrow> front (in_len n) (in_keys n);
     Some (case binary_search ks k of Inr i \<Rightarrow> i + 1 | Inl i \<Rightarrow> i) }"

fun node_search :: "('k :: linorder) NodeData \<Rightarrow> 'k \<Rightarrow> nat option" where
  "node_search (Internal n) k = in_search n k"
| "node_search (External n) k = ext_search n k"
| "node_search _ k = Some 0"

text \<open>The outer \<open>None\<close> is a panic, the inner one says that the key is not to the right.\<close>

definition key_at_right_node ::
  "('k :: {linorder, order_bot}) BPlusTree \<Rightarrow> 'k NodeData \<Rightarrow> 'k \<Rightarrow> NodeCellRef option option" where
  "key_at_right_node t d k = do {
     e \<leftarrow> is_empty d;
     l \<leftarrow> node_len d;
     beyond \<leftarrow> (if e then Some True else if 0 < l then map_option (\<lambda>b. b \<le> k) (right_bound d) else Some False);
     if \<not> beyond then Some None
     else do {
       r \<leftarrow> right_ref d;
       (let rd = deref t r
        in if is_none rd then Some None
           else if e then Some (Some r)
           else do {
             rl \<leftarrow> node_len rd;
             (if 0 < rl then map_option (\<lambda>fk. if fk \<le> k then Some r else None) (first_key rd)
              else Some None) }) } }"

partial_function (option) write_targeted ::
  "('k :: linorder) BPlusTree \<Rightarrow> NodeCellRef \<Rightarrow> 'k \<Rightarrow> NodeCellRef option" where
  "write_targeted t r k = do {
     e \<leftarrow> is_empty (deref t r);
     go \<leftarrow> (if e then Some True else map_option (\<lambda>b. b \<le> k) (right_bound (deref t r)));
     if \<not> go then Some r
     else do {
       r' \<leftarrow> right_ref (deref t r);
       if r' = None then Some r
       else if r' = r then None
       else write_targeted t r' k } }"

datatype MutSearchResult = MutExternal | MutInternal NodeCellRef

partial_function (option) mut_search ::
  "('k :: linorder) BPlusTree \<Rightarrow> NodeCellRef \<Rightarrow> 'k \<Rightarrow> MutSearchResult option" where
  "mut_search t r k =
     (case deref t r of
        Internal n \<Rightarrow> do { pos \<leftarrow> in_search n k; sub \<leftarrow> slot (in_ptrs n) pos; Some (MutInternal sub) }
      | External n \<Rightarrow> Some MutExternal
      | Empty e \<Rightarrow> mut_search t (empty_right e) k
      | NoneNode \<Rightarrow> None)"

partial_function (option) mut_first ::
  "'k BPlusTree \<Rightarrow> NodeCellRef \<Rightarrow> MutSearchResult option" where
  "mut_first t r =
     (case deref t r of
        Internal n \<Rightarrow> do { sub \<leftarrow> slot (in_ptrs n) 0; Some (MutInternal sub) }
      | External n \<Rightarrow> Some MutExternal
      | Empty e \<Rightarrow> mut_first t (empty_right e)
      | NoneNode \<Rightarrow> None)"

section \<open>Cursors\<close>

datatype Ordering = Forward | Backward

record 'k RTCursor =
  cur_index :: nat
  cur_ordering :: Ordering
  cur_page :: "NodeCellRef option"
  cur_current :: "'k option"

definition read_current :: "'k BPlusTree \<Rightarrow> NodeCellRef \<Rightarrow> nat \<Rightarrow> 'k option option" where
  "read_current t r pos =
     (if is_empty_node (deref t r) then Some None
      else do { n \<leftarrow> extnode (deref t r); k \<leftarrow> slot (ext_keys n) pos; Some (Some k) })"

text \<open>Moving on to the page \<open>r\<close>. At the end of the chain the cursor loses its current key and answers
  nothing, on another page it answers the key it was at. A page without keys makes the loop of
  \<^verbatim>\<open>next_candidate\<close> start again where it was.\<close>

datatype 'k CursorMove = Again | Answer "'k option" "'k RTCursor"

definition move_page ::
  "'k BPlusTree \<Rightarrow> NodeCellRef \<Rightarrow> 'k RTCursor \<Rightarrow> 'k CursorMove option" where
  "move_page t r c =
     (let d = deref t r
      in if is_none d then Some (Answer None (c\<lparr>cur_page := None, cur_current := None\<rparr>))
         else do {
           e \<leftarrow> is_empty d;
           if e then Some Again
           else do {
             x \<leftarrow> is_ext d;
             if \<not> x then None
             else do {
               l \<leftarrow> node_len d;
               (let i = (case cur_ordering c of Forward \<Rightarrow> 0 | Backward \<Rightarrow> l - 1)
                in do {
                  k \<leftarrow> read_current t r i;
                  Some (Answer (cur_current c) (c\<lparr>cur_index := i, cur_page := Some r, cur_current := k\<rparr>)) }) } } })"

definition cursor_step :: "'k BPlusTree \<Rightarrow> 'k RTCursor \<Rightarrow> 'k CursorMove option" where
  "cursor_step t c =
     (case cur_page c of
        None \<Rightarrow> Some (Answer None c)
      | Some p \<Rightarrow> do {
          e \<leftarrow> is_empty (deref t p);
          l \<leftarrow> node_len (deref t p);
          (case cur_ordering c of
             Forward \<Rightarrow>
               if e \<or> l \<le> cur_index c + 1
               then do { r \<leftarrow> right_ref (deref t p); move_page t r c }
               else do {
                 k \<leftarrow> read_current t p (cur_index c + 1);
                 Some (Answer (cur_current c) (c\<lparr>cur_index := cur_index c + 1, cur_current := k\<rparr>)) }
           | Backward \<Rightarrow>
               if e \<or> cur_index c = 0
               then do { r \<leftarrow> left_ref (deref t p); move_page t r c }
               else do {
                 k \<leftarrow> read_current t p (cur_index c - 1);
                 Some (Answer (cur_current c) (c\<lparr>cur_index := cur_index c - 1, cur_current := k\<rparr>)) }) })"

partial_function (option) next_candidate ::
  "'k BPlusTree \<Rightarrow> 'k RTCursor \<Rightarrow> ('k option \<times> 'k RTCursor) option" where
  "next_candidate t c = do {
     m \<leftarrow> cursor_step t c;
     (case m of Answer k c' \<Rightarrow> Some (k, c') | Again \<Rightarrow> next_candidate t c) }"

definition cursor_next ::
  "'k BPlusTree \<Rightarrow> 'k RTCursor \<Rightarrow> ('k option \<times> 'k RTCursor) option" where
  "cursor_next t c = next_candidate t c"

definition RTCursor_new ::
  "'k BPlusTree \<Rightarrow> nat \<Rightarrow> NodeCellRef \<Rightarrow> Ordering \<Rightarrow> 'k RTCursor option" where
  "RTCursor_new t pos p ord =
     (let c = \<lparr>cur_index = pos, cur_ordering = ord, cur_page = Some p, cur_current = None\<rparr>
      in do {
        l \<leftarrow> node_len (deref t p);
        if ord = Forward \<and> l \<le> pos then map_option snd (cursor_next t c)
        else map_option (\<lambda>k. c\<lparr>cur_current := k\<rparr>) (read_current t p pos) })"

definition correct_backward :: "('k :: linorder) ExtNode \<Rightarrow> 'k \<Rightarrow> nat \<Rightarrow> nat option" where
  "correct_backward n k pos =
     (if pos = 0 then Some 0
      else if ext_len n \<le> pos then Some (pos - 1)
      else map_option (\<lambda>x. if x \<noteq> k then pos - 1 else pos) (slot (ext_keys n) pos))"

partial_function (option) search_node ::
  "('k :: {linorder, order_bot}) BPlusTree \<Rightarrow> NodeCellRef \<Rightarrow> 'k \<Rightarrow> Ordering \<Rightarrow> 'k RTCursor option" where
  "search_node t r k ord = do {
     right \<leftarrow> key_at_right_node t (deref t r) k;
     (case right of
        Some r' \<Rightarrow> search_node t r' k ord
      | None \<Rightarrow> do {
          pos \<leftarrow> node_search (deref t r) k;
          (case deref t r of
             External n \<Rightarrow> do {
               pos' \<leftarrow> (if ord = Backward then correct_backward n k pos else Some pos);
               RTCursor_new t pos' r ord }
           | Internal n \<Rightarrow> do { sub \<leftarrow> slot (in_ptrs n) pos; search_node t sub k ord }
           | Empty e \<Rightarrow> search_node t (empty_right e) k ord
           | NoneNode \<Rightarrow> Some \<lparr>cur_index = 0, cur_ordering = ord, cur_page = None, cur_current = None\<rparr>) }) }"

definition seek :: "('k :: {linorder, order_bot}) BPlusTree \<Rightarrow> 'k \<Rightarrow> Ordering \<Rightarrow> 'k RTCursor option" where
  "seek t k ord = search_node t (root t) k ord"

section \<open>Insertion\<close>

record 'k NodeSplit =
  new_right_node :: NodeCellRef
  left_node_latch :: NodeCellRef
  split_pivot :: 'k
  parent_latch :: NodeCellRef

text \<open>\<^verbatim>\<open>ExtNode::split_insert\<close> of the page at \<open>self_ref\<close>. The page after it is latched by the
  caller and gets the new page as its previous one.\<close>

definition ext_split_insert ::
  "nat \<Rightarrow> 'k \<Rightarrow> nat \<Rightarrow> NodeCellRef \<Rightarrow> ('k :: {linorder, order_bot}) BPlusTree \<Rightarrow> ((NodeCellRef \<times> 'k) \<times> 'k BPlusTree) option" where
  "ext_split_insert cap k pos self_ref t = do {
     n \<leftarrow> extnode (deref t self_ref);
     (let pivot = ext_len n div 2; (page_id, t) = new_page_id t
      in do {
        (keys_1, keys_2) \<leftarrow> split_at_pivot bot pivot (ext_len n) (ext_keys n);
        (keys_1, keys_2, keys_1_len, keys_2_len) \<leftarrow>
          insert_into_split bot k keys_1 keys_2 pivot (ext_len n - pivot) pos;
        pivot_key \<leftarrow> slot keys_2 0;
        (let extnode_2 = \<lparr>ext_page_id = page_id, ext_keys = keys_2, ext_next = ext_next n, ext_prev = self_ref,
               ext_len = keys_2_len, ext_right_bound = ext_right_bound n\<rparr>;
             (node_2, t) = alloc_node (External extnode_2) t
         in do {
           t \<leftarrow> (case ext_next n of
                 None \<Rightarrow> Some t
               | Some nx \<Rightarrow> do {
                   m \<leftarrow> extnode (deref t (Some nx));
                   store (Some nx) (External (m\<lparr>ext_prev := node_2\<rparr>)) (make_changed cap (Some nx) t) });
           t \<leftarrow> store self_ref (External (n\<lparr>ext_keys := keys_1, ext_len := keys_1_len,
                 ext_right_bound := pivot_key, ext_next := node_2\<rparr>)) t;
           Some ((node_2, pivot_key), make_changed cap node_2 t) }) }) }"

text \<open>\<^verbatim>\<open>ExtNode::insert\<close>: nothing if the key is there already, else the split, if there was one.\<close>

definition ext_insert ::
  "nat \<Rightarrow> 'k \<Rightarrow> NodeCellRef \<Rightarrow> NodeCellRef \<Rightarrow> ('k :: {linorder, order_bot}) BPlusTree \<Rightarrow>
   ('k NodeSplit option option \<times> 'k BPlusTree) option" where
  "ext_insert cap k self_ref parent t = do {
     n \<leftarrow> extnode (deref t self_ref);
     pos \<leftarrow> ext_search n k;
     if pos < ext_len n \<and> ext_keys n ! pos = k then Some (None, t)
     else if ext_len n = cap then do {
       ((node_2, pivot_key), t) \<leftarrow> ext_split_insert cap k pos self_ref t;
       Some (Some (Some \<lparr>new_right_node = node_2, left_node_latch = None, split_pivot = pivot_key,
         parent_latch = parent\<rparr>), t) }
     else do {
       (ks, l) \<leftarrow> insert_at bot k pos (ext_len n) (ext_keys n);
       t \<leftarrow> store self_ref (External (n\<lparr>ext_keys := ks, ext_len := l\<rparr>)) t;
       Some (Some None, t) } }"

text \<open>\<^verbatim>\<open>InNode::split_insert\<close>: the keys and the pointers are split apart, the middle key goes up.\<close>

definition in_split_keys ::
  "('k :: order_bot) InNode \<Rightarrow> 'k \<Rightarrow> nat \<Rightarrow> nat \<Rightarrow> ('k list \<times> 'k list \<times> nat \<times> nat \<times> 'k) option" where
  "in_split_keys n k pos pivot =
     (if pivot = pos then do {
        (keys_1, keys_2) \<leftarrow> split_at_pivot bot pivot (in_len n) (in_keys n);
        Some (keys_1, keys_2, pivot, in_len n - pivot, k) }
      else do {
        (keys_1, keys_2) \<leftarrow> split_at_pivot bot (pivot + 1) (in_len n) (in_keys n);
        pivot_key \<leftarrow> slot keys_1 pivot;
        (keys_1, keys_2, keys_1_len, keys_2_len) \<leftarrow>
          insert_into_split bot k keys_1 keys_2 pivot (in_len n - pivot - 1) (if pivot < pos then pos - 1 else pos);
        Some (keys_1, keys_2, keys_1_len, keys_2_len, pivot_key) })"

definition in_split_ptrs ::
  "'k InNode \<Rightarrow> NodeCellRef \<Rightarrow> nat \<Rightarrow> nat \<Rightarrow> bool \<Rightarrow> (NodeCellRef list \<times> NodeCellRef list) option" where
  "in_split_ptrs n new_node pos pivot padding = do {
     (ptrs_1, ptrs_2) \<leftarrow> split_at_pivot None (pivot + 1) (in_len n + 1) (in_ptrs n);
     if pivot = pos then do {
       (ptrs_2, _) \<leftarrow> insert_at None new_node 0 (in_len n + 1 - pivot - 1) ptrs_2;
       Some (ptrs_1, ptrs_2) }
     else do {
       (ptrs_1, ptrs_2, _, _) \<leftarrow> insert_into_split None new_node ptrs_1 ptrs_2 (pivot + 1)
         (in_len n + 1 - pivot - 1) (pos + (if padding then 1 else 0));
       Some (ptrs_1, ptrs_2) } }"

definition in_split_insert ::
  "'k \<Rightarrow> NodeCellRef \<Rightarrow> nat \<Rightarrow> bool \<Rightarrow> NodeCellRef \<Rightarrow> ('k :: order_bot) BPlusTree \<Rightarrow>
   ((NodeCellRef \<times> 'k) \<times> 'k BPlusTree) option" where
  "in_split_insert k new_node pos padding self_ref t = do {
     n \<leftarrow> innode (deref t self_ref);
     (let pivot = in_len n div 2
      in do {
        (keys_1, keys_2, keys_1_len, keys_2_len, pivot_key) \<leftarrow> in_split_keys n k pos pivot;
        (ptrs_1, ptrs_2) \<leftarrow> in_split_ptrs n new_node pos pivot padding;
        (let (node_2, t) = alloc_node (Internal \<lparr>in_keys = keys_2, in_ptrs = ptrs_2, in_len = keys_2_len,
               in_right = in_right n, in_right_bound = in_right_bound n\<rparr>) t
         in do {
           t \<leftarrow> store self_ref (Internal \<lparr>in_keys = keys_1, in_ptrs = ptrs_1, in_len = keys_1_len,
                 in_right = node_2, in_right_bound = pivot_key\<rparr>) t;
           Some ((node_2, pivot_key), t) }) }) }"

definition in_insert_in_place ::
  "'k \<Rightarrow> NodeCellRef \<Rightarrow> nat \<Rightarrow> bool \<Rightarrow> NodeCellRef \<Rightarrow> ('k :: order_bot) BPlusTree \<Rightarrow> 'k BPlusTree option" where
  "in_insert_in_place k new_node pos padding self_ref t = do {
     n \<leftarrow> innode (deref t self_ref);
     (ks, l) \<leftarrow> insert_at bot k pos (in_len n) (in_keys n);
     (ps, _) \<leftarrow> insert_at None new_node (pos + (if padding then 1 else 0)) (in_len n + 1) (in_ptrs n);
     store self_ref (Internal (n\<lparr>in_keys := ks, in_ptrs := ps, in_len := l\<rparr>)) t }"

definition in_insert ::
  "nat \<Rightarrow> 'k \<Rightarrow> NodeCellRef \<Rightarrow> NodeCellRef \<Rightarrow> NodeCellRef \<Rightarrow> ('k :: {linorder, order_bot}) BPlusTree \<Rightarrow>
   ('k NodeSplit option \<times> 'k BPlusTree) option" where
  "in_insert cap k new_node parent self_ref t = do {
     n \<leftarrow> innode (deref t self_ref);
     pos \<leftarrow> in_search n k;
     if in_len n = cap then do {
       ((node_2, pivot_key), t) \<leftarrow> in_split_insert k new_node pos True self_ref t;
       Some (Some \<lparr>new_right_node = node_2, left_node_latch = None, split_pivot = pivot_key,
         parent_latch = parent\<rparr>, t) }
     else do {
       t \<leftarrow> in_insert_in_place k new_node pos True self_ref t;
       Some (None, t) } }"

definition insert_internal_tree_node ::
  "nat \<Rightarrow> 'k NodeSplit option \<Rightarrow> NodeCellRef \<Rightarrow> ('k :: {linorder, order_bot}) BPlusTree \<Rightarrow>
   ('k NodeSplit option \<times> 'k BPlusTree) option" where
  "insert_internal_tree_node cap split_res parent t =
     (case split_res of
        None \<Rightarrow> Some (None, t)
      | Some split \<Rightarrow> do {
          target \<leftarrow> write_targeted t (parent_latch split) (split_pivot split);
          (res, t) \<leftarrow> in_insert cap (split_pivot split) (new_right_node split) parent target t;
          Some (map_option (\<lambda>s. s\<lparr>left_node_latch := target\<rparr>) res, t) })"

definition insert_external_tree_node ::
  "nat \<Rightarrow> NodeCellRef \<Rightarrow> NodeCellRef \<Rightarrow> 'k \<Rightarrow> ('k :: {linorder, order_bot}) BPlusTree \<Rightarrow>
   ('k NodeSplit option option \<times> 'k BPlusTree) option" where
  "insert_external_tree_node cap node_ref parent k t = do {
     target \<leftarrow> write_targeted t node_ref k;
     (res, t) \<leftarrow> ext_insert cap k target parent (make_changed cap target t);
     (case res of
        None \<Rightarrow> Some (None, t)
      | Some None \<Rightarrow> Some (Some None, make_changed cap node_ref t)
      | Some (Some split) \<Rightarrow>
          Some (Some (Some (split\<lparr>left_node_latch := target\<rparr>)),
            make_changed cap (new_right_node split) (make_changed cap node_ref t))) }"

text \<open>\<^verbatim>\<open>check_root_modification\<close> always answers nothing; it may insert a node when the root has been
  split meanwhile.\<close>

definition check_root_modification ::
  "nat \<Rightarrow> 'k NodeSplit option \<Rightarrow> NodeCellRef \<Rightarrow> ('k :: {linorder, order_bot}) BPlusTree \<Rightarrow> 'k BPlusTree option" where
  "check_root_modification cap modification parent t =
     (case modification of
        None \<Rightarrow> Some t
      | Some split \<Rightarrow> do {
          rk \<leftarrow> first_key (deref t (root t));
          lk \<leftarrow> first_key (deref t (left_node_latch split));
          if rk \<noteq> lk \<and> has_vaild_right_node (deref t (left_node_latch split)) then do {
            target \<leftarrow> write_targeted t (root t) (split_pivot split);
            x \<leftarrow> is_ext (deref t target);
            if x then None
            else map_option snd (in_insert cap (split_pivot split) (new_right_node split) parent target t) }
          else Some t })"

partial_function (option) insert_to_tree_node ::
  "nat \<Rightarrow> NodeCellRef \<Rightarrow> NodeCellRef \<Rightarrow> 'k \<Rightarrow> nat \<Rightarrow> ('k :: {linorder, order_bot}) BPlusTree \<Rightarrow>
   ('k NodeSplit option option \<times> 'k BPlusTree) option" where
  "insert_to_tree_node cap node_ref parent k level t = do {
     s \<leftarrow> mut_search t node_ref k;
     (modification, t) \<leftarrow>
       (case s of
          MutExternal \<Rightarrow> insert_external_tree_node cap node_ref parent k t
        | MutInternal sub \<Rightarrow> do {
            (res, t) \<leftarrow> insert_to_tree_node cap sub node_ref k (level + 1) t;
            (case res of
               None \<Rightarrow> Some (None, t)
             | Some split_res \<Rightarrow> do {
                 (m, t) \<leftarrow> insert_internal_tree_node cap split_res parent t;
                 Some (Some m, t) }) });
     (case modification of
        None \<Rightarrow> Some (None, t)
      | Some m \<Rightarrow>
          if level = 0 then map_option (\<lambda>t. (Some m, t)) (check_root_modification cap m parent t)
          else Some (Some m, t)) }"

definition BPlusTree_new :: "nat \<Rightarrow> 'k set \<Rightarrow> (nat \<Rightarrow> Id) \<Rightarrow> ('k :: {order_bot, order_top}) BPlusTree" where
  "BPlusTree_new cap del ids =
     (let t = \<lparr>heap = \<lambda>_. NoneNode, brk = 2, root = Some 0, root_versioning = Some 1,
            head_page_id = \<lparr>higher = 0, lower = 0\<rparr>, tree_len = 0, deletion = del, changed = [], rand_ids = ids\<rparr>;
          (root_id, t) = new_page_id t;
          (r, t) = alloc_node (External (ExtNode_new cap root_id top)) t
      in t\<lparr>root := r, head_page_id := root_id\<rparr>)"

definition btree_insert ::
  "nat \<Rightarrow> 'k \<Rightarrow> ('k :: {linorder, order_bot, order_top}) BPlusTree \<Rightarrow> (bool \<times> 'k BPlusTree) option" where
  "btree_insert cap k t = do {
     (res, t) \<leftarrow> insert_to_tree_node cap (root t) (root_versioning t) k 0 t;
     (case res of
        None \<Rightarrow> Some (False, t)
      | Some None \<Rightarrow> Some (True, t\<lparr>tree_len := tree_len t + 1\<rparr>)
      | Some (Some split) \<Rightarrow> do {
          ks \<leftarrow> set_slot 0 (split_pivot split) (in_keys (InNode_new cap 1 (top :: 'k)));
          ps \<leftarrow> set_slot 0 (root t) (in_ptrs (InNode_new cap 1 (top :: 'k)));
          ps \<leftarrow> set_slot 1 (new_right_node split) ps;
          (let (r, t) = alloc_node (Internal ((InNode_new cap 1 top)\<lparr>in_keys := ks, in_ptrs := ps\<rparr>)) t
           in Some (True, t\<lparr>root := r, tree_len := tree_len t + 1\<rparr>)) }) }"

end
