(* ===== verification/Neb_BTree_Inv.thy ===== *)
theory Neb_BTree_Inv
  imports Neb_BTree
begin

text \<open>
  The invariant of the B+ tree and its keeping by insertion. A tree on the heap is described by a value of
  the type \<open>gtree\<close>, which has the addresses of the nodes, the keys of the pages and the separators of
  the inner nodes; \<open>bt\<close> says that the heap holds such a tree: nodes are not over-full, keys are in
  order and inside the bounds of their page, and at every level each node points to its right neighbour.
\<close>

section \<open>Trees of addresses\<close>

datatype 'k gtree =
    GLeaf nat "'k list"
  | GNode nat "('k gtree \<times> 'k) list" "'k gtree"

fun gaddr :: "'k gtree \<Rightarrow> nat" where
  "gaddr (GLeaf a ks) = a"
| "gaddr (GNode a ps t) = a"

definition first_child :: "('k gtree \<times> 'k) list \<Rightarrow> 'k gtree \<Rightarrow> 'k gtree" where
  "first_child ps t = (case ps of [] \<Rightarrow> t | p # _ \<Rightarrow> fst p)"

lemma first_child_simps [simp]:
  "first_child [] t = t" "first_child (p # ps) t = fst p"
  by (simp_all add: first_child_def)

text \<open>The addresses on the leftmost path.\<close>

fun spine :: "'k gtree \<Rightarrow> nat list" where
  "spine (GLeaf a ks) = [a]"
| "spine (GNode a [] t) = a # spine t"
| "spine (GNode a ((u, k) # ps) t) = a # spine u"

lemma spine_GNode: "spine (GNode a ps t) = a # spine (first_child ps t)"
  by (cases ps) auto

lemma spine_not_Nil [simp]: "spine t \<noteq> []"
  by (cases t) (simp_all add: spine_GNode)

lemma hd_spine [simp]: "hd (spine t) = gaddr t"
  by (cases t) (simp_all add: spine_GNode)

fun gkeys :: "'k gtree \<Rightarrow> 'k list" and gkeys_list :: "('k gtree \<times> 'k) list \<Rightarrow> 'k list" where
  "gkeys (GLeaf a ks) = ks"
| "gkeys (GNode a ps t) = gkeys_list ps @ gkeys t"
| "gkeys_list [] = []"
| "gkeys_list ((t, k) # ps) = gkeys t @ gkeys_list ps"

fun gaddrs :: "'k gtree \<Rightarrow> nat list" and gaddrs_list :: "('k gtree \<times> 'k) list \<Rightarrow> nat list" where
  "gaddrs (GLeaf a ks) = [a]"
| "gaddrs (GNode a ps t) = a # gaddrs_list ps @ gaddrs t"
| "gaddrs_list [] = []"
| "gaddrs_list ((t, k) # ps) = gaddrs t @ gaddrs_list ps"

lemma gkeys_list_append [simp]: "gkeys_list (ps @ qs) = gkeys_list ps @ gkeys_list qs"
  by (induction ps) auto

lemma gaddrs_list_append [simp]: "gaddrs_list (ps @ qs) = gaddrs_list ps @ gaddrs_list qs"
  by (induction ps) auto

lemma gaddr_in_gaddrs [simp]: "gaddr t \<in> set (gaddrs t)"
  by (cases t) auto

definition child_refs :: "('k gtree \<times> 'k) list \<Rightarrow> 'k gtree \<Rightarrow> NodeCellRef list" where
  "child_refs ps t = map (Some \<circ> gaddr \<circ> fst) ps @ [Some (gaddr t)]"

text \<open>The pages from left to right.\<close>

fun gleaves :: "'k gtree \<Rightarrow> (nat \<times> 'k list) list" and gleaves_list :: "('k gtree \<times> 'k) list \<Rightarrow> (nat \<times> 'k list) list" where
  "gleaves (GLeaf a ks) = [(a, ks)]"
| "gleaves (GNode a ps t) = gleaves_list ps @ gleaves t"
| "gleaves_list [] = []"
| "gleaves_list ((t, k) # ps) = gleaves t @ gleaves_list ps"

lemma gleaves_list_append [simp]: "gleaves_list (ps @ qs) = gleaves_list ps @ gleaves_list qs"
  by (induction ps) auto

lemma gleaves_not_Nil [simp]: "gleaves t \<noteq> []"
  by (induction t) auto

lemma keys_gleaves:
  fixes t :: "'k gtree" and ps :: "('k gtree \<times> 'k) list"
  shows "concat (map snd (gleaves t)) = gkeys t" "concat (map snd (gleaves_list ps)) = gkeys_list ps"
  by (induction t and ps rule: gleaves_gleaves_list.induct) auto

lemma hd_gleaves: "fst (hd (gleaves t)) = last (spine t)"
proof (induction t rule: measure_induct_rule [of size])
  case (less t)
  show ?case
  proof (cases t)
    case (GNode a ps u)
    show ?thesis
    proof (cases ps)
      case Nil
      then show ?thesis using less [of u] by (simp add: GNode)
    next
      case (Cons p qs)
      then show ?thesis using less [of "fst p"] by (cases p) (simp add: GNode)
    qed
  qed simp
qed

lemma first_child_leaf: "fst (hd (gleaves_list ps @ gleaves t)) = last (spine (first_child ps t))"
  using hd_gleaves by (cases ps rule: gleaves_list.cases) auto

lemma leaf_addrs_sub:
  fixes t :: "'k gtree" and ps :: "('k gtree \<times> 'k) list"
  shows "fst ` set (gleaves t) \<subseteq> set (gaddrs t)" "fst ` set (gleaves_list ps) \<subseteq> set (gaddrs_list ps)"
  by (induction t and ps rule: gleaves_gleaves_list.induct) auto

lemma distinct_leaf_addrs:
  fixes t :: "'k gtree" and ps :: "('k gtree \<times> 'k) list"
  shows "distinct (gaddrs t) \<Longrightarrow> distinct (map fst (gleaves t))" "distinct (gaddrs_list ps) \<Longrightarrow> distinct (map fst (gleaves_list ps))"
proof (induction t and ps rule: gleaves_gleaves_list.induct)
  case (2 a ps t)
  then show ?case using leaf_addrs_sub(1) [of t] leaf_addrs_sub(2) [of ps] by auto
next
  case (4 t k ps)
  then show ?case using leaf_addrs_sub(1) [of t] leaf_addrs_sub(2) [of ps] by auto
qed auto

abbreviation leaf_addrs :: "'k gtree \<Rightarrow> nat list" where
  "leaf_addrs t \<equiv> map fst (gleaves t)"

text \<open>The references of pages to the one before.\<close>

definition page_prev :: "(nat \<Rightarrow> 'k NodeData) \<Rightarrow> nat \<Rightarrow> NodeCellRef" where
  "page_prev h a = (case h a of External n \<Rightarrow> ext_prev n | _ \<Rightarrow> None)"

fun prev_chain :: "(nat \<Rightarrow> 'k NodeData) \<Rightarrow> NodeCellRef \<Rightarrow> nat list \<Rightarrow> bool" where
  "prev_chain h p [] = True"
| "prev_chain h p (a # as) = (page_prev h a = p \<and> prev_chain h (Some a) as)"

lemma prev_chain_append:
  "prev_chain h p (as @ bs) \<longleftrightarrow> prev_chain h p as \<and> prev_chain h (if as = [] then p else Some (last as)) bs"
  by (induction as arbitrary: p) auto

lemma prev_chain_cong: "\<forall>a \<in> set as. page_prev h a = page_prev h' a \<Longrightarrow> prev_chain h p as = prev_chain h' p as"
  by (induction as arbitrary: p) auto

text \<open>The chain of previous pages is kept, and the page after the last of \<open>as\<close> follows the last of \<open>bs\<close>.\<close>

definition prev_post :: "(nat \<Rightarrow> 'k NodeData) \<Rightarrow> (nat \<Rightarrow> 'k NodeData) \<Rightarrow> NodeCellRef list \<Rightarrow> nat list \<Rightarrow> nat list \<Rightarrow> bool" where
  "prev_post h h' rs as bs \<longleftrightarrow> (\<forall>p. prev_chain h p as \<longrightarrow> prev_chain h' p bs) \<and>
     (\<forall>x. last rs = Some x \<longrightarrow> page_prev h x = Some (last as) \<longrightarrow> page_prev h' x = Some (last bs))"

lemma prev_post_heap:
  assumes "prev_post h h1 rs as bs" and "\<forall>x. x \<in> set bs \<or> last rs = Some x \<longrightarrow> page_prev h2 x = page_prev h1 x"
  shows "prev_post h h2 rs as bs"
  using assms prev_chain_cong [of bs h1 h2] by (auto simp: prev_post_def)

section \<open>Trees on the heap\<close>

definition is_page :: "nat \<Rightarrow> 'k list \<Rightarrow> NodeCellRef \<Rightarrow> 'k \<Rightarrow> 'k NodeData \<Rightarrow> bool" where
  "is_page cap ks r b d =
     (\<exists>n rest. d = External n \<and> ext_keys n = ks @ rest \<and> ext_len n = length ks \<and> length ks + length rest = cap \<and>
        ext_next n = r \<and> ext_right_bound n = b)"

definition is_inner :: "nat \<Rightarrow> 'k list \<Rightarrow> NodeCellRef list \<Rightarrow> NodeCellRef \<Rightarrow> 'k \<Rightarrow> 'k NodeData \<Rightarrow> bool" where
  "is_inner cap ks rs r b d =
     (\<exists>n krest prest. d = Internal n \<and> in_keys n = ks @ krest \<and> in_ptrs n = rs @ prest \<and> in_len n = length ks \<and>
        length ks + length krest = cap \<and> length rs = Suc (length ks) \<and> length prest = length krest \<and>
        in_right n = r \<and> in_right_bound n = b)"

text \<open>\<open>bt cap h rs lo b t\<close>: the heap holds the tree \<open>t\<close>, its keys are in \<open>[lo, b)\<close>, and the
  rightmost node of each level points to the reference of \<open>rs\<close> for that level. Only a tree that is a
  single page may have no key.\<close>

function (sequential) bt :: "nat \<Rightarrow> (nat \<Rightarrow> ('k :: {linorder, order_bot}) NodeData) \<Rightarrow> NodeCellRef list \<Rightarrow> 'k \<Rightarrow> 'k \<Rightarrow> 'k gtree \<Rightarrow> bool"
  and bts :: "nat \<Rightarrow> (nat \<Rightarrow> 'k NodeData) \<Rightarrow> NodeCellRef list \<Rightarrow> 'k \<Rightarrow> 'k \<Rightarrow> ('k gtree \<times> 'k) list \<Rightarrow> 'k gtree \<Rightarrow> bool" where
  "bt cap h rs lo b (GLeaf a ks) =
     (\<exists>r. rs = [r] \<and> is_page cap ks r b (h a) \<and> sorted_wrt (<) ks \<and> (\<forall>k \<in> set ks. lo \<le> k \<and> k < b) \<and>
        (ks = [] \<longrightarrow> r = None \<and> lo = bot) \<and> lo < b)"
| "bt cap h rs lo b (GNode a ps t) =
     (\<exists>r rs'. rs = r # rs' \<and> is_inner cap (map snd ps) (child_refs ps t) r b (h a) \<and> ps \<noteq> [] \<and> bts cap h rs' lo b ps t)"
| "bts cap h rs lo b [] t = bt cap h rs lo b t"
| "bts cap h rs lo b ((u, k) # ps) t =
     (bt cap h (map Some (spine (first_child ps t))) lo k u \<and> lo < k \<and> bts cap h rs k b ps t)"
  by pat_completeness auto
termination
  by (relation "measure (case_sum (\<lambda>(_, _, _, _, _, t). 2 * size t)
      (\<lambda>(_, _, _, _, _, ps, t). 2 * (size_list (size_prod size (\<lambda>_. 0)) ps + size t) + 1))") auto

lemma bts_append:
  "bts cap h rs lo b (ps @ (u, k) # qs) t \<longleftrightarrow>
     bts cap h (map Some (spine (first_child qs t))) lo k ps u \<and> (if ps = [] then lo else snd (last ps)) < k \<and> bts cap h rs k b qs t"
proof (induction ps arbitrary: lo)
  case (Cons p ps)
  obtain v l where p: "p = (v, l)" by (cases p)
  have "first_child (ps @ (u, k) # qs) t = first_child ps u" by (cases ps) auto
  then show ?case using Cons by (auto simp: p)
qed simp

lemma bt_bounds:
  fixes h :: "nat \<Rightarrow> ('k :: {linorder, order_bot}) NodeData"
  shows "bt cap h rs lo b t \<Longrightarrow> lo < b" and "bts cap h rs lo b ps t \<Longrightarrow> lo < b \<and> (\<forall>p \<in> set ps. lo < snd p \<and> snd p < b)"
proof (induction cap h rs lo b t and cap h rs lo b ps t rule: bt_bts.induct)
  case (4 cap h rs lo b u k ps t)
  then have "lo < k" "k < b" "\<forall>p \<in> set ps. k < snd p \<and> snd p < b" by auto
  then show ?case by (auto intro: less_trans)
qed auto

lemma bt_keys:
  fixes h :: "nat \<Rightarrow> ('k :: {linorder, order_bot}) NodeData"
  shows "bt cap h rs lo b t \<Longrightarrow> sorted_wrt (<) (gkeys t) \<and> (\<forall>k \<in> set (gkeys t). lo \<le> k \<and> k < b)"
    and "bts cap h rs lo b ps t \<Longrightarrow> sorted_wrt (<) (gkeys_list ps @ gkeys t) \<and> (\<forall>k \<in> set (gkeys_list ps @ gkeys t). lo \<le> k \<and> k < b)"
proof (induction cap h rs lo b t and cap h rs lo b ps t rule: bt_bts.induct)
  case (4 cap h rs lo b u k ps t)
  then have u: "sorted_wrt (<) (gkeys u)" "\<forall>x \<in> set (gkeys u). lo \<le> x \<and> x < k"
    and r: "sorted_wrt (<) (gkeys_list ps @ gkeys t)" "\<forall>x \<in> set (gkeys_list ps @ gkeys t). k \<le> x \<and> x < b" and lk: "lo < k"
    by auto
  have "k < b" using 4(3) bt_bounds(2) by fastforce
  then have "\<forall>x \<in> set (gkeys u). x < b" using u(2) less_trans by blast
  moreover have "\<forall>x \<in> set (gkeys_list ps @ gkeys t). lo \<le> x" using r(2) lk by (meson dual_order.strict_implies_order order.trans)
  moreover have "\<forall>x \<in> set (gkeys u). \<forall>y \<in> set (gkeys_list ps @ gkeys t). x < y" using u(2) r(2) less_le_trans by blast
  ultimately show ?case using u r by (auto simp: sorted_wrt_append)
qed auto

lemma bt_separators: "bts cap h rs lo b ps t \<Longrightarrow> sorted_wrt (<) (map snd ps)"
proof (induction ps arbitrary: lo)
  case (Cons p ps)
  obtain u k where p: "p = (u, k)" by (cases p)
  have "bts cap h rs k b ps t" using Cons.prems by (simp add: p)
  then show ?case using Cons.IH bt_bounds(2) by (fastforce simp: p)
qed simp

text \<open>Everything but the reference to the previous page.\<close>

definition same_node :: "'k NodeData \<Rightarrow> 'k NodeData \<Rightarrow> bool" where
  "same_node d e = (d = e \<or> (\<exists>n p. d = External n \<and> e = External (n\<lparr>ext_prev := p\<rparr>)))"

lemma same_node_refl [simp]: "same_node d d"
  by (simp add: same_node_def)

lemma same_node_trans: "same_node d e \<Longrightarrow> same_node e f \<Longrightarrow> same_node d f"
  by (auto simp: same_node_def)

lemma same_node_page: "same_node d e \<Longrightarrow> is_page cap ks r b d \<Longrightarrow> is_page cap ks r b e"
  by (auto simp: same_node_def is_page_def)

lemma same_node_inner: "same_node d e \<Longrightarrow> is_inner cap ks ps r b d \<Longrightarrow> is_inner cap ks ps r b e"
  by (auto simp: same_node_def is_inner_def)

lemma bt_frame:
  fixes h :: "nat \<Rightarrow> ('k :: {linorder, order_bot}) NodeData"
  shows "bt cap h rs lo b t \<Longrightarrow> \<forall>a \<in> set (gaddrs t). same_node (h a) (h' a) \<Longrightarrow> bt cap h' rs lo b t"
    and "bts cap h rs lo b ps t \<Longrightarrow> \<forall>a \<in> set (gaddrs_list ps @ gaddrs t). same_node (h a) (h' a) \<Longrightarrow> bts cap h' rs lo b ps t"
proof (induction cap h rs lo b t and cap h rs lo b ps t rule: bt_bts.induct)
  case (1 cap h rs lo b a ks)
  then show ?case using same_node_page [of "h a" "h' a"] by auto
next
  case (2 cap h rs lo b a ps t)
  then show ?case using same_node_inner [of "h a" "h' a"] by auto
qed auto

section \<open>Search in a node\<close>

lemma binary_search_pos: "(case binary_search ks k of Inr i \<Rightarrow> i | Inl i \<Rightarrow> i) = length (takeWhile (\<lambda>x. x < k) ks)"
  by (simp add: binary_search_def Let_def)

lemma takeWhile_less_le:
  assumes "sorted_wrt (<) ks"
  shows "length (takeWhile (\<lambda>x. x \<le> k) ks) =
    (let i = length (takeWhile (\<lambda>x. x < k) ks) in if i < length ks \<and> ks ! i = (k :: 'k :: linorder) then i + 1 else i)"
  using assms
proof (induction ks)
  case (Cons x ks)
  consider "x < k" | "x = k" | "k < x" by fastforce
  then show ?case
  proof cases
    case 2
    then have "takeWhile (\<lambda>x. x \<le> k) ks = []" using Cons.prems by (cases ks) auto
    then show ?thesis using 2 by simp
  qed (use Cons in \<open>auto simp: Let_def\<close>)
qed simp

lemma ext_search_page: "is_page cap ks r b (External n) \<Longrightarrow> ext_search n k = Some (length (takeWhile (\<lambda>x. x < k) ks))"
  by (auto simp: is_page_def ext_search_def front_def binary_search_pos)

lemma in_search_inner:
  assumes "is_inner cap ks rs r b (Internal n)" and "sorted_wrt (<) ks"
  shows "in_search n k = Some (length (takeWhile (\<lambda>x. x \<le> k) ks))"
  using assms takeWhile_less_le [OF assms(2), of k]
  by (auto simp: is_inner_def in_search_def front_def binary_search_def Let_def nth_append)

text \<open>A page or an inner node that has keys and whose bound is above the key is the target itself; so is the
  last one.\<close>

lemma write_targeted_page:
  assumes "is_page cap ks rr b (deref t r)" and "ks \<noteq> [] \<and> k < b \<or> rr = None"
  shows "write_targeted t r k = Some r"
  using assms by (subst write_targeted.simps) (auto simp: is_page_def)

lemma write_targeted_inner:
  assumes "is_inner cap ks rs rr b (deref t r)" and "ks \<noteq> []" and "k < b"
  shows "write_targeted t r k = Some r"
  using assms by (subst write_targeted.simps) (auto simp: is_inner_def)

section \<open>Insertion into a page\<close>

definition ins_key :: "'k :: linorder \<Rightarrow> 'k list \<Rightarrow> 'k list" where
  "ins_key k ks = takeWhile (\<lambda>x. x < k) ks @ k # dropWhile (\<lambda>x. x < k) ks"

lemma take_drop_takeWhile:
  "take (length (takeWhile P xs)) xs = takeWhile P xs" "drop (length (takeWhile P xs)) xs = dropWhile P xs"
  by (simp_all add: takeWhile_eq_take [symmetric] dropWhile_eq_drop [symmetric])

lemma set_ins_key [simp]: "set (ins_key k ks) = insert k (set ks)"
  using set_append [of "takeWhile (\<lambda>x. x < k) ks" "dropWhile (\<lambda>x. x < k) ks"] by (auto simp: ins_key_def)

lemma length_ins_key [simp]: "length (ins_key k ks) = Suc (length ks)"
  using length_append [of "takeWhile (\<lambda>x. x < k) ks" "dropWhile (\<lambda>x. x < k) ks"] by (simp add: ins_key_def)

lemma ins_key_sorted:
  assumes "sorted_wrt (<) ks" and "k \<notin> set ks"
  shows "sorted_wrt (<) (ins_key k ks)"
  using assms
proof (induction ks)
  case (Cons x ks)
  then have ne: "x \<noteq> k" by auto
  show ?case
  proof (cases "x < k")
    case True
    then have "ins_key k (x # ks) = x # ins_key k ks" by (simp add: ins_key_def)
    then show ?thesis using Cons True by auto
  next
    case False
    then have "ins_key k (x # ks) = k # x # ks" by (simp add: ins_key_def)
    then show ?thesis using Cons.prems False ne by (auto intro: less_trans)
  qed
qed (simp add: ins_key_def)

lemma found_iff:
  assumes "sorted_wrt (<) ks"
  shows "length (takeWhile (\<lambda>x. x < k) ks) < length ks \<and> ks ! length (takeWhile (\<lambda>x. x < k) ks) = k \<longleftrightarrow> k \<in> set (ks :: 'k :: linorder list)"
  using assms
proof (induction ks)
  case (Cons x ks)
  consider "x < k" | "x = k" | "k < x" by fastforce
  then show ?case using Cons by cases auto
qed simp

definition same_tree :: "'k BPlusTree \<Rightarrow> 'k BPlusTree \<Rightarrow> bool" where
  "same_tree t t' \<longleftrightarrow> root t' = root t \<and> root_versioning t' = root_versioning t \<and> head_page_id t' = head_page_id t \<and>
     tree_len t' = tree_len t \<and> deletion t' = deletion t"

lemma same_tree_refl [simp]: "same_tree t t"
  by (simp add: same_tree_def)

lemma same_tree_trans: "same_tree t u \<Longrightarrow> same_tree u v \<Longrightarrow> same_tree t v"
  by (simp add: same_tree_def)

lemma make_changed_simps [simp]:
  "heap (make_changed cap r t) = heap t" "brk (make_changed cap r t) = brk t" "root (make_changed cap r t) = root t"
  "root_versioning (make_changed cap r t) = root_versioning t" "head_page_id (make_changed cap r t) = head_page_id t"
  "tree_len (make_changed cap r t) = tree_len t" "deletion (make_changed cap r t) = deletion t"
  "same_tree (make_changed cap r t) u = same_tree t u" "same_tree u (make_changed cap r t) = same_tree u t"
  by (simp_all add: make_changed_def same_tree_def)

lemma deref_make_changed [simp]: "deref (make_changed cap r t) x = deref t x"
  by (cases x) simp_all

lemma ext_insert_found:
  assumes "is_page cap ks r b (heap t a)" and "sorted_wrt (<) ks" and "k \<in> set ks"
  shows "ext_insert cap k (Some a) parent t = Some (None, t)"
  using assms found_iff [OF assms(2), of k] ext_search_page
  by (auto simp: ext_insert_def is_page_def nth_append ext_search_def front_def binary_search_pos)

lemma ext_insert_room:
  assumes "is_page cap ks r b (heap t a)" and "sorted_wrt (<) ks" and "k \<notin> set ks" and "length ks < cap"
  shows "\<exists>n'. ext_insert cap k (Some a) parent t = Some (Some None, t\<lparr>heap := (heap t)(a := External n')\<rparr>) \<and>
    is_page cap (ins_key k ks) r b (External n') \<and> ext_prev n' = page_prev (heap t) a"
proof -
  let ?pos = "length (takeWhile (\<lambda>x. x < k) ks)"
  obtain n rest where n: "heap t a = External n" and p: "is_page cap ks r b (External n)"
    and keys: "ext_keys n = ks @ rest" "ext_len n = length ks" and rest: "length ks + length rest = cap"
    using assms(1) by (auto simp: is_page_def)
  have "insert_at bot k ?pos (length ks) (ks @ rest) = Some (ins_key k ks @ tl rest, Suc (length ks))"
    using insert_at_used [of ?pos ks rest bot k] rest assms(4) length_takeWhile_le [of _ ks]
    by (auto simp: take_drop_takeWhile ins_key_def)
  moreover have "\<not> (?pos < length ks \<and> ks ! ?pos = k)" using found_iff assms(2,3) by blast
  moreover have "ext_search n k = Some ?pos" by (rule ext_search_page [OF p])
  ultimately show ?thesis using p n rest keys assms(4)
    by (intro exI [of _ "n\<lparr>ext_keys := ins_key k ks @ tl rest, ext_len := Suc (length ks)\<rparr>"])
      (auto simp: ext_insert_def is_page_def nth_append page_prev_def)
qed

text \<open>A full page is split; its successor, if there is one, gets the new page as its previous one.\<close>

lemma ext_split_insert_page:
  assumes "is_page cap ks r b (heap t a)" and "length ks = cap" and cap: "2 \<le> cap" and pos: "pos = length (takeWhile (\<lambda>x. x < k) ks)"
    and fresh: "a < brk t" "\<forall>x. r = Some x \<longrightarrow> x < brk t \<and> x \<noteq> a \<and> (\<exists>m. heap t x = External m)"
  shows "\<exists>t' ks1 ks2. ext_split_insert cap k pos (Some a) t = Some ((Some (brk t), hd ks2), t') \<and>
    ks1 @ ks2 = ins_key k ks \<and> ks1 \<noteq> [] \<and> ks2 \<noteq> [] \<and> brk t' = Suc (brk t) \<and> same_tree t t' \<and>
    is_page cap ks1 (Some (brk t)) (hd ks2) (heap t' a) \<and> is_page cap ks2 r b (heap t' (brk t)) \<and>
    (\<forall>x. x \<noteq> a \<longrightarrow> x \<noteq> brk t \<longrightarrow> same_node (heap t x) (heap t' x)) \<and>
    (\<forall>x. x \<noteq> a \<longrightarrow> x \<noteq> brk t \<longrightarrow> r \<noteq> Some x \<longrightarrow> heap t' x = heap t x) \<and>
    prev_post (heap t) (heap t') [r] [a] [a, brk t]"
proof -
  obtain n where n: "heap t a = External n"
    and keys: "ext_keys n = ks" "ext_len n = cap" "ext_next n = r" "ext_right_bound n = b"
    using assms(1,2) by (auto simp: is_page_def)
  have "pos \<le> length ks" "0 < cap div 2" "cap div 2 < length ks" using cap assms(2) length_takeWhile_le [of _ ks] by (auto simp: pos)
  from split_insert_used [OF this, of bot "[]" k, unfolded append_Nil2 assms(2) pos take_drop_takeWhile list.size add_0_right ins_key_def [symmetric]]
  obtain x y ks1 ks2 r1 r2 where sp: "split_at_pivot bot (cap div 2) cap ks = Some (x, y)"
      "insert_into_split bot k x y (cap div 2) (cap - cap div 2) pos = Some (ks1 @ r1, ks2 @ r2, length ks1, length ks2)"
    and i: "ks1 @ ks2 = ins_key k ks" and ne: "ks1 \<noteq> []" "ks2 \<noteq> []"
    and l: "length ks1 + length r1 = cap" "length ks2 + length r2 = cap"
    unfolding pos by blast
  have hd2: "slot (ks2 @ r2) 0 = Some (hd ks2)" using ne by (simp add: slot_def hd_conv_nth nth_append)
  let ?n2 = "External \<lparr>ext_page_id = rand_ids t 0, ext_keys = ks2 @ r2, ext_next = r, ext_prev = Some a,
      ext_len = length ks2, ext_right_bound = b\<rparr>"
  let ?n1 = "External (n\<lparr>ext_keys := ks1 @ r1, ext_len := length ks1, ext_right_bound := hd ks2, ext_next := Some (brk t)\<rparr>)"
  have "\<exists>h' t'. ext_split_insert cap k pos (Some a) t = Some ((Some (brk t), hd ks2), t') \<and> brk t' = Suc (brk t) \<and> same_tree t t' \<and>
      heap t' = h'(brk t := ?n2, a := ?n1) \<and> (\<forall>x. same_node (heap t x) (h' x)) \<and> (\<forall>x. r \<noteq> Some x \<longrightarrow> h' x = heap t x) \<and>
      (\<forall>x. r = Some x \<longrightarrow> page_prev h' x = Some (brk t))"
  proof (cases r)
    case None
    then show ?thesis using n keys sp hd2 fresh
      by (intro exI [of _ "heap t"])
        (simp add: ext_split_insert_def new_page_id_def alloc_node_def same_tree_def)
  next
    case (Some x)
    then obtain m where m: "heap t x = External m" "x < brk t" "x \<noteq> a" using fresh by auto
    let ?h = "(heap t)(x := External (m\<lparr>ext_prev := Some (brk t)\<rparr>))"
    have "\<forall>y. same_node (heap t y) (?h y)" using m by (auto simp: same_node_def)
    then show ?thesis using Some m n keys sp hd2 fresh
      by (intro exI [of _ ?h])
        (simp add: ext_split_insert_def new_page_id_def alloc_node_def same_tree_def fun_upd_twist Let_def page_prev_def)
  qed
  then obtain h' t' where t': "ext_split_insert cap k pos (Some a) t = Some ((Some (brk t), hd ks2), t')" "brk t' = Suc (brk t)"
      "same_tree t t'" "heap t' = h'(brk t := ?n2, a := ?n1)" "\<forall>x. same_node (heap t x) (h' x)" "\<forall>x. r \<noteq> Some x \<longrightarrow> h' x = heap t x"
      "\<forall>x. r = Some x \<longrightarrow> page_prev h' x = Some (brk t)" by blast
  have "is_page cap ks1 (Some (brk t)) (hd ks2) ?n1" "is_page cap ks2 r b ?n2" using l by (auto simp: is_page_def)
  then have "is_page cap ks1 (Some (brk t)) (hd ks2) (heap t' a)" "is_page cap ks2 r b (heap t' (brk t))"
    using fresh(1) by (auto simp: t'(4))
  moreover have "\<forall>x. x \<noteq> a \<longrightarrow> x \<noteq> brk t \<longrightarrow> same_node (heap t x) (heap t' x)"
    "\<forall>x. x \<noteq> a \<longrightarrow> x \<noteq> brk t \<longrightarrow> r \<noteq> Some x \<longrightarrow> heap t' x = heap t x" using t'(5,6) by (simp_all add: t'(4))
  moreover have "page_prev (heap t') a = page_prev (heap t) a" "page_prev (heap t') (brk t) = Some a"
    using n fresh(1) by (auto simp: t'(4) page_prev_def)
  moreover have "\<forall>x. r = Some x \<longrightarrow> page_prev (heap t') x = Some (brk t)" using t'(7) fresh by (auto simp: t'(4) page_prev_def)
  ultimately show ?thesis using i ne t'(1-3) unfolding prev_post_def by (intro exI conjI) (assumption | simp)+
qed

lemma ext_insert_split:
  assumes "is_page cap ks r b (heap t a)" and "sorted_wrt (<) ks" and "k \<notin> set ks" and "length ks = cap"
    and cap: "2 \<le> cap" and fresh: "a < brk t" "\<forall>x. r = Some x \<longrightarrow> x < brk t \<and> x \<noteq> a \<and> (\<exists>m. heap t x = External m)"
  shows "\<exists>s t' ks1 ks2. ext_insert cap k (Some a) parent t = Some (Some (Some s), t') \<and>
    ks1 @ ks2 = ins_key k ks \<and> ks1 \<noteq> [] \<and> ks2 \<noteq> [] \<and>
    new_right_node s = Some (brk t) \<and> split_pivot s = hd ks2 \<and> parent_latch s = parent \<and>
    brk t' = Suc (brk t) \<and> same_tree t t' \<and>
    is_page cap ks1 (Some (brk t)) (hd ks2) (heap t' a) \<and> is_page cap ks2 r b (heap t' (brk t)) \<and>
    (\<forall>x. x \<noteq> a \<longrightarrow> x \<noteq> brk t \<longrightarrow> same_node (heap t x) (heap t' x)) \<and>
    (\<forall>x. x \<noteq> a \<longrightarrow> x \<noteq> brk t \<longrightarrow> r \<noteq> Some x \<longrightarrow> heap t' x = heap t x) \<and>
    prev_post (heap t) (heap t') [r] [a] [a, brk t]"
proof -
  let ?pos = "length (takeWhile (\<lambda>x. x < k) ks)"
  obtain n where n: "heap t a = External n" and p: "is_page cap ks r b (External n)" and keys: "ext_keys n = ks" "ext_len n = cap"
    using assms(1,4) by (auto simp: is_page_def)
  have srch: "ext_search n k = Some ?pos" by (rule ext_search_page [OF p])
  have nf: "\<not> (?pos < length ks \<and> ks ! ?pos = k)" using found_iff assms(2,3) by blast
  obtain t' ks1 ks2 where t': "ext_split_insert cap k ?pos (Some a) t = Some ((Some (brk t), hd ks2), t')"
    and r: "ks1 @ ks2 = ins_key k ks" "ks1 \<noteq> []" "ks2 \<noteq> []" "brk t' = Suc (brk t)" "same_tree t t'"
      "is_page cap ks1 (Some (brk t)) (hd ks2) (heap t' a)" "is_page cap ks2 r b (heap t' (brk t))"
      "\<forall>x. x \<noteq> a \<longrightarrow> x \<noteq> brk t \<longrightarrow> same_node (heap t x) (heap t' x)"
      "\<forall>x. x \<noteq> a \<longrightarrow> x \<noteq> brk t \<longrightarrow> r \<noteq> Some x \<longrightarrow> heap t' x = heap t x" "prev_post (heap t) (heap t') [r] [a] [a, brk t]"
    using ext_split_insert_page [OF assms(1,4) cap refl fresh, of k] by blast
  have "ext_insert cap k (Some a) parent t = Some (Some (Some \<lparr>new_right_node = Some (brk t), left_node_latch = None,
      split_pivot = hd ks2, parent_latch = parent\<rparr>), t')"
    using n keys srch nf t' assms(4) by (auto simp: ext_insert_def)
  then show ?thesis using r by (intro exI conjI) (assumption | rule NodeSplit.simps)+
qed

section \<open>Insertion into an inner node\<close>

lemma in_insert_room:
  assumes i: "is_inner cap ks rs rr b (heap t a)" and "sorted_wrt (<) ks" and "length ks < cap"
    and pos: "pos = length (takeWhile (\<lambda>x. x \<le> k) ks)"
  shows "\<exists>n'. in_insert cap k c parent (Some a) t = Some (None, t\<lparr>heap := (heap t)(a := Internal n')\<rparr>) \<and>
    is_inner cap (take pos ks @ k # drop pos ks) (take (Suc pos) rs @ c # drop (Suc pos) rs) rr b (Internal n')"
proof -
  obtain n krest prest where n: "heap t a = Internal n" "in_keys n = ks @ krest" "in_ptrs n = rs @ prest" "in_len n = length ks"
      "length ks + length krest = cap" "length rs = Suc (length ks)" "length prest = length krest" "in_right n = rr" "in_right_bound n = b"
    and p: "is_inner cap ks rs rr b (Internal n)" using i by (auto simp: is_inner_def)
  have pl: "pos \<le> length ks" unfolding pos by (rule length_takeWhile_le)
  have ne: "krest \<noteq> []" "prest \<noteq> []" using n(5,7) assms(3) by auto
  have "in_search n k = Some pos" unfolding pos by (rule in_search_inner [OF p assms(2)])
  moreover have "insert_at bot k pos (length ks) (ks @ krest) = Some (take pos ks @ k # drop pos ks @ tl krest, Suc (length ks))"
    by (rule insert_at_used [OF pl ne(1)])
  moreover have "insert_at None c (Suc pos) (Suc (length ks)) (rs @ prest) =
      Some (take (Suc pos) rs @ c # drop (Suc pos) rs @ tl prest, Suc (Suc (length ks)))"
    using insert_at_used [of "Suc pos" rs prest None c] pl ne(2) n(6) by simp
  ultimately show ?thesis using n ne pl assms(3)
    by (intro exI [of _ "n\<lparr>in_keys := take pos ks @ k # drop pos ks @ tl krest,
          in_ptrs := take (Suc pos) rs @ c # drop (Suc pos) rs @ tl prest, in_len := Suc (length ks)\<rparr>"])
      (simp add: in_insert_def in_insert_in_place_def is_inner_def)
qed

lemma in_split_keys_full:
  assumes "in_keys n = ks" and "in_len n = length ks" and "pos \<le> length ks" and "0 < pivot" and "Suc pivot < length ks"
  shows "\<exists>ks1 pk ks2 r1 r2. in_split_keys n k pos pivot = Some (ks1 @ r1, ks2 @ r2, length ks1, length ks2, pk) \<and>
    ks1 @ pk # ks2 = take pos ks @ k # drop pos ks \<and> length ks1 = (if pos < pivot then Suc pivot else pivot) \<and>
    length ks1 + length r1 = length ks \<and> length ks2 + length r2 = length ks \<and> ks1 \<noteq> [] \<and> ks2 \<noteq> []"
proof (cases "pivot = pos")
  case True
  then have "in_split_keys n k pos pivot = Some (take pivot ks @ replicate (length ks - pivot) bot, drop pivot ks @ replicate pivot bot,
      length (take pivot ks), length (drop pivot ks), k)"
    using split_at_pivot_used [of pivot ks bot "[]"] assms by (simp add: in_split_keys_def)
  moreover have "take pivot ks @ k # drop pivot ks = take pos ks @ k # drop pos ks" using True by simp
  moreover have "length (take pivot ks) = (if pos < pivot then Suc pivot else pivot)" "take pivot ks \<noteq> []" "drop pivot ks \<noteq> []"
    "length (take pivot ks) + length (replicate (length ks - pivot) (bot :: 'a)) = length ks"
    "length (drop pivot ks) + length (replicate pivot (bot :: 'a)) = length ks" using True assms by auto
  ultimately show ?thesis by blast
next
  case False
  let ?u = "take pivot ks" and ?p = "ks ! pivot" and ?v = "drop (Suc pivot) ks" and ?r2 = "replicate (Suc pivot) bot"
  let ?r1 = "?p # replicate (length ks - Suc pivot) bot"
  have ks: "ks = ?u @ ?p # ?v" using assms(5) by (simp add: id_take_nth_drop [symmetric])
  have sp: "split_at_pivot bot (Suc pivot) (length ks) ks = Some (?u @ ?r1, ?v @ ?r2)"
    using split_at_pivot_used [of "Suc pivot" ks bot "[]"] assms by (simp add: take_Suc_conv_app_nth)
  have sl: "slot (?u @ ?r1) pivot = Some ?p" using assms by (simp add: slot_def nth_append)
  have ins: "insert_into_split bot k (?u @ ?r1) (?v @ ?r2) pivot (length ks - Suc pivot) kp =
    Some (if kp < pivot then (take kp ?u @ k # drop kp ?u @ tl ?r1, ?v @ ?r2, Suc pivot, length ks - Suc pivot)
      else (?u @ ?r1, take (kp - pivot) ?v @ k # drop (kp - pivot) ?v @ tl ?r2, pivot, Suc (length ks - Suc pivot)))"
    if "kp < length ks" for kp
    using insert_into_split_used [of kp ?u ?v ?r1 ?r2 bot k] that assms by simp
  show ?thesis
  proof (cases "pos < pivot")
    case True
    have "in_split_keys n k pos pivot = Some ((take pos ?u @ k # drop pos ?u) @ tl ?r1, ?v @ ?r2,
        length (take pos ?u @ k # drop pos ?u), length ?v, ?p)"
      using sp sl ins [of pos] True False assms by (simp add: in_split_keys_def)
    moreover have "(take pos ?u @ k # drop pos ?u) @ ?p # ?v = take pos ks @ k # drop pos ks"
    proof -
      have "take pos ks = take pos ?u" using True by (simp add: min_def)
      moreover have "drop pos ks = drop pos ?u @ ?p # ?v"
        using True assms by (subst ks, subst drop_append) simp
      ultimately show ?thesis by simp
    qed
    ultimately show ?thesis using True assms by (intro exI conjI) (assumption | simp)+
  next
    case pp: False
    have "in_split_keys n k pos pivot = Some (?u @ ?r1, (take (pos - Suc pivot) ?v @ k # drop (pos - Suc pivot) ?v) @ tl ?r2,
        length ?u, length (take (pos - Suc pivot) ?v @ k # drop (pos - Suc pivot) ?v), ?p)"
      using sp sl ins [of "pos - 1"] pp False assms by (simp add: in_split_keys_def)
    moreover have "?u @ ?p # (take (pos - Suc pivot) ?v @ k # drop (pos - Suc pivot) ?v) = take pos ks @ k # drop pos ks"
    proof -
      have "take pos ks = ?u @ ?p # take (pos - Suc pivot) ?v"
        using False pp assms by (subst ks, subst take_append) (simp add: take_Cons')
      moreover have "drop pos ks = drop (pos - Suc pivot) ?v" using False pp by simp
      ultimately show ?thesis by simp
    qed
    moreover have "?u \<noteq> []" using assms by (cases ks) auto
    ultimately show ?thesis using pp False assms by (intro exI conjI) (assumption | simp)+
  qed
qed

lemma in_split_ptrs_full:
  assumes "in_ptrs n = rs" and "length rs = Suc (in_len n)" and "pos \<le> in_len n" and "0 < pivot" and "Suc pivot < in_len n"
  shows "\<exists>rs1 rs2 r1 r2. in_split_ptrs n c pos pivot True = Some (rs1 @ r1, rs2 @ r2) \<and>
    rs1 @ rs2 = take (Suc pos) rs @ c # drop (Suc pos) rs \<and> length rs1 = (if pos < pivot then Suc (Suc pivot) else Suc pivot) \<and>
    length rs1 + length r1 = length rs \<and> length rs2 + length r2 = length rs"
proof (cases "pivot = pos")
  case True
  let ?r = "replicate (Suc pivot) None"
  have "split_at_pivot None (Suc pivot) (length rs) rs =
      Some (take (Suc pivot) rs @ replicate (in_len n - pivot) None, drop (Suc pivot) rs @ ?r)"
    using split_at_pivot_used [of "Suc pivot" rs None "[]"] assms by simp
  moreover have "insert_at None c 0 (in_len n - pivot) (drop (Suc pivot) rs @ ?r) =
      Some (c # drop (Suc pivot) rs @ tl ?r, Suc (in_len n - pivot))"
    using insert_at_used [of 0 "drop (Suc pivot) rs" ?r None c] assms by simp
  ultimately have "in_split_ptrs n c pos pivot True =
      Some (take (Suc pivot) rs @ replicate (in_len n - pivot) None, (c # drop (Suc pivot) rs) @ tl ?r)"
    using True assms by (simp add: in_split_ptrs_def)
  then show ?thesis using True assms
    by (intro exI [of _ "take (Suc pivot) rs"] exI [of _ "c # drop (Suc pivot) rs"]
        exI [of _ "replicate (in_len n - pivot) None"] exI [of _ "tl ?r"]) simp
next
  case False
  have "Suc pos \<le> length rs" "0 < Suc pivot" "Suc pivot < length rs" using assms by simp_all
  from split_insert_used [OF this, of None "[]" c]
  obtain x y us1 us2 r1 r2 where
    "split_at_pivot None (Suc pivot) (length rs) rs = Some (x, y)"
    "insert_into_split None c x y (Suc pivot) (length rs - Suc pivot) (Suc pos) = Some (us1 @ r1, us2 @ r2, length us1, length us2)"
    "us1 @ us2 = take (Suc pos) rs @ c # drop (Suc pos) rs" "length us1 = (if Suc pos < Suc pivot then Suc (Suc pivot) else Suc pivot)"
    "length us1 + length r1 = length rs" "length us2 + length r2 = length rs" by auto
  then show ?thesis using False assms
    by (intro exI [of _ us1] exI [of _ us2] exI [of _ r1] exI [of _ r2]) (simp add: in_split_ptrs_def)
qed

lemma in_insert_split:
  assumes i: "is_inner cap ks rs rr b (heap t a)" and "sorted_wrt (<) ks" and full: "length ks = cap" and cap: "3 \<le> cap"
    and pos: "pos = length (takeWhile (\<lambda>x. x \<le> k) ks)" and fresh: "a < brk t"
  shows "\<exists>s t' ks1 pk ks2 rs1 rs2. in_insert cap k c parent (Some a) t = Some (Some s, t') \<and>
    ks1 @ pk # ks2 = take pos ks @ k # drop pos ks \<and> rs1 @ rs2 = take (Suc pos) rs @ c # drop (Suc pos) rs \<and>
    ks1 \<noteq> [] \<and> ks2 \<noteq> [] \<and> new_right_node s = Some (brk t) \<and> split_pivot s = pk \<and> parent_latch s = parent \<and>
    brk t' = Suc (brk t) \<and> same_tree t t' \<and>
    is_inner cap ks1 rs1 (Some (brk t)) pk (heap t' a) \<and> is_inner cap ks2 rs2 rr b (heap t' (brk t)) \<and>
    (\<forall>x. x \<noteq> a \<longrightarrow> x \<noteq> brk t \<longrightarrow> heap t' x = heap t x)"
proof -
  obtain n where n: "heap t a = Internal n" "in_keys n = ks" "in_ptrs n = rs" "in_len n = length ks"
      "length rs = Suc (length ks)" "in_right n = rr" "in_right_bound n = b"
    and p: "is_inner cap ks rs rr b (Internal n)" using i full by (auto simp: is_inner_def)
  have srch: "in_search n k = Some pos" unfolding pos by (rule in_search_inner [OF p assms(2)])
  have bnds: "pos \<le> length ks" "0 < cap div 2" "Suc (cap div 2) < length ks"
    unfolding pos full using cap length_takeWhile_le [of _ ks] full by auto
  obtain ks1 pk ks2 r1 r2 where k: "in_split_keys n k pos (cap div 2) = Some (ks1 @ r1, ks2 @ r2, length ks1, length ks2, pk)"
      "ks1 @ pk # ks2 = take pos ks @ k # drop pos ks" "length ks1 = (if pos < cap div 2 then Suc (cap div 2) else cap div 2)"
      "length ks1 + length r1 = cap" "length ks2 + length r2 = cap" "ks1 \<noteq> []" "ks2 \<noteq> []"
    using in_split_keys_full [OF n(2,4) bnds] full by blast
  obtain rs1 rs2 q1 q2 where r: "in_split_ptrs n c pos (cap div 2) True = Some (rs1 @ q1, rs2 @ q2)"
      "rs1 @ rs2 = take (Suc pos) rs @ c # drop (Suc pos) rs"
      "length rs1 = (if pos < cap div 2 then Suc (Suc (cap div 2)) else Suc (cap div 2))"
      "length rs1 + length q1 = Suc cap" "length rs2 + length q2 = Suc cap"
    using in_split_ptrs_full [OF n(3), of pos "cap div 2" c] n(4,5) bnds full by auto
  let ?n2 = "Internal \<lparr>in_keys = ks2 @ r2, in_ptrs = rs2 @ q2, in_len = length ks2, in_right = rr, in_right_bound = b\<rparr>"
  let ?n1 = "Internal \<lparr>in_keys = ks1 @ r1, in_ptrs = rs1 @ q1, in_len = length ks1, in_right = Some (brk t), in_right_bound = pk\<rparr>"
  let ?t' = "t\<lparr>heap := (heap t)(brk t := ?n2, a := ?n1), brk := Suc (brk t)\<rparr>"
  have "in_insert cap k c parent (Some a) t = Some (Some \<lparr>new_right_node = Some (brk t), left_node_latch = None, split_pivot = pk,
      parent_latch = parent\<rparr>, ?t')"
    using n srch full k(1) r(1) by (simp add: in_insert_def in_split_insert_def alloc_node_def)
  moreover have "length rs1 = Suc (length ks1)" using k(3) r(3) by simp
  then have "is_inner cap ks1 rs1 (Some (brk t)) pk (heap ?t' a)" using k(4) r(4) by (simp add: is_inner_def)
  moreover have "length rs2 = Suc (length ks2)"
    using arg_cong [OF k(2), of length] arg_cong [OF r(2), of length] k(3) r(3) n(5) bnds(1) by (auto split: if_splits)
  then have "is_inner cap ks2 rs2 rr b (heap ?t' (brk t))" using k(5) r(5) fresh by (simp add: is_inner_def)
  moreover have "brk ?t' = Suc (brk t)" "same_tree t ?t'" "\<forall>x. x \<noteq> a \<longrightarrow> x \<noteq> brk t \<longrightarrow> heap ?t' x = heap t x"
    by (simp_all add: same_tree_def)
  ultimately show ?thesis using k(2,6,7) r(2) by (intro exI conjI) (assumption | rule NodeSplit.simps)+
qed

end
