(* ===== verification/Neb_BTree_Insert.thy ===== *)
theory Neb_BTree_Insert
  imports Neb_BTree_Inv
begin

text \<open>
  Insertion into the B+ tree: the descent to a page, the insertion there, and the way back in which full
  nodes are split. The children of an inner node are taken apart around the child that the key belongs to;
  the operation keeps the invariant of the tree and adds the key.
\<close>

section \<open>The children of a node around one child\<close>

definition lo_of :: "'k \<Rightarrow> ('k gtree \<times> 'k) list \<Rightarrow> 'k" where
  "lo_of lo ps = (if ps = [] then lo else snd (last ps))"

lemma lo_of_Cons: "lo_of lo (p # ps) = lo_of (snd p) ps"
  by (simp add: lo_of_def)

lemma bts_child: "bts cap h R lo B ps u \<Longrightarrow> bt cap h R (lo_of lo ps) B u"
proof (induction ps arbitrary: lo)
  case (Cons p ps)
  obtain v l where p: "p = (v, l)" by (cases p)
  show ?case using Cons by (simp add: p lo_of_Cons)
qed (simp add: lo_of_def)

lemma bts_replace:
  assumes "bts cap h R lo B ps u" and "\<forall>a \<in> set (gaddrs_list ps). same_node (h a) (h' a)"
    and "bt cap h' R' (lo_of lo ps) B' u'" and "spine u' = spine u"
  shows "bts cap h' R' lo B' ps u'"
  using assms
proof (induction ps arbitrary: lo)
  case (Cons p ps)
  obtain v l where p: "p = (v, l)" by (cases p)
  have sp: "spine (first_child ps u') = spine (first_child ps u)" using Cons.prems(4) by (cases ps) auto
  have "bt cap h (map Some (spine (first_child ps u))) lo l v" "\<forall>a \<in> set (gaddrs v). same_node (h a) (h' a)"
    using Cons.prems(1,2) by (simp_all add: p)
  then have "bt cap h' (map Some (spine (first_child ps u))) lo l v" by (rule bt_frame(1))
  moreover have "bts cap h' R' l B' ps u'" using Cons by (simp add: p lo_of_Cons)
  ultimately show ?case using Cons.prems(1) by (simp add: p sp)
qed (simp add: lo_of_def)

lemma bts_append': "bts cap h rs lo b (ps @ (u, k) # qs) t \<longleftrightarrow>
    bts cap h (map Some (spine (first_child qs t))) lo k ps u \<and> lo_of lo ps < k \<and> bts cap h rs k b qs t"
  by (simp add: bts_append lo_of_def)

lemma bts_replace_split:
  assumes "bts cap h R lo B ps u" and "\<forall>a \<in> set (gaddrs_list ps). same_node (h a) (h' a)"
    and "bt cap h' (map Some (spine r)) (lo_of lo ps) p l" and "spine l = spine u" and "bt cap h' R p B r"
  shows "bts cap h' R lo B (ps @ [(l, p)]) r"
  using bts_replace [OF assms(1,2,3,4)] assms(5) bt_bounds(1) [OF assms(3)] by (simp add: bts_append')

text \<open>What follows the child: nothing, or its separator and the other children.\<close>

type_synonym 'k ctail = "('k \<times> ('k gtree \<times> 'k) list \<times> 'k gtree) option"

definition plug :: "('k gtree \<times> 'k) list \<Rightarrow> 'k ctail \<Rightarrow> 'k gtree \<Rightarrow> ('k gtree \<times> 'k) list \<times> 'k gtree" where
  "plug ps z c = (case z of None \<Rightarrow> (ps, c) | Some (k, qs, t) \<Rightarrow> (ps @ (c, k) # qs, t))"

definition zbound :: "'k \<Rightarrow> 'k ctail \<Rightarrow> 'k" where
  "zbound b z = (case z of None \<Rightarrow> b | Some (k, qs, t) \<Rightarrow> k)"

definition zright :: "NodeCellRef list \<Rightarrow> 'k ctail \<Rightarrow> NodeCellRef list" where
  "zright rs z = (case z of None \<Rightarrow> rs | Some (k, qs, t) \<Rightarrow> map Some (spine (first_child qs t)))"

definition zkeys :: "'k ctail \<Rightarrow> 'k list" where
  "zkeys z = (case z of None \<Rightarrow> [] | Some (k, qs, t) \<Rightarrow> gkeys_list qs @ gkeys t)"

definition zaddrs :: "'k ctail \<Rightarrow> nat list" where
  "zaddrs z = (case z of None \<Rightarrow> [] | Some (k, qs, t) \<Rightarrow> gaddrs_list qs @ gaddrs t)"

definition zseps :: "'k ctail \<Rightarrow> 'k list" where
  "zseps z = (case z of None \<Rightarrow> [] | Some (k, qs, t) \<Rightarrow> k # map snd qs)"

definition zrefs :: "'k ctail \<Rightarrow> NodeCellRef list" where
  "zrefs z = (case z of None \<Rightarrow> [] | Some (k, qs, t) \<Rightarrow> child_refs qs t)"

definition ztail :: "nat \<Rightarrow> (nat \<Rightarrow> ('k :: {linorder, order_bot}) NodeData) \<Rightarrow> NodeCellRef list \<Rightarrow> 'k \<Rightarrow> 'k ctail \<Rightarrow> bool" where
  "ztail cap h rs b z = (case z of None \<Rightarrow> True | Some (k, qs, t) \<Rightarrow> bts cap h rs k b qs t)"

lemmas ctail_defs = plug_def zbound_def zright_def zkeys_def zaddrs_def zseps_def zrefs_def ztail_def

lemma plug_simps:
  assumes "plug ps1 z c = (ps, t)"
  shows "map snd ps = map snd ps1 @ zseps z" "child_refs ps t = map (Some \<circ> gaddr \<circ> fst) ps1 @ Some (gaddr c) # zrefs z"
    "gkeys_list ps @ gkeys t = gkeys_list ps1 @ gkeys c @ zkeys z" "gaddrs_list ps @ gaddrs t = gaddrs_list ps1 @ gaddrs c @ zaddrs z"
    "spine (first_child ps t) = spine (first_child ps1 c)"
  using assms by (cases ps1; auto simp: ctail_defs child_refs_def split: option.splits)+

lemma plug_bts:
  assumes "plug ps1 z c = (ps, t)"
  shows "bts cap h rs lo b ps t \<longleftrightarrow>
    bts cap h (zright rs z) lo (zbound b z) ps1 c \<and> lo_of lo ps1 < zbound b z \<and> ztail cap h rs b z"
  using assms bts_child [of cap h rs lo b ps1 c] bt_bounds(1) [of cap h rs "lo_of lo ps1" b c]
  by (auto simp: ctail_defs bts_append' split: option.splits)

lemma ztail_frame: "ztail cap h rs b z \<Longrightarrow> \<forall>a \<in> set (zaddrs z). same_node (h a) (h' a) \<Longrightarrow> ztail cap h' rs b z"
  by (cases z) (auto simp: ctail_defs simp del: set_append intro!: bt_frame(2) [where h = h])

text \<open>The child that a key belongs to.\<close>

lemma focus_exists:
  assumes "bts cap h rs lo b ps t" and "lo \<le> k" and "k < b"
  shows "\<exists>ps1 z c. plug ps1 z c = (ps, t) \<and> length ps1 = length (takeWhile (\<lambda>x. x \<le> k) (map snd ps)) \<and>
    lo_of lo ps1 \<le> k \<and> k < zbound b z \<and> size c \<le> size_list (size_prod size (\<lambda>_. 0)) ps + size t"
  using assms
proof (induction ps arbitrary: lo)
  case Nil
  then show ?case by (intro exI [of _ "[]"] exI [of _ None] exI [of _ t]) (simp add: ctail_defs lo_of_def)
next
  case (Cons p ps)
  obtain u l where p: "p = (u, l)" by (cases p)
  show ?case
  proof (cases "l \<le> k")
    case True
    then obtain ps1 z c where "plug ps1 z c = (ps, t)" "length ps1 = length (takeWhile (\<lambda>x. x \<le> k) (map snd ps))"
        "lo_of l ps1 \<le> k" "k < zbound b z" "size c \<le> size_list (size_prod size (\<lambda>_. 0)) ps + size t"
      using Cons.IH [of l] Cons.prems by (auto simp: p)
    then show ?thesis using True
      by (intro exI [of _ "p # ps1"] exI [of _ z] exI [of _ c]) (auto simp: p lo_of_Cons ctail_defs split: option.splits)
  next
    case False
    then show ?thesis using Cons.prems
      by (intro exI [of _ "[]"] exI [of _ "Some (l, ps, t)"] exI [of _ u]) (simp add: p ctail_defs lo_of_def)
  qed
qed

lemma plug_keys_in:
  assumes "bts cap h rs lo b ps t" and "plug ps1 z c = (ps, t)" and "lo_of lo ps1 \<le> k" and "k < zbound b z"
  shows "k \<in> set (gkeys_list ps @ gkeys t) \<longleftrightarrow> k \<in> set (gkeys c)"
proof -
  have b: "bts cap h (zright rs z) lo (zbound b z) ps1 c" "ztail cap h rs b z" using assms plug_bts by blast+
  have before: "x < lo_of lo ps1" if "x \<in> set (gkeys_list ps1)" for x
    using that b(1)
  proof (induction ps1 arbitrary: lo)
    case (Cons p ps1)
    obtain v l where p: "p = (v, l)" by (cases p)
    have b: "bts cap h (zright rs z) l (zbound b z) ps1 c" and v: "bt cap h (map Some (spine (first_child ps1 c))) lo l v"
      using Cons.prems(2) by (simp_all add: p)
    have l: "l \<le> lo_of l ps1" using bt_bounds(2) [OF b] last_in_set [of ps1] by (auto simp: lo_of_def less_imp_le)
    show ?case
    proof (cases "x \<in> set (gkeys v)")
      case True
      then show ?thesis using bt_keys(1) [OF v] l by (auto simp: p lo_of_Cons)
    next
      case False
      then show ?thesis using Cons.IH [OF _ b] Cons.prems(1) by (simp add: p lo_of_Cons)
    qed
  qed simp
  have "zbound b z \<le> x" if "x \<in> set (zkeys z)" for x
    using that b(2) bt_keys(2) [of cap h rs _ b] by (force simp: ctail_defs split: option.splits)
  then have "k \<notin> set (gkeys_list ps1)" "k \<notin> set (zkeys z)" using assms(3,4) before by (meson leD)+
  then show ?thesis unfolding plug_simps(3) [OF assms(2)] by simp
qed

lemma plug_replace:
  assumes "bts cap h rs lo b ps t" and "plug ps1 z c = (ps, t)"
    and "\<forall>a \<in> set (gaddrs_list ps1 @ zaddrs z). same_node (h a) (h' a)"
    and "bt cap h' (zright rs z) (lo_of lo ps1) (zbound b z) c'" and "spine c' = spine c"
    and "plug ps1 z c' = (ps', t')"
  shows "bts cap h' rs lo b ps' t'" "spine (first_child ps' t') = spine (first_child ps t)"
    "map snd ps' = map snd ps" "child_refs ps' t' = child_refs ps t"
proof -
  have "gaddr c' = gaddr c" using assms(5) hd_spine by metis
  then show "map snd ps' = map snd ps" "child_refs ps' t' = child_refs ps t"
    "spine (first_child ps' t') = spine (first_child ps t)"
    using plug_simps [OF assms(2)] plug_simps [OF assms(6)] assms(5) by (cases ps1; simp)+
  show "bts cap h' rs lo b ps' t'"
    using assms plug_bts [OF assms(2)] plug_bts [OF assms(6)] bts_replace [of cap h _ lo _ ps1 c h']
      ztail_frame [of cap h rs b z h'] by auto
qed

lemma plug_replace_split:
  assumes "bts cap h rs lo b ps t" and "plug ps1 z c = (ps, t)"
    and "\<forall>a \<in> set (gaddrs_list ps1 @ zaddrs z). same_node (h a) (h' a)"
    and "bt cap h' (map Some (spine r)) (lo_of lo ps1) p l" and "spine l = spine c"
    and "bt cap h' (zright rs z) p (zbound b z) r" and "plug (ps1 @ [(l, p)]) z r = (ps', t')"
  shows "bts cap h' rs lo b ps' t'" "spine (first_child ps' t') = spine (first_child ps t)"
    "map snd ps' = take (length ps1) (map snd ps) @ p # drop (length ps1) (map snd ps)"
    "child_refs ps' t' = take (Suc (length ps1)) (child_refs ps t) @ Some (gaddr r) # drop (Suc (length ps1)) (child_refs ps t)"
proof -
  have "gaddr l = gaddr c" using assms(5) hd_spine by metis
  then show "map snd ps' = take (length ps1) (map snd ps) @ p # drop (length ps1) (map snd ps)"
    "child_refs ps' t' = take (Suc (length ps1)) (child_refs ps t) @ Some (gaddr r) # drop (Suc (length ps1)) (child_refs ps t)"
    "spine (first_child ps' t') = spine (first_child ps t)"
    using plug_simps [OF assms(2)] plug_simps [OF assms(7)] assms(5) by (cases ps1; simp)+
  have "lo_of lo (ps1 @ [(l, p)]) = p" by (simp add: lo_of_def)
  moreover have "p < zbound b z" using bt_bounds(1) assms(6) by blast
  ultimately show "bts cap h' rs lo b ps' t'"
    using assms plug_bts [OF assms(2)] plug_bts [OF assms(7)] bts_replace_split [of cap h _ lo _ ps1 c h' r p l]
      ztail_frame [of cap h rs b z h'] by auto
qed

lemma spine_leaf:
  fixes h :: "nat \<Rightarrow> ('k :: {linorder, order_bot}) NodeData"
  shows "bt cap h rs lo b t \<Longrightarrow> (\<exists>m. h (last (spine t)) = External m) \<and> last (spine t) \<in> set (gaddrs t)"
    and "bts cap h rs lo b ps t \<Longrightarrow>
      (\<exists>m. h (last (spine (first_child ps t))) = External m) \<and> last (spine (first_child ps t)) \<in> set (gaddrs_list ps @ gaddrs t)"
  by (induction cap h rs lo b t and cap h rs lo b ps t rule: bt_bts.induct) (auto simp: is_page_def spine_GNode)

definition right_ok :: "(nat \<Rightarrow> 'k NodeData) \<Rightarrow> nat \<Rightarrow> NodeCellRef list \<Rightarrow> nat set \<Rightarrow> bool" where
  "right_ok h n rs A = (\<forall>x. last rs = Some x \<longrightarrow> x < n \<and> x \<notin> A \<and> (\<exists>m. h x = External m))"

lemma right_ok_child:
  assumes "right_ok h n rs (set (gaddrs_list ps @ gaddrs t))" and "bts cap h rs lo b ps t" and "plug ps1 z c = (ps, t)"
    and "distinct (gaddrs_list ps @ gaddrs t)" and "\<forall>a \<in> set (gaddrs_list ps @ gaddrs t). a < n"
  shows "right_ok h n (zright rs z) (set (gaddrs c))"
proof (cases z)
  case None
  then show ?thesis using assms(1) unfolding plug_simps(4) [OF assms(3)] by (simp add: right_ok_def zright_def)
next
  case (Some y)
  obtain k qs u where z: "z = Some (k, qs, u)" using Some by (cases y) auto
  let ?x = "last (spine (first_child qs u))"
  have "bts cap h rs k b qs u" using plug_bts [OF assms(3)] assms(2) by (simp add: z ztail_def)
  from spine_leaf(2) [OF this] have "\<exists>m. h ?x = External m" "?x \<in> set (zaddrs z)" by (auto simp: z zaddrs_def)
  then show ?thesis using assms(4,5) unfolding plug_simps(4) [OF assms(3)]
    by (auto simp: right_ok_def zright_def z last_map)
qed

lemma bt_right_refs:
  fixes h :: "nat \<Rightarrow> ('k :: {linorder, order_bot}) NodeData"
  shows "bt cap h rs lo b g \<Longrightarrow> rs \<noteq> []" and "bts cap h rs lo b ps g \<Longrightarrow> rs \<noteq> []"
  by (induction cap h rs lo b g and cap h rs lo b ps g rule: bt_bts.induct) auto

section \<open>What an insertion does\<close>

definition ins_post ::
  "nat \<Rightarrow> 'k \<Rightarrow> NodeCellRef \<Rightarrow> NodeCellRef list \<Rightarrow> 'k \<Rightarrow> 'k \<Rightarrow> 'k gtree \<Rightarrow> 'k BPlusTree \<Rightarrow> 'k NodeSplit option option \<Rightarrow>
   ('k :: {linorder, order_bot}) BPlusTree \<Rightarrow> bool" where
  "ins_post cap k parent rs lo b g t res t' \<longleftrightarrow>
     brk t \<le> brk t' \<and> same_tree t t' \<and>
     (\<forall>a. a \<notin> set (gaddrs g) \<longrightarrow> a < brk t \<longrightarrow> same_node (heap t a) (heap t' a)) \<and>
     (\<forall>a. a \<notin> set (gaddrs g) \<longrightarrow> a < brk t \<longrightarrow> last rs \<noteq> Some a \<longrightarrow> heap t' a = heap t a) \<and>
     (case res of
        None \<Rightarrow> k \<in> set (gkeys g) \<and> heap t' = heap t \<and> brk t' = brk t
      | Some None \<Rightarrow> k \<notin> set (gkeys g) \<and>
          (\<exists>g'. bt cap (heap t') rs lo b g' \<and> spine g' = spine g \<and> set (gkeys g') = insert k (set (gkeys g)) \<and>
             distinct (gaddrs g') \<and> set (gaddrs g') \<subseteq> set (gaddrs g) \<union> {brk t ..< brk t'} \<and>
             prev_post (heap t) (heap t') rs (leaf_addrs g) (leaf_addrs g'))
      | Some (Some s) \<Rightarrow> k \<notin> set (gkeys g) \<and>
          (\<exists>l r. bt cap (heap t') (map Some (spine r)) lo (split_pivot s) l \<and> bt cap (heap t') rs (split_pivot s) b r \<and>
             spine l = spine g \<and> new_right_node s = Some (gaddr r) \<and> left_node_latch s = Some (gaddr g) \<and> parent_latch s = parent \<and>
             set (gkeys l @ gkeys r) = insert k (set (gkeys g)) \<and> distinct (gaddrs l @ gaddrs r) \<and>
             set (gaddrs l @ gaddrs r) \<subseteq> set (gaddrs g) \<union> {brk t ..< brk t'} \<and>
             prev_post (heap t) (heap t') rs (leaf_addrs g) (leaf_addrs l @ leaf_addrs r)))"

lemma ins_post_insertedI:
  assumes "brk t \<le> brk t'" and "same_tree t t'" and "\<forall>a. a \<notin> set (gaddrs g) \<longrightarrow> a < brk t \<longrightarrow> same_node (heap t a) (heap t' a)"
    and "k \<notin> set (gkeys g)" and "bt cap (heap t') rs lo b g'" and "spine g' = spine g"
    and "set (gkeys g') = insert k (set (gkeys g))" and "distinct (gaddrs g')"
    and "set (gaddrs g') \<subseteq> set (gaddrs g) \<union> {brk t ..< brk t'}"
    and "\<forall>a. a \<notin> set (gaddrs g) \<longrightarrow> a < brk t \<longrightarrow> last rs \<noteq> Some a \<longrightarrow> heap t' a = heap t a"
    and "prev_post (heap t) (heap t') rs (leaf_addrs g) (leaf_addrs g')"
  shows "ins_post cap k parent rs lo b g t (Some None) t'"
  unfolding ins_post_def option.case using assms by blast

lemma ins_post_splitI:
  assumes "brk t \<le> brk t'" and "same_tree t t'" and "\<forall>a. a \<notin> set (gaddrs g) \<longrightarrow> a < brk t \<longrightarrow> same_node (heap t a) (heap t' a)"
    and "k \<notin> set (gkeys g)" and "bt cap (heap t') (map Some (spine r)) lo (split_pivot s) l"
    and "bt cap (heap t') rs (split_pivot s) b r" and "spine l = spine g" and "new_right_node s = Some (gaddr r)"
    and "left_node_latch s = Some (gaddr g)" and "parent_latch s = parent"
    and "set (gkeys l @ gkeys r) = insert k (set (gkeys g))" and "distinct (gaddrs l @ gaddrs r)"
    and "set (gaddrs l @ gaddrs r) \<subseteq> set (gaddrs g) \<union> {brk t ..< brk t'}"
    and "\<forall>a. a \<notin> set (gaddrs g) \<longrightarrow> a < brk t \<longrightarrow> last rs \<noteq> Some a \<longrightarrow> heap t' a = heap t a"
    and "prev_post (heap t) (heap t') rs (leaf_addrs g) (leaf_addrs l @ leaf_addrs r)"
  shows "ins_post cap k parent rs lo b g t (Some (Some s)) t'"
  unfolding ins_post_def option.case using assms by blast

lemma ins_post_leaf:
  assumes b: "bt cap (heap t) rs lo b (GLeaf a ks)" and k: "lo \<le> k" "k < b" and cap: "3 \<le> cap"
    and fresh: "a < brk t" and r: "right_ok (heap t) (brk t) rs {a}"
  shows "\<exists>res t'. insert_external_tree_node cap (Some a) parent k t = Some (res, t') \<and>
    ins_post cap k parent rs lo b (GLeaf a ks) t res t'"
proof -
  obtain rr where rs: "rs = [rr]" and p: "is_page cap ks rr b (heap t a)" and so: "sorted_wrt (<) ks"
    and bd: "\<forall>x \<in> set ks. lo \<le> x \<and> x < b" and e: "ks = [] \<longrightarrow> rr = None \<and> lo = bot" and lb: "lo < b" using b by auto
  have w: "write_targeted t (Some a) k = Some (Some a)"
    using write_targeted_page [of cap ks rr b t "Some a" k] p k(2) e by auto
  let ?t = "make_changed cap (Some a) t"
  have p': "is_page cap ks rr b (heap ?t a)" using p by simp
  consider "k \<in> set ks" | "k \<notin> set ks" "length ks < cap" | "k \<notin> set ks" "length ks = cap"
    using p by (fastforce simp: is_page_def)
  then show ?thesis
  proof cases
    case 1
    then show ?thesis using ext_insert_found [OF p' so 1] w
      by (intro exI) (auto simp: insert_external_tree_node_def ins_post_def)
  next
    case 2
    obtain n' where n': "ext_insert cap k (Some a) parent ?t = Some (Some None, ?t\<lparr>heap := (heap ?t)(a := External n')\<rparr>)"
      "is_page cap (ins_key k ks) rr b (External n')" "ext_prev n' = page_prev (heap t) a" using ext_insert_room [OF p' so 2, of parent] by auto
    let ?t' = "make_changed cap (Some a) (?t\<lparr>heap := (heap ?t)(a := External n')\<rparr>)"
    have "bt cap (heap ?t') rs lo b (GLeaf a (ins_key k ks))"
      using n'(2) ins_key_sorted [OF so 2(1)] bd k lb by (auto simp: rs ins_key_def [of k ks, THEN arg_cong, of "\<lambda>x. x = []"])
    then have "ins_post cap k parent rs lo b (GLeaf a ks) t (Some None) ?t'"
      using 2(1) n'(3) r
      by (intro ins_post_insertedI [of _ _ _ _ _ _ _ _ "GLeaf a (ins_key k ks)"]) (auto simp: same_tree_def prev_post_def right_ok_def page_prev_def)
    then show ?thesis using n'(1) w by (auto simp: insert_external_tree_node_def)
  next
    case 3
    have fr: "a < brk ?t" "\<forall>x. rr = Some x \<longrightarrow> x < brk ?t \<and> x \<noteq> a \<and> (\<exists>m. heap ?t x = External m)"
      using fresh r by (auto simp: rs right_ok_def)
    obtain s t1 ks1 ks2 where e: "ext_insert cap k (Some a) parent ?t = Some (Some (Some s), t1)"
      and i: "ks1 @ ks2 = ins_key k ks" "ks1 \<noteq> []" "ks2 \<noteq> []"
      and s: "new_right_node s = Some (brk t)" "split_pivot s = hd ks2" "parent_latch s = parent"
      and t1: "brk t1 = Suc (brk t)" "same_tree t t1" "is_page cap ks1 (Some (brk t)) (hd ks2) (heap t1 a)"
        "is_page cap ks2 rr b (heap t1 (brk t))" "\<forall>x. x \<noteq> a \<longrightarrow> x \<noteq> brk t \<longrightarrow> same_node (heap t x) (heap t1 x)"
        "\<forall>x. x \<noteq> a \<longrightarrow> x \<noteq> brk t \<longrightarrow> rr \<noteq> Some x \<longrightarrow> heap t1 x = heap t x" "prev_post (heap t) (heap t1) rs [a] [a, brk t]"
      using ext_insert_split [OF p' so 3 _ fr, of parent] cap by (auto simp: rs)
    let ?s = "s\<lparr>left_node_latch := Some a\<rparr>" and ?t' = "make_changed cap (new_right_node s) (make_changed cap (Some a) t1)"
    have so': "sorted_wrt (<) (ks1 @ ks2)" using ins_key_sorted [OF so 3(1)] i(1) by simp
    have sk: "set (ks1 @ ks2) = insert k (set ks)" by (simp only: i(1) set_ins_key)
    have bd': "\<forall>x \<in> set (ks1 @ ks2). lo \<le> x \<and> x < b" unfolding sk using bd k by simp
    have hd2: "hd ks2 \<in> set ks2" "\<forall>x \<in> set ks1. x < hd ks2" "\<forall>x \<in> set ks2. hd ks2 \<le> x"
      using i(3) so' by (auto simp: sorted_wrt_append, cases ks2, auto simp: less_imp_le)
    have hl: "lo < hd ks2" using i(2) bd' hd2(2) by (cases ks1) (auto intro: le_less_trans)
    have L: "bt cap (heap ?t') (map Some (spine (GLeaf (brk t) ks2))) lo (split_pivot ?s) (GLeaf a ks1)"
      using t1(3) so' bd' hd2 hl i(2) by (simp add: s sorted_wrt_append)
    have R: "bt cap (heap ?t') rs (split_pivot ?s) b (GLeaf (brk t) ks2)"
      using t1(4) so' bd' hd2 i(3) by (simp add: s rs sorted_wrt_append)
    have "ins_post cap k parent rs lo b (GLeaf a ks) t (Some (Some ?s)) ?t'"
      by (rule ins_post_splitI [OF _ _ _ _ L R]) (use 3(1) t1 s fresh sk rs in auto)
    then show ?thesis using e w by (auto simp: insert_external_tree_node_def)
  qed
qed

lemma focus_pos:
  assumes "bts cap h rs lo b ps t" and "plug ps1 z c = (ps, t)" and "lo_of lo ps1 \<le> p" and "p < zbound b z"
  shows "length (takeWhile (\<lambda>x. x \<le> p) (map snd ps)) = length ps1"
proof -
  have so: "sorted_wrt (<) (map snd ps1)" using bt_separators [OF assms(1)] by (simp add: plug_simps(1) [OF assms(2)] sorted_wrt_append)
  have "\<forall>x \<in> set (map snd ps1). x \<le> p"
  proof (cases ps1 rule: rev_cases)
    case (snoc qs q)
    then show ?thesis using so assms(3) by (auto simp: lo_of_def sorted_wrt_append dest: less_imp_le intro: order_trans)
  qed simp
  moreover have "takeWhile (\<lambda>x. x \<le> p) (zseps z) = []" using assms(4) by (auto simp: ctail_defs split: option.splits)
  ultimately show ?thesis by (simp add: plug_simps(1) [OF assms(2)] takeWhile_append)
qed

text \<open>An inner node whose children were updated, split or not.\<close>

lemma split_children:
  assumes "ks1 @ pk # ks2 = map snd ps" and "rs1 @ rs2 = child_refs ps t" and "length rs1 = Suc (length ks1)"
  shows "\<exists>ps1 u ps2. ps = ps1 @ (u, pk) # ps2 \<and> ks1 = map snd ps1 \<and> ks2 = map snd ps2 \<and>
    rs1 = child_refs ps1 u \<and> rs2 = child_refs ps2 t"
proof -
  obtain ps1 q ps2 where ps: "ps = ps1 @ q # ps2" "ks1 = map snd ps1" "pk = snd q" "ks2 = map snd ps2"
    using assms(1) by (auto simp: map_eq_append_conv Cons_eq_map_conv dest!: sym [of "_ @ _" "map snd ps"])
  have "child_refs ps t = child_refs ps1 (fst q) @ child_refs ps2 t" by (simp add: ps(1) child_refs_def)
  then have "rs1 @ rs2 = child_refs ps1 (fst q) @ child_refs ps2 t" using assms(2) by simp
  moreover have "length rs1 = length (child_refs ps1 (fst q))" using assms(3) by (simp add: ps(2) child_refs_def)
  ultimately have "rs1 = child_refs ps1 (fst q) \<and> rs2 = child_refs ps2 t" by (metis append_eq_append_conv)
  then show ?thesis using ps by (cases q) auto
qed

lemma ins_post_inner_split:
  fixes t :: "('k :: {linorder, order_bot}) BPlusTree"
  assumes inn: "is_inner cap ks refs rr b (heap t1 a)" and ks: "sorted_wrt (<) ks" "ks \<noteq> []"
    and pos: "pos = length (takeWhile (\<lambda>x. x \<le> p) ks)" and pb: "p < b"
    and bts: "bts cap (heap t1) rs lo b ps u" "map snd ps = take pos ks @ p # drop pos ks"
      "child_refs ps u = take (Suc pos) refs @ c # drop (Suc pos) refs"
    and ad: "distinct (gaddrs_list ps @ gaddrs u)" "set (gaddrs_list ps @ gaddrs u) \<subseteq> A \<union> {brk t ..< brk t1}"
      "a \<notin> A" "a < brk t" "brk t \<le> brk t1" "\<forall>x \<in> A. x < brk t" "same_tree t t1"
      "\<forall>x. x \<notin> A \<longrightarrow> x < brk t \<longrightarrow> same_node (heap t x) (heap t1 x)"
      "\<forall>x. x \<notin> A \<longrightarrow> x < brk t \<longrightarrow> last rs \<noteq> Some x \<longrightarrow> heap t1 x = heap t x"
      "\<forall>x. last rs = Some x \<longrightarrow> x < brk t \<and> x \<noteq> a"
      "prev_post (heap t) (heap t1) rs (leaf_addrs g) (map fst (gleaves_list ps @ gleaves u))"
    and g: "set (gaddrs g) = insert a A" "gaddr g = a" "spine g = a # spine (first_child ps u)" "k \<notin> set (gkeys g)"
      "set (gkeys_list ps @ gkeys u) = insert k (set (gkeys g))"
    and cap: "3 \<le> cap" and s: "split_pivot s = p" "new_right_node s = c" "parent_latch s = Some a"
  shows "\<exists>res t'. insert_internal_tree_node cap (Some s) parent t1 = Some (res, t') \<and>
    ins_post cap k parent (rr # rs) lo b g t (Some res) t'"
proof -
  have w: "write_targeted t1 (Some a) p = Some (Some a)" using write_targeted_inner [of cap ks refs rr b t1 "Some a" p] inn ks(2) pb by simp
  have a: "a \<notin> set (gaddrs_list ps @ gaddrs u)" using ad(2-4) by auto
  have lr: "last (rr # rs) = last rs" using bt_right_refs(2) [OF bts(1)] by simp
  have la: "set (map fst (gleaves_list ps @ gleaves u)) \<subseteq> set (gaddrs_list ps @ gaddrs u)" using leaf_addrs_sub by fastforce
  have pv: "prev_post (heap t) h2 (rr # rs) (leaf_addrs g) (map fst (gleaves_list ps @ gleaves u))"
    if "\<forall>x. x \<noteq> a \<longrightarrow> x \<noteq> brk t1 \<longrightarrow> h2 x = heap t1 x" for h2
  proof -
    have "\<forall>x. x \<in> set (map fst (gleaves_list ps @ gleaves u)) \<or> last rs = Some x \<longrightarrow> x \<noteq> a \<and> x < brk t1"
      using a la ad by fastforce
    then have "\<forall>x. x \<in> set (map fst (gleaves_list ps @ gleaves u)) \<or> last rs = Some x \<longrightarrow> page_prev h2 x = page_prev (heap t1) x"
      using that by (auto simp: page_prev_def)
    from prev_post_heap [OF ad(11) this] show ?thesis by (simp only: prev_post_def lr)
  qed
  consider "length ks < cap" | "length ks = cap" using inn by (fastforce simp: is_inner_def)
  then show ?thesis
  proof cases
    case 1
    from in_insert_room [OF inn ks(1) 1 pos, of c parent]
    obtain n' where n': "in_insert cap p c parent (Some a) t1 = Some (None, t1\<lparr>heap := (heap t1)(a := Internal n')\<rparr>)"
      "is_inner cap (map snd ps) (child_refs ps u) rr b (Internal n')" by (auto simp: bts(2,3))
    let ?t = "t1\<lparr>heap := (heap t1)(a := Internal n')\<rparr>"
    have "bts cap (heap ?t) rs lo b ps u" by (rule bt_frame(2) [OF bts(1)]) (use a in auto)
    then have B: "bt cap (heap ?t) (rr # rs) lo b (GNode a ps u)" using n'(2) bts(2) by auto
    have "ins_post cap k parent (rr # rs) lo b g t (Some None) ?t"
      by (rule ins_post_insertedI [OF _ _ _ _ B]) (use ad a g pv [of "heap ?t"] lr in \<open>auto simp: spine_GNode same_tree_def\<close>)
    then show ?thesis using n'(1) w by (auto simp: insert_internal_tree_node_def s)
  next
    case 2
    have "a < brk t1" using ad(4,5) by simp
    from in_insert_split [OF inn ks(1) 2 cap pos this, of c parent]
    obtain s' t2 ks1 pk ks2 rs1 rs2 where i: "in_insert cap p c parent (Some a) t1 = Some (Some s', t2)"
      and k2: "ks1 @ pk # ks2 = map snd ps" "rs1 @ rs2 = child_refs ps u" "ks1 \<noteq> []" "ks2 \<noteq> []"
      and s': "new_right_node s' = Some (brk t1)" "split_pivot s' = pk" "parent_latch s' = parent"
      and t2: "brk t2 = Suc (brk t1)" "same_tree t1 t2" "is_inner cap ks1 rs1 (Some (brk t1)) pk (heap t2 a)"
        "is_inner cap ks2 rs2 rr b (heap t2 (brk t1))" "\<forall>x. x \<noteq> a \<longrightarrow> x \<noteq> brk t1 \<longrightarrow> heap t2 x = heap t1 x"
      by (auto simp: bts(2,3))
    have "length rs1 = Suc (length ks1)" using t2(3) by (auto simp: is_inner_def)
    from split_children [OF k2(1,2) this]
    obtain ps1 v ps2 where ps: "ps = ps1 @ (v, pk) # ps2" "ks1 = map snd ps1" "ks2 = map snd ps2" "rs1 = child_refs ps1 v" "rs2 = child_refs ps2 u"
      by blast
    have fr: "\<forall>x \<in> set (gaddrs_list ps @ gaddrs u). same_node (heap t1 x) (heap t2 x)"
      using a ad t2(5) by (metis UnE atLeastLessThan_iff less_irrefl less_le_trans same_node_refl subsetD)
    have "bts cap (heap t2) rs lo b ps u" by (rule bt_frame(2) [OF bts(1) fr])
    then have B: "bts cap (heap t2) (map Some (spine (first_child ps2 u))) lo pk ps1 v" "bts cap (heap t2) rs pk b ps2 u"
      by (simp_all add: ps(1) bts_append')
    let ?l = "GNode a ps1 v" and ?r = "GNode (brk t1) ps2 u" and ?s = "s'\<lparr>left_node_latch := Some a\<rparr>"
    have L: "bt cap (heap t2) (map Some (spine ?r)) lo (split_pivot ?s) ?l"
      using B(1) t2(3) k2(3) by (simp add: ps s' spine_GNode)
    have R: "bt cap (heap t2) (rr # rs) (split_pivot ?s) b ?r" using B(2) t2(4) k2(4) by (simp add: ps s')
    have st: "same_tree t t2" using ad(7) t2(2) same_tree_trans by blast
    have "spine (first_child ps u) = spine (first_child ps1 v)" by (cases ps1) (auto simp: ps(1))
    moreover have "brk t1 \<notin> set (gaddrs_list ps @ gaddrs u)" using ad by fastforce
    moreover have "\<forall>x. x \<notin> insert a A \<longrightarrow> x < brk t \<longrightarrow> same_node (heap t x) (heap t2 x)" using ad(5,8) t2(5) by auto
    ultimately have sp: "spine ?l = spine g" and di: "distinct (gaddrs ?l @ gaddrs ?r)"
      and fa: "\<forall>x. x \<notin> set (gaddrs g) \<longrightarrow> x < brk t \<longrightarrow> same_node (heap t x) (heap t2 x)"
      using g(1,3) ad(1,4,5) a by (auto simp: spine_GNode ps(1))
    have sub: "set (gaddrs ?l @ gaddrs ?r) \<subseteq> set (gaddrs g) \<union> {brk t ..< brk t2}"
      using g(1) ad(2,5) by (auto simp: ps(1) t2(1) less_Suc_eq)
    have ex: "\<forall>x. x \<notin> set (gaddrs g) \<longrightarrow> x < brk t \<longrightarrow> last (rr # rs) \<noteq> Some x \<longrightarrow> heap t2 x = heap t x"
      unfolding lr using ad(5,9) t2(5) g(1) by auto
    have ks: "set (gkeys ?l @ gkeys ?r) = insert k (set (gkeys g))" using g(5) by (auto simp: ps(1))
    have "ins_post cap k parent (rr # rs) lo b g t (Some (Some ?s)) t2"
      by (rule ins_post_splitI [OF _ st fa g(4) L R sp _ _ _ ks di sub ex])
        (use ad(5) t2(1) s' g(2) pv [OF t2(5)] in \<open>simp_all add: ps(1)\<close>)
    then show ?thesis using i w by (auto simp: insert_internal_tree_node_def s)
  qed
qed

section \<open>The descent\<close>

text \<open>The links to the previous page around a child that was updated.\<close>

definition zleaves :: "'k ctail \<Rightarrow> nat list" where
  "zleaves z = (case z of None \<Rightarrow> [] | Some (k, qs, t) \<Rightarrow> map fst (gleaves_list qs @ gleaves t))"

lemma plug_leaf_addrs:
  assumes "plug ps1 z c = (ps, t)"
  shows "map fst (gleaves_list ps @ gleaves t) = map fst (gleaves_list ps1) @ leaf_addrs c @ zleaves z"
  using assms by (auto simp: plug_def zleaves_def split: option.splits)

lemma zleaves_sub: "set (zleaves z) \<subseteq> set (zaddrs z)"
  using leaf_addrs_sub by (fastforce simp: zleaves_def zaddrs_def split: option.splits)

lemma distinct_zleaves: "distinct (zaddrs z) \<Longrightarrow> distinct (zleaves z)"
  using distinct_leaf_addrs leaf_addrs_sub by (fastforce simp: zleaves_def zaddrs_def split: option.splits)

lemma zright_leaf: "last (zright rs z) = (if z = None then last rs else Some (hd (zleaves z)))"
  by (auto simp: zright_def zleaves_def last_map hd_map first_child_leaf [symmetric] simp del: map_append split: option.splits)

lemma hd_zleaves: "z \<noteq> None \<Longrightarrow> hd (zleaves z) \<in> set (zaddrs z)"
proof -
  assume "z \<noteq> None"
  then have "zleaves z \<noteq> []" by (auto simp: zleaves_def)
  then show ?thesis using zleaves_sub [of z] hd_in_set [of "zleaves z"] by blast
qed

lemma prev_post_plug:
  assumes post: "prev_post h h' (zright rs z) (leaf_addrs c) cs" and cs: "cs \<noteq> []"
    and ex: "\<forall>x. x \<in> set as \<or> x \<in> set (zleaves z) \<or> last rs = Some x \<longrightarrow> last (zright rs z) \<noteq> Some x \<longrightarrow> page_prev h' x = page_prev h x"
    and as: "\<forall>x \<in> set as. last (zright rs z) \<noteq> Some x" and di: "distinct (zleaves z)"
    and rs: "z \<noteq> None \<longrightarrow> last rs \<noteq> Some (hd (zleaves z))"
  shows "prev_post h h' rs (as @ leaf_addrs c @ zleaves z) (as @ cs @ zleaves z)"
proof -
  have c1: "prev_chain h' p as = prev_chain h p as" for p using ex as by (intro prev_chain_cong) auto
  have c2: "\<forall>p. prev_chain h p (leaf_addrs c) \<longrightarrow> prev_chain h' p cs"
    and c3: "\<forall>x. last (zright rs z) = Some x \<longrightarrow> page_prev h x = Some (last (leaf_addrs c)) \<longrightarrow> page_prev h' x = Some (last cs)"
    using post by (auto simp: prev_post_def)
  show ?thesis
  proof (cases z)
    case None
    then show ?thesis using c1 c2 c3 cs by (auto simp: prev_post_def prev_chain_append zright_leaf zleaves_def)
  next
    case (Some y)
    then obtain x xs where z: "zleaves z = x # xs" by (cases "zleaves z") (auto simp: zleaves_def split: prod.splits)
    have zne: "z \<noteq> None" by (simp add: Some)
    have zx: "last (zright rs z) = Some x" by (simp add: zright_leaf Some z [unfolded Some])
    have c4: "prev_chain h' (Some x) xs = prev_chain h (Some x) xs" using ex di by (intro prev_chain_cong) (auto simp: zx z)
    have "prev_chain h' p (as @ cs @ zleaves z)" if "prev_chain h p (as @ leaf_addrs c @ zleaves z)" for p
      using that c1 c2 c3 c4 cs by (auto simp: prev_chain_append z zx)
    moreover have "page_prev h' w = Some (last (zleaves z))" if "last rs = Some w" "page_prev h w = Some (last (zleaves z))" for w
    proof -
      have "w \<noteq> x" using rs zne that(1) by (simp add: z)
      then show ?thesis using that ex zx by auto
    qed
    ultimately show ?thesis by (auto simp: prev_post_def z)
  qed
qed

lemma ins_post_node:
  fixes t :: "('k :: {linorder, order_bot}) BPlusTree"
  assumes b: "bt cap (heap t) rs lo b (GNode a ps u)" and foc: "plug ps1 z c = (ps, u)"
      "lo_of lo ps1 \<le> k" "k < zbound b z"
    and di: "distinct (gaddrs (GNode a ps u))" "\<forall>x \<in> set (gaddrs (GNode a ps u)). x < brk t" and cap: "3 \<le> cap"
    and ro: "right_ok (heap t) (brk t) rs (set (gaddrs (GNode a ps u)))"
    and post: "ins_post cap k (Some a) (zright (tl rs) z) (lo_of lo ps1) (zbound b z) c t res t1"
  shows "\<exists>res' t'. (case res of
      None \<Rightarrow> Some (None, t1)
    | Some split_res \<Rightarrow> do { (m, t) \<leftarrow> insert_internal_tree_node cap split_res parent t1; Some (Some m, t) }) = Some (res', t') \<and>
    ins_post cap k parent rs lo b (GNode a ps u) t res' t'"
proof -
  obtain rr rs' where rs: "rs = rr # rs'" and inn: "is_inner cap (map snd ps) (child_refs ps u) rr b (heap t a)"
    and ne: "ps \<noteq> []" and bts: "bts cap (heap t) rs' lo b ps u" using b by auto
  have ad: "gaddrs_list ps @ gaddrs u = gaddrs_list ps1 @ gaddrs c @ zaddrs z" by (rule plug_simps(4) [OF foc(1)])
  have dd: "distinct (a # gaddrs_list ps1 @ gaddrs c @ zaddrs z)" using di(1) by (simp add: ad [symmetric])
  have kin: "k \<in> set (gkeys_list ps @ gkeys u) \<longleftrightarrow> k \<in> set (gkeys c)" by (rule plug_keys_in [OF bts foc])
  have frame: "\<forall>x. x \<notin> set (gaddrs c) \<longrightarrow> x < brk t \<longrightarrow> same_node (heap t x) (heap t1 x)" and bk: "brk t \<le> brk t1" and st: "same_tree t t1"
    using post by (simp_all add: ins_post_def)
  have lt: "x < brk t" if "x \<in> set (a # gaddrs_list ps1 @ gaddrs c @ zaddrs z)" for x
    using di(2) that by (simp only: gaddrs.simps ad)
  have others: "\<forall>x \<in> set (gaddrs_list ps1 @ zaddrs z). same_node (heap t x) (heap t1 x)"
    using frame dd lt by auto
  have "same_node (heap t a) (heap t1 a)" using frame dd lt by simp
  then have inn1: "is_inner cap (map snd ps) (child_refs ps u) rr b (heap t1 a)" using inn by (rule same_node_inner)
  have A: "set (gaddrs (GNode a ps u)) = insert a (set (gaddrs_list ps @ gaddrs u))" by simp
  have lr: "last rs = last rs'" using bt_right_refs(2) [OF bts] by (simp add: rs)
  have rx: "x < brk t \<and> x \<notin> set (a # gaddrs_list ps1 @ gaddrs c @ zaddrs z)" if "last rs' = Some x" for x
    using ro that unfolding right_ok_def lr gaddrs.simps ad by blast
  have exact: "\<forall>x. x \<notin> set (gaddrs c) \<longrightarrow> x < brk t \<longrightarrow> last (zright rs' z) \<noteq> Some x \<longrightarrow> heap t1 x = heap t x"
    using post by (simp add: ins_post_def rs)
  have zl: "last (zright rs' z) \<noteq> Some x" if "x \<in> set (gaddrs_list ps1) \<or> x = a" for x
  proof (cases z)
    case None
    then show ?thesis using rx [of x] that by (auto simp: zright_leaf)
  next
    case (Some y)
    then have "hd (zleaves z) \<in> set (zaddrs z)" using hd_zleaves by blast
    then show ?thesis using that dd by (auto simp: zright_leaf Some)
  qed
  have exactG: "\<forall>x. x \<notin> set (gaddrs_list ps @ gaddrs u) \<longrightarrow> x < brk t \<longrightarrow> last rs' \<noteq> Some x \<longrightarrow> heap t1 x = heap t x"
  proof (intro allI impI)
    fix x
    assume x: "x \<notin> set (gaddrs_list ps @ gaddrs u)" "x < brk t" "last rs' \<noteq> Some x"
    have "last (zright rs' z) \<noteq> Some x"
    proof (cases z)
      case None
      then show ?thesis using x(3) by (simp add: zright_leaf)
    next
      case (Some y)
      then have "hd (zleaves z) \<in> set (zaddrs z)" using hd_zleaves by blast
      then show ?thesis using x(1) unfolding ad by (auto simp: zright_leaf Some)
    qed
    then show "heap t1 x = heap t x" using exact x(1,2) unfolding ad by simp
  qed
  have pvp: "prev_post (heap t) (heap t1) rs' (map fst (gleaves_list ps @ gleaves u)) (map fst (gleaves_list ps1) @ cs @ zleaves z)"
    if "prev_post (heap t) (heap t1) (zright rs' z) (leaf_addrs c) cs" "cs \<noteq> []" for cs
    unfolding plug_leaf_addrs [OF foc(1)]
  proof (rule prev_post_plug [OF that])
    have sub: "set (map fst (gleaves_list ps1)) \<subseteq> set (gaddrs_list ps1)" "set (zleaves z) \<subseteq> set (zaddrs z)"
      using leaf_addrs_sub zleaves_sub by fastforce+
    show "\<forall>x \<in> set (map fst (gleaves_list ps1)). last (zright rs' z) \<noteq> Some x" using zl sub by blast
    show "distinct (zleaves z)" using dd by (auto intro!: distinct_zleaves)
    show "z \<noteq> None \<longrightarrow> last rs' \<noteq> Some (hd (zleaves z))"
    proof
      assume "z \<noteq> None"
      then have "hd (zleaves z) \<in> set (zaddrs z)" by (rule hd_zleaves)
      then show "last rs' \<noteq> Some (hd (zleaves z))" using rx [of "hd (zleaves z)"] by auto
    qed
    show "\<forall>x. x \<in> set (map fst (gleaves_list ps1)) \<or> x \<in> set (zleaves z) \<or> last rs' = Some x \<longrightarrow> last (zright rs' z) \<noteq> Some x \<longrightarrow>
        page_prev (heap t1) x = page_prev (heap t) x"
    proof (intro allI impI)
      fix x
      assume x: "x \<in> set (map fst (gleaves_list ps1)) \<or> x \<in> set (zleaves z) \<or> last rs' = Some x" "last (zright rs' z) \<noteq> Some x"
      have "x \<notin> set (gaddrs c) \<and> x < brk t" using x(1)
      proof (elim disjE)
        assume "x \<in> set (map fst (gleaves_list ps1))"
        then have "x \<in> set (gaddrs_list ps1)" using sub(1) by blast
        then show ?thesis using dd lt by auto
      next
        assume "x \<in> set (zleaves z)"
        then have "x \<in> set (zaddrs z)" using sub(2) by blast
        then show ?thesis using dd lt by auto
      next
        assume "last rs' = Some x"
        then show ?thesis using rx by auto
      qed
      then show "page_prev (heap t1) x = page_prev (heap t) x" using exact x(2) by (simp add: page_prev_def)
    qed
  qed
  consider "res = None" | "res = Some None" | s where "res = Some (Some s)" by (cases res; cases "the res") auto
  then show ?thesis
  proof cases
    case 1
    then show ?thesis using post kin by (auto simp: ins_post_def)
  next
    case 2
    obtain c' where c': "bt cap (heap t1) (zright rs' z) (lo_of lo ps1) (zbound b z) c'" "spine c' = spine c"
      "set (gkeys c') = insert k (set (gkeys c))" "distinct (gaddrs c')" "set (gaddrs c') \<subseteq> set (gaddrs c) \<union> {brk t ..< brk t1}"
      "prev_post (heap t) (heap t1) (zright rs' z) (leaf_addrs c) (leaf_addrs c')"
      and kc: "k \<notin> set (gkeys c)" using post by (auto simp: ins_post_def 2 rs)
    obtain ps' u' where pl: "plug ps1 z c' = (ps', u')" by (cases "plug ps1 z c'")
    note r = plug_replace [OF bts foc(1) others c'(1,2) pl]
    have B: "bt cap (heap t1) rs lo b (GNode a ps' u')"
      using r inn1 ne plug_simps(1) [OF pl] plug_simps(1) [OF foc(1)] by (auto simp: rs)
    have k': "set (gkeys_list ps' @ gkeys u') = insert k (set (gkeys_list ps @ gkeys u))"
      unfolding plug_simps(3) [OF pl] plug_simps(3) [OF foc(1)] using c'(3) by auto
    have "distinct (a # gaddrs_list ps' @ gaddrs u')"
      "set (gaddrs_list ps' @ gaddrs u') \<subseteq> set (gaddrs_list ps @ gaddrs u) \<union> {brk t ..< brk t1}"
      unfolding plug_simps(4) [OF pl] ad using dd c'(4,5) lt by fastforce+
    then have "ins_post cap k parent rs lo b (GNode a ps u) t (Some None) t1"
      by (intro ins_post_insertedI [OF bk st _ _ B])
        (use frame exactG r(2) k' kin kc ad pvp [OF c'(6)] lr plug_leaf_addrs [OF pl] in \<open>auto simp: spine_GNode prev_post_def\<close>)
    then show ?thesis by (simp add: 2 insert_internal_tree_node_def)
  next
    case (3 s)
    obtain l r where lr': "bt cap (heap t1) (map Some (spine r)) (lo_of lo ps1) (split_pivot s) l"
      "bt cap (heap t1) (zright rs' z) (split_pivot s) (zbound b z) r" "spine l = spine c"
      "new_right_node s = Some (gaddr r)" "parent_latch s = Some a"
      "set (gkeys l @ gkeys r) = insert k (set (gkeys c))" "distinct (gaddrs l @ gaddrs r)"
      "set (gaddrs l @ gaddrs r) \<subseteq> set (gaddrs c) \<union> {brk t ..< brk t1}"
      "prev_post (heap t) (heap t1) (zright rs' z) (leaf_addrs c) (leaf_addrs l @ leaf_addrs r)"
      and kc: "k \<notin> set (gkeys c)" using post by (auto simp: ins_post_def 3 rs)
    let ?p = "split_pivot s"
    obtain ps' u' where pl: "plug (ps1 @ [(l, ?p)]) z r = (ps', u')" by (cases "plug (ps1 @ [(l, ?p)]) z r")
    note q = plug_replace_split [OF bts foc(1) others lr'(1,3,2) pl]
    have pb: "lo_of lo ps1 < ?p" "?p < zbound b z" using bt_bounds(1) lr'(1,2) by blast+
    have "lo_of lo (ps1 @ [(l, ?p)]) = ?p" by (simp add: lo_of_def)
    then have "?p < b" using bt_bounds(2) [OF q(1)] q(3) by (metis in_set_conv_decomp in_set_conv_nth list.set_map map_eq_conv image_iff)
    moreover have pos: "length ps1 = length (takeWhile (\<lambda>x. x \<le> ?p) (map snd ps))"
      using focus_pos [OF bts foc(1) less_imp_le [OF pb(1)] pb(2)] by simp
    moreover have "set (gkeys_list ps' @ gkeys u') = insert k (set (gkeys (GNode a ps u)))"
      unfolding plug_simps(3) [OF pl] gkeys.simps plug_simps(3) [OF foc(1)] using lr'(6) by auto
    moreover have "distinct (gaddrs_list ps' @ gaddrs u')"
      "set (gaddrs_list ps' @ gaddrs u') \<subseteq> set (gaddrs_list ps @ gaddrs u) \<union> {brk t ..< brk t1}"
      unfolding plug_simps(4) [OF pl] ad using dd lr'(7,8) lt by fastforce+
    moreover have "\<forall>x. x \<notin> set (gaddrs_list ps @ gaddrs u) \<longrightarrow> x < brk t \<longrightarrow> same_node (heap t x) (heap t1 x)"
      using frame by (simp add: ad)
    moreover have "prev_post (heap t) (heap t1) rs' (leaf_addrs (GNode a ps u)) (map fst (gleaves_list ps' @ gleaves u'))"
      using pvp [OF lr'(9)] plug_leaf_addrs [OF pl] by simp
    moreover have "\<forall>x. last rs' = Some x \<longrightarrow> x < brk t \<and> x \<noteq> a" using rx by auto
    moreover have "k \<notin> set (gkeys (GNode a ps u))" using kin kc by simp
    moreover have "a \<notin> set (gaddrs_list ps @ gaddrs u)" "a < brk t" "\<forall>x \<in> set (gaddrs_list ps @ gaddrs u). x < brk t"
      using di by auto
    ultimately obtain res' t' where "insert_internal_tree_node cap (Some s) parent t1 = Some (res', t')"
      "ins_post cap k parent (rr # rs') lo b (GNode a ps u) t (Some res') t'"
      using ins_post_inner_split [where t = t and A = "set (gaddrs_list ps @ gaddrs u)" and g = "GNode a ps u" and k = k and s = s
          and parent = parent, OF inn1 bt_separators [OF bts] _ pos _ q(1) q(3) q(4)]
        ne bk st A q(2) cap lr'(4,5) exactG by (auto simp: spine_GNode)
    then show ?thesis by (auto simp: 3 rs)
  qed
qed

lemma bt_first_key: "bt cap h rs lo b g \<Longrightarrow> \<exists>fk. first_key (h (gaddr g)) = Some fk"
  by (cases g) (auto simp: is_page_def is_inner_def first_key_def front_def slot_def)

lemma check_root_noop:
  assumes "ins_post cap k parent rs lo b g t (Some m) t'" and "root t = Some (gaddr g)"
  shows "check_root_modification cap m parent t' = Some t'"
proof (cases m)
  case (Some s)
  obtain l R where l: "bt cap (heap t') R lo (split_pivot s) l" "spine l = spine g" "left_node_latch s = Some (gaddr g)"
    using assms(1) unfolding ins_post_def Some option.case by blast
  have "gaddr l = gaddr g" using l(2) hd_spine by metis
  then show ?thesis using bt_first_key [OF l(1)] assms l(3) by (auto simp: check_root_modification_def Some ins_post_def same_tree_def)
qed (simp add: check_root_modification_def)

lemma mut_search_leaf: "bt cap (heap t) rs lo b (GLeaf a ks) \<Longrightarrow> mut_search t (Some a) k = Some MutExternal"
  by (subst mut_search.simps) (auto simp: is_page_def)

lemma mut_search_node:
  assumes "bt cap (heap t) rs lo b (GNode a ps u)" and "plug ps1 z c = (ps, u)"
    and "length ps1 = length (takeWhile (\<lambda>x. x \<le> k) (map snd ps))"
  shows "mut_search t (Some a) k = Some (MutInternal (Some (gaddr c)))"
proof -
  obtain rr where i: "is_inner cap (map snd ps) (child_refs ps u) rr b (heap t a)" and bts: "bts cap (heap t) (tl rs) lo b ps u"
    using assms(1) by auto
  obtain n prest where n: "heap t a = Internal n" "in_ptrs n = child_refs ps u @ prest" using i by (auto simp: is_inner_def)
  have "in_search n k = Some (length ps1)"
    unfolding assms(3) by (rule in_search_inner [OF i [unfolded n(1)] bt_separators [OF bts]])
  moreover have "slot (in_ptrs n) (length ps1) = Some (Some (gaddr c))"
    by (simp add: n(2) slot_def plug_simps(2) [OF assms(2)] nth_append)
  ultimately show ?thesis by (subst mut_search.simps) (simp add: n(1))
qed

lemma insert_descent:
  assumes "bt cap (heap t) rs lo b g" and "lo \<le> k" and "k < b" and "3 \<le> cap" and "distinct (gaddrs g)"
    and "\<forall>a \<in> set (gaddrs g). a < brk t" and "right_ok (heap t) (brk t) rs (set (gaddrs g))"
    and "level = 0 \<longrightarrow> root t = Some (gaddr g)"
  shows "\<exists>res t'. insert_to_tree_node cap (Some (gaddr g)) parent k level t = Some (res, t') \<and> ins_post cap k parent rs lo b g t res t'"
  using assms
proof (induction g arbitrary: rs lo b parent level rule: measure_induct_rule [of size])
  case (less g)
  have fin: ?case if "mut_search t (Some (gaddr g)) k = Some sr"
      "(case sr of MutExternal \<Rightarrow> insert_external_tree_node cap (Some (gaddr g)) parent k t
        | MutInternal sub \<Rightarrow> do {
            (res, t) \<leftarrow> insert_to_tree_node cap sub (Some (gaddr g)) k (level + 1) t;
            (case res of
               None \<Rightarrow> Some (None, t)
             | Some split_res \<Rightarrow> do {
                 (m, t) \<leftarrow> insert_internal_tree_node cap split_res parent t;
                 Some (Some m, t) }) }) = Some (res, t1)"
      "ins_post cap k parent rs lo b g t res t1" for sr res t1
  proof (cases res)
    case None
    then show ?thesis using that by (subst insert_to_tree_node.simps) simp
  next
    case (Some m)
    then show ?thesis using that less.prems(8) check_root_noop [of cap k parent rs lo b g t m t1]
      by (subst insert_to_tree_node.simps) (cases "level = 0"; simp)
  qed
  show ?case
  proof (cases g)
    case (GLeaf a ks)
    have "a < brk t" "right_ok (heap t) (brk t) rs {a}" using less.prems(6,7) by (simp_all add: GLeaf)
    from ins_post_leaf [OF less.prems(1) [unfolded GLeaf] less.prems(2-4) this, of parent]
    show ?thesis using fin [of MutExternal] mut_search_leaf [of cap t rs lo b a ks] less.prems(1) by (auto simp: GLeaf)
  next
    case (GNode a ps u)
    have bts: "bts cap (heap t) (tl rs) lo b ps u" and rne: "rs = hd rs # tl rs" "tl rs \<noteq> []"
      using less.prems(1) bt_right_refs(2) [of cap "heap t" "tl rs" lo b ps u] by (auto simp: GNode)
    obtain ps1 z c where foc: "plug ps1 z c = (ps, u)" "length ps1 = length (takeWhile (\<lambda>x. x \<le> k) (map snd ps))"
        "lo_of lo ps1 \<le> k" "k < zbound b z" "size c \<le> size_list (size_prod size (\<lambda>_. 0)) ps + size u"
      using focus_exists [OF bts less.prems(2,3)] by blast
    have ad: "gaddrs_list ps @ gaddrs u = gaddrs_list ps1 @ gaddrs c @ zaddrs z" by (rule plug_simps(4) [OF foc(1)])
    have di: "distinct (gaddrs_list ps @ gaddrs u)" "\<forall>x \<in> set (gaddrs_list ps @ gaddrs u). x < brk t" using less.prems(5,6) by (auto simp: GNode)
    have "last rs = last (tl rs)" using rne by (metis last_ConsR)
    then have "right_ok (heap t) (brk t) (tl rs) (set (gaddrs_list ps @ gaddrs u))"
      using less.prems(7) by (auto simp: GNode right_ok_def)
    then have "right_ok (heap t) (brk t) (zright (tl rs) z) (set (gaddrs c))"
      by (rule right_ok_child [OF _ bts foc(1) di])
    moreover have "bt cap (heap t) (zright (tl rs) z) (lo_of lo ps1) (zbound b z) c"
      using bts_child plug_bts [OF foc(1)] bts by blast
    moreover have "size c < size g" using foc(5) by (simp add: GNode)
    moreover have "distinct (gaddrs c)" "\<forall>x \<in> set (gaddrs c). x < brk t" using di unfolding ad by auto
    ultimately obtain res1 t1 where "insert_to_tree_node cap (Some (gaddr c)) (Some a) k (level + 1) t = Some (res1, t1)"
      and post: "ins_post cap k (Some a) (zright (tl rs) z) (lo_of lo ps1) (zbound b z) c t res1 t1"
      using less.IH [of c "zright (tl rs) z" "lo_of lo ps1" "zbound b z" "level + 1" "Some a"] foc(3,4) less.prems(4) by auto
    moreover obtain res t' where "(case res1 of
          None \<Rightarrow> Some (None, t1)
        | Some split_res \<Rightarrow> do { (m, t) \<leftarrow> insert_internal_tree_node cap split_res parent t1; Some (Some m, t) }) = Some (res, t')"
      "ins_post cap k parent rs lo b g t res t'"
      using ins_post_node [OF less.prems(1) [unfolded GNode] foc(1,3,4) less.prems(5,6) [unfolded GNode] less.prems(4) less.prems(7) [unfolded GNode] post, of parent]
      by (auto simp: GNode)
    moreover have "mut_search t (Some (gaddr g)) k = Some (MutInternal (Some (gaddr c)))"
      using mut_search_node [OF less.prems(1) [unfolded GNode] foc(1,2)] by (simp add: GNode)
    ultimately show ?thesis using fin [of "MutInternal (Some (gaddr c))" res t'] by (simp add: GNode)
  qed
qed

section \<open>The whole tree\<close>

definition tree_at :: "nat \<Rightarrow> ('k :: {linorder, order_bot, order_top}) BPlusTree \<Rightarrow> 'k gtree \<Rightarrow> bool" where
  "tree_at cap t g \<longleftrightarrow> root t = Some (gaddr g) \<and> (\<exists>rs. set rs \<subseteq> {None} \<and> bt cap (heap t) rs bot top g) \<and>
     distinct (gaddrs g) \<and> (\<forall>a \<in> set (gaddrs g). a < brk t) \<and> prev_chain (heap t) None (leaf_addrs g)"

lemma tree_at_len [simp]: "tree_at cap (t\<lparr>tree_len := n\<rparr>) g = tree_at cap t g"
  by (simp add: tree_at_def)

text \<open>The tree holds a set of keys and counts them.\<close>

definition btree_holds :: "nat \<Rightarrow> ('k :: {linorder, order_bot, order_top}) BPlusTree \<Rightarrow> 'k set \<Rightarrow> bool" where
  "btree_holds cap t S \<longleftrightarrow> (\<exists>g. tree_at cap t g \<and> set (gkeys g) = S) \<and> tree_len t = of_nat (card S)"

lemma btree_holds_finite: "btree_holds cap t S \<Longrightarrow> finite S"
  by (auto simp: btree_holds_def)

lemma btree_holds_new:
  assumes "(bot :: 'k :: {linorder, order_bot, order_top}) < top"
  shows "btree_holds cap (BPlusTree_new cap D ids :: 'k BPlusTree) {}"
  using assms
  by (auto simp: btree_holds_def tree_at_def BPlusTree_new_def new_page_id_def alloc_node_def Let_def is_page_def ExtNode_new_def
      slice_init_def page_prev_def intro!: exI [of _ "GLeaf 2 []"] exI [of _ "[None]"])

lemma btree_insert_holds:
  assumes h: "btree_holds cap t S" and k: "k < top" and cap: "3 \<le> cap"
  shows "\<exists>t'. btree_insert cap k t = Some (k \<notin> S, t') \<and> btree_holds cap t' (insert k S)"
proof -
  obtain g rs where g: "root t = Some (gaddr g)" "set rs \<subseteq> {None}" "bt cap (heap t) rs bot top g" "distinct (gaddrs g)"
      "\<forall>a \<in> set (gaddrs g). a < brk t" "set (gkeys g) = S" and tl: "tree_len t = of_nat (card S)"
    and pc: "prev_chain (heap t) None (leaf_addrs g)"
    using h by (auto simp: btree_holds_def tree_at_def)
  have fin: "finite S" using g(6) by auto
  have "rs \<noteq> []" using bt_right_refs(1) [OF g(3)] .
  then have "last rs = None" using g(2) last_in_set by fastforce
  then have "right_ok (heap t) (brk t) rs (set (gaddrs g))" by (simp add: right_ok_def)
  from insert_descent [OF g(3) bot_least k cap g(4,5) this, of 0 "root_versioning t"]
  obtain res t1 where i: "insert_to_tree_node cap (root t) (root_versioning t) k 0 t = Some (res, t1)"
    and post: "ins_post cap k (root_versioning t) rs bot top g t res t1" using g(1) by auto
  have st: "same_tree t t1" and bk: "brk t \<le> brk t1" using post by (simp_all add: ins_post_def)
  consider "res = None" | "res = Some None" | s where "res = Some (Some s)" by (cases res; cases "the res") auto
  then show ?thesis
  proof cases
    case 1
    then have "k \<in> S" "heap t1 = heap t" "brk t1 = brk t" using post g(6) by (auto simp: ins_post_def)
    then have "btree_holds cap t1 (insert k S)" using h st by (simp add: btree_holds_def tree_at_def same_tree_def insert_absorb)
    then show ?thesis using i 1 \<open>k \<in> S\<close> by (simp add: btree_insert_def)
  next
    case 2
    then obtain g' where g': "bt cap (heap t1) rs bot top g'" "spine g' = spine g" "set (gkeys g') = insert k S" "distinct (gaddrs g')"
        "set (gaddrs g') \<subseteq> set (gaddrs g) \<union> {brk t ..< brk t1}" "prev_chain (heap t1) None (leaf_addrs g')" and nk: "k \<notin> S"
      using post g(6) pc by (auto simp: ins_post_def prev_post_def)
    have "gaddr g' = gaddr g" using g'(2) hd_spine by metis
    moreover have "\<forall>a \<in> set (gaddrs g'). a < brk t1" using g'(5) g(5) bk by fastforce
    ultimately have "tree_at cap t1 g'" using g g' st by (auto simp: tree_at_def same_tree_def)
    then have "btree_holds cap (t1\<lparr>tree_len := tree_len t1 + 1\<rparr>) (insert k S)"
      using g'(3) tl st nk fin by (auto simp: btree_holds_def same_tree_def)
    then show ?thesis using i 2 nk by (simp add: btree_insert_def)
  next
    case (3 s)
    obtain l r where lr: "bt cap (heap t1) (map Some (spine r)) bot (split_pivot s) l" "bt cap (heap t1) rs (split_pivot s) top r"
        "spine l = spine g" "new_right_node s = Some (gaddr r)" "set (gkeys l @ gkeys r) = insert k S"
        "distinct (gaddrs l @ gaddrs r)" "set (gaddrs l @ gaddrs r) \<subseteq> set (gaddrs g) \<union> {brk t ..< brk t1}"
        "prev_chain (heap t1) None (leaf_addrs l @ leaf_addrs r)" and nk: "k \<notin> S"
      using post g(6) pc by (auto simp: ins_post_def 3 prev_post_def)
    let ?g = "GNode (brk t1) [(l, split_pivot s)] r"
    let ?n = "Internal ((InNode_new cap 1 top)\<lparr>in_keys := (slice_init bot cap)[0 := split_pivot s],
        in_ptrs := (slice_init None (cap + 1))[0 := Some (gaddr g), Suc 0 := Some (gaddr r)]\<rparr>)"
    let ?t = "t1\<lparr>heap := (heap t1)(brk t1 := ?n), brk := Suc (brk t1), root := Some (brk t1), tree_len := tree_len t1 + 1\<rparr>"
    have gl: "gaddr l = gaddr g" using lr(3) hd_spine by metis
    have lt: "\<forall>a \<in> set (gaddrs l @ gaddrs r). a < brk t1" using lr(7) g(5) bk by fastforce
    have "is_inner cap [split_pivot s] (child_refs [(l, split_pivot s)] r) None top ?n"
    proof -
      obtain c where "cap = Suc c" using cap by (cases cap) auto
      then show ?thesis by (auto simp: is_inner_def InNode_new_def slice_init_def child_refs_def gl)
    qed
    moreover have "bt cap ((heap t1)(brk t1 := ?n)) (map Some (spine r)) bot (split_pivot s) l"
      "bt cap ((heap t1)(brk t1 := ?n)) rs (split_pivot s) top r"
      by (rule bt_frame(1) [OF lr(1)], use lt in force, rule bt_frame(1) [OF lr(2)], use lt in force)
    ultimately have "bt cap (heap ?t) (None # rs) bot top ?g" using bt_bounds(1) [OF lr(1)] by simp
    moreover have "set (leaf_addrs l @ leaf_addrs r) \<subseteq> set (gaddrs l @ gaddrs r)"
      using leaf_addrs_sub(1) [of l] leaf_addrs_sub(1) [of r] by auto
    then have "\<forall>a \<in> set (leaf_addrs l @ leaf_addrs r). page_prev (heap ?t) a = page_prev (heap t1) a"
      using lt by (auto simp: page_prev_def)
    then have "prev_chain (heap ?t) None (leaf_addrs ?g)" using lr(8) prev_chain_cong [of _ "heap ?t" "heap t1" None] by simp
    ultimately have "tree_at cap ?t ?g" using lr(6) lt g(2) by (auto simp: tree_at_def less_Suc_eq intro!: exI [of _ "None # rs"])
    then have "btree_holds cap ?t (insert k S)"
      using lr(5) tl st nk fin by (auto simp: btree_holds_def same_tree_def intro!: exI [of _ ?g])
    moreover have "btree_insert cap k t = Some (True, ?t)"
      using i 3 lr(4) g(1) st cap by (simp add: btree_insert_def InNode_new_def slice_init_def alloc_node_def same_tree_def)
    ultimately show ?thesis using nk by auto
  qed
qed

text \<open>A sequence of insertions.\<close>

fun inserts :: "nat \<Rightarrow> 'k list \<Rightarrow> ('k :: {linorder, order_bot, order_top}) BPlusTree \<Rightarrow> 'k BPlusTree option" where
  "inserts cap [] t = Some t"
| "inserts cap (k # ks) t = do { (_, t) \<leftarrow> btree_insert cap k t; inserts cap ks t }"

lemma inserts_hold:
  assumes "btree_holds cap t S" and "\<forall>k \<in> set ks. k < top" and "3 \<le> cap"
  shows "\<exists>t'. inserts cap ks t = Some t' \<and> btree_holds cap t' (S \<union> set ks)"
  using assms
proof (induction ks arbitrary: t S)
  case (Cons k ks)
  obtain t' where t': "btree_insert cap k t = Some (k \<notin> S, t')" "btree_holds cap t' (insert k S)"
    using btree_insert_holds [OF Cons.prems(1) _ Cons.prems(3), of k] Cons.prems(2) by auto
  then show ?case using Cons.IH [OF t'(2)] Cons.prems(2,3) by auto
qed auto

section \<open>Properties\<close>

text \<open>C7: insertion into the B+ tree is insertion into a set: on a well-formed tree it returns, answers
  whether the key is new, and leaves a well-formed tree that holds the old keys and the new one.\<close>

theorem btree_insert_refines:
  assumes "btree_holds cap t S" and "k < top" and "3 \<le> cap"
  shows "\<exists>t'. btree_insert cap k t = Some (k \<notin> S, t') \<and> btree_holds cap t' (insert k S)"
  using assms by (rule btree_insert_holds)

theorem btree_insert_refines_witness:
  "btree_holds LEVEL_M (BPlusTree_new LEVEL_M {} (\<lambda>_. \<lparr>higher = 0, lower = 0\<rparr>) :: u8 BPlusTree) {} \<and>
   (\<exists>t'. btree_insert LEVEL_M (5 :: u8) (BPlusTree_new LEVEL_M {} (\<lambda>_. \<lparr>higher = 0, lower = 0\<rparr>)) = Some ((5 :: u8) \<notin> {}, t') \<and>
     btree_holds LEVEL_M t' (insert 5 {}))"
proof
  have lt: "(bot :: u8) < top" "(5 :: u8) < top" by (simp_all add: order_less_le bot_word_def top_word_def)
  show "btree_holds LEVEL_M (BPlusTree_new LEVEL_M {} (\<lambda>_. \<lparr>higher = 0, lower = 0\<rparr>) :: u8 BPlusTree) {}"
    by (rule btree_holds_new [OF lt(1)])
  show "\<exists>t'. btree_insert LEVEL_M (5 :: u8) (BPlusTree_new LEVEL_M {} (\<lambda>_. \<lparr>higher = 0, lower = 0\<rparr>)) = Some ((5 :: u8) \<notin> {}, t') \<and>
     btree_holds LEVEL_M t' (insert 5 {})"
    by (rule btree_insert_refines [OF btree_holds_new [OF lt(1)] lt(2)]) (simp add: LEVEL_M_def)
qed

end
