(* ===== verification/Neb_BTree_Cursor.thy ===== *)
theory Neb_BTree_Cursor
  imports Neb_BTree_Insert
begin

text \<open>
  Search and forward cursors of the B+ tree. A search goes down to the page where the key belongs; a
  forward cursor then follows the links between the pages and meets all greater keys in order.
\<close>

section \<open>The chain of pages\<close>

fun chain :: "nat \<Rightarrow> (nat \<Rightarrow> 'k NodeData) \<Rightarrow> NodeCellRef \<Rightarrow> (nat \<times> 'k list) list \<Rightarrow> bool" where
  "chain cap h r [] = True"
| "chain cap h r ((a, ks) # ls) =
     ((\<exists>b. is_page cap ks (case ls of [] \<Rightarrow> r | l # _ \<Rightarrow> Some (fst l)) b (h a)) \<and> chain cap h r ls)"

lemma chain_append:
  "ms \<noteq> [] \<Longrightarrow> chain cap h r (ls @ ms) \<longleftrightarrow> chain cap h (Some (fst (hd ms))) ls \<and> chain cap h r ms"
proof (induction ls)
  case (Cons l ls)
  then show ?case by (cases l; cases ls; cases ms) auto
qed simp

lemma bt_chain:
  fixes h :: "nat \<Rightarrow> ('k :: {linorder, order_bot}) NodeData"
  shows "bt cap h rs lo b t \<Longrightarrow> chain cap h (last rs) (gleaves t)"
    and "bts cap h rs lo b ps t \<Longrightarrow> chain cap h (last rs) (gleaves_list ps @ gleaves t)"
proof (induction cap h rs lo b t and cap h rs lo b ps t rule: bt_bts.induct)
  case (2 cap h rs lo b a ps t)
  then show ?case using bt_right_refs(2) by (fastforce simp: last_ConsR)
next
  case (4 cap h rs lo b u k ps t)
  have "last (map Some (spine (first_child ps t))) = Some (fst (hd (gleaves_list ps @ gleaves t)))"
    by (simp add: last_map first_child_leaf)
  then show ?case using 4 chain_append [of "gleaves_list ps @ gleaves t" cap h "last rs" "gleaves u"] by simp
qed auto

lemma bt_leaves_ne:
  fixes h :: "nat \<Rightarrow> ('k :: {linorder, order_bot}) NodeData"
  shows "bt cap h rs lo b t \<Longrightarrow> last rs \<noteq> None \<or> lo \<noteq> bot \<or> length (gleaves t) \<noteq> 1 \<Longrightarrow> \<forall>l \<in> set (gleaves t). snd l \<noteq> []"
    and "bts cap h rs lo b ps t \<Longrightarrow> last rs \<noteq> None \<or> lo \<noteq> bot \<or> ps \<noteq> [] \<or> length (gleaves t) \<noteq> 1 \<Longrightarrow>
      \<forall>l \<in> set (gleaves_list ps @ gleaves t). snd l \<noteq> []"
proof (induction cap h rs lo b t and cap h rs lo b ps t rule: bt_bts.induct)
  case (2 cap h rs lo b a ps t)
  then show ?case by auto
next
  case (4 cap h rs lo b u k ps t)
  have "last (map Some (spine (first_child ps t))) \<noteq> None" by (simp add: last_map)
  moreover have "k \<noteq> bot" using 4(3) by auto
  ultimately show ?case using 4 by auto
qed auto

section \<open>Search\<close>

text \<open>The page where a key belongs: all keys before it are smaller and all after it greater.\<close>

lemma focus_exists_right:
  assumes "bts cap h rs lo b ps t" and "lo \<le> k" and "b \<le> k"
  shows "length ps = length (takeWhile (\<lambda>x. x \<le> k) (map snd ps)) \<and> lo_of lo ps \<le> k"
proof -
  have "\<forall>x \<in> set (map snd ps). x \<le> k" using bt_bounds(2) [OF assms(1)] assms(3) by (auto dest: less_imp_le intro: order_trans)
  then show ?thesis using assms(2) last_in_set [of ps] by (auto simp: lo_of_def takeWhile_eq_all_conv [THEN iffD2])
qed

lemma focus_exists_any:
  assumes "bts cap h rs lo b ps t" and "lo \<le> k" and "k < b \<or> set rs \<subseteq> {None}"
  shows "\<exists>ps1 z c. plug ps1 z c = (ps, t) \<and> length ps1 = length (takeWhile (\<lambda>x. x \<le> k) (map snd ps)) \<and> lo_of lo ps1 \<le> k \<and>
    (k < zbound b z \<or> set (zright rs z) \<subseteq> {None}) \<and> (z = None \<or> k < zbound b z) \<and>
    size c \<le> size_list (size_prod size (\<lambda>_. 0)) ps + size t"
proof (cases "k < b")
  case True
  then show ?thesis using focus_exists [OF assms(1,2)] by blast
next
  case False
  then show ?thesis using focus_exists_right [OF assms(1,2)] assms(3)
    by (intro exI [of _ ps] exI [of _ None] exI [of _ t]) (auto simp: plug_def zright_def)
qed

lemma plug_leaves: "plug ps1 z c = (ps, t) \<Longrightarrow>
    gleaves_list ps @ gleaves t = gleaves_list ps1 @ gleaves c @ (case z of None \<Rightarrow> [] | Some (k, qs, u) \<Rightarrow> gleaves_list qs @ gleaves u)"
  by (auto simp: plug_def split: option.splits)

lemma before_focus:
  assumes "bts cap h R lo B ps c"
  shows "\<forall>x \<in> set (gkeys_list ps). x < lo_of lo ps"
  using assms
proof (induction ps arbitrary: lo)
  case (Cons p ps)
  obtain v l where p: "p = (v, l)" by (cases p)
  have b: "bts cap h R l B ps c" and v: "bt cap h (map Some (spine (first_child ps c))) lo l v" using Cons.prems by (simp_all add: p)
  have "l \<le> lo_of l ps" using bt_bounds(2) [OF b] last_in_set [of ps] by (auto simp: lo_of_def less_imp_le)
  then show ?case using bt_keys(1) [OF v] Cons.IH [OF b] by (auto simp: p lo_of_Cons)
qed simp

lemma not_at_right:
  assumes "bt cap (heap t) rs lo b g" and "k < b \<or> set rs \<subseteq> {None}"
  shows "key_at_right_node t (heap t (gaddr g)) k = Some None"
proof -
  have none: "hd rs = None" if "\<not> k < b" using that assms bt_right_refs(1) [OF assms(1)] by (cases rs) auto
  show ?thesis
  proof (cases g)
    case (GLeaf a ks)
    then obtain n where "heap t a = External n" "ext_len n = length ks" "ext_next n = hd rs" "ext_right_bound n = b" "ks = [] \<longrightarrow> hd rs = None"
      using assms(1) by (auto simp: is_page_def)
    then show ?thesis using none by (cases "ks = []"; cases "k < b") (auto simp: key_at_right_node_def GLeaf)
  next
    case (GNode a ps u)
    then obtain n where "heap t a = Internal n" "in_len n = length ps" "in_right n = hd rs" "in_right_bound n = b" "ps \<noteq> []"
      using assms(1) by (auto simp: is_inner_def)
    then show ?thesis using none by (cases "k < b") (auto simp: key_at_right_node_def GNode)
  qed
qed

lemma search_descent:
  assumes "bt cap (heap t) rs lo b g" and "lo \<le> k" and "k < b \<or> set rs \<subseteq> {None}"
  shows "\<exists>L1 a ks L2 n. gleaves g = L1 @ (a, ks) # L2 \<and> (\<forall>x \<in> set (concat (map snd L1)). x < k) \<and>
    (\<forall>x \<in> set (concat (map snd L2)). k < x) \<and> sorted_wrt (<) ks \<and> heap t a = External n \<and>
    search_node t (Some (gaddr g)) k ord =
      do { pos \<leftarrow> (if ord = Backward then correct_backward n k (length (takeWhile (\<lambda>x. x < k) ks))
                   else Some (length (takeWhile (\<lambda>x. x < k) ks)));
           RTCursor_new t pos (Some a) ord }"
  using assms
proof (induction g arbitrary: rs lo b rule: measure_induct_rule [of size])
  case (less g)
  note nr = not_at_right [OF less.prems(1,3)]
  show ?case
  proof (cases g)
    case (GLeaf a ks)
    obtain n where n: "heap t a = External n" "is_page cap ks (hd rs) b (External n)" "sorted_wrt (<) ks"
      using less.prems(1) by (auto simp: GLeaf is_page_def)
    have "node_search (heap t a) k = Some (length (takeWhile (\<lambda>x. x < k) ks))" using ext_search_page [OF n(2)] by (simp add: n(1))
    then show ?thesis using nr n(1,3)
      by (intro exI [of _ "[]"] exI [of _ a] exI [of _ ks] exI [of _ n]) (subst search_node.simps, simp add: GLeaf)
  next
    case (GNode a ps u)
    have bts: "bts cap (heap t) (tl rs) lo b ps u" and inn: "is_inner cap (map snd ps) (child_refs ps u) (hd rs) b (heap t a)"
      using less.prems(1) by (auto simp: GNode)
    obtain n prest where n: "heap t a = Internal n" "in_ptrs n = child_refs ps u @ prest" using inn by (auto simp: is_inner_def)
    have "k < b \<or> set (tl rs) \<subseteq> {None}" using less.prems(3) by (cases rs) auto
    then obtain ps1 z c where foc: "plug ps1 z c = (ps, u)" "length ps1 = length (takeWhile (\<lambda>x. x \<le> k) (map snd ps))" "lo_of lo ps1 \<le> k"
        "k < zbound b z \<or> set (zright (tl rs) z) \<subseteq> {None}" "z = None \<or> k < zbound b z"
        "size c \<le> size_list (size_prod size (\<lambda>_. 0)) ps + size u"
      using focus_exists_any [OF bts less.prems(2)] by blast
    have pb: "bts cap (heap t) (zright (tl rs) z) lo (zbound b z) ps1 c" "ztail cap (heap t) (tl rs) b z" using plug_bts [OF foc(1)] bts by blast+
    have "size c < size g" using foc(6) by (simp add: GNode)
    from less.IH [OF this bts_child [OF pb(1)] foc(3,4)]
    obtain L1 a' ks L2 n' where c: "gleaves c = L1 @ (a', ks) # L2" "\<forall>x \<in> set (concat (map snd L1)). x < k" "\<forall>x \<in> set (concat (map snd L2)). k < x"
        "sorted_wrt (<) ks" "heap t a' = External n'"
        "search_node t (Some (gaddr c)) k ord =
          do { pos \<leftarrow> (if ord = Backward then correct_backward n' k (length (takeWhile (\<lambda>x. x < k) ks))
                       else Some (length (takeWhile (\<lambda>x. x < k) ks)));
               RTCursor_new t pos (Some a') ord }" by blast
    let ?T = "case z of None \<Rightarrow> [] | Some (k, qs, u) \<Rightarrow> gleaves_list qs @ gleaves u"
    have before: "\<forall>x \<in> set (gkeys_list ps1). x < k" using before_focus [OF pb(1)] foc(3) less_le_trans by blast
    have after: "k < x" if x: "x \<in> set (concat (map snd ?T))" for x
    proof (cases z)
      case (Some y)
      obtain k0 qs v where z: "z = Some (k0, qs, v)" using Some by (cases y) auto
      have "x \<in> set (gkeys_list qs @ gkeys v)" using x by (simp add: z keys_gleaves [symmetric])
      then have "k0 \<le> x" using bt_keys(2) [of cap "heap t" "tl rs" k0 b qs v] pb(2) by (auto simp: z ztail_def)
      then show ?thesis using foc(5) by (simp add: z zbound_def)
    qed (use x in simp)
    have "in_search n k = Some (length ps1)" unfolding foc(2) by (rule in_search_inner [OF inn [unfolded n(1)] bt_separators [OF bts]])
    moreover have "slot (in_ptrs n) (length ps1) = Some (Some (gaddr c))"
      by (simp add: n(2) slot_def plug_simps(2) [OF foc(1)] nth_append)
    ultimately have "search_node t (Some (gaddr g)) k ord = search_node t (Some (gaddr c)) k ord"
      using nr by (subst search_node.simps) (simp add: GNode n(1))
    moreover have "gleaves g = (gleaves_list ps1 @ L1) @ (a', ks) # (L2 @ ?T)" using plug_leaves [OF foc(1)] c(1) by (simp add: GNode)
    moreover have "\<forall>x \<in> set (concat (map snd (gleaves_list ps1 @ L1))). x < k" using before c(2) by (simp add: keys_gleaves ball_Un)
    moreover have "\<forall>x \<in> set (concat (map snd (L2 @ ?T))). k < x" using c(3) after by (simp add: ball_Un)
    ultimately show ?thesis using c(4-6) by metis
  qed
qed

section \<open>Forward cursors\<close>

text \<open>A forward cursor that has the keys \<open>rem\<close> before it, the first of which is its current one.\<close>

definition fwd :: "nat \<Rightarrow> 'k BPlusTree \<Rightarrow> 'k RTCursor \<Rightarrow> 'k list \<Rightarrow> bool" where
  "fwd cap t c rem \<longleftrightarrow> cur_ordering c = Forward \<and>
     (if rem = [] then cur_page c = None \<and> cur_current c = None
      else \<exists>a ks L. cur_page c = Some (Some a) \<and> cur_current c = Some (hd rem) \<and> cur_index c < length ks \<and>
        chain cap (heap t) None ((a, ks) # L) \<and> (\<forall>l \<in> set L. snd l \<noteq> []) \<and>
        rem = drop (cur_index c) ks @ concat (map snd L))"

lemma read_current_page: "is_page cap ks r b (heap t a) \<Longrightarrow> i < length ks \<Longrightarrow> read_current t (Some a) i = Some (Some (ks ! i))"
  by (auto simp: is_page_def read_current_def slot_def nth_append)

text \<open>Moving to the next page, from whatever position.\<close>

lemma move_next_page:
  assumes ch: "chain cap (heap t) None L" and ne: "\<forall>l \<in> set L. snd l \<noteq> []" and f: "cur_ordering c = Forward"
  shows "\<exists>c'. move_page t (case L of [] \<Rightarrow> None | l # _ \<Rightarrow> Some (fst l)) c =
      Some (Answer (if L = [] then None else cur_current c) c') \<and> fwd cap t c' (concat (map snd L))"
proof (cases L)
  case Nil
  then show ?thesis using f by (simp add: move_page_def fwd_def)
next
  case (Cons l ls)
  obtain a ks where l: "l = (a, ks)" by (cases l)
  obtain r b where p: "is_page cap ks r b (heap t a)" using ch by (auto simp: Cons l)
  have k0: "ks \<noteq> []" using ne by (simp add: Cons l)
  let ?c = "c\<lparr>cur_index := 0, cur_page := Some (Some a), cur_current := Some (ks ! 0)\<rparr>"
  have "move_page t (Some a) c = Some (Answer (cur_current c) ?c)"
    using p k0 f read_current_page [OF p, of 0] by (auto simp: move_page_def is_page_def Let_def)
  moreover have "fwd cap t ?c (concat (map snd L))"
    using ch ne f k0 by (auto simp: fwd_def Cons l hd_append hd_conv_nth intro!: exI [of _ a] exI [of _ ks] exI [of _ ls])
  ultimately show ?thesis by (auto simp: Cons l)
qed

lemma next_fwd:
  assumes "fwd cap t c rem"
  shows "\<exists>c'. cursor_next t c = Some (if tl rem = [] then None else Some (hd rem), c') \<and> fwd cap t c' (tl rem)"
proof (cases rem)
  case Nil
  then have "cur_page c = None" using assms by (simp add: fwd_def)
  then have "cursor_next t c = Some (None, c)" by (simp add: cursor_next_def next_candidate.simps cursor_step_def)
  then show ?thesis using assms by (simp add: Nil)
next
  case (Cons k rest)
  obtain a ks L where c: "cur_page c = Some (Some a)" "cur_current c = Some k" "cur_index c < length ks"
      "chain cap (heap t) None ((a, ks) # L)" "\<forall>l \<in> set L. snd l \<noteq> []" "rem = drop (cur_index c) ks @ concat (map snd L)"
    and f: "cur_ordering c = Forward" using assms by (auto simp: fwd_def Cons)
  obtain b where p: "is_page cap ks (case L of [] \<Rightarrow> None | l # _ \<Rightarrow> Some (fst l)) b (heap t a)" using c(4) by auto
  show ?thesis
  proof (cases "cur_index c + 1 < length ks")
    case True
    let ?c = "c\<lparr>cur_index := cur_index c + 1, cur_current := Some (ks ! (cur_index c + 1))\<rparr>"
    have "cursor_step t c = Some (Answer (Some k) ?c)"
      using c(1,2) f p True read_current_page [OF p True] by (auto simp: cursor_step_def is_page_def)
    moreover have tlr: "rest = drop (cur_index c + 1) ks @ concat (map snd L)"
      using c(3,6) by (simp add: Cons Cons_nth_drop_Suc [symmetric])
    moreover have "fwd cap t ?c rest" using c(1,4,5) f True
      by (auto simp: fwd_def tlr hd_append hd_drop_conv_nth intro!: exI [of _ ks] exI [of _ L])
    moreover have "rest \<noteq> []" using True by (simp add: tlr)
    ultimately show ?thesis by (simp add: Cons cursor_next_def next_candidate.simps [of t c])
  next
    case False
    then have rest: "rest = concat (map snd L)" using c(3,6) by (simp add: Cons Cons_nth_drop_Suc [symmetric])
    obtain c' where c': "move_page t (case L of [] \<Rightarrow> None | l # _ \<Rightarrow> Some (fst l)) c = Some (Answer (if L = [] then None else cur_current c) c')"
      "fwd cap t c' (concat (map snd L))" using move_next_page [of cap t L c] c(4,5) f by auto
    have "cursor_step t c = move_page t (case L of [] \<Rightarrow> None | l # _ \<Rightarrow> Some (fst l)) c"
      using c(1) f p False by (auto simp: cursor_step_def is_page_def)
    moreover have "rest = [] \<longleftrightarrow> L = []" using c(5) by (cases L) (auto simp: rest)
    ultimately show ?thesis using c' c(2) by (auto simp: Cons rest cursor_next_def next_candidate.simps [of t c])
  qed
qed

lemma filter_ge_sorted: "sorted_wrt (<) ks \<Longrightarrow> filter (\<lambda>x. k \<le> x) ks = drop (length (takeWhile (\<lambda>x. x < k) ks)) (ks :: 'k :: linorder list)"
proof (induction ks)
  case (Cons x ks)
  then show ?case
  proof (cases "x < k")
    case False
    then have "\<forall>y \<in> set (x # ks). k \<le> y" using Cons.prems by (auto dest: less_imp_le intro: order_trans)
    then show ?thesis using False by (auto simp: filter_id_conv)
  qed auto
qed simp

lemma seek_fwd:
  assumes "tree_at cap t g"
  shows "\<exists>c. seek t k Forward = Some c \<and> fwd cap t c (filter (\<lambda>x. k \<le> x) (gkeys g))"
proof -
  obtain rs where r: "root t = Some (gaddr g)" "set rs \<subseteq> {None}" "bt cap (heap t) rs bot top g" using assms by (auto simp: tree_at_def)
  let ?pos = "\<lambda>ks. length (takeWhile (\<lambda>x. x < k) ks)"
  obtain L1 a ks L2 where L: "gleaves g = L1 @ (a, ks) # L2" "\<forall>x \<in> set (concat (map snd L1)). x < k" "\<forall>x \<in> set (concat (map snd L2)). k < x"
      "sorted_wrt (<) ks" and srch: "seek t k Forward = RTCursor_new t (?pos ks) (Some a) Forward"
    using search_descent [OF r(3) bot_least, of k Forward] r(1,2) by (auto simp: seek_def)
  have "rs \<noteq> []" using bt_right_refs(1) [OF r(3)] .
  then have "last rs = None" using r(2) last_in_set by fastforce
  then have ch: "chain cap (heap t) None ((a, ks) # L2)"
    using bt_chain(1) [OF r(3)] chain_append [of "(a, ks) # L2" cap "heap t" None L1] by (simp add: L(1))
  have ne: "\<forall>l \<in> set L2. snd l \<noteq> []"
  proof (cases L2)
    case (Cons l ls)
    then show ?thesis using bt_leaves_ne(1) [OF r(3)] by (simp add: L(1))
  qed simp
  have f1: "filter (\<lambda>x. k \<le> x) (concat (map snd L1)) = []" using L(2) by (auto simp: filter_empty_conv not_le)
  have f2: "filter (\<lambda>x. k \<le> x) (concat (map snd L2)) = concat (map snd L2)" using L(3) by (auto simp: filter_id_conv less_imp_le)
  have "gkeys g = concat (map snd L1) @ ks @ concat (map snd L2)" by (simp add: keys_gleaves [symmetric] L(1))
  then have rem: "filter (\<lambda>x. k \<le> x) (gkeys g) = drop (?pos ks) ks @ concat (map snd L2)"
    by (simp only: filter_append f1 f2 filter_ge_sorted [OF L(4)] append_Nil)
  obtain b where p: "is_page cap ks (case L2 of [] \<Rightarrow> None | l # _ \<Rightarrow> Some (fst l)) b (heap t a)" using ch by auto
  let ?c = "\<lparr>cur_index = ?pos ks, cur_ordering = Forward, cur_page = Some (Some a), cur_current = None\<rparr>"
  have len: "node_len (heap t a) = Some (length ks)" using p by (auto simp: is_page_def)
  show ?thesis
  proof (cases "?pos ks < length ks")
    case True
    then have "seek t k Forward = Some (?c\<lparr>cur_current := Some (ks ! ?pos ks)\<rparr>)"
      using read_current_page [OF p True] len by (simp add: srch RTCursor_new_def)
    moreover have "fwd cap t (?c\<lparr>cur_current := Some (ks ! ?pos ks)\<rparr>) (drop (?pos ks) ks @ concat (map snd L2))"
      using True ch ne by (auto simp: fwd_def hd_append hd_drop_conv_nth intro!: exI [of _ ks] exI [of _ L2])
    ultimately show ?thesis by (simp only: rem) simp
  next
    case False
    then have rem': "filter (\<lambda>x. k \<le> x) (gkeys g) = concat (map snd L2)" by (simp add: rem)
    obtain m c' where m: "move_page t (case L2 of [] \<Rightarrow> None | l # _ \<Rightarrow> Some (fst l)) ?c = Some (Answer m c')" "fwd cap t c' (concat (map snd L2))"
      using move_next_page [of cap t L2 ?c] ch ne by auto
    have "cursor_step t ?c = move_page t (case L2 of [] \<Rightarrow> None | l # _ \<Rightarrow> Some (fst l)) ?c"
      using p False by (auto simp: cursor_step_def is_page_def)
    then have "cursor_next t ?c = Some (m, c')" using m(1) by (simp add: cursor_next_def next_candidate.simps [of t ?c])
    then have "seek t k Forward = Some c'" using False len by (simp add: srch RTCursor_new_def)
    then show ?thesis using m(2) by (simp add: rem')
  qed
qed

section \<open>Backward cursors\<close>

fun pchain :: "nat \<Rightarrow> (nat \<Rightarrow> 'k NodeData) \<Rightarrow> (nat \<times> 'k list) list \<Rightarrow> bool" where
  "pchain cap h [] = True"
| "pchain cap h ((a, ks) # ls) =
     ((\<exists>r b. is_page cap ks r b (h a)) \<and> page_prev h a = (case ls of [] \<Rightarrow> None | l # _ \<Rightarrow> Some (fst l)) \<and> pchain cap h ls)"

lemma pchain_snoc:
  "chain cap h r ls \<Longrightarrow> prev_chain h p (map fst ls) \<Longrightarrow> pchain cap h ms \<Longrightarrow>
   p = (case ms of [] \<Rightarrow> None | m # _ \<Rightarrow> Some (fst m)) \<Longrightarrow> pchain cap h (rev ls @ ms)"
proof (induction ls arbitrary: p ms)
  case (Cons l ls)
  obtain a ks where l: "l = (a, ks)" by (cases l)
  have "pchain cap h (rev ls @ (a, ks) # ms)"
    by (rule Cons.IH [of "Some a"]) (use Cons.prems in \<open>auto simp: l\<close>)
  then show ?case by (simp add: l)
qed simp

definition bwd :: "nat \<Rightarrow> 'k BPlusTree \<Rightarrow> 'k RTCursor \<Rightarrow> 'k list \<Rightarrow> bool" where
  "bwd cap t c rem \<longleftrightarrow> cur_ordering c = Backward \<and>
     (if rem = [] then cur_page c = None \<and> cur_current c = None
      else \<exists>a ks L. cur_page c = Some (Some a) \<and> cur_current c = Some (hd rem) \<and> cur_index c < length ks \<and>
        pchain cap (heap t) ((a, ks) # L) \<and> (\<forall>l \<in> set L. snd l \<noteq> []) \<and>
        rem = rev (take (Suc (cur_index c)) ks) @ concat (map (rev \<circ> snd) L))"

lemma move_prev_page:
  assumes ch: "pchain cap (heap t) L" and ne: "\<forall>l \<in> set L. snd l \<noteq> []" and f: "cur_ordering c = Backward"
  shows "\<exists>c'. move_page t (case L of [] \<Rightarrow> None | l # _ \<Rightarrow> Some (fst l)) c =
      Some (Answer (if L = [] then None else cur_current c) c') \<and> bwd cap t c' (concat (map (rev \<circ> snd) L))"
proof (cases L)
  case Nil
  then show ?thesis using f by (simp add: move_page_def bwd_def)
next
  case (Cons l ls)
  obtain a ks where l: "l = (a, ks)" by (cases l)
  obtain r b where p: "is_page cap ks r b (heap t a)" using ch by (auto simp: Cons l)
  have k0: "ks \<noteq> []" using ne by (simp add: Cons l)
  let ?c = "c\<lparr>cur_index := length ks - 1, cur_page := Some (Some a), cur_current := Some (ks ! (length ks - 1))\<rparr>"
  have "move_page t (Some a) c = Some (Answer (cur_current c) ?c)"
    using p k0 f read_current_page [OF p, of "length ks - 1"] by (auto simp: move_page_def is_page_def Let_def)
  moreover have "bwd cap t ?c (concat (map (rev \<circ> snd) L))"
    using ch ne f k0 by (auto simp: bwd_def Cons l hd_append hd_rev last_conv_nth intro!: exI [of _ a] exI [of _ ks] exI [of _ ls])
  ultimately show ?thesis by (auto simp: Cons l)
qed

lemma next_bwd:
  assumes "bwd cap t c rem"
  shows "\<exists>c'. cursor_next t c = Some (if tl rem = [] then None else Some (hd rem), c') \<and> bwd cap t c' (tl rem)"
proof (cases rem)
  case Nil
  then have "cur_page c = None" using assms by (simp add: bwd_def)
  then have "cursor_next t c = Some (None, c)" by (simp add: cursor_next_def next_candidate.simps cursor_step_def)
  then show ?thesis using assms by (simp add: Nil)
next
  case (Cons k rest)
  have ne: "rem \<noteq> []" and hk: "hd rem = k" by (simp_all add: Cons)
  have f: "cur_ordering c = Backward" using assms by (simp only: bwd_def)
  obtain a ks L where c: "cur_page c = Some (Some a)" "cur_current c = Some k" "cur_index c < length ks"
      "pchain cap (heap t) ((a, ks) # L)" "\<forall>l \<in> set L. snd l \<noteq> []" "rem = rev (take (Suc (cur_index c)) ks) @ concat (map (rev \<circ> snd) L)"
    using assms unfolding bwd_def if_not_P [OF ne] hk by blast
  obtain r b where p: "is_page cap ks r b (heap t a)" and pv: "page_prev (heap t) a = (case L of [] \<Rightarrow> None | l # _ \<Rightarrow> Some (fst l))"
    using c(4) by auto
  have rest: "rest = rev (take (cur_index c) ks) @ concat (map (rev \<circ> snd) L)" using c(3,6) by (simp add: Cons take_Suc_conv_app_nth)
  show ?thesis
  proof (cases "cur_index c = 0")
    case False
    let ?i = "cur_index c - 1"
    let ?c = "c\<lparr>cur_index := ?i, cur_current := Some (ks ! ?i)\<rparr>"
    have i: "?i < length ks" using c(3) by simp
    have "cursor_step t c = Some (Answer (Some k) ?c)"
      using c(1,2,3) f p False read_current_page [OF p i] by (auto simp: cursor_step_def is_page_def)
    moreover have "hd rest = ks ! ?i" "rest \<noteq> []" using False c(3) by (auto simp: rest hd_append hd_rev last_conv_nth)
    moreover have "bwd cap t ?c rest" using c(1,4,5) f False i \<open>rest \<noteq> []\<close> \<open>hd rest = ks ! ?i\<close>
      by (auto simp: bwd_def rest intro!: exI [of _ ks] exI [of _ L])
    ultimately show ?thesis by (simp add: Cons cursor_next_def next_candidate.simps [of t c])
  next
    case True
    obtain c' where c': "move_page t (case L of [] \<Rightarrow> None | l # _ \<Rightarrow> Some (fst l)) c = Some (Answer (if L = [] then None else cur_current c) c')"
      "bwd cap t c' (concat (map (rev \<circ> snd) L))" using move_prev_page [of cap t L c] c(4,5) f by auto
    have "cursor_step t c = move_page t (case L of [] \<Rightarrow> None | l # _ \<Rightarrow> Some (fst l)) c"
      using c(1) f p True pv by (auto simp: cursor_step_def is_page_def page_prev_def)
    moreover have "rest = [] \<longleftrightarrow> L = []" using c(5) True by (cases L) (auto simp: rest)
    ultimately show ?thesis using c' c(2) True by (auto simp: Cons rest cursor_next_def next_candidate.simps [of t c])
  qed
qed

lemma pchain_suffix: "pchain cap h (ls @ ms) \<Longrightarrow> pchain cap h ms"
  by (induction ls) auto

lemma take_length_takeWhile: "take (length (takeWhile P xs)) xs = takeWhile P xs"
  by (metis append_eq_conv_conj takeWhile_dropWhile_id)

text \<open>The position a backward search starts at: the last key of the page that is not greater, or the first
  key of the page when all are greater.\<close>

lemma correct_backward_page:
  assumes p: "is_page cap ks r b (External n)" and s: "sorted_wrt (<) ks" and ne: "ks \<noteq> []"
  shows "\<exists>pos xs. correct_backward n k (length (takeWhile (\<lambda>x. x < k) ks)) = Some pos \<and> pos < length ks \<and>
    rev (take (Suc pos) ks) = xs @ rev (filter (\<lambda>x. x \<le> k) ks) \<and> length xs \<le> 1 \<and> (\<forall>x \<in> set xs. k < x)"
proof -
  define q where "q = length (takeWhile (\<lambda>x. x < k) ks)"
  obtain rest where n: "ext_len n = length ks" "ext_keys n = ks @ rest" using p by (auto simp: is_page_def)
  have qle: "q \<le> length ks" by (simp add: q_def length_takeWhile_le)
  have tq: "take q ks = takeWhile (\<lambda>x. x < k) ks" by (simp add: q_def take_length_takeWhile)
  show ?thesis
  proof (cases "q < length ks \<and> ks ! q = k")
    case True
    have d: "ks = take q ks @ k # drop (Suc q) ks" using True id_take_nth_drop [of q ks] by simp
    have "\<forall>x \<in> set (drop (Suc q) ks). \<not> x \<le> k" using s by (subst (asm) d) (auto simp: sorted_wrt_append)
    moreover have "\<forall>x \<in> set (take q ks). x \<le> k" by (auto simp: tq dest: set_takeWhileD)
    ultimately have "filter (\<lambda>x. x \<le> k) ks = take q ks @ [k]" by (subst d) (simp add: filter_id_conv filter_empty_conv)
    also have "\<dots> = take (Suc q) ks" using True by (simp add: take_Suc_conv_app_nth)
    finally have "filter (\<lambda>x. x \<le> k) ks = take (Suc q) ks" .
    then show ?thesis using True n
      by (intro exI [of _ q] exI [of _ "[]"]) (auto simp: correct_backward_def slot_def nth_append q_def [symmetric])
  next
    case False
    have gt: "\<forall>x \<in> set (drop q ks). k < x"
    proof (cases "q < length ks")
      case True
      have "\<not> ks ! q < k" using True nth_length_takeWhile [of "\<lambda>x. x < k" ks] by (simp add: q_def)
      then have kq: "k < ks ! q" using False True by simp
      have "\<forall>x \<in> set (drop (Suc q) ks). ks ! q < x" using s id_take_nth_drop [OF True] sorted_wrt_append [of "(<)" "take q ks" "ks ! q # drop (Suc q) ks"] by simp
      then show ?thesis using kq by (simp add: Cons_nth_drop_Suc [OF True, symmetric]) (meson less_trans)
    qed simp
    have f: "filter (\<lambda>x. x \<le> k) ks = take q ks"
    proof -
      have le: "\<forall>x \<in> set (take q ks). x \<le> k" by (auto simp: tq dest: set_takeWhileD)
      have gt': "\<forall>x \<in> set (drop q ks). \<not> x \<le> k" using gt by (simp add: not_le)
      have "filter (\<lambda>x. x \<le> k) (take q ks @ drop q ks) = take q ks"
        unfolding filter_append filter_False [OF gt'] using filter_True [OF le] by simp
      then show ?thesis by simp
    qed
    show ?thesis
    proof (cases "q = 0")
      case True
      then have "k < ks ! 0" using gt ne by simp
      moreover have "take (Suc 0) ks = [ks ! 0]" using ne by (cases ks) auto
      ultimately show ?thesis using True f ne
        by (intro exI [of _ 0] exI [of _ "[ks ! 0]"]) (simp add: correct_backward_def q_def [symmetric])
    next
      case q0: False
      have "correct_backward n k q = Some (q - 1)"
        using q0 False n qle by (auto simp: correct_backward_def slot_def nth_append)
      then show ?thesis using q0 f qle by (intro exI [of _ "q - 1"] exI [of _ "[]"]) (simp add: q_def [symmetric])
    qed
  qed
qed

lemma seek_bwd:
  assumes "tree_at cap t g" and ne: "gkeys g \<noteq> []"
  shows "\<exists>c xs. seek t k Backward = Some c \<and> bwd cap t c (xs @ rev (filter (\<lambda>x. x \<le> k) (gkeys g))) \<and>
    length xs \<le> 1 \<and> (\<forall>x \<in> set xs. k < x)"
proof -
  obtain rs where r: "root t = Some (gaddr g)" "set rs \<subseteq> {None}" "bt cap (heap t) rs bot top g"
    and pc: "prev_chain (heap t) None (map fst (gleaves g))" using assms by (auto simp: tree_at_def)
  obtain L1 a ks L2 n where L: "gleaves g = L1 @ (a, ks) # L2" "\<forall>x \<in> set (concat (map snd L1)). x < k" "\<forall>x \<in> set (concat (map snd L2)). k < x"
      "sorted_wrt (<) ks" and n: "heap t a = External n"
    and srch: "seek t k Backward = do { pos \<leftarrow> correct_backward n k (length (takeWhile (\<lambda>x. x < k) ks)); RTCursor_new t pos (Some a) Backward }"
    using search_descent [OF r(3) bot_least, of k Backward] r(1,2) by (auto simp: seek_def)
  have ch: "chain cap (heap t) (last rs) (gleaves g)" by (rule bt_chain(1) [OF r(3)])
  have "pchain cap (heap t) (rev (gleaves g) @ [])" by (rule pchain_snoc [OF ch pc]) simp_all
  then have "pchain cap (heap t) (rev L2 @ (a, ks) # rev L1)" by (simp add: L(1))
  then have pch: "pchain cap (heap t) ((a, ks) # rev L1)" by (rule pchain_suffix)
  then obtain r' b where p: "is_page cap ks r' b (External n)" by (auto simp: n)
  have "\<forall>l \<in> set (gleaves g). snd l \<noteq> []"
  proof (cases "length (gleaves g) = 1")
    case True
    then show ?thesis using ne by (simp add: L(1) keys_gleaves [symmetric])
  qed (rule bt_leaves_ne(1) [OF r(3)], simp)
  then have nes: "ks \<noteq> []" "\<forall>l \<in> set (rev L1). snd l \<noteq> []" by (auto simp: L(1))
  obtain pos xs where cb: "correct_backward n k (length (takeWhile (\<lambda>x. x < k) ks)) = Some pos" "pos < length ks"
      "rev (take (Suc pos) ks) = xs @ rev (filter (\<lambda>x. x \<le> k) ks)" "length xs \<le> 1" "\<forall>x \<in> set xs. k < x"
    using correct_backward_page [OF p L(4) nes(1)] by blast
  let ?c = "\<lparr>cur_index = pos, cur_ordering = Backward, cur_page = Some (Some a), cur_current = Some (ks ! pos)\<rparr>"
  let ?rem = "rev (take (Suc pos) ks) @ concat (map (rev \<circ> snd) (rev L1))"
  have "seek t k Backward = Some ?c" using read_current_page [of cap ks r' b t a pos] p cb(1,2) n by (simp add: srch RTCursor_new_def)
  moreover have "bwd cap t ?c ?rem"
  proof -
    have "?rem \<noteq> []" "hd ?rem = ks ! pos" using cb(2) by (simp_all add: take_Suc_conv_app_nth)
    then show ?thesis using pch nes(2) cb(2) unfolding bwd_def by (simp only: if_False) fastforce
  qed
  moreover have "?rem = xs @ rev (filter (\<lambda>x. x \<le> k) (gkeys g))"
  proof -
    have "filter (\<lambda>x. x \<le> k) (concat (map snd L1)) = concat (map snd L1)" using L(2) by (auto simp: filter_id_conv less_imp_le)
    moreover have "filter (\<lambda>x. x \<le> k) (concat (map snd L2)) = []" using L(3) by (auto simp: filter_empty_conv not_le)
    moreover have "gkeys g = concat (map snd L1) @ ks @ concat (map snd L2)" by (simp add: keys_gleaves [symmetric] L(1))
    ultimately have "filter (\<lambda>x. x \<le> k) (gkeys g) = concat (map snd L1) @ filter (\<lambda>x. x \<le> k) ks" by (simp only: filter_append append_Nil2)
    then show ?thesis by (simp only: cb(3) rev_append append_assoc rev_concat rev_map map_map comp_def)
  qed
  ultimately show ?thesis using cb(4,5) by auto
qed

section \<open>Loops over cursors\<close>

text \<open>Reading the current key before each step, and taking the answers of the steps as the code of
  \<^verbatim>\<open>LSMTree::retain\<close> does with \<^verbatim>\<open>while let Some(key) = cursor.next()\<close>.\<close>

partial_function (option) collect_current :: "'k BPlusTree \<Rightarrow> 'k RTCursor \<Rightarrow> 'k list option" where
  "collect_current t c =
     (case cur_current c of
        None \<Rightarrow> Some []
      | Some k \<Rightarrow> do { (_, c') \<leftarrow> cursor_next t c; ks \<leftarrow> collect_current t c'; Some (k # ks) })"

partial_function (option) collect_next :: "'k BPlusTree \<Rightarrow> 'k RTCursor \<Rightarrow> 'k list option" where
  "collect_next t c = do {
     (r, c') \<leftarrow> cursor_next t c;
     (case r of None \<Rightarrow> Some [] | Some k \<Rightarrow> do { ks \<leftarrow> collect_next t c'; Some (k # ks) }) }"

text \<open>What clients of a cursor rely on: \<open>remaining\<close> are the keys it has still to show, the first of them
  is the current one, and a step drops it.\<close>

locale page_cursor =
  fixes remaining :: "'k BPlusTree \<Rightarrow> 'k RTCursor \<Rightarrow> 'k list \<Rightarrow> bool"
  assumes at_end: "remaining t c [] \<Longrightarrow> cur_current c = None"
    and at_key: "remaining t c (k # ks) \<Longrightarrow> cur_current c = Some k"
    and step: "remaining t c rem \<Longrightarrow> \<exists>r c'. cursor_next t c = Some (r, c') \<and> remaining t c' (tl rem)"
begin

lemma collect_remaining: "remaining t c rem \<Longrightarrow> collect_current t c = Some rem"
proof (induction rem arbitrary: c)
  case Nil
  then show ?case using at_end by (subst collect_current.simps) simp
next
  case (Cons k rem)
  obtain r c' where c': "cursor_next t c = Some (r, c')" "remaining t c' rem" using step [OF Cons.prems] by auto
  then show ?case using Cons.IH [OF c'(2)] at_key [OF Cons.prems] by (subst collect_current.simps) simp
qed

end

definition fwd_rem :: "'k BPlusTree \<Rightarrow> 'k RTCursor \<Rightarrow> 'k list \<Rightarrow> bool" where
  "fwd_rem t c rem \<longleftrightarrow> (\<exists>cap. fwd cap t c rem)"

definition bwd_rem :: "'k BPlusTree \<Rightarrow> 'k RTCursor \<Rightarrow> 'k list \<Rightarrow> bool" where
  "bwd_rem t c rem \<longleftrightarrow> (\<exists>cap. bwd cap t c rem)"

lemma fwd_remI: "fwd cap t c rem \<Longrightarrow> fwd_rem t c rem"
  by (auto simp: fwd_rem_def)

lemma bwd_remI: "bwd cap t c rem \<Longrightarrow> bwd_rem t c rem"
  by (auto simp: bwd_rem_def)

interpretation forward: page_cursor fwd_rem
proof
  fix t :: "'a BPlusTree" and c k ks rem
  show "fwd_rem t c [] \<Longrightarrow> cur_current c = None" by (auto simp: fwd_rem_def fwd_def)
  show "fwd_rem t c (k # ks) \<Longrightarrow> cur_current c = Some k" by (auto simp: fwd_rem_def fwd_def)
  show "fwd_rem t c rem \<Longrightarrow> \<exists>r c'. cursor_next t c = Some (r, c') \<and> fwd_rem t c' (tl rem)"
    unfolding fwd_rem_def using next_fwd by blast
qed

interpretation backward: page_cursor bwd_rem
proof
  fix t :: "'a BPlusTree" and c k ks rem
  show "bwd_rem t c [] \<Longrightarrow> cur_current c = None" by (auto simp: bwd_rem_def bwd_def)
  show "bwd_rem t c (k # ks) \<Longrightarrow> cur_current c = Some k" unfolding bwd_rem_def bwd_def by (metis list.sel(1) list.distinct(1))
  show "bwd_rem t c rem \<Longrightarrow> \<exists>r c'. cursor_next t c = Some (r, c') \<and> bwd_rem t c' (tl rem)"
    unfolding bwd_rem_def using next_bwd by blast
qed

lemma collect_next_fwd: "fwd cap t c rem \<Longrightarrow> collect_next t c = Some (butlast rem)"
proof (induction rem arbitrary: c)
  case Nil
  then show ?case using next_fwd [OF Nil] by (subst collect_next.simps) auto
next
  case (Cons k rem)
  obtain c' where c': "cursor_next t c = Some (if rem = [] then None else Some k, c')" "fwd cap t c' rem"
    using next_fwd [OF Cons.prems] by auto
  show ?case using c'(1) Cons.IH [OF c'(2)] by (subst collect_next.simps) auto
qed

lemma filter_keys_sorted:
  assumes "tree_at cap t g"
  shows "filter P (gkeys g) = sorted_list_of_set {x \<in> set (gkeys g). P x}"
proof -
  obtain rs where b: "bt cap (heap t) rs bot top g" using assms by (auto simp: tree_at_def)
  have "sorted_wrt (<) (filter P (gkeys g))" using bt_keys(1) [OF b] by (simp add: sorted_wrt_filter)
  then have "sorted_list_of_set (set (filter P (gkeys g))) = filter P (gkeys g)"
    by (intro sorted_list_of_set.idem_if_sorted_distinct) (simp_all only: strict_sorted_iff)
  then show ?thesis by simp
qed

lemma seek_forward:
  assumes "btree_holds cap t S"
  shows "\<exists>c. seek t k Forward = Some c \<and> fwd cap t c (sorted_list_of_set {x \<in> S. k \<le> x})"
proof -
  obtain g where "tree_at cap t g" "set (gkeys g) = S" using assms by (auto simp: btree_holds_def)
  then show ?thesis using seek_fwd [of cap t g k] filter_keys_sorted [of cap t g "\<lambda>x. k \<le> x"] by simp
qed

lemma seek_backward:
  assumes "btree_holds cap t S" and "S \<noteq> {}"
  shows "\<exists>c xs. seek t k Backward = Some c \<and> bwd cap t c (xs @ rev (sorted_list_of_set {x \<in> S. x \<le> k})) \<and>
    length xs \<le> 1 \<and> (\<forall>x \<in> set xs. k < x)"
proof -
  obtain g where g: "tree_at cap t g" "set (gkeys g) = S" using assms(1) by (auto simp: btree_holds_def)
  have "gkeys g \<noteq> []" using g(2) assms(2) by auto
  then show ?thesis using seek_bwd [OF g(1), of k] filter_keys_sorted [OF g(1), of "\<lambda>x. x \<le> k"] by (simp add: g(2))
qed

section \<open>Properties\<close>

text \<open>C25: a forward search on a well-formed tree returns a cursor; reading its current key and advancing it
  until there is none gives the keys from the searched one on, each once and in order.\<close>

theorem cursor_enumerates:
  assumes "btree_holds cap t S"
  shows "\<exists>c. seek t k Forward = Some c \<and> collect_current t c = Some (sorted_list_of_set {x \<in> S. k \<le> x})"
  using seek_forward [OF assms, of k] forward.collect_remaining [OF fwd_remI] by blast

lemma two_keys_tree:
  "\<exists>t. inserts LEVEL_M [7, 3 :: u8] (BPlusTree_new LEVEL_M {} (\<lambda>_. \<lparr>higher = 0, lower = 0\<rparr>)) = Some t \<and>
     btree_holds LEVEL_M t {3, 7}"
proof -
  have "(bot :: u8) < top" "\<forall>k \<in> set [7, 3 :: u8]. k < top" by (simp_all add: order_less_le bot_word_def top_word_eq)
  then show ?thesis
    using inserts_hold [OF btree_holds_new, of "[7, 3 :: u8]" LEVEL_M "{}" "\<lambda>_. \<lparr>higher = 0, lower = 0\<rparr>"]
    by (auto simp: LEVEL_M_def insert_commute)
qed

theorem cursor_enumerates_witness:
  "\<exists>t c. btree_holds LEVEL_M t {3, 7 :: u8} \<and> seek t 4 Forward = Some c \<and> collect_current t c = Some [7]"
proof -
  obtain t where t: "btree_holds LEVEL_M t {3, 7 :: u8}" using two_keys_tree by blast
  have "{x \<in> {3, 7 :: u8}. 4 \<le> x} = {7}" by auto
  then show ?thesis using cursor_enumerates [OF t, of 4] t by auto
qed

text \<open>C37: a loop over the answers of \<^verbatim>\<open>next\<close> misses the last key of the tree: at the end of the
  chain of pages the cursor drops its current key and answers nothing.\<close>

theorem next_loses_last:
  assumes "btree_holds cap t S"
  shows "\<exists>c. seek t k Forward = Some c \<and> collect_next t c = Some (butlast (sorted_list_of_set {x \<in> S. k \<le> x}))"
  using seek_forward [OF assms, of k] collect_next_fwd by blast

theorem next_loses_last_witness:
  "\<exists>t c. btree_holds LEVEL_M t {3, 7 :: u8} \<and> seek t 0 Forward = Some c \<and> collect_next t c = Some [3]"
proof -
  obtain t where t: "btree_holds LEVEL_M t {3, 7 :: u8}" using two_keys_tree by blast
  have "{x \<in> {3, 7 :: u8}. 0 \<le> x} = set [3, 7]" by auto
  moreover have "sorted_list_of_set (set [3, 7 :: u8]) = [3, 7]" by (rule sorted_list_of_set.idem_if_sorted_distinct) auto
  ultimately show ?thesis using next_loses_last [OF t, of 0] t by (auto simp del: set_simps)
qed

text \<open>C26: a backward search on a non-empty tree returns a cursor that meets all keys up to the searched one,
  each once and in descending order; before them it may show one key that is greater, the first key of the
  page where the searched key belongs.\<close>

theorem backward_enumerates:
  assumes "btree_holds cap t S" and "S \<noteq> {}"
  shows "\<exists>c xs. seek t k Backward = Some c \<and>
    collect_current t c = Some (xs @ rev (sorted_list_of_set {x \<in> S. x \<le> k})) \<and> length xs \<le> 1 \<and> (\<forall>x \<in> set xs. k < x)"
  using seek_backward [OF assms, of k] backward.collect_remaining [OF bwd_remI] by blast

theorem backward_enumerates_witness:
  "\<exists>t c xs. btree_holds LEVEL_M t {3, 7 :: u8} \<and> seek t 4 Backward = Some c \<and> collect_current t c = Some (xs @ [3]) \<and>
     length xs \<le> 1 \<and> (\<forall>x \<in> set xs. 4 < x)"
proof -
  obtain t where t: "btree_holds LEVEL_M t {3, 7 :: u8}" using two_keys_tree by blast
  have "{x \<in> {3, 7 :: u8}. x \<le> 4} = {3}" by auto
  then show ?thesis using backward_enumerates [OF t, of 4] t by auto
qed

text \<open>A backward search on a new, empty tree shows the least key although the tree holds none: only forward
  cursors compare their position with the number of keys of the page.\<close>

theorem backward_phantom:
  fixes k :: "'k :: {linorder, order_bot, order_top}"
  assumes "0 < cap"
  shows "\<exists>c. seek (BPlusTree_new cap del ids) k Backward = Some c \<and> cur_current c = Some bot"
  using assms
  by (simp add: seek_def BPlusTree_new_def search_node.simps new_page_id_def alloc_node_def key_at_right_node_def
      Let_def ExtNode_new_def correct_backward_def RTCursor_new_def read_current_def slot_def slice_init_def
      ext_search_def binary_search_def front_def)

theorem backward_phantom_witness:
  "\<exists>c. seek (BPlusTree_new LEVEL_M {} (\<lambda>_. \<lparr>higher = 0, lower = 0\<rparr>)) (5 :: u8) Backward = Some c \<and> cur_current c = Some 0"
  using backward_phantom [of LEVEL_M "{}" "\<lambda>_. \<lparr>higher = 0, lower = 0\<rparr>" "5 :: u8"] by (simp add: LEVEL_M_def bot_word_def)

end
