(* ===== verification/Neb_BTree_Merge.thy ===== *)
theory Neb_BTree_Merge
  imports Neb_BTree
begin

text \<open>
  Bulk operations of the B+ tree: merging sorted keys into pages and trees (\<^verbatim>\<open>external.rs\<close>,
  \<^verbatim>\<open>merge.rs\<close>, \<^verbatim>\<open>mod.rs\<close>), moving keys between the trees of an LSM tree (\<^verbatim>\<open>level.rs\<close>),
  cutting a tree at a key (\<^verbatim>\<open>split.rs\<close>) and clearing it (\<^verbatim>\<open>clear.rs\<close>). A
  \<^verbatim>\<open>BTreeMap\<close> of new pages is a list ordered by its keys.
\<close>

section \<open>Pages\<close>

definition ext_remove_at :: "nat \<Rightarrow> ('k :: order_bot) ExtNode \<Rightarrow> 'k ExtNode option" where
  "ext_remove_at pos n = do {
     _ \<leftarrow> slot (ext_keys n) pos;
     (ks, l) \<leftarrow> remove_at bot pos (ext_len n) (ext_keys n);
     Some (n\<lparr>ext_keys := ks, ext_len := l\<rparr>) }"

definition ext_merge_with :: "'k ExtNode \<Rightarrow> 'k ExtNode \<Rightarrow> ('k ExtNode \<times> 'k ExtNode) option" where
  "ext_merge_with n right =
     (let l = ext_len n + ext_len right
      in do {
        (ks, rs) \<leftarrow> for_each [ext_len n ..< l] (\<lambda>i. swap_across i (i - ext_len n)) (ext_keys n, ext_keys right);
        Some (n\<lparr>ext_keys := ks, ext_len := l\<rparr>, right\<lparr>ext_keys := rs\<rparr>) })"

definition remove_contains :: "'k set \<Rightarrow> 'k ExtNode \<Rightarrow> 'k ExtNode option" where
  "remove_contains del n = do {
     ks \<leftarrow> front (ext_len n) (ext_keys n);
     (let remaining = filter (\<lambda>k. k \<notin> del) ks
      in if length remaining = ext_len n then Some n
         else Some (n\<lparr>ext_len := length remaining, ext_keys := remaining @ drop (length remaining) (ext_keys n)\<rparr>)) }"

text \<open>The loop of \<^verbatim>\<open>merge_sort\<close> over the two sequences, then what is left of either.\<close>

definition push_distinct :: "'k \<Rightarrow> 'k list \<times> nat \<Rightarrow> ('k list \<times> nat) option" where
  "push_distinct k s =
     (if snd s = 0 then map_option (\<lambda>ks. (ks, 1)) (set_slot 0 k (fst s))
      else do {
        p \<leftarrow> slot (fst s) (snd s - 1);
        if p \<noteq> k then map_option (\<lambda>ks. (ks, snd s + 1)) (set_slot (snd s) k (fst s)) else Some s })"

definition step_distinct :: "'k \<Rightarrow> 'k list \<times> nat \<Rightarrow> ('k list \<times> nat) option" where
  "step_distinct k s = do {
     ks \<leftarrow> set_slot (snd s) k (fst s);
     if snd s = 0 then Some (ks, 1)
     else do { p \<leftarrow> slot ks (snd s - 1); q \<leftarrow> slot ks (snd s); Some (ks, if p \<noteq> q then snd s + 1 else snd s) } }"

fun merge_loop :: "('k :: linorder) list \<Rightarrow> 'k list \<Rightarrow> 'k list \<times> nat \<Rightarrow> ('k list \<times> 'k list \<times> ('k list \<times> nat)) option" where
  "merge_loop (x # xs) (y # ys) s =
     (if x \<le> y then do { s \<leftarrow> step_distinct x s; merge_loop xs (if x = y then ys else y # ys) s }
      else do { s \<leftarrow> step_distinct y s; merge_loop (x # xs) ys s })"
| "merge_loop xs ys s = Some (xs, ys, s)"

definition merge_sort :: "'k list \<Rightarrow> ('k :: {linorder, order_bot}) ExtNode \<Rightarrow> 'k ExtNode option" where
  "merge_sort right n = do {
     left \<leftarrow> front (ext_len n) (ext_keys n);
     (xs, ys, s) \<leftarrow> merge_loop left right (slice_init bot (length (ext_keys n)), 0);
     s \<leftarrow> for_each xs push_distinct s;
     s \<leftarrow> for_each ys push_distinct s;
     Some (n\<lparr>ext_keys := fst s, ext_len := snd s\<rparr>) }"

section \<open>Inner nodes\<close>

definition key_pos_from_ptr_pos :: "nat \<Rightarrow> nat" where
  "key_pos_from_ptr_pos p = (if p = 0 then 0 else p - 1)"

definition in_remove_at :: "nat \<Rightarrow> ('k :: order_bot) InNode \<Rightarrow> 'k InNode option" where
  "in_remove_at ptr_pos n = do {
     (ks, l) \<leftarrow> remove_at bot (key_pos_from_ptr_pos ptr_pos) (in_len n) (in_keys n);
     (ps, _) \<leftarrow> remove_at None ptr_pos (in_len n + 1) (in_ptrs n);
     Some (n\<lparr>in_keys := ks, in_ptrs := ps, in_len := l\<rparr>) }"

definition rebalance_candidate :: "nat \<Rightarrow> 'k InNode \<Rightarrow> nat" where
  "rebalance_candidate p n = (if p = 0 then 1 else if in_len n \<le> p + 1 then p - 1 else p + 1)"

definition in_merge_with :: "'k \<Rightarrow> 'k InNode \<Rightarrow> 'k InNode \<Rightarrow> ('k InNode \<times> 'k InNode) option" where
  "in_merge_with right_key n right =
     (let l = in_len n; l' = l + in_len right + 1
      in do {
        ks \<leftarrow> set_slot l right_key (in_keys n);
        (ks, rks) \<leftarrow> for_each [l + 1 ..< l'] (\<lambda>i. swap_across i (i - l - 1)) (ks, in_keys right);
        (ps, rps) \<leftarrow> for_each [l + 1 ..< l' + 1] (\<lambda>i. swap_across i (i - l - 1)) (in_ptrs n, in_ptrs right);
        Some (n\<lparr>in_keys := ks, in_ptrs := ps, in_len := l'\<rparr>, right\<lparr>in_keys := rks, in_ptrs := rps\<rparr>) })"

section \<open>Merging keys into a tree\<close>

type_synonym 'k new_pages = "('k \<times> NodeCellRef) list"

partial_function (option) merge_external ::
  "nat \<Rightarrow> 'k list \<Rightarrow> NodeCellRef \<Rightarrow> 'k new_pages \<Rightarrow> ('k :: {linorder, order_bot}) BPlusTree \<Rightarrow> ('k new_pages \<times> 'k BPlusTree) option" where
  "merge_external cap keys cur pages t =
     (if keys = [] then Some (pages, t)
      else do {
        cur \<leftarrow> write_targeted t cur (hd keys);
        l \<leftarrow> node_len (deref t cur);
        if l < cap then do {
          n \<leftarrow> extnode (deref t cur);
          n \<leftarrow> remove_contains (deletion t) n;
          (let selection = take (cap - l) (filter (\<lambda>k. k < ext_right_bound n) keys)
           in do {
             n \<leftarrow> merge_sort selection n;
             t \<leftarrow> store cur (External n) (make_changed cap cur t);
             merge_external cap (drop (length selection) keys) cur pages t }) }
        else do {
          pos \<leftarrow> node_search (deref t cur) (hd keys);
          ((node_2, pivot), t) \<leftarrow> ext_split_insert cap (hd keys) pos cur (make_changed cap cur t);
          merge_external cap (tl keys) cur (bmap_insert (<) pivot node_2 pages) (make_changed cap node_2 t) } })"

fun merge_into_internal ::
  "nat \<Rightarrow> NodeCellRef \<Rightarrow> 'k new_pages \<Rightarrow> 'k new_pages \<Rightarrow> ('k :: {linorder, order_bot}) BPlusTree \<Rightarrow> ('k new_pages \<times> 'k BPlusTree) option" where
  "merge_into_internal cap node [] pages t = Some (pages, t)"
| "merge_into_internal cap node ((pivot, sub) # sub_pages) pages t = do {
     target \<leftarrow> write_targeted t node pivot;
     n \<leftarrow> innode (deref t target);
     pos \<leftarrow> in_search n pivot;
     if cap \<le> in_len n then do {
       ((node_2, k), t) \<leftarrow> in_split_insert pivot sub pos True target t;
       merge_into_internal cap target sub_pages (bmap_insert (<) k node_2 pages) t }
     else do {
       t \<leftarrow> in_insert_in_place pivot sub pos True target t;
       merge_into_internal cap target sub_pages pages t } }"

partial_function (option) merge_into_tree_node ::
  "nat \<Rightarrow> NodeCellRef \<Rightarrow> 'k list \<Rightarrow> ('k :: {linorder, order_bot}) BPlusTree \<Rightarrow> ('k new_pages \<times> 'k BPlusTree) option" where
  "merge_into_tree_node cap node keys t =
     (case keys of
        [] \<Rightarrow> None
      | k # _ \<Rightarrow> do {
          s \<leftarrow> mut_search t node k;
          (case s of
             MutExternal \<Rightarrow> merge_external cap keys node [] t
           | MutInternal sub \<Rightarrow> do {
               (sub_pages, t) \<leftarrow> merge_into_tree_node cap sub keys t;
               if sub_pages \<noteq> [] then merge_into_internal cap node sub_pages [] t else Some ([], t) }) })"

definition new_internal_node ::
  "nat \<Rightarrow> NodeCellRef \<Rightarrow> 'k new_pages \<Rightarrow> ('k :: {order_bot, order_top}) BPlusTree \<Rightarrow> (NodeCellRef \<times> 'k new_pages \<times> 'k BPlusTree) option" where
  "new_internal_node cap left_most pages t =
     (case pages of
        [] \<Rightarrow> None
      | (k, p) # rest \<Rightarrow> do {
          ps \<leftarrow> set_slot 0 left_most (slice_init None (cap + 1));
          ps \<leftarrow> set_slot 1 p ps;
          ks \<leftarrow> set_slot 0 k (slice_init bot cap);
          (let (r, t) = alloc_node (Internal ((InNode_new cap 1 top)\<lparr>in_keys := ks, in_ptrs := ps\<rparr>)) t
           in Some (r, rest, t)) })"

partial_function (option) merge_root ::
  "nat \<Rightarrow> NodeCellRef \<Rightarrow> 'k new_pages \<Rightarrow> ('k :: {linorder, order_bot, order_top}) BPlusTree \<Rightarrow> 'k BPlusTree option" where
  "merge_root cap left_most pages t = do {
     (r, rest, t) \<leftarrow> new_internal_node cap left_most pages t;
     (this_level, t) \<leftarrow> (if rest \<noteq> [] then merge_into_internal cap r rest [] t else Some ([], t));
     if this_level = [] then Some (t\<lparr>root := r\<rparr>)
     else merge_root cap r this_level t }"

definition merge_with_keys ::
  "nat \<Rightarrow> 'k list \<Rightarrow> ('k :: {linorder, order_bot, order_top}) BPlusTree \<Rightarrow> 'k BPlusTree option" where
  "merge_with_keys cap keys t =
     (if keys = [] then Some t
      else do {
        (pages, t) \<leftarrow> merge_into_tree_node cap (root t) keys t;
        t \<leftarrow> (if pages \<noteq> [] then merge_root cap (root t) pages t else Some t);
        Some (t\<lparr>tree_len := tree_len t + of_nat (length keys)\<rparr>) })"

section \<open>Clearing and cutting\<close>

text \<open>The nodes to the right of a node become empty ones, one after the other.\<close>

partial_function (option) clear_right :: "NodeCellRef \<Rightarrow> 'k BPlusTree \<Rightarrow> 'k BPlusTree option" where
  "clear_right r t =
     (if r = None then Some t
      else do {
        r' \<leftarrow> right_ref (deref t r);
        t \<leftarrow> store r (Empty EmptyNode_default) t;
        clear_right r' t })"

partial_function (option) clear_by_node :: "NodeCellRef \<Rightarrow> 'k BPlusTree \<Rightarrow> 'k BPlusTree option" where
  "clear_by_node r t = do {
     t \<leftarrow> (case deref t r of
           Internal n \<Rightarrow> do { sub \<leftarrow> slot (in_ptrs n) 0; clear_by_node sub t }
         | External n \<Rightarrow> Some t
         | _ \<Rightarrow> None);
     clear_right r t }"

definition btree_clear :: "nat \<Rightarrow> ('k :: {order_bot, order_top}) BPlusTree \<Rightarrow> 'k BPlusTree option" where
  "btree_clear cap t =
     (let (r, t') = alloc_node (External (ExtNode_new cap (head_page_id t) top)) t
      in clear_by_node (root t) (t'\<lparr>root := r, tree_len := 0\<rparr>))"

partial_function (option) last_node_prev_digest ::
  "'k BPlusTree \<Rightarrow> NodeCellRef \<Rightarrow> (nat \<times> NodeCellRef \<times> 'k) option option" where
  "last_node_prev_digest t r =
     (case deref t r of
        External n \<Rightarrow> do { k \<leftarrow> slot (ext_keys n) (ext_len n div 2); Some (Some (ext_len n, ext_prev n, k)) }
      | Internal n \<Rightarrow> do {
          ps \<leftarrow> front (in_len n) (in_ptrs n);
          if ps = [] then None else last_node_prev_digest t (last ps) }
      | Empty e \<Rightarrow> do { l \<leftarrow> empty_left e; last_node_prev_digest t l }
      | NoneNode \<Rightarrow> Some None)"

text \<open>The pages to the right of a page that was cut: their keys are counted and their cells deleted.\<close>

partial_function (option) retain_pages :: "nat \<Rightarrow> NodeCellRef \<Rightarrow> nat \<Rightarrow> 'k BPlusTree \<Rightarrow> (nat \<times> 'k BPlusTree) option" where
  "retain_pages cap r removed t =
     (if r = None then Some (removed, t)
      else do {
        i \<leftarrow> ext_id (deref t r);
        r' \<leftarrow> right_ref (deref t r);
        l \<leftarrow> node_len (deref t r);
        t \<leftarrow> store r (Empty EmptyNode_default) t;
        retain_pages cap r' (removed + l) (make_deleted cap i t) })"

partial_function (option) retain_by_node ::
  "nat \<Rightarrow> NodeCellRef \<Rightarrow> 'k \<Rightarrow> ('k :: {linorder, order_bot}) BPlusTree \<Rightarrow> 'k BPlusTree option" where
  "retain_by_node cap r mid t =
     (case deref t r of
        External n \<Rightarrow> do {
          i \<leftarrow> ext_search n mid;
          if ext_len n \<le> i then Some (make_changed cap r t)
          else do {
            t \<leftarrow> store r (External (n\<lparr>ext_len := i, ext_next := None\<rparr>)) (make_changed cap r t);
            (removed, t) \<leftarrow> retain_pages cap (ext_next n) (ext_len n - i) t;
            Some (t\<lparr>tree_len := tree_len t - of_nat removed\<rparr>) } }
      | Internal n \<Rightarrow> do {
          i \<leftarrow> in_search n mid;
          sub \<leftarrow> slot (in_ptrs n) i;
          t \<leftarrow> retain_by_node cap sub mid t;
          if in_len n \<le> i then Some t
          else if i = 0 then None
          else do {
            t \<leftarrow> store r (Internal (n\<lparr>in_ptrs := take (i + 1) (in_ptrs n) @ replicate (in_len n - i) None @ drop (in_len n + 1) (in_ptrs n),
                  in_len := i, in_right := None\<rparr>)) t;
            clear_right (in_right n) t } }
      | Empty e \<Rightarrow> retain_by_node cap (empty_right e) mid t
      | NoneNode \<Rightarrow> None)"

definition retain_by_key :: "nat \<Rightarrow> 'k \<Rightarrow> ('k :: {linorder, order_bot}) BPlusTree \<Rightarrow> 'k BPlusTree option" where
  "retain_by_key cap mid t = retain_by_node cap (root t) mid t"

section \<open>Moving keys from one tree to another\<close>

text \<open>The nodes of a level from \<open>first\<close> up to the boundary and the node after them: whole nodes, or the
  last one only in part.\<close>

datatype NodeSelection = WholePage "NodeCellRef list" NodeCellRef | PartialPage "NodeCellRef list" NodeCellRef

partial_function (option) select_nodes ::
  "('k :: {linorder, order_top}) BPlusTree \<Rightarrow> 'k \<Rightarrow> NodeCellRef list \<Rightarrow> NodeCellRef \<Rightarrow> NodeSelection option" where
  "select_nodes t boundary collected nx = do {
     lb \<leftarrow> right_bound (deref t (last collected));
     if lb = boundary then Some (WholePage collected nx)
     else do {
       nb \<leftarrow> right_bound (deref t nx);
       if boundary < nb then Some (PartialPage collected nx)
       else if boundary < lb then None
       else do {
         r \<leftarrow> right_ref (deref t nx);
         if r = None then (if boundary = top then Some (WholePage (collected @ [nx]) None) else None)
         else select_nodes t boundary (collected @ [nx]) r } } }"

definition select_nodes_in_boundary ::
  "('k :: {linorder, order_top}) BPlusTree \<Rightarrow> NodeCellRef \<Rightarrow> 'k \<Rightarrow> NodeSelection option" where
  "select_nodes_in_boundary t first boundary = do {
     fb \<leftarrow> right_bound (deref t first);
     if boundary < fb then Some (PartialPage [] first)
     else do { nx \<leftarrow> right_ref (deref t first); select_nodes t boundary [first] nx } }"

definition make_empty_node :: "bool \<Rightarrow> NodeCellRef \<Rightarrow> 'k BPlusTree \<Rightarrow> 'k BPlusTree option" where
  "make_empty_node update_right r t =
     (if is_empty_node (deref t r) then Some t
      else do {
        right \<leftarrow> right_ref (deref t r);
        (let left = left_ref (deref t r)
         in do {
           t \<leftarrow> (case left of
                 Some l \<Rightarrow> if update_right then do {
                     _ \<leftarrow> left_ref (deref t right);
                     store right (set_left_ref l (deref t right)) t }
                   else Some t
               | None \<Rightarrow> Some t);
           store r (Empty \<lparr>empty_left = left, empty_right = right\<rparr>) t }) })"

definition clear_node :: "NodeCellRef \<Rightarrow> NodeCellRef \<Rightarrow> 'k BPlusTree \<Rightarrow> 'k BPlusTree option" where
  "clear_node right r t = do {
     t \<leftarrow> make_empty_node False r t;
     store r (set_left_ref right (set_right_ref right (deref t r))) t }"

definition clear_nodes :: "NodeCellRef list \<Rightarrow> NodeCellRef \<Rightarrow> 'k BPlusTree \<Rightarrow> 'k BPlusTree option" where
  "clear_nodes nodes right t = for_each nodes (clear_node right) t"

datatype RightCheck = SinglePtr | LevelTerminal NodeCellRef | Normal

definition check_right :: "'k BPlusTree \<Rightarrow> NodeCellRef \<Rightarrow> RightCheck option" where
  "check_right t r = do {
     rr \<leftarrow> right_ref (deref t r);
     if rr = None then do { l \<leftarrow> node_len (deref t r); Some (if l = 0 then SinglePtr else LevelTerminal r) }
     else Some Normal }"

text \<open>Keys of a list of pages.\<close>

fun pages_keys :: "'k BPlusTree \<Rightarrow> NodeCellRef list \<Rightarrow> 'k list option" where
  "pages_keys t [] = Some []"
| "pages_keys t (r # rs) = do { ks \<leftarrow> node_keys (deref t r); ks' \<leftarrow> pages_keys t rs; Some (ks @ ks') }"

text \<open>Pages that were merged into the next tree leave the tree; its new first page takes over the identifier
  of the old one.\<close>

definition prune_pages ::
  "nat \<Rightarrow> NodeCellRef list \<Rightarrow> NodeCellRef \<Rightarrow> Id \<Rightarrow> nat \<Rightarrow> 'k BPlusTree \<Rightarrow> 'k BPlusTree option" where
  "prune_pages cap nodes new_first head_id merged t = do {
     t \<leftarrow> clear_nodes nodes new_first t;
     n \<leftarrow> extnode (deref t new_first);
     t \<leftarrow> store new_first (External (n\<lparr>ext_page_id := head_id, ext_prev := None\<rparr>)) (make_changed cap new_first t);
     Some (t\<lparr>tree_len := tree_len t - of_nat merged\<rparr>) }"

text \<open>The part of a level of inner nodes that is left after the boundary.\<close>

definition prune_level ::
  "nat \<Rightarrow> NodeCellRef \<Rightarrow> 'k \<Rightarrow> ('k :: {linorder, order_bot, order_top}) BPlusTree \<Rightarrow> (RightCheck \<times> 'k BPlusTree) option" where
  "prune_level cap node boundary t = do {
     sel \<leftarrow> select_nodes_in_boundary t node boundary;
     (case sel of
        WholePage nodes right_node \<Rightarrow> do {
          t \<leftarrow> clear_nodes nodes right_node t;
          c \<leftarrow> check_right t right_node;
          Some (c, t) }
      | PartialPage nodes terminal \<Rightarrow> do {
          t \<leftarrow> clear_nodes nodes terminal t;
          ks \<leftarrow> node_keys (deref t terminal);
          ps \<leftarrow> node_ptrs (deref t terminal);
          n \<leftarrow> innode (deref t terminal);
          (let pos = (case binary_search ks boundary of Inr i \<Rightarrow> i + 1 | Inl i \<Rightarrow> i);
               ks' = drop pos ks; ps' = drop pos ps
           in do {
             t \<leftarrow> store terminal (Internal (n\<lparr>in_keys := ks' @ replicate (cap - length ks') bot,
                   in_ptrs := ps' @ replicate (cap + 1 - length ps') None, in_len := length ks'\<rparr>)) t;
             c \<leftarrow> check_right t terminal;
             Some (c, t) }) }) }"

partial_function (option) merge_prune ::
  "nat \<Rightarrow> nat \<Rightarrow> NodeCellRef \<Rightarrow> 'k \<Rightarrow> bool \<Rightarrow> ('k :: {linorder, order_bot, order_top}) BPlusTree \<Rightarrow> 'k BPlusTree \<Rightarrow> 'k set \<Rightarrow>
   ((nat \<times> NodeCellRef option) \<times> 'k BPlusTree \<times> 'k BPlusTree \<times> 'k set) option" where
  "merge_prune cap dcap node boundary prune src dest deleted = do {
     s \<leftarrow> mut_first src node;
     (case s of
        MutExternal \<Rightarrow> do {
          sel \<leftarrow> select_nodes_in_boundary src node boundary;
          (case sel of
             PartialPage _ _ \<Rightarrow> None
           | WholePage nodes new_first \<Rightarrow> do {
               head_id \<leftarrow> ext_id (deref src (hd nodes));
               ks \<leftarrow> pages_keys src nodes;
               (let merging = filter (\<lambda>k. k \<notin> deletion src) ks;
                    deleted = deleted \<union> set (filter (\<lambda>k. k \<in> deletion src) ks)
                in do {
                  dest \<leftarrow> merge_with_keys dcap merging dest;
                  src \<leftarrow> (if prune then prune_pages cap nodes new_first head_id (length merging) src else Some src);
                  Some ((length merging, None), src, dest, deleted) }) }) }
      | MutInternal sub \<Rightarrow> do {
          ((merged, sub_root), src, dest, deleted) \<leftarrow> merge_prune cap dcap sub boundary prune src dest deleted;
          if prune then do {
            (c, src) \<leftarrow> prune_level cap node boundary src;
            new_root \<leftarrow> (case sub_root of
                Some r \<Rightarrow> Some (Some r)
              | None \<Rightarrow> (case c of Normal \<Rightarrow> Some None | LevelTerminal r \<Rightarrow> Some (Some r) | SinglePtr \<Rightarrow> None));
            Some ((merged, new_root), src, dest, deleted) }
          else Some ((merged, None), src, dest, deleted) }) }"

partial_function (option) select_merge_boundary :: "'k BPlusTree \<Rightarrow> NodeCellRef \<Rightarrow> 'k option option" where
  "select_merge_boundary t r = do {
     ks \<leftarrow> node_keys (deref t r);
     if ks = [] then do {
       x \<leftarrow> is_ext (deref t r);
       if x then Some None
       else do { ps \<leftarrow> node_ptrs (deref t r); p \<leftarrow> slot ps 0; select_merge_boundary t p } }
     else do { k \<leftarrow> slot ks (length ks div 2); Some (Some k) } }"

definition merge_with_boundary ::
  "nat \<Rightarrow> nat \<Rightarrow> 'k \<Rightarrow> bool \<Rightarrow> ('k :: {linorder, order_bot, order_top}) BPlusTree \<Rightarrow> 'k BPlusTree \<Rightarrow> 'k set \<Rightarrow>
   (nat \<times> 'k BPlusTree \<times> 'k BPlusTree \<times> 'k set) option" where
  "merge_with_boundary cap dcap boundary prune src dest deleted = do {
     ((merged, new_root), src, dest, deleted) \<leftarrow> merge_prune cap dcap (root src) boundary prune src dest deleted;
     Some (merged, (case new_root of None \<Rightarrow> src | Some r \<Rightarrow> src\<lparr>root := r\<rparr>), dest, deleted) }"

definition level_merge ::
  "nat \<Rightarrow> nat \<Rightarrow> bool \<Rightarrow> ('k :: {linorder, order_bot, order_top}) BPlusTree \<Rightarrow> 'k BPlusTree \<Rightarrow> 'k set \<Rightarrow>
   (nat \<times> 'k BPlusTree \<times> 'k BPlusTree \<times> 'k set) option" where
  "level_merge cap dcap prune src dest deleted = do {
     b \<leftarrow> select_merge_boundary src (root src);
     b \<leftarrow> b;
     merge_with_boundary cap dcap b prune src dest deleted }"

definition LEVEL_TREE_DEPTH :: nat where "LEVEL_TREE_DEPTH = 2"

definition ideal_capacity_from_node_size :: "nat \<Rightarrow> nat" where
  "ideal_capacity_from_node_size s = s ^ LEVEL_TREE_DEPTH"

definition btree_oversized :: "nat \<Rightarrow> 'k BPlusTree \<Rightarrow> bool" where
  "btree_oversized cap t = (ideal_capacity_from_node_size cap < unat (tree_len t))"

section \<open>Merging two sorted sequences\<close>

text \<open>A buffer of \<open>N\<close> slots whose first ones hold \<open>pre\<close>.\<close>

definition filled :: "nat \<Rightarrow> 'k list \<Rightarrow> 'k list \<times> nat \<Rightarrow> bool" where
  "filled N pre s \<longleftrightarrow> (\<exists>rest. s = (pre @ rest, length pre) \<and> length pre + length rest = N)"

lemma filledI: "length pre + length rest = N \<Longrightarrow> filled N pre (pre @ rest, length pre)"
  by (auto simp: filled_def)

lemma filled_room: "filled N pre s \<Longrightarrow> length pre < N \<Longrightarrow> \<exists>r rest. s = (pre @ r # rest, length pre) \<and> Suc (length pre + length rest) = N"
proof -
  assume "filled N pre s" and l: "length pre < N"
  then obtain rest where r: "s = (pre @ rest, length pre)" "length pre + length rest = N" by (auto simp: filled_def)
  then show ?thesis using l by (cases rest) auto
qed

lemma set_slot_append: "set_slot (length pre) k (pre @ r # rest) = Some ((pre @ [k]) @ rest)"
  by (simp add: set_slot_def)

lemma slot_last: "pre \<noteq> [] \<Longrightarrow> slot (pre @ rest) (length pre - 1) = Some (last pre)"
  by (cases pre rule: rev_cases) (auto simp: slot_def nth_append)

lemma push_distinct_filled:
  assumes "filled N pre s" and "length pre < N" and "pre = [] \<or> last pre \<noteq> k"
  shows "\<exists>s'. push_distinct k s = Some s' \<and> filled N (pre @ [k]) s'"
proof -
  obtain r rest where s: "s = (pre @ r # rest, length pre)" "Suc (length pre + length rest) = N" using filled_room [OF assms(1,2)] by blast
  have "push_distinct k s = Some ((pre @ [k]) @ rest, length (pre @ [k]))"
  proof (cases "pre = []")
    case True
    then show ?thesis by (simp add: s(1) push_distinct_def set_slot_def)
  next
    case False
    then show ?thesis using assms(3) set_slot_append [of pre k r rest] slot_last [of pre "r # rest"] by (simp add: s(1) push_distinct_def)
  qed
  moreover have "filled N (pre @ [k]) ((pre @ [k]) @ rest, length (pre @ [k]))" by (rule filledI) (use s(2) in simp)
  ultimately show ?thesis by blast
qed

lemma step_distinct_filled:
  assumes "filled N pre s" and "length pre < N" and "pre = [] \<or> last pre \<noteq> k"
  shows "\<exists>s'. step_distinct k s = Some s' \<and> filled N (pre @ [k]) s'"
proof -
  obtain r rest where s: "s = (pre @ r # rest, length pre)" "Suc (length pre + length rest) = N" using filled_room [OF assms(1,2)] by blast
  have "step_distinct k s = Some ((pre @ [k]) @ rest, length (pre @ [k]))"
  proof (cases "pre = []")
    case True
    then show ?thesis by (simp add: s(1) step_distinct_def set_slot_def)
  next
    case False
    have "slot (pre @ k # rest) (length pre) = Some k" by (simp add: slot_def)
    then show ?thesis using False assms(3) set_slot_append [of pre k r rest] slot_last [of pre "k # rest"]
      by (simp add: s(1) step_distinct_def)
  qed
  moreover have "filled N (pre @ [k]) ((pre @ [k]) @ rest, length (pre @ [k]))" by (rule filledI) (use s(2) in simp)
  ultimately show ?thesis by blast
qed

lemma push_all_filled:
  fixes xs :: "('k :: linorder) list"
  assumes "filled N pre s" and "sorted_wrt (<) (pre @ xs)" and "length pre + length xs \<le> N"
  shows "\<exists>s'. for_each xs push_distinct s = Some s' \<and> filled N (pre @ xs) s'"
  using assms
proof (induction xs arbitrary: pre s)
  case (Cons x xs)
  have "pre = [] \<or> last pre \<noteq> x" using Cons.prems(2) by (cases pre rule: rev_cases) (auto simp: sorted_wrt_append)
  moreover have "length pre < N" using Cons.prems(3) by simp
  ultimately obtain s' where s': "push_distinct x s = Some s'" "filled N (pre @ [x]) s'"
    using push_distinct_filled [OF Cons.prems(1)] by blast
  have "\<exists>s''. for_each xs push_distinct s' = Some s'' \<and> filled N ((pre @ [x]) @ xs) s''"
    by (rule Cons.IH [OF s'(2)]) (use Cons.prems(2,3) in simp_all)
  then show ?case using s'(1) by simp
qed auto

lemma merge_loop_filled:
  fixes xs :: "('k :: linorder) list"
  assumes "filled N pre s" and "sorted_wrt (<) (pre @ xs)" and "sorted_wrt (<) (pre @ ys)" and "length pre + card (set xs \<union> set ys) \<le> N"
  shows "\<exists>xs' ys' s' pre'. merge_loop xs ys s = Some (xs', ys', s') \<and> filled N pre' s' \<and> (xs' = [] \<or> ys' = []) \<and>
    sorted_wrt (<) (pre' @ xs' @ ys') \<and> set (pre' @ xs' @ ys') = set pre \<union> set xs \<union> set ys"
  using assms
proof (induction xs ys s arbitrary: pre rule: merge_loop.induct)
  case (1 x xs y ys s)
  have lst: "pre = [] \<or> last pre \<noteq> x" "pre = [] \<or> last pre \<noteq> y"
    using "1.prems"(2,3) by (cases pre rule: rev_cases; auto simp: sorted_wrt_append)+
  have room: "length pre < N" using "1.prems"(4) card_gt_0_iff [of "set (x # xs) \<union> set (y # ys)"] by simp
  show ?case
  proof (cases "x \<le> y")
    case True
    let ?ys = "if x = y then ys else y # ys"
    obtain s' where s': "step_distinct x s = Some s'" "filled N (pre @ [x]) s'" using step_distinct_filled [OF "1.prems"(1) room lst(1)] by blast
    have notin: "x \<notin> set xs" "x \<notin> set ?ys" using "1.prems"(2,3) True by (auto simp: sorted_wrt_append)
    have "insert x (set xs \<union> set ?ys) = set (x # xs) \<union> set (y # ys)" by auto
    then have "card (set (x # xs) \<union> set (y # ys)) = Suc (card (set xs \<union> set ?ys))" using notin card_insert_disjoint [of "set xs \<union> set ?ys" x] by simp
    moreover have "sorted_wrt (<) ((pre @ [x]) @ xs)" "sorted_wrt (<) ((pre @ [x]) @ ?ys)"
      using "1.prems"(2,3) True by (auto simp: sorted_wrt_append)
    ultimately obtain xs' ys' s'' pre' where IH: "merge_loop xs ?ys s' = Some (xs', ys', s'')" "filled N pre' s''" "xs' = [] \<or> ys' = []"
        "sorted_wrt (<) (pre' @ xs' @ ys')" "set (pre' @ xs' @ ys') = set (pre @ [x]) \<union> set xs \<union> set ?ys"
      using "1.IH"(1) [OF True s'(1,2)] "1.prems"(4) unfolding length_append list.size by fastforce
    have "merge_loop (x # xs) (y # ys) s = Some (xs', ys', s'')" using True s'(1) IH(1) by simp
    moreover have "set (pre' @ xs' @ ys') = set pre \<union> set (x # xs) \<union> set (y # ys)" unfolding IH(5) by auto
    ultimately show ?thesis using IH(2-4) by blast
  next
    case False
    obtain s' where s': "step_distinct y s = Some s'" "filled N (pre @ [y]) s'" using step_distinct_filled [OF "1.prems"(1) room lst(2)] by blast
    have notin: "y \<notin> set (x # xs)" "y \<notin> set ys" using "1.prems"(2,3) False by (auto simp: sorted_wrt_append)
    have "insert y (set (x # xs) \<union> set ys) = set (x # xs) \<union> set (y # ys)" by auto
    then have "card (set (x # xs) \<union> set (y # ys)) = Suc (card (set (x # xs) \<union> set ys))" using notin card_insert_disjoint [of "set (x # xs) \<union> set ys" y] by simp
    moreover have "sorted_wrt (<) ((pre @ [y]) @ x # xs)" "sorted_wrt (<) ((pre @ [y]) @ ys)"
      using "1.prems"(2,3) False by (auto simp: sorted_wrt_append)
    ultimately obtain xs' ys' s'' pre' where IH: "merge_loop (x # xs) ys s' = Some (xs', ys', s'')" "filled N pre' s''" "xs' = [] \<or> ys' = []"
        "sorted_wrt (<) (pre' @ xs' @ ys')" "set (pre' @ xs' @ ys') = set (pre @ [y]) \<union> set (x # xs) \<union> set ys"
      using "1.IH"(2) [OF False s'(1,2)] "1.prems"(4) unfolding length_append list.size by fastforce
    have "merge_loop (x # xs) (y # ys) s = Some (xs', ys', s'')" using False s'(1) IH(1) by simp
    moreover have "set (pre' @ xs' @ ys') = set pre \<union> set (x # xs) \<union> set (y # ys)" unfolding IH(5) by auto
    ultimately show ?thesis using IH(2-4) by blast
  qed
qed auto

lemma merge_sort_keys:
  fixes n :: "('k :: {linorder, order_bot}) ExtNode"
  assumes ks: "node_keys (External n) = Some ks" and s: "sorted_wrt (<) ks" "sorted_wrt (<) right"
    and room: "card (set ks \<union> set right) \<le> length (ext_keys n)"
  shows "\<exists>n'. merge_sort right n = Some n' \<and> node_keys (External n') = Some (sorted_list_of_set (set ks \<union> set right)) \<and>
    n' = n\<lparr>ext_keys := ext_keys n', ext_len := ext_len n'\<rparr>"
proof -
  let ?N = "length (ext_keys n)"
  have "filled ?N [] (slice_init bot ?N, 0)" using filledI [of "[]" "slice_init bot ?N"] by (simp add: slice_init_def)
  from merge_loop_filled [OF this, of ks right] s room
  obtain xs ys s1 pre where m: "merge_loop ks right (slice_init bot ?N, 0) = Some (xs, ys, s1)" "filled ?N pre s1" "xs = [] \<or> ys = []"
      "sorted_wrt (<) (pre @ xs @ ys)" "set (pre @ xs @ ys) = set ks \<union> set right"
    by (simp only: append_Nil list.size add_0 list.set(1) Un_empty_left) blast
  have d: "distinct (pre @ xs @ ys)" "sorted (pre @ xs @ ys)" using m(4) by (simp_all only: strict_sorted_iff)
  then have len: "length pre + length xs + length ys \<le> ?N" using room distinct_card [OF d(1)] by (simp only: m(5)) simp
  have sx: "sorted_wrt (<) (pre @ xs)" using m(4) by (simp add: sorted_wrt_append)
  obtain s2 where s2: "for_each xs push_distinct s1 = Some s2" "filled ?N (pre @ xs) s2"
    using push_all_filled [OF m(2) sx] len by auto
  obtain s3 where s3: "for_each ys push_distinct s2 = Some s3" "filled ?N (pre @ xs @ ys) s3"
    using push_all_filled [OF s2(2), of ys] m(4) len by auto
  have "pre @ xs @ ys = sorted_list_of_set (set (pre @ xs @ ys))"
    by (rule sorted_list_of_set.idem_if_sorted_distinct [symmetric, OF d(2,1)])
  then have res: "pre @ xs @ ys = sorted_list_of_set (set ks \<union> set right)" by (simp only: m(5))
  have "snd s3 \<le> length (fst s3)" "take (snd s3) (fst s3) = pre @ xs @ ys" using s3(2) len by (auto simp: filled_def)
  then show ?thesis using ks m(1) s2(1) s3(1) res by (auto simp: merge_sort_def front_def)
qed

section \<open>Properties\<close>



end
