(* ===== verification/Neb_LSM.thy ===== *)
theory Neb_LSM
  imports Neb_BTree_Cursor Neb_BTree_Merge "HOL-Library.Multiset"
begin

text \<open>
  The LSM tree of the ranged index, \<^verbatim>\<open>index/ranged/lsm/tree.rs\<close>: a B+ tree in memory, a second
  one while its keys are moved to the disk trees, two disk trees of growing pages, and a set of deleted
  keys they all share. In the code every tree holds a reference to that set; here it is handed to a tree
  before an operation that looks at it (\<open>share\<close>). A cursor merges the cursors of all trees; it
  refers to the trees as they are when it moves.
\<close>

section \<open>Trees\<close>

record 'k LSMTree =
  mem_tree :: "'k BPlusTree"
  trans_mem_tree :: "'k BPlusTree option"
  disk_0 :: "'k BPlusTree"
  disk_1 :: "'k BPlusTree"
  lsm_deletion :: "'k set"

definition LAST_LEVEL_MULT_FACTOR :: nat where "LAST_LEVEL_MULT_FACTOR = 2"

definition LSMTree_create :: "(nat \<Rightarrow> Id) \<Rightarrow> (nat \<Rightarrow> Id) \<Rightarrow> (nat \<Rightarrow> Id) \<Rightarrow> ('k :: {order_bot, order_top}) LSMTree" where
  "LSMTree_create ids_m ids_0 ids_1 =
     \<lparr>mem_tree = BPlusTree_new LEVEL_M {} ids_m, trans_mem_tree = None, disk_0 = BPlusTree_new LEVEL_0 {} ids_0,
      disk_1 = BPlusTree_new LEVEL_1 {} ids_1, lsm_deletion = {}\<rparr>"

definition share :: "'k LSMTree \<Rightarrow> 'k BPlusTree \<Rightarrow> 'k BPlusTree" where
  "share l t = t\<lparr>deletion := lsm_deletion l\<rparr>"

text \<open>The trees in the order of their cursors.\<close>

definition level_trees :: "'k LSMTree \<Rightarrow> 'k BPlusTree list" where
  "level_trees l = [mem_tree l, disk_0 l, disk_1 l] @ (case trans_mem_tree l of None \<Rightarrow> [] | Some t \<Rightarrow> [t])"

section \<open>Cursors\<close>

datatype 'k LevelCursor = TreeCursor "'k RTCursor" | DummyCursor

fun level_current :: "'k LevelCursor \<Rightarrow> 'k option" where
  "level_current (TreeCursor c) = cur_current c"
| "level_current DummyCursor = None"

fun level_next :: "'k BPlusTree list \<Rightarrow> nat \<Rightarrow> 'k LevelCursor \<Rightarrow> 'k LevelCursor option" where
  "level_next ts i (TreeCursor c) = do { t \<leftarrow> slot ts i; (_, c') \<leftarrow> cursor_next t c; Some (TreeCursor c') }"
| "level_next ts i DummyCursor = Some DummyCursor"

record 'k LSMTreeCursor =
  lc_current :: "(nat \<times> 'k) option"
  lc_cursors :: "'k LevelCursor list"
  lc_ordering :: Ordering

text \<open>The keys the cursors show, with their positions; \<^verbatim>\<open>min_by\<close> keeps the first of equal
  elements and \<^verbatim>\<open>max_by\<close> the last.\<close>

fun shown :: "nat \<Rightarrow> 'k LevelCursor list \<Rightarrow> (nat \<times> 'k) list" where
  "shown i [] = []"
| "shown i (c # cs) = (case level_current c of None \<Rightarrow> shown (Suc i) cs | Some k \<Rightarrow> (i, k) # shown (Suc i) cs)"

fun lead :: "Ordering \<Rightarrow> nat \<times> ('k :: linorder) \<Rightarrow> nat \<times> 'k \<Rightarrow> nat \<times> 'k" where
  "lead Forward a b = (if snd b < snd a then b else a)"
| "lead Backward a b = (if snd b < snd a then a else b)"

definition leading_tree_key :: "('k :: linorder) LevelCursor list \<Rightarrow> Ordering \<Rightarrow> (nat \<times> 'k) option" where
  "leading_tree_key cs ord = (case shown 0 cs of [] \<Rightarrow> None | x # xs \<Rightarrow> Some (foldl (lead ord) x xs))"

definition LSMTreeCursor_new :: "'k \<Rightarrow> ('k :: {linorder, order_bot}) LSMTree \<Rightarrow> Ordering \<Rightarrow> 'k LSMTreeCursor option" where
  "LSMTreeCursor_new k l ord = do {
     m \<leftarrow> seek (mem_tree l) k ord;
     d0 \<leftarrow> seek (disk_0 l) k ord;
     d1 \<leftarrow> seek (disk_1 l) k ord;
     tr \<leftarrow> (case trans_mem_tree l of None \<Rightarrow> Some DummyCursor | Some t \<Rightarrow> map_option TreeCursor (seek t k ord));
     (let cs = [TreeCursor m, TreeCursor d0, TreeCursor d1, tr]
      in Some \<lparr>lc_current = leading_tree_key cs ord, lc_cursors = cs, lc_ordering = ord\<rparr>) }"

partial_function (option) lsm_next ::
  "('k :: linorder) LSMTree \<Rightarrow> 'k LSMTreeCursor \<Rightarrow> ('k option \<times> 'k LSMTreeCursor) option" where
  "lsm_next l c =
     (case lc_current c of
        None \<Rightarrow> Some (None, c)
      | Some (i, k) \<Rightarrow> do {
          lc \<leftarrow> slot (lc_cursors c) i;
          lc' \<leftarrow> level_next (level_trees l) i lc;
          (let cs = (lc_cursors c)[i := lc'];
               c' = c\<lparr>lc_current := leading_tree_key cs (lc_ordering c), lc_cursors := cs\<rparr>
           in if k \<in> lsm_deletion l then lsm_next l c' else Some (Some k, c')) })"

definition lsm_current :: "'k LSMTreeCursor \<Rightarrow> 'k option" where
  "lsm_current c = map_option snd (lc_current c)"

section \<open>Operations\<close>

definition lsm_insert :: "'k \<Rightarrow> ('k :: {linorder, order_bot, order_top}) LSMTree \<Rightarrow> (bool \<times> 'k LSMTree) option" where
  "lsm_insert k l = do { (r, m) \<leftarrow> btree_insert LEVEL_M k (mem_tree l); Some (r, l\<lparr>mem_tree := m\<rparr>) }"

definition lsm_seek :: "'k \<Rightarrow> ('k :: {linorder, order_bot}) LSMTree \<Rightarrow> Ordering \<Rightarrow> 'k LSMTreeCursor option" where
  "lsm_seek k l ord = LSMTreeCursor_new k l ord"

definition lsm_delete :: "'k \<Rightarrow> ('k :: {linorder, order_bot}) LSMTree \<Rightarrow> (bool \<times> 'k LSMTree) option" where
  "lsm_delete k l = do {
     c \<leftarrow> lsm_seek k l Forward;
     if lsm_current c = Some k then Some (True, l\<lparr>lsm_deletion := insert k (lsm_deletion l)\<rparr>) else Some (False, l) }"

definition lsm_ideal_capacity :: nat where
  "lsm_ideal_capacity = ideal_capacity_from_node_size LEVEL_1 * LAST_LEVEL_MULT_FACTOR"

definition lsm_count :: "'k LSMTree \<Rightarrow> nat" where
  "lsm_count l = unat (tree_len (disk_0 l)) + unat (tree_len (disk_1 l))"

definition lsm_oversized :: "'k LSMTree \<Rightarrow> bool" where
  "lsm_oversized l = (lsm_ideal_capacity < unat (tree_len (disk_1 l)))"

definition lsm_merge_keys :: "'k list \<Rightarrow> ('k :: {linorder, order_bot, order_top}) LSMTree \<Rightarrow> 'k LSMTree option" where
  "lsm_merge_keys ks l = do { d \<leftarrow> merge_with_keys LEVEL_1 ks (share l (disk_1 l)); Some (l\<lparr>disk_1 := d\<rparr>) }"

text \<open>\<^verbatim>\<open>merge_levels\<close>: an oversized memory tree is swapped for a new one and moved as a whole to the
  first disk tree, an oversized first disk tree in part to the second one; keys that were dropped on the
  way leave the deletion set.\<close>

definition swap_mem_tree :: "(nat \<Rightarrow> Id) \<Rightarrow> ('k :: {order_bot, order_top}) LSMTree \<Rightarrow> 'k LSMTree" where
  "swap_mem_tree ids l = l\<lparr>trans_mem_tree := Some (mem_tree l), mem_tree := BPlusTree_new LEVEL_M (lsm_deletion l) ids\<rparr>"

definition merge_mem_tree ::
  "(nat \<Rightarrow> Id) \<Rightarrow> ('k :: {linorder, order_bot, order_top}) LSMTree \<Rightarrow> ((bool \<times> 'k set) \<times> 'k LSMTree) option" where
  "merge_mem_tree ids l =
     (if btree_oversized LEVEL_M (mem_tree l) then do {
        (_, _, d0, deleted) \<leftarrow> merge_with_boundary LEVEL_M LEVEL_0 top False (share l (mem_tree l)) (share l (disk_0 l)) {};
        Some ((True, deleted), (swap_mem_tree ids l)\<lparr>disk_0 := d0, trans_mem_tree := None\<rparr>) }
      else Some ((False, {}), l))"

definition merge_disk_trees ::
  "'k set \<Rightarrow> ('k :: {linorder, order_bot, order_top}) LSMTree \<Rightarrow> ((bool \<times> 'k set) \<times> 'k LSMTree) option" where
  "merge_disk_trees deleted l =
     (if btree_oversized LEVEL_0 (disk_0 l) then do {
        (_, d0, d1, deleted) \<leftarrow> level_merge LEVEL_0 LEVEL_1 True (share l (disk_0 l)) (share l (disk_1 l)) deleted;
        Some ((True, deleted), l\<lparr>disk_0 := d0, disk_1 := d1\<rparr>) }
      else Some ((False, deleted), l))"

definition merge_levels :: "(nat \<Rightarrow> Id) \<Rightarrow> ('k :: {linorder, order_bot, order_top}) LSMTree \<Rightarrow> (bool \<times> 'k LSMTree) option" where
  "merge_levels ids l = do {
     ((m1, deleted), l) \<leftarrow> merge_mem_tree ids l;
     ((m2, deleted), l) \<leftarrow> merge_disk_trees deleted l;
     Some (m1 \<or> m2, l\<lparr>lsm_deletion := lsm_deletion l - deleted\<rparr>) }"

text \<open>\<^verbatim>\<open>retain\<close>: the keys below the pivot of all trees but the last, collected by the answers of
  \<^verbatim>\<open>next\<close>, are merged into the last tree, which is then cut at the pivot.\<close>

partial_function (option) retain_loop ::
  "'k set \<Rightarrow> 'k \<Rightarrow> ('k :: linorder) BPlusTree \<Rightarrow> 'k RTCursor \<Rightarrow> 'k list \<Rightarrow> 'k list \<Rightarrow> ('k list \<times> 'k list) option" where
  "retain_loop D pivot t c retained deleted = do {
     (r, c') \<leftarrow> cursor_next t c;
     (case r of
        None \<Rightarrow> Some (retained, deleted)
      | Some k \<Rightarrow>
          if pivot \<le> k then Some (retained, deleted)
          else if k \<notin> D then retain_loop D pivot t c' (retained @ [k]) deleted
          else retain_loop D pivot t c' retained (deleted @ [k])) }"

definition retain_tree ::
  "'k set \<Rightarrow> 'k \<Rightarrow> nat \<Rightarrow> ('k :: {linorder, order_bot, order_top}) BPlusTree \<Rightarrow> 'k list \<Rightarrow> 'k list \<Rightarrow>
   (('k list \<times> 'k list) \<times> 'k BPlusTree) option" where
  "retain_tree D pivot cap t retained deleted = do {
     c \<leftarrow> seek t bot Forward;
     r \<leftarrow> retain_loop D pivot t c retained deleted;
     t \<leftarrow> btree_clear cap t;
     Some (r, t) }"

definition lsm_retain :: "(nat \<Rightarrow> Id) \<Rightarrow> 'k \<Rightarrow> ('k :: {linorder, order_bot, order_top}) LSMTree \<Rightarrow> 'k LSMTree option" where
  "lsm_retain ids pivot l = do {
     ((ret, del), _) \<leftarrow> retain_tree (lsm_deletion l) pivot LEVEL_M (mem_tree l) [] [];
     ((ret, del), d0) \<leftarrow> retain_tree (lsm_deletion l) pivot LEVEL_0 (disk_0 l) ret del;
     d1 \<leftarrow> merge_with_keys LEVEL_1 ret (share l (disk_1 l));
     d1 \<leftarrow> retain_by_key LEVEL_1 pivot d1;
     Some ((swap_mem_tree ids l)\<lparr>trans_mem_tree := None, disk_0 := d0, disk_1 := d1,
       lsm_deletion := {k \<in> lsm_deletion l - set del. k < pivot}\<rparr>) }"

text \<open>\<^verbatim>\<open>pivot_key\<close>: going back over the last pages of the disk trees, the one with the greatest middle
  key first, until they hold more than a sixteenth of the capacity.\<close>

record 'k Probe =
  pr_tree :: "'k BPlusTree"
  pr_len :: nat
  pr_prev :: NodeCellRef
  pr_mid :: 'k
  pr_avil :: bool

fun probe_trees :: "'k BPlusTree list \<Rightarrow> 'k Probe list option" where
  "probe_trees [] = Some []"
| "probe_trees (t # ts) = do {
     d \<leftarrow> last_node_prev_digest t (root t);
     ps \<leftarrow> probe_trees ts;
     Some (case d of None \<Rightarrow> ps | Some (n, p, m) \<Rightarrow> \<lparr>pr_tree = t, pr_len = n, pr_prev = p, pr_mid = m, pr_avil = True\<rparr> # ps) }"

fun max_probe :: "nat \<Rightarrow> ('k :: linorder) Probe list \<Rightarrow> (nat \<times> 'k Probe) option" where
  "max_probe i [] = None"
| "max_probe i (p # ps) =
     (case max_probe (Suc i) ps of
        None \<Rightarrow> if pr_avil p then Some (i, p) else None
      | Some (j, q) \<Rightarrow> if pr_avil p \<and> pr_mid q < pr_mid p then Some (i, p) else Some (j, q))"

partial_function (option) probe_pivot :: "nat \<Rightarrow> nat \<Rightarrow> ('k :: linorder) Probe list \<Rightarrow> 'k option option" where
  "probe_pivot scale accum ps =
     (case max_probe 0 ps of
        None \<Rightarrow> Some None
      | Some (i, p) \<Rightarrow>
          if scale < accum + pr_len p then Some (Some (pr_mid p))
          else do {
            d \<leftarrow> last_node_prev_digest (pr_tree p) (pr_prev p);
            probe_pivot scale (accum + pr_len p)
              (ps[i := (case d of
                 None \<Rightarrow> p\<lparr>pr_avil := False\<rparr>
               | Some (n, pp, m) \<Rightarrow> p\<lparr>pr_len := n, pr_prev := pp, pr_mid := m\<rparr>)]) })"

definition pivot_key :: "('k :: linorder) LSMTree \<Rightarrow> 'k option option" where
  "pivot_key l = do {
     ps \<leftarrow> probe_trees [disk_0 l, disk_1 l];
     if ps = [] then Some None else probe_pivot (lsm_ideal_capacity div 16) 0 ps }"

section \<open>The sequence a cursor shows\<close>

text \<open>All answers of a cursor.\<close>

partial_function (option) lsm_collect :: "('k :: linorder) LSMTree \<Rightarrow> 'k LSMTreeCursor \<Rightarrow> 'k list option" where
  "lsm_collect l c = do {
     (r, c') \<leftarrow> lsm_next l c;
     (case r of None \<Rightarrow> Some [] | Some k \<Rightarrow> do { ks \<leftarrow> lsm_collect l c'; Some (k # ks) }) }"

text \<open>The order in which a cursor meets keys.\<close>

fun before :: "Ordering \<Rightarrow> ('k :: linorder) \<Rightarrow> 'k \<Rightarrow> bool" where
  "before Forward x y = (x \<le> y)"
| "before Backward x y = (y \<le> x)"

lemma before_order:
  "before ord x x" "before ord x y \<Longrightarrow> before ord y z \<Longrightarrow> before ord x z" "before ord x y \<Longrightarrow> before ord y x \<Longrightarrow> x = y"
  "before ord x y \<or> before ord y x"
  by (cases ord; auto)+

lemma lead_least: "lead ord a b \<in> {a, b}" "before ord (snd (lead ord a b)) (snd a)" "before ord (snd (lead ord a b)) (snd b)"
  by (cases ord; auto)+

lemma foldl_lead:
  "foldl (lead ord) a xs \<in> set (a # xs) \<and> (\<forall>x \<in> set (a # xs). before ord (snd (foldl (lead ord) a xs)) (snd x))"
proof (induction xs arbitrary: a)
  case (Cons x xs)
  let ?b = "lead ord a x"
  have "foldl (lead ord) ?b xs \<in> set (?b # xs)" and le: "\<forall>y \<in> set (?b # xs). before ord (snd (foldl (lead ord) ?b xs)) (snd y)"
    using Cons.IH [of ?b] by blast+
  then have "before ord (snd (foldl (lead ord) ?b xs)) (snd a)" "before ord (snd (foldl (lead ord) ?b xs)) (snd x)"
    using lead_least(2,3) [of ord a x] before_order(2) by (meson list.set_intros(1))+
  then show ?case using Cons.IH [of ?b] lead_least(1) [of ord a x] by auto
qed (simp add: before_order)

lemma set_shown: "set (shown i cs) = {(i + j, k) | j k. j < length cs \<and> level_current (cs ! j) = Some k}"
proof (induction cs arbitrary: i)
  case (Cons c cs)
  have "{(i + j, k) | j k. j < length (c # cs) \<and> level_current ((c # cs) ! j) = Some k} =
      {(i, k) | k. level_current c = Some k} \<union> {(Suc i + j, k) | j k. j < length cs \<and> level_current (cs ! j) = Some k}"
    by (auto simp: less_Suc_eq_0_disj)
  then show ?case by (auto simp: Cons.IH split: option.splits)
qed simp

lemma leading_None: "leading_tree_key cs ord = None \<longleftrightarrow> (\<forall>c \<in> set cs. level_current c = None)"
proof -
  have "leading_tree_key cs ord = None \<longleftrightarrow> set (shown 0 cs) = {}" by (auto simp: leading_tree_key_def split: list.splits)
  also have "\<dots> \<longleftrightarrow> (\<forall>j < length cs. level_current (cs ! j) = None)" by (auto simp: set_shown)
  finally show ?thesis by (simp add: all_set_conv_all_nth)
qed

lemma leading_Some:
  assumes "leading_tree_key cs ord = Some (i, k)"
  shows "i < length cs" and "level_current (cs ! i) = Some k"
    and "\<forall>j < length cs. \<forall>k'. level_current (cs ! j) = Some k' \<longrightarrow> before ord k k'"
proof -
  obtain x xs where s: "shown 0 cs = x # xs" and f: "foldl (lead ord) x xs = (i, k)"
    using assms by (auto simp: leading_tree_key_def split: list.splits)
  have "(i, k) \<in> set (shown 0 cs)" using foldl_lead [of ord x xs] f by (simp add: s)
  then show "i < length cs" "level_current (cs ! i) = Some k" by (auto simp: set_shown)
  have "\<forall>y \<in> set (shown 0 cs). before ord k (snd y)" using foldl_lead [of ord x xs] f by (simp add: s)
  then show "\<forall>j < length cs. \<forall>k'. level_current (cs ! j) = Some k' \<longrightarrow> before ord k k'" by (fastforce simp: set_shown)
qed

text \<open>The keys of all levels that are still to come, as one ordered sequence.\<close>

definition keys_of :: "'k list list \<Rightarrow> 'k multiset" where
  "keys_of rems = \<Sum>\<^sub># (mset (map mset rems))"

lemma keys_of_pop:
  assumes "i < length rems" and "rems ! i = k # r"
  shows "keys_of rems = add_mset k (keys_of (rems[i := r]))"
proof -
  have split: "keys_of (xs @ (k # r) # ys) = add_mset k (keys_of (xs @ r # ys))" for xs ys by (simp add: keys_of_def)
  have "rems = take i rems @ (k # r) # drop (Suc i) rems" using id_take_nth_drop [OF assms(1)] assms(2) by simp
  moreover have "rems[i := r] = take i rems @ r # drop (Suc i) rems" using assms(1) by (rule upd_conv_take_nth_drop)
  ultimately show ?thesis using split [of "take i rems" "drop (Suc i) rems"] by simp
qed

lemma in_keys_of: "x \<in># keys_of rems \<longleftrightarrow> (\<exists>i < length rems. x \<in> set (rems ! i))"
  by (auto simp: keys_of_def in_set_conv_nth) (metis in_set_conv_nth)+

lemma keys_of_Nil: "keys_of rems = {#} \<longleftrightarrow> (\<forall>r \<in> set rems. r = [])"
  by (auto simp: keys_of_def)

text \<open>What the cursor of an LSM tree relies on in the cursors of its trees, and the direction they go.\<close>

locale level_cursors = page_cursor remaining
  for remaining :: "('k :: linorder) BPlusTree \<Rightarrow> 'k RTCursor \<Rightarrow> 'k list \<Rightarrow> bool" +
  fixes ord :: Ordering
begin

fun level_rem :: "'k BPlusTree list \<Rightarrow> nat \<Rightarrow> 'k LevelCursor \<Rightarrow> 'k list \<Rightarrow> bool" where
  "level_rem ts i (TreeCursor c) rem = (\<exists>t. slot ts i = Some t \<and> remaining t c rem)"
| "level_rem ts i DummyCursor rem = (rem = [])"

lemma level_rem_current: "level_rem ts i c rem \<Longrightarrow> level_current c = (case rem of [] \<Rightarrow> None | k # _ \<Rightarrow> Some k)"
  by (cases c; cases rem) (auto dest: at_end at_key)

lemma level_rem_next: "level_rem ts i c rem \<Longrightarrow> \<exists>c'. level_next ts i c = Some c' \<and> level_rem ts i c' (tl rem)"
proof (cases c)
  case (TreeCursor d)
  assume "level_rem ts i c rem"
  then obtain t where t: "slot ts i = Some t" "remaining t d rem" by (auto simp: TreeCursor)
  then obtain r d' where "cursor_next t d = Some (r, d')" "remaining t d' (tl rem)" using step by blast
  then show ?thesis using t(1) by (auto simp: TreeCursor)
qed auto


definition lsm_at :: "'k LSMTree \<Rightarrow> 'k LSMTreeCursor \<Rightarrow> 'k list \<Rightarrow> bool" where
  "lsm_at l c L \<longleftrightarrow> lc_ordering c = ord \<and> lc_current c = leading_tree_key (lc_cursors c) ord \<and> sorted_wrt (before ord) L \<and>
     (\<exists>rems. length rems = length (lc_cursors c) \<and> mset L = keys_of rems \<and>
        (\<forall>i < length rems. level_rem (level_trees l) i (lc_cursors c ! i) (rems ! i) \<and> sorted_wrt (before ord) (rems ! i)))"

lemma lsm_at_Nil:
  assumes "lsm_at l c []"
  shows "lc_current c = None"
proof -
  obtain rems where r: "length rems = length (lc_cursors c)" "keys_of rems = {#}"
      "\<forall>i < length rems. level_rem (level_trees l) i (lc_cursors c ! i) (rems ! i)" using assms by (auto simp: lsm_at_def)
  have "level_current (lc_cursors c ! i) = None" if "i < length (lc_cursors c)" for i
  proof -
    have "rems ! i = []" using r(1,2) that nth_mem [of i rems] by (simp add: keys_of_Nil)
    moreover have "level_rem (level_trees l) i (lc_cursors c ! i) (rems ! i)" using r(1,3) that by simp
    ultimately show ?thesis using level_rem_current by fastforce
  qed
  then show ?thesis using assms by (auto simp: lsm_at_def leading_None in_set_conv_nth)
qed

lemma lsm_at_Cons:
  assumes "lsm_at l c (k # L)"
  shows "\<exists>i lc lc'. lc_current c = Some (i, k) \<and> slot (lc_cursors c) i = Some lc \<and> level_next (level_trees l) i lc = Some lc' \<and>
    lsm_at l (c\<lparr>lc_current := leading_tree_key ((lc_cursors c)[i := lc']) ord, lc_cursors := (lc_cursors c)[i := lc']\<rparr>) L"
proof -
  obtain rems where len: "length rems = length (lc_cursors c)" and ms: "mset (k # L) = keys_of rems"
    and lr: "\<And>i. i < length rems \<Longrightarrow> level_rem (level_trees l) i (lc_cursors c ! i) (rems ! i)"
    and so: "\<And>i. i < length rems \<Longrightarrow> sorted_wrt (before ord) (rems ! i)"
    using assms by (auto simp: lsm_at_def)
  have cur: "level_current (lc_cursors c ! i) = (case rems ! i of [] \<Rightarrow> None | x # _ \<Rightarrow> Some x)" if "i < length rems" for i
    using level_rem_current [OF lr [OF that]] .
  have "k \<in># keys_of rems" by (simp add: ms [symmetric])
  then obtain j where j: "j < length rems" "k \<in> set (rems ! j)" by (auto simp: in_keys_of)
  then have "level_current (lc_cursors c ! j) \<noteq> None" using cur [OF j(1)] by (auto split: list.splits)
  then have "lc_current c \<noteq> None" using assms j(1) len by (auto simp: lsm_at_def leading_None)
  then obtain i k' where i: "lc_current c = Some (i, k')" by auto
  then have lead: "leading_tree_key (lc_cursors c) ord = Some (i, k')" using assms by (simp add: lsm_at_def)
  note ls = leading_Some [OF lead]
  have il: "i < length rems" using ls(1) len by simp
  obtain r where r: "rems ! i = k' # r" using ls(2) cur [OF il] by (auto split: list.splits)
  have "before ord k' x" if x: "x \<in># keys_of rems" for x
  proof -
    obtain m where m: "m < length rems" "x \<in> set (rems ! m)" using x by (auto simp: in_keys_of)
    then obtain y ys where y: "rems ! m = y # ys" by (cases "rems ! m") auto
    then have "before ord k' y" using ls(3) cur [OF m(1)] m(1) len by simp
    moreover have "before ord y x" using so [OF m(1)] m(2) by (auto simp: y before_order)
    ultimately show ?thesis by (rule before_order(2))
  qed
  moreover have "before ord k x" if "x \<in># keys_of rems" for x
    using that assms unfolding ms [symmetric] by (auto simp: lsm_at_def before_order)
  moreover have "k' \<in># keys_of rems" using il r by (auto simp: in_keys_of)
  ultimately have k: "k' = k" using \<open>k \<in># keys_of rems\<close> before_order(3) by blast
  obtain lc' where lc': "level_next (level_trees l) i (lc_cursors c ! i) = Some lc'" "level_rem (level_trees l) i lc' r"
    using level_rem_next [OF lr [OF il]] r by auto
  let ?c = "c\<lparr>lc_current := leading_tree_key ((lc_cursors c)[i := lc']) ord, lc_cursors := (lc_cursors c)[i := lc']\<rparr>"
  have "mset L = keys_of (rems[i := r])" using ms keys_of_pop [OF il r] by (simp add: k)
  moreover have "level_rem (level_trees l) m ((lc_cursors c)[i := lc'] ! m) (rems[i := r] ! m) \<and> sorted_wrt (before ord) (rems[i := r] ! m)"
    if "m < length rems" for m
    using that lr [OF that] so [OF that] so [OF il] lc'(2) len r by (cases "m = i") auto
  ultimately have "lsm_at l ?c L" using assms len unfolding lsm_at_def by (auto intro!: exI [of _ "rems[i := r]"])
  then show ?thesis using i k lc'(1) ls(1) by (auto simp: slot_def)
qed

lemma lsm_at_next:
  "lsm_at l c L \<Longrightarrow> \<exists>c'. lsm_next l c = Some (case dropWhile (\<lambda>k. k \<in> lsm_deletion l) L of [] \<Rightarrow> None | k # _ \<Rightarrow> Some k, c') \<and>
     lsm_at l c' (tl (dropWhile (\<lambda>k. k \<in> lsm_deletion l) L))"
proof (induction L arbitrary: c)
  case Nil
  then show ?case using lsm_at_Nil [OF Nil] by (subst lsm_next.simps) simp
next
  case (Cons k L)
  obtain i lc lc' where c: "lc_current c = Some (i, k)" "slot (lc_cursors c) i = Some lc" "level_next (level_trees l) i lc = Some lc'"
      "lsm_at l (c\<lparr>lc_current := leading_tree_key ((lc_cursors c)[i := lc']) ord, lc_cursors := (lc_cursors c)[i := lc']\<rparr>) L"
    using lsm_at_Cons [OF Cons.prems] by blast
  have o: "lc_ordering c = ord" using Cons.prems by (simp add: lsm_at_def)
  show ?case using Cons.IH [OF c(4)] c by (subst lsm_next.simps) (simp add: o Let_def)
qed

lemma lsm_at_current: "lsm_at l c L \<Longrightarrow> lsm_current c = (case L of [] \<Rightarrow> None | k # _ \<Rightarrow> Some k)"
  by (cases L) (auto simp: lsm_current_def dest!: lsm_at_Nil lsm_at_Cons)

lemma collect_at: "lsm_at l c L \<Longrightarrow> lsm_collect l c = Some (filter (\<lambda>k. k \<notin> lsm_deletion l) L)"
proof (induction "length L" arbitrary: L c rule: less_induct)
  case less
  let ?L = "dropWhile (\<lambda>k. k \<in> lsm_deletion l) L"
  obtain c' where c': "lsm_next l c = Some (case ?L of [] \<Rightarrow> None | k # _ \<Rightarrow> Some k, c')" "lsm_at l c' (tl ?L)"
    using lsm_at_next [OF less.prems] by blast
  have f: "filter (\<lambda>k. k \<notin> lsm_deletion l) L = filter (\<lambda>k. k \<notin> lsm_deletion l) ?L"
    by (metis (no_types, lifting) filter_append filter_False append_Nil set_takeWhileD takeWhile_dropWhile_id)
  show ?case
  proof (cases ?L)
    case Nil
    then have "lsm_next l c = Some (None, c')" using c'(1) by (simp only: list.case)
    then show ?thesis unfolding f Nil by (subst lsm_collect.simps) simp
  next
    case (Cons k ks)
    have "length ks < length L" using length_dropWhile_le [of "\<lambda>k. k \<in> lsm_deletion l" L] by (simp add: Cons)
    moreover have "k \<notin> lsm_deletion l" using Cons hd_dropWhile [of "\<lambda>k. k \<in> lsm_deletion l" L] by simp
    ultimately show ?thesis using c' f less.hyps [of ks c'] by (subst lsm_collect.simps) (simp add: Cons)
  qed
qed

end

interpretation forward_levels: level_cursors fwd_rem Forward
  by unfold_locales

interpretation backward_levels: level_cursors bwd_rem Backward
  by unfold_locales

section \<open>The keys of an LSM tree\<close>

definition lsm_holds :: "('k :: {linorder, order_bot, order_top}) LSMTree \<Rightarrow> 'k set \<Rightarrow> 'k set \<Rightarrow> 'k set \<Rightarrow> 'k set \<Rightarrow> bool" where
  "lsm_holds l Sm S0 S1 St \<longleftrightarrow> btree_holds LEVEL_M (mem_tree l) Sm \<and> btree_holds LEVEL_0 (disk_0 l) S0 \<and>
     btree_holds LEVEL_1 (disk_1 l) S1 \<and>
     (case trans_mem_tree l of None \<Rightarrow> St = {} | Some t \<Rightarrow> btree_holds LEVEL_M t St)"

abbreviation level_keys :: "'k set \<Rightarrow> 'k set \<Rightarrow> 'k set \<Rightarrow> 'k set \<Rightarrow> 'k multiset" where
  "level_keys Sm S0 S1 St \<equiv> mset_set Sm + mset_set S0 + mset_set S1 + mset_set St"

lemma lsm_holds_finite: "lsm_holds l Sm S0 S1 St \<Longrightarrow> finite Sm \<and> finite S0 \<and> finite S1 \<and> finite St"
  by (auto simp: lsm_holds_def btree_holds_finite split: option.splits)

lemma sorted_before: "sorted_wrt (before Forward) xs \<longleftrightarrow> sorted xs"
  by (induction xs) auto

lemma mset_sorted_list_of_set: "mset (sorted_list_of_set S) = mset_set (S :: 'k :: linorder set)"
  by (metis mset_sorted_list_of_multiset sorted_list_of_mset_set)

lemma lsm_seek_forward:
  assumes "lsm_holds l Sm S0 S1 St"
  shows "\<exists>c. lsm_seek k l Forward = Some c \<and>
    forward_levels.lsm_at l c (sorted_list_of_multiset (filter_mset (\<lambda>x. k \<le> x) (level_keys Sm S0 S1 St)))"
proof -
  let ?s = "\<lambda>S. sorted_list_of_set {x \<in> S. k \<le> x}"
  note fin = lsm_holds_finite [OF assms]
  obtain m where m: "seek (mem_tree l) k Forward = Some m" "fwd_rem (mem_tree l) m (?s Sm)"
    using assms seek_forward [of LEVEL_M "mem_tree l" Sm k] by (auto simp: lsm_holds_def intro: fwd_remI)
  obtain d0 where d0: "seek (disk_0 l) k Forward = Some d0" "fwd_rem (disk_0 l) d0 (?s S0)"
    using assms seek_forward [of LEVEL_0 "disk_0 l" S0 k] by (auto simp: lsm_holds_def intro: fwd_remI)
  obtain d1 where d1: "seek (disk_1 l) k Forward = Some d1" "fwd_rem (disk_1 l) d1 (?s S1)"
    using assms seek_forward [of LEVEL_1 "disk_1 l" S1 k] by (auto simp: lsm_holds_def intro: fwd_remI)
  obtain tr where tr: "(case trans_mem_tree l of None \<Rightarrow> Some DummyCursor | Some t \<Rightarrow> map_option TreeCursor (seek t k Forward)) = Some tr"
      "forward_levels.level_rem (level_trees l) 3 tr (?s St)"
  proof (cases "trans_mem_tree l")
    case None
    then show ?thesis using that [of DummyCursor] assms by (simp add: lsm_holds_def)
  next
    case (Some t)
    then obtain c where "seek t k Forward = Some c" "fwd_rem t c (?s St)"
      using assms seek_forward [of LEVEL_M t St k] by (auto simp: lsm_holds_def intro: fwd_remI)
    then show ?thesis using that [of "TreeCursor c"] Some by (simp add: level_trees_def slot_def)
  qed
  let ?cs = "[TreeCursor m, TreeCursor d0, TreeCursor d1, tr]"
  let ?rems = "[?s Sm, ?s S0, ?s S1, ?s St]"
  let ?c = "\<lparr>lc_current = leading_tree_key ?cs Forward, lc_cursors = ?cs, lc_ordering = Forward\<rparr>"
  have "lsm_seek k l Forward = Some ?c" using m(1) d0(1) d1(1) tr(1) by (simp add: lsm_seek_def LSMTreeCursor_new_def Let_def)
  moreover have "forward_levels.level_rem (level_trees l) i (?cs ! i) (?rems ! i) \<and> sorted_wrt (before Forward) (?rems ! i)"
    if i4: "i < 4" for i
  proof -
    have sl: "slot (level_trees l) 0 = Some (mem_tree l)" "slot (level_trees l) 1 = Some (disk_0 l)" "slot (level_trees l) 2 = Some (disk_1 l)"
      by (auto simp: slot_def level_trees_def split: option.splits)
    consider "i = 0" | "i = 1" | "i = 2" | "i = 3" using i4 by linarith
    then show ?thesis using m(2) d0(2) d1(2) tr(2) sl by cases (auto simp: sorted_before)
  qed
  moreover have "filter_mset (\<lambda>x. k \<le> x) (level_keys Sm S0 S1 St) = keys_of ?rems"
    using fin by (simp add: keys_of_def filter_mset_mset_set mset_sorted_list_of_set add.assoc)
  ultimately show ?thesis
    by (auto simp: forward_levels.lsm_at_def sorted_before intro!: exI [of _ ?rems])
qed

section \<open>Insertions, deletions and scans\<close>

lemma sorted_list_of_multiset_unique: "sorted xs \<Longrightarrow> mset xs = M \<Longrightarrow> xs = sorted_list_of_multiset (M :: 'k :: linorder multiset)"
  by (auto simp: sorted_list_of_multiset_mset sort_key_id_if_sorted)

lemma sorted_filter': "sorted (xs :: 'k :: linorder list) \<Longrightarrow> sorted (filter P xs)"
  by (simp add: sorted_wrt_filter)

lemma least_is_head:
  assumes "sorted (y # ys)" and "set (y # ys) = {x \<in> U. k \<le> x}"
  shows "k \<in> U \<longleftrightarrow> y = (k :: 'k :: linorder)"
proof
  assume "k \<in> U"
  then have "k \<in> set (y # ys)" unfolding assms(2) by simp
  then have "y \<le> k" using assms(1) by auto
  moreover have "y \<in> set (y # ys)" by simp
  then have "k \<le> y" unfolding assms(2) by simp
  ultimately show "y = k" by simp
next
  assume "y = k"
  moreover have "y \<in> set (y # ys)" by simp
  ultimately show "k \<in> U" unfolding assms(2) by simp
qed

lemma lsm_scan_keys:
  assumes "lsm_holds l Sm S0 S1 St"
  shows "\<exists>c. lsm_seek k l Forward = Some c \<and> lsm_collect l c =
    Some (sorted_list_of_multiset (filter_mset (\<lambda>x. k \<le> x \<and> x \<notin> lsm_deletion l) (level_keys Sm S0 S1 St)))"
proof -
  let ?M = "filter_mset (\<lambda>x. k \<le> x) (level_keys Sm S0 S1 St)"
  obtain c where c: "lsm_seek k l Forward = Some c" "forward_levels.lsm_at l c (sorted_list_of_multiset ?M)"
    using lsm_seek_forward [OF assms] by blast
  have "filter (\<lambda>x. x \<notin> lsm_deletion l) (sorted_list_of_multiset ?M) = sorted_list_of_multiset (filter_mset (\<lambda>x. x \<notin> lsm_deletion l) ?M)"
    by (rule sorted_list_of_multiset_unique) (simp_all add: sorted_filter')
  then show ?thesis using c(1) forward_levels.collect_at [OF c(2)] by (simp add: filter_filter_mset conj_commute)
qed

lemma lsm_insert_holds:
  assumes "lsm_holds l Sm S0 S1 St" and "k < top"
  shows "\<exists>l'. lsm_insert k l = Some (k \<notin> Sm, l') \<and> lsm_holds l' (insert k Sm) S0 S1 St \<and> lsm_deletion l' = lsm_deletion l \<and>
    trans_mem_tree l' = trans_mem_tree l"
proof -
  have "3 \<le> LEVEL_M" by (simp add: LEVEL_M_def)
  then obtain m where "btree_insert LEVEL_M k (mem_tree l) = Some (k \<notin> Sm, m)" "btree_holds LEVEL_M m (insert k Sm)"
    using btree_insert_holds [of LEVEL_M "mem_tree l" Sm k] assms by (auto simp: lsm_holds_def)
  then show ?thesis using assms(1) by (auto simp: lsm_insert_def lsm_holds_def)
qed

lemma lsm_delete_holds:
  assumes "lsm_holds l Sm S0 S1 St"
  shows "lsm_delete k l =
    (if k \<in> Sm \<union> S0 \<union> S1 \<union> St then Some (True, l\<lparr>lsm_deletion := insert k (lsm_deletion l)\<rparr>) else Some (False, l))"
proof -
  let ?M = "filter_mset (\<lambda>x. k \<le> x) (level_keys Sm S0 S1 St)"
  obtain c where c: "lsm_seek k l Forward = Some c" "forward_levels.lsm_at l c (sorted_list_of_multiset ?M)"
    using lsm_seek_forward [OF assms] by blast
  have set: "set (sorted_list_of_multiset ?M) = {x \<in> Sm \<union> S0 \<union> S1 \<union> St. k \<le> x}"
    using lsm_holds_finite [OF assms] by auto
  have "(case sorted_list_of_multiset ?M of [] \<Rightarrow> None | x # _ \<Rightarrow> Some x) = Some k \<longleftrightarrow> k \<in> Sm \<union> S0 \<union> S1 \<union> St"
  proof (cases "sorted_list_of_multiset ?M")
    case Nil
    then have "{x \<in> Sm \<union> S0 \<union> S1 \<union> St. k \<le> x} = {}" unfolding set [symmetric] by (simp only: list.set)
    then show ?thesis unfolding Nil by auto
  next
    case (Cons y ys)
    have "sorted (y # ys)" unfolding Cons [symmetric] by simp
    moreover have y: "set (y # ys) = {x \<in> Sm \<union> S0 \<union> S1 \<union> St. k \<le> x}" unfolding set [symmetric] Cons ..
    ultimately have "k \<in> Sm \<union> S0 \<union> S1 \<union> St \<longleftrightarrow> y = k" by (rule least_is_head)
    then show ?thesis unfolding Cons by auto
  qed
  then show ?thesis using c(1) forward_levels.lsm_at_current [OF c(2)] by (simp add: lsm_delete_def)
qed

text \<open>Sequences of requests, and what they do to a set of keys with a set of deletion marks that no
  insertion takes back.\<close>

datatype 'k lsm_op = Insert_key 'k | Delete_key 'k

fun lsm_run :: "'k lsm_op list \<Rightarrow> ('k :: {linorder, order_bot, order_top}) LSMTree \<Rightarrow> (bool list \<times> 'k LSMTree) option" where
  "lsm_run [] l = Some ([], l)"
| "lsm_run (Insert_key k # ops) l = do { (r, l) \<leftarrow> lsm_insert k l; (rs, l) \<leftarrow> lsm_run ops l; Some (r # rs, l) }"
| "lsm_run (Delete_key k # ops) l = do { (r, l) \<leftarrow> lsm_delete k l; (rs, l) \<leftarrow> lsm_run ops l; Some (r # rs, l) }"

fun mark_run :: "'k lsm_op list \<Rightarrow> 'k set \<Rightarrow> 'k set \<Rightarrow> bool list \<times> 'k set \<times> 'k set" where
  "mark_run [] U D = ([], U, D)"
| "mark_run (Insert_key k # ops) U D = (let (rs, U', D') = mark_run ops (insert k U) D in ((k \<notin> U) # rs, U', D'))"
| "mark_run (Delete_key k # ops) U D =
     (let (rs, U', D') = mark_run ops U (if k \<in> U then insert k D else D) in ((k \<in> U) # rs, U', D'))"

definition mem_only :: "('k :: {linorder, order_bot, order_top}) LSMTree \<Rightarrow> 'k set \<Rightarrow> 'k set \<Rightarrow> bool" where
  "mem_only l U D \<longleftrightarrow> lsm_holds l U {} {} {} \<and> lsm_deletion l = D"

lemma mem_only_create:
  assumes "(bot :: 'k :: {linorder, order_bot, order_top}) < top"
  shows "mem_only (LSMTree_create ids_m ids_0 ids_1 :: 'k LSMTree) {} {}"
  using btree_holds_new [OF assms] by (simp add: mem_only_def lsm_holds_def LSMTree_create_def)

lemma lsm_run_marks:
  assumes "mem_only l U D" and "\<forall>op \<in> set ops. \<forall>k. op = Insert_key k \<longrightarrow> k < top" and "mark_run ops U D = (rs, U', D')"
  shows "\<exists>l'. lsm_run ops l = Some (rs, l') \<and> mem_only l' U' D'"
  using assms
proof (induction ops U D arbitrary: l rs rule: mark_run.induct)
  case (2 k ops U D)
  have k: "k < top" "\<forall>op \<in> set ops. \<forall>k. op = Insert_key k \<longrightarrow> k < top" using "2.prems"(2) by auto
  obtain l' where l': "lsm_insert k l = Some (k \<notin> U, l')" "mem_only l' (insert k U) D"
    using lsm_insert_holds [of l U "{}" "{}" "{}" k] "2.prems"(1) k(1) by (auto simp: mem_only_def)
  obtain rs' where rs: "mark_run ops (insert k U) D = (rs', U', D')" "rs = (k \<notin> U) # rs'" using "2.prems"(3) by (auto split: prod.splits)
  show ?case using "2.IH" [OF l'(2) k(2) rs(1)] l'(1) rs(2) by auto
next
  case (3 k ops U D)
  let ?D = "if k \<in> U then insert k D else D"
  have k: "\<forall>op \<in> set ops. \<forall>k. op = Insert_key k \<longrightarrow> k < top" using "3.prems"(2) by auto
  let ?l = "if k \<in> U then l\<lparr>lsm_deletion := insert k (lsm_deletion l)\<rparr> else l"
  have h: "lsm_holds l U {} {} {}" "lsm_deletion l = D" using "3.prems"(1) by (simp_all add: mem_only_def)
  have l': "lsm_delete k l = Some (k \<in> U, ?l)" "mem_only ?l U ?D"
    using lsm_delete_holds [OF h(1), of k] h by (auto simp: mem_only_def lsm_holds_def)
  obtain rs' where rs: "mark_run ops U ?D = (rs', U', D')" "rs = (k \<in> U) # rs'" using "3.prems"(3) by (auto split: prod.splits)
  show ?case using "3.IH" [OF l'(2) k rs(1)] l'(1) rs(2) by auto
qed auto

lemma mem_only_scan:
  assumes "mem_only l U D"
  shows "\<exists>c. lsm_seek k l Forward = Some c \<and> lsm_collect l c = Some (sorted_list_of_set {x \<in> U - D. k \<le> x})"
proof -
  have h: "lsm_holds l U {} {} {}" and D: "lsm_deletion l = D" using assms by (simp_all add: mem_only_def)
  have "finite U" using lsm_holds_finite [OF h] by simp
  then have "filter_mset (\<lambda>x. k \<le> x \<and> x \<notin> D) (level_keys U {} {} {}) = mset_set {x \<in> U - D. k \<le> x}"
    by (simp add: filter_mset_mset_set) (metis (no_types, lifting))
  then show ?thesis using lsm_scan_keys [OF h, of k] by (simp add: D)
qed

section \<open>Retaining\<close>

lemma retain_loop_fwd:
  "fwd cap t c rem \<Longrightarrow> retain_loop D pivot t c ret del =
     (let xs = takeWhile (\<lambda>x. x < pivot) (butlast rem)
      in Some (ret @ filter (\<lambda>x. x \<notin> D) xs, del @ filter (\<lambda>x. x \<in> D) xs))"
proof (induction rem arbitrary: c ret del)
  case Nil
  then show ?case using next_fwd [OF Nil] by (subst retain_loop.simps) auto
next
  case (Cons k rem)
  obtain c' where c': "cursor_next t c = Some (if rem = [] then None else Some k, c')" "fwd cap t c' rem"
    using next_fwd [OF Cons.prems] by auto
  show ?case using c'(1) Cons.IH [OF c'(2)] by (subst retain_loop.simps) (auto simp: Let_def not_less)
qed

section \<open>Properties\<close>

text \<open>C9: a forward scan of an LSM tree, also while a memory tree is being moved, meets the keys of all its trees
  from the searched one on in order, without the deleted ones; a key that several trees hold is met once for each.\<close>

theorem lsm_scan:
  assumes "lsm_holds l Sm S0 S1 St"
  shows "\<exists>c. lsm_seek k l Forward = Some c \<and> lsm_collect l c =
    Some (sorted_list_of_multiset (filter_mset (\<lambda>x. k \<le> x \<and> x \<notin> lsm_deletion l) (level_keys Sm S0 S1 St)))"
  using assms by (rule lsm_scan_keys)

theorem lsm_scan_witness:
  "\<exists>(l :: u8 LSMTree) c. lsm_holds l {5} {} {} {} \<and> lsm_seek 3 l Forward = Some c \<and> lsm_collect l c = Some [5]"
proof -
  have b: "(bot :: u8) < top" "(5 :: u8) < top" by (simp_all add: order_less_le bot_word_def top_word_eq)
  have "mem_only (LSMTree_create (\<lambda>_. \<lparr>higher = 0, lower = 0\<rparr>) (\<lambda>_. \<lparr>higher = 0, lower = 0\<rparr>) (\<lambda>_. \<lparr>higher = 0, lower = 0\<rparr>) :: u8 LSMTree) {} {}"
    by (rule mem_only_create [OF b(1)])
  then obtain l0 :: "u8 LSMTree" where l0: "lsm_holds l0 {} {} {} {}" "lsm_deletion l0 = {}" by (auto simp: mem_only_def)
  obtain l where l: "lsm_holds l {5 :: u8} {} {} {}" "lsm_deletion l = {}" using lsm_insert_holds [OF l0(1) b(2)] l0(2) by auto
  have "filter_mset (\<lambda>x. 3 \<le> x \<and> x \<notin> {}) (level_keys {5} {} {} {}) = {#5 :: u8#}" by simp
  then show ?thesis using lsm_scan [OF l(1), of 3] l by auto
qed

text \<open>C10: insertions and deletions on a new LSM tree answer and scan like a set of keys with deletion marks: a
  deleted key is not met any more, and a later insertion of it does not take the mark back; deleting it again
  still answers that it was there.\<close>

theorem lsm_refines_marks:
  fixes ops :: "('k :: {linorder, order_bot, order_top}) lsm_op list"
  assumes "(bot :: 'k) < top" and "\<forall>op \<in> set ops. \<forall>k. op = Insert_key k \<longrightarrow> k < top" and "mark_run ops {} {} = (rs, U, D)"
  shows "\<exists>l. lsm_run ops (LSMTree_create ids_m ids_0 ids_1) = Some (rs, l) \<and>
    (\<forall>k. \<exists>c. lsm_seek k l Forward = Some c \<and> lsm_collect l c = Some (sorted_list_of_set {x \<in> U - D. k \<le> x}))"
  using lsm_run_marks [OF mem_only_create [OF assms(1)] assms(2,3)] mem_only_scan by blast

theorem lsm_refines_marks_witness:
  "\<exists>l :: u8 LSMTree. lsm_run [Insert_key 5, Insert_key 7, Delete_key 5, Insert_key 5]
       (LSMTree_create (\<lambda>_. \<lparr>higher = 0, lower = 0\<rparr>) (\<lambda>_. \<lparr>higher = 0, lower = 0\<rparr>) (\<lambda>_. \<lparr>higher = 0, lower = 0\<rparr>)) =
     Some ([True, True, True, False], l) \<and>
     (\<exists>c. lsm_seek 0 l Forward = Some c \<and> lsm_collect l c = Some [7])"
proof -
  have b: "(bot :: u8) < top" "(5 :: u8) < top" "(7 :: u8) < top" by (simp_all add: order_less_le bot_word_def top_word_eq)
  let ?ops = "[Insert_key 5, Insert_key 7, Delete_key 5, Insert_key (5 :: u8)]"
  have m: "mark_run ?ops {} {} = ([True, True, True, False], {5, 7}, {5})" by (simp add: insert_commute insert_absorb)
  have "\<forall>op \<in> set ?ops. \<forall>k. op = Insert_key k \<longrightarrow> k < top" using b by auto
  from lsm_refines_marks [OF b(1) this m]
  obtain l where l: "lsm_run ?ops (LSMTree_create (\<lambda>_. \<lparr>higher = 0, lower = 0\<rparr>) (\<lambda>_. \<lparr>higher = 0, lower = 0\<rparr>) (\<lambda>_. \<lparr>higher = 0, lower = 0\<rparr>)) =
      Some ([True, True, True, False], l)"
    "\<forall>k. \<exists>c. lsm_seek k l Forward = Some c \<and> lsm_collect l c = Some (sorted_list_of_set {x \<in> {5, 7} - {5}. k \<le> x})" by blast
  have "{x \<in> {5, 7} - {5}. 0 \<le> x} = {7 :: u8}" by auto
  then show ?thesis using l(1) spec [OF l(2), of 0] by auto
qed

text \<open>C40: retaining the keys of a tree below a pivot collects them without the greatest key of the tree, which
  the loop over \<^verbatim>\<open>next\<close> does not see and the clearing that follows removes.\<close>

theorem retain_loses_greatest:
  assumes "btree_holds cap t S"
  shows "\<exists>c. seek t bot Forward = Some c \<and>
    retain_loop D pivot t c [] [] =
      (let xs = takeWhile (\<lambda>x. x < pivot) (butlast (sorted_list_of_set S))
       in Some (filter (\<lambda>x. x \<notin> D) xs, filter (\<lambda>x. x \<in> D) xs))"
proof -
  obtain c where "seek t bot Forward = Some c" "fwd cap t c (sorted_list_of_set S)" using seek_forward [OF assms, of bot] by auto
  then show ?thesis using retain_loop_fwd [of cap t c "sorted_list_of_set S" D pivot "[]" "[]"] by auto
qed

theorem retain_loses_greatest_witness:
  "\<exists>t c. btree_holds LEVEL_M t {3, 7 :: u8} \<and> seek t bot Forward = Some c \<and> retain_loop {} 100 t c [] [] = Some ([3], [])"
proof -
  obtain t where t: "btree_holds LEVEL_M t {3, 7 :: u8}" using two_keys_tree by blast
  have "sorted_list_of_set (set [3, 7 :: u8]) = [3, 7]" by (rule sorted_list_of_set.idem_if_sorted_distinct) auto
  then have "butlast (sorted_list_of_set {3, 7 :: u8}) = [3]" by simp
  then show ?thesis using retain_loses_greatest [OF t, of "{}" 100] t by auto
qed

end
