(* ===== verification/Neb_Ranged_SM.thy ===== *)
theory Neb_Ranged_SM
  imports Neb_BTree Neb_Prelude
begin

text \<open>
  The state machine that places the ranged index, \<^verbatim>\<open>index/ranged/sm.rs\<close>: an ordered map from the
  least key of each tree to its identifier and epoch. The trees cut the keys into adjacent ranges; a split
  cuts one of them in two. The requests the machine sends to tree services are an output.
\<close>

section \<open>State and commands\<close>

definition INITIAL_TREE_EPOCH :: u64 where "INITIAL_TREE_EPOCH = 0"

record TreePlacement =
  tp_id :: Id
  tp_epoch :: u64

record 'k TreeInfo =
  ti_lower :: 'k
  ti_upper :: 'k
  ti_placement :: TreePlacement

type_synonym 'k MasterTreeSM = "('k \<times> TreePlacement) list"

datatype 'k tree_request = CreateTree Id 'k 'k u64 | LoadTree Id 'k 'k u64

definition TreePlacement_new :: "Id \<Rightarrow> TreePlacement" where
  "TreePlacement_new i = \<lparr>tp_id = i, tp_epoch = INITIAL_TREE_EPOCH\<rparr>"

text \<open>The first key of a range or the greatest key.\<close>

definition first_or_max :: "('k \<times> 'v) list \<Rightarrow> ('k :: order_top)" where
  "first_or_max es = (case es of [] \<Rightarrow> top | e # _ \<Rightarrow> fst e)"

definition locate_key :: "('k :: {linorder, order_top}) \<Rightarrow> 'k MasterTreeSM \<Rightarrow> ('k \<times> TreePlacement \<times> 'k) option" where
  "locate_key entry m =
     (let es = filter (\<lambda>e. fst e \<le> entry) m
      in if es = [] then None
         else Some (fst (last es), snd (last es), first_or_max (filter (\<lambda>e. entry < fst e) m)))"

definition next_tree :: "('k :: {linorder, order_top}) \<Rightarrow> Ordering \<Rightarrow> 'k MasterTreeSM \<Rightarrow> 'k TreeInfo option" where
  "next_tree tree_lower ord m =
     (case ord of
        Forward \<Rightarrow>
          (case filter (\<lambda>e. tree_lower < fst e) m of
             [] \<Rightarrow> None
           | e # es \<Rightarrow> Some \<lparr>ti_lower = fst e, ti_upper = first_or_max es, ti_placement = snd e\<rparr>)
      | Backward \<Rightarrow>
          (case rev (filter (\<lambda>e. fst e < tree_lower) m) of
             [] \<Rightarrow> None
           | e # es \<Rightarrow> Some \<lparr>ti_lower = fst e, ti_upper = tree_lower, ti_placement = snd e\<rparr>))"

text \<open>\<^verbatim>\<open>split\<close> panics when the tree before the pivot is not the source. The leader asks the server
  of the new tree to load it.\<close>

definition sm_split ::
  "bool \<Rightarrow> Id \<Rightarrow> Id \<Rightarrow> ('k :: {linorder, order_top}) \<Rightarrow> 'k MasterTreeSM \<Rightarrow> ('k MasterTreeSM \<times> 'k tree_request list) option" where
  "sm_split is_leader src_tree new_tree pivot m =
     (let upper_bound = first_or_max (filter (\<lambda>e. pivot \<le> fst e) m);
          m' = bmap_insert (<) pivot (TreePlacement_new new_tree) m;
          reqs = (if is_leader then [LoadTree new_tree pivot upper_bound INITIAL_TREE_EPOCH] else []);
          prev = filter (\<lambda>e. fst e < pivot) m'
      in if prev = [] then Some (m', reqs)
         else if tp_id (snd (last prev)) \<noteq> src_tree then None
         else Some (map (\<lambda>e. if fst e = fst (last prev) then (fst e, snd e\<lparr>tp_epoch := tp_epoch (snd e) + 1\<rparr>) else e) m', reqs))"

definition MasterTreeSM_new :: "'k MasterTreeSM" where
  "MasterTreeSM_new = []"

definition try_initialize :: "Id \<Rightarrow> ('k :: {linorder, order_bot, order_top}) MasterTreeSM \<Rightarrow> 'k MasterTreeSM \<times> 'k tree_request list" where
  "try_initialize genesis_id m =
     (bmap_insert (<) bot (TreePlacement_new genesis_id) m, [CreateTree genesis_id bot top INITIAL_TREE_EPOCH])"

section \<open>Ranges\<close>

definition sm_ok :: "('k :: {linorder, order_bot, order_top}) MasterTreeSM \<Rightarrow> bool" where
  "sm_ok m \<longleftrightarrow> sorted_wrt (<) (map fst m) \<and> bot \<in> fst ` set m \<and> top \<notin> fst ` set m"

text \<open>The least key of a set above a key, or the greatest of all.\<close>

definition upper_of :: "('k :: {linorder, order_top}) set \<Rightarrow> 'k \<Rightarrow> 'k \<Rightarrow> bool" where
  "upper_of K k u \<longleftrightarrow> (if \<exists>x \<in> K. k < x then u \<in> K \<and> k < u \<and> (\<forall>x \<in> K. k < x \<longrightarrow> u \<le> x) else u = top)"

lemma first_or_max_above:
  assumes "sorted_wrt (<) (map fst m)"
  shows "first_or_max (filter (\<lambda>e. k < fst e) m) = u \<longleftrightarrow> upper_of (fst ` set m) k u"
proof (cases "filter (\<lambda>e. k < fst e) m")
  case Nil
  then show ?thesis by (auto simp: first_or_max_def upper_of_def filter_empty_conv)
next
  case (Cons e es)
  have "sorted_wrt (<) (map fst (e # es))" unfolding Cons [symmetric] using assms
    by (simp add: sorted_wrt_map sorted_wrt_filter)
  moreover have s: "set (e # es) = {x \<in> set m. k < fst x}" unfolding Cons [symmetric] by simp
  ultimately have l: "\<forall>x \<in> {x \<in> set m. k < fst x}. fst e \<le> fst x" and e: "e \<in> {x \<in> set m. k < fst x}"
    unfolding s [symmetric] by (auto simp: less_imp_le)
  then show ?thesis unfolding Cons first_or_max_def upper_of_def by (auto intro!: antisym) fastforce+
qed

lemma last_below:
  assumes "sorted_wrt (<) (map fst m)" and P: "\<And>x y. P y \<Longrightarrow> x \<le> y \<Longrightarrow> P (x :: 'k :: linorder)"
    and ne: "filter (\<lambda>e. P (fst e)) m \<noteq> []"
  shows "last (filter (\<lambda>e. P (fst e)) m) = e \<longleftrightarrow> e \<in> set m \<and> P (fst e) \<and> (\<forall>x \<in> fst ` set m. P x \<longrightarrow> x \<le> fst e)"
proof -
  define es where "es = filter (\<lambda>e. P (fst e)) m"
  have s: "set es = {x \<in> set m. P (fst x)}" by (simp add: es_def)
  have "sorted_wrt (<) (map fst es)" unfolding es_def using assms(1) by (simp add: sorted_wrt_map sorted_wrt_filter)
  moreover obtain ys y where y: "es = ys @ [y]" using ne by (metis es_def rev_exhaust)
  ultimately have l: "\<forall>x \<in> set ys. fst x < fst y" by (auto simp: sorted_wrt_append)
  have d: "distinct (map fst m)" using assms(1) by (simp add: strict_sorted_iff)
  have yin: "y \<in> set m" "P (fst y)" using s y by auto
  have le: "\<forall>x \<in> set es. fst x \<le> fst y" using l y by auto
  have "last es = e \<longleftrightarrow> e \<in> set m \<and> P (fst e) \<and> (\<forall>x \<in> fst ` set m. P x \<longrightarrow> x \<le> fst e)"
  proof
    assume "last es = e"
    then show "e \<in> set m \<and> P (fst e) \<and> (\<forall>x \<in> fst ` set m. P x \<longrightarrow> x \<le> fst e)" using yin le s y by auto
  next
    assume e: "e \<in> set m \<and> P (fst e) \<and> (\<forall>x \<in> fst ` set m. P x \<longrightarrow> x \<le> fst e)"
    then have "fst y \<le> fst e" using yin by auto
    moreover have "fst e \<le> fst y" using e le by (simp only: s) blast
    ultimately have "y = e" using e yin d by (metis antisym eq_key_imp_eq_value prod.collapse)
    then show "last es = e" using y by simp
  qed
  then show ?thesis by (simp add: es_def)
qed

lemma below_nonempty:
  assumes "sm_ok m"
  shows "filter (\<lambda>e. fst e \<le> k) m \<noteq> []"
proof -
  obtain p where "(bot, p) \<in> set m" using assms by (auto simp: sm_ok_def)
  then have "(bot, p) \<in> set (filter (\<lambda>e. fst e \<le> k) m)" by simp
  then show ?thesis by (metis empty_iff empty_set)
qed

lemma locate_key_iff:
  assumes "sm_ok m"
  shows "locate_key k m = Some (lo, p, up) \<longleftrightarrow>
    (lo, p) \<in> set m \<and> lo \<le> k \<and> (\<forall>x \<in> fst ` set m. x \<le> k \<longrightarrow> x \<le> lo) \<and> upper_of (fst ` set m) k up"
proof -
  have s: "sorted_wrt (<) (map fst m)" and b: "bot \<in> fst ` set m" using assms by (simp_all add: sm_ok_def)
  let ?es = "filter (\<lambda>e. fst e \<le> k) m"
  have ne: "?es \<noteq> []" by (rule below_nonempty [OF assms])
  have "locate_key k m = Some (lo, p, up) \<longleftrightarrow> last ?es = (lo, p) \<and> first_or_max (filter (\<lambda>e. k < fst e) m) = up"
    using ne by (auto simp: locate_key_def Let_def prod_eq_iff)
  then show ?thesis using last_below [OF s _ ne, of "(lo, p)"] first_or_max_above [OF s] by auto
qed

lemma locate_key_total:
  assumes "sm_ok m"
  shows "\<exists>lo p up. locate_key k m = Some (lo, p, up)"
  using below_nonempty [OF assms, of k] by (simp add: locate_key_def Let_def)

section \<open>Splitting a range\<close>

lemma locate_key_range:
  assumes "sm_ok m" and "locate_key k m = Some (lo, p, up)" and "k < top"
  shows "lo \<le> k" and "k < up" and "(lo, p) \<in> set m"
  using assms locate_key_iff [OF assms(1), of k lo p up] by (auto simp: upper_of_def split: if_splits)

lemma first_or_max_from:
  assumes "sorted_wrt (<) (map fst m)" and "pivot \<notin> fst ` set m"
  shows "first_or_max (filter (\<lambda>e. pivot \<le> fst e) m) = first_or_max (filter (\<lambda>e. pivot < fst e) m)"
proof -
  have "filter (\<lambda>e. pivot \<le> fst e) m = filter (\<lambda>e. pivot < fst e) m"
    by (rule filter_cong [OF refl]) (use assms(2) in \<open>auto simp: less_le\<close>)
  then show ?thesis by simp
qed

lemma sm_split_entries:
  assumes ok: "sm_ok m" and loc: "locate_key pivot m = Some (lo, p, up)" and lt: "lo < pivot" "pivot < top" and src: "tp_id p = src"
  shows "\<exists>m'. sm_split ldr src new pivot m = Some (m', if ldr then [LoadTree new pivot up INITIAL_TREE_EPOCH] else []) \<and>
    sorted_wrt (<) (map fst m') \<and>
    set m' = set m - {(lo, p)} \<union> {(lo, p\<lparr>tp_epoch := tp_epoch p + 1\<rparr>), (pivot, TreePlacement_new new)}"
proof -
  have s: "sorted_wrt (<) (map fst m)" using ok by (simp add: sm_ok_def)
  have L: "(lo, p) \<in> set m" "\<forall>x \<in> fst ` set m. x \<le> pivot \<longrightarrow> x \<le> lo" "upper_of (fst ` set m) pivot up"
    using locate_key_iff [OF ok, of pivot lo p up] loc by auto
  have np: "pivot \<notin> fst ` set m" using L(2) lt(1) by auto
  define m1 where "m1 = bmap_insert (<) pivot (TreePlacement_new new) m"
  have s1: "sorted_wrt (<) (map fst m1)" unfolding m1_def by (rule bmap_insert_sorted) (use s in auto)
  have d1: "distinct (map fst m1)" using s1 by (simp add: strict_sorted_iff)
  have d: "distinct (map fst m)" using s by (simp add: strict_sorted_iff)
  have set1: "set m1 = insert (pivot, TreePlacement_new new) (set m)"
  proof -
    have "map_of m1 = (map_of m)(pivot \<mapsto> TreePlacement_new new)" by (simp add: m1_def)
    then have "e \<in> set m1 \<longleftrightarrow> e = (pivot, TreePlacement_new new) \<or> e \<in> set m" for e
      using map_of_eq_Some_iff [OF d1, of "fst e" "snd e"] map_of_eq_Some_iff [OF d, of "fst e" "snd e"] np
      by (cases e) (auto split: if_splits simp: image_iff)
    then show ?thesis by auto
  qed
  let ?prev = "filter (\<lambda>e. fst e < pivot) m1"
  have "(lo, p) \<in> set ?prev" using L(1) lt(1) set1 by simp
  then have ne: "?prev \<noteq> []" by (metis empty_iff empty_set)
  have prev: "last ?prev = (lo, p)"
  proof (rule last_below [OF s1 _ ne, THEN iffD2])
    show "(lo, p) \<in> set m1 \<and> fst (lo, p) < pivot \<and> (\<forall>x \<in> fst ` set m1. x < pivot \<longrightarrow> x \<le> fst (lo, p))"
      using L(1,2) lt(1) by (auto simp: set1 less_imp_le)
  qed auto
  let ?m = "map (\<lambda>e. if fst e = lo then (fst e, snd e\<lparr>tp_epoch := tp_epoch (snd e) + 1\<rparr>) else e) m1"
  have "sm_split ldr src new pivot m = Some (?m, if ldr then [LoadTree new pivot up INITIAL_TREE_EPOCH] else [])"
    using ne prev src first_or_max_from [OF s np] first_or_max_above [OF s, of pivot up] L(3)
    by (simp add: sm_split_def Let_def m1_def [symmetric])
  moreover have "map fst ?m = map fst m1" by simp
  then have "sorted_wrt (<) (map fst ?m)" using s1 by (simp only:)
  moreover have "set ?m = set m - {(lo, p)} \<union> {(lo, p\<lparr>tp_epoch := tp_epoch p + 1\<rparr>), (pivot, TreePlacement_new new)}"
  proof -
    have u: "q = p" if "(lo, q) \<in> set m" for q using that L(1) d by (metis eq_key_imp_eq_value)
    define f where "f e = (if fst e = lo then (fst e, snd e\<lparr>tp_epoch := tp_epoch (snd e) + 1\<rparr>) else e)" for e :: "'a \<times> TreePlacement"
    have "\<forall>e \<in> set m - {(lo, p)}. f e = e" using u by (auto simp: f_def prod_eq_iff)
    then have fid: "f ` (set m - {(lo, p)}) = set m - {(lo, p)}" by simp
    have "set m1 = insert (pivot, TreePlacement_new new) (insert (lo, p) (set m - {(lo, p)}))" using L(1) set1 by auto
    then have "f ` set m1 = insert (f (pivot, TreePlacement_new new)) (insert (f (lo, p)) (set m - {(lo, p)}))"
      by (simp only: image_insert fid)
    moreover have "f (pivot, TreePlacement_new new) = (pivot, TreePlacement_new new)" "f (lo, p) = (lo, p\<lparr>tp_epoch := tp_epoch p + 1\<rparr>)"
      using lt(1) by (auto simp: f_def)
    moreover have "set ?m = f ` set m1" unfolding set_map by (rule image_cong) (simp_all add: f_def)
    ultimately show ?thesis by auto
  qed
  ultimately show ?thesis by blast
qed

lemma upper_of_insert:
  assumes "upper_of K pivot up" and "pivot < top"
  shows "upper_of (insert pivot K) k u \<longleftrightarrow> (if k < pivot \<and> (\<forall>x \<in> K. k < x \<longrightarrow> pivot \<le> x) then u = pivot else upper_of K k u)"
  using assms by (auto simp: upper_of_def)

text \<open>The entries after a split: the source's entry with its epoch raised and one entry for the new tree.\<close>

definition split_entries :: "('k :: {linorder, bot, top} \<times> TreePlacement) list \<Rightarrow> 'k \<Rightarrow> TreePlacement \<Rightarrow> 'k \<Rightarrow> TreePlacement \<Rightarrow> ('k \<times> TreePlacement) list \<Rightarrow> bool" where
  "split_entries m lo p pivot q m' \<longleftrightarrow> sorted_wrt (<) (map fst m') \<and>
    set m' = set m - {(lo, p)} \<union> {(lo, p\<lparr>tp_epoch := tp_epoch p + 1\<rparr>), (pivot, q)}"

lemma split_entries_keys:
  assumes "split_entries m lo p pivot q m'" and "(lo, p) \<in> set m"
  shows "fst ` set m' = insert pivot (fst ` set m)"
proof -
  have "fst ` set m' = fst ` (set m - {(lo, p)}) \<union> {lo, pivot}" using assms(1) unfolding split_entries_def by auto
  also have "\<dots> = insert pivot (fst ` insert (lo, p) (set m - {(lo, p)}))" by auto
  also have "insert (lo, p) (set m - {(lo, p)}) = set m" using assms(2) by auto
  finally show ?thesis .
qed

lemma split_entries_locate:
  assumes "sm_ok m" and "locate_key pivot m = Some (lo, p, up)" and "pivot < top" and "split_entries m lo p pivot q m'"
  shows "sm_ok m'"
    and "locate_key k m' = Some (lo', p', u) \<longleftrightarrow>
      (lo', p') \<in> set m' \<and> lo' \<le> k \<and> (\<forall>x \<in> insert pivot (fst ` set m). x \<le> k \<longrightarrow> x \<le> lo') \<and>
      (if k < pivot \<and> (\<forall>x \<in> fst ` set m. k < x \<longrightarrow> pivot \<le> x) then u = pivot else upper_of (fst ` set m) k u)"
proof -
  have L: "(lo, p) \<in> set m" "upper_of (fst ` set m) pivot up" using locate_key_iff [OF assms(1)] assms(2) by auto
  note K = split_entries_keys [OF assms(4) L(1)]
  have "sorted_wrt (<) (map fst m')" using assms(4) by (simp add: split_entries_def)
  then show ok: "sm_ok m'" using assms(1,3) by (auto simp: sm_ok_def K)
  show "locate_key k m' = Some (lo', p', u) \<longleftrightarrow>
      (lo', p') \<in> set m' \<and> lo' \<le> k \<and> (\<forall>x \<in> insert pivot (fst ` set m). x \<le> k \<longrightarrow> x \<le> lo') \<and>
      (if k < pivot \<and> (\<forall>x \<in> fst ` set m. k < x \<longrightarrow> pivot \<le> x) then u = pivot else upper_of (fst ` set m) k u)"
    unfolding locate_key_iff [OF ok] K upper_of_insert [OF L(2) assms(3)] by (rule refl)
qed

lemma split_upper_half:
  assumes "sm_ok m" and "locate_key pivot m = Some (lo, p, up)" and "pivot < top" and "split_entries m lo p pivot q m'"
    and k: "pivot \<le> k" "k < up"
  shows "locate_key k m' = Some (pivot, q, up)"
proof -
  have L: "upper_of (fst ` set m) pivot up" using locate_key_iff [OF assms(1)] assms(2) by auto
  have "upper_of (fst ` set m) k up" using L k by (auto simp: upper_of_def split: if_splits)
  moreover have "x \<le> pivot" if "x \<in> fst ` set m" "x \<le> k" for x
    using that L k by (auto simp: upper_of_def split: if_splits)
  ultimately show ?thesis
    unfolding split_entries_locate(2) [OF assms(1-4)] using k assms(4) by (auto simp: split_entries_def)
qed

lemma split_lower_half:
  assumes "sm_ok m" and "locate_key pivot m = Some (lo, p, up)" and "pivot < top" and "split_entries m lo p pivot q m'"
    and k: "lo \<le> k" "k < pivot"
  shows "locate_key k m' = Some (lo, p\<lparr>tp_epoch := tp_epoch p + 1\<rparr>, pivot)"
proof -
  have "\<forall>x \<in> fst ` set m. x \<le> pivot \<longrightarrow> x \<le> lo" using locate_key_iff [OF assms(1)] assms(2) by auto
  then show ?thesis
    unfolding split_entries_locate(2) [OF assms(1-4)] using k assms(4) by (auto simp: split_entries_def not_le)
qed

lemma split_elsewhere:
  assumes "sm_ok m" and "locate_key pivot m = Some (lo, p, up)" and "pivot < top" and "split_entries m lo p pivot q m'"
    and lt: "lo < pivot" and k: "k < top" "\<not> (pivot \<le> k \<and> k < up)" "\<not> (lo \<le> k \<and> k < pivot)"
  shows "locate_key k m' = locate_key k m"
proof -
  have L: "(lo, p) \<in> set m" "upper_of (fst ` set m) pivot up" using locate_key_iff [OF assms(1)] assms(2) by auto
  obtain lo2 p2 up2 where l2: "locate_key k m = Some (lo2, p2, up2)" using locate_key_total [OF assms(1)] by blast
  have m2: "(lo2, p2) \<in> set m" "lo2 \<le> k" "\<forall>x \<in> fst ` set m. x \<le> k \<longrightarrow> x \<le> lo2" "upper_of (fst ` set m) k up2"
    using l2 locate_key_iff [OF assms(1)] by auto
  have out: "k < lo \<and> lo2 < lo \<or> pivot \<le> k \<and> pivot < lo2"
  proof (cases "k < lo")
    case False
    then have p: "pivot \<le> k" "up \<le> k" using k by auto
    then have "up \<in> fst ` set m" "pivot < up" using L(2) k by (auto simp: upper_of_def split: if_splits)
    then show ?thesis using m2(3) p less_le_trans by blast
  qed (use m2(2) in auto)
  then have "lo2 \<noteq> lo" using lt by auto
  then have "(lo2, p2) \<in> set m'" using m2(1) conjunct2 [OF assms(4) [unfolded split_entries_def]] by simp
  moreover have "\<forall>x \<in> insert pivot (fst ` set m). x \<le> k \<longrightarrow> x \<le> lo2" using m2(3) out lt by auto
  moreover have "\<not> (k < pivot \<and> (\<forall>x \<in> fst ` set m. k < x \<longrightarrow> pivot \<le> x))" using out L(1) lt by force
  ultimately have "locate_key k m' = Some (lo2, p2, up2)"
    unfolding split_entries_locate(2) [OF assms(1-4)] using m2(2,4) by (simp only: if_False simp_thms)
  then show ?thesis using l2 by simp
qed

section \<open>Properties\<close>

text \<open>C11: a split at a pivot inside the range of its source tree moves the keys from the pivot to the end of the
  range to the new tree, raises the epoch of the source, which keeps the keys below, and leaves the place of
  all other keys; the new tree is loaded with exactly its range.\<close>

theorem split_redirects:
  assumes "sm_ok m" and "locate_key pivot m = Some (lo, p, up)" and "lo < pivot" and "pivot < top" and "tp_id p = src"
  shows "\<exists>m'. sm_split ldr src new pivot m = Some (m', if ldr then [LoadTree new pivot up INITIAL_TREE_EPOCH] else []) \<and> sm_ok m' \<and>
    (\<forall>k. k < top \<longrightarrow> locate_key k m' =
      (if pivot \<le> k \<and> k < up then Some (pivot, TreePlacement_new new, up)
       else if lo \<le> k \<and> k < pivot then Some (lo, p\<lparr>tp_epoch := tp_epoch p + 1\<rparr>, pivot)
       else locate_key k m))"
proof -
  obtain m' where m': "sm_split ldr src new pivot m = Some (m', if ldr then [LoadTree new pivot up INITIAL_TREE_EPOCH] else [])"
      and sp: "split_entries m lo p pivot (TreePlacement_new new) m'"
    using sm_split_entries [OF assms] unfolding split_entries_def by blast
  note facts = assms(1,2,4) sp
  have "locate_key k m' = (if pivot \<le> k \<and> k < up then Some (pivot, TreePlacement_new new, up)
       else if lo \<le> k \<and> k < pivot then Some (lo, p\<lparr>tp_epoch := tp_epoch p + 1\<rparr>, pivot) else locate_key k m)" if k: "k < top" for k
    by (simp split: if_splits del: not_le not_less
          add: split_upper_half [OF facts] split_lower_half [OF facts] split_elsewhere [OF facts assms(3) k])
  then show ?thesis using m' split_entries_locate(1) [OF facts] by blast
qed

theorem split_redirects_witness:
  "\<exists>m'. sm_split True \<lparr>higher = 0, lower = 1\<rparr> \<lparr>higher = 0, lower = 2\<rparr> 9
       (fst (try_initialize \<lparr>higher = 0, lower = 1\<rparr> MasterTreeSM_new)) =
     Some (m', [LoadTree \<lparr>higher = 0, lower = 2\<rparr> 9 top INITIAL_TREE_EPOCH]) \<and>
     locate_key (12 :: u8) m' = Some (9, TreePlacement_new \<lparr>higher = 0, lower = 2\<rparr>, top)"
proof -
  let ?m = "fst (try_initialize \<lparr>higher = 0, lower = 1\<rparr> (MasterTreeSM_new :: u8 MasterTreeSM))"
  have b: "(bot :: u8) < top" "(9 :: u8) < top" "(12 :: u8) < top" "(bot :: u8) < 9" by (simp_all add: order_less_le bot_word_def top_word_eq)
  have "sm_ok ?m" using b(1) by (simp add: sm_ok_def try_initialize_def MasterTreeSM_new_def)
  moreover have "locate_key 9 ?m = Some (bot, TreePlacement_new \<lparr>higher = 0, lower = 1\<rparr>, top)"
    using b(4) by (simp add: locate_key_def try_initialize_def MasterTreeSM_new_def first_or_max_def)
  moreover have "tp_id (TreePlacement_new \<lparr>higher = 0, lower = 1\<rparr>) = \<lparr>higher = 0, lower = 1\<rparr>" by (simp add: TreePlacement_new_def)
  ultimately show ?thesis
    using split_redirects [of ?m 9 bot "TreePlacement_new \<lparr>higher = 0, lower = 1\<rparr>" top "\<lparr>higher = 0, lower = 1\<rparr>" True "\<lparr>higher = 0, lower = 2\<rparr>"] b
    by auto
qed

end
