(* ===== verification/Neb_Ranged_Service.thy ===== *)
theory Neb_Ranged_Service
  imports Neb_LSM Neb_Ranged_SM
begin

text \<open>
  The tree service of the ranged index, \<^verbatim>\<open>index/ranged/lsm/service.rs\<close>: the trees of a server, each
  with the range it is responsible for, an epoch and the pivot of a running migration, the remote procedures
  on them, and the steps of the balancer that splits an oversized tree. Procedures run one at a time. The
  identifier at the end of a key, \<^verbatim>\<open>EntryKey::id\<close>, is the argument \<open>id_of\<close>; trees that are
  recovered from storage are an argument of \<open>load_tree\<close>.
\<close>

section \<open>State\<close>

record 'k Boundary =
  bd_upper :: 'k
  bd_lower :: 'k

datatype 'a OpResult = Successful 'a | NotFound | OutOfBound | EpochMissMatch u64 u64 | Migrating

record 'k ServBlock =
  sb_buffer :: "Id list"
  sb_next :: "'k option"

record 'k DistProp =
  dp_boundary :: "'k Boundary"
  dp_migration :: "'k option"
  dp_epoch :: u64

record 'k DistLSMTree =
  dt_id :: Id
  dt_tree :: "'k LSMTree"
  dt_prop :: "'k DistProp"

record 'k LSMTreeService =
  svc_trees :: "Id \<Rightarrow> 'k DistLSMTree option"

record BTreeStat =
  st_size :: nat
  st_count :: u64
  st_head :: Id
  st_ideal_cap :: nat
  st_oversized :: bool

record 'k LSMTreeStat =
  st_id :: Id
  st_prop :: "'k DistProp"
  st_trees :: "BTreeStat list"

definition Boundary_new :: "'k \<Rightarrow> 'k \<Rightarrow> 'k Boundary" where
  "Boundary_new lo up = \<lparr>bd_upper = up, bd_lower = lo\<rparr>"

definition in_boundary :: "('k :: {linorder, order_bot, order_top}) Boundary \<Rightarrow> 'k \<Rightarrow> bool" where
  "in_boundary b entry = (bd_lower b \<le> entry \<and> entry < bd_upper b \<or> entry = bot \<or> entry = top)"

definition DistLSMTree_new :: "Id \<Rightarrow> 'k LSMTree \<Rightarrow> 'k Boundary \<Rightarrow> 'k option \<Rightarrow> u64 \<Rightarrow> 'k DistLSMTree" where
  "DistLSMTree_new i t b mig e = \<lparr>dt_id = i, dt_tree = t, dt_prop = \<lparr>dp_boundary = b, dp_migration = mig, dp_epoch = e\<rparr>\<rparr>"

section \<open>Procedures\<close>

definition crate_tree ::
  "(nat \<Rightarrow> Id) \<times> (nat \<Rightarrow> Id) \<times> (nat \<Rightarrow> Id) \<Rightarrow> Id \<Rightarrow> 'k Boundary \<Rightarrow> u64 \<Rightarrow>
   ('k :: {order_bot, order_top}) LSMTreeService \<Rightarrow> 'k LSMTreeService" where
  "crate_tree ids i b e s =
     (if svc_trees s i \<noteq> None then s
      else s\<lparr>svc_trees := (svc_trees s)(i \<mapsto> DistLSMTree_new i (LSMTree_create (fst ids) (fst (snd ids)) (snd (snd ids))) b None e)\<rparr>)"

definition load_tree :: "'k LSMTree \<Rightarrow> Id \<Rightarrow> 'k Boundary \<Rightarrow> u64 \<Rightarrow> 'k LSMTreeService \<Rightarrow> 'k LSMTreeService" where
  "load_tree recovered i b e s =
     (if svc_trees s i \<noteq> None then s
      else s\<lparr>svc_trees := (svc_trees s)(i \<mapsto> DistLSMTree_new i recovered b None e)\<rparr>)"

text \<open>The guard of all procedures that touch a key: the tree, then its epoch, its range and its migration.\<close>

definition apply_in_ranged_tree ::
  "Id \<Rightarrow> 'k \<Rightarrow> u64 \<Rightarrow> ('k \<Rightarrow> 'k LSMTree \<Rightarrow> ('r OpResult \<times> 'k LSMTree) option) \<Rightarrow>
   ('k :: {linorder, order_bot, order_top}) LSMTreeService \<Rightarrow> ('r OpResult \<times> 'k LSMTreeService) option" where
  "apply_in_ranged_tree i entry epoch func s =
     (case svc_trees s i of
        None \<Rightarrow> Some (NotFound, s)
      | Some dt \<Rightarrow>
          (let p = dt_prop dt;
               run = do { (r, t) \<leftarrow> func entry (dt_tree dt); Some (r, s\<lparr>svc_trees := (svc_trees s)(i \<mapsto> dt\<lparr>dt_tree := t\<rparr>)\<rparr>) }
           in if epoch < dp_epoch p then Some (EpochMissMatch (dp_epoch p) epoch, s)
              else if in_boundary (dp_boundary p) entry then
                (case dp_migration p of
                   Some pivot \<Rightarrow> if entry < pivot then run else Some (Migrating, s)
                 | None \<Rightarrow> run)
              else Some (OutOfBound, s)))"

definition svc_insert ::
  "Id \<Rightarrow> 'k \<Rightarrow> u64 \<Rightarrow> ('k :: {linorder, order_bot, order_top}) LSMTreeService \<Rightarrow> (bool OpResult \<times> 'k LSMTreeService) option" where
  "svc_insert i entry epoch =
     apply_in_ranged_tree i entry epoch (\<lambda>k t. do { (r, t) \<leftarrow> lsm_insert k t; Some (Successful r, t) })"

definition svc_delete ::
  "Id \<Rightarrow> 'k \<Rightarrow> u64 \<Rightarrow> ('k :: {linorder, order_bot, order_top}) LSMTreeService \<Rightarrow> (bool OpResult \<times> 'k LSMTreeService) option" where
  "svc_delete i entry epoch =
     apply_in_ranged_tree i entry epoch (\<lambda>k t. do { (r, t) \<leftarrow> lsm_delete k t; Some (Successful r, t) })"

text \<open>The loop that fills the buffer and the one that skips keys of the last identifier.\<close>

definition wrong_side :: "Ordering \<Rightarrow> ('k :: linorder) \<Rightarrow> 'k \<Rightarrow> bool" where
  "wrong_side ord entry k = (case ord of Forward \<Rightarrow> k < entry | Backward \<Rightarrow> entry < k)"

partial_function (option) fill_buffer ::
  "('k \<Rightarrow> Id) \<Rightarrow> Ordering \<Rightarrow> 'k \<Rightarrow> nat \<Rightarrow> ('k :: linorder) LSMTree \<Rightarrow> 'k LSMTreeCursor \<Rightarrow> Id list \<Rightarrow>
   (Id list \<times> 'k LSMTreeCursor) option" where
  "fill_buffer id_of ord entry n l c buffer =
     (if length buffer < n then do {
        (r, c') \<leftarrow> lsm_next l c;
        (case r of
           None \<Rightarrow> Some (buffer, c')
         | Some k \<Rightarrow>
             if buffer \<noteq> [] \<and> last buffer = id_of k then fill_buffer id_of ord entry n l c' buffer
             else if wrong_side ord entry k then fill_buffer id_of ord entry n l c' buffer
             else fill_buffer id_of ord entry n l c' (buffer @ [id_of k])) }
      else Some (buffer, c))"

partial_function (option) skip_duplicates ::
  "('k \<Rightarrow> Id) \<Rightarrow> ('k :: linorder) LSMTree \<Rightarrow> Id list \<Rightarrow> 'k option \<Rightarrow> 'k LSMTreeCursor \<Rightarrow> 'k option option" where
  "skip_duplicates id_of l buffer nx c =
     (case nx of
        None \<Rightarrow> Some None
      | Some k \<Rightarrow>
          if buffer \<noteq> [] \<and> id_of k = last buffer
          then do { (nx', c') \<leftarrow> lsm_next l c; skip_duplicates id_of l buffer nx' c' }
          else Some (Some k))"

definition seek_block ::
  "('k \<Rightarrow> Id) \<Rightarrow> Ordering \<Rightarrow> nat \<Rightarrow> 'k \<Rightarrow> ('k :: {linorder, order_bot}) LSMTree \<Rightarrow> 'k ServBlock option" where
  "seek_block id_of ord n entry l = do {
     c \<leftarrow> lsm_seek entry l ord;
     (buffer, c) \<leftarrow> fill_buffer id_of ord entry n l c [];
     nx \<leftarrow> skip_duplicates id_of l buffer (lsm_current c) c;
     Some \<lparr>sb_buffer = buffer, sb_next = nx\<rparr> }"

definition svc_seek ::
  "('k \<Rightarrow> Id) \<Rightarrow> Id \<Rightarrow> 'k \<Rightarrow> Ordering \<Rightarrow> u16 \<Rightarrow> u64 \<Rightarrow> ('k :: {linorder, order_bot, order_top}) LSMTreeService \<Rightarrow>
   ('k ServBlock OpResult \<times> 'k LSMTreeService) option" where
  "svc_seek id_of i entry ord buffer_size epoch =
     apply_in_ranged_tree i entry epoch (\<lambda>k t. do { b \<leftarrow> seek_block id_of ord (unat buffer_size) k t; Some (Successful b, t) })"

definition btree_stat :: "nat \<Rightarrow> 'k BPlusTree \<Rightarrow> BTreeStat" where
  "btree_stat cap t = \<lparr>st_size = cap, st_count = tree_len t, st_head = head_page_id t,
     st_ideal_cap = ideal_capacity_from_node_size cap, st_oversized = btree_oversized cap t\<rparr>"

definition svc_stat :: "Id \<Rightarrow> 'k LSMTreeService \<Rightarrow> 'k LSMTreeStat OpResult" where
  "svc_stat i s =
     (case svc_trees s i of
        None \<Rightarrow> NotFound
      | Some dt \<Rightarrow> Successful \<lparr>st_id = i, st_prop = dt_prop dt,
          st_trees = [btree_stat LEVEL_0 (disk_0 (dt_tree dt)), btree_stat LEVEL_1 (disk_1 (dt_tree dt))]\<rparr>)"

section \<open>Balancing\<close>

definition MIGRATE_SIZE :: nat where "MIGRATE_SIZE = LEVEL_1"

text \<open>An oversized tree is marked with the pivot.\<close>

definition begin_migration :: "('k :: linorder) DistLSMTree \<Rightarrow> ('k \<times> 'k DistLSMTree) option option" where
  "begin_migration dt =
     (if lsm_oversized (dt_tree dt) then do {
        p \<leftarrow> pivot_key (dt_tree dt);
        pivot \<leftarrow> p;
        Some (Some (pivot, dt\<lparr>dt_prop := (dt_prop dt)\<lparr>dp_migration := Some pivot\<rparr>\<rparr>)) }
      else Some None)"

text \<open>Its keys from the pivot on are merged into the new tree in batches.\<close>

partial_function (option) move_keys ::
  "nat \<Rightarrow> ('k :: {linorder, order_bot, order_top}) LSMTree \<Rightarrow> 'k LSMTreeCursor \<Rightarrow> 'k list \<Rightarrow> 'k LSMTree \<Rightarrow> 'k LSMTree option" where
  "move_keys buffer_size src c buffer dest =
     (if lsm_current c = None then lsm_merge_keys buffer dest
      else do {
        (r, c') \<leftarrow> lsm_next src c;
        (case r of
           None \<Rightarrow> move_keys buffer_size src c' buffer dest
         | Some k \<Rightarrow>
             if buffer_size \<le> length (buffer @ [k]) then do {
               dest' \<leftarrow> lsm_merge_keys (buffer @ [k]) dest;
               move_keys buffer_size src c' [] dest' }
             else move_keys buffer_size src c' (buffer @ [k]) dest) })"

definition migrate_keys ::
  "'k \<Rightarrow> ('k :: {linorder, order_bot, order_top}) LSMTree \<Rightarrow> 'k LSMTree \<Rightarrow> 'k LSMTree option" where
  "migrate_keys pivot src dest = do { c \<leftarrow> lsm_seek pivot src Forward; move_keys (MIGRATE_SIZE * 16) src c [] dest }"

text \<open>After the placement has been split the range ends at the pivot, and the keys beyond are dropped.\<close>

definition finish_migration ::
  "(nat \<Rightarrow> Id) \<Rightarrow> 'k \<Rightarrow> ('k :: {linorder, order_bot, order_top}) DistLSMTree \<Rightarrow> 'k DistLSMTree option" where
  "finish_migration ids pivot dt =
     (let p = dt_prop dt;
          p' = p\<lparr>dp_boundary := (dp_boundary p)\<lparr>bd_upper := pivot\<rparr>, dp_migration := None, dp_epoch := dp_epoch p + 1\<rparr>
      in do { t \<leftarrow> lsm_retain ids pivot (dt_tree dt); Some (dt\<lparr>dt_prop := p', dt_tree := t\<rparr>) })"

text \<open>One round of the balancer over a tree: the levels are merged, then the tree is split if it is
  oversized. The command to the placement state machine comes back with its new state.\<close>

definition balance_tree ::
  "bool \<Rightarrow> (nat \<Rightarrow> Id) \<Rightarrow> Id \<Rightarrow> 'k LSMTree \<Rightarrow> ('k :: {linorder, order_bot, order_top}) MasterTreeSM \<Rightarrow> 'k DistLSMTree \<Rightarrow>
   ('k MasterTreeSM \<times> 'k tree_request list \<times> 'k DistLSMTree \<times> 'k LSMTree option) option" where
  "balance_tree is_leader ids target_id empty_tree m dt = do {
     (_, t) \<leftarrow> merge_levels ids (dt_tree dt);
     b \<leftarrow> begin_migration (dt\<lparr>dt_tree := t\<rparr>);
     (case b of
        None \<Rightarrow> Some (m, [], dt\<lparr>dt_tree := t\<rparr>, None)
      | Some (pivot, dt') \<Rightarrow> do {
          target \<leftarrow> migrate_keys pivot (dt_tree dt') empty_tree;
          (m', reqs) \<leftarrow> sm_split is_leader (dt_id dt') target_id pivot m;
          dt'' \<leftarrow> finish_migration ids pivot dt';
          Some (m', reqs, dt'', Some target) }) }"

section \<open>Blocks of identifiers\<close>

lemma remdups_adj_snoc: "remdups_adj (xs @ [y]) = (if xs \<noteq> [] \<and> last xs = y then remdups_adj xs else remdups_adj xs @ [y])"
  by (induction xs rule: remdups_adj.induct) auto

lemma remdups_adj_prefix: "\<exists>zs. remdups_adj (xs @ ys) = remdups_adj xs @ zs"
proof (induction ys rule: rev_induct)
  case (snoc y ys)
  then show ?case using remdups_adj_snoc [of "xs @ ys" y] by auto
qed simp

lemma remdups_adj_append_cong: "remdups_adj (remdups_adj xs @ ys) = remdups_adj (xs @ ys)"
proof (induction ys rule: rev_induct)
  case (snoc y ys)
  have "last (remdups_adj xs @ ys) = last (xs @ ys)" by (cases ys rule: rev_cases) auto
  then show ?case using snoc remdups_adj_snoc [of "remdups_adj xs @ ys" y] remdups_adj_snoc [of "xs @ ys" y] by simp
qed (simp add: distinct_adj_altdef [symmetric])

lemma remdups_adj_append_cong2: "remdups_adj (xs @ remdups_adj ys) = remdups_adj (xs @ ys)"
proof -
  have "rev (remdups_adj (xs @ remdups_adj ys)) = rev (remdups_adj (xs @ ys))"
    using remdups_adj_append_cong [of "rev ys" "rev xs"] by (simp add: remdups_adj_rev [symmetric] del: remdups_adj_rev)
  then show ?thesis by simp
qed

text \<open>The identifiers of the visible keys of a sequence, without adjacent duplicates.\<close>

definition vids :: "('k \<Rightarrow> Id) \<Rightarrow> 'k set \<Rightarrow> 'k list \<Rightarrow> Id list" where
  "vids id_of D ks = map id_of (filter (\<lambda>k. k \<notin> D) ks)"

lemma vids_simps [simp]:
  "vids id_of D [] = []" "vids id_of D (xs @ ys) = vids id_of D xs @ vids id_of D ys"
  "k \<notin> D \<Longrightarrow> vids id_of D (k # ks) = id_of k # vids id_of D ks"
  "\<forall>x \<in> set xs. x \<in> D \<Longrightarrow> vids id_of D xs = []"
  by (auto simp: vids_def)

lemma deleted_prefix:
  obtains "dropWhile (\<lambda>k. k \<in> D) L = []" "\<forall>x \<in> set L. x \<in> D"
  | ds k R where "dropWhile (\<lambda>k. k \<in> D) L = k # R" "L = ds @ k # R" "\<forall>x \<in> set ds. x \<in> D" "k \<notin> D"
proof (cases "dropWhile (\<lambda>k. k \<in> D) L")
  case Nil
  then show thesis using that(1) by simp
next
  case (Cons k R)
  show thesis
  proof (rule that(2) [OF Cons])
    show "L = takeWhile (\<lambda>k. k \<in> D) L @ k # R" using takeWhile_dropWhile_id [of "\<lambda>k. k \<in> D" L] Cons by simp
    show "\<forall>x \<in> set (takeWhile (\<lambda>k. k \<in> D) L). x \<in> D" by (auto dest: set_takeWhileD)
    show "k \<notin> D" using hd_dropWhile [of "\<lambda>k. k \<in> D" L] Cons by simp
  qed
qed

lemma fill_buffer_at:
  assumes "forward_levels.lsm_at l c L" and "buf = remdups_adj (vids id_of (lsm_deletion l) P)" and "length buf \<le> n"
    and "\<forall>k \<in> set L. entry \<le> k"
  shows "\<exists>buf' c' P' L'. fill_buffer id_of Forward entry n l c buf = Some (buf', c') \<and> forward_levels.lsm_at l c' L' \<and> P @ L = P' @ L' \<and>
    buf' = remdups_adj (vids id_of (lsm_deletion l) P') \<and> length buf' \<le> n \<and> (length buf' = n \<or> L' = [])"
  using assms
proof (induction "length L" arbitrary: L c buf P rule: less_induct)
  case less
  let ?D = "lsm_deletion l"
  show ?case
  proof (cases "length buf < n")
    case False
    then have "fill_buffer id_of Forward entry n l c buf = Some (buf, c)" by (subst fill_buffer.simps) simp
    then show ?thesis using less.prems False by (intro exI [of _ buf] exI [of _ c] exI [of _ P] exI [of _ L]) simp
  next
    case True
    obtain c' where c': "lsm_next l c = Some (case dropWhile (\<lambda>k. k \<in> ?D) L of [] \<Rightarrow> None | k # _ \<Rightarrow> Some k, c')"
        "forward_levels.lsm_at l c' (tl (dropWhile (\<lambda>k. k \<in> ?D) L))" using forward_levels.lsm_at_next [OF less.prems(1)] by blast
    show ?thesis
    proof (cases rule: deleted_prefix [of ?D L])
      case 1
      have "lsm_next l c = Some (None, c')" using c'(1) unfolding 1(1) by (simp only: list.case)
      then have "fill_buffer id_of Forward entry n l c buf = Some (buf, c')" using True by (subst fill_buffer.simps) simp
      moreover have "forward_levels.lsm_at l c' []" using c'(2) 1(1) by simp
      moreover have "buf = remdups_adj (vids id_of ?D (P @ L))" using less.prems(2) 1(2) by simp
      ultimately show ?thesis using less.prems(3) by (intro exI [of _ buf] exI [of _ c'] exI [of _ "P @ L"] exI [of _ "[]"]) simp
    next
      case (2 ds k R)
      let ?P = "P @ ds @ [k]"
      let ?buf = "remdups_adj (vids id_of ?D ?P)"
      have ek: "entry \<le> k" "\<forall>k \<in> set R. entry \<le> k" using less.prems(4) 2(2) by auto
      have nx: "lsm_next l c = Some (Some k, c')" "forward_levels.lsm_at l c' R" using c' 2(1) by simp_all
      have R: "length R < length L" using 2(2) by simp
      have b: "?buf = (if buf \<noteq> [] \<and> last buf = id_of k then buf else buf @ [id_of k])"
        using remdups_adj_snoc [of "vids id_of ?D P" "id_of k"] 2(3,4) by (simp add: less.prems(2))
      have "fill_buffer id_of Forward entry n l c buf = fill_buffer id_of Forward entry n l c' ?buf"
        using True nx(1) ek(1) unfolding b by (subst fill_buffer.simps) (auto simp: wrong_side_def)
      moreover have len: "length ?buf \<le> n" using True unfolding b by simp
      moreover have "P @ L = ?P @ R" using 2(2) by simp
      ultimately show ?thesis using less.hyps [OF R nx(2) refl len ek(2)] by (simp only:)
    qed
  qed
qed

text \<open>Where the next block starts: a key of the sequence such that the block holds the identifiers before it.\<close>

definition continues :: "('k \<Rightarrow> Id) \<Rightarrow> 'k set \<Rightarrow> 'k list \<Rightarrow> Id list \<Rightarrow> 'k option \<Rightarrow> bool" where
  "continues id_of D L buf nx \<longleftrightarrow>
     (case nx of
        None \<Rightarrow> remdups_adj (vids id_of D L) = buf
      | Some k \<Rightarrow> \<exists>P R. L = P @ k # R \<and> remdups_adj (vids id_of D P) = buf \<and> (buf = [] \<or> id_of k \<noteq> last buf))"

lemma skip_popped:
  assumes "forward_levels.lsm_at l c R" and "L = P @ k # R" and "k \<notin> lsm_deletion l" and "remdups_adj (vids id_of (lsm_deletion l) P) = buf"
  shows "\<exists>nx. skip_duplicates id_of l buf (Some k) c = Some nx \<and> continues id_of (lsm_deletion l) L buf nx"
  using assms
proof (induction "length R" arbitrary: R c k P rule: less_induct)
  case less
  let ?D = "lsm_deletion l"
  show ?case
  proof (cases "buf \<noteq> [] \<and> id_of k = last buf")
    case False
    then show ?thesis using less.prems(2,4) by (subst skip_duplicates.simps) (auto simp: continues_def)
  next
    case True
    have b: "remdups_adj (vids id_of ?D (P @ [k])) = buf"
      using remdups_adj_snoc [of "vids id_of ?D P" "id_of k"] less.prems(3,4) True by auto
    obtain c' where c': "lsm_next l c = Some (case dropWhile (\<lambda>k. k \<in> ?D) R of [] \<Rightarrow> None | k # _ \<Rightarrow> Some k, c')"
        "forward_levels.lsm_at l c' (tl (dropWhile (\<lambda>k. k \<in> ?D) R))" using forward_levels.lsm_at_next [OF less.prems(1)] by blast
    show ?thesis
    proof (cases rule: deleted_prefix [of ?D R])
      case 1
      have "skip_duplicates id_of l buf None c' = Some None" by (subst skip_duplicates.simps) simp
      moreover have "lsm_next l c = Some (None, c')" using c'(1) unfolding 1(1) by (simp only: list.case)
      ultimately have "skip_duplicates id_of l buf (Some k) c = Some None" using True by (subst skip_duplicates.simps) simp
      moreover have "remdups_adj (vids id_of ?D L) = buf" using b 1(2) less.prems(2,3) by simp
      ultimately show ?thesis by (simp add: continues_def)
    next
      case (2 ds k2 R2)
      have "skip_duplicates id_of l buf (Some k) c = skip_duplicates id_of l buf (Some k2) c'"
        using True c'(1) 2(1) by (subst skip_duplicates.simps) simp
      moreover have "L = (P @ [k] @ ds) @ k2 # R2" "remdups_adj (vids id_of ?D (P @ [k] @ ds)) = buf" "length R2 < length R"
        using less.prems(2,3) b 2(2,3) by auto
      moreover have "forward_levels.lsm_at l c' R2" using c'(2) 2(1) by simp
      ultimately show ?thesis using less.hyps [of R2 c' "P @ [k] @ ds" k2] 2(4) by simp
    qed
  qed
qed

lemma skip_current:
  assumes "forward_levels.lsm_at l c R" and "L = P @ R" and "remdups_adj (vids id_of (lsm_deletion l) P) = buf"
  shows "\<exists>nx. skip_duplicates id_of l buf (lsm_current c) c = Some nx \<and> continues id_of (lsm_deletion l) L buf nx"
proof (cases R)
  case Nil
  then show ?thesis using assms(2,3) forward_levels.lsm_at_current [OF assms(1)]
    by (subst skip_duplicates.simps) (simp add: continues_def)
next
  case (Cons k R')
  let ?D = "lsm_deletion l"
  have cur: "lsm_current c = Some k" using forward_levels.lsm_at_current [OF assms(1)] by (simp add: Cons)
  show ?thesis
  proof (cases "buf \<noteq> [] \<and> id_of k = last buf")
    case False
    then show ?thesis using assms(2,3) Cons by (subst skip_duplicates.simps) (auto simp: continues_def cur)
  next
    case True
    obtain c' where c': "lsm_next l c = Some (case dropWhile (\<lambda>k. k \<in> ?D) R of [] \<Rightarrow> None | k # _ \<Rightarrow> Some k, c')"
        "forward_levels.lsm_at l c' (tl (dropWhile (\<lambda>k. k \<in> ?D) R))" using forward_levels.lsm_at_next [OF assms(1)] by blast
    show ?thesis
    proof (cases rule: deleted_prefix [of ?D R])
      case 1
      have "skip_duplicates id_of l buf None c' = Some None" by (subst skip_duplicates.simps) simp
      moreover have "lsm_next l c = Some (None, c')" using c'(1) unfolding 1(1) by (simp only: list.case)
      ultimately have "skip_duplicates id_of l buf (lsm_current c) c = Some None" using True by (subst skip_duplicates.simps) (simp add: cur)
      moreover have "remdups_adj (vids id_of ?D L) = buf" using assms(2,3) 1(2) by simp
      ultimately show ?thesis by (simp add: continues_def)
    next
      case (2 ds k2 R2)
      have "skip_duplicates id_of l buf (lsm_current c) c = skip_duplicates id_of l buf (Some k2) c'"
        using True c'(1) 2(1) by (subst skip_duplicates.simps) (simp add: cur)
      moreover have "L = (P @ ds) @ k2 # R2" "remdups_adj (vids id_of ?D (P @ ds)) = buf" using assms(2,3) 2(2,3) by auto
      moreover have "forward_levels.lsm_at l c' R2" using c'(2) 2(1) by simp
      ultimately show ?thesis using skip_popped [of l c' R2 L "P @ ds" k2 id_of buf] 2(4) by simp
    qed
  qed
qed

lemma sorted_last: "sorted xs \<Longrightarrow> x \<in> set xs \<Longrightarrow> x \<le> last (xs :: 'k :: linorder list)"
  by (cases xs rule: rev_cases) (auto simp: sorted_append)

lemma continues_suffix:
  assumes "continues id_of D L buf (Some k)" and "sorted L"
  shows "remdups_adj (buf @ vids id_of D (filter (\<lambda>x. k \<le> x) L)) = remdups_adj (vids id_of D L)"
    and "buf \<noteq> [] \<Longrightarrow> length (vids id_of D (filter (\<lambda>x. k \<le> x) L)) < length (vids id_of D L)"
proof -
  obtain P R where L: "L = P @ k # R" "remdups_adj (vids id_of D P) = buf" "buf = [] \<or> id_of k \<noteq> last buf"
    using assms(1) by (auto simp: continues_def)
  have "filter (\<lambda>x. x \<notin> D) (filter (\<lambda>x. k \<le> x) P) = []"
  proof (rule ccontr)
    let ?V = "filter (\<lambda>x. x \<notin> D) P"
    assume "filter (\<lambda>x. x \<notin> D) (filter (\<lambda>x. k \<le> x) P) \<noteq> []"
    then obtain x where x: "x \<in> set ?V" "k \<le> x" by (auto simp: filter_empty_conv)
    have ne: "?V \<noteq> []" using x(1) by (metis empty_iff empty_set)
    have "sorted ?V" using assms(2) L(1) by (simp add: sorted_append sorted_wrt_filter)
    then have "x \<le> last ?V" by (rule sorted_last) (rule x(1))
    moreover have "last ?V \<le> k" using assms(2) L(1) last_in_set [OF ne] by (auto simp: sorted_append)
    ultimately have "last ?V = k" using x(2) by simp
    then have "last (vids id_of D P) = id_of k" using ne by (simp add: vids_def last_map)
    then show False using L(2,3) ne by (auto simp: vids_def)
  qed
  then have v: "vids id_of D (filter (\<lambda>x. k \<le> x) L) = vids id_of D (k # R)"
    using assms(2) by (simp add: L(1) vids_def sorted_append filter_id_conv [THEN iffD2])
  show "remdups_adj (buf @ vids id_of D (filter (\<lambda>x. k \<le> x) L)) = remdups_adj (vids id_of D L)"
    unfolding v L(2) [symmetric] by (subst remdups_adj_append_cong) (simp add: L(1))
  have s: "vids id_of D L = vids id_of D P @ vids id_of D (k # R)" by (simp add: L(1))
  then show "buf \<noteq> [] \<Longrightarrow> length (vids id_of D (filter (\<lambda>x. k \<le> x) L)) < length (vids id_of D L)"
    unfolding v using L(2) by auto
qed

text \<open>A block of a forward scan and the key the next block starts at.\<close>

definition scan_keys :: "('k :: linorder) \<Rightarrow> 'k set \<Rightarrow> 'k set \<Rightarrow> 'k set \<Rightarrow> 'k set \<Rightarrow> 'k list" where
  "scan_keys entry Sm S0 S1 St = sorted_list_of_multiset (filter_mset (\<lambda>x. entry \<le> x) (level_keys Sm S0 S1 St))"

lemma seek_block_forward:
  assumes "lsm_holds l Sm S0 S1 St"
  shows "\<exists>b. seek_block id_of Forward n entry l = Some b \<and>
    sb_buffer b = take n (remdups_adj (vids id_of (lsm_deletion l) (scan_keys entry Sm S0 S1 St))) \<and>
    continues id_of (lsm_deletion l) (scan_keys entry Sm S0 S1 St) (sb_buffer b) (sb_next b) \<and>
    (0 < n \<and> sb_buffer b = [] \<longrightarrow> sb_next b = None)"
proof -
  define L where "L = scan_keys entry Sm S0 S1 St"
  obtain c where c: "lsm_seek entry l Forward = Some c" "forward_levels.lsm_at l c L"
    using lsm_seek_forward [OF assms(1)] unfolding L_def scan_keys_def by blast
  have e: "\<forall>k \<in> set L. entry \<le> k" by (auto simp: L_def scan_keys_def)
  obtain buf c' P L' where f: "fill_buffer id_of Forward entry n l c [] = Some (buf, c')" "forward_levels.lsm_at l c' L'" "L = P @ L'"
      "buf = remdups_adj (vids id_of (lsm_deletion l) P)" "length buf \<le> n" "length buf = n \<or> L' = []"
    using fill_buffer_at [OF c(2), of "[]" id_of "[]" n entry] e by auto
  obtain nx where nx: "skip_duplicates id_of l buf (lsm_current c') c' = Some nx" "continues id_of (lsm_deletion l) L buf nx"
    using skip_current [OF f(2,3), of id_of buf] f(4) by auto
  obtain zs where "remdups_adj (vids id_of (lsm_deletion l) L) = buf @ zs" "L' = [] \<longrightarrow> zs = []"
    using remdups_adj_prefix [of "vids id_of (lsm_deletion l) P" "vids id_of (lsm_deletion l) L'"] f(3,4) by (cases "L' = []") auto
  then have buf: "buf = take n (remdups_adj (vids id_of (lsm_deletion l) L))" using f(5,6) by auto
  have "nx = None" if "0 < n" "buf = []"
  proof -
    have "L' = []" using f(6) that by auto
    then have "lsm_current c' = None" using forward_levels.lsm_at_current [OF f(2)] by simp
    then show ?thesis using nx(1) by (simp add: skip_duplicates.simps [of id_of l buf None])
  qed
  then show ?thesis using c(1) f(1) nx buf by (auto simp: seek_block_def L_def)
qed

text \<open>Reading block after block, each from where the one before it ended.\<close>

partial_function (option) read_blocks :: "('k \<Rightarrow> Id) \<Rightarrow> nat \<Rightarrow> 'k \<Rightarrow> ('k :: {linorder, order_bot}) LSMTree \<Rightarrow> Id list option" where
  "read_blocks id_of n entry l = do {
     b \<leftarrow> seek_block id_of Forward n entry l;
     (case sb_next b of
        None \<Rightarrow> Some (sb_buffer b)
      | Some k \<Rightarrow> do { ids \<leftarrow> read_blocks id_of n k l; Some (sb_buffer b @ ids) }) }"

lemma scan_keys_from:
  assumes "k \<in> set (scan_keys entry Sm S0 S1 St)"
  shows "filter (\<lambda>x. k \<le> x) (scan_keys entry Sm S0 S1 St) = scan_keys k Sm S0 S1 St"
proof -
  have "entry \<le> k" using assms by (auto simp: scan_keys_def)
  then have "filter_mset (\<lambda>x. k \<le> x \<and> entry \<le> x) M = filter_mset (\<lambda>x. k \<le> x) M" for M by (intro filter_mset_cong) auto
  then show ?thesis
    unfolding scan_keys_def by (intro sorted_list_of_multiset_unique) (simp_all add: sorted_filter' filter_filter_mset conj_commute)
qed

lemma read_blocks_forward:
  assumes "lsm_holds l Sm S0 S1 St" and "0 < n"
  shows "\<exists>ids. read_blocks id_of n entry l = Some ids \<and>
    remdups_adj ids = remdups_adj (vids id_of (lsm_deletion l) (scan_keys entry Sm S0 S1 St))"
proof (induction "length (vids id_of (lsm_deletion l) (scan_keys entry Sm S0 S1 St))" arbitrary: entry rule: less_induct)
  case less
  let ?D = "lsm_deletion l" and ?L = "\<lambda>e. scan_keys e Sm S0 S1 St"
  obtain b where b: "seek_block id_of Forward n entry l = Some b" "sb_buffer b = take n (remdups_adj (vids id_of ?D (?L entry)))"
      "continues id_of ?D (?L entry) (sb_buffer b) (sb_next b)" "sb_buffer b = [] \<longrightarrow> sb_next b = None"
    using seek_block_forward [OF assms(1), of id_of n entry] assms(2) by blast
  show ?case
  proof (cases "sb_next b")
    case None
    then have "sb_buffer b = remdups_adj (vids id_of ?D (?L entry))" using b(3) by (simp add: continues_def)
    then have "remdups_adj (sb_buffer b) = remdups_adj (vids id_of ?D (?L entry))" using remdups_adj_append_cong [of _ "[]"] by simp
    then show ?thesis using b(1) None by (subst read_blocks.simps) simp
  next
    case (Some k)
    have so: "sorted (?L entry)" by (simp add: scan_keys_def)
    have Lk: "filter (\<lambda>x. k \<le> x) (?L entry) = ?L k" by (rule scan_keys_from) (use b(3) Some in \<open>auto simp: continues_def\<close>)
    note cs = continues_suffix [OF b(3) [unfolded Some] so, unfolded Lk]
    have ne: "sb_buffer b \<noteq> []" using b(4) Some by auto
    obtain ids where ids: "read_blocks id_of n k l = Some ids" "remdups_adj ids = remdups_adj (vids id_of ?D (?L k))"
      using less.hyps [OF cs(2) [OF ne]] by blast
    have "remdups_adj (sb_buffer b @ ids) = remdups_adj (sb_buffer b @ vids id_of ?D (?L k))"
      using remdups_adj_append_cong2 [of "sb_buffer b" ids] remdups_adj_append_cong2 [of "sb_buffer b" "vids id_of ?D (?L k)"] ids(2) by simp
    then show ?thesis using b(1) Some ids(1) cs(1) by (subst read_blocks.simps) simp
  qed
qed

section \<open>The guard of a range\<close>

definition accepts :: "('k :: {linorder, order_bot, order_top}) DistProp \<Rightarrow> 'k \<Rightarrow> u64 \<Rightarrow> bool" where
  "accepts p k epoch \<longleftrightarrow> dp_epoch p \<le> epoch \<and> in_boundary (dp_boundary p) k \<and> (\<forall>pivot. dp_migration p = Some pivot \<longrightarrow> k < pivot)"

definition refused :: "'r OpResult \<Rightarrow> bool" where
  "refused r \<longleftrightarrow> (\<forall>x. r \<noteq> Successful x)"

lemma apply_accepted:
  assumes "svc_trees s i = Some dt" and "accepts (dt_prop dt) k epoch"
  shows "apply_in_ranged_tree i k epoch f s =
    map_option (\<lambda>(r, t). (r, s\<lparr>svc_trees := (svc_trees s)(i \<mapsto> dt\<lparr>dt_tree := t\<rparr>)\<rparr>)) (f k (dt_tree dt))"
  using assms by (cases "f k (dt_tree dt)") (auto simp: apply_in_ranged_tree_def accepts_def not_less Let_def split: option.splits)

lemma apply_refused:
  assumes "svc_trees s i = None \<or> (\<exists>dt. svc_trees s i = Some dt \<and> \<not> accepts (dt_prop dt) k epoch)"
  shows "\<exists>r. apply_in_ranged_tree i k epoch f s = Some (r, s) \<and> refused r"
  using assms by (auto simp: apply_in_ranged_tree_def accepts_def refused_def Let_def split: option.splits)

section \<open>Properties\<close>

text \<open>C12: a client that reads block after block, each from the key the block before ends with, gets the
  identifiers of all visible keys from its first key on, in order; adjacent repetitions of an identifier aside.\<close>

theorem paged_scan:
  assumes "lsm_holds l Sm S0 S1 St" and "0 < n"
  shows "\<exists>ids. read_blocks id_of n entry l = Some ids \<and>
    remdups_adj ids = remdups_adj (map id_of (filter (\<lambda>k. k \<notin> lsm_deletion l) (scan_keys entry Sm S0 S1 St)))"
  using read_blocks_forward [OF assms] by (simp add: vids_def)

theorem paged_scan_witness:
  "\<exists>(l :: u8 LSMTree) ids. lsm_holds l {5} {} {} {} \<and> read_blocks (\<lambda>k. \<lparr>higher = 0, lower = ucast k\<rparr>) 1 0 l = Some ids \<and>
     remdups_adj ids = [\<lparr>higher = 0, lower = 5\<rparr>]"
proof -
  have b: "(bot :: u8) < top" "(5 :: u8) < top" by (simp_all add: order_less_le bot_word_def top_word_eq)
  have "mem_only (LSMTree_create (\<lambda>_. \<lparr>higher = 0, lower = 0\<rparr>) (\<lambda>_. \<lparr>higher = 0, lower = 0\<rparr>) (\<lambda>_. \<lparr>higher = 0, lower = 0\<rparr>) :: u8 LSMTree) {} {}"
    by (rule mem_only_create [OF b(1)])
  then obtain l0 :: "u8 LSMTree" where l0: "lsm_holds l0 {} {} {} {}" "lsm_deletion l0 = {}" by (auto simp: mem_only_def)
  obtain l where l: "lsm_holds l {5 :: u8} {} {} {}" "lsm_deletion l = {}" using lsm_insert_holds [OF l0(1) b(2)] l0(2) by auto
  have "scan_keys 0 {5 :: u8} {} {} {} = [5]" by (simp add: scan_keys_def)
  then show ?thesis using paged_scan [OF l(1), of 1 "\<lambda>k. \<lparr>higher = 0, lower = ucast k\<rparr>" 0] l by auto
qed

text \<open>C36: an insertion reaches a tree exactly when the tree is here, the epoch of the caller is not older, the key
  lies in the range of the tree (or is the least or greatest key) and not beyond the pivot of a migration; all
  other trees stay as they are, and a refused request changes nothing.\<close>

theorem insert_guarded:
  assumes "svc_trees s i = Some dt" and "lsm_holds (dt_tree dt) Sm S0 S1 St" and "k < top"
  shows "if accepts (dt_prop dt) k epoch
    then \<exists>t. svc_insert i k epoch s = Some (Successful (k \<notin> Sm), s\<lparr>svc_trees := (svc_trees s)(i \<mapsto> dt\<lparr>dt_tree := t\<rparr>)\<rparr>) \<and>
      lsm_holds t (insert k Sm) S0 S1 St \<and> lsm_deletion t = lsm_deletion (dt_tree dt)
    else \<exists>r. svc_insert i k epoch s = Some (r, s) \<and> refused r"
proof (cases "accepts (dt_prop dt) k epoch")
  case True
  obtain t where "lsm_insert k (dt_tree dt) = Some (k \<notin> Sm, t)" "lsm_holds t (insert k Sm) S0 S1 St" "lsm_deletion t = lsm_deletion (dt_tree dt)"
    using lsm_insert_holds [OF assms(2,3)] by blast
  then show ?thesis using True by (auto simp: svc_insert_def apply_accepted [OF assms(1) True] intro!: exI [of _ t])
next
  case False
  then have "\<exists>r. svc_insert i k epoch s = Some (r, s) \<and> refused r"
    unfolding svc_insert_def by (intro apply_refused) (use assms(1) in auto)
  then show ?thesis using False by simp
qed

theorem insert_guarded_witness:
  "\<exists>(s :: u8 LSMTreeService) s' r. svc_insert \<lparr>higher = 0, lower = 1\<rparr> 200 0 s = Some (r, s') \<and> refused r \<and> s' = s \<and>
     svc_trees s \<lparr>higher = 0, lower = 1\<rparr> \<noteq> None"
proof -
  let ?i = "\<lparr>higher = 0, lower = 1\<rparr> :: Id" and ?z = "\<lambda>_ :: nat. \<lparr>higher = 0, lower = 0\<rparr> :: Id"
  let ?t = "LSMTree_create ?z ?z ?z :: u8 LSMTree"
  let ?dt = "DistLSMTree_new ?i ?t (Boundary_new 0 100) None 0"
  let ?s = "\<lparr>svc_trees = [?i \<mapsto> ?dt]\<rparr> :: u8 LSMTreeService"
  have b: "(bot :: u8) < top" "(200 :: u8) < top" "(200 :: u8) \<noteq> bot" by (simp_all add: order_less_le bot_word_def top_word_eq)
  have "lsm_holds ?t {} {} {} {}" using mem_only_create [OF b(1)] by (simp add: mem_only_def)
  moreover have "dt_tree ?dt = ?t" "svc_trees ?s ?i = Some ?dt" by (simp_all add: DistLSMTree_new_def)
  moreover have "\<not> accepts (dt_prop ?dt) 200 0" using b by (auto simp: accepts_def DistLSMTree_new_def Boundary_new_def in_boundary_def)
  ultimately have "\<exists>r. svc_insert ?i 200 0 ?s = Some (r, ?s) \<and> refused r" using insert_guarded [of ?s ?i ?dt "{}" "{}" "{}" "{}" 200 0] b(2) by simp
  then show ?thesis by (intro exI [of _ ?s]) auto
qed

end
