(* ===== verification/Neb_Ranged_Client.thy ===== *)
theory Neb_Ranged_Client
  imports Neb_Ranged_Service
begin

text \<open>
  The client of the ranged index, \<^verbatim>\<open>index/ranged/client\<close>: a cache of the placement of trees, the loop
  that finds the tree of a key and retries with fresh placement, and cursors that go from block to block and
  from tree to tree. The world a client talks to is the placement state machine and the trees of all servers;
  consistent hashing leads a client and the state machine to the same server, so the servers are one map from
  tree identifiers. What others do while a client sleeps is an argument.
\<close>

section \<open>State\<close>

record 'k world =
  w_sm :: "'k MasterTreeSM"
  w_svc :: "'k LSMTreeService"

type_synonym 'k RangedQueryClient = "('k \<times> (TreePlacement \<times> 'k)) list"

datatype RPCError = TooManyRetry

definition RangedQueryClient_new :: "'k RangedQueryClient" where
  "RangedQueryClient_new = []"

section \<open>Finding the tree of a key\<close>

definition refresh_key_mapping ::
  "('k :: {linorder, order_top}) \<Rightarrow> 'k world \<Rightarrow> 'k RangedQueryClient \<Rightarrow> (('k \<times> TreePlacement \<times> 'k) \<times> 'k RangedQueryClient) option" where
  "refresh_key_mapping key w cl = do {
     (lo, p, up) \<leftarrow> locate_key key (w_sm w);
     Some ((lo, p, up), bmap_insert (<) lo (p, up) cl) }"

definition cached_tree :: "('k :: linorder) \<Rightarrow> 'k RangedQueryClient \<Rightarrow> ('k \<times> TreePlacement \<times> 'k) option" where
  "cached_tree key cl =
     (let es = filter (\<lambda>e. fst e < key) cl
      in if es = [] then None
         else (case last es of (lo, p, up) \<Rightarrow> if lo \<le> key \<and> key < up then Some (lo, p, up) else None))"

definition locate_key_server ::
  "('k :: {linorder, order_top}) \<Rightarrow> bool \<Rightarrow> 'k world \<Rightarrow> 'k RangedQueryClient \<Rightarrow> (('k \<times> TreePlacement \<times> 'k) \<times> 'k RangedQueryClient) option" where
  "locate_key_server key ensure_updated w cl =
     (case (if ensure_updated then None else cached_tree key cl) of
        Some r \<Rightarrow> Some (r, cl)
      | None \<Rightarrow> refresh_key_mapping key w cl)"

text \<open>\<^verbatim>\<open>run_on_destinated_tree\<close>: the argument counts the attempts that are left, the action is a
  request to the tree service, and \<open>proc\<close> turns a successful answer into the result or asks to retry.\<close>

fun run_on_tree ::
  "('k world \<Rightarrow> 'k world) \<Rightarrow> 'k \<Rightarrow> ('k \<Rightarrow> Id \<Rightarrow> u64 \<Rightarrow> 'k LSMTreeService \<Rightarrow> ('a OpResult \<times> 'k LSMTreeService) option) \<Rightarrow>
   ('a \<Rightarrow> 'k \<Rightarrow> 'k \<Rightarrow> 'r option) \<Rightarrow> nat \<Rightarrow> bool \<Rightarrow> ('k :: {linorder, order_top}) world \<Rightarrow> 'k RangedQueryClient \<Rightarrow>
   ((RPCError + 'r) \<times> 'k world \<times> 'k RangedQueryClient) option" where
  "run_on_tree sleep key act proc 0 ensure w cl = Some (Inl TooManyRetry, w, cl)"
| "run_on_tree sleep key act proc (Suc n) ensure w cl = do {
     ((lo, p, up), cl) \<leftarrow> locate_key_server key ensure w cl;
     (r, s) \<leftarrow> act key (tp_id p) (tp_epoch p) (w_svc w);
     (let w = w\<lparr>w_svc := s\<rparr>
      in (case r of
            Successful x \<Rightarrow>
              (case proc x lo up of
                 Some y \<Rightarrow> Some (Inr y, w, cl)
               | None \<Rightarrow> run_on_tree sleep key act proc n ensure w cl)
          | Migrating \<Rightarrow> run_on_tree sleep key act proc n ensure (sleep w) cl
          | OutOfBound \<Rightarrow> run_on_tree sleep key act proc n True w cl
          | NotFound \<Rightarrow> run_on_tree sleep key act proc n True w cl
          | EpochMissMatch _ _ \<Rightarrow> run_on_tree sleep key act proc n True w cl)) }"

definition MAX_RETRY :: nat where "MAX_RETRY = 300"

definition run_on_destinated_tree ::
  "('k world \<Rightarrow> 'k world) \<Rightarrow> 'k \<Rightarrow> ('k \<Rightarrow> Id \<Rightarrow> u64 \<Rightarrow> 'k LSMTreeService \<Rightarrow> ('a OpResult \<times> 'k LSMTreeService) option) \<Rightarrow>
   ('a \<Rightarrow> 'k \<Rightarrow> 'k \<Rightarrow> 'r option) \<Rightarrow> ('k :: {linorder, order_top}) world \<Rightarrow> 'k RangedQueryClient \<Rightarrow>
   ((RPCError + 'r) \<times> 'k world \<times> 'k RangedQueryClient) option" where
  "run_on_destinated_tree sleep key act proc = run_on_tree sleep key act proc MAX_RETRY False"

section \<open>Requests\<close>

definition client_insert ::
  "('k world \<Rightarrow> 'k world) \<Rightarrow> 'k \<Rightarrow> ('k :: {linorder, order_bot, order_top}) world \<Rightarrow> 'k RangedQueryClient \<Rightarrow>
   ((RPCError + bool) \<times> 'k world \<times> 'k RangedQueryClient) option" where
  "client_insert sleep key = run_on_destinated_tree sleep key (\<lambda>k i e. svc_insert i k e) (\<lambda>r _ _. Some r)"

definition client_delete ::
  "('k world \<Rightarrow> 'k world) \<Rightarrow> 'k \<Rightarrow> ('k :: {linorder, order_bot, order_top}) world \<Rightarrow> 'k RangedQueryClient \<Rightarrow>
   ((RPCError + bool) \<times> 'k world \<times> 'k RangedQueryClient) option" where
  "client_delete sleep key = run_on_destinated_tree sleep key (\<lambda>k i e. svc_delete i k e) (\<lambda>r _ _. Some r)"

record 'k ClientCursor =
  cc_ids :: "Id list"
  cc_next :: "'k option"
  cc_ordering :: Ordering
  cc_tree_key :: 'k
  cc_pos :: nat
  cc_buffer_size :: u16

definition ClientCursor_new :: "Ordering \<Rightarrow> 'k ServBlock \<Rightarrow> 'k \<Rightarrow> u16 \<Rightarrow> 'k ClientCursor" where
  "ClientCursor_new ord b tree_key n =
     \<lparr>cc_ids = sb_buffer b, cc_next = sb_next b, cc_ordering = ord, cc_tree_key = tree_key, cc_pos = 0, cc_buffer_size = n\<rparr>"

definition client_seek ::
  "('k \<Rightarrow> Id) \<Rightarrow> ('k world \<Rightarrow> 'k world) \<Rightarrow> 'k \<Rightarrow> Ordering \<Rightarrow> u16 \<Rightarrow> ('k :: {linorder, order_bot, order_top}) world \<Rightarrow> 'k RangedQueryClient \<Rightarrow>
   ((RPCError + 'k ClientCursor option) \<times> 'k world \<times> 'k RangedQueryClient) option" where
  "client_seek id_of sleep key ord n =
     run_on_destinated_tree sleep key (\<lambda>k i e. svc_seek id_of i k ord n e)
       (\<lambda>b lo _. Some (if sb_buffer b = [] then None else Some (ClientCursor_new ord b lo n)))"

text \<open>\<^verbatim>\<open>RangedQueryClient::next_tree\<close>: the neighbour in the cache if it touches the origin, else the
  answer of the state machine.\<close>

definition client_next_tree ::
  "('k :: {linorder, order_top}) \<Rightarrow> Ordering \<Rightarrow> 'k world \<Rightarrow> 'k RangedQueryClient \<Rightarrow>
   (('k \<times> TreePlacement) option \<times> 'k RangedQueryClient) option" where
  "client_next_tree origin ord w cl = do {
     (_, origin_upper) \<leftarrow> map_of cl origin;
     (let cands = (case ord of Forward \<Rightarrow> filter (\<lambda>e. origin < fst e) cl | Backward \<Rightarrow> rev (filter (\<lambda>e. fst e < origin) cl));
          ask = (case next_tree origin ord (w_sm w) of
                   None \<Rightarrow> Some (None, cl)
                 | Some ti \<Rightarrow> Some (Some (ti_lower ti, ti_placement ti), bmap_insert (<) (ti_lower ti) (ti_placement ti, ti_upper ti) cl))
      in (case cands of
            [] \<Rightarrow> ask
          | (lo, p, up) # _ \<Rightarrow>
              if (case ord of Forward \<Rightarrow> lo = origin_upper | Backward \<Rightarrow> up = origin) then Some (Some (lo, p), cl) else ask)) }"

text \<open>\<^verbatim>\<open>refill_by_next_tree\<close>: the loop ends with a block, at the last tree, or never.\<close>

partial_function (option) refill_by_next_tree ::
  "('k \<Rightarrow> Id) \<Rightarrow> ('k world \<Rightarrow> 'k world) \<Rightarrow> 'k ClientCursor \<Rightarrow> ('k :: {linorder, order_bot, order_top}) world \<Rightarrow> 'k RangedQueryClient \<Rightarrow>
   ('k ClientCursor \<times> 'k world \<times> 'k RangedQueryClient) option" where
  "refill_by_next_tree id_of sleep c w cl = do {
     (nt, cl) \<leftarrow> client_next_tree (cc_tree_key c) (cc_ordering c) w cl;
     (case nt of
        None \<Rightarrow> Some (c, w, cl)
      | Some (tree_key, tree) \<Rightarrow>
          (let seek_key = (case cc_ordering c of Forward \<Rightarrow> bot | Backward \<Rightarrow> top)
           in do {
             (r, s) \<leftarrow> svc_seek id_of (tp_id tree) seek_key (cc_ordering c) (cc_buffer_size c) (tp_epoch tree) (w_svc w);
             (case r of
                Successful b \<Rightarrow>
                  Some (if sb_buffer b = [] then c\<lparr>cc_ids := []\<rparr>
                        else ClientCursor_new (cc_ordering c) b tree_key (cc_buffer_size c), w\<lparr>w_svc := s\<rparr>, cl)
              | Migrating \<Rightarrow> refill_by_next_tree id_of sleep c (sleep (w\<lparr>w_svc := s\<rparr>)) cl
              | EpochMissMatch _ _ \<Rightarrow> refill_by_next_tree id_of sleep c (w\<lparr>w_svc := s\<rparr>) cl
              | OutOfBound \<Rightarrow> None
              | NotFound \<Rightarrow> None) })) }"

definition client_current :: "'k ClientCursor \<Rightarrow> Id option" where
  "client_current c = slot (cc_ids c) (cc_pos c)"

definition client_next ::
  "('k \<Rightarrow> Id) \<Rightarrow> ('k world \<Rightarrow> 'k world) \<Rightarrow> 'k ClientCursor \<Rightarrow> ('k :: {linorder, order_bot, order_top}) world \<Rightarrow> 'k RangedQueryClient \<Rightarrow>
   ((RPCError + Id option) \<times> 'k ClientCursor \<times> 'k world \<times> 'k RangedQueryClient) option" where
  "client_next id_of sleep c w cl =
     (let res = slot (cc_ids c) (cc_pos c);
          c = (if cc_pos c < length (cc_ids c) then c\<lparr>cc_pos := cc_pos c + 1\<rparr> else c)
      in if res \<noteq> None \<and> cc_pos c < length (cc_ids c) then Some (Inr res, c, w, cl)
         else (case cc_next c of
           None \<Rightarrow> do { (c, w, cl) \<leftarrow> refill_by_next_tree id_of sleep c w cl; Some (Inr res, c, w, cl) }
         | Some k \<Rightarrow> do {
             (r, w, cl) \<leftarrow> client_seek id_of sleep k (cc_ordering c) (cc_buffer_size c) w cl;
             (case r of
                Inl e \<Rightarrow> Some (Inl e, c, w, cl)
              | Inr (Some c') \<Rightarrow> Some (Inr res, c', w, cl)
              | Inr None \<Rightarrow> Some (Inr res, c\<lparr>cc_ids := []\<rparr>, w, cl)) }))"

definition tree_stats :: "'k world \<Rightarrow> 'k RangedQueryClient \<Rightarrow> 'k LSMTreeStat list option" where
  "tree_stats w cl = those (map (\<lambda>e. case svc_stat (tp_id (fst (snd e))) (w_svc w) of Successful st \<Rightarrow> Some st | _ \<Rightarrow> None) cl)"

section \<open>Placement and trees agree\<close>

text \<open>Each range of the state machine is served by a tree of that range and epoch.\<close>

definition served :: "('k :: {linorder, order_bot, order_top}) LSMTreeService \<Rightarrow> 'k \<Rightarrow> TreePlacement \<Rightarrow> 'k \<Rightarrow> bool" where
  "served s lo p up \<longleftrightarrow> (\<exists>dt. svc_trees s (tp_id p) = Some dt \<and>
     dt_prop dt = \<lparr>dp_boundary = Boundary_new lo up, dp_migration = None, dp_epoch = tp_epoch p\<rparr> \<and>
     (\<exists>Sm S0 S1 St. lsm_holds (dt_tree dt) Sm S0 S1 St))"

definition world_ok :: "('k :: {linorder, order_bot, order_top}) world \<Rightarrow> bool" where
  "world_ok w \<longleftrightarrow> sm_ok (w_sm w) \<and>
     (\<forall>k lo p up. k < top \<longrightarrow> locate_key k (w_sm w) = Some (lo, p, up) \<longrightarrow> served (w_svc w) lo p up)"

text \<open>What a client has cached is current, or older than the tree.\<close>

definition cache_ok :: "('k :: {linorder, order_bot, order_top}) world \<Rightarrow> 'k RangedQueryClient \<Rightarrow> bool" where
  "cache_ok w cl \<longleftrightarrow> (\<forall>(lo, p, up) \<in> set cl.
     locate_key lo (w_sm w) = Some (lo, p, up) \<or> (\<exists>dt. svc_trees (w_svc w) (tp_id p) = Some dt \<and> tp_epoch p < dp_epoch (dt_prop dt)))"

lemma locate_key_same_range:
  assumes "sm_ok m" and "locate_key lo m = Some (lo, p, up)" and "lo \<le> k" and "k < up"
  shows "locate_key k m = Some (lo, p, up)"
proof -
  have "(lo, p) \<in> set m" "upper_of (fst ` set m) lo up" using assms(2) locate_key_iff [OF assms(1)] by auto
  moreover have "\<forall>x \<in> fst ` set m. x \<le> k \<longrightarrow> x \<le> lo"
    using \<open>upper_of (fst ` set m) lo up\<close> assms(4) by (auto simp: upper_of_def split: if_splits)
  ultimately show ?thesis using assms(3,4) locate_key_iff [OF assms(1), of k lo p up] by (auto simp: upper_of_def split: if_splits)
qed

lemma cached_tree_in: "cached_tree key cl = Some (lo, p, up) \<Longrightarrow> (lo, p, up) \<in> set cl \<and> lo \<le> key \<and> key < up"
proof -
  assume a: "cached_tree key cl = Some (lo, p, up)"
  let ?es = "filter (\<lambda>e. fst e < key) cl"
  have "?es \<noteq> []" "last ?es = (lo, p, up)" "lo \<le> key" "key < up"
    using a by (auto simp: cached_tree_def Let_def split: if_splits prod.splits)
  then show ?thesis using last_in_set [of ?es] by auto
qed

lemma served_accepts:
  assumes "served s lo p up" and "lo \<le> k" and "k < up"
  obtains dt where "svc_trees s (tp_id p) = Some dt" and "accepts (dt_prop dt) k (tp_epoch p)"
    and "dt_prop dt = \<lparr>dp_boundary = Boundary_new lo up, dp_migration = None, dp_epoch = tp_epoch p\<rparr>"
    and "\<exists>Sm S0 S1 St. lsm_holds (dt_tree dt) Sm S0 S1 St"
proof -
  obtain dt where dt: "svc_trees s (tp_id p) = Some dt" "dt_prop dt = \<lparr>dp_boundary = Boundary_new lo up, dp_migration = None, dp_epoch = tp_epoch p\<rparr>"
      "\<exists>Sm S0 S1 St. lsm_holds (dt_tree dt) Sm S0 S1 St" using assms(1) unfolding served_def by blast
  moreover have "accepts (dt_prop dt) k (tp_epoch p)" using assms(2,3) by (simp add: dt(2) accepts_def in_boundary_def Boundary_new_def)
  ultimately show thesis using that by blast
qed

text \<open>Requests that go through the guard of the tree service reach the tree of the key.\<close>

lemma run_routes:
  assumes w: "world_ok w" and cl: "cache_ok w cl" and k: "key < top" and loc: "locate_key key (w_sm w) = Some (lo, p, up)"
    and act: "\<And>i e s. act key i e s = apply_in_ranged_tree i key e f s"
    and ok: "act key (tp_id p) (tp_epoch p) (w_svc w) = Some (Successful r, s')" and proc: "proc r lo up = Some y"
  shows "\<exists>cl'. run_on_tree sleep key act proc (Suc (Suc n)) False w cl = Some (Inr y, w\<lparr>w_svc := s'\<rparr>, cl') \<and>
    (cl' = cl \<or> cl' = bmap_insert (<) lo (p, up) cl)"
proof -
  have sm: "sm_ok (w_sm w)" using w by (simp add: world_ok_def)
  have fresh: "run_on_tree sleep key act proc (Suc m) ensure w cl = Some (Inr y, w\<lparr>w_svc := s'\<rparr>, bmap_insert (<) lo (p, up) cl)"
    if "ensure \<or> cached_tree key cl = None" for m ensure
    using that loc ok proc by (auto simp: locate_key_server_def refresh_key_mapping_def)
  show ?thesis
  proof (cases "cached_tree key cl")
    case None
    then show ?thesis using fresh [of False "Suc n"] by auto
  next
    case (Some c)
    obtain lo1 p1 up1 where c: "c = (lo1, p1, up1)" by (cases c) auto
    have in1: "(lo1, p1, up1) \<in> set cl" "lo1 \<le> key" "key < up1" using cached_tree_in [of key cl lo1 p1 up1] Some c by auto
    have lks: "locate_key_server key False w cl = Some ((lo1, p1, up1), cl)" using Some c by (simp add: locate_key_server_def)
    consider "locate_key lo1 (w_sm w) = Some (lo1, p1, up1)" | dt where "svc_trees (w_svc w) (tp_id p1) = Some dt" "tp_epoch p1 < dp_epoch (dt_prop dt)"
      using cl in1(1) by (auto simp: cache_ok_def)
    then show ?thesis
    proof cases
      case 1
      then have "locate_key key (w_sm w) = Some (lo1, p1, up1)" by (rule locate_key_same_range [OF sm _ in1(2,3)])
      then show ?thesis using loc lks ok proc by auto
    next
      case 2
      then have "act key (tp_id p1) (tp_epoch p1) (w_svc w) = Some (EpochMissMatch (dp_epoch (dt_prop dt)) (tp_epoch p1), w_svc w)"
        by (simp add: act apply_in_ranged_tree_def)
      then have "run_on_tree sleep key act proc (Suc (Suc n)) False w cl = run_on_tree sleep key act proc (Suc n) True w cl"
        using lks by (simp del: run_on_tree.simps add: run_on_tree.simps(2) [of sleep key act proc "Suc n"])
      then show ?thesis using fresh [of True n] by auto
    qed
  qed
qed

text \<open>Replacing the tree behind a range keeps the placement.\<close>

lemma replace_tree_ok:
  assumes "world_ok w" and "cache_ok w cl" and "svc_trees (w_svc w) i = Some dt" and "\<exists>Sm S0 S1 St. lsm_holds t Sm S0 S1 St"
  defines "w' \<equiv> w\<lparr>w_svc := (w_svc w)\<lparr>svc_trees := (svc_trees (w_svc w))(i \<mapsto> dt\<lparr>dt_tree := t\<rparr>)\<rparr>\<rparr>"
  shows "world_ok w'" and "cache_ok w' cl"
proof -
  have s: "served (w_svc w') lo p up" if "served (w_svc w) lo p up" for lo p up
    using that assms(3,4) by (cases "tp_id p = i") (auto simp: served_def w'_def)
  show "world_ok w'" using assms(1) s by (auto simp: world_ok_def w'_def)
  have "\<exists>d. svc_trees (w_svc w') j = Some d \<and> e < dp_epoch (dt_prop d)"
    if "svc_trees (w_svc w) j = Some d0" "e < dp_epoch (dt_prop d0)" for j d0 e
    using that assms(3) by (cases "j = i") (auto simp: w'_def)
  moreover have "w_sm w' = w_sm w" by (simp add: w'_def)
  ultimately show "cache_ok w' cl" using assms(2) unfolding cache_ok_def by fastforce
qed

lemma set_bmap_insert_subset: "set (bmap_insert lt k v xs) \<subseteq> insert (k, v) (set xs)"
  by (induction lt k v xs rule: bmap_insert.induct) auto

lemma cache_ok_insert:
  assumes "cache_ok w cl" and "world_ok w" and "locate_key key (w_sm w) = Some (lo, p, up)" and "key < top"
  shows "cache_ok w (bmap_insert (<) lo (p, up) cl)"
proof -
  have sm: "sm_ok (w_sm w)" using assms(2) by (simp add: world_ok_def)
  have L: "(lo, p) \<in> set (w_sm w)" "lo \<le> key" "\<forall>x \<in> fst ` set (w_sm w). x \<le> key \<longrightarrow> x \<le> lo" "upper_of (fst ` set (w_sm w)) key up"
    using assms(3) locate_key_iff [OF sm] by auto
  have "lo < x \<longleftrightarrow> key < x" if "x \<in> fst ` set (w_sm w)" for x
    using L(2,3) that by (meson le_less_trans not_le)
  then have "upper_of (fst ` set (w_sm w)) lo up" using L(4) unfolding upper_of_def by (auto split: if_splits)
  then have "locate_key lo (w_sm w) = Some (lo, p, up)" using L(1) locate_key_iff [OF sm, of lo lo p up] by auto
  then show ?thesis using assms(1) set_bmap_insert_subset [of "(<)" lo "(p, up)" cl] unfolding cache_ok_def by fastforce
qed

text \<open>A request whose work on the tree of its key is known does that work there and nowhere else.\<close>

lemma client_request_routes:
  assumes "world_ok w" and "cache_ok w cl" and "key < top" and "locate_key key (w_sm w) = Some (lo, p, up)"
    and "svc_trees (w_svc w) (tp_id p) = Some dt" and act: "\<And>i e s. act key i e s = apply_in_ranged_tree i key e f s"
    and f: "f key (dt_tree dt) = Some (Successful r, t)" and t: "\<exists>Sm S0 S1 St. lsm_holds t Sm S0 S1 St"
  defines "w' \<equiv> w\<lparr>w_svc := (w_svc w)\<lparr>svc_trees := (svc_trees (w_svc w))(tp_id p \<mapsto> dt\<lparr>dt_tree := t\<rparr>)\<rparr>\<rparr>"
  shows "\<exists>cl'. run_on_destinated_tree sleep key act (\<lambda>r _ _. Some r) w cl = Some (Inr r, w', cl') \<and> world_ok w' \<and> cache_ok w' cl'"
proof -
  have sm: "sm_ok (w_sm w)" using assms(1) by (simp add: world_ok_def)
  have "served (w_svc w) lo p up" using assms(1,3,4) by (simp add: world_ok_def)
  then obtain dt' where dt': "svc_trees (w_svc w) (tp_id p) = Some dt'" "accepts (dt_prop dt') key (tp_epoch p)"
    by (rule served_accepts) (use locate_key_range [OF sm assms(4,3)] in simp_all)
  have acc: "accepts (dt_prop dt) key (tp_epoch p)" using dt' assms(5) by simp
  have w': "w' = w\<lparr>w_svc := w_svc w'\<rparr>" by (simp add: w'_def)
  have step: "act key (tp_id p) (tp_epoch p) (w_svc w) = Some (Successful r, w_svc w')"
    using f by (simp add: act apply_accepted [OF assms(5) acc] w'_def)
  have "\<exists>cl'. run_on_tree sleep key act (\<lambda>r _ _. Some r) (Suc (Suc 298)) False w cl = Some (Inr r, w\<lparr>w_svc := w_svc w'\<rparr>, cl') \<and>
      (cl' = cl \<or> cl' = bmap_insert (<) lo (p, up) cl)"
    by (rule run_routes [where act = act and f = f and proc = "\<lambda>r _ _. Some r", OF assms(1-4) act step refl])
  then obtain cl' where run: "run_on_destinated_tree sleep key act (\<lambda>r _ _. Some r) w cl = Some (Inr r, w', cl')"
      and cl': "cl' = cl \<or> cl' = bmap_insert (<) lo (p, up) cl"
    by (auto simp: run_on_destinated_tree_def MAX_RETRY_def numeral_eq_Suc w' [symmetric])
  have "cache_ok w cl'" using cl' assms(2) cache_ok_insert [OF assms(2,1,4,3)] by auto
  then have "world_ok w'" "cache_ok w' cl'" unfolding w'_def using replace_tree_ok [OF assms(1) _ assms(5) t] by blast+
  then show ?thesis using run by blast
qed

section \<open>The ranged index as a set of keys with deletion marks\<close>

text \<open>The keys of the tree that is responsible for them, and their deletion marks there.\<close>

definition world_keys :: "('k :: {linorder, order_bot, order_top}) world \<Rightarrow> 'k set" where
  "world_keys w = {k. k < top \<and> (\<exists>lo p up dt Sm S0 S1 St. locate_key k (w_sm w) = Some (lo, p, up) \<and>
     svc_trees (w_svc w) (tp_id p) = Some dt \<and> lsm_holds (dt_tree dt) Sm S0 S1 St \<and> k \<in> Sm \<union> S0 \<union> S1 \<union> St)}"

definition world_marks :: "('k :: {linorder, order_bot, order_top}) world \<Rightarrow> 'k set" where
  "world_marks w = {k. k < top \<and> (\<exists>lo p up dt. locate_key k (w_sm w) = Some (lo, p, up) \<and>
     svc_trees (w_svc w) (tp_id p) = Some dt \<and> k \<in> lsm_deletion (dt_tree dt))}"

text \<open>What a tree holds does not depend on how its keys are spread over its levels.\<close>

lemma lsm_holds_same_keys:
  assumes "lsm_holds l Sm S0 S1 St" and "lsm_holds l Rm R0 R1 Rt"
  shows "Sm \<union> S0 \<union> S1 \<union> St = Rm \<union> R0 \<union> R1 \<union> Rt"
proof (rule set_eqI)
  show "k \<in> Sm \<union> S0 \<union> S1 \<union> St \<longleftrightarrow> k \<in> Rm \<union> R0 \<union> R1 \<union> Rt" for k
    using lsm_delete_holds [OF assms(1), of k] lsm_delete_holds [OF assms(2), of k] by (auto split: if_splits)
qed

lemma world_keys_iff:
  assumes "k < top" and "locate_key k (w_sm w) = Some (lo, p, up)" and "svc_trees (w_svc w) (tp_id p) = Some dt"
    and "lsm_holds (dt_tree dt) Sm S0 S1 St"
  shows "k \<in> world_keys w \<longleftrightarrow> k \<in> Sm \<union> S0 \<union> S1 \<union> St"
proof
  assume "k \<in> world_keys w"
  then obtain Rm R0 R1 Rt where "lsm_holds (dt_tree dt) Rm R0 R1 Rt" "k \<in> Rm \<union> R0 \<union> R1 \<union> Rt"
    using assms(2,3) unfolding world_keys_def by auto
  then show "k \<in> Sm \<union> S0 \<union> S1 \<union> St" using lsm_holds_same_keys [OF assms(4)] by blast
next
  show "k \<in> Sm \<union> S0 \<union> S1 \<union> St \<Longrightarrow> k \<in> world_keys w" using assms unfolding world_keys_def by blast
qed

lemma world_marks_iff:
  assumes "k < top" and "locate_key k (w_sm w) = Some (lo, p, up)" and "svc_trees (w_svc w) (tp_id p) = Some dt"
  shows "k \<in> world_marks w \<longleftrightarrow> k \<in> lsm_deletion (dt_tree dt)"
  using assms by (auto simp: world_marks_def)

text \<open>The tree of a key in a world in order.\<close>

lemma world_tree:
  assumes "world_ok w" and "k < top"
  obtains lo p up dt Sm S0 S1 St where "locate_key k (w_sm w) = Some (lo, p, up)" and "svc_trees (w_svc w) (tp_id p) = Some dt"
    and "lsm_holds (dt_tree dt) Sm S0 S1 St"
proof -
  obtain lo p up where l: "locate_key k (w_sm w) = Some (lo, p, up)" using locate_key_total assms(1) unfolding world_ok_def by blast
  then have "served (w_svc w) lo p up" using assms by (simp add: world_ok_def)
  then show thesis using that [OF l] unfolding served_def by blast
qed

text \<open>Other keys stay as they are when the work on a tree only concerns its own key.\<close>

lemma world_other_keys:
  assumes "world_ok w" and "svc_trees (w_svc w) i = Some dt" and "lsm_holds (dt_tree dt) Sm S0 S1 St" and "lsm_holds t Rm R0 R1 Rt"
    and "\<And>x. x \<noteq> key \<Longrightarrow> x \<in> Rm \<union> R0 \<union> R1 \<union> Rt \<longleftrightarrow> x \<in> Sm \<union> S0 \<union> S1 \<union> St"
    and "\<And>x. x \<noteq> key \<Longrightarrow> x \<in> lsm_deletion t \<longleftrightarrow> x \<in> lsm_deletion (dt_tree dt)"
    and "x \<noteq> key"
  defines "w' \<equiv> w\<lparr>w_svc := (w_svc w)\<lparr>svc_trees := (svc_trees (w_svc w))(i \<mapsto> dt\<lparr>dt_tree := t\<rparr>)\<rparr>\<rparr>"
  shows "x \<in> world_keys w' \<longleftrightarrow> x \<in> world_keys w" and "x \<in> world_marks w' \<longleftrightarrow> x \<in> world_marks w"
proof -
  have "(x \<in> world_keys w' \<longleftrightarrow> x \<in> world_keys w) \<and> (x \<in> world_marks w' \<longleftrightarrow> x \<in> world_marks w)"
  proof (cases "x < top")
    case True
    from world_tree [OF assms(1) True] obtain lo p up d Qm Q0 Q1 Qt where
      d: "locate_key x (w_sm w) = Some (lo, p, up)" "svc_trees (w_svc w) (tp_id p) = Some d" "lsm_holds (dt_tree d) Qm Q0 Q1 Qt" .
    show ?thesis
    proof (cases "tp_id p = i")
      case False
      then have d': "locate_key x (w_sm w') = Some (lo, p, up)" "svc_trees (w_svc w') (tp_id p) = Some d" using d by (simp_all add: w'_def)
      show ?thesis unfolding world_keys_iff [OF True d' d(3)] world_keys_iff [OF True d] world_marks_iff [OF True d'] world_marks_iff [OF True d(1,2)] by simp
    next
      case eq: True
      then have d': "locate_key x (w_sm w') = Some (lo, p, up)" "svc_trees (w_svc w') (tp_id p) = Some (dt\<lparr>dt_tree := t\<rparr>)"
          "lsm_holds (dt_tree (dt\<lparr>dt_tree := t\<rparr>)) Rm R0 R1 Rt" using d assms(4) by (simp_all add: w'_def)
      have d2: "svc_trees (w_svc w) (tp_id p) = Some dt" using eq assms(2) by simp
      show ?thesis using assms(5) [OF assms(7)] assms(6) [OF assms(7)]
        unfolding world_keys_iff [OF True d'] world_keys_iff [OF True d(1) d2 assms(3)] world_marks_iff [OF True d'(1,2)] world_marks_iff [OF True d(1) d2]
        by simp
    qed
  qed (simp add: world_keys_def world_marks_def)
  then show "x \<in> world_keys w' \<longleftrightarrow> x \<in> world_keys w" and "x \<in> world_marks w' \<longleftrightarrow> x \<in> world_marks w" by auto
qed

text \<open>What a user of the ranged index relies on: an insertion adds a key, a deletion marks a key that is there.\<close>

locale marked_index =
  fixes ins :: "'k :: order_top \<Rightarrow> 's \<Rightarrow> (('e + bool) \<times> 's) option"
    and del :: "'k \<Rightarrow> 's \<Rightarrow> (('e + bool) \<times> 's) option"
    and inv :: "'s \<Rightarrow> bool"
    and keys :: "'s \<Rightarrow> 'k set"
    and marks :: "'s \<Rightarrow> 'k set"
  assumes ins_adds: "inv s \<Longrightarrow> k < top \<Longrightarrow>
      \<exists>b s'. ins k s = Some (Inr b, s') \<and> inv s' \<and> keys s' = insert k (keys s) \<and> marks s' = marks s"
    and del_marks: "inv s \<Longrightarrow> k < top \<Longrightarrow>
      \<exists>b s'. del k s = Some (Inr b, s') \<and> inv s' \<and> keys s' = keys s \<and> marks s' = marks s \<union> ({k} \<inter> keys s)"
begin

text \<open>A scan meets the keys without a mark. A key with a mark stays out whatever is inserted.\<close>

definition visible :: "'s \<Rightarrow> 'k set" where
  "visible s = keys s - marks s"

lemma ins_visible: "inv s \<Longrightarrow> k < top \<Longrightarrow> \<exists>b s'. ins k s = Some (Inr b, s') \<and> inv s' \<and> visible s' = visible s \<union> ({k} - marks s)"
  using ins_adds [of s k] by (auto simp: visible_def)

lemma del_visible: "inv s \<Longrightarrow> k < top \<Longrightarrow> \<exists>b s'. del k s = Some (Inr b, s') \<and> inv s' \<and> visible s' = visible s - {k}"
  using del_marks [of s k] by (fastforce simp: visible_def)

end

text \<open>The requests of a client as functions on the servers and its cache.\<close>

definition index_insert :: "('k world \<Rightarrow> 'k world) \<Rightarrow> ('k :: {linorder, order_bot, order_top}) \<Rightarrow> 'k world \<times> 'k RangedQueryClient \<Rightarrow>
   ((RPCError + bool) \<times> ('k world \<times> 'k RangedQueryClient)) option" where
  "index_insert sleep k s = map_option (\<lambda>(r, w, cl). (r, (w, cl))) (client_insert sleep k (fst s) (snd s))"

definition index_delete :: "('k world \<Rightarrow> 'k world) \<Rightarrow> ('k :: {linorder, order_bot, order_top}) \<Rightarrow> 'k world \<times> 'k RangedQueryClient \<Rightarrow>
   ((RPCError + bool) \<times> ('k world \<times> 'k RangedQueryClient)) option" where
  "index_delete sleep k s = map_option (\<lambda>(r, w, cl). (r, (w, cl))) (client_delete sleep k (fst s) (snd s))"

definition index_ok :: "('k :: {linorder, order_bot, order_top}) world \<times> 'k RangedQueryClient \<Rightarrow> bool" where
  "index_ok s \<longleftrightarrow> world_ok (fst s) \<and> cache_ok (fst s) (snd s)"

lemma index_insert_adds:
  assumes "index_ok (w, cl)" and "k < top"
  shows "\<exists>b w' cl'. index_insert sleep k (w, cl) = Some (Inr b, (w', cl')) \<and> index_ok (w', cl') \<and>
    world_keys w' = insert k (world_keys w) \<and> world_marks w' = world_marks w"
proof -
  have ok: "world_ok w" "cache_ok w cl" using assms(1) by (simp_all add: index_ok_def)
  from world_tree [OF ok(1) assms(2)] obtain lo p up dt Sm S0 S1 St where
    d: "locate_key k (w_sm w) = Some (lo, p, up)" "svc_trees (w_svc w) (tp_id p) = Some dt" "lsm_holds (dt_tree dt) Sm S0 S1 St" .
  obtain t where t: "lsm_insert k (dt_tree dt) = Some (k \<notin> Sm, t)" "lsm_holds t (insert k Sm) S0 S1 St" "lsm_deletion t = lsm_deletion (dt_tree dt)"
    using lsm_insert_holds [OF d(3) assms(2)] by blast
  let ?w = "w\<lparr>w_svc := (w_svc w)\<lparr>svc_trees := (svc_trees (w_svc w))(tp_id p \<mapsto> dt\<lparr>dt_tree := t\<rparr>)\<rparr>\<rparr>"
  have h: "\<exists>Sm S0 S1 St. lsm_holds t Sm S0 S1 St" using t(2) by blast
  have "\<exists>cl'. run_on_destinated_tree sleep k (\<lambda>k i e. svc_insert i k e) (\<lambda>r _ _. Some r) w cl = Some (Inr (k \<notin> Sm), ?w, cl') \<and> world_ok ?w \<and> cache_ok ?w cl'"
    by (rule client_request_routes [where act = "\<lambda>k i e. svc_insert i k e", OF ok assms(2) d(1,2) fun_cong [OF svc_insert_def] _ h]) (simp add: t(1))
  then obtain cl' where run: "client_insert sleep k w cl = Some (Inr (k \<notin> Sm), ?w, cl')" "world_ok ?w" "cache_ok ?w cl'"
    unfolding client_insert_def by blast
  have d': "locate_key k (w_sm ?w) = Some (lo, p, up)" "svc_trees (w_svc ?w) (tp_id p) = Some (dt\<lparr>dt_tree := t\<rparr>)"
      "lsm_holds (dt_tree (dt\<lparr>dt_tree := t\<rparr>)) (insert k Sm) S0 S1 St" using d(1) t(2) by simp_all
  note other = world_other_keys [OF ok(1) d(2,3) t(2), where key = k]
  have k: "k \<in> world_keys ?w" "k \<in> world_marks ?w \<longleftrightarrow> k \<in> world_marks w"
    unfolding world_keys_iff [OF assms(2) d'] world_marks_iff [OF assms(2) d'(1,2)] world_marks_iff [OF assms(2) d(1,2)] by (simp_all add: t(3))
  have "x \<in> world_keys ?w \<longleftrightarrow> x \<in> insert k (world_keys w)" for x using k(1) other(1) [of x] t(3) by (cases "x = k") auto
  moreover have "x \<in> world_marks ?w \<longleftrightarrow> x \<in> world_marks w" for x using k(2) other(2) [of x] t(3) by (cases "x = k") auto
  ultimately have "world_keys ?w = insert k (world_keys w) \<and> world_marks ?w = world_marks w" by blast
  then show ?thesis using run by (auto simp: index_insert_def index_ok_def)
qed

lemma index_delete_marks:
  assumes "index_ok (w, cl)" and "k < top"
  shows "\<exists>b w' cl'. index_delete sleep k (w, cl) = Some (Inr b, (w', cl')) \<and> index_ok (w', cl') \<and>
    world_keys w' = world_keys w \<and> world_marks w' = world_marks w \<union> ({k} \<inter> world_keys w)"
proof -
  have ok: "world_ok w" "cache_ok w cl" using assms(1) by (simp_all add: index_ok_def)
  from world_tree [OF ok(1) assms(2)] obtain lo p up dt Sm S0 S1 St where
    d: "locate_key k (w_sm w) = Some (lo, p, up)" "svc_trees (w_svc w) (tp_id p) = Some dt" "lsm_holds (dt_tree dt) Sm S0 S1 St" .
  let ?U = "Sm \<union> S0 \<union> S1 \<union> St"
  let ?t = "if k \<in> ?U then (dt_tree dt)\<lparr>lsm_deletion := insert k (lsm_deletion (dt_tree dt))\<rparr> else dt_tree dt"
  have h: "lsm_holds ?t Sm S0 S1 St" using d(3) by (simp add: lsm_holds_def)
  let ?w = "w\<lparr>w_svc := (w_svc w)\<lparr>svc_trees := (svc_trees (w_svc w))(tp_id p \<mapsto> dt\<lparr>dt_tree := ?t\<rparr>)\<rparr>\<rparr>"
  have h': "\<exists>Sm S0 S1 St. lsm_holds ?t Sm S0 S1 St" using h by blast
  have "\<exists>cl'. run_on_destinated_tree sleep k (\<lambda>k i e. svc_delete i k e) (\<lambda>r _ _. Some r) w cl = Some (Inr (k \<in> ?U), ?w, cl') \<and> world_ok ?w \<and> cache_ok ?w cl'"
    by (rule client_request_routes [where act = "\<lambda>k i e. svc_delete i k e", OF ok assms(2) d(1,2) fun_cong [OF svc_delete_def] _ h']) (simp add: lsm_delete_holds [OF d(3)])
  then obtain cl' where run: "client_delete sleep k w cl = Some (Inr (k \<in> ?U), ?w, cl')" "world_ok ?w" "cache_ok ?w cl'"
    unfolding client_delete_def by blast
  have d': "locate_key k (w_sm ?w) = Some (lo, p, up)" "svc_trees (w_svc ?w) (tp_id p) = Some (dt\<lparr>dt_tree := ?t\<rparr>)"
      "lsm_holds (dt_tree (dt\<lparr>dt_tree := ?t\<rparr>)) Sm S0 S1 St" using d(1) h by simp_all
  note other = world_other_keys [OF ok(1) d(2,3) h, where key = k]
  have k: "k \<in> world_keys ?w \<longleftrightarrow> k \<in> world_keys w" "k \<in> world_marks ?w \<longleftrightarrow> k \<in> world_marks w \<or> k \<in> world_keys w"
    unfolding world_keys_iff [OF assms(2) d'] world_keys_iff [OF assms(2) d] world_marks_iff [OF assms(2) d'(1,2)] world_marks_iff [OF assms(2) d(1,2)]
    by auto
  have "x \<in> world_keys ?w \<longleftrightarrow> x \<in> world_keys w" for x using k(1) other(1) [of x] by (cases "x = k") auto
  moreover have "x \<in> world_marks ?w \<longleftrightarrow> x \<in> world_marks w \<union> ({k} \<inter> world_keys w)" for x using k(2) other(2) [of x] by (cases "x = k") auto
  ultimately have "world_keys ?w = world_keys w \<and> world_marks ?w = world_marks w \<union> ({k} \<inter> world_keys w)" by blast
  then show ?thesis using run by (auto simp: index_delete_def index_ok_def)
qed

interpretation ranged: marked_index "index_insert sleep" "index_delete sleep" index_ok "\<lambda>s. world_keys (fst s)" "\<lambda>s. world_marks (fst s)"
proof (unfold_locales, goal_cases)
  case (1 s k)
  then show ?case using index_insert_adds [of "fst s" "snd s" k sleep] by force
next
  case (2 s k)
  then show ?case using index_delete_marks [of "fst s" "snd s" k sleep] by force
qed

section \<open>Properties\<close>


text \<open>A world with one tree.\<close>

definition genesis_world :: "Id \<Rightarrow> ('k :: {linorder, order_bot, order_top}) world" where
  "genesis_world i =
     (let ids = (\<lambda>_. i, \<lambda>_. i, \<lambda>_. i)
      in \<lparr>w_sm = fst (try_initialize i MasterTreeSM_new),
          w_svc = crate_tree ids i (Boundary_new bot top) INITIAL_TREE_EPOCH \<lparr>svc_trees = \<lambda>_. None\<rparr>\<rparr>)"

lemma genesis_world_ok:
  assumes "(bot :: 'k :: {linorder, order_bot, order_top}) < top"
  shows "world_ok (genesis_world i :: 'k world)"
    and "k < top \<Longrightarrow> locate_key k (w_sm (genesis_world i :: 'k world)) = Some (bot, TreePlacement_new i, top)"
    and "\<exists>dt. svc_trees (w_svc (genesis_world i :: 'k world)) i = Some dt \<and> lsm_holds (dt_tree dt) {} {} {} {}"
proof -
  let ?w = "genesis_world i :: 'k world"
  have sm: "w_sm ?w = [(bot, TreePlacement_new i)]" by (simp add: genesis_world_def Let_def try_initialize_def MasterTreeSM_new_def)
  have ok: "sm_ok (w_sm ?w)" using assms by (simp add: sm sm_ok_def)
  have loc: "locate_key x (w_sm ?w) = Some (bot, TreePlacement_new i, top)" if "x < top" for x
    by (simp add: sm locate_key_def first_or_max_def)
  have h: "lsm_holds (LSMTree_create (\<lambda>_. i) (\<lambda>_. i) (\<lambda>_. i) :: 'k LSMTree) {} {} {} {}"
    using mem_only_create [OF assms] by (simp add: mem_only_def)
  have svc: "svc_trees (w_svc ?w) i =
      Some (DistLSMTree_new i (LSMTree_create (\<lambda>_. i) (\<lambda>_. i) (\<lambda>_. i)) (Boundary_new bot top) None INITIAL_TREE_EPOCH)"
    by (simp add: genesis_world_def Let_def crate_tree_def)
  have "served (w_svc ?w) bot (TreePlacement_new i) top"
    unfolding served_def using svc h by (auto simp: TreePlacement_new_def DistLSMTree_new_def)
  then show "world_ok ?w" using ok loc by (simp add: world_ok_def)
  show "k < top \<Longrightarrow> locate_key k (w_sm ?w) = Some (bot, TreePlacement_new i, top)" by (rule loc)
  show "\<exists>dt. svc_trees (w_svc ?w) i = Some dt \<and> lsm_holds (dt_tree dt) {} {} {} {}" using svc h by (simp add: DistLSMTree_new_def)
qed

lemma genesis_world_empty:
  assumes "(bot :: 'k :: {linorder, order_bot, order_top}) < top"
  shows "world_keys (genesis_world i :: 'k world) = {}" and "world_marks (genesis_world i :: 'k world) = {}"
proof -
  let ?w = "genesis_world i :: 'k world"
  let ?dt = "DistLSMTree_new i (LSMTree_create (\<lambda>_. i) (\<lambda>_. i) (\<lambda>_. i) :: 'k LSMTree) (Boundary_new bot top) None INITIAL_TREE_EPOCH"
  have i: "tp_id (TreePlacement_new i) = i" by (simp add: TreePlacement_new_def)
  have t: "svc_trees (w_svc ?w) (tp_id (TreePlacement_new i)) = Some ?dt" by (simp add: i genesis_world_def Let_def crate_tree_def)
  have h: "lsm_holds (dt_tree ?dt) {} {} {} {}" "lsm_deletion (dt_tree ?dt) = {}"
    using mem_only_create [OF assms, of "\<lambda>_. i" "\<lambda>_. i" "\<lambda>_. i"] by (simp_all add: mem_only_def DistLSMTree_new_def)
  have "k \<notin> world_keys ?w \<and> k \<notin> world_marks ?w" for k
  proof (cases "k < top")
    case True
    note l = genesis_world_ok(2) [OF assms True, of i]
    show ?thesis unfolding world_keys_iff [OF True l t h(1)] world_marks_iff [OF True l t] by (simp add: h(2))
  qed (simp add: world_keys_def world_marks_def)
  then show "world_keys ?w = {}" and "world_marks ?w = {}" by auto
qed


end
