(* ===== verification/Neb_Index_Builder.thy ===== *)
theory Neb_Index_Builder
  imports Neb_Chunk Neb_Ranged_Client
begin

text \<open>
  The index builder, \<^verbatim>\<open>index/builder.rs\<close>: it derives the index entries of a cell from the fields that
  its schema indexes and keeps the ranged index in step with the requests of the chunks. Its requests to the
  index run in tasks of their own, whose steps interleave; a task ends at an error and when it panics. Functions
  of the value library, the hash of an entry and the orders in which hash maps are listed are the fields of a
  record.
\<close>

section \<open>Entries of an index\<close>

datatype IndexMeta = IM_Ranged EntryKey | IM_Hashed Id Id | IM_Vectorized Id bytes u8 u64

datatype IndexComps = IC_Ranged bytes | IC_Hashed bytes | IC_Vectorized bytes u8

definition UNSETTLED :: bytes where "UNSETTLED = replicate 8 0"

record 'p IndexLib =
  get_in_by_ids :: "'p Value \<Rightarrow> u64 list \<Rightarrow> 'p Value"
  prim_array_data_size :: "'p Value \<Rightarrow> u8 option"
  features :: "'p Value \<Rightarrow> bytes list"
  hashes :: "'p Value \<Rightarrow> bytes list"
  feature_of :: "'p Value \<Rightarrow> bytes"
  hash_of :: "'p Value \<Rightarrow> bytes"
  base_size :: "'p Value \<Rightarrow> nat"
  id_from_obj :: "u32 \<times> u64 \<times> bytes \<Rightarrow> Id"
  meta_hash :: "IndexMeta \<Rightarrow> u64"
  iter_fields :: "(u64 \<Rightarrow> IndexType list option) \<Rightarrow> (u64 \<times> IndexType list) list"
  iter_map :: "(u64 \<times> IndexMeta) list \<Rightarrow> (u64 \<times> IndexMeta) list"

text \<open>What is relied on: features have their size, and listing a hash map gives its entries in some order.\<close>

definition index_lib_ok :: "'p IndexLib \<Rightarrow> bool" where
  "index_lib_ok L \<longleftrightarrow> (\<forall>v. length (feature_of L v) = FEATURE_SIZE \<and> (\<forall>f \<in> set (features L v). length f = FEATURE_SIZE)) \<and>
     (\<forall>m. \<forall>(f, idx) \<in> set (iter_fields L m). m f = Some idx) \<and> (\<forall>xs. set (iter_map L xs) = set xs)"

text \<open>The components of an indexed value, one for each element of a primitive array.\<close>

definition array_comps :: "'p IndexLib \<Rightarrow> 'p Value \<Rightarrow> u8 \<Rightarrow> IndexType \<Rightarrow> IndexComps list" where
  "array_comps L v sz t =
     (case t of
        Ranged \<Rightarrow> map IC_Ranged (features L v)
      | Hashed \<Rightarrow> map IC_Hashed (hashes L v)
      | Vectorized \<Rightarrow> map (\<lambda>f. IC_Vectorized f sz) (features L v)
      | Statistics \<Rightarrow> [])"

definition scalar_comps :: "'p IndexLib \<Rightarrow> 'p Value \<Rightarrow> IndexType \<Rightarrow> IndexComps list" where
  "scalar_comps L v t =
     (case t of
        Ranged \<Rightarrow> [IC_Ranged (feature_of L v)]
      | Hashed \<Rightarrow> [IC_Hashed (hash_of L v)]
      | Vectorized \<Rightarrow> [IC_Vectorized (feature_of L v) (of_nat (base_size L v))]
      | Statistics \<Rightarrow> [])"

definition index_comps :: "'p IndexLib \<Rightarrow> 'p Value \<Rightarrow> IndexType list \<Rightarrow> IndexComps list" where
  "index_comps L v idx =
     (case prim_array_data_size L v of
        Some sz \<Rightarrow> concat (map (array_comps L v sz) idx)
      | None \<Rightarrow> concat (map (scalar_comps L v) idx))"

text \<open>The entry of a component; a component that is all zero has none.\<close>

definition comp_meta :: "'p IndexLib \<Rightarrow> CellHeader \<Rightarrow> u32 \<Rightarrow> u64 \<Rightarrow> IndexComps \<Rightarrow> IndexMeta option" where
  "comp_meta L hdr sid field_id c =
     (case c of
        IC_Hashed feat \<Rightarrow>
          if feat = UNSETTLED then None else Some (IM_Hashed (id_from_obj L (sid, field_id, feat)) (header_id hdr))
      | IC_Ranged feat \<Rightarrow>
          if feat = UNSETTLED then None else Some (IM_Ranged (from_props (header_id hdr) feat field_id sid))
      | IC_Vectorized feat sz \<Rightarrow>
          if feat = UNSETTLED then None else Some (IM_Vectorized (header_id hdr) feat sz (version hdr)))"

definition probe_cell_indices :: "'p IndexLib \<Rightarrow> 'p OwnedCell \<Rightarrow> Schema \<Rightarrow> IndexMeta list list" where
  "probe_cell_indices L cell sch =
     concat (map (\<lambda>(field_id, idx).
       case id_index sch field_id of
         None \<Rightarrow> []
       | Some id_path \<Rightarrow>
           [List.map_filter (comp_meta L (header cell) (schema_id sch) field_id)
              (index_comps L (get_in_by_ids L (data cell) id_path) idx)]) (iter_fields L (index_fields sch)))"

section \<open>Tasks\<close>

datatype IndexOp = OpInsert IndexMeta | OpRemove IndexMeta

definition to_meta_hash_pairs :: "'p IndexLib \<Rightarrow> IndexMeta list \<Rightarrow> (u64 \<times> IndexMeta) list" where
  "to_meta_hash_pairs L ms = map (\<lambda>m. (meta_hash L m, m)) ms"

text \<open>Collecting pairs into a hash map, where a later pair replaces an earlier one.\<close>

definition hash_collect :: "(u64 \<times> IndexMeta) list \<Rightarrow> (u64 \<times> IndexMeta) list" where
  "hash_collect ps = foldl (\<lambda>m (h, v). AList.update h v m) [] ps"

text \<open>The loop that takes the unchanged entries out of both maps.\<close>

fun drop_unchanged :: "u64 list \<Rightarrow> (u64 \<times> IndexMeta) list \<Rightarrow> (u64 \<times> IndexMeta) list \<Rightarrow>
    (u64 \<times> IndexMeta) list \<times> (u64 \<times> IndexMeta) list" where
  "drop_unchanged [] new_map old_map = (new_map, old_map)"
| "drop_unchanged (h # hs) new_map old_map =
     (if map_of new_map h \<noteq> None then drop_unchanged hs (AList.delete h new_map) (AList.delete h old_map)
      else drop_unchanged hs new_map old_map)"

text \<open>\<^verbatim>\<open>ensure_indices_\<close> and \<^verbatim>\<open>remove_indices_\<close> as the requests they make, in order.\<close>

definition ensure_indices_ops :: "'p IndexLib \<Rightarrow> IndexMeta list list \<Rightarrow> IndexMeta list list option \<Rightarrow> IndexOp list" where
  "ensure_indices_ops L new_indices old_indices =
     (let index_of_old_index = hash_collect (concat (map (to_meta_hash_pairs L) (case old_indices of None \<Rightarrow> [] | Some o' \<Rightarrow> o')));
          index_of_new_index = hash_collect (concat (map (to_meta_hash_pairs L) new_indices));
          (new_left, old_left) = drop_unchanged (map fst index_of_old_index) index_of_new_index index_of_old_index
      in map (\<lambda>e. OpInsert (snd e)) (iter_map L new_left) @ map (\<lambda>e. OpRemove (snd e)) (iter_map L old_left))"

definition remove_indices_ops :: "IndexMeta list list \<Rightarrow> IndexOp list" where
  "remove_indices_ops metas = map OpRemove (concat metas)"

definition scannable_key :: "'p OwnedCell \<Rightarrow> EntryKey" where
  "scannable_key cell = for_scannable (header_id (header cell)) (schema (header cell))"

text \<open>The tasks \<^verbatim>\<open>ensure_indices\<close> and \<^verbatim>\<open>remove_indices\<close> spawn for a request of a chunk.\<close>

definition ensure_indices :: "'p IndexLib \<Rightarrow> 'p OwnedCell \<Rightarrow> Schema \<Rightarrow> IndexMeta list list option \<Rightarrow> IndexOp list list" where
  "ensure_indices L cell sch old_indices =
     (if is_scannable sch then [[OpInsert (IM_Ranged (scannable_key cell))]] else []) @
     [ensure_indices_ops L (probe_cell_indices L cell sch) old_indices]"

definition remove_indices :: "'p IndexLib \<Rightarrow> 'p OwnedCell \<Rightarrow> Schema \<Rightarrow> IndexOp list list" where
  "remove_indices L cell sch =
     (if is_scannable sch then [[OpRemove (IM_Ranged (scannable_key cell))]] else []) @
     [remove_indices_ops (probe_cell_indices L cell sch)]"

definition request_tasks :: "'p IndexLib \<Rightarrow> 'p IndexReq \<Rightarrow> IndexOp list list" where
  "request_tasks L r =
     (case r of
        EnsureIndices cell sch old \<Rightarrow> ensure_indices L cell sch (map_option (\<lambda>c. probe_cell_indices L c sch) old)
      | RemoveIndices cell sch \<Rightarrow> remove_indices L cell sch)"

text \<open>\<^verbatim>\<open>IndexMeta::insert\<close> and \<^verbatim>\<open>remove\<close>: only ranged entries are implemented, the others panic.\<close>

definition run_index_op ::
  "(EntryKey \<Rightarrow> 's \<Rightarrow> (('e + bool) \<times> 's) option) \<Rightarrow> (EntryKey \<Rightarrow> 's \<Rightarrow> (('e + bool) \<times> 's) option) \<Rightarrow> IndexOp \<Rightarrow> 's \<Rightarrow> (('e + bool) \<times> 's) option" where
  "run_index_op insk delk op s =
     (case op of
        OpInsert (IM_Ranged k) \<Rightarrow> insk k s
      | OpRemove (IM_Ranged k) \<Rightarrow> delk k s
      | _ \<Rightarrow> None)"

text \<open>A turn of task number \<open>i\<close> of the pending ones; \<^verbatim>\<open>await_indices\<close> gives turns in any order until all
  tasks have ended, and drops their results.\<close>

definition task_turn ::
  "(EntryKey \<Rightarrow> 's \<Rightarrow> (('e + bool) \<times> 's) option) \<Rightarrow> (EntryKey \<Rightarrow> 's \<Rightarrow> (('e + bool) \<times> 's) option) \<Rightarrow> nat \<Rightarrow>
   IndexOp list list \<times> 's \<Rightarrow> IndexOp list list \<times> 's" where
  "task_turn insk delk i c =
     (case c of (ts, s) \<Rightarrow>
        if i < length ts then
          (case ts ! i of
             [] \<Rightarrow> (ts, s)
           | op # ops \<Rightarrow>
               (case run_index_op insk delk op s of
                  Some (Inr _, s') \<Rightarrow> (ts[i := ops], s')
                | Some (Inl _, s') \<Rightarrow> (ts[i := []], s')
                | None \<Rightarrow> (ts[i := []], s)))
        else (ts, s))"

definition await_indices ::
  "(EntryKey \<Rightarrow> 's \<Rightarrow> (('e + bool) \<times> 's) option) \<Rightarrow> (EntryKey \<Rightarrow> 's \<Rightarrow> (('e + bool) \<times> 's) option) \<Rightarrow> nat list \<Rightarrow>
   IndexOp list list \<times> 's \<Rightarrow> IndexOp list list \<times> 's" where
  "await_indices insk delk turns c = fold (task_turn insk delk) turns c"

definition all_ended :: "IndexOp list list \<Rightarrow> bool" where
  "all_ended ts \<longleftrightarrow> (\<forall>t \<in> set ts. t = [])"

section \<open>Hash maps of entries\<close>

lemma hash_collect_snoc: "hash_collect (ps @ [(h, v)]) = AList.update h v (hash_collect ps)"
  by (simp add: hash_collect_def)

lemma hash_collect_keys [simp]:
  "distinct (map fst (hash_collect ps))" "fst ` set (hash_collect ps) = fst ` set ps"
proof (induction ps rule: rev_induct)
  case (snoc p ps)
  case 1
  show ?case using snoc(1) by (cases p) (simp add: hash_collect_snoc distinct_update)
  case 2
  show ?case using snoc(2) by (cases p) (simp add: hash_collect_snoc dom_update)
qed (simp_all add: hash_collect_def)

lemma set_update_subset: "set (AList.update h v xs) \<subseteq> insert (h, v) (set xs)"
  by (induction xs) auto

lemma hash_collect_subset: "set (hash_collect ps) \<subseteq> set ps"
proof (induction ps rule: rev_induct)
  case (snoc p ps)
  then show ?case using set_update_subset [of "fst p" "snd p" "hash_collect ps"] by (cases p) (auto simp: hash_collect_snoc)
qed (simp add: hash_collect_def)

lemma set_alist_delete: "set (AList.delete h xs) = {e \<in> set xs. fst e \<noteq> h}"
  by (auto simp: AList.delete_eq)

lemma drop_unchanged_sets:
  assumes "drop_unchanged hs n o' = (n', o'')" and "distinct hs"
  shows "set n' = {e \<in> set n. fst e \<notin> set hs}"
    and "set o'' = {e \<in> set o'. \<not> (fst e \<in> set hs \<and> fst e \<in> fst ` set n)}"
proof -
  have "set n' = {e \<in> set n. fst e \<notin> set hs} \<and> set o'' = {e \<in> set o'. \<not> (fst e \<in> set hs \<and> fst e \<in> fst ` set n)}"
    using assms
  proof (induction hs n o' rule: drop_unchanged.induct)
    case (2 h hs n o')
    show ?case
    proof (cases "map_of n h = None")
      case True
      then have "h \<notin> fst ` set n" by (simp add: map_of_eq_None_iff)
      moreover have "drop_unchanged hs n o' = (n', o'')" "distinct hs" using "2.prems" True by simp_all
      ultimately show ?thesis using "2.IH"(2) True by (auto simp: image_iff)
    next
      case False
      then have "h \<in> fst ` set n" by (metis map_of_eq_None_iff)
      moreover have "drop_unchanged hs (AList.delete h n) (AList.delete h o') = (n', o'')" "distinct hs" "h \<notin> set hs"
        using "2.prems" False by simp_all
      ultimately show ?thesis using "2.IH"(1) False by (auto simp: set_alist_delete image_iff)
    qed
  qed simp
  then show "set n' = {e \<in> set n. fst e \<notin> set hs}" and "set o'' = {e \<in> set o'. \<not> (fst e \<in> set hs \<and> fst e \<in> fst ` set n)}" by simp_all
qed

definition op_meta :: "IndexOp \<Rightarrow> IndexMeta" where
  "op_meta op = (case op of OpInsert m \<Rightarrow> m | OpRemove m \<Rightarrow> m)"

lemma set_pairs: "set (concat (map (to_meta_hash_pairs L) mss)) = (\<lambda>m. (meta_hash L m, m)) ` set (concat mss)"
  by (auto simp: to_meta_hash_pairs_def)

lemma hash_in_iff: "inj_on h (A \<union> B) \<Longrightarrow> m \<in> A \<Longrightarrow> h m \<in> fst ` (\<lambda>m. (h m, m)) ` B \<longleftrightarrow> m \<in> B"
  by (auto simp: image_iff inj_on_def)

text \<open>Where no two entries share a hash, the requests are the differences of the two sets of entries.\<close>

lemma ensure_indices_ops_set:
  assumes "index_lib_ok L" and "inj_on (meta_hash L) (set (concat new) \<union> set (concat old))"
  shows "set (ensure_indices_ops L new (Some old)) =
    OpInsert ` (set (concat new) - set (concat old)) \<union> OpRemove ` (set (concat old) - set (concat new))"
proof -
  let ?N = "hash_collect (concat (map (to_meta_hash_pairs L) new))" and ?O = "hash_collect (concat (map (to_meta_hash_pairs L) old))"
  obtain n' o'' where d: "drop_unchanged (map fst ?O) ?N ?O = (n', o'')" by fastforce
  have collect: "set (hash_collect (concat (map (to_meta_hash_pairs L) mss))) = (\<lambda>m. (meta_hash L m, m)) ` set (concat mss)"
    if "inj_on (meta_hash L) (set (concat mss))" for mss
  proof
    let ?P = "concat (map (to_meta_hash_pairs L) mss)"
    show "set (hash_collect ?P) \<subseteq> (\<lambda>m. (meta_hash L m, m)) ` set (concat mss)" using hash_collect_subset [of ?P] by (simp only: set_pairs)
    show "(\<lambda>m. (meta_hash L m, m)) ` set (concat mss) \<subseteq> set (hash_collect ?P)"
    proof
      fix e assume "e \<in> (\<lambda>m. (meta_hash L m, m)) ` set (concat mss)"
      then obtain m where m: "m \<in> set (concat mss)" "e = (meta_hash L m, m)" by blast
      then have "meta_hash L m \<in> fst ` set (hash_collect ?P)" unfolding hash_collect_keys(2) set_pairs by force
      then obtain m' where m': "(meta_hash L m, m') \<in> set (hash_collect ?P)" by force
      then have "m' \<in> set (concat mss)" "meta_hash L m' = meta_hash L m" using hash_collect_subset [of ?P] unfolding set_pairs by auto
      then show "e \<in> set (hash_collect ?P)" using m m' that by (metis inj_onD)
    qed
  qed
  have N: "set ?N = (\<lambda>m. (meta_hash L m, m)) ` set (concat new)" and O: "set ?O = (\<lambda>m. (meta_hash L m, m)) ` set (concat old)"
    using assms(2) by (auto intro!: collect intro: inj_on_subset simp del: set_concat)
  have same: "meta_hash L m \<in> fst ` set ?O \<longleftrightarrow> m \<in> set (concat old)" if "m \<in> set (concat new)" for m
    unfolding O by (rule hash_in_iff [OF assms(2) that])
  have same': "meta_hash L m \<in> fst ` set ?N \<longleftrightarrow> m \<in> set (concat new)" if "m \<in> set (concat old)" for m
    unfolding N by (rule hash_in_iff [OF _ that]) (use assms(2) in \<open>simp only: Un_commute\<close>)
  have iter: "set (iter_map L xs) = set xs" for xs using assms(1) by (simp add: index_lib_ok_def)
  have "set n' = {e \<in> set ?N. fst e \<notin> fst ` set ?O}" "set o'' = {e \<in> set ?O. fst e \<notin> fst ` set ?N}"
    using drop_unchanged_sets [OF d hash_collect_keys(1)] unfolding set_map by blast+
  then have "snd ` set n' = set (concat new) - set (concat old)" "snd ` set o'' = set (concat old) - set (concat new)"
    using same same' unfolding N O by (force simp: image_iff)+
  moreover have "set (ensure_indices_ops L new (Some old)) = OpInsert ` snd ` set n' \<union> OpRemove ` snd ` set o''"
    by (simp add: ensure_indices_ops_def d iter image_image)
  ultimately show ?thesis by simp
qed
section \<open>Keys of cells\<close>

lemma from_props_slice:
  "length f = 8 \<Longrightarrow> key_slice (from_props i f fld s) = be_bytes 4 (unat s) @ be_bytes 4 (unat (ucast fld :: u32)) @ f @
     be_bytes 8 (unat (higher i)) @ be_bytes 8 (unat (lower i))"
  unfolding from_props_def by (rule from_slice_full) simp

lemma be_bytes_u64_eq: "be_bytes 8 (unat (a :: u64)) = be_bytes 8 (unat b) \<longleftrightarrow> a = b"
proof
  assume "be_bytes 8 (unat a) = be_bytes 8 (unat b)"
  then have "unat a mod 256 ^ 8 = unat b mod 256 ^ 8" by (metis be_nat_be_bytes)
  then show "a = b" using unat_less_pow [of a] unat_less_pow [of b] by (simp add: word_unat_eq_iff)
qed simp

lemma be_bytes_max: "be_bytes n (256 ^ n - 1) = replicate n 255"
proof (rule be_nat_inj)
  have "Suc (be_nat (replicate n 255)) = 256 ^ n" by (induction n) simp_all
  then show "be_nat (be_bytes n (256 ^ n - 1)) = be_nat (replicate n 255)" by (simp add: be_nat_be_bytes)
qed simp

text \<open>The identifier and the feature can be read off a key, so cells do not share keys.\<close>

lemma from_props_parts:
  assumes "from_props i f fld s = from_props j g fld' s'" and "length f = 8" and "length g = 8"
  shows "f = g" and "i = j"
proof -
  have e: "key_slice (from_props i f fld s) = key_slice (from_props j g fld' s')" using assms(1) by simp
  note parts = e [unfolded from_props_slice [OF assms(2)] from_props_slice [OF assms(3)]]
  have "f @ be_bytes 8 (unat (higher i)) @ be_bytes 8 (unat (lower i)) = g @ be_bytes 8 (unat (higher j)) @ be_bytes 8 (unat (lower j))"
    using arg_cong [OF parts, of "drop 8"] by simp
  then have "f = g \<and> be_bytes 8 (unat (higher i)) = be_bytes 8 (unat (higher j)) \<and> be_bytes 8 (unat (lower i)) = be_bytes 8 (unat (lower j))"
    using assms(2,3) by simp
  then show "f = g" and "i = j" by (simp_all add: be_bytes_u64_eq)
qed

lemma from_props_less_top:
  assumes "length f = 8" and "i \<noteq> \<lparr>higher = - 1, lower = - 1\<rparr>"
  shows "from_props i f fld s < top"
proof -
  have top: "from_props \<lparr>higher = - 1, lower = - 1\<rparr> (replicate 8 255) (- 1) (- 1) = top"
  proof (rule iffD1 [OF key_slice_inject])
    have u: "unat (- 1 :: u32) = 256 ^ 4 - 1" "unat (- 1 :: u64) = 256 ^ 8 - 1"
      by (simp_all add: unsigned_minus_1_eq_mask mask_eq_exp_minus_1)
    have f: "(ucast (- 1 :: u64) :: u32) = - 1" by (rule bit_word_eqI) (simp add: bit_ucast_iff)
    show "key_slice (from_props \<lparr>higher = - 1, lower = - 1\<rparr> (replicate 8 255) (- 1) (- 1)) = key_slice top"
      unfolding top_EntryKey.rep_eq 
      by (subst from_props_slice) (simp_all only: Id.select_convs f u be_bytes_max replicate_add [symmetric] length_replicate KEY_SIZE_32, simp)
  qed
  have "from_props i f fld s \<noteq> top" unfolding top [symmetric] using from_props_parts(2) assms by (metis length_replicate)
  then show ?thesis using top_greatest by (simp add: order_less_le)
qed

definition only_ranged :: "Schema \<Rightarrow> bool" where
  "only_ranged sch \<longleftrightarrow> (\<forall>f idx. index_fields sch f = Some idx \<longrightarrow> set idx \<subseteq> {Ranged, Statistics})"

definition cell_keys :: "'p IndexLib \<Rightarrow> 'p OwnedCell \<Rightarrow> Schema \<Rightarrow> EntryKey set" where
  "cell_keys L cell sch = {k. IM_Ranged k \<in> set (concat (probe_cell_indices L cell sch))}"

lemma index_comps_ranged:
  assumes "index_lib_ok L" and "set idx \<subseteq> {Ranged, Statistics}" and "c \<in> set (index_comps L v idx)"
  shows "\<exists>f. c = IC_Ranged f \<and> length f = 8"
  using assms by (auto simp: index_comps_def array_comps_def scalar_comps_def index_lib_ok_def split: option.splits IndexType.splits)

lemma probe_ranged:
  assumes "index_lib_ok L" and "only_ranged sch" and "m \<in> set (concat (probe_cell_indices L cell sch))"
  shows "\<exists>f fld. m = IM_Ranged (from_props (header_id (header cell)) f fld (schema_id sch)) \<and> length f = 8 \<and> f \<noteq> UNSETTLED"
proof -
  obtain fld idx path c where c: "(fld, idx) \<in> set (iter_fields L (index_fields sch))"
      "c \<in> set (index_comps L (get_in_by_ids L (data cell) path) idx)" "comp_meta L (header cell) (schema_id sch) fld c = Some m"
    using assms(3) by (auto simp: probe_cell_indices_def List.map_filter_def split: option.splits)
  have "index_fields sch fld = Some idx" using c(1) assms(1) unfolding index_lib_ok_def by fast
  then have "set idx \<subseteq> {Ranged, Statistics}" using assms(2) by (simp add: only_ranged_def)
  then obtain f where "c = IC_Ranged f" "length f = 8" using index_comps_ranged [OF assms(1) _ c(2)] by blast
  then show ?thesis using c(3) by (auto simp: comp_meta_def split: if_splits)
qed

lemma cell_keys_metas:
  assumes "index_lib_ok L" and "only_ranged sch"
  shows "set (concat (probe_cell_indices L cell sch)) = IM_Ranged ` cell_keys L cell sch"
  using probe_ranged [OF assms, of _ cell] by (fastforce simp: cell_keys_def simp del: set_concat)

lemma cell_keys_below:
  assumes "index_lib_ok L" and "only_ranged sch" and "header_id (header cell) \<noteq> \<lparr>higher = - 1, lower = - 1\<rparr>" and "k \<in> cell_keys L cell sch"
  shows "k < top"
  using probe_ranged [OF assms(1,2), of "IM_Ranged k" cell] assms(3,4) by (auto simp: cell_keys_def from_props_less_top simp del: set_concat)

lemma scannable_key_below: "header_id (header cell) \<noteq> \<lparr>higher = - 1, lower = - 1\<rparr> \<Longrightarrow> scannable_key cell < top"
  by (simp add: scannable_key_def for_scannable_def from_props_less_top)

lemma scannable_key_apart:
  assumes "index_lib_ok L" and "only_ranged sch"
  shows "scannable_key c \<notin> cell_keys L cell sch"
proof
  assume "scannable_key c \<in> cell_keys L cell sch"
  then obtain f fld where f: "scannable_key c = from_props (header_id (header cell)) f fld (schema_id sch)" "length f = 8" "f \<noteq> UNSETTLED"
    using probe_ranged [OF assms, of "IM_Ranged (scannable_key c)" cell] by (auto simp: cell_keys_def simp del: set_concat)
  have "from_props (header_id (header c)) (replicate 8 0) 0 (schema (header c)) = from_props (header_id (header cell)) f fld (schema_id sch)"
    using f(1) by (simp add: scannable_key_def for_scannable_def)
  then have "replicate 8 0 = f" by (rule from_props_parts(1)) (use f(2) in simp_all)
  then show False using f(3) by (simp add: UNSETTLED_def)
qed

section \<open>Interleaved tasks\<close>

definition task_inserts :: "IndexOp list list \<Rightarrow> EntryKey set" where
  "task_inserts ts = {k. OpInsert (IM_Ranged k) \<in> set (concat ts)}"

definition task_removes :: "IndexOp list list \<Rightarrow> EntryKey set" where
  "task_removes ts = {k. OpRemove (IM_Ranged k) \<in> set (concat ts)}"

definition ops_ok :: "IndexOp list list \<Rightarrow> bool" where
  "ops_ok ts \<longleftrightarrow> (\<forall>op \<in> set (concat ts). \<exists>k. k < top \<and> op_meta op = IM_Ranged k)"

lemma set_concat_pop:
  assumes "i < length ts" and "ts ! i = op # ops"
  shows "set (concat ts) = insert op (set (concat (ts[i := ops])))"
proof -
  have "ts = take i ts @ (op # ops) # drop (Suc i) ts" using id_take_nth_drop [OF assms(1)] assms(2) by simp
  moreover have "ts[i := ops] = take i ts @ ops # drop (Suc i) ts" using assms(1) by (rule upd_conv_take_nth_drop)
  ultimately show ?thesis by (metis (no_types, lifting) concat.simps(2) concat_append list.set(2) set_append Un_insert_left Un_insert_right append_Cons)
qed

text \<open>Each turn of a task that has not ended brings all tasks nearer to their end.\<close>

lemma turn_progress:
  assumes "i < length ts" and "ts ! i \<noteq> []" and "task_turn insk delk i (ts, s) = (ts', s')"
  shows "length (concat ts') < length (concat ts)" and "length ts' = length ts"
proof -
  obtain op ops where o: "ts ! i = op # ops" using assms(2) by (cases "ts ! i") auto
  have len: "length (concat (ts[i := r])) < length (concat ts)" if "length r \<le> length ops" for r
  proof -
    have "ts = take i ts @ (op # ops) # drop (Suc i) ts" using id_take_nth_drop [OF assms(1)] o by simp
    then have "length (concat ts) = length (concat (take i ts)) + Suc (length ops) + length (concat (drop (Suc i) ts))"
      by (metis (no_types, lifting) concat.simps(2) concat_append length_append length_Cons add.assoc)
    moreover have "length (concat (ts[i := r])) = length (concat (take i ts)) + length r + length (concat (drop (Suc i) ts))"
      unfolding upd_conv_take_nth_drop [OF assms(1)] by (simp add: length_concat)
    ultimately show ?thesis using that by simp
  qed
  obtain r where "ts' = ts[i := r]" "length r \<le> length ops"
    using assms(1,3) o by (auto simp: task_turn_def split: option.splits sum.splits)
  then show "length (concat ts') < length (concat ts)" and "length ts' = length ts" using len by simp_all
qed

lemma tasks_can_end: "\<exists>turns. all_ended (fst (await_indices insk delk turns (ts, s)))"
proof (induction "length (concat ts)" arbitrary: ts s rule: less_induct)
  case less
  show ?case
  proof (cases "all_ended ts")
    case True
    then show ?thesis by (intro exI [of _ "[]"]) (simp add: await_indices_def)
  next
    case False
    then obtain i where i: "i < length ts" "ts ! i \<noteq> []" by (auto simp: all_ended_def in_set_conv_nth)
    obtain ts' s' where t: "task_turn insk delk i (ts, s) = (ts', s')" by fastforce
    obtain turns where "all_ended (fst (await_indices insk delk turns (ts', s')))" using less turn_progress(1) [OF i t] by blast
    then show ?thesis using t by (intro exI [of _ "i # turns"]) (simp add: await_indices_def)
  qed
qed
text \<open>Any interleaving of tasks over an index adds the keys to insert and marks the keys to remove.\<close>

locale entry_index = marked_index ins del inv keys marks
  for ins :: "EntryKey \<Rightarrow> 's \<Rightarrow> (('e + bool) \<times> 's) option" and del inv keys marks
begin

definition task_inv :: "EntryKey set \<Rightarrow> EntryKey set \<Rightarrow> IndexOp list list \<times> 's \<Rightarrow> bool" where
  "task_inv K M c \<longleftrightarrow> (case c of (ts, s) \<Rightarrow> inv s \<and> ops_ok ts \<and> task_removes ts \<subseteq> keys s \<and>
     keys s \<union> task_inserts ts = K \<and> marks s \<union> task_removes ts = M)"

lemma turn_cases:
  assumes "inv s" and "ops_ok ts"
  obtains (idle) "task_turn ins del i (ts, s) = (ts, s)"
  | (insertion) k ts1 s1 where "task_turn ins del i (ts, s) = (ts1, s1)" and "inv s1" and "ops_ok ts1"
      and "keys s1 = insert k (keys s)" and "marks s1 = marks s"
      and "task_inserts ts = insert k (task_inserts ts1)" and "task_removes ts1 = task_removes ts"
  | (removal) k ts1 s1 where "task_turn ins del i (ts, s) = (ts1, s1)" and "inv s1" and "ops_ok ts1"
      and "keys s1 = keys s" and "marks s1 = marks s \<union> ({k} \<inter> keys s)"
      and "task_inserts ts1 = task_inserts ts" and "task_removes ts = insert k (task_removes ts1)"
proof (cases "i < length ts \<and> ts ! i \<noteq> []")
  case True
  then obtain op ops where o: "i < length ts" "ts ! i = op # ops" by (cases "ts ! i") auto
  note pop = set_concat_pop [OF o]
  have ok: "ops_ok (ts[i := ops])" using assms(2) by (simp add: ops_ok_def pop del: set_concat)
  obtain k where k: "k < top" "op_meta op = IM_Ranged k" using assms(2) by (auto simp: ops_ok_def pop simp del: set_concat)
  then consider "op = OpInsert (IM_Ranged k)" | "op = OpRemove (IM_Ranged k)" by (auto simp: op_meta_def split: IndexOp.splits)
  then show thesis
  proof cases
    case 1
    obtain b s' where s': "ins k s = Some (Inr b, s')" "inv s'" "keys s' = insert k (keys s)" "marks s' = marks s"
      using ins_adds assms(1) k(1) by blast
    have "task_turn ins del i (ts, s) = (ts[i := ops], s')" using s'(1) o by (simp add: task_turn_def run_index_op_def 1)
    moreover have "task_inserts ts = insert k (task_inserts (ts[i := ops]))" "task_removes (ts[i := ops]) = task_removes ts"
      by (auto simp: task_inserts_def task_removes_def pop 1 simp del: set_concat)
    ultimately show thesis using s' ok by (rule_tac insertion)
  next
    case 2
    obtain b s' where s': "del k s = Some (Inr b, s')" "inv s'" "keys s' = keys s" "marks s' = marks s \<union> ({k} \<inter> keys s)"
      using del_marks assms(1) k(1) by blast
    have "task_turn ins del i (ts, s) = (ts[i := ops], s')" using s'(1) o by (simp add: task_turn_def run_index_op_def 2)
    moreover have "task_inserts (ts[i := ops]) = task_inserts ts" "task_removes ts = insert k (task_removes (ts[i := ops]))"
      by (auto simp: task_inserts_def task_removes_def pop 2 simp del: set_concat)
    ultimately show thesis using s' ok by (rule_tac removal)
  qed
next
  case False
  then have "task_turn ins del i (ts, s) = (ts, s)" by (cases "i < length ts") (simp_all add: task_turn_def)
  then show thesis by (rule idle)
qed

lemma turn_inv:
  assumes "task_inv K M (ts, s)"
  shows "task_inv K M (task_turn ins del i (ts, s))"
proof -
  have I: "inv s" "ops_ok ts" using assms by (simp_all add: task_inv_def)
  show ?thesis using I by (cases rule: turn_cases [where i = i]) (use assms in \<open>auto simp: task_inv_def\<close>)
qed

lemma await_inv: "task_inv K M c \<Longrightarrow> task_inv K M (await_indices ins del turns c)"
proof (induction turns arbitrary: c)
  case (Cons i turns)
  then have "task_inv K M (task_turn ins del i c)" using turn_inv [of K M "fst c" "snd c" i] by simp
  then show ?case using Cons.IH [of "task_turn ins del i c"] by (simp add: await_indices_def)
qed (simp add: await_indices_def)

lemma tasks_result:
  assumes "inv s" and "ops_ok ts" and "task_removes ts \<subseteq> keys s" and "await_indices ins del turns (ts, s) = (ts', s')" and "all_ended ts'"
  shows "inv s'" and "keys s' = keys s \<union> task_inserts ts" and "marks s' = marks s \<union> task_removes ts"
proof -
  have "task_inv (keys s \<union> task_inserts ts) (marks s \<union> task_removes ts) (ts, s)" using assms(1-3) by (simp add: task_inv_def)
  then have "task_inv (keys s \<union> task_inserts ts) (marks s \<union> task_removes ts) (ts', s')" using await_inv assms(4) by metis
  moreover have "concat ts' = []" using assms(5) by (simp add: all_ended_def)
  then have "task_inserts ts' = {}" "task_removes ts' = {}" by (simp_all only: task_inserts_def task_removes_def list.set empty_iff Collect_empty_eq simp_thms)
  ultimately show "inv s'" and "keys s' = keys s \<union> task_inserts ts" and "marks s' = marks s \<union> task_removes ts" by (simp_all add: task_inv_def)
qed

text \<open>Whatever the tasks are, no mark goes away.\<close>

lemma marks_stay: "inv s \<Longrightarrow> ops_ok ts \<Longrightarrow> await_indices ins del turns (ts, s) = (ts', s') \<Longrightarrow> inv s' \<and> ops_ok ts' \<and> marks s \<subseteq> marks s'"
proof (induction turns arbitrary: ts s)
  case (Cons i turns)
  obtain ts1 s1 where t: "task_turn ins del i (ts, s) = (ts1, s1)" by fastforce
  have "inv s1 \<and> ops_ok ts1 \<and> marks s \<subseteq> marks s1"
    using Cons.prems(1,2) by (cases rule: turn_cases [where i = i]) (use t Cons.prems in auto)
  then show ?case using Cons.IH [of s1 ts1] Cons.prems(3) t by (auto simp: await_indices_def)
qed (simp add: await_indices_def)

end

interpretation entries: entry_index "index_insert sleep" "index_delete sleep" index_ok "\<lambda>s. world_keys (fst s)" "\<lambda>s. world_marks (fst s)" ..
section \<open>Requests of chunks\<close>

definition old_keys :: "'p IndexLib \<Rightarrow> 'p OwnedCell option \<Rightarrow> Schema \<Rightarrow> EntryKey set" where
  "old_keys L old sch = (case old of None \<Rightarrow> {} | Some c \<Rightarrow> cell_keys L c sch)"

definition scan_keys :: "'p OwnedCell \<Rightarrow> Schema \<Rightarrow> EntryKey set" where
  "scan_keys cell sch = (if is_scannable sch then {scannable_key cell} else {})"

text \<open>The library, the schema and the identifiers a request of a chunk comes with.\<close>

definition request_ok :: "'p IndexLib \<Rightarrow> 'p OwnedCell \<Rightarrow> Schema \<Rightarrow> 'p OwnedCell option \<Rightarrow> bool" where
  "request_ok L cell sch old \<longleftrightarrow> index_lib_ok L \<and> only_ranged sch \<and> header_id (header cell) \<noteq> \<lparr>higher = - 1, lower = - 1\<rparr> \<and>
     (\<forall>c. old = Some c \<longrightarrow> header_id (header c) = header_id (header cell)) \<and>
     inj_on (meta_hash L) (IM_Ranged ` (cell_keys L cell sch \<union> old_keys L old sch))"

lemma ensure_ops_ranged:
  assumes "request_ok L cell sch old"
  shows "set (ensure_indices_ops L (probe_cell_indices L cell sch) (map_option (\<lambda>c. probe_cell_indices L c sch) old)) =
    (OpInsert \<circ> IM_Ranged) ` (cell_keys L cell sch - old_keys L old sch) \<union> (OpRemove \<circ> IM_Ranged) ` (old_keys L old sch - cell_keys L cell sch)"
proof -
  have L: "index_lib_ok L" "only_ranged sch" using assms by (simp_all add: request_ok_def)
  let ?o = "case old of None \<Rightarrow> [] | Some c \<Rightarrow> probe_cell_indices L c sch"
  have o: "set (concat ?o) = IM_Ranged ` old_keys L old sch"
    using cell_keys_metas [OF L] by (cases old) (simp_all add: old_keys_def del: set_concat)
  have "ensure_indices_ops L (probe_cell_indices L cell sch) (map_option (\<lambda>c. probe_cell_indices L c sch) old) =
      ensure_indices_ops L (probe_cell_indices L cell sch) (Some ?o)" by (cases old) (simp_all add: ensure_indices_ops_def)
  moreover have "inj_on (meta_hash L) (set (concat (probe_cell_indices L cell sch)) \<union> set (concat ?o))"
    using assms by (simp add: o cell_keys_metas [OF L] request_ok_def image_Un del: set_concat)
  moreover have "IM_Ranged ` A - IM_Ranged ` B = IM_Ranged ` (A - B)" for A B by (rule image_set_diff [symmetric]) (simp add: inj_def)
  ultimately show ?thesis
    by (simp only: ensure_indices_ops_set [OF L(1)] o cell_keys_metas [OF L] image_comp)
qed

lemma ensure_tasks:
  assumes "request_ok L cell sch old"
  shows "ops_ok (request_tasks L (EnsureIndices cell sch old))"
    and "task_inserts (request_tasks L (EnsureIndices cell sch old)) = scan_keys cell sch \<union> (cell_keys L cell sch - old_keys L old sch)"
    and "task_removes (request_tasks L (EnsureIndices cell sch old)) = old_keys L old sch - cell_keys L cell sch"
proof -
  have L: "index_lib_ok L" "only_ranged sch" "header_id (header cell) \<noteq> \<lparr>higher = - 1, lower = - 1\<rparr>"
    using assms by (simp_all add: request_ok_def)
  have old: "k < top" if k: "k \<in> old_keys L old sch" for k
  proof (cases old)
    case (Some c)
    show ?thesis by (rule cell_keys_below [OF L(1,2), of c]) (use k assms Some in \<open>simp_all add: old_keys_def request_ok_def\<close>)
  qed (use k in \<open>simp add: old_keys_def\<close>)
  have ops: "set (concat (request_tasks L (EnsureIndices cell sch old))) = (OpInsert \<circ> IM_Ranged) ` scan_keys cell sch \<union>
      ((OpInsert \<circ> IM_Ranged) ` (cell_keys L cell sch - old_keys L old sch) \<union> (OpRemove \<circ> IM_Ranged) ` (old_keys L old sch - cell_keys L cell sch))"
    unfolding ensure_ops_ranged [OF assms, symmetric] by (simp add: request_tasks_def ensure_indices_def scan_keys_def)
  have scan: "k < top" if "k \<in> scan_keys cell sch" for k
    using that scannable_key_below [OF L(3)] by (auto simp: scan_keys_def split: if_splits)
  show "ops_ok (request_tasks L (EnsureIndices cell sch old))"
    unfolding ops_ok_def ops using scan old cell_keys_below [OF L] by (auto simp: op_meta_def)
  show "task_inserts (request_tasks L (EnsureIndices cell sch old)) = scan_keys cell sch \<union> (cell_keys L cell sch - old_keys L old sch)"
    unfolding task_inserts_def ops by auto
  show "task_removes (request_tasks L (EnsureIndices cell sch old)) = old_keys L old sch - cell_keys L cell sch"
    unfolding task_removes_def ops by auto
qed

lemma remove_tasks:
  assumes "request_ok L cell sch None"
  shows "ops_ok (request_tasks L (RemoveIndices cell sch))"
    and "task_inserts (request_tasks L (RemoveIndices cell sch)) = {}"
    and "task_removes (request_tasks L (RemoveIndices cell sch)) = scan_keys cell sch \<union> cell_keys L cell sch"
proof -
  have L: "index_lib_ok L" "only_ranged sch" "header_id (header cell) \<noteq> \<lparr>higher = - 1, lower = - 1\<rparr>"
    using assms by (simp_all add: request_ok_def)
  have ops: "set (concat (request_tasks L (RemoveIndices cell sch))) = (OpRemove \<circ> IM_Ranged) ` (scan_keys cell sch \<union> cell_keys L cell sch)"
    using cell_keys_metas [OF L(1,2), of cell]
    by (simp add: request_tasks_def remove_indices_def remove_indices_ops_def scan_keys_def image_Un image_comp [symmetric] del: set_concat) (auto simp: image_iff)
  have scan: "k < top" if "k \<in> scan_keys cell sch" for k
    using that scannable_key_below [OF L(3)] by (auto simp: scan_keys_def split: if_splits)
  show "ops_ok (request_tasks L (RemoveIndices cell sch))"
    unfolding ops_ok_def ops using scan cell_keys_below [OF L] by (auto simp: op_meta_def)
  show "task_inserts (request_tasks L (RemoveIndices cell sch)) = {}" unfolding task_inserts_def ops by auto
  show "task_removes (request_tasks L (RemoveIndices cell sch)) = scan_keys cell sch \<union> cell_keys L cell sch"
    unfolding task_removes_def ops by auto
qed

section \<open>Properties\<close>


text \<open>A small library and schema with one indexed number.\<close>

definition index_lib_example :: "unit IndexLib" where
  "index_lib_example =
     \<lparr>get_in_by_ids = (\<lambda>v _. v), prim_array_data_size = (\<lambda>_. None), features = (\<lambda>_. []), hashes = (\<lambda>_. []),
      feature_of = (\<lambda>v. case v of VU32 n \<Rightarrow> be_bytes 8 (unat n) | _ \<Rightarrow> UNSETTLED), hash_of = (\<lambda>_. UNSETTLED), base_size = (\<lambda>_. 4),
      id_from_obj = (\<lambda>_. \<lparr>higher = 0, lower = 0\<rparr>),
      meta_hash = (\<lambda>m. case m of IM_Ranged k \<Rightarrow> of_nat (be_nat (take 8 (drop 8 (key_slice k)))) | _ \<Rightarrow> 0),
      iter_fields = (\<lambda>m. case m 1 of Some idx \<Rightarrow> [(1, idx)] | None \<Rightarrow> []), iter_map = (\<lambda>xs. xs)\<rparr>"

definition index_schema_example :: Schema where
  "index_schema_example =
     \<lparr>schema_id = 5, schema_name = ''numbers'', key_field = None, str_key_field = None, field_index = [1 \<mapsto> [0]], id_index = [1 \<mapsto> [1]],
      index_fields = [1 \<mapsto> [Ranged]], schema_fields = Field TU32 False False None ''n'' 1 [Ranged] (Some 0), static_bound = 4,
      is_dynamic = False, is_scannable = True\<rparr>"

definition number_cell :: "u64 \<Rightarrow> u32 \<Rightarrow> unit OwnedCell" where
  "number_cell v n = \<lparr>header = \<lparr>version = v, timestamp = 0, schema = 5, partition = 1, hash = 2\<rparr>, data = VU32 n\<rparr>"

abbreviation number_key :: "u32 \<Rightarrow> EntryKey" where
  "number_key n \<equiv> from_props \<lparr>higher = 1, lower = 2\<rparr> (be_bytes 8 (unat n)) 1 5"

lemma number_cell_keys: "n \<noteq> 0 \<Longrightarrow> cell_keys index_lib_example (number_cell v n) index_schema_example = {number_key n}"
proof -
  assume n: "n \<noteq> 0"
  have z: "be_nat (replicate k 0) = 0" for k by (induction k) simp_all
  have lt: "unat n < 256 ^ 8" by (rule less_trans [OF unat_u32_less]) simp
  have "be_bytes 8 (unat n) \<noteq> UNSETTLED"
  proof
    assume "be_bytes 8 (unat n) = UNSETTLED"
    then have "unat n mod 256 ^ 8 = 0" by (metis UNSETTLED_def be_nat_be_bytes z)
    then show False using n lt by (simp add: unat_eq_zero)
  qed
  then show ?thesis
    by (auto simp: cell_keys_def probe_cell_indices_def index_lib_example_def index_schema_example_def number_cell_def index_comps_def
        scalar_comps_def comp_meta_def List.map_filter_def header_id_def)
qed

lemma number_request_ok:
  assumes "n \<noteq> 0" and "m \<noteq> 0"
  shows "request_ok index_lib_example (number_cell v n) index_schema_example (Some (number_cell u m))"
proof -
  have "index_lib_ok index_lib_example"
    by (auto simp: index_lib_ok_def index_lib_example_def UNSETTLED_def split: Value.splits option.splits)
  moreover have "only_ranged index_schema_example" by (simp add: only_ranged_def index_schema_example_def)
  moreover have "inj_on (meta_hash index_lib_example) (IM_Ranged ` ({number_key n} \<union> {number_key m}))"
  proof -
    have b: "unat (x :: u32) < 18446744073709551616" for x by (rule less_trans [OF unat_u32_less]) simp
    have "meta_hash index_lib_example (IM_Ranged (number_key x)) = ucast x" for x
      using b [of x] by (simp add: index_lib_example_def from_props_slice be_nat_be_bytes)
    moreover have "unat (ucast x :: u64) = unat x" for x :: u32 by (simp add: unsigned_ucast_eq take_bit_nat_eq_self b)
    then have "x = y" if "(ucast x :: u64) = ucast y" for x y :: u32 using that by (metis unsigned_word_eqI)
    ultimately show ?thesis unfolding inj_on_def by fastforce
  qed
  moreover have "header_id (header (number_cell v n)) = \<lparr>higher = 1, lower = 2\<rparr>" for v n by (simp add: number_cell_def header_id_def)
  moreover have "\<lparr>higher = 1, lower = 2\<rparr> \<noteq> (\<lparr>higher = - 1, lower = - 1\<rparr> :: Id)" by simp
  ultimately show ?thesis
    unfolding request_ok_def old_keys_def option.case number_cell_keys [OF assms(1)] number_cell_keys [OF assms(2)] by simp
qed

lemma number_world: "\<exists>w cl. index_ok (w, cl) \<and> world_keys w = {number_key 7} \<and> world_marks w = {}"
proof -
  let ?i = "\<lparr>higher = 0, lower = 1\<rparr> :: Id"
  have bt: "(bot :: EntryKey) < top" 
    by (rule le_less_trans [OF bot_least from_props_less_top [of "replicate 8 0" "\<lparr>higher = 0, lower = 0\<rparr>" 0 0]]) simp_all
  have k7: "number_key 7 < top" by (rule from_props_less_top) simp_all
  have "index_ok (genesis_world ?i :: EntryKey world, RangedQueryClient_new)"
    using genesis_world_ok(1) [OF bt] by (simp add: index_ok_def cache_ok_def RangedQueryClient_new_def)
  then obtain w cl where "index_ok (w, cl)" "world_keys w = {number_key 7}" "world_marks w = {}"
    using index_insert_adds [of "genesis_world ?i" RangedQueryClient_new "number_key 7" id] k7 genesis_world_empty [OF bt, of ?i] by auto
  then show ?thesis by blast
qed

lemma number_keys_differ: "number_key 7 \<noteq> number_key 9"
proof -
  have "be_bytes 8 7 \<noteq> be_bytes 8 9" using be_nat_be_bytes [of 8 7] be_nat_be_bytes [of 8 9] by auto
  then show ?thesis using from_props_parts(1) [of _ "be_bytes 8 7" 1 5 _ "be_bytes 8 9" 1 5] by auto
qed


text \<open>An update that takes a key from a cell and a later one that gives it back, as a field that changes and
  changes back, leave the key hidden in the ranged index: the insertion does not take the deletion mark
  back, so the index no longer leads to the cell.\<close>

theorem restored_value_not_indexed:
  assumes "request_ok L cell sch (Some old)" and "request_ok L back sch (Some cell)" and "index_ok (w, cl)"
    and "cell_keys L old sch \<subseteq> world_keys w" and "k \<in> cell_keys L old sch" and "k \<notin> cell_keys L cell sch" and "k \<in> cell_keys L back sch"
    and "await_indices (index_insert sleep) (index_delete sleep) turns (request_tasks L (EnsureIndices cell sch (Some old)), w, cl) = (ts, w', cl')"
    and "all_ended ts"
    and "await_indices (index_insert sleep) (index_delete sleep) turns' (request_tasks L (EnsureIndices back sch (Some cell)), w', cl') = (ts', w'', cl'')"
  shows "k \<notin> world_keys w'' - world_marks w''"
proof -
  note T = ensure_tasks [OF assms(1)]
  have rem: "task_removes (request_tasks L (EnsureIndices cell sch (Some old))) \<subseteq> world_keys (fst (w, cl))"
    unfolding T(3) using assms(4) by (auto simp: old_keys_def)
  note R = entries.tasks_result [OF assms(3) T(1) rem assms(8,9), unfolded T(2,3) fst_conv]
  have "k \<in> world_marks w'" using R(3) assms(5,6) by (simp add: old_keys_def)
  moreover have "world_marks w' \<subseteq> world_marks w''"
    using entries.marks_stay [OF R(1) ensure_tasks(1) [OF assms(2)] assms(10)] by simp
  ultimately show ?thesis by blast
qed

theorem restored_value_not_indexed_witness:
  "\<exists>w cl turns ts w' cl' turns' ts' w'' cl''. number_key 7 \<in> world_keys w - world_marks w \<and>
     await_indices (index_insert id) (index_delete id) turns
       (request_tasks index_lib_example (EnsureIndices (number_cell 2 9) index_schema_example (Some (number_cell 1 7))), w, cl) = (ts, w', cl') \<and>
     await_indices (index_insert id) (index_delete id) turns'
       (request_tasks index_lib_example (EnsureIndices (number_cell 3 7) index_schema_example (Some (number_cell 2 9))), w', cl') = (ts', w'', cl'') \<and>
     all_ended ts' \<and> number_key 7 \<notin> world_keys w'' - world_marks w''"
proof -
  let ?L = index_lib_example and ?S = index_schema_example
  let ?r1 = "request_tasks ?L (EnsureIndices (number_cell 2 9) ?S (Some (number_cell 1 7)))"
  let ?r2 = "request_tasks ?L (EnsureIndices (number_cell 3 7) ?S (Some (number_cell 2 9)))"
  let ?run = "await_indices (index_insert id) (index_delete id)"
  obtain w cl where w: "index_ok (w, cl)" "world_keys w = {number_key 7}" "world_marks w = {}" using number_world by blast
  obtain turns where t1: "all_ended (fst (?run turns (?r1, w, cl)))"
    using tasks_can_end [of "index_insert id" "index_delete id" ?r1 "(w, cl)"] by blast
  obtain ts w' cl' where r1: "?run turns (?r1, w, cl) = (ts, w', cl')" by (metis prod_cases3)
  obtain turns' where t2: "all_ended (fst (?run turns' (?r2, w', cl')))"
    using tasks_can_end [of "index_insert id" "index_delete id" ?r2 "(w', cl')"] by blast
  obtain ts' w'' cl'' where r2: "?run turns' (?r2, w', cl') = (ts', w'', cl'')" by (metis prod_cases3)
  have keys: "cell_keys ?L (number_cell v 7) ?S = {number_key 7}" "cell_keys ?L (number_cell v 9) ?S = {number_key 9}" for v
    by (rule number_cell_keys, simp)+
  have "number_key 7 \<notin> world_keys w'' - world_marks w''"
    by (rule restored_value_not_indexed [OF number_request_ok number_request_ok w(1) _ _ _ _ r1 _ r2])
      (use w t1 r1 number_keys_differ in \<open>simp_all add: keys\<close>)
  then show ?thesis using w r1 r2 t2 by (intro exI [of _ w] exI [of _ cl] exI [of _ turns] exI [of _ ts] exI [of _ w'] exI [of _ cl']
        exI [of _ turns'] exI [of _ ts'] exI [of _ w''] exI [of _ cl'']) simp
qed

end
