(* ===== verification/Neb_Server.thy ===== *)
theory Neb_Server
  imports Neb_Store Neb_Index_Builder
begin

text \<open>
  The cell service of a server, \<^verbatim>\<open>server/cell_rpc.rs\<close>, and the cell requests of the client library,
  \<^verbatim>\<open>client/mod.rs\<close>. A service request runs on the chunks of its server and then waits for the tasks its index
  requests spawned. The client finds the server of an identifier by consistent hashing. What comes from the
  bifrost and value libraries is a record: the place of a partition, whether a server can be reached and
  answers, the unit identifier, and how an iterator drops equal neighbours and groups.
\<close>

section \<open>The cell service\<close>

record 'p Server =
  sv_chunks :: "'p Chunks"
  sv_indexer :: bool
  sv_index :: "EntryKey world \<times> EntryKey RangedQueryClient"

text \<open>What a service takes beside its state: the environment of the chunks, their cleaner, the library of the
  index builder, what others do while the index client sleeps, and the turns the tasks take.\<close>

record 'p Runtime =
  rt_env :: "'p Env"
  rt_clean :: "'p cleaner"
  rt_lib :: "'p IndexLib"
  rt_sleep :: "EntryKey world \<Rightarrow> EntryKey world"
  rt_turns :: "nat list"

text \<open>The index requests the chunks made since the last wait.\<close>

definition take_requests :: "'p Chunks \<Rightarrow> 'p IndexReq list \<times> 'p Chunks" where
  "take_requests chs =
     (concat (map (\<lambda>ch. case index_builder ch of None \<Rightarrow> [] | Some rs \<Rightarrow> rs) chs),
      map (\<lambda>ch. ch\<lparr>index_builder := map_option (\<lambda>_. []) (index_builder ch)\<rparr>) chs)"

text \<open>\<^verbatim>\<open>with_indices_ensured\<close>: the tasks are awaited and what they returned is dropped.\<close>

definition with_indices_ensured :: "'p Runtime \<Rightarrow> 'r \<Rightarrow> 'p Server \<Rightarrow> ('r \<times> 'p Server) option" where
  "with_indices_ensured rt res sv =
     (if sv_indexer sv
      then (let (reqs, chs) = take_requests (sv_chunks sv);
                (ts, idx) = await_indices (index_insert (rt_sleep rt)) (index_delete (rt_sleep rt)) (rt_turns rt)
                              (concat (map (request_tasks (rt_lib rt)) reqs), sv_index sv)
            in if all_ended ts then Some (res, sv\<lparr>sv_chunks := chs, sv_index := idx\<rparr>) else None)
      else Some (res, sv))"

definition rpc_read_cell :: "'p Runtime \<Rightarrow> Id \<Rightarrow> 'p Server \<Rightarrow> (ReadError + 'p OwnedCell) option" where
  "rpc_read_cell rt key sv = Chunks_read_cell (rt_env rt) (sv_chunks sv) key"

definition rpc_read_all_cells :: "'p Runtime \<Rightarrow> Id list \<Rightarrow> 'p Server \<Rightarrow> (ReadError + 'p OwnedCell) list option" where
  "rpc_read_all_cells rt keys sv = those (map (\<lambda>i. Chunks_read_cell (rt_env rt) (sv_chunks sv) i) keys)"

definition rpc_write_cell :: "'p Runtime \<Rightarrow> 'p OwnedCell \<Rightarrow> 'p Server \<Rightarrow> (('p WriteError + CellHeader) \<times> 'p Server) option" where
  "rpc_write_cell rt cell sv =
     (case Chunks_write_cell (rt_env rt) (rt_clean rt) cell (sv_chunks sv) of
        None \<Rightarrow> None
      | Some ((r, _), chs) \<Rightarrow> with_indices_ensured rt r (sv\<lparr>sv_chunks := chs\<rparr>))"

definition rpc_update_cell :: "'p Runtime \<Rightarrow> 'p OwnedCell \<Rightarrow> 'p Server \<Rightarrow> (('p WriteError + CellHeader) \<times> 'p Server) option" where
  "rpc_update_cell rt cell sv =
     (case Chunks_update_cell (rt_env rt) (rt_clean rt) cell (sv_chunks sv) of
        None \<Rightarrow> None
      | Some ((r, _), chs) \<Rightarrow> with_indices_ensured rt r (sv\<lparr>sv_chunks := chs\<rparr>))"

definition rpc_remove_cell :: "'p Runtime \<Rightarrow> Id \<Rightarrow> 'p Server \<Rightarrow> (('p WriteError + unit) \<times> 'p Server) option" where
  "rpc_remove_cell rt key sv =
     (case Chunks_remove_cell (rt_env rt) (rt_clean rt) key (sv_chunks sv) of
        None \<Rightarrow> None
      | Some (r, chs) \<Rightarrow> with_indices_ensured rt r (sv\<lparr>sv_chunks := chs\<rparr>))"

definition rpc_upsert_cell :: "'p Runtime \<Rightarrow> 'p OwnedCell \<Rightarrow> 'p Server \<Rightarrow> (('p WriteError + CellHeader) \<times> 'p Server) option" where
  "rpc_upsert_cell rt cell sv =
     (case Chunks_upsert_cell (rt_env rt) (rt_clean rt) cell (sv_chunks sv) of
        None \<Rightarrow> None
      | Some ((r, _), chs) \<Rightarrow> with_indices_ensured rt r (sv\<lparr>sv_chunks := chs\<rparr>))"

definition chunk_count :: "'p Chunk \<Rightarrow> nat" where
  "chunk_count ch = card (dom (cell_index ch))"

definition Chunks_count :: "'p Chunks \<Rightarrow> nat" where
  "Chunks_count chs = sum_list (map chunk_count chs)"

definition rpc_count :: "'p Server \<Rightarrow> u64" where
  "rpc_count sv = of_nat (Chunks_count (sv_chunks sv))"

section \<open>The client\<close>

record 'p Fleet =
  get_server_id :: "u64 \<Rightarrow> u64 option"
  connects :: "u64 \<Rightarrow> bool"
  answers :: "u64 \<Rightarrow> bool"
  is_unit_id :: "Id \<Rightarrow> bool"
  unit_id :: Id
  members :: "u64 list"
  arrival :: "nat list \<Rightarrow> nat list"
  dedup_ids :: "Id list \<Rightarrow> Id list"
  group_ids :: "(Id \<times> u64) list \<Rightarrow> (u64 \<times> (Id \<times> u64) list) list"

datatype ClientError = IOError_NotFound | IOError_Connect | RPC_NoAnswer

definition locate_server_id :: "'p Fleet \<Rightarrow> Id \<Rightarrow> ClientError + u64" where
  "locate_server_id F i =
     (if is_unit_id F i then Inr 0
      else case get_server_id F (higher i) of Some n \<Rightarrow> Inr n | None \<Rightarrow> Inl IOError_NotFound)"

definition client_by_server_id :: "'p Fleet \<Rightarrow> u64 \<Rightarrow> ClientError + u64" where
  "client_by_server_id F sid = (if connects F sid then Inr sid else Inl IOError_Connect)"

text \<open>\<^verbatim>\<open>locate_plain_server\<close> panics when the server cannot be located; the assertion that its number is not 0 is for debug
  builds.\<close>

definition locate_plain_server :: "'p Fleet \<Rightarrow> Id \<Rightarrow> (ClientError + u64) option" where
  "locate_plain_server F i = (case locate_server_id F i of Inl _ \<Rightarrow> None | Inr sid \<Rightarrow> Some (client_by_server_id F sid))"

text \<open>A request to the server of an identifier.\<close>

definition on_plain_server ::
  "'p Fleet \<Rightarrow> Id \<Rightarrow> ('p Server \<Rightarrow> ('r \<times> 'p Server) option) \<Rightarrow> (u64 \<Rightarrow> 'p Server) \<Rightarrow> ((ClientError + 'r) \<times> (u64 \<Rightarrow> 'p Server)) option" where
  "on_plain_server F i f svs =
     (case locate_plain_server F i of
        None \<Rightarrow> None
      | Some (Inl e) \<Rightarrow> Some (Inl e, svs)
      | Some (Inr sid) \<Rightarrow>
          if \<not> answers F sid then Some (Inl RPC_NoAnswer, svs)
          else map_option (\<lambda>(r, sv). (Inr r, svs(sid := sv))) (f (svs sid)))"

definition client_read_cell ::
  "'p Runtime \<Rightarrow> 'p Fleet \<Rightarrow> Id \<Rightarrow> (u64 \<Rightarrow> 'p Server) \<Rightarrow> ((ClientError + (ReadError + 'p OwnedCell)) \<times> (u64 \<Rightarrow> 'p Server)) option" where
  "client_read_cell rt F i = on_plain_server F i (\<lambda>sv. map_option (\<lambda>r. (r, sv)) (rpc_read_cell rt i sv))"

definition client_write_cell ::
  "'p Runtime \<Rightarrow> 'p Fleet \<Rightarrow> 'p OwnedCell \<Rightarrow> (u64 \<Rightarrow> 'p Server) \<Rightarrow> ((ClientError + ('p WriteError + CellHeader)) \<times> (u64 \<Rightarrow> 'p Server)) option" where
  "client_write_cell rt F cell = on_plain_server F (header_id (header cell)) (rpc_write_cell rt cell)"

definition client_update_cell ::
  "'p Runtime \<Rightarrow> 'p Fleet \<Rightarrow> 'p OwnedCell \<Rightarrow> (u64 \<Rightarrow> 'p Server) \<Rightarrow> ((ClientError + ('p WriteError + CellHeader)) \<times> (u64 \<Rightarrow> 'p Server)) option" where
  "client_update_cell rt F cell = on_plain_server F (header_id (header cell)) (rpc_update_cell rt cell)"

definition client_upsert_cell ::
  "'p Runtime \<Rightarrow> 'p Fleet \<Rightarrow> 'p OwnedCell \<Rightarrow> (u64 \<Rightarrow> 'p Server) \<Rightarrow> ((ClientError + ('p WriteError + CellHeader)) \<times> (u64 \<Rightarrow> 'p Server)) option" where
  "client_upsert_cell rt F cell = on_plain_server F (header_id (header cell)) (rpc_upsert_cell rt cell)"

definition client_remove_cell ::
  "'p Runtime \<Rightarrow> 'p Fleet \<Rightarrow> Id \<Rightarrow> (u64 \<Rightarrow> 'p Server) \<Rightarrow> ((ClientError + ('p WriteError + unit)) \<times> (u64 \<Rightarrow> 'p Server)) option" where
  "client_remove_cell rt F i = on_plain_server F i (rpc_remove_cell rt i)"

text \<open>\<^verbatim>\<open>count\<close>: the answers are added as they arrive, the first error ends the request.\<close>

fun sum_counts :: "'p Fleet \<Rightarrow> (u64 \<Rightarrow> 'p Server) \<Rightarrow> u64 list \<Rightarrow> u64 \<Rightarrow> ClientError + u64" where
  "sum_counts F svs [] acc = Inr acc"
| "sum_counts F svs (sid # sids) acc =
     (case client_by_server_id F sid of
        Inl e \<Rightarrow> Inl e
      | Inr s \<Rightarrow> if \<not> answers F s then Inl RPC_NoAnswer else sum_counts F svs sids (acc + rpc_count (svs s)))"

definition client_count :: "'p Fleet \<Rightarrow> (u64 \<Rightarrow> 'p Server) \<Rightarrow> ClientError + u64" where
  "client_count F svs = sum_counts F svs (map (\<lambda>j. members F ! j) (arrival F [0 ..< length (members F)])) 0"

subsection \<open>Hash indices\<close>

text \<open>\<^verbatim>\<open>HashIndexer\<close> of \<^verbatim>\<open>index/hash/mod.rs\<close> keeps the identifier of a cell as a cell of its own; the value of an
  identifier and its extraction, which panics on other values, belong to the value library.\<close>

definition OwnedCell_new_with_id :: "u32 \<Rightarrow> u32 \<Rightarrow> Id \<Rightarrow> 'p Value \<Rightarrow> 'p OwnedCell" where
  "OwnedCell_new_with_id now sid i v = \<lparr>header = CellHeader_new now sid i, data = v\<rparr>"

definition HASH_INDEX_SCHEMA_ID :: "'p Lib \<Rightarrow> u32" where
  "HASH_INDEX_SCHEMA_ID L = ucast (key_hash L ''HASH_INDEX_SCHEMA'')"

definition hash_add_index ::
  "'p Runtime \<Rightarrow> 'p Fleet \<Rightarrow> (Id \<Rightarrow> 'p Value) \<Rightarrow> u32 \<Rightarrow> Id \<Rightarrow> Id \<Rightarrow> (u64 \<Rightarrow> 'p Server) \<Rightarrow>
   ((ClientError + ('p WriteError + CellHeader)) \<times> (u64 \<Rightarrow> 'p Server)) option" where
  "hash_add_index rt F id_value now cid index_id =
     client_write_cell rt F (OwnedCell_new_with_id now (HASH_INDEX_SCHEMA_ID (env_lib (rt_env rt))) index_id (id_value cid))"

definition hash_remove_index ::
  "'p Runtime \<Rightarrow> 'p Fleet \<Rightarrow> Id \<Rightarrow> (u64 \<Rightarrow> 'p Server) \<Rightarrow> ((ClientError + ('p WriteError + unit)) \<times> (u64 \<Rightarrow> 'p Server)) option" where
  "hash_remove_index rt F index_id = client_remove_cell rt F index_id"

definition hash_query ::
  "'p Runtime \<Rightarrow> 'p Fleet \<Rightarrow> ('p Value \<Rightarrow> Id option) \<Rightarrow> Id \<Rightarrow> (u64 \<Rightarrow> 'p Server) \<Rightarrow> ((ClientError + (ReadError + Id)) \<times> (u64 \<Rightarrow> 'p Server)) option" where
  "hash_query rt F value_id index_id svs =
     (case client_read_cell rt F index_id svs of
        None \<Rightarrow> None
      | Some (Inl e, svs') \<Rightarrow> Some (Inl e, svs')
      | Some (Inr (Inl e), svs') \<Rightarrow> Some (Inr (Inl e), svs')
      | Some (Inr (Inr cell), svs') \<Rightarrow> map_option (\<lambda>i. (Inr (Inr i), svs')) (value_id (data cell)))"

subsection \<open>Reading many cells\<close>

text \<open>The request of a group: a connection that cannot be made panics, and the group of the unit identifier is
  answered by the client itself.\<close>

definition read_group ::
  "'p Runtime \<Rightarrow> 'p Fleet \<Rightarrow> (u64 \<Rightarrow> 'p Server) \<Rightarrow> u64 \<times> Id list \<Rightarrow> ((ClientError + (ReadError + 'p OwnedCell) list) \<times> Id list) option" where
  "read_group rt F svs g =
     (case g of (sid, ids) \<Rightarrow>
        if sid > 0
        then (case client_by_server_id F sid of
                Inl _ \<Rightarrow> None
              | Inr s \<Rightarrow> if \<not> answers F s then Some (Inl RPC_NoAnswer, ids)
                         else map_option (\<lambda>cs. (Inr cs, ids)) (rpc_read_all_cells rt ids (svs s)))
        else Some (Inr [Inl RE_CellIdIsUnitId], [unit_id F]))"

text \<open>The answers, in the order they arrive, go into a map from identifiers.\<close>

fun collect_answers ::
  "((ClientError + 'a list) \<times> Id list) list \<Rightarrow> (Id \<Rightarrow> 'a option option) \<Rightarrow> ClientError + (Id \<Rightarrow> 'a option option)" where
  "collect_answers [] m = Inr m"
| "collect_answers ((Inl e, ids) # gs) m = Inl e"
| "collect_answers ((Inr cells, ids) # gs) m = collect_answers gs (foldl (\<lambda>m (i, c). m(i \<mapsto> Some c)) m (zip ids cells))"

text \<open>Each identifier takes its cell out of the map; one that is not there, or whose cell is gone, panics.\<close>

fun take_answers :: "Id list \<Rightarrow> (Id \<Rightarrow> 'a option option) \<Rightarrow> 'a list option" where
  "take_answers [] m = Some []"
| "take_answers (i # ids) m =
     (case m i of
        Some (Some c) \<Rightarrow> map_option ((#) c) (take_answers ids (m(i \<mapsto> None)))
      | _ \<Rightarrow> None)"

definition client_read_all_cells ::
  "'p Runtime \<Rightarrow> 'p Fleet \<Rightarrow> Id list \<Rightarrow> (u64 \<Rightarrow> 'p Server) \<Rightarrow> (ClientError + (ReadError + 'p OwnedCell) list) option" where
  "client_read_all_cells rt F ids svs = do {
     located \<leftarrow> those (map (\<lambda>i. case locate_server_id F i of Inl _ \<Rightarrow> None | Inr s \<Rightarrow> Some (i, s)) (dedup_ids F ids));
     resp \<leftarrow> those (map (\<lambda>g. read_group rt F svs (fst g, map fst (snd g))) (group_ids F located));
     (case collect_answers (map (\<lambda>j. resp ! j) (arrival F [0 ..< length resp])) Map.empty of
        Inl e \<Rightarrow> Some (Inl e)
      | Inr m \<Rightarrow> map_option Inr (take_answers ids m)) }"

section \<open>Lemmas: reading many cells\<close>

lemma those_map_Some: "(\<forall>x \<in> set xs. f x = Some (g x)) \<Longrightarrow> those (map f xs) = Some (map g xs)"
  by (induction xs) simp_all

lemma zip_graph:
  assumes "\<forall>(i, c) \<in> set ps. c = a i"
  shows "foldl (\<lambda>m (i, c). m(i \<mapsto> Some c)) m ps = (\<lambda>i. if i \<in> fst ` set ps then Some (Some (a i)) else m i)"
  using assms
proof (induction ps arbitrary: m)
  case (Cons p ps)
  obtain j where p: "p = (j, a j)" using Cons.prems by (cases p) auto
  have "\<forall>(i, c) \<in> set ps. c = a i" using Cons.prems by simp
  from Cons.IH [OF this, of "m(j \<mapsto> Some (a j))"] show ?case by (simp add: p fun_eq_iff)
qed simp

lemma collect_answers_all:
  assumes "\<forall>g \<in> set gs. \<exists>cells ids. g = (Inr cells, ids) \<and> (\<forall>(i, c) \<in> set (zip ids cells). c = a i) \<and> fst ` set (zip ids cells) = K g"
  shows "collect_answers gs m = Inr (\<lambda>i. if i \<in> (\<Union>g \<in> set gs. K g) then Some (Some (a i)) else m i)"
  using assms
proof (induction gs arbitrary: m)
  case (Cons g gs)
  obtain cells ids where g: "g = (Inr cells, ids)" "\<forall>(i, c) \<in> set (zip ids cells). c = a i" "fst ` set (zip ids cells) = K g" using Cons.prems by auto
  have "\<forall>g \<in> set gs. \<exists>cells ids. g = (Inr cells, ids) \<and> (\<forall>(i, c) \<in> set (zip ids cells). c = a i) \<and> fst ` set (zip ids cells) = K g"
    using Cons.prems by simp
  from Cons.IH [OF this, of "\<lambda>i. if i \<in> K g then Some (Some (a i)) else m i"]
  have "collect_answers (g # gs) m = Inr (\<lambda>i. if i \<in> (\<Union>g \<in> set gs. K g) then Some (Some (a i)) else if i \<in> K g then Some (Some (a i)) else m i)"
    using zip_graph [OF g(2), of m] by (simp add: g(1) g(3) [unfolded g(1)])
  then show ?case by (auto simp: fun_eq_iff)
qed simp

lemma take_answers_some:
  assumes "\<forall>i. m i = None \<or> m i = Some None \<or> m i = Some (Some (a i))"
  shows "take_answers ids m = (if distinct ids \<and> (\<forall>i \<in> set ids. m i = Some (Some (a i))) then Some (map a ids) else None)"
  using assms
proof (induction ids arbitrary: m)
  case (Cons i ids)
  show ?case
  proof (cases "m i = Some (Some (a i))")
    case True
    have "\<forall>j. (m(i \<mapsto> None)) j = None \<or> (m(i \<mapsto> None)) j = Some None \<or> (m(i \<mapsto> None)) j = Some (Some (a j))" using Cons.prems by simp
    note IH = Cons.IH [OF this]
    have "(\<forall>j \<in> set ids. (m(i \<mapsto> None)) j = Some (Some (a j))) \<longleftrightarrow> i \<notin> set ids \<and> (\<forall>j \<in> set ids. m j = Some (Some (a j)))" by auto
    then show ?thesis using True by (simp add: IH del: fun_upd_apply)
  next
    case False
    then have "m i = None \<or> m i = Some None" using Cons.prems by auto
    then show ?thesis by auto
  qed
qed simp

text \<open>A fleet whose servers can all be reached, and what each identifier reads there.\<close>

definition fleet_ok :: "'p Fleet \<Rightarrow> bool" where
  "fleet_ok F \<longleftrightarrow> (\<forall>i. is_unit_id F i \<longleftrightarrow> i = unit_id F) \<and>
     (\<forall>p. \<exists>sid. get_server_id F p = Some sid \<and> 0 < sid \<and> connects F sid \<and> answers F sid) \<and>
     (\<forall>xs. set (arrival F xs) = set xs) \<and> (\<forall>ids. set (dedup_ids F ids) = set ids) \<and>
     (\<forall>xs. concat (map snd (group_ids F xs)) = xs \<and> (\<forall>g \<in> set (group_ids F xs). snd g \<noteq> [] \<and> (\<forall>y \<in> set (snd g). snd y = fst g)))"

definition home :: "'p Fleet \<Rightarrow> Id \<Rightarrow> u64" where
  "home F i = the (get_server_id F (higher i))"

definition read_at_home :: "'p Runtime \<Rightarrow> 'p Fleet \<Rightarrow> (u64 \<Rightarrow> 'p Server) \<Rightarrow> Id \<Rightarrow> ReadError + 'p OwnedCell" where
  "read_at_home rt F svs i = (if i = unit_id F then Inl RE_CellIdIsUnitId else the (rpc_read_cell rt i (svs (home F i))))"

lemma fleet_home:
  assumes "fleet_ok F"
  shows "get_server_id F (higher i) = Some (home F i)" "0 < home F i" "connects F (home F i)" "answers F (home F i)"
  using assms unfolding fleet_ok_def home_def by (metis option.sel)+

lemma fleet_locate: "fleet_ok F \<Longrightarrow> locate_server_id F i = Inr (if i = unit_id F then 0 else home F i)"
  by (simp add: locate_server_id_def fleet_home) (simp add: fleet_ok_def)

lemma read_group_answers:
  assumes F: "fleet_ok F" and total: "\<forall>i \<in> set ids. i \<noteq> unit_id F \<longrightarrow> rpc_read_cell rt i (svs (home F i)) \<noteq> None"
    and sid: "\<forall>i \<in> set ids. (if i = unit_id F then 0 else home F i) = sid" and ne: "ids \<noteq> []"
  shows "\<exists>cells ids'. read_group rt F svs (sid, ids) = Some (Inr cells, ids') \<and>
    (\<forall>(i, c) \<in> set (zip ids' cells). c = read_at_home rt F svs i) \<and> fst ` set (zip ids' cells) = set ids"
proof (cases "sid = 0")
  case True
  then have "i = unit_id F" if "i \<in> set ids" for i using that sid fleet_home(2) [OF F, of i] by (auto split: if_splits)
  then have "set ids = {unit_id F}" using ne by (cases ids) auto
  then show ?thesis using True by (simp add: read_group_def read_at_home_def)
next
  case False
  then have home: "i \<noteq> unit_id F" "home F i = sid" if "i \<in> set ids" for i using that sid by (auto split: if_splits)
  have "hd ids \<in> set ids" using ne by simp
  then have s: "connects F sid" "answers F sid" "0 < sid" using home fleet_home [OF F, of "hd ids"] by auto
  have "Chunks_read_cell (rt_env rt) (sv_chunks (svs sid)) i = Some (read_at_home rt F svs i)" if "i \<in> set ids" for i
    using that home [OF that] total by (auto simp: read_at_home_def rpc_read_cell_def)
  then have "rpc_read_all_cells rt ids (svs sid) = Some (map (read_at_home rt F svs) ids)"
    unfolding rpc_read_all_cells_def by (intro those_map_Some) simp
  moreover have "zip ids (map f ids) = map (\<lambda>i. (i, f i)) ids" for f :: "Id \<Rightarrow> ReadError + 'a OwnedCell" by (induction ids) simp_all
  ultimately show ?thesis using s
    by (intro exI [of _ "map (read_at_home rt F svs) ids"] exI [of _ ids]) (auto simp: read_group_def client_by_server_id_def image_image)
qed

text \<open>The identifiers with the servers they are asked at, in the order of the request.\<close>

definition located :: "'p Fleet \<Rightarrow> Id list \<Rightarrow> (Id \<times> u64) list" where
  "located F ids = map (\<lambda>i. (i, if i = unit_id F then 0 else home F i)) (dedup_ids F ids)"

abbreviation ask_group :: "'p Runtime \<Rightarrow> 'p Fleet \<Rightarrow> (u64 \<Rightarrow> 'p Server) \<Rightarrow> u64 \<times> (Id \<times> u64) list \<Rightarrow>
    ((ClientError + (ReadError + 'p OwnedCell) list) \<times> Id list) option" where
  "ask_group rt F svs g \<equiv> read_group rt F svs (fst g, map fst (snd g))"

lemma ask_group_answers:
  assumes F: "fleet_ok F" and total: "\<forall>i \<in> set ids. i \<noteq> unit_id F \<longrightarrow> rpc_read_cell rt i (svs (home F i)) \<noteq> None"
    and g: "g \<in> set (group_ids F (located F ids))"
  shows "\<exists>cells ids'. ask_group rt F svs g = Some (Inr cells, ids') \<and> (\<forall>(i, c) \<in> set (zip ids' cells). c = read_at_home rt F svs i) \<and>
    fst ` set (zip ids' cells) = fst ` set (snd g)"
proof -
  have G: "concat (map snd (group_ids F (located F ids))) = located F ids"
      "snd g \<noteq> [] \<and> (\<forall>y \<in> set (snd g). snd y = fst g)" and D: "set (dedup_ids F ids) = set ids"
    using F g unfolding fleet_ok_def by blast+
  have "set (snd g) \<subseteq> set (concat (map snd (group_ids F (located F ids))))" using g by auto
  then have sub: "set (snd g) \<subseteq> set (located F ids)" using G(1) by (simp only:)
  then have in_ids: "fst ` set (snd g) \<subseteq> set ids" by (auto simp: located_def D)
  have s: "\<forall>i \<in> set (map fst (snd g)). (if i = unit_id F then 0 else home F i) = fst g" using sub G(2) by (fastforce simp: located_def)
  have ne: "map fst (snd g) \<noteq> []" using G(2) by simp
  have "\<forall>i \<in> set (map fst (snd g)). i \<noteq> unit_id F \<longrightarrow> rpc_read_cell rt i (svs (home F i)) \<noteq> None" using total in_ids by auto
  from read_group_answers [OF F this s ne] show ?thesis by (simp only: set_map)
qed

text \<open>All groups together answer for each identifier of the request, in whatever order they arrive.\<close>

lemma collect_groups:
  assumes F: "fleet_ok F" and total: "\<forall>i \<in> set ids. i \<noteq> unit_id F \<longrightarrow> rpc_read_cell rt i (svs (home F i)) \<noteq> None"
  obtains resp where "those (map (ask_group rt F svs) (group_ids F (located F ids))) = Some resp"
    and "collect_answers (map (\<lambda>j. resp ! j) (arrival F [0 ..< length resp])) Map.empty =
      Inr (\<lambda>i. if i \<in> set ids then Some (Some (read_at_home rt F svs i)) else None)"
proof -
  let ?a = "read_at_home rt F svs" and ?gs = "group_ids F (located F ids)"
  note grp = ask_group_answers [OF assms]
  define resp where "resp = map (\<lambda>g. the (ask_group rt F svs g)) ?gs"
  define K where "K r = (case r of (Inr cells, ids) \<Rightarrow> fst ` set (zip ids cells) | _ \<Rightarrow> {})"
    for r :: "(ClientError + (ReadError + 'a OwnedCell) list) \<times> Id list"
  have those: "those (map (ask_group rt F svs) ?gs) = Some resp" unfolding resp_def
  proof (intro those_map_Some ballI)
    show "ask_group rt F svs g = Some (the (ask_group rt F svs g))" if "g \<in> set ?gs" for g using grp [OF that] by auto
  qed
  have "set (arrival F [0 ..< length resp]) = {0 ..< length resp}" using F by (simp add: fleet_ok_def)
  then have arr: "set (map (\<lambda>j. resp ! j) (arrival F [0 ..< length resp])) = set resp" unfolding set_map by (simp add: nth_image)
  have "\<exists>cells ids. r = (Inr cells, ids) \<and> (\<forall>(i, c) \<in> set (zip ids cells). c = ?a i) \<and> fst ` set (zip ids cells) = K r" if r: "r \<in> set resp" for r
  proof -
    obtain g where g: "g \<in> set ?gs" "r = the (ask_group rt F svs g)" using r unfolding resp_def set_map by blast
    then obtain cells ids' where "ask_group rt F svs g = Some (Inr cells, ids')" "\<forall>(i, c) \<in> set (zip ids' cells). c = ?a i" using grp [OF g(1)] by blast
    then show ?thesis using g(2) by (intro exI [of _ cells] exI [of _ ids']) (simp add: K_def)
  qed
  then have "\<forall>r \<in> set (map (\<lambda>j. resp ! j) (arrival F [0 ..< length resp])). \<exists>cells ids. r = (Inr cells, ids) \<and>
      (\<forall>(i, c) \<in> set (zip ids cells). c = ?a i) \<and> fst ` set (zip ids cells) = K r" unfolding arr by blast
  note collect = collect_answers_all [OF this, of Map.empty, unfolded arr]
  have "K (the (ask_group rt F svs g)) = fst ` set (snd g)" if g: "g \<in> set ?gs" for g
  proof -
    obtain cells ids' where "ask_group rt F svs g = Some (Inr cells, ids')" "fst ` set (zip ids' cells) = fst ` set (snd g)" using grp [OF g] by blast
    then show ?thesis unfolding K_def by (simp only: option.sel prod.case sum.case)
  qed
  then have "(\<Union>r \<in> set resp. K r) = fst ` set (concat (map snd ?gs))" by (auto simp: resp_def image_UN)
  also have "concat (map snd ?gs) = located F ids" using F unfolding fleet_ok_def by blast
  finally have "(\<Union>r \<in> set resp. K r) = set ids" using F by (simp add: located_def image_image fleet_ok_def)
  then show thesis using that [OF those] collect by simp
qed

lemma read_all_answers:
  assumes F: "fleet_ok F" and total: "\<forall>i \<in> set ids. i \<noteq> unit_id F \<longrightarrow> rpc_read_cell rt i (svs (home F i)) \<noteq> None"
  shows "client_read_all_cells rt F ids svs = (if distinct ids then Some (Inr (map (read_at_home rt F svs) ids)) else None)"
proof -
  obtain resp where resp: "those (map (ask_group rt F svs) (group_ids F (located F ids))) = Some resp"
      "collect_answers (map (\<lambda>j. resp ! j) (arrival F [0 ..< length resp])) Map.empty =
        Inr (\<lambda>i. if i \<in> set ids then Some (Some (read_at_home rt F svs i)) else None)"
    using collect_groups [OF assms] .
  have "those (map (\<lambda>i. case locate_server_id F i of Inl _ \<Rightarrow> None | Inr s \<Rightarrow> Some (i, s)) (dedup_ids F ids)) = Some (located F ids)"
    unfolding located_def by (intro those_map_Some) (simp add: fleet_locate [OF F])
  then show ?thesis using resp
      take_answers_some [of "\<lambda>i. if i \<in> set ids then Some (Some (read_at_home rt F svs i)) else None" "read_at_home rt F svs" ids]
    by (simp add: client_read_all_cells_def)
qed

section \<open>Lemmas: a write and its index entries\<close>

lemma write_cell_requests:
  assumes "SchemasMap_get (schemas ch) (schema (header c)) = Some sch" and "plan_cell (env_lib E) sch (data c) = Ok (t, js)"
    and "t + CELL_HEADER_SIZE + 5 \<le> unat MAX_CELL_SIZE" and "head_room ch (t + CELL_HEADER_SIZE + 5)"
    and "cell_index ch (hash (header c)) = None" and "index_builder ch = Some []"
  shows "\<exists>ch'. write_cell E cln c ch = Some (Inr (header (bump c)), bump c, ch') \<and> index_builder ch' = Some [EnsureIndices (bump c) sch None]"
proof -
  obtain a ch1 where w: "write_cell_to_chunk E cln c ch = Some (Inr (a, sch), bump c, ch1)" "cell_index ch1 = cell_index ch" "index_builder ch1 = index_builder ch"
    using write_cell_to_chunk_room [OF assms(1-4), of cln] by blast
  then show ?thesis using assms(5,6) by (simp add: write_cell_def request_index_def set_index_def)
qed

lemma read_cell_index_builder: "read_cell E (ch\<lparr>index_builder := ib\<rparr>) h = read_cell E ch h"
proof -
  have m: "memory (ch\<lparr>index_builder := ib\<rparr>) = memory ch" "schemas (ch\<lparr>index_builder := ib\<rparr>) = schemas ch"
      "cell_index (ch\<lparr>index_builder := ib\<rparr>) = cell_index ch" by simp_all
  show ?thesis unfolding read_cell_def location_for_read_def from_chunk_raw_def m by (rule refl)
qed

text \<open>A server that waits for no index task, with room for a new cell in the chunk of its partition.\<close>

definition write_ready ::
  "'p Runtime \<Rightarrow> (Type \<Rightarrow> 'p Value \<Rightarrow> bytes) \<Rightarrow> (Type \<Rightarrow> 'p Value \<Rightarrow> bool) \<Rightarrow> (Type \<Rightarrow> 'p \<Rightarrow> bool) \<Rightarrow> 'p OwnedCell \<Rightarrow> Schema \<Rightarrow> 'p Server \<Rightarrow> bool" where
  "write_ready rt enc wt wta c sch sv \<longleftrightarrow> env_ok (rt_env rt) \<and> types_ok (env_lib (rt_env rt)) enc wt wta \<and> rt_clean rt = clean (rt_env rt) \<and>
     sv_indexer sv \<and> sv_chunks sv \<noteq> [] \<and> (\<forall>ch \<in> set (sv_chunks sv). index_builder ch = Some []) \<and>
     (let ch = sv_chunks sv ! (unat (partition (header c)) mod length (sv_chunks sv))
      in (\<exists>S. Neb_Store.store_rel (env_lib (rt_env rt)) enc wt wta S ch \<and> S (hash (header c)) = None) \<and> ready (env_lib (rt_env rt)) wt wta ch c \<and>
         SchemasMap_get (schemas ch) (schema (header c)) = Some sch \<and>
         (\<exists>t js. plan_cell (env_lib (rt_env rt)) sch (data c) = Ok (t, js) \<and> t + CELL_HEADER_SIZE + 5 \<le> unat MAX_CELL_SIZE \<and>
            head_room ch (t + CELL_HEADER_SIZE + 5)))"

lemma write_ready_writes:
  assumes "write_ready rt enc wt wta c sch sv"
  shows "\<exists>chs. Chunks_write_cell (rt_env rt) (rt_clean rt) c (sv_chunks sv) = Some ((Inr (header (bump c)), bump c), chs) \<and>
    fst (take_requests chs) = [EnsureIndices (bump c) sch None] \<and>
    Chunks_read_cell (rt_env rt) (snd (take_requests chs)) (header_id (header c)) = Some (Inr (bump c))"
proof -
  let ?E = "rt_env rt" and ?i = "unat (partition (header c)) mod length (sv_chunks sv)"
  let ?ch = "sv_chunks sv ! ?i"
  have W: "env_ok ?E" "types_ok (env_lib ?E) enc wt wta" "rt_clean rt = clean ?E" "sv_chunks sv \<noteq> []" "\<forall>ch \<in> set (sv_chunks sv). index_builder ch = Some []"
      "ready (env_lib ?E) wt wta ?ch c" "SchemasMap_get (schemas ?ch) (schema (header c)) = Some sch"
    using assms by (simp_all add: write_ready_def Let_def)
  obtain S t js where S: "Neb_Store.store_rel (env_lib ?E) enc wt wta S ?ch" "S (hash (header c)) = None"
      "plan_cell (env_lib ?E) sch (data c) = Ok (t, js)" "t + CELL_HEADER_SIZE + 5 \<le> unat MAX_CELL_SIZE" "head_room ?ch (t + CELL_HEADER_SIZE + 5)"
    using assms by (auto simp: write_ready_def Let_def)
  have i: "?i < length (sv_chunks sv)" using W(4) by simp
  have "cell_index ?ch (hash (header c)) = None" using store_relD(2) [OF S(1)] S(2) by simp
  moreover have "index_builder ?ch = Some []" using W(5) i by simp
  ultimately obtain ch' where w: "write_cell ?E (clean ?E) c ?ch = Some (Inr (header (bump c)), bump c, ch')"
      "index_builder ch' = Some [EnsureIndices (bump c) sch None]"
    using write_cell_requests [OF W(7) S(3-5)] by blast
  let ?chs = "(sv_chunks sv)[?i := ch']"
  have "Chunks_write_cell ?E (rt_clean rt) c (sv_chunks sv) = Some ((Inr (header (bump c)), bump c), ?chs)"
    using W(3,4) w(1) by (simp add: Chunks_write_cell_def locate_chunk_by_partition_def on_chunk_def)
  moreover have "fst (take_requests ?chs) = [EnsureIndices (bump c) sch None]"
  proof -
    have none: "concat (map (\<lambda>ch. case index_builder ch of None \<Rightarrow> [] | Some rs \<Rightarrow> rs) chs) = []" if "set chs \<subseteq> set (sv_chunks sv)" for chs
      using that W(5) by auto
    show ?thesis unfolding take_requests_def fst_conv upd_conv_take_nth_drop [OF i] map_append concat_append list.map concat.simps
        none [OF set_take_subset] none [OF set_drop_subset] by (simp add: w(2))
  qed
  moreover have "Neb_Store.store_rel (env_lib ?E) enc wt wta (S(hash (header c) \<mapsto> bump c)) ch'"
    using chunk_cleaner.put_op_refines(1) [OF clean_chunk_cleaner [OF W(1)] S(1) env_okD(1) [OF W(1)] W(2,6) w(1)] S(2) by auto
  then have "read_cell ?E ch' (hash (header c)) = Some (Inr (bump c))" using read_refines [OF _ W(2)] by simp
  then have "Chunks_read_cell ?E (snd (take_requests ?chs)) (header_id (header c)) = Some (Inr (bump c))"
    using i W(4) by (simp add: Chunks_read_cell_def locate_chunk_by_key_def locate_chunk_by_partition_def take_requests_def header_id_def
        read_cell_index_builder)
  ultimately show ?thesis by blast
qed

section \<open>Properties\<close>

text \<open>C15: a client's request for many cells returns, in the order of the request and in whatever order the
  servers answer, what each identifier reads at its own server; it panics as soon as an identifier comes
  twice, although the request drops neighbours that are equal.\<close>

theorem read_all_cells_answers:
  assumes "fleet_ok F" and "\<forall>i \<in> set ids. i \<noteq> unit_id F \<longrightarrow> rpc_read_cell rt i (svs (home F i)) \<noteq> None"
  shows "client_read_all_cells rt F ids svs = (if distinct ids then Some (Inr (map (read_at_home rt F svs) ids)) else None)"
  using assms by (rule read_all_answers)


section \<open>A concrete server\<close>

text \<open>Iterators as itertools documents them: both look at neighbours only.\<close>

fun dedup :: "'a list \<Rightarrow> 'a list" where
  "dedup [] = []"
| "dedup [x] = [x]"
| "dedup (x # y # xs) = (if x = y then dedup (y # xs) else x # dedup (y # xs))"

fun group_by :: "('a \<Rightarrow> 'b) \<Rightarrow> 'a list \<Rightarrow> ('b \<times> 'a list) list" where
  "group_by f [] = []"
| "group_by f (x # xs) =
     (case group_by f xs of
        (k, ys) # gs \<Rightarrow> if k = f x then (k, x # ys) # gs else (f x, [x]) # (k, ys) # gs
      | [] \<Rightarrow> [(f x, [x])])"

lemma set_dedup [simp]: "set (dedup xs) = set xs"
  by (induction xs rule: dedup.induct) auto

lemma group_by_groups:
  "concat (map snd (group_by f xs)) = xs \<and> (\<forall>g \<in> set (group_by f xs). \<forall>y \<in> set (snd g). f y = fst g)"
proof (induction xs)
  case (Cons x xs)
  then show ?case
  proof (cases "group_by f xs")
    case (Cons g gs)
    then show ?thesis using Cons.IH by (cases g) auto
  qed simp
qed simp

lemma group_by_nonempty: "(k, ys) \<in> set (group_by f xs) \<Longrightarrow> ys \<noteq> []"
  by (induction xs arbitrary: k ys) (auto split: list.splits if_splits prod.splits)

definition scan_schema :: Schema where
  "scan_schema = content_schema\<lparr>is_scannable := True, index_fields := [1 \<mapsto> [Ranged]], id_index := [1 \<mapsto> [2]]\<rparr>"

definition scan_lib :: "unit IndexLib" where
  "scan_lib = index_lib_example\<lparr>get_in_by_ids := (\<lambda>v p. case v of VMap _ kvs \<Rightarrow> get_by_key_id kvs (hd p) | _ \<Rightarrow> v)\<rparr>"

definition scan_chunk :: "unit Chunk" where
  "scan_chunk = the (Chunk_new (std_env lib_codec) 0 (4 * SEGMENT_SIZE) (new_schema SchemasMap_new scan_schema)
     (Some []) None None SEGMENT_SIZE (\<lambda>_. 0) \<lparr>files = Map.empty, denied = (\<lambda>_. False)\<rparr>)"

definition scan_server :: "unit Server" where
  "scan_server = \<lparr>sv_chunks = [scan_chunk], sv_indexer = True, sv_index = (genesis_world \<lparr>higher = 0, lower = 1\<rparr>, RangedQueryClient_new)\<rparr>"

definition scan_fleet :: "unit Fleet" where
  "scan_fleet = \<lparr>get_server_id = (\<lambda>_. Some 1), connects = (\<lambda>_. True), answers = (\<lambda>_. True), is_unit_id = (\<lambda>i. i = \<lparr>higher = 0, lower = 0\<rparr>),
     unit_id = \<lparr>higher = 0, lower = 0\<rparr>, members = [1], arrival = (\<lambda>xs. xs), dedup_ids = dedup, group_ids = group_by snd\<rparr>"

definition scan_runtime :: "unit Runtime" where
  "scan_runtime = \<lparr>rt_env = std_env lib_codec, rt_clean = clean (std_env lib_codec), rt_lib = scan_lib, rt_sleep = id, rt_turns = [0, 1]\<rparr>"

lemma scan_chunk_new:
  "Chunk_new (std_env lib_codec) 0 (4 * SEGMENT_SIZE) (new_schema SchemasMap_new scan_schema)
     (Some []) None None SEGMENT_SIZE (\<lambda>_. 0) \<lparr>files = Map.empty, denied = (\<lambda>_. False)\<rparr> = Some scan_chunk"
  "index_builder scan_chunk = Some []" "schemas scan_chunk = new_schema SchemasMap_new scan_schema"
  by (simp_all add: scan_chunk_def Chunk_new_def alloc_seg_def alloc_addr_def SegmentAllocator_new_def Let_def
      segment_mask_eq SEGMENT_SIZE_def PAGE_SIZE_def pop_head_def Segment_new_def put_segment_def)

lemma scan_schema_simps:
  "schema_id scan_schema = 0" "plan_cell L scan_schema v = plan_cell L content_schema v" "is_dynamic scan_schema = is_dynamic content_schema"
  "schema_fields scan_schema = schema_fields content_schema" "static_bound scan_schema = static_bound content_schema"
  "is_scannable scan_schema" "index_fields scan_schema = [1 \<mapsto> [Ranged]]" "id_index scan_schema = [1 \<mapsto> [2]]"
proof -
  have f: "schema_fields scan_schema = schema_fields content_schema" "static_bound scan_schema = static_bound content_schema"
      "is_dynamic scan_schema = is_dynamic content_schema" by (simp_all add: scan_schema_def)
  show "plan_cell L scan_schema v = plan_cell L content_schema v" unfolding plan_cell_def f by (rule refl)
  show "schema_id scan_schema = 0" by (simp add: scan_schema_def content_schema_def Schema_new_def Let_def split: prod.split)
qed (simp_all add: scan_schema_def)

lemma scan_schema_get: "SchemasMap_get (schemas scan_chunk) 0 = Some scan_schema"
  by (simp add: scan_chunk_new(3) new_schema_def SchemasMap_get_def SchemasMap_new_def scan_schema_simps)

lemma scan_store: "Neb_Store.store_rel lib_codec enc_ex wt_ex (\<lambda>_ _. False) Map.empty scan_chunk"
  by (rule new_store_rel [OF scan_chunk_new(1)]) (simp_all add: SEGMENT_SIZE_def PAGE_SIZE_def)

lemma scan_write_ready: "write_ready scan_runtime enc_ex wt_ex (\<lambda>_ _. False) ex_cell scan_schema scan_server"
proof -
  have "ready lib_codec wt_ex (\<lambda>_ _. False) scan_chunk ex_cell"
    using ex_fits by (simp add: ready_def scan_schema_get fits_def scan_schema_simps)
  moreover have "head_room scan_chunk (16 + CELL_HEADER_SIZE + 5)"
    by (rule Chunk_new_head_room [OF scan_chunk_new(1)]) (simp add: SEGMENT_SIZE_def CELL_HEADER_SIZE_def)
  moreover have "\<exists>t js. plan_cell lib_codec scan_schema content_value = Ok (t, js) \<and> t + CELL_HEADER_SIZE + 5 \<le> unat MAX_CELL_SIZE \<and>
      head_room scan_chunk (t + CELL_HEADER_SIZE + 5)"
    using ex_plan calculation(2) by (simp add: scan_schema_simps CELL_HEADER_SIZE_def MAX_CELL_SIZE_def)
  ultimately show ?thesis using lib_codec_ok scan_store
    by (auto simp: write_ready_def scan_runtime_def scan_server_def scan_chunk_new(2) scan_schema_get std_env_ok)
qed

lemma scan_fleet_ok: "fleet_ok scan_fleet" "home scan_fleet i = 1" "unit_id scan_fleet = \<lparr>higher = 0, lower = 0\<rparr>"
proof -
  have "snd g \<noteq> []" if "g \<in> set (group_by snd xs)" for g :: "u64 \<times> (Id \<times> u64) list" and xs
    using group_by_nonempty [of "fst g" "snd g" snd xs] that by simp
  then show "fleet_ok scan_fleet" using group_by_groups by (simp add: fleet_ok_def scan_fleet_def) blast
qed (simp_all add: scan_fleet_def home_def)

theorem read_all_cells_answers_witness:
  "client_read_all_cells scan_runtime scan_fleet [\<lparr>higher = 3, lower = 9\<rparr>, \<lparr>higher = 0, lower = 0\<rparr>] (\<lambda>_. scan_server) =
     Some (Inr [Inl RE_CellDoesNotExisted, Inl RE_CellIdIsUnitId]) \<and>
   client_read_all_cells scan_runtime scan_fleet [\<lparr>higher = 3, lower = 9\<rparr>, \<lparr>higher = 3, lower = 9\<rparr>] (\<lambda>_. scan_server) = None"
proof -
  have "cell_index scan_chunk h = None" for h using store_relD(2) [OF scan_store] by simp
  then have r: "rpc_read_cell scan_runtime \<lparr>higher = 3, lower = 9\<rparr> scan_server = Some (Inl RE_CellDoesNotExisted)"
    by (simp add: rpc_read_cell_def Chunks_read_cell_def scan_server_def locate_chunk_by_key_def locate_chunk_by_partition_def read_cell_def location_for_read_def)
  show ?thesis
    using read_all_cells_answers [OF scan_fleet_ok(1), of "[\<lparr>higher = 3, lower = 9\<rparr>, \<lparr>higher = 0, lower = 0\<rparr>]" scan_runtime "\<lambda>_. scan_server"]
      read_all_cells_answers [OF scan_fleet_ok(1), of "[\<lparr>higher = 3, lower = 9\<rparr>, \<lparr>higher = 3, lower = 9\<rparr>]" scan_runtime "\<lambda>_. scan_server"] r
    by (simp add: scan_fleet_ok read_at_home_def)
qed

lemma scan_cell_keys: "cell_keys scan_lib (bump ex_cell) scan_schema = {from_props \<lparr>higher = 3, lower = 9\<rparr> (be_bytes 8 7) 1 0}"
proof -
  have "be_bytes 8 7 \<noteq> UNSETTLED"
  proof
    assume "be_bytes 8 7 = UNSETTLED"
    moreover have "be_nat (replicate k 0) = 0" for k by (induction k) simp_all
    ultimately show False using be_nat_be_bytes [of 8 7] by (simp add: UNSETTLED_def)
  qed
  then show ?thesis
    by (auto simp: cell_keys_def probe_cell_indices_def scan_lib_def index_lib_example_def scan_schema_simps bump_def ex_cell_def content_value_def
        get_by_key_id_def index_comps_def scalar_comps_def comp_meta_def List.map_filter_def header_id_def)
qed

lemma scan_request_ok: "request_ok scan_lib (bump ex_cell) scan_schema None"
proof -
  have "index_lib_ok scan_lib"
    using number_request_ok [of 1 1 0 0] by (simp add: request_ok_def index_lib_ok_def scan_lib_def)
  then show ?thesis
    by (simp add: request_ok_def scan_cell_keys old_keys_def) (simp add: only_ranged_def scan_schema_simps bump_def ex_cell_def header_id_def)
qed


end
