(* ===== verification/Spec2Isabelle.thy ===== *)
theory Spec2Isabelle
  imports Neb_Client Neb_Server
begin

text \<open>
  A verification library for Nebuchadnezzar, a log-structured in-memory store of cells with
  schemas, optimistic transactions over several servers and a ranged index. All file names are
  relative to \<^verbatim>\<open>src/src\<close>.

  \<^bold>\<open>The program and how its parts interact.\<close>
  A server keeps its cells in chunks (\<^verbatim>\<open>ram/chunk.rs\<close>). A chunk is a set of segments of
  raw memory (\<^verbatim>\<open>ram/segs.rs\<close>) to which entries are appended: cells and tombstones with a
  small header (\<^verbatim>\<open>ram/entry.rs\<close>, \<^verbatim>\<open>ram/tombstone.rs\<close>, \<^verbatim>\<open>ram/cell.rs\<close>). The
  content of a cell is laid out by its schema (\<^verbatim>\<open>ram/schema\<close>, \<^verbatim>\<open>ram/io\<close>). An index maps
  the hash of a cell to the address of its entry; a cleaner (\<^verbatim>\<open>ram/cleaner\<close>) compacts and
  combines segments and moves the entries the index points to. Transactions
  (\<^verbatim>\<open>server/transactions\<close>) are run by a manager that buffers reads and writes and drives data
  sites through two phases; a data site stamps and locks cells and applies the changes to its chunks.
  A chunk that writes or removes a cell asks the index builder (\<^verbatim>\<open>index/builder.rs\<close>) to bring the
  ranged index in step. The ranged index is cut into trees: a replicated state machine
  (\<^verbatim>\<open>index/ranged/sm.rs\<close>) says which tree has which range of keys, a service
  (\<^verbatim>\<open>index/ranged/lsm/service.rs\<close>) runs the trees of a server, each an LSM tree
  (\<^verbatim>\<open>index/ranged/lsm/tree.rs\<close>) of several B+ trees (\<^verbatim>\<open>index/ranged/lsm/btree\<close>), and a client
  (\<^verbatim>\<open>index/ranged/client\<close>) caches the placement and retries when it is stale. A server offers its
  cells over the network (\<^verbatim>\<open>server/cell_rpc.rs\<close>); the client library (\<^verbatim>\<open>client\<close>) finds the server of
  a cell and runs transactions.

  \<^bold>\<open>Theories, definitions and what the lemmas show.\<close>

  \<^item> \<open>Neb_Prelude\<close>: words and bytes, memory as a function from addresses to bytes, a result type
    for errors and panics, ordered association lists for \<^verbatim>\<open>BTreeMap\<close>; the collections of
    simplification rules the other theories use.
  \<^item> \<open>Neb_Entry\<close> (\<^verbatim>\<open>ram/entry.rs\<close>, \<^verbatim>\<open>ram/tombstone.rs\<close>, the header of
    \<^verbatim>\<open>ram/cell.rs\<close>): encoding and decoding of entries. Decoding returns what was encoded and
    reads no other byte; the length field is as short as it can be.
  \<^item> \<open>Neb_Segs\<close> (\<^verbatim>\<open>ram/segs.rs\<close>): segments, allocator, archive and write-ahead log over a
    map of files. Concurrent \<^verbatim>\<open>try_acquire\<close> is a step relation whose every interleaving hands out
    disjoint blocks; the allocator hands out disjoint segments; archives hold the log.
  \<^item> \<open>Neb_Schema\<close> (\<^verbatim>\<open>ram/schema\<close>): field offsets, the schema map, the replicated state machine
    and its local caches. Slots tile the static part; caches and recovered snapshots answer as the
    state machine does.
  \<^item> \<open>Neb_IO\<close> (\<^verbatim>\<open>ram/io\<close>): planning and executing the writes of a value and the readers. What
    conforms to a schema is written and read back unchanged.
  \<^item> \<open>Neb_Chunk\<close> (\<^verbatim>\<open>ram/chunk.rs\<close>, \<^verbatim>\<open>ram/cell.rs\<close>): the operations of a chunk and the
    dispatch over chunks. The locale \<open>chunk_cleaner\<close> is what the operations rely on when they
    call the cleaner for space.
  \<^item> \<open>Neb_Cleaner\<close> (\<^verbatim>\<open>ram/cleaner\<close>): compaction and combination of segments.
  \<^item> \<open>Neb_Store\<close>: the cleaner interprets \<open>chunk_cleaner\<close>; a chunk with its cleaner refines a
    finite map; the cleaner changes no read; compaction returns; packing partitions the entries.
  \<^item> \<open>Neb_Txn\<close>, \<open>Neb_Txn_Site\<close> (\<^verbatim>\<open>server/transactions/mod.rs\<close>, \<^verbatim>\<open>data_site.rs\<close>): the
    protocol's data and the remote procedures of a data site over any store; the locale
    \<open>cell_store\<close> is the contract of the store. Timestamp ordering of prepare and reads, release
    and wake-up at the end, and two interleavings that break the order of transactions.
  \<^item> \<open>Neb_Txn_Store\<close>: chunks interpret \<open>cell_store\<close>, so aborts restore the cells of chunks.
  \<^item> \<open>Neb_Txn_Manager\<close> (\<^verbatim>\<open>server/transactions/manager.rs\<close>): buffered reads and writes, prepare,
    commit, abort and wake-ups as functions on the manager and its sites; \<open>tm_step\<close> interleaves
    them with the requests of other managers. Buffers stay well formed; reads see the own writes.
  \<^item> \<open>Neb_Txn_Cluster\<close>: a prepared transaction has been applied at every site and an aborted one
    undone at every site.
  \<^item> \<open>Neb_EntryKey\<close> (\<^verbatim>\<open>index/entry.rs\<close>): index keys; their order by bytes is the order of schema, field,
    feature and identifier. \<open>Neb_Slice\<close> (\<^verbatim>\<open>index/ranged/trees.rs\<close>): the loops on fixed arrays do what the
    functions of lists do.
  \<^item> \<open>Neb_BTree\<close> (\<^verbatim>\<open>btree/node.rs\<close>, \<^verbatim>\<open>external.rs\<close>, \<^verbatim>\<open>internal.rs\<close>, \<^verbatim>\<open>search.rs\<close>,
    \<^verbatim>\<open>insert.rs\<close>, \<^verbatim>\<open>cursor.rs\<close>): nodes on a heap and the operations on them. \<open>Neb_BTree_Inv\<close> has the
    invariant, \<open>Neb_BTree_Insert\<close> that insertion returns, keeps it and adds the key,
    \<open>Neb_BTree_Cursor\<close> that search and cursors in both directions meet the keys in order: the locale
    \<open>page_cursor\<close> is what a scan relies on, interpreted for both directions.
  \<^item> \<open>Neb_BTree_Merge\<close> (\<^verbatim>\<open>merge.rs\<close>, \<^verbatim>\<open>level.rs\<close>, \<^verbatim>\<open>split.rs\<close>, \<^verbatim>\<open>clear.rs\<close>): merging sorted
    keys, moving pages between trees, cutting and clearing; the merge of pages is a union of sorted lists.
  \<^item> \<open>Neb_LSM\<close> (\<^verbatim>\<open>index/ranged/lsm/tree.rs\<close>): an LSM tree refines a set of keys with deletion marks; its
    cursors scan the keys that are not deleted (locale \<open>level_cursors\<close>, which extends \<open>page_cursor\<close>).
  \<^item> \<open>Neb_Ranged_SM\<close>, \<open>Neb_Ranged_Service\<close>, \<open>Neb_Ranged_Client\<close>: placement, tree service and client. A
    split cuts one range in two and raises the epoch; procedures run only on the tree that has the key;
    paging through blocks ends and meets every key; a client's request reaches the tree of its key. The
    locale \<open>marked_index\<close> is the index as its users see it, interpreted by the client.
  \<^item> \<open>Neb_Index_Builder\<close> (\<^verbatim>\<open>index/builder.rs\<close>): entries of a cell and the tasks that bring the index in
    step, in any interleaving; the locale \<open>entry_index\<close> extends \<open>marked_index\<close>.
  \<^item> \<open>Neb_Server\<close> (\<^verbatim>\<open>server/cell_rpc.rs\<close>, \<^verbatim>\<open>client/mod.rs\<close>, \<^verbatim>\<open>index/hash/mod.rs\<close>): requests on cells
    from the client to the chunks. A write that is answered is in the chunk and in the ranged index;
    reading many cells answers each in the order asked.
  \<^item> \<open>Neb_Client\<close> (\<^verbatim>\<open>client/transaction.rs\<close>, \<^verbatim>\<open>AsyncClient::transaction\<close>): a transaction the client reports
    as successful has been applied to the chunks of every site.

  \<^bold>\<open>Conventions.\<close> A panic, a deadlock of a lock the call itself holds, and a call that does not
  return are \<open>None\<close>; errors the code returns are \<open>Inl\<close>. Integers that are stored or compared
  at their width are words; addresses and lengths in memory are natural numbers. Code outside the
  repository (the value and type library, the vector clocks, the consistent hashing, the memory calls of
  the operating system) are arguments, with what is assumed of them as named predicates such as
  \<open>types_ok\<close>, \<open>clocks_ok\<close>, \<open>index_lib_ok\<close> and \<open>fleet_ok\<close>, each with an instance. Nodes of
  the B+ tree live on a heap that maps addresses to node data; keys are of any type with a linear order, a
  least and a greatest element, and the capacity of a page is the argument \<open>cap\<close>. The set of deleted
  keys that the trees of an LSM tree share in the code is handed to a tree before it is used. What others
  do while a client sleeps is the argument \<open>sleep\<close>, and the turns that pending tasks take are a list.

  \<^bold>\<open>Bounds and fuel.\<close> Loops are structural recursions or have a termination proof with a measure.
  The retry of a transaction's remote call takes one wake-up token per turn, so the number of tokens at
  the start bounds it (\<open>retry_loop\<close>). The packing loop of the cleaner may not end and is a partial
  function; \<open>pack_partitions\<close> and \<open>pack_never_ends\<close> say when. Searches and cursors of the B+ tree that
  follow links are partial functions too; on a well-formed tree they return. The retry loops of the
  clients count down from the limits of the code, 300 for the ranged index and 1000 for transactions.

  \<^bold>\<open>Not modelled.\<close> Pages and LSM trees recorded in cells, and their recovery; latches and reference
  counts of tree nodes, since operations on a tree run alone; background tasks and their timers; the
  start-up of the server and of a client, and the forwarding of schema changes; the wall clock, which is an
  argument; utilities, the query engine and its statistics, which no modelled part calls; the tests.
\<close>

end
